(* ===== verification/TiC_Prelude.thy ===== *)
theory TiC_Prelude
  imports Main "HOL-Library.Word" "HOL-Library.Monad_Syntax"
begin

unbundle bit_operations_syntax

text \<open>
  Shared vocabulary of the development. The C++ program works on raw arrays of machine words
  inside counted loops, so the prelude provides
  \<^item> checked array accesses \<open>rd\<close> and \<open>wr\<close>: an access outside the array (undefined behaviour
    in C++) is the value \<open>None\<close>, and a proof that an operation returns \<open>Some\<close> is a proof of
    memory safety;
  \<^item> the counted loops \<open>for_list\<close> and \<open>for_brk\<close> (with \<^verbatim>\<open>break\<close>) over a list of indices, with
    total-correctness rules driven by an invariant indexed by the loop counter;
  \<^item> the row-major index \<open>mem2d\<close> of the macro of the same name and its arithmetic;
  \<^item> lanes of a 32-bit bus word, most significant lane first, with the pack/unpack laws.
\<close>

named_theorems arr_simps \<open>evaluation of checked array accesses\<close>
named_theorems cfg_simps \<open>arithmetic of the compile-time configuration\<close>

subsection \<open>Checked array accesses\<close>

definition rd :: "'x list \<Rightarrow> nat \<Rightarrow> 'x option" where
  "rd xs i = (if i < length xs then Some (xs ! i) else None)"

definition wr :: "'x list \<Rightarrow> nat \<Rightarrow> 'x \<Rightarrow> 'x list option" where
  "wr xs i v = (if i < length xs then Some (xs[i := v]) else None)"

lemma rd_Some [arr_simps]: "i < length xs \<Longrightarrow> rd xs i = Some (xs ! i)"
  by (simp add: rd_def)

lemma wr_Some [arr_simps]: "i < length xs \<Longrightarrow> wr xs i v = Some (xs[i := v])"
  by (simp add: wr_def)

lemma rd_None: "length xs \<le> i \<Longrightarrow> rd xs i = None"
  by (simp add: rd_def)

text \<open>Indices that are computed with signed arithmetic: a negative index is outside the array.\<close>

definition rdi :: "'x list \<Rightarrow> int \<Rightarrow> 'x option" where
  "rdi xs i = (if 0 \<le> i then rd xs (nat i) else None)"

definition wri :: "'x list \<Rightarrow> int \<Rightarrow> 'x \<Rightarrow> 'x list option" where
  "wri xs i v = (if 0 \<le> i then wr xs (nat i) v else None)"

lemma rdi_nat [simp]: "rdi xs (int i) = rd xs i"
  by (simp add: rdi_def)

lemma wri_nat [simp]: "wri xs (int i) v = wr xs i v"
  by (simp add: wri_def)

definition assert_c :: "bool \<Rightarrow> unit option" where
  "assert_c b = (if b then Some () else None)"

lemma assert_c_True [simp]: "assert_c True = Some ()"
  by (simp add: assert_c_def)

lemma assert_c_False [simp]: "assert_c False = None"
  by (simp add: assert_c_def)

subsection \<open>Counted loops\<close>

fun for_list :: "'i list \<Rightarrow> ('i \<Rightarrow> 's \<Rightarrow> 's option) \<Rightarrow> 's \<Rightarrow> 's option" where
  "for_list [] f s = Some s"
| "for_list (i # is) f s = Option.bind (f i s) (for_list is f)"

fun for_brk :: "'i list \<Rightarrow> ('s \<Rightarrow> bool) \<Rightarrow> ('i \<Rightarrow> 's \<Rightarrow> 's option) \<Rightarrow> 's \<Rightarrow> 's option" where
  "for_brk [] b f s = Some s"
| "for_brk (i # is) b f s =
     Option.bind (f i s) (\<lambda>s'. if b s' then Some s' else for_brk is b f s')"

lemma for_list_append:
  "for_list (is @ js) f s = Option.bind (for_list is f s) (for_list js f)"
proof (induction "is" arbitrary: s)
  case Nil
  then show ?case by simp
next
  case (Cons i "is")
  then show ?case by (cases "f i s") auto
qed

lemma for_list_cong:
  "(\<And>i s. i \<in> set is \<Longrightarrow> f i s = g i s) \<Longrightarrow> for_list is f s = for_list is g s"
proof (induction "is" arbitrary: s)
  case Nil
  then show ?case by simp
next
  case (Cons i "is")
  then show ?case by (cases "g i s") auto
qed

lemma for_list_one: "for_list [i] f = f i"
  by (rule ext) (simp split: Option.bind_split)

lemma for_list_map: "for_list (map h is) f s = for_list is (\<lambda>i. f (h i)) s"
proof (induction "is" arbitrary: s)
  case Nil
  then show ?case by simp
next
  case (Cons i "is")
  then show ?case by (cases "f (h i) s") auto
qed

lemma for_list_concat:
  "for_list (concat iss) f s = for_list iss (\<lambda>is. for_list is f) s"
proof (induction iss arbitrary: s)
  case Nil
  then show ?case by simp
next
  case (Cons "is" iss)
  then show ?case by (cases "for_list is f s") (auto simp: for_list_append)
qed

lemma for_list_fold:
  "(\<And>i s. i \<in> set is \<Longrightarrow> f i s = Some (g i s)) \<Longrightarrow> for_list is f s = Some (fold g is s)"
  by (induction "is" arbitrary: s) auto

text \<open>
  Total correctness of an ascending loop \<^verbatim>\<open>for (i = a; i < b; i++)\<close>: the body returns and carries
  the invariant from \<open>i\<close> to \<open>i + 1\<close>.
\<close>

lemma for_up_rule:
  assumes "I a s" and "a \<le> b"
    and step: "\<And>i s. a \<le> i \<Longrightarrow> i < b \<Longrightarrow> I i s \<Longrightarrow> \<exists>s'. f i s = Some s' \<and> I (Suc i) s'"
  shows "\<exists>s'. for_list [a..<b] f s = Some s' \<and> I b s'"
proof -
  have "\<exists>s'. for_list [a..<a + n] f s = Some s' \<and> I (a + n) s'" if "a + n \<le> b" for n
    using that
  proof (induction n)
    case 0
    then show ?case using assms(1) by simp
  next
    case (Suc n)
    then obtain s1 where s1: "for_list [a..<a + n] f s = Some s1" "I (a + n) s1"
      by auto
    from step [OF _ _ s1(2)] Suc.prems obtain s2
      where "f (a + n) s1 = Some s2" "I (Suc (a + n)) s2" by auto
    with s1(1) show ?case by (simp add: for_list_append)
  qed
  from this [of "b - a"] assms(2) show ?thesis by simp
qed

text \<open>The descending loop \<^verbatim>\<open>for (i = b - 1; i >= a; i--)\<close>.\<close>

lemma for_down_rule:
  assumes "I b s" and "a \<le> b"
    and step: "\<And>i s. a \<le> i \<Longrightarrow> i < b \<Longrightarrow> I (Suc i) s \<Longrightarrow> \<exists>s'. f i s = Some s' \<and> I i s'"
  shows "\<exists>s'. for_list (rev [a..<b]) f s = Some s' \<and> I a s'"
  using assms(1,2) step
proof (induction "b - a" arbitrary: b s)
  case 0
  then show ?case by auto
next
  case (Suc n)
  then obtain c where b: "b = Suc c" and ac: "a \<le> c" by (cases b) auto
  from Suc.prems(3) [of c s] Suc.prems(1) b ac obtain s1
    where s1: "f c s = Some s1" "I c s1" by auto
  have "\<exists>s'. for_list (rev [a..<c]) f s1 = Some s' \<and> I a s'"
  proof (rule Suc.hyps(1))
    show "n = c - a" using Suc.hyps(2) b by simp
    show "I c s1" by (rule s1(2))
    show "a \<le> c" by (rule ac)
    show "\<And>i s. a \<le> i \<Longrightarrow> i < c \<Longrightarrow> I (Suc i) s \<Longrightarrow> \<exists>s'. f i s = Some s' \<and> I i s'"
      using Suc.prems(3) b by simp
  qed
  then show ?case using s1(1) b ac by simp
qed

text \<open>
  A loop that returns has carried every step: an invariant of the steps that return holds at the end. With an
  invariant that excludes the end, the loop cannot return.
\<close>

lemma for_up_partial:
  assumes "for_list [a..<b] f s = Some s'" and "I a s" and "a \<le> b"
    and step: "\<And>i s s'. a \<le> i \<Longrightarrow> i < b \<Longrightarrow> I i s \<Longrightarrow> f i s = Some s' \<Longrightarrow> I (Suc i) s'"
  shows "I b s'"
proof -
  have "I (a + n) s'" if "for_list [a..<a + n] f s = Some s'" "a + n \<le> b" for n s'
    using that
  proof (induction n arbitrary: s')
    case 0
    then show ?case using assms(2) by simp
  next
    case (Suc n)
    then obtain s1 where s1: "for_list [a..<a + n] f s = Some s1" "f (a + n) s1 = Some s'"
      by (auto simp: for_list_append split: Option.bind_splits)
    from step [OF _ _ Suc.IH [OF s1(1)] s1(2)] Suc.prems(2) show ?case by simp
  qed
  from this [of "b - a" s'] assms(1,3) show ?thesis by simp
qed

subsection \<open>Row-major indices\<close>

definition mem2d :: "nat \<Rightarrow> nat \<Rightarrow> nat \<Rightarrow> nat" where
  "mem2d data_len row col = row * data_len + col"

lemma mem2d_less [arr_simps]: "r < m \<Longrightarrow> c < n \<Longrightarrow> mem2d n r c < m * n"
proof -
  assume "r < m" "c < n"
  then have "r * n + c < r * n + n" by simp
  also have "\<dots> = Suc r * n" by simp
  also have "\<dots> \<le> m * n" using \<open>r < m\<close> by (intro mult_le_mono1) simp
  finally show ?thesis by (simp add: mem2d_def)
qed

lemma mem2d_inject [simp]: "c < n \<Longrightarrow> c' < n \<Longrightarrow> mem2d n r c = mem2d n r' c' \<longleftrightarrow> r = r' \<and> c = c'"
proof
  assume c: "c < n" "c' < n" and eq: "mem2d n r c = mem2d n r' c'"
  have "(r * n + c) div n = (r' * n + c') div n" "(r * n + c) mod n = (r' * n + c') mod n"
    using eq by (simp_all add: mem2d_def)
  with c show "r = r' \<and> c = c'" by simp
qed auto

lemma mem2d_div [simp]: "c < n \<Longrightarrow> mem2d n r c div n = r"
  by (simp add: mem2d_def)

lemma mem2d_mod [simp]: "c < n \<Longrightarrow> mem2d n r c mod n = c"
  by (simp add: mem2d_def)

lemma mem2d_exhaust:
  assumes "p < m * n"
  obtains r c where "r < m" "c < n" "p = mem2d n r c"
proof
  show "p div n < m" using assms by (simp add: less_mult_imp_div_less)
  have "0 < n" using assms by (cases n) auto
  then show "p mod n < n" by simp
  show "p = mem2d n (p div n) (p mod n)" by (simp add: mem2d_def)
qed

lemma ex_mem2d: "(\<exists>k<m * n. P k) \<longleftrightarrow> (\<exists>r<m. \<exists>c<n. P (mem2d n r c))"
proof
  assume "\<exists>k<m * n. P k"
  then obtain k where "k < m * n" "P k" by blast
  then show "\<exists>r<m. \<exists>c<n. P (mem2d n r c)" by (elim mem2d_exhaust) blast
next
  assume "\<exists>r<m. \<exists>c<n. P (mem2d n r c)"
  then show "\<exists>k<m * n. P k" using mem2d_less by blast
qed

text \<open>The anti-diagonal cell of a row, with the column computed in signed arithmetic.\<close>

lemma mem2d_int:
  "r < n \<Longrightarrow> int r * int n + (int n - int r - 1) = int (mem2d n r (n - 1 - r))"
  "c < n \<Longrightarrow> (int n - int c - 1) * int n + int c = int (mem2d n (n - 1 - c) c)"
  by (simp_all add: mem2d_def of_nat_diff)

lemma upt_mult_concat: "[0..<a * b] = concat (map (\<lambda>i. map (mem2d b i) [0..<b]) [0..<a])"
proof (induction a)
  case 0
  then show ?case by simp
next
  case (Suc a)
  have "map (mem2d b a) [0..<b] = [a * b..<a * b + b]"
    by (rule nth_equalityI) (auto simp: mem2d_def)
  moreover have "[0..<Suc a * b] = [0..<a * b] @ [a * b..<a * b + b]"
    using upt_add_eq_append [of 0 "a * b" b] by (simp add: add.commute)
  ultimately show ?case using Suc by simp
qed

text \<open>Two nested loops over a rectangle are one loop over its row-major indices.\<close>

lemma for_list_nest:
  "for_list [0..<a] (\<lambda>i. for_list [0..<b] (f i)) s
     = for_list [0..<a * b] (\<lambda>n. f (n div b) (n mod b)) s"
proof -
  have "for_list (map (mem2d b i) [0..<b]) (\<lambda>n. f (n div b) (n mod b)) s
      = for_list [0..<b] (f i) s" for i s
    unfolding for_list_map by (rule for_list_cong) auto
  then show ?thesis
    unfolding upt_mult_concat for_list_concat for_list_map by (intro for_list_cong) simp
qed

lemma list_eq_mem2dI:
  assumes "length xs = m * n" "length ys = m * n"
    and "\<And>r c. r < m \<Longrightarrow> c < n \<Longrightarrow> xs ! mem2d n r c = ys ! mem2d n r c"
  shows "xs = ys"
proof (rule nth_equalityI)
  show "length xs = length ys" using assms by simp
  fix i assume "i < length xs"
  then have "i < m * n" using assms(1) by simp
  then show "xs ! i = ys ! i" by (metis mem2d_exhaust assms(3))
qed

subsection \<open>Words\<close>

lemma unat_word_of_nat_32: "n < 2 ^ 32 \<Longrightarrow> unat (word_of_nat n :: 32 word) = n"
  by (simp add: unsigned_of_nat take_bit_nat_eq_self)

text \<open>An \<^verbatim>\<open>int\<close>, undefined on overflow.\<close>

definition int_c :: "int \<Rightarrow> int option" where
  "int_c v = (if - (2 ^ 31) \<le> v \<and> v < 2 ^ 31 then Some v else None)"

lemma int_c_Some: "int_c v = Some u \<Longrightarrow> u = v"
  by (simp add: int_c_def split: if_splits)

lemma int_c_small: "\<bar>v\<bar> < 2 ^ 31 \<Longrightarrow> int_c v = Some v"
  unfolding int_c_def by (rule if_P) linarith

lemma abs_sint_le: "\<bar>sint (word_of_int v :: 'b::len word)\<bar> \<le> \<bar>v\<bar>"
proof (cases "- (2 ^ (LENGTH('b) - 1)) \<le> v \<and> v < 2 ^ (LENGTH('b) - 1)")
  case True
  then show ?thesis by (simp add: signed_of_int signed_take_bit_int_eq_self)
next
  case False
  have "- (2 ^ (LENGTH('b) - 1)) \<le> sint (word_of_int v :: 'b word)" "sint (word_of_int v :: 'b word) < 2 ^ (LENGTH('b) - 1)"
    using sint_greater_eq sint_less by (auto simp: One_nat_def)
  then show ?thesis using False by linarith
qed

lemma abs_sint_nat_le: "n \<le> m \<Longrightarrow> \<bar>sint (word_of_nat n :: 'b::len word)\<bar> \<le> int m"
  using abs_sint_le [of "int n", where 'b = 'b] by simp

subsection \<open>Concatenated segments\<close>

lemma concat_map_if: "concat (map (\<lambda>n. if P n then [f n] else []) xs) = map f (filter P xs)"
  by (induction xs) auto

text \<open>\<open>seg_off f n\<close> is the offset of the \<open>n\<close>-th of the segments \<open>f 0, f 1, \<dots>\<close> laid out one after the other.\<close>

definition seg_off :: "(nat \<Rightarrow> 'x list) \<Rightarrow> nat \<Rightarrow> nat" where
  "seg_off f n = length (concat (map f [0..<n]))"

lemma seg_off_0 [simp]: "seg_off f 0 = 0"
  by (simp add: seg_off_def)

lemma seg_off_Suc [simp]: "seg_off f (Suc n) = seg_off f n + length (f n)"
  by (simp add: seg_off_def)

lemma seg_off_mono: "m \<le> n \<Longrightarrow> seg_off f m \<le> seg_off f n"
  by (induction n) (auto simp: le_Suc_eq)

lemma seg_off_bound: "n < N \<Longrightarrow> seg_off f n + length (f n) \<le> seg_off f N"
  using seg_off_mono [of "Suc n" N f] by simp

lemma seg_off_cong: "(\<And>i. i < n \<Longrightarrow> length (f i) = length (g i)) \<Longrightarrow> seg_off f n = seg_off g n"
  by (induction n) auto

text \<open>An array holds the segments \<open>f 0, \<dots>, f (N - 1)\<close> from its start.\<close>

definition holds_segs :: "'x list \<Rightarrow> (nat \<Rightarrow> 'x list) \<Rightarrow> nat \<Rightarrow> bool" where
  "holds_segs xs f N \<longleftrightarrow> seg_off f N \<le> length xs \<and> take (seg_off f N) xs = concat (map f [0..<N])"

lemma holds_segs_0 [simp]: "holds_segs xs f 0"
  by (simp add: holds_segs_def)

lemma holds_segs_nth:
  assumes "holds_segs xs f N" "n < N" "k < length (f n)"
  shows "seg_off f n + k < length xs" and "xs ! (seg_off f n + k) = f n ! k"
proof -
  have lt: "seg_off f n + k < seg_off f N" using seg_off_bound [OF assms(2), of f] assms(3) by simp
  then show "seg_off f n + k < length xs" using assms(1) by (simp add: holds_segs_def)
  have "[0..<N] = [0..<n] @ n # [Suc n..<N]"
    using assms(2) by (metis upt_conv_Cons less_imp_le_nat upt_add_eq_append le_add_diff_inverse zero_le)
  then have "concat (map f [0..<N]) ! (seg_off f n + k) = f n ! k"
    using assms(3) by (simp add: seg_off_def nth_append)
  moreover have "xs ! (seg_off f n + k) = take (seg_off f N) xs ! (seg_off f n + k)"
    using lt by simp
  ultimately show "xs ! (seg_off f n + k) = f n ! k" using assms(1) by (simp add: holds_segs_def)
qed

text \<open>A loop over the positions of a segment, reading two parallel arrays, is a loop over the segment.\<close>

lemma for_list_seg:
  assumes "holds_segs xs f N" "holds_segs ys g N" "n < N" and g: "\<And>i. i \<le> n \<Longrightarrow> g i = map (h i) (f i)"
  shows "for_list [seg_off f n..<seg_off f (Suc n)]
      (\<lambda>j s. do { x \<leftarrow> rd xs j; y \<leftarrow> rd ys j; X x y s }) s = for_list (f n) (\<lambda>x. X x (h n x)) s"
proof -
  have off: "seg_off g n = seg_off f n" using g by (intro seg_off_cong) simp
  have "for_list [0..<length (f n)] (\<lambda>k s. do {
      x \<leftarrow> rd xs (k + seg_off f n); y \<leftarrow> rd ys (k + seg_off f n); X x y s }) s =
    for_list [0..<length (f n)] (\<lambda>k. X (f n ! k) (h n (f n ! k))) s"
  proof (rule for_list_cong)
    fix k s assume "k \<in> set [0..<length (f n)]"
    then have k: "k < length (f n)" by simp
    with holds_segs_nth [OF assms(1,3) k] holds_segs_nth [OF assms(2,3), of k] g [of n] off
    show "do { x \<leftarrow> rd xs (k + seg_off f n); y \<leftarrow> rd ys (k + seg_off f n); X x y s } =
      X (f n ! k) (h n (f n ! k)) s" by (simp add: arr_simps add.commute)
  qed
  moreover have "[seg_off f n..<seg_off f (Suc n)] = map (\<lambda>k. k + seg_off f n) [0..<length (f n)]"
    by (simp add: map_add_upt add.commute)
  moreover have "for_list (f n) (\<lambda>x. X x (h n x)) s = for_list (map ((!) (f n)) [0..<length (f n)]) (\<lambda>x. X x (h n x)) s"
    by (simp add: map_nth)
  ultimately show ?thesis by (simp only: for_list_map)
qed

text \<open>A search that stops at the first failure.\<close>

lemma for_brk_all:
  assumes "\<And>k. k \<in> set ks \<Longrightarrow> f k True = Some (Q k)"
  shows "for_brk ks (\<lambda>z. \<not> z) f True = Some (\<forall>k \<in> set ks. Q k)"
  using assms by (induction ks) auto

lemma for_brk_search:
  assumes "\<And>k. k \<in> set ks \<Longrightarrow> g k < length xs"
  shows "for_brk ks (\<lambda>z. \<not> z) (\<lambda>k z. do { v \<leftarrow> rd xs (g k); Some (if P v then False else z) }) True
    = Some (\<not> (\<exists>k \<in> set ks. P (xs ! g k)))"
  using for_brk_all [of ks "\<lambda>k z. do { v \<leftarrow> rd xs (g k); Some (if P v then False else z) }" "\<lambda>k. \<not> P (xs ! g k)"] assms
  by (simp add: arr_simps)

subsection \<open>Arrays written from the front\<close>

definition overlay :: "'x list \<Rightarrow> 'x list \<Rightarrow> 'x list" where
  "overlay ys xs = ys @ drop (length ys) xs"

lemma overlay_Nil [simp]: "overlay [] xs = xs"
  by (simp add: overlay_def)

lemma length_overlay [simp]: "length ys \<le> length xs \<Longrightarrow> length (overlay ys xs) = length xs"
  by (simp add: overlay_def)

lemma wr_overlay:
  assumes "length ys < length xs"
  shows "wr (overlay ys xs) (length ys) v = Some (overlay (ys @ [v]) xs)"
proof -
  have "drop (length ys) xs = xs ! length ys # drop (Suc (length ys)) xs"
    using assms by (simp add: Cons_nth_drop_Suc)
  then show ?thesis using assms by (simp add: overlay_def wr_def)
qed

lemma holds_segs_overlay:
  "length (concat (map f [0..<N])) \<le> length xs \<Longrightarrow> holds_segs (overlay (concat (map f [0..<N])) xs) f N"
  by (simp add: holds_segs_def seg_off_def overlay_def)

end
