(* ===== verification/TiC_Config.thy ===== *)
theory TiC_Config
  imports TiC_Prelude
begin

text \<open>
  The compile-time configuration of \<^verbatim>\<open>transformer_layers/util.h\<close> (repeated in
  \<^verbatim>\<open>gem5-X-TiC-SAT/src/dev/arm/systolic_m2m.hh\<close>).

  The widths \<^verbatim>\<open>ACTIVATION_BITS\<close> and \<^verbatim>\<open>WEIGHT_BITS\<close> are the lengths of the type arguments
  \<open>'a\<close> and \<open>'w\<close>: an \<^verbatim>\<open>activation_t\<close> (and a \<^verbatim>\<open>u_activation_t\<close>) is an \<open>'a word\<close>, a \<^verbatim>\<open>weight_t\<close>
  a \<open>'w word\<close>. The other macros are the fields of \<open>sa_cfg\<close>: the array dimension, and the
  arithmetic that \<^verbatim>\<open>ACTIVATION_FP\<close> and \<^verbatim>\<open>WEIGHT_FP\<close> select (the multiply-accumulate of one
  processing element, the addition of two activations, and the test of a weight word
  against zero).
\<close>

subsection \<open>Bus geometry\<close>

definition BUS_WIDTH :: nat where
  "BUS_WIDTH = 32"

definition CEILING_DIV :: "nat \<Rightarrow> nat \<Rightarrow> nat" where
  "CEILING_DIV x y = (x + y - 1) div y"

definition per_bus :: "'b::len itself \<Rightarrow> nat" where
  "per_bus _ = BUS_WIDTH div LENGTH('b)"

definition bus_lane :: "32 word \<Rightarrow> nat \<Rightarrow> 'b::len word" where
  "bus_lane x n =
     ucast (drop_bit (LENGTH('b) * (per_bus TYPE('b) - n - 1)) x AND mask LENGTH('b))"

definition bus_pack :: "(nat \<Rightarrow> 'b::len word) \<Rightarrow> 32 word" where
  "bus_pack f =
     fold (\<lambda>i result. result OR push_bit (LENGTH('b) * (per_bus TYPE('b) - i - 1)) (ucast (f i)))
       [0..<per_bus TYPE('b)] 0"

subsection \<open>The configuration record\<close>

record (overloaded) ('a, 'w) sa_cfg =
  kernel_dim :: nat
  mac :: "'a word \<Rightarrow> 'w word \<Rightarrow> 32 word \<Rightarrow> 32 word"
  act_add :: "'a word \<Rightarrow> 'a word \<Rightarrow> 'a word"
  w_nonzero :: "32 word \<Rightarrow> bool"

definition ACT_PER_BUS :: "('a::len, 'w::len) sa_cfg \<Rightarrow> nat" where
  "ACT_PER_BUS c = per_bus TYPE('a)"

definition W_PER_BUS :: "('a::len, 'w::len) sa_cfg \<Rightarrow> nat" where
  "W_PER_BUS c = per_bus TYPE('w)"

definition MAX_ACT_COL :: "('a::len, 'w::len) sa_cfg \<Rightarrow> nat" where
  "MAX_ACT_COL c = CEILING_DIV (kernel_dim c) (ACT_PER_BUS c)"

definition MAX_W_COL :: "('a::len, 'w::len) sa_cfg \<Rightarrow> nat" where
  "MAX_W_COL c = CEILING_DIV (kernel_dim c) (W_PER_BUS c)"

text \<open>
  The three arithmetic modes. With \<^verbatim>\<open>ACTIVATION_FP == 0\<close> a processing element computes
  \<^verbatim>\<open>int(in * w) + acc\<close> on 32-bit integers, here in two's complement: where the sum or product
  overflows, which C++ leaves undefined, the model wraps. With \<^verbatim>\<open>ACTIVATION_FP == 1\<close> it computes on the
  bit patterns of floats, the weight being a float or an integer converted to one. Float
  addition, multiplication and conversion are arguments.
\<close>

definition mac_int :: "'a::len word \<Rightarrow> 'w::len word \<Rightarrow> 32 word \<Rightarrow> 32 word" where
  "mac_int x w acc = scast x * scast w + acc"

definition mac_fp_fp ::
  "(32 word \<Rightarrow> 32 word \<Rightarrow> 32 word) \<Rightarrow> (32 word \<Rightarrow> 32 word \<Rightarrow> 32 word)
     \<Rightarrow> 32 word \<Rightarrow> 32 word \<Rightarrow> 32 word \<Rightarrow> 32 word" where
  "mac_fp_fp fmul fadd x w acc = fadd (fmul x w) acc"

definition mac_fp_int ::
  "(32 word \<Rightarrow> 32 word \<Rightarrow> 32 word) \<Rightarrow> (32 word \<Rightarrow> 32 word \<Rightarrow> 32 word) \<Rightarrow> (int \<Rightarrow> 32 word)
     \<Rightarrow> 32 word \<Rightarrow> 'w::len word \<Rightarrow> 32 word \<Rightarrow> 32 word" where
  "mac_fp_int fmul fadd itof x w acc = fadd (fmul x (itof (sint w))) acc"

text \<open>\<^verbatim>\<open>result.fp != 0\<close> on a bit pattern: only the two signed zeros compare equal to zero.\<close>

definition fp_nonzero :: "32 word \<Rightarrow> bool" where
  "fp_nonzero v \<longleftrightarrow> v \<noteq> 0 \<and> v \<noteq> 0x80000000"

definition int_nonzero :: "32 word \<Rightarrow> bool" where
  "int_nonzero v \<longleftrightarrow> v \<noteq> 0"

definition int_cfg :: "nat \<Rightarrow> ('a::len, 'w::len) sa_cfg" where
  "int_cfg n = \<lparr>kernel_dim = n, mac = mac_int, act_add = (+), w_nonzero = int_nonzero\<rparr>"

definition fp_int_cfg ::
  "(32 word \<Rightarrow> 32 word \<Rightarrow> 32 word) \<Rightarrow> (32 word \<Rightarrow> 32 word \<Rightarrow> 32 word) \<Rightarrow> (int \<Rightarrow> 32 word)
     \<Rightarrow> nat \<Rightarrow> (32, 'w::len) sa_cfg" where
  "fp_int_cfg fmul fadd itof n =
     \<lparr>kernel_dim = n, mac = mac_fp_int fmul fadd itof, act_add = fadd, w_nonzero = int_nonzero\<rparr>"

definition fp_cfg ::
  "(32 word \<Rightarrow> 32 word \<Rightarrow> 32 word) \<Rightarrow> (32 word \<Rightarrow> 32 word \<Rightarrow> 32 word)
     \<Rightarrow> nat \<Rightarrow> (32, 32) sa_cfg" where
  "fp_cfg fmul fadd n =
     \<lparr>kernel_dim = n, mac = mac_fp_fp fmul fadd, act_add = fadd, w_nonzero = fp_nonzero\<rparr>"

text \<open>
  A configuration the software is written for: the widths are those of the typedefs and
  divide the dimension of the array into whole bus words.
\<close>

definition cfg_ok :: "('a::len, 'w::len) sa_cfg \<Rightarrow> bool" where
  "cfg_ok c \<longleftrightarrow> 0 < kernel_dim c
     \<and> (LENGTH('a) = 8 \<or> LENGTH('a) = 16 \<or> LENGTH('a) = 32)
     \<and> (LENGTH('w) = 8 \<or> LENGTH('w) = 16 \<or> LENGTH('w) = 32)
     \<and> ACT_PER_BUS c dvd kernel_dim c \<and> W_PER_BUS c dvd kernel_dim c"

lemma per_bus_cases:
  assumes "LENGTH('b::len) = 8 \<or> LENGTH('b) = 16 \<or> LENGTH('b) = 32"
  shows "0 < per_bus TYPE('b)" and "LENGTH('b) * per_bus TYPE('b) = 32"
  using assms by (auto simp: per_bus_def BUS_WIDTH_def)

lemma CEILING_DIV_dvd: "0 < y \<Longrightarrow> y dvd x \<Longrightarrow> CEILING_DIV x y = x div y"
proof -
  assume y: "0 < y" "y dvd x"
  then obtain k where x: "x = y * k" by (auto elim: dvdE)
  have "(y * k + (y - 1)) div y = k + (y - 1) div y" using y by (intro div_mult_self4) simp
  moreover have "y * k + y - 1 = y * k + (y - 1)" using y by simp
  ultimately show ?thesis using x y by (simp add: CEILING_DIV_def)
qed

lemma cfg_okD [cfg_simps]:
  fixes c :: "('a::len, 'w::len) sa_cfg"
  assumes "cfg_ok c"
  shows "0 < kernel_dim c" "0 < ACT_PER_BUS c" "0 < W_PER_BUS c"
    "LENGTH('a) * ACT_PER_BUS c = 32" "LENGTH('w) * W_PER_BUS c = 32"
    "MAX_ACT_COL c * ACT_PER_BUS c = kernel_dim c" "MAX_W_COL c * W_PER_BUS c = kernel_dim c"
    "0 < MAX_ACT_COL c" "0 < MAX_W_COL c"
proof -
  from assms show k: "0 < kernel_dim c" by (simp add: cfg_ok_def)
  from assms show a: "0 < ACT_PER_BUS c" "LENGTH('a) * ACT_PER_BUS c = 32"
    by (auto simp: cfg_ok_def ACT_PER_BUS_def per_bus_cases)
  from assms show w: "0 < W_PER_BUS c" "LENGTH('w) * W_PER_BUS c = 32"
    by (auto simp: cfg_ok_def W_PER_BUS_def per_bus_cases)
  from assms a show ma: "MAX_ACT_COL c * ACT_PER_BUS c = kernel_dim c"
    by (auto simp: cfg_ok_def MAX_ACT_COL_def CEILING_DIV_dvd)
  from assms w show mw: "MAX_W_COL c * W_PER_BUS c = kernel_dim c"
    by (auto simp: cfg_ok_def MAX_W_COL_def CEILING_DIV_dvd)
  from ma k show "0 < MAX_ACT_COL c" by (cases "MAX_ACT_COL c") auto
  from mw k show "0 < MAX_W_COL c" by (cases "MAX_W_COL c") auto
qed

subsection \<open>Lanes of a bus word\<close>

lemma bit_bus_pack_fold:
  "bit (fold (\<lambda>i r. r OR push_bit (LENGTH('b::len) * (p - i - 1)) (ucast (f i :: 'b word) :: 32 word))
      [0..<m] 0) k
    \<longleftrightarrow> (\<exists>i<m. k < 32 \<and> LENGTH('b) * (p - i - 1) \<le> k
          \<and> bit (f i) (k - LENGTH('b) * (p - i - 1)))"
proof (induction m)
  case 0
  then show ?case by simp
next
  case (Suc m)
  then show ?case
    by (auto simp: bit_or_iff bit_push_bit_iff bit_ucast_iff less_Suc_eq
        dest: bit_imp_le_length)
qed

lemma bit_bus_lane:
  "bit (bus_lane x n :: 'b::len word) k \<longleftrightarrow>
     k < LENGTH('b) \<and> bit x (LENGTH('b) * (per_bus TYPE('b) - n - 1) + k)"
  by (auto simp: bus_lane_def bit_ucast_iff bit_and_iff bit_mask_iff bit_drop_bit_eq
      dest: bit_imp_le_length)

lemma lane_window:
  assumes "(l::nat) * a + k = l * b + k'" "k < l" "k' < l"
  shows "a = b \<and> k = k'"
proof -
  have "(l * a + k) div l = (l * b + k') div l" using assms(1) by simp
  with assms(2,3) have "a = b" by simp
  with assms(1) show ?thesis by simp
qed

lemma bus_lane_pack:
  fixes f :: "nat \<Rightarrow> 'b::len word"
  assumes n: "n < per_bus TYPE('b)"
  shows "bus_lane (bus_pack f) n = f n"
proof (rule bit_word_eqI)
  fix k assume k: "k < LENGTH('b)"
  let ?p = "per_bus TYPE('b)" and ?l = "LENGTH('b)"
  have "?l * (?p - n - 1) + k < ?l * (?p - n - 1) + ?l" using k by simp
  also have "\<dots> = ?l * Suc (?p - n - 1)" by simp
  also have "Suc (?p - n - 1) = ?p - n" using n by simp
  also have "?l * (?p - n) \<le> ?l * ?p" by simp
  also have "\<dots> \<le> 32" by (simp add: per_bus_def BUS_WIDTH_def)
  finally have lt: "?l * (?p - n - 1) + k < 32" .
  have "i = n" if "i < ?p" "?l * (?p - i - 1) \<le> ?l * (?p - n - 1) + k"
    "bit (f i) (?l * (?p - n - 1) + k - ?l * (?p - i - 1))" for i
  proof -
    define k' where "k' = ?l * (?p - n - 1) + k - ?l * (?p - i - 1)"
    have "?l * (?p - n - 1) + k = ?l * (?p - i - 1) + k'" "k' < ?l"
      using that bit_imp_le_length [OF that(3)] by (simp_all add: k'_def)
    with k have "?p - n - 1 = ?p - i - 1" by (blast dest: lane_window)
    with n that(1) show "i = n" by linarith
  qed
  then have "bit (bus_pack f) (?l * (?p - n - 1) + k) \<longleftrightarrow> bit (f n) k"
    using n lt unfolding bus_pack_def bit_bus_pack_fold
    by (metis (no_types, lifting) add_diff_cancel_left' le_add1)
  with k show "bit (bus_lane (bus_pack f) n :: 'b word) k = bit (f n) k"
    by (simp add: bit_bus_lane)
qed

lemma bus_pack_lane:
  assumes "LENGTH('b::len) * per_bus TYPE('b) = 32"
  shows "bus_pack (bus_lane x :: nat \<Rightarrow> 'b word) = x"
proof (rule bit_word_eqI)
  fix k assume "k < LENGTH(32)"
  then have k: "k < 32" by simp
  let ?p = "per_bus TYPE('b)" and ?l = "LENGTH('b)"
  define i where "i = ?p - k div ?l - 1"
  have d: "k div ?l < ?p" using k assms by (simp add: less_mult_imp_div_less mult.commute)
  then have i: "i < ?p" "?p - i - 1 = k div ?l" by (auto simp: i_def)
  have m: "k - ?l * (k div ?l) < ?l" by (simp add: minus_mult_div_eq_mod)
  have "bit (bus_pack (bus_lane x :: nat \<Rightarrow> 'b word)) k \<longleftrightarrow> bit x k"
  proof
    assume "bit (bus_pack (bus_lane x :: nat \<Rightarrow> 'b word)) k"
    then show "bit x k" unfolding bus_pack_def bit_bus_pack_fold by (auto simp: bit_bus_lane)
  next
    assume "bit x k"
    then show "bit (bus_pack (bus_lane x :: nat \<Rightarrow> 'b word)) k"
      using i k m unfolding bus_pack_def bit_bus_pack_fold
      by (intro exI [of _ i]) (auto simp: bit_bus_lane)
  qed
  then show "bit (bus_pack (bus_lane x :: nat \<Rightarrow> 'b word)) k = bit x k" .
qed

lemma bus_pack_cong:
  fixes f g :: "nat \<Rightarrow> 'b::len word"
  assumes "\<And>i. i < per_bus TYPE('b) \<Longrightarrow> f i = g i"
  shows "bus_pack f = bus_pack g"
  using assms unfolding bus_pack_def by (auto intro!: fold_cong)

lemma bus_word_eqI:
  assumes "LENGTH('b::len) * per_bus TYPE('b) = 32"
    and "\<And>i. i < per_bus TYPE('b) \<Longrightarrow> (bus_lane x i :: 'b word) = bus_lane y i"
  shows "x = y"
proof -
  have "bus_pack (bus_lane x :: nat \<Rightarrow> 'b word) = bus_pack (bus_lane y :: nat \<Rightarrow> 'b word)"
    by (rule bus_pack_cong) (rule assms(2))
  with assms(1) show ?thesis by (simp add: bus_pack_lane)
qed

lemma bus_lane_0 [simp]: "bus_lane 0 n = 0"
  by (simp add: bus_lane_def)

end
