(* ===== verification/TiC_SATile.thy ===== *)
theory TiC_SATile
  imports TiC_Config
begin

text \<open>
  The systolic-array device of the simulator,
  \<^verbatim>\<open>gem5-X-TiC-SAT/src/dev/arm/systolic_m2m.{hh,cc}\<close>: one \<open>sa_tile\<close> per CPU, driven by the custom
  instructions. A tile has the weights, the skewed input registers, the column accumulators
  (one row more than the array, row 0 is the constant zero row) and the two waiting memories
  that skew the inputs and de-skew the outputs.

  The theory holds the operations of the device as the code writes them, loop by loop on the
  flat arrays, and a per-loop characterisation: each loop returns and its effect on every
  cell is given. \<open>tile_wf\<close> is the representation invariant.
\<close>

subsection \<open>State\<close>

record (overloaded) ('a, 'w) sa_tile =
  weights :: "'w word list"
  inputMemory :: "'a word list"
  outputMemory :: "32 word list"
  inWaitingMemory :: "'a word list"
  outWaitingMemory :: "'a word list"
  non_zero_tile :: bool

definition SATile :: "('a::len, 'w::len) sa_cfg \<Rightarrow> ('a, 'w) sa_tile" where
  "SATile c = (let K = kernel_dim c in
     \<lparr>weights = replicate (K * K) 0,
      inputMemory = replicate (K * K) 0,
      outputMemory = replicate (Suc K * K) 0,
      inWaitingMemory = replicate (K * K) 0,
      outWaitingMemory = replicate (K * K) 0,
      non_zero_tile = False\<rparr>)"

subsection \<open>Operations of one tile\<close>

definition tile_loadWeights ::
  "('a::len, 'w::len) sa_cfg \<Rightarrow> nat \<Rightarrow> 32 word \<Rightarrow> ('a, 'w) sa_tile \<Rightarrow> ('a, 'w) sa_tile option" where
  "tile_loadWeights c idx val t = do {
     ws \<leftarrow> for_list [0..<W_PER_BUS c] (\<lambda>i ws. wr ws (idx + i) (bus_lane val i)) (weights t);
     Some (t\<lparr>weights := ws,
             non_zero_tile := (if val \<noteq> 0 then True else non_zero_tile t)\<rparr>)
   }"

definition tile_store ::
  "('a::len, 'w::len) sa_cfg \<Rightarrow> nat \<Rightarrow> 32 word \<Rightarrow> 'a word list \<Rightarrow> 'a word list option" where
  "tile_store c col val inWaiting =
     for_list [0..<ACT_PER_BUS c] (\<lambda>i iw.
       let row_index = col * ACT_PER_BUS c + i in
       wri iw (int row_index * int (kernel_dim c) + (int (kernel_dim c) - int row_index - 1))
         (bus_lane val i)) inWaiting"

definition tile_retrieve ::
  "('a::len, 'w::len) sa_cfg \<Rightarrow> nat \<Rightarrow> 'a word list \<Rightarrow> 32 word option" where
  "tile_retrieve c result_idx outWaiting =
     for_list [0..<ACT_PER_BUS c] (\<lambda>i result. do {
       v \<leftarrow> rdi outWaiting ((int (kernel_dim c) - int (result_idx + i) - 1) * int (kernel_dim c)
                              + int (result_idx + i));
       Some (result OR push_bit (LENGTH('a) * (ACT_PER_BUS c - i - 1)) (ucast v))
     }) 0"

definition tile_inputQueue ::
  "('a::len, 'w::len) sa_cfg \<Rightarrow> nat \<Rightarrow> 32 word \<Rightarrow> ('a, 'w) sa_tile
     \<Rightarrow> (('a, 'w) sa_tile \<times> 32 word) option" where
  "tile_inputQueue c col val t = do {
     iw \<leftarrow> tile_store c col val (inWaitingMemory t);
     result \<leftarrow> tile_retrieve c ((col + 1) mod MAX_ACT_COL c * ACT_PER_BUS c) (outWaitingMemory t);
     Some (t\<lparr>inWaitingMemory := iw\<rparr>, result)
   }"

text \<open>The loops of \<^verbatim>\<open>streamInOut\<close>, in the order of the code.\<close>

definition shift_right :: "nat \<Rightarrow> nat \<Rightarrow> 'x list \<Rightarrow> 'x list option" where
  "shift_right K i xs =
     for_list (rev [1..<K]) (\<lambda>j xs. do {
       v \<leftarrow> rd xs (mem2d K i (j - 1));
       wr xs (mem2d K i j) v
     }) xs"

definition skew_inputs :: "nat \<Rightarrow> 'x list \<times> 'x list \<Rightarrow> ('x list \<times> 'x list) option" where
  "skew_inputs K s =
     for_list [0..<K] (\<lambda>i (im, iw). do {
       v \<leftarrow> rd iw (mem2d K i (K - 1));
       im \<leftarrow> wr im (mem2d K i 0) v;
       iw \<leftarrow> shift_right K i iw;
       Some (im, iw)
     }) s"

definition mac_sweep ::
  "('a::len, 'w::len) sa_cfg \<Rightarrow> 'w word list \<Rightarrow> 'a word list \<Rightarrow> 32 word list \<Rightarrow> 32 word list option" where
  "mac_sweep c ws im om =
     for_list (rev [0..<kernel_dim c * kernel_dim c]) (\<lambda>i om. do {
       x \<leftarrow> rd im i;
       w \<leftarrow> rd ws i;
       acc \<leftarrow> rd om i;
       wr om (i + kernel_dim c) (mac c x w acc)
     }) om"

definition shift_inputs :: "nat \<Rightarrow> 'x list \<Rightarrow> 'x list option" where
  "shift_inputs K im = for_list [0..<K] (\<lambda>i im. shift_right K i im) im"

definition shift_down :: "nat \<Rightarrow> nat \<Rightarrow> 'x list \<Rightarrow> 'x list option" where
  "shift_down K j xs =
     for_list (rev [1..<K]) (\<lambda>i xs. do {
       v \<leftarrow> rd xs (mem2d K (i - 1) j);
       wr xs (mem2d K i j) v
     }) xs"

definition deskew_outputs ::
  "nat \<Rightarrow> 32 word list \<Rightarrow> 'a::len word list \<Rightarrow> 'a word list option" where
  "deskew_outputs K om ow =
     for_list [0..<K] (\<lambda>j ow. do {
       ow \<leftarrow> shift_down K j ow;
       v \<leftarrow> rd om (mem2d K K j);
       wr ow (mem2d K 0 j) (ucast (v AND mask LENGTH('a)))
     }) ow"

definition tile_streamInOut ::
  "('a::len, 'w::len) sa_cfg \<Rightarrow> 32 word \<Rightarrow> ('a, 'w) sa_tile
     \<Rightarrow> (('a, 'w) sa_tile \<times> 32 word) option" where
  "tile_streamInOut c val t = (let K = kernel_dim c in do {
     iw \<leftarrow> tile_store c (MAX_ACT_COL c - 1) val (inWaitingMemory t);
     (im, iw) \<leftarrow> skew_inputs K (inputMemory t, iw);
     om \<leftarrow> mac_sweep c (weights t) im (outputMemory t);
     im \<leftarrow> shift_inputs K im;
     ow \<leftarrow> deskew_outputs K om (outWaitingMemory t);
     result \<leftarrow> tile_retrieve c 0 ow;
     Some (t\<lparr>inputMemory := im, outputMemory := om, inWaitingMemory := iw,
             outWaitingMemory := ow, non_zero_tile := False\<rparr>, result)
   })"

subsection \<open>The representation invariant\<close>

definition tile_wf :: "('a::len, 'w::len) sa_cfg \<Rightarrow> ('a, 'w) sa_tile \<Rightarrow> bool" where
  "tile_wf c t \<longleftrightarrow> (let K = kernel_dim c in
     length (weights t) = K * K \<and> length (inputMemory t) = K * K \<and>
     length (outputMemory t) = Suc K * K \<and> length (inWaitingMemory t) = K * K \<and>
     length (outWaitingMemory t) = K * K \<and> (\<forall>j<K. outputMemory t ! mem2d K 0 j = 0))"

lemma SATile_wf: "tile_wf c (SATile c)"
  by (auto simp: tile_wf_def SATile_def Let_def mem2d_def)

subsection \<open>Effect of the loops on the cells\<close>

lemma shift_right_spec:
  assumes "i < K" "length xs = K * K"
  shows "\<exists>ys. shift_right K i xs = Some ys \<and> length ys = K * K \<and>
    (\<forall>r<K. \<forall>c<K. ys ! mem2d K r c =
       (if r = i \<and> 0 < c then xs ! mem2d K i (c - 1) else xs ! mem2d K r c))"
proof -
  let ?I = "\<lambda>j ys. length ys = K * K \<and> (\<forall>r<K. \<forall>c<K. ys ! mem2d K r c =
       (if r = i \<and> j \<le> c then xs ! mem2d K i (c - 1) else xs ! mem2d K r c))"
  have "\<exists>ys. shift_right K i xs = Some ys \<and> ?I 1 ys"
    unfolding shift_right_def
  proof (rule for_down_rule [where I = ?I])
    show "?I K xs" using assms by simp
    show "1 \<le> K" using assms by simp
    fix j ys assume j: "1 \<le> j" "j < K" and I: "?I (Suc j) ys"
    have "mem2d K i (j - 1) < length ys" "mem2d K i j < length ys"
      using j I assms mem2d_less [of i K "j - 1" K] mem2d_less [of i K j K] by auto
    moreover have "?I j (ys[mem2d K i j := ys ! mem2d K i (j - 1)])"
      using I j assms by (auto simp: nth_list_update mem2d_less)
    ultimately show "\<exists>s'. (rd ys (mem2d K i (j - 1)) \<bind> wr ys (mem2d K i j)) = Some s' \<and> ?I j s'"
      by (simp add: arr_simps)
  qed
  then show ?thesis by (simp add: Suc_le_eq)
qed

lemma shift_down_spec:
  assumes "j < K" "length xs = K * K"
  shows "\<exists>ys. shift_down K j xs = Some ys \<and> length ys = K * K \<and>
    (\<forall>r<K. \<forall>c<K. ys ! mem2d K r c =
       (if c = j \<and> 0 < r then xs ! mem2d K (r - 1) j else xs ! mem2d K r c))"
proof -
  let ?I = "\<lambda>i ys. length ys = K * K \<and> (\<forall>r<K. \<forall>c<K. ys ! mem2d K r c =
       (if c = j \<and> i \<le> r then xs ! mem2d K (r - 1) j else xs ! mem2d K r c))"
  have "\<exists>ys. shift_down K j xs = Some ys \<and> ?I 1 ys"
    unfolding shift_down_def
  proof (rule for_down_rule [where I = ?I])
    show "?I K xs" using assms by simp
    show "1 \<le> K" using assms by simp
    fix i ys assume i: "1 \<le> i" "i < K" and I: "?I (Suc i) ys"
    have "mem2d K (i - 1) j < length ys" "mem2d K i j < length ys"
      using i I assms mem2d_less [of "i - 1" K j K] mem2d_less [of i K j K] by auto
    moreover have "?I i (ys[mem2d K i j := ys ! mem2d K (i - 1) j])"
      using I i assms by (auto simp: nth_list_update mem2d_less)
    ultimately show "\<exists>s'. (rd ys (mem2d K (i - 1) j) \<bind> wr ys (mem2d K i j)) = Some s' \<and> ?I i s'"
      by (simp add: arr_simps)
  qed
  then show ?thesis by (simp add: Suc_le_eq)
qed

lemma skew_inputs_spec:
  assumes "length im = K * K" "length iw = K * K"
  shows "\<exists>im' iw'. skew_inputs K (im, iw) = Some (im', iw') \<and>
    length im' = K * K \<and> length iw' = K * K \<and>
    (\<forall>r<K. \<forall>c<K. im' ! mem2d K r c = (if c = 0 then iw ! mem2d K r (K - 1) else im ! mem2d K r c)) \<and>
    (\<forall>r<K. \<forall>c<K. iw' ! mem2d K r c = iw ! mem2d K r (c - 1))"
proof -
  let ?I = "\<lambda>i (im', iw'). length im' = K * K \<and> length iw' = K * K \<and>
    (\<forall>r<K. \<forall>c<K. im' ! mem2d K r c =
       (if r < i \<and> c = 0 then iw ! mem2d K r (K - 1) else im ! mem2d K r c)) \<and>
    (\<forall>r<K. \<forall>c<K. iw' ! mem2d K r c =
       (if r < i then iw ! mem2d K r (c - 1) else iw ! mem2d K r c))"
  have "\<exists>s'. skew_inputs K (im, iw) = Some s' \<and> ?I K s'"
    unfolding skew_inputs_def
  proof (rule for_up_rule [where I = ?I])
    show "?I 0 (im, iw)" using assms by simp
    show "0 \<le> K" by simp
    fix i s assume i: "i < K" and I: "?I i s"
    obtain im1 iw1 where s: "s = (im1, iw1)" by (cases s)
    from I s i obtain iw2 where iw2: "shift_right K i iw1 = Some iw2" "length iw2 = K * K"
      "\<forall>r<K. \<forall>c<K. iw2 ! mem2d K r c =
         (if r = i \<and> 0 < c then iw1 ! mem2d K i (c - 1) else iw1 ! mem2d K r c)"
      using shift_right_spec [of i K iw1] by auto
    have len: "mem2d K i (K - 1) < length iw1" "mem2d K i 0 < length im1"
      using i I s mem2d_less [of i K "K - 1" K] mem2d_less [of i K 0 K] by auto
    have "?I (Suc i) (im1[mem2d K i 0 := iw1 ! mem2d K i (K - 1)], iw2)"
      using I s i iw2(2,3) len by (auto simp: nth_list_update less_Suc_eq)
    then show "\<exists>s'. (case s of (im, iw) \<Rightarrow> do {
          v \<leftarrow> rd iw (mem2d K i (K - 1));
          im \<leftarrow> wr im (mem2d K i 0) v;
          iw \<leftarrow> shift_right K i iw;
          Some (im, iw)}) = Some s' \<and> ?I (Suc i) s'"
      using len iw2(1) s by (simp add: arr_simps)
  qed
  then show ?thesis by auto
qed

lemma shift_inputs_spec:
  assumes "length im = K * K"
  shows "\<exists>im'. shift_inputs K im = Some im' \<and> length im' = K * K \<and>
    (\<forall>r<K. \<forall>c<K. im' ! mem2d K r c = im ! mem2d K r (c - 1))"
proof -
  let ?I = "\<lambda>i im'. length im' = K * K \<and> (\<forall>r<K. \<forall>c<K. im' ! mem2d K r c =
       (if r < i then im ! mem2d K r (c - 1) else im ! mem2d K r c))"
  have "\<exists>s'. shift_inputs K im = Some s' \<and> ?I K s'"
    unfolding shift_inputs_def
  proof (rule for_up_rule [where I = ?I])
    show "?I 0 im" using assms by simp
    show "0 \<le> K" by simp
    fix i s assume i: "i < K" and I: "?I i s"
    from I i obtain s' where s': "shift_right K i s = Some s'" "length s' = K * K"
      "\<forall>r<K. \<forall>c<K. s' ! mem2d K r c =
         (if r = i \<and> 0 < c then s ! mem2d K i (c - 1) else s ! mem2d K r c)"
      using shift_right_spec [of i K s] by auto
    with I i have "?I (Suc i) s'" by (auto simp: less_Suc_eq)
    with s'(1) show "\<exists>s'. shift_right K i s = Some s' \<and> ?I (Suc i) s'" by simp
  qed
  then show ?thesis by auto
qed

lemma mac_sweep_spec:
  fixes c :: "('a::len, 'w::len) sa_cfg"
  defines "K \<equiv> kernel_dim c"
  assumes "length ws = K * K" "length im = K * K" "length om = Suc K * K"
  shows "\<exists>om'. mac_sweep c ws im om = Some om' \<and> length om' = Suc K * K \<and>
    (\<forall>j<K. om' ! mem2d K 0 j = om ! mem2d K 0 j) \<and>
    (\<forall>r<K. \<forall>j<K. om' ! mem2d K (Suc r) j =
       mac c (im ! mem2d K r j) (ws ! mem2d K r j) (om ! mem2d K r j))"
proof -
  let ?I = "\<lambda>i om'. length om' = Suc K * K \<and> (\<forall>p < Suc K * K. om' ! p =
       (if i + K \<le> p then mac c (im ! (p - K)) (ws ! (p - K)) (om ! (p - K)) else om ! p))"
  have "\<exists>s'. mac_sweep c ws im om = Some s' \<and> ?I 0 s'"
    unfolding mac_sweep_def K_def [symmetric]
  proof (rule for_down_rule [where I = ?I])
    show "?I (K * K) om" using assms by auto
    show "0 \<le> K * K" by simp
    fix i s assume i: "i < K * K" and I: "?I (Suc i) s"
    have "?I i (s[i + K := mac c (im ! i) (ws ! i) (s ! i)])"
    proof (intro conjI allI impI)
      show "length (s[i + K := mac c (im ! i) (ws ! i) (s ! i)]) = Suc K * K" using I by simp
      fix p assume p: "p < Suc K * K"
      have "s ! i = om ! i"
      proof (cases "K = 0")
        case True with i show ?thesis by simp
      next
        case False with I i show ?thesis by simp
      qed
      then show "s[i + K := mac c (im ! i) (ws ! i) (s ! i)] ! p =
        (if i + K \<le> p then mac c (im ! (p - K)) (ws ! (p - K)) (om ! (p - K)) else om ! p)"
        using I p by (cases "p = i + K") (auto simp: nth_list_update)
    qed
    moreover have "i < length im" "i < length ws" "i < length s" "i + K < length s"
      using assms(2-) I i by auto
    ultimately show "\<exists>s'. do { x \<leftarrow> rd im i; w \<leftarrow> rd ws i; acc \<leftarrow> rd s i;
        wr s (i + K) (mac c x w acc)} = Some s' \<and> ?I i s'"
      by (simp add: arr_simps)
  qed
  then obtain om' where om': "mac_sweep c ws im om = Some om'" "?I 0 om'" by blast
  have "om' ! mem2d K 0 j = om ! mem2d K 0 j" if "j < K" for j
    using om'(2) that by (auto simp: mem2d_def)
  moreover have "om' ! mem2d K (Suc r) j =
       mac c (im ! mem2d K r j) (ws ! mem2d K r j) (om ! mem2d K r j)" if "r < K" "j < K" for r j
  proof -
    have "mem2d K (Suc r) j < Suc K * K" using that by (intro mem2d_less) auto
    moreover have "mem2d K (Suc r) j = mem2d K r j + K" by (simp add: mem2d_def)
    ultimately show ?thesis using om'(2) by simp
  qed
  ultimately show ?thesis using om' by blast
qed

lemma deskew_outputs_spec:
  fixes ow :: "'a::len word list"
  assumes "length om = Suc K * K" "length ow = K * K"
  shows "\<exists>ow'. deskew_outputs K om ow = Some ow' \<and> length ow' = K * K \<and>
    (\<forall>r<K. \<forall>c<K. ow' ! mem2d K r c =
       (if r = 0 then ucast (om ! mem2d K K c) else ow ! mem2d K (r - 1) c))"
proof -
  let ?I = "\<lambda>j ow'. length ow' = K * K \<and> (\<forall>r<K. \<forall>c<K. ow' ! mem2d K r c =
       (if c < j then (if r = 0 then ucast (om ! mem2d K K c) else ow ! mem2d K (r - 1) c)
        else ow ! mem2d K r c))"
  have "\<exists>s'. deskew_outputs K om ow = Some s' \<and> ?I K s'"
    unfolding deskew_outputs_def
  proof (rule for_up_rule [where I = ?I])
    show "?I 0 ow" using assms by simp
    show "0 \<le> K" by simp
    fix j s assume j: "j < K" and I: "?I j s"
    from I j obtain s1 where s1: "shift_down K j s = Some s1" "length s1 = K * K"
      "\<forall>r<K. \<forall>c<K. s1 ! mem2d K r c =
         (if c = j \<and> 0 < r then s ! mem2d K (r - 1) j else s ! mem2d K r c)"
      using shift_down_spec [of j K s] by auto
    have len: "mem2d K K j < length om" "mem2d K 0 j < length s1"
      using j assms s1(2) mem2d_less [of K "Suc K" j K] mem2d_less [of 0 K j K] by auto
    have cast: "ucast (v AND mask LENGTH('a)) = (ucast v :: 'a word)" for v :: "32 word"
      by (rule bit_word_eqI)
        (auto simp: bit_ucast_iff bit_and_iff bit_mask_iff dest: bit_imp_le_length)
    have "?I (Suc j) (s1[mem2d K 0 j := ucast (om ! mem2d K K j)])"
      using I s1(2,3) j len by (auto simp: nth_list_update less_Suc_eq)
    with s1(1) len show "\<exists>s'. do { ow \<leftarrow> shift_down K j s; v \<leftarrow> rd om (mem2d K K j);
        wr ow (mem2d K 0 j) (ucast (v AND mask LENGTH('a)))} = Some s' \<and> ?I (Suc j) s'"
      by (simp add: arr_simps cast)
  qed
  then show ?thesis by auto
qed

lemma bus_row_less:
  assumes "cfg_ok c" "col < MAX_ACT_COL c" "i < ACT_PER_BUS c"
  shows "col * ACT_PER_BUS c + i < kernel_dim c"
  using mem2d_less [of col "MAX_ACT_COL c" i "ACT_PER_BUS c"] assms
  by (simp add: cfg_okD mem2d_def)

lemma tile_store_spec:
  fixes c :: "('a::len, 'w::len) sa_cfg"
  defines "K \<equiv> kernel_dim c" and "A \<equiv> ACT_PER_BUS c"
  assumes ok: "cfg_ok c" "col < MAX_ACT_COL c" and len: "length iw = K * K"
  shows "\<exists>iw'. tile_store c col val iw = Some iw' \<and> length iw' = K * K \<and>
    (\<forall>r<K. \<forall>j<K. iw' ! mem2d K r j =
       (if r div A = col \<and> j = K - 1 - r then bus_lane val (r mod A) else iw ! mem2d K r j))"
proof -
  let ?I = "\<lambda>i iw'. length iw' = K * K \<and> (\<forall>r<K. \<forall>j<K. iw' ! mem2d K r j =
       (if r div A = col \<and> r mod A < i \<and> j = K - 1 - r then bus_lane val (r mod A)
        else iw ! mem2d K r j))"
  have A: "0 < A" using ok by (simp add: A_def cfg_okD)
  have "\<exists>s'. tile_store c col val iw = Some s' \<and> ?I A s'"
    unfolding tile_store_def A_def [symmetric] K_def [symmetric]
  proof (rule for_up_rule [where I = ?I])
    show "?I 0 iw" using len by simp
    show "0 \<le> A" by simp
    fix i s assume i: "i < A" and I: "?I i s"
    define row where "row = col * A + i"
    have row: "row < K" "row div A = col" "row mod A = i"
      using bus_row_less [OF ok] i A by (simp_all add: row_def A_def K_def)
    have row_iff: "row = r \<longleftrightarrow> r div A = col \<and> r mod A = i" for r
      using row by (auto simp: row_def mult.commute)
    have pos: "mem2d K row (K - 1 - row) < length s"
      using I row(1) by (auto intro!: mem2d_less)
    have "?I (Suc i) (s[mem2d K row (K - 1 - row) := bus_lane val i])"
    proof (intro conjI allI impI)
      show "length (s[mem2d K row (K - 1 - row) := bus_lane val i]) = K * K" using I by simp
      fix r j assume rj: "r < K" "j < K"
      show "s[mem2d K row (K - 1 - row) := bus_lane val i] ! mem2d K r j =
        (if r div A = col \<and> r mod A < Suc i \<and> j = K - 1 - r then bus_lane val (r mod A)
         else iw ! mem2d K r j)"
      proof (cases "row = r")
        case True
        with I row rj pos show ?thesis by (auto simp: nth_list_update)
      next
        case False
        with I rj pos row(1) row_iff [of r] show ?thesis by (auto simp: less_Suc_eq)
      qed
    qed
    with pos show "\<exists>s'. (let row_index = col * A + i in
        wri s (int row_index * int K + (int K - int row_index - 1)) (bus_lane val i)) = Some s'
        \<and> ?I (Suc i) s'"
      by (simp add: row_def [symmetric] mem2d_int(1) [OF row(1)] Let_def arr_simps)
  qed
  then show ?thesis using A by simp
qed

lemma tile_retrieve_spec:
  fixes c :: "('a::len, 'w::len) sa_cfg"
  defines "K \<equiv> kernel_dim c"
  assumes ok: "cfg_ok c" "col < MAX_ACT_COL c" and len: "length ow = K * K"
  shows "tile_retrieve c (col * ACT_PER_BUS c) ow =
    Some (bus_pack (\<lambda>i. let e = col * ACT_PER_BUS c + i in ow ! mem2d K (K - 1 - e) e))"
proof -
  let ?r = "col * ACT_PER_BUS c"
  have "rdi ow ((int K - int (?r + i) - 1) * int K + int (?r + i))
      = Some (ow ! mem2d K (K - 1 - (?r + i)) (?r + i))" if "i < ACT_PER_BUS c" for i
  proof -
    have e: "?r + i < K" using bus_row_less [OF ok] that by (simp add: K_def)
    then have "mem2d K (K - 1 - (?r + i)) (?r + i) < length ow"
      using len by (auto intro!: mem2d_less)
    with e show ?thesis by (simp only: mem2d_int(2) rdi_nat rd_Some)
  qed
  then show ?thesis
    unfolding tile_retrieve_def K_def [symmetric] bus_pack_def Let_def
    by (subst for_list_fold) (auto simp: ACT_PER_BUS_def)
qed

end
