(* ===== verification/TiC_Dataflow.thy ===== *)
theory TiC_Dataflow
  imports TiC_SATile
begin

text \<open>
  Functional correctness of the systolic dataflow. The software feeds the array a stream of
  bus words \<open>u 0, u 1, \<dots>\<close>: \<^verbatim>\<open>MAX_ACT_COL - 1\<close> queue operations and one stream operation per input
  row. \<open>flow\<close> relates the contents of every register of the array, after \<open>t\<close> complete
  rows and \<open>q\<close> queued words of the next one, to that stream and to the weights: each cell holds
  the activation or the partial column sum that the skewed schedule puts there. It says nothing
  of cells the stream has not reached yet, so it holds of any well-formed tile at the start,
  whatever an earlier multiplication left in its registers.
\<close>

subsection \<open>What the array computes\<close>

fun col_sum ::
  "('a::len, 'w::len) sa_cfg \<Rightarrow> (nat \<Rightarrow> 'a word) \<Rightarrow> (nat \<Rightarrow> 'w word) \<Rightarrow> nat \<Rightarrow> 32 word" where
  "col_sum c x w 0 = 0"
| "col_sum c x w (Suc i) = mac c (x i) (w i) (col_sum c x w i)"

text \<open>With integers of up to 8 bits and up to \<open>2 ^ 16\<close> rows the sum does not wrap.\<close>

lemma sint_byte: "LENGTH('b::len) \<le> 8 \<Longrightarrow> \<bar>sint (v :: 'b word)\<bar> \<le> 2 ^ 7"
proof -
  assume "LENGTH('b) \<le> 8"
  then have "(2 :: int) ^ (LENGTH('b) - 1) \<le> 2 ^ 7" by (intro power_increasing) simp_all
  then show ?thesis using sint_ge [of v] sint_lt [of v] by linarith
qed

lemma col_sum_exact:
  fixes c :: "('a::len, 'w::len) sa_cfg"
  assumes "mac c = mac_int" "LENGTH('a) \<le> 8" "LENGTH('w) \<le> 8" "n \<le> 2 ^ 16"
  shows "sint (col_sum c x w n) = (\<Sum>i<n. sint (x i) * sint (w i)) \<and> \<bar>\<Sum>i<n. sint (x i) * sint (w i)\<bar> \<le> int n * 2 ^ 14"
  using assms(4)
proof (induction n)
  case (Suc n)
  let ?p = "sint (x n) * sint (w n)" and ?s = "\<Sum>i<n. sint (x i) * sint (w i)"
  have IH: "sint (col_sum c x w n) = ?s" "\<bar>?s\<bar> \<le> int n * 2 ^ 14" using Suc by simp_all
  note b = sint_byte [OF assms(2), of "x n"] sint_byte [OF assms(3), of "w n"]
  have p: "\<bar>?p\<bar> \<le> 2 ^ 14" using mult_mono [OF b] by (simp add: abs_mult)
  have bound: "\<bar>?s + ?p\<bar> \<le> int (Suc n) * 2 ^ 14" using p IH(2) by (simp add: abs_le_iff algebra_simps)
  have small: "\<bar>v\<bar> < 2 ^ 31 \<Longrightarrow> signed_take_bit 31 v = v" for v :: int by (simp add: signed_take_bit_int_eq_self)
  have "sint (scast (x n) :: 32 word) = sint (x n)" "sint (scast (w n) :: 32 word) = sint (w n)"
    using small [of "sint (x n)"] small [of "sint (w n)"] b by (simp_all add: signed_scast_eq)
  then have "sint (scast (x n) * scast (w n) :: 32 word) = ?p" using small [of ?p] p by (simp add: sint_word_mult)
  moreover have "sint (a + b :: 32 word) = sint a + sint b" if "\<bar>sint a + sint b\<bar> < 2 ^ 31" for a b :: "32 word"
    using that by (simp add: sint_word_add signed_take_bit_int_eq_self)
  moreover have "\<bar>?p + ?s\<bar> < 2 ^ 31" using bound Suc.prems by (simp add: add.commute)
  ultimately have "sint (col_sum c x w (Suc n)) = ?s + ?p" by (simp add: assms(1) mac_int_def IH(1))
  then show ?case using bound by simp
qed simp

definition row_act :: "('a::len, 'w::len) sa_cfg \<Rightarrow> (nat \<Rightarrow> 32 word) \<Rightarrow> nat \<Rightarrow> nat \<Rightarrow> 'a word" where
  "row_act c u t e = bus_lane (u (t * MAX_ACT_COL c + e div ACT_PER_BUS c)) (e mod ACT_PER_BUS c)"

definition tile_dot ::
  "('a::len, 'w::len) sa_cfg \<Rightarrow> 'w word list \<Rightarrow> (nat \<Rightarrow> 'a word) \<Rightarrow> nat \<Rightarrow> 'a word" where
  "tile_dot c ws x j = ucast (col_sum c x (\<lambda>i. ws ! mem2d (kernel_dim c) i j) (kernel_dim c))"

definition sa_result ::
  "('a::len, 'w::len) sa_cfg \<Rightarrow> 'w word list \<Rightarrow> (nat \<Rightarrow> 32 word) \<Rightarrow> nat \<Rightarrow> 32 word" where
  "sa_result c ws u k = bus_pack (\<lambda>i.
     tile_dot c ws (row_act c u (k div MAX_ACT_COL c)) (k mod MAX_ACT_COL c * ACT_PER_BUS c + i))"

subsection \<open>The invariant of a run\<close>

definition inw_ok ::
  "('a::len, 'w::len) sa_cfg \<Rightarrow> (nat \<Rightarrow> 32 word) \<Rightarrow> nat \<Rightarrow> nat \<Rightarrow> 'a word list \<Rightarrow> bool" where
  "inw_ok c u t q iw \<longleftrightarrow> (let K = kernel_dim c in \<forall>r<K.
     (r div ACT_PER_BUS c < q \<longrightarrow> iw ! mem2d K r (K - 1 - r) = row_act c u t r) \<and>
     (\<forall>d. 0 < d \<longrightarrow> d \<le> r \<longrightarrow> d \<le> t \<longrightarrow> iw ! mem2d K r (K - 1 - r + d) = row_act c u (t - d) r))"

definition im_ok ::
  "('a::len, 'w::len) sa_cfg \<Rightarrow> (nat \<Rightarrow> 32 word) \<Rightarrow> nat \<Rightarrow> 'a word list \<Rightarrow> bool" where
  "im_ok c u t im \<longleftrightarrow> (let K = kernel_dim c in \<forall>r<K. \<forall>j<K.
     0 < j \<longrightarrow> r + j \<le> t \<longrightarrow> im ! mem2d K r j = row_act c u (t - r - j) r)"

definition om_ok ::
  "('a::len, 'w::len) sa_cfg \<Rightarrow> 'w word list \<Rightarrow> (nat \<Rightarrow> 32 word) \<Rightarrow> nat \<Rightarrow> 32 word list \<Rightarrow> bool" where
  "om_ok c ws u t om \<longleftrightarrow> (let K = kernel_dim c in \<forall>r<K. \<forall>j<K.
     r + j < t \<longrightarrow> om ! mem2d K (Suc r) j =
       col_sum c (row_act c u (t - 1 - r - j)) (\<lambda>i. ws ! mem2d K i j) (Suc r))"

definition ow_ok ::
  "('a::len, 'w::len) sa_cfg \<Rightarrow> 'w word list \<Rightarrow> (nat \<Rightarrow> 32 word) \<Rightarrow> nat \<Rightarrow> 'a word list \<Rightarrow> bool" where
  "ow_ok c ws u t ow \<longleftrightarrow> (let K = kernel_dim c in \<forall>r<K. \<forall>j<K.
     r + j + K \<le> t \<longrightarrow> ow ! mem2d K r j = tile_dot c ws (row_act c u (t - r - j - K)) j)"

definition flow ::
  "('a::len, 'w::len) sa_cfg \<Rightarrow> 'w word list \<Rightarrow> (nat \<Rightarrow> 32 word) \<Rightarrow> nat \<Rightarrow> nat
     \<Rightarrow> ('a, 'w) sa_tile \<Rightarrow> bool" where
  "flow c ws u t q s \<longleftrightarrow> tile_wf c s \<and> weights s = ws \<and>
     inw_ok c u t q (inWaitingMemory s) \<and> im_ok c u t (inputMemory s) \<and>
     om_ok c ws u t (outputMemory s) \<and> ow_ok c ws u t (outWaitingMemory s)"

lemma flow_start: "tile_wf c s \<Longrightarrow> flow c (weights s) u 0 0 s"
  by (simp add: flow_def inw_ok_def im_ok_def om_ok_def ow_ok_def Let_def)

subsection \<open>One bus word\<close>

lemma inw_ok_store:
  assumes ok: "cfg_ok c" "q < MAX_ACT_COL c"
    and iw: "inw_ok c u t q iw" "length iw = kernel_dim c * kernel_dim c"
    and v: "v = u (t * MAX_ACT_COL c + q)"
  shows "\<exists>iw'. tile_store c q v iw = Some iw' \<and> length iw' = kernel_dim c * kernel_dim c \<and>
    inw_ok c u t (Suc q) iw'"
proof -
  let ?K = "kernel_dim c" and ?A = "ACT_PER_BUS c"
  from tile_store_spec [OF ok iw(2)] obtain iw' where iw':
    "tile_store c q v iw = Some iw'" "length iw' = ?K * ?K"
    "\<forall>r<?K. \<forall>j<?K. iw' ! mem2d ?K r j =
       (if r div ?A = q \<and> j = ?K - 1 - r then bus_lane v (r mod ?A) else iw ! mem2d ?K r j)"
    by blast
  have "inw_ok c u t (Suc q) iw'"
    unfolding inw_ok_def Let_def
  proof (intro allI impI conjI)
    fix r assume r: "r < ?K" "r div ?A < Suc q"
    show "iw' ! mem2d ?K r (?K - 1 - r) = row_act c u t r"
      using iw'(3) r iw(1) by (cases "r div ?A = q") (auto simp: row_act_def v inw_ok_def Let_def)
  next
    fix r d assume r: "r < ?K" "0 < d" "d \<le> r" "d \<le> t"
    then have "?K - 1 - r + d < ?K" "?K - 1 - r + d \<noteq> ?K - 1 - r" by linarith+
    then show "iw' ! mem2d ?K r (?K - 1 - r + d) = row_act c u (t - d) r"
      using iw'(3) r iw(1) by (simp add: inw_ok_def Let_def)
  qed
  with iw' show ?thesis by blast
qed

lemma inw_ok_shift:
  assumes iw: "inw_ok c u t (MAX_ACT_COL c) iw" and ok: "cfg_ok c"
    and sh: "\<forall>r<kernel_dim c. \<forall>j<kernel_dim c.
      iw' ! mem2d (kernel_dim c) r j = iw ! mem2d (kernel_dim c) r (j - 1)"
  shows "inw_ok c u (Suc t) 0 iw'"
    and "r < kernel_dim c \<Longrightarrow> r \<le> t \<Longrightarrow>
      iw ! mem2d (kernel_dim c) r (kernel_dim c - 1) = row_act c u (t - r) r"
proof -
  let ?K = "kernel_dim c"
  have all: "r div ACT_PER_BUS c < MAX_ACT_COL c" if "r < ?K" for r
    using that cfg_okD [OF ok] by (metis less_mult_imp_div_less)
  have cell: "iw ! mem2d ?K r (?K - 1 - r + d) = row_act c u (t - d) r"
    if "r < ?K" "d \<le> r" "d \<le> t" for r d
    using iw that all [OF that(1)] by (cases "d = 0") (auto simp: inw_ok_def Let_def)
  show "inw_ok c u (Suc t) 0 iw'"
    unfolding inw_ok_def Let_def
  proof (intro allI impI conjI)
    fix r d assume r: "r < ?K" "0 < d" "d \<le> r" "d \<le> Suc t"
    then have "?K - 1 - r + d < ?K" "?K - 1 - r + d - 1 = ?K - 1 - r + (d - 1)" by linarith+
    with sh cell [of r "d - 1"] r show "iw' ! mem2d ?K r (?K - 1 - r + d) = row_act c u (Suc t - d) r"
      by simp
  qed simp
  show "iw ! mem2d ?K r (?K - 1) = row_act c u (t - r) r" if "r < ?K" "r \<le> t"
    using cell [of r r] that by simp
qed

lemma om_ok_mac:
  assumes om: "om_ok c ws u t om" "\<forall>j<kernel_dim c. om ! mem2d (kernel_dim c) 0 j = 0"
    and im: "\<forall>r<kernel_dim c. \<forall>j<kernel_dim c. r + j \<le> t \<longrightarrow>
      im ! mem2d (kernel_dim c) r j = row_act c u (t - r - j) r"
    and om': "\<forall>r<kernel_dim c. \<forall>j<kernel_dim c. om' ! mem2d (kernel_dim c) (Suc r) j =
      mac c (im ! mem2d (kernel_dim c) r j) (ws ! mem2d (kernel_dim c) r j) (om ! mem2d (kernel_dim c) r j)"
  shows "om_ok c ws u (Suc t) om'"
  unfolding om_ok_def Let_def
proof (intro allI impI)
  let ?K = "kernel_dim c"
  fix r j assume r: "r < ?K" "j < ?K" "r + j < Suc t"
  have "om ! mem2d ?K r j = col_sum c (row_act c u (t - r - j)) (\<lambda>i. ws ! mem2d ?K i j) r"
  proof (cases r)
    case 0
    with om(2) r show ?thesis by simp
  next
    case (Suc r')
    with om(1) r have "om ! mem2d ?K (Suc r') j =
        col_sum c (row_act c u (t - 1 - r' - j)) (\<lambda>i. ws ! mem2d ?K i j) (Suc r')"
      unfolding om_ok_def Let_def by simp
    with Suc show ?thesis by simp
  qed
  with om' im r show "om' ! mem2d ?K (Suc r) j =
      col_sum c (row_act c u (Suc t - 1 - r - j)) (\<lambda>i. ws ! mem2d ?K i j) (Suc r)"
    by simp
qed

lemma ow_ok_deskew:
  assumes ow: "ow_ok c ws u t ow" and om: "om_ok c ws u (Suc t) om" and K: "0 < kernel_dim c"
    and ow': "\<forall>r<kernel_dim c. \<forall>j<kernel_dim c. ow' ! mem2d (kernel_dim c) r j =
      (if r = 0 then ucast (om ! mem2d (kernel_dim c) (kernel_dim c) j)
       else ow ! mem2d (kernel_dim c) (r - 1) j)"
  shows "ow_ok c ws u (Suc t) ow'"
  unfolding ow_ok_def Let_def
proof (intro allI impI)
  let ?K = "kernel_dim c"
  fix r j assume r: "r < ?K" "j < ?K" "r + j + ?K \<le> Suc t"
  show "ow' ! mem2d ?K r j = tile_dot c ws (row_act c u (Suc t - r - j - ?K)) j"
  proof (cases r)
    case 0
    have "om ! mem2d ?K (Suc (?K - 1)) j =
        col_sum c (row_act c u (Suc t - 1 - (?K - 1) - j)) (\<lambda>i. ws ! mem2d ?K i j) (Suc (?K - 1))"
      using om r 0 K unfolding om_ok_def Let_def by (intro om [unfolded om_ok_def Let_def, rule_format]) auto
    moreover have "Suc t - 1 - (?K - 1) - j = Suc t - r - j - ?K" using 0 K r by simp
    ultimately show ?thesis using ow' r 0 K by (simp add: tile_dot_def)
  next
    case (Suc r')
    with ow' ow r show ?thesis by (simp add: ow_ok_def Let_def)
  qed
qed

lemma ow_ok_retrieve:
  assumes ok: "cfg_ok c" "q < MAX_ACT_COL c"
    and ow: "ow_ok c ws u t ow" "length ow = kernel_dim c * kernel_dim c"
    and t: "2 * kernel_dim c - 1 \<le> t"
  shows "tile_retrieve c (q * ACT_PER_BUS c) ow =
    Some (sa_result c ws u ((t - (2 * kernel_dim c - 1)) * MAX_ACT_COL c + q))"
proof -
  let ?K = "kernel_dim c" and ?A = "ACT_PER_BUS c" and ?M = "MAX_ACT_COL c"
  have "bus_pack (\<lambda>i. let e = q * ?A + i in ow ! mem2d ?K (?K - 1 - e) e) =
      sa_result c ws u ((t - (2 * ?K - 1)) * ?M + q)"
    unfolding sa_result_def
  proof (rule bus_pack_cong)
    fix i assume "i < per_bus TYPE('a)"
    then have e: "q * ?A + i < ?K" using bus_row_less [OF ok] by (simp add: ACT_PER_BUS_def)
    then have "ow ! mem2d ?K (?K - 1 - (q * ?A + i)) (q * ?A + i) =
        tile_dot c ws (row_act c u (t - (?K - 1 - (q * ?A + i)) - (q * ?A + i) - ?K)) (q * ?A + i)"
      using t by (intro ow(1) [unfolded ow_ok_def Let_def, rule_format]) auto
    moreover have "t - (?K - 1 - (q * ?A + i)) - (q * ?A + i) - ?K = t - (2 * ?K - 1)"
      using e t by linarith
    ultimately show "(let e = q * ?A + i in ow ! mem2d ?K (?K - 1 - e) e) =
        tile_dot c ws (row_act c u (((t - (2 * ?K - 1)) * ?M + q) div ?M))
          (((t - (2 * ?K - 1)) * ?M + q) mod ?M * ?A + i)"
      using ok(2) by (simp add: Let_def)
  qed
  then show ?thesis using tile_retrieve_spec [OF ok ow(2)] by simp
qed

lemma tile_retrieve_Some:
  assumes "cfg_ok c" "q < MAX_ACT_COL c" "length ow = kernel_dim c * kernel_dim c"
  shows "\<exists>r. tile_retrieve c (q * ACT_PER_BUS c) ow = Some r"
  using tile_retrieve_spec [OF assms] by simp

lemma flow_queue:
  assumes ok: "cfg_ok c" "Suc q < MAX_ACT_COL c" and fl: "flow c ws u t q s"
  shows "\<exists>s' r. tile_inputQueue c q (u (t * MAX_ACT_COL c + q)) s = Some (s', r) \<and>
    flow c ws u t (Suc q) s' \<and>
    (2 * kernel_dim c - 1 \<le> t \<longrightarrow>
       r = sa_result c ws u ((t - (2 * kernel_dim c - 1)) * MAX_ACT_COL c + Suc q))"
proof -
  let ?K = "kernel_dim c"
  from fl have wf: "length (inWaitingMemory s) = ?K * ?K" "length (outWaitingMemory s) = ?K * ?K"
    by (simp_all add: flow_def tile_wf_def Let_def)
  have iw: "inw_ok c u t q (inWaitingMemory s)" and ow: "ow_ok c ws u t (outWaitingMemory s)"
    using fl by (simp_all add: flow_def)
  obtain iw' where iw': "tile_store c q (u (t * MAX_ACT_COL c + q)) (inWaitingMemory s) = Some iw'"
      "length iw' = ?K * ?K" "inw_ok c u t (Suc q) iw'"
    using inw_ok_store [OF ok(1) Suc_lessD [OF ok(2)] iw wf(1) refl] by blast
  obtain r where r: "tile_retrieve c (Suc q * ACT_PER_BUS c) (outWaitingMemory s) = Some r"
    using tile_retrieve_Some [OF ok wf(2)] by blast
  have "tile_inputQueue c q (u (t * MAX_ACT_COL c + q)) s = Some (s\<lparr>inWaitingMemory := iw'\<rparr>, r)"
    using iw'(1) r ok(2) by (simp add: tile_inputQueue_def)
  moreover have "flow c ws u t (Suc q) (s\<lparr>inWaitingMemory := iw'\<rparr>)"
    using fl iw'(2,3) by (auto simp: flow_def tile_wf_def Let_def)
  moreover have "r = sa_result c ws u ((t - (2 * ?K - 1)) * MAX_ACT_COL c + Suc q)"
    if "2 * ?K - 1 \<le> t"
    using ow_ok_retrieve [OF ok ow wf(2) that] r by simp
  ultimately show ?thesis by blast
qed

lemma flow_stream:
  assumes ok: "cfg_ok c" and fl: "flow c ws u t (MAX_ACT_COL c - 1) s"
  shows "\<exists>s' r. tile_streamInOut c (u (t * MAX_ACT_COL c + (MAX_ACT_COL c - 1))) s = Some (s', r) \<and>
    flow c ws u (Suc t) 0 s' \<and>
    (2 * kernel_dim c - 1 \<le> Suc t \<longrightarrow>
       r = sa_result c ws u ((Suc t - (2 * kernel_dim c - 1)) * MAX_ACT_COL c))"
proof -
  let ?K = "kernel_dim c" and ?M = "MAX_ACT_COL c"
  let ?v = "u (t * ?M + (?M - 1))"
  have M: "0 < ?M" and K: "0 < ?K" using ok by (simp_all add: cfg_okD)
  from fl have wf: "length (inWaitingMemory s) = ?K * ?K" "length (outWaitingMemory s) = ?K * ?K"
      "length (inputMemory s) = ?K * ?K" "length (outputMemory s) = Suc ?K * ?K"
      "length (weights s) = ?K * ?K" "\<forall>j<?K. outputMemory s ! mem2d ?K 0 j = 0"
    and ws: "weights s = ws" and iw: "inw_ok c u t (?M - 1) (inWaitingMemory s)"
    and im: "im_ok c u t (inputMemory s)" and om: "om_ok c ws u t (outputMemory s)"
    and ow: "ow_ok c ws u t (outWaitingMemory s)"
    by (auto simp: flow_def tile_wf_def Let_def)
  obtain iw1 where iw1: "tile_store c (?M - 1) ?v (inWaitingMemory s) = Some iw1"
      "length iw1 = ?K * ?K" "inw_ok c u t ?M iw1"
    using inw_ok_store [OF ok _ iw wf(1) refl] M by auto
  obtain im2 iw2 where s2: "skew_inputs ?K (inputMemory s, iw1) = Some (im2, iw2)"
      "length im2 = ?K * ?K" "length iw2 = ?K * ?K"
      "\<forall>r<?K. \<forall>j<?K. im2 ! mem2d ?K r j =
         (if j = 0 then iw1 ! mem2d ?K r (?K - 1) else inputMemory s ! mem2d ?K r j)"
      "\<forall>r<?K. \<forall>j<?K. iw2 ! mem2d ?K r j = iw1 ! mem2d ?K r (j - 1)"
    using skew_inputs_spec [OF wf(3) iw1(2)] by blast
  have im2: "\<forall>r<?K. \<forall>j<?K. r + j \<le> t \<longrightarrow> im2 ! mem2d ?K r j = row_act c u (t - r - j) r"
    using s2(4) im inw_ok_shift(2) [OF iw1(3) ok s2(5)] by (auto simp: im_ok_def Let_def)
  obtain om3 where s3: "mac_sweep c ws im2 (outputMemory s) = Some om3" "length om3 = Suc ?K * ?K"
      "\<forall>j<?K. om3 ! mem2d ?K 0 j = outputMemory s ! mem2d ?K 0 j"
      "\<forall>r<?K. \<forall>j<?K. om3 ! mem2d ?K (Suc r) j =
         mac c (im2 ! mem2d ?K r j) (ws ! mem2d ?K r j) (outputMemory s ! mem2d ?K r j)"
    using mac_sweep_spec [of ws c im2 "outputMemory s"] wf s2(2) ws by blast
  obtain im4 where s4: "shift_inputs ?K im2 = Some im4" "length im4 = ?K * ?K"
      "\<forall>r<?K. \<forall>j<?K. im4 ! mem2d ?K r j = im2 ! mem2d ?K r (j - 1)"
    using shift_inputs_spec [OF s2(2)] by blast
  obtain ow5 where s5: "deskew_outputs ?K om3 (outWaitingMemory s) = Some ow5"
      "length ow5 = ?K * ?K"
      "\<forall>r<?K. \<forall>j<?K. ow5 ! mem2d ?K r j =
         (if r = 0 then ucast (om3 ! mem2d ?K ?K j) else outWaitingMemory s ! mem2d ?K (r - 1) j)"
    using deskew_outputs_spec [OF s3(2) wf(2)] by blast
  obtain r where r: "tile_retrieve c 0 ow5 = Some r"
    using tile_retrieve_Some [OF ok M s5(2)] by auto
  let ?s' = "s\<lparr>inputMemory := im4, outputMemory := om3, inWaitingMemory := iw2,
             outWaitingMemory := ow5, non_zero_tile := False\<rparr>"
  have "tile_streamInOut c ?v s = Some (?s', r)"
    using iw1(1) s2(1) s3(1) s4(1) s5(1) r ws by (simp add: tile_streamInOut_def Let_def)
  moreover have omok: "om_ok c ws u (Suc t) om3" by (rule om_ok_mac [OF om wf(6) im2 s3(4)])
  have owok: "ow_ok c ws u (Suc t) ow5" by (rule ow_ok_deskew [OF ow omok K s5(3)])
  have "im_ok c u (Suc t) im4" using s4(3) im2 by (auto simp: im_ok_def Let_def)
  with omok owok inw_ok_shift(1) [OF iw1(3) ok s2(5)] wf(5,6) s2(3) s3(2,3) s4(2) s5(2) ws
  have "flow c ws u (Suc t) 0 ?s'" by (simp add: flow_def tile_wf_def Let_def)
  moreover have "r = sa_result c ws u ((Suc t - (2 * ?K - 1)) * ?M)" if "2 * ?K - 1 \<le> Suc t"
    using ow_ok_retrieve [OF ok M owok s5(2) that] r by simp
  ultimately show ?thesis by blast
qed

subsection \<open>Loading the weights of a tile\<close>

definition tile_weights :: "('a::len, 'w::len) sa_cfg \<Rightarrow> (nat \<Rightarrow> 32 word) \<Rightarrow> 'w word list" where
  "tile_weights c vals = map (\<lambda>p. bus_lane (vals (p div W_PER_BUS c)) (p mod W_PER_BUS c))
     [0..<kernel_dim c * kernel_dim c]"

lemma tile_loadWeights_spec:
  assumes "idx + W_PER_BUS c \<le> length (weights t)"
  shows "\<exists>ws. tile_loadWeights c idx val t =
      Some (t\<lparr>weights := ws, non_zero_tile := (if val \<noteq> 0 then True else non_zero_tile t)\<rparr>) \<and>
    length ws = length (weights t) \<and>
    (\<forall>p<length ws. ws ! p =
       (if idx \<le> p \<and> p < idx + W_PER_BUS c then bus_lane val (p - idx) else weights t ! p))"
proof -
  let ?I = "\<lambda>i ws. length ws = length (weights t) \<and> (\<forall>p<length ws. ws ! p =
       (if idx \<le> p \<and> p < idx + i then bus_lane val (p - idx) else weights t ! p))"
  have "\<exists>ws. for_list [0..<W_PER_BUS c] (\<lambda>i ws. wr ws (idx + i) (bus_lane val i)) (weights t)
      = Some ws \<and> ?I (W_PER_BUS c) ws"
  proof (rule for_up_rule [where I = ?I])
    show "?I 0 (weights t)" by auto
    show "0 \<le> W_PER_BUS c" by simp
    fix i ws assume i: "i < W_PER_BUS c" and I: "?I i ws"
    have "idx + i < length ws" using assms i I by simp
    moreover from this have "?I (Suc i) (ws[idx + i := bus_lane val i])"
      using I by (auto simp: nth_list_update)
    ultimately show "\<exists>s'. wr ws (idx + i) (bus_lane val i) = Some s' \<and> ?I (Suc i) s'"
      by (simp add: arr_simps)
  qed
  then obtain ws where ws:
    "for_list [0..<W_PER_BUS c] (\<lambda>i ws. wr ws (idx + i) (bus_lane val i)) (weights t) = Some ws"
    "?I (W_PER_BUS c) ws" by blast
  then show ?thesis by (intro exI [of _ ws]) (simp add: tile_loadWeights_def)
qed

text \<open>Every write of a whole tile: the weights loaded so far, and the invariant.\<close>

definition loaded ::
  "('a::len, 'w::len) sa_cfg \<Rightarrow> (nat \<Rightarrow> 32 word) \<Rightarrow> nat \<Rightarrow> ('a, 'w) sa_tile \<Rightarrow> bool" where
  "loaded c vals k t \<longleftrightarrow> tile_wf c t \<and>
     (\<forall>p < k * W_PER_BUS c. weights t ! p = bus_lane (vals (p div W_PER_BUS c)) (p mod W_PER_BUS c))"

lemma loaded_step:
  assumes ok: "cfg_ok c" and k: "k < kernel_dim c * MAX_W_COL c" and t: "loaded c vals k t"
  shows "\<exists>t'. tile_loadWeights c (k * W_PER_BUS c) (vals k) t = Some t' \<and> loaded c vals (Suc k) t'"
proof -
  let ?K = "kernel_dim c" and ?W = "W_PER_BUS c"
  have "Suc k * ?W \<le> ?K * MAX_W_COL c * ?W" using k by (intro mult_le_mono1) simp
  also have "\<dots> = ?K * ?K" using ok by (simp add: cfg_okD mult.assoc)
  finally have le: "k * ?W + ?W \<le> ?K * ?K" by simp
  have len: "length (weights t) = ?K * ?K" using t by (simp add: loaded_def tile_wf_def Let_def)
  obtain ws where ws: "tile_loadWeights c (k * ?W) (vals k) t =
      Some (t\<lparr>weights := ws, non_zero_tile := (if vals k \<noteq> 0 then True else non_zero_tile t)\<rparr>)"
    "length ws = ?K * ?K" "\<forall>p<length ws. ws ! p =
       (if k * ?W \<le> p \<and> p < k * ?W + ?W then bus_lane (vals k) (p - k * ?W) else weights t ! p)"
    using tile_loadWeights_spec [of "k * ?W" c t "vals k"] le len by auto
  have "ws ! p = bus_lane (vals (p div ?W)) (p mod ?W)" if p: "p < Suc k * ?W" for p
  proof (cases "p < k * ?W")
    case True
    with ws(2,3) le t show ?thesis by (simp add: loaded_def)
  next
    case False
    with p obtain i where "p = mem2d ?W k i" "i < ?W"
      by (metis add.commute add_less_cancel_left le_Suc_ex mem2d_def mult_Suc not_less)
    then have "p div ?W = k" "p mod ?W = p - k * ?W" by (simp_all add: mem2d_def)
    with ws(2,3) le p False show ?thesis by simp
  qed
  then have "loaded c vals (Suc k)
      (t\<lparr>weights := ws, non_zero_tile := (if vals k \<noteq> 0 then True else non_zero_tile t)\<rparr>)"
    using t ws(2) by (simp add: loaded_def tile_wf_def Let_def)
  with ws(1) show ?thesis by blast
qed

lemma loaded_all:
  assumes "cfg_ok c" "loaded c vals (kernel_dim c * MAX_W_COL c) t"
  shows "weights t = tile_weights c vals"
proof -
  have "kernel_dim c * MAX_W_COL c * W_PER_BUS c = kernel_dim c * kernel_dim c"
    using assms(1) by (simp add: cfg_okD mult.assoc)
  with assms(2) show ?thesis
    by (intro nth_equalityI) (auto simp: loaded_def tile_wf_def Let_def tile_weights_def)
qed

subsection \<open>A run of bus calls\<close>

text \<open>\<open>tile_run c vals u n t\<close>: tile \<open>t\<close> holds the weights \<open>vals\<close> and has been fed \<open>u 0, \<dots>, u (n - 1)\<close>.\<close>

definition tile_run ::
  "('a::len, 'w::len) sa_cfg \<Rightarrow> (nat \<Rightarrow> 32 word) \<Rightarrow> (nat \<Rightarrow> 32 word) \<Rightarrow> nat \<Rightarrow> ('a, 'w) sa_tile \<Rightarrow> bool" where
  "tile_run c vals u n t \<longleftrightarrow>
     flow c (tile_weights c vals) u (n div MAX_ACT_COL c) (n mod MAX_ACT_COL c) t"

definition latency :: "('a::len, 'w::len) sa_cfg \<Rightarrow> nat" where
  "latency c = MAX_ACT_COL c * (2 * kernel_dim c - 1) - 1"

definition run_result ::
  "('a::len, 'w::len) sa_cfg \<Rightarrow> (nat \<Rightarrow> 32 word) \<Rightarrow> (nat \<Rightarrow> 32 word) \<Rightarrow> nat \<Rightarrow> 32 word" where
  "run_result c vals u k = sa_result c (tile_weights c vals) u k"

lemma latency_queue:
  assumes "Suc q < M" "0 < L" "n = t * M + q" "M * L - 1 \<le> n"
  shows "L \<le> t \<and> (t - L) * M + Suc q = n - (M * L - 1)"
proof -
  have "L * M < Suc t * M" using assms by (simp add: mult.commute)
  then have "L \<le> t" by (simp only: mult_less_cancel2 less_Suc_eq_le)
  then obtain d where "t = L + d" by (auto simp: le_iff_add)
  moreover have "0 < M * L" using assms by simp
  ultimately show ?thesis using assms(3) by (simp add: algebra_simps)
qed

lemma latency_stream:
  assumes "0 < M" "0 < L" "n = t * M + (M - 1)" "M * L - 1 \<le> n"
  shows "L \<le> Suc t \<and> (Suc t - L) * M = n - (M * L - 1)"
proof -
  have "0 < M * L" using assms by simp
  then have "L * M \<le> Suc t * M" using assms by (simp add: mult.commute)
  then have "L \<le> Suc t" using assms(1) by (simp only: mult_le_cancel2)
  then obtain d where d: "Suc t = L + d" by (auto simp: le_iff_add)
  have "n = Suc t * M - 1" using assms(1,3) by simp
  also have "\<dots> - (M * L - 1) = d * M" using \<open>0 < M * L\<close> unfolding d by (simp add: algebra_simps)
  finally show ?thesis using \<open>L \<le> Suc t\<close> d by simp
qed

lemma tile_run_start:
  assumes "cfg_ok c" "loaded c vals (kernel_dim c * MAX_W_COL c) t"
  shows "tile_run c vals u 0 t"
  using flow_start [of c t u] loaded_all [OF assms] assms(2)
  by (simp add: tile_run_def loaded_def)

lemma tile_run_queue:
  assumes ok: "cfg_ok c" and run: "tile_run c vals u n t"
    and n: "n mod MAX_ACT_COL c \<noteq> MAX_ACT_COL c - 1"
  shows "\<exists>t' r. tile_inputQueue c (n mod MAX_ACT_COL c) (u n) t = Some (t', r) \<and>
    tile_run c vals u (Suc n) t' \<and> (latency c \<le> n \<longrightarrow> r = run_result c vals u (n - latency c))"
proof -
  let ?M = "MAX_ACT_COL c" and ?K = "kernel_dim c"
  have M: "0 < ?M" and L: "0 < 2 * ?K - 1" using cfg_okD(1,8) [OF ok] by simp_all
  then have q: "Suc (n mod ?M) < ?M" using n mod_less_divisor [OF M, of n] by linarith
  have Suc: "Suc n div ?M = n div ?M" "Suc n mod ?M = Suc (n mod ?M)"
    using q by (simp_all add: div_Suc mod_Suc)
  have nn: "n = n div ?M * ?M + n mod ?M" by simp
  have lat: "2 * ?K - 1 \<le> n div ?M \<and>
      (n div ?M - (2 * ?K - 1)) * ?M + Suc (n mod ?M) = n - latency c" if "latency c \<le> n"
    using latency_queue [OF q L nn] that unfolding latency_def .
  from flow_queue [OF ok q run [unfolded tile_run_def]] show ?thesis
    using lat nn by (fastforce simp: tile_run_def Suc run_result_def)
qed

lemma tile_run_stream:
  assumes ok: "cfg_ok c" and run: "tile_run c vals u n t"
    and n: "n mod MAX_ACT_COL c = MAX_ACT_COL c - 1"
  shows "\<exists>t' r. tile_streamInOut c (u n) t = Some (t', r) \<and>
    tile_run c vals u (Suc n) t' \<and> (latency c \<le> n \<longrightarrow> r = run_result c vals u (n - latency c))"
proof -
  let ?M = "MAX_ACT_COL c" and ?K = "kernel_dim c"
  have M: "0 < ?M" and L: "0 < 2 * ?K - 1" using cfg_okD(1,8) [OF ok] by simp_all
  have Suc: "Suc n div ?M = Suc (n div ?M)" "Suc n mod ?M = 0"
    using n M by (simp_all add: div_Suc mod_Suc)
  have nn: "n = n div ?M * ?M + (?M - 1)" using n by (metis div_mult_mod_eq)
  have lat: "2 * ?K - 1 \<le> Suc (n div ?M) \<and> (Suc (n div ?M) - (2 * ?K - 1)) * ?M = n - latency c"
    if "latency c \<le> n"
    using latency_stream [OF M L nn] that unfolding latency_def .
  from flow_stream [OF ok run [unfolded tile_run_def n]] show ?thesis
    using lat nn by (fastforce simp: tile_run_def Suc run_result_def)
qed

lemma tile_run_wf: "tile_run c vals u n t \<Longrightarrow> tile_wf c t"
  by (simp add: tile_run_def flow_def)

end
