(* ===== verification/TiC_Smm.thy ===== *)
theory TiC_Smm
  imports TiC_Dataflow
begin

text \<open>
  From the inline assembly of \<^verbatim>\<open>accelerator/smm_gem.cc\<close> to the device: the four custom
  instruction words, the simulator's decoder for them
  (\<^verbatim>\<open>decodeCusDataProcImm\<close> in \<^verbatim>\<open>arch/arm/isa/formats/aarch64.isa\<close>), their execution
  (\<^verbatim>\<open>arch/arm/isa/insts/data64.isa\<close>) and the methods of the device
  (\<^verbatim>\<open>dev/arm/systolic_m2m.cc\<close>), which select the tile of a thread. A tile that has been freed is
  \<open>None\<close>; using it, indexing a tile that does not exist or an undefined instruction makes the
  operation \<open>None\<close>.

  The software above sees only the operations collected in \<open>smm_ops\<close>; the locale
  \<open>systolic_driver\<close> is the contract it relies on.
\<close>

subsection \<open>The device\<close>

record (overloaded) ('a, 'w) smm_dev =
  tiles :: "('a, 'w) sa_tile option list"
  pioAddr :: "64 word"
  pioSize :: "64 word"

definition smm_create :: "('a::len, 'w::len) sa_cfg \<Rightarrow> 64 word \<Rightarrow> 64 word \<Rightarrow> nat \<Rightarrow> ('a, 'w) smm_dev" where
  "smm_create c addr sz cpus =
     \<lparr>tiles = map (\<lambda>_. Some (SATile c)) [0..<cpus], pioAddr = addr, pioSize = sz\<rparr>"

definition get_tile :: "('a, 'w) smm_dev \<Rightarrow> int \<Rightarrow> ('a, 'w) sa_tile option" where
  "get_tile d tid = Option.bind (rdi (tiles d) tid) (\<lambda>p. p)"

definition set_tile :: "('a, 'w) smm_dev \<Rightarrow> int \<Rightarrow> ('a, 'w) sa_tile \<Rightarrow> ('a, 'w) smm_dev" where
  "set_tile d tid t = d\<lparr>tiles := (tiles d)[nat tid := Some t]\<rparr>"

definition loadWeights ::
  "('a::len, 'w::len) sa_cfg \<Rightarrow> int \<Rightarrow> int \<Rightarrow> 32 word \<Rightarrow> ('a, 'w) smm_dev
     \<Rightarrow> (('a, 'w) smm_dev \<times> bool) option" where
  "loadWeights c tid idx val d = do {
     t \<leftarrow> get_tile d tid;
     assert_c (0 \<le> idx);
     t' \<leftarrow> tile_loadWeights c (nat idx) val t;
     Some (set_tile d tid t', non_zero_tile t')
   }"

definition inputQueue ::
  "('a::len, 'w::len) sa_cfg \<Rightarrow> int \<Rightarrow> int \<Rightarrow> 32 word \<Rightarrow> ('a, 'w) smm_dev
     \<Rightarrow> (('a, 'w) smm_dev \<times> 32 word) option" where
  "inputQueue c tid col val d = do {
     t \<leftarrow> get_tile d tid;
     assert_c (0 \<le> col);
     (t', result) \<leftarrow> tile_inputQueue c (nat col) val t;
     Some (set_tile d tid t', result)
   }"

definition streamInOut ::
  "('a::len, 'w::len) sa_cfg \<Rightarrow> int \<Rightarrow> 32 word \<Rightarrow> ('a, 'w) smm_dev
     \<Rightarrow> (('a, 'w) smm_dev \<times> 32 word) option" where
  "streamInOut c tid val d = do {
     t \<leftarrow> get_tile d tid;
     (t', result) \<leftarrow> tile_streamInOut c val t;
     Some (set_tile d tid t', result)
   }"

definition readFlag :: "('a::len, 'w::len) sa_cfg \<Rightarrow> int \<Rightarrow> 32 word \<Rightarrow> 32 word" where
  "readFlag c tid val = word_of_nat (kernel_dim c)"

text \<open>
  Checkpointing. \<^verbatim>\<open>serialize\<close> frees every tile (\<^verbatim>\<open>delete[] tile\<close>) and writes nothing;
  \<^verbatim>\<open>unserialize\<close> appends one fresh tile per CPU to whatever the device holds. The simulator calls it on a device that it has
  constructed anew.
\<close>

definition smm_serialize :: "('a, 'w) smm_dev \<Rightarrow> ('a, 'w) smm_dev" where
  "smm_serialize d = d\<lparr>tiles := map (\<lambda>_. None) (tiles d)\<rparr>"

definition smm_unserialize :: "('a::len, 'w::len) sa_cfg \<Rightarrow> nat \<Rightarrow> ('a, 'w) smm_dev \<Rightarrow> ('a, 'w) smm_dev" where
  "smm_unserialize c cpus d = d\<lparr>tiles := tiles d @ map (\<lambda>_. Some (SATile c)) [0..<cpus]\<rparr>"

subsection \<open>The custom instructions\<close>

definition inst_bits :: "32 word \<Rightarrow> nat \<Rightarrow> nat \<Rightarrow> nat" where
  "inst_bits w hi lo = unat (drop_bit lo w AND mask (hi - lo + 1))"

datatype cm_inst =
    Cmprocess64 nat nat nat nat
  | Cmqueue64 nat nat nat nat
  | Cmparamwrite64 nat nat nat nat
  | Cmmemread64 nat nat nat nat
  | Unknown64

text \<open>Operands in the constructor order of the decoder: \<^verbatim>\<open>rd, ra, rn, rm\<close>.\<close>

definition decodeCusDataProcImm :: "32 word \<Rightarrow> cm_inst" where
  "decodeCusDataProcImm machInst =
     (let dst = inst_bits machInst 4 0; rn = inst_bits machInst 9 5;
          rm = inst_bits machInst 20 16; ra = inst_bits machInst 14 10;
          opc = inst_bits machInst 30 29; sel = inst_bits machInst 25 23
      in if sel = 2 \<or> sel = 3 then
           (if opc = 0 then Cmprocess64 dst ra rn rm
            else if opc = 1 then Cmqueue64 dst ra rn rm
            else if opc = 2 then Cmparamwrite64 dst ra rn rm
            else Cmmemread64 dst ra rn rm)
         else Unknown64)"

text \<open>
  The top of the decoder sends an instruction word with bits 28 and 27 clear to the custom instructions; the other words
  are instructions of the architecture, which the wrappers do not use.
\<close>

definition decodeAarch64 :: "32 word \<Rightarrow> cm_inst option" where
  "decodeAarch64 machInst =
     (if inst_bits machInst 27 27 = 0 \<and> inst_bits machInst 28 28 = 0
      then Some (decodeCusDataProcImm machInst) else None)"

text \<open>\<^verbatim>\<open>int x = Op64\<close>: the low 32 bits of a register as a signed integer.\<close>

definition reg_int :: "64 word \<Rightarrow> int" where
  "reg_int r = sint (ucast r :: 32 word)"

type_synonym regs = "nat \<Rightarrow> 64 word"

text \<open>\<^verbatim>\<open>Op1\<close>, \<^verbatim>\<open>Op2\<close>, \<^verbatim>\<open>Op3\<close> are the second, third and fourth operands of the constructor.\<close>

fun cm_exec ::
  "('a::len, 'w::len) sa_cfg \<Rightarrow> int \<Rightarrow> cm_inst \<Rightarrow> regs \<times> ('a, 'w) smm_dev
     \<Rightarrow> (regs \<times> ('a, 'w) smm_dev) option" where
  "cm_exec c thread (Cmprocess64 dst op1 op2 op3) (x, d) = do {
     (d', r) \<leftarrow> streamInOut c (reg_int (x op3)) (ucast (x op1)) d;
     Some (x(dst := ucast r), d')
   }"
| "cm_exec c thread (Cmqueue64 dst op1 op2 op3) (x, d) = do {
     (d', r) \<leftarrow> inputQueue c (reg_int (x op3)) (reg_int (x op2)) (ucast (x op1)) d;
     Some (x(dst := ucast r), d')
   }"
| "cm_exec c thread (Cmparamwrite64 dst op1 op2 op3) (x, d) = do {
     (d', b) \<leftarrow> loadWeights c (reg_int (x op3)) (reg_int (x op2)) (ucast (x op1)) d;
     Some (x(dst := of_bool b), d')
   }"
| "cm_exec c thread (Cmmemread64 dst op1 op2 op3) (x, d) =
     Some (x(dst := ucast (readFlag c thread (ucast (x op3)))), d)"
| "cm_exec c thread Unknown64 s = None"

subsection \<open>The assembly wrappers of \<^verbatim>\<open>smm_gem.cc\<close>\<close>

definition smmStream ::
  "('a::len, 'w::len) sa_cfg \<Rightarrow> int \<Rightarrow> 64 word \<Rightarrow> 64 word \<Rightarrow> regs \<times> ('a, 'w) smm_dev
     \<Rightarrow> ((regs \<times> ('a, 'w) smm_dev) \<times> 64 word) option" where
  "smmStream c thread rn tid = (\<lambda>(x, d). do {
     inst \<leftarrow> decodeAarch64 0x01081D2A;
     (x', d') \<leftarrow> cm_exec c thread inst (x(7 := rn, 8 := tid), d);
     Some ((x', d'), x' 10)
   })"

definition smmQueue ::
  "('a::len, 'w::len) sa_cfg \<Rightarrow> int \<Rightarrow> 64 word \<Rightarrow> 64 word \<Rightarrow> 64 word \<Rightarrow> regs \<times> ('a, 'w) smm_dev
     \<Rightarrow> ((regs \<times> ('a, 'w) smm_dev) \<times> 64 word) option" where
  "smmQueue c thread rm rn tid = (\<lambda>(x, d). do {
     inst \<leftarrow> decodeAarch64 0x21089D2A;
     (x', d') \<leftarrow> cm_exec c thread inst (x(9 := rm, 7 := rn, 8 := tid), d);
     Some ((x', d'), x' 10)
   })"

definition smmParamWrite ::
  "('a::len, 'w::len) sa_cfg \<Rightarrow> int \<Rightarrow> 64 word \<Rightarrow> 64 word \<Rightarrow> 64 word \<Rightarrow> regs \<times> ('a, 'w) smm_dev
     \<Rightarrow> ((regs \<times> ('a, 'w) smm_dev) \<times> 64 word) option" where
  "smmParamWrite c thread rm rn tid = (\<lambda>(x, d). do {
     inst \<leftarrow> decodeAarch64 0x41081D2A;
     (x', d') \<leftarrow> cm_exec c thread inst (x(9 := rm, 7 := rn, 8 := tid), d);
     Some ((x', d'), x' 10)
   })"

definition smmReadFlag ::
  "('a::len, 'w::len) sa_cfg \<Rightarrow> int \<Rightarrow> 64 word \<Rightarrow> 64 word \<Rightarrow> regs \<times> ('a, 'w) smm_dev
     \<Rightarrow> ((regs \<times> ('a, 'w) smm_dev) \<times> 64 word) option" where
  "smmReadFlag c thread val tid = (\<lambda>(x, d). do {
     inst \<leftarrow> decodeAarch64 0x61081D2A;
     (x', d') \<leftarrow> cm_exec c thread inst (x(9 := 0xdeadbeef, 7 := val, 8 := tid), d);
     Some ((x', d'), x' 10)
   })"

text \<open>The instruction words decode to the four operations, with X7 the value, X9 the index and
  X8 the thread.\<close>

lemma decode_words:
  "decodeAarch64 0x01081D2A = Some (Cmprocess64 10 7 9 8)"
  "decodeAarch64 0x21089D2A = Some (Cmqueue64 10 7 9 8)"
  "decodeAarch64 0x41081D2A = Some (Cmparamwrite64 10 7 9 8)"
  "decodeAarch64 0x61081D2A = Some (Cmmemread64 10 7 9 8)"
  by (simp_all add: decodeAarch64_def decodeCusDataProcImm_def inst_bits_def Let_def mask_eq_exp_minus_1)

subsection \<open>Accumulating a result word into memory\<close>

text \<open>
  \<^verbatim>\<open>addActIn32\<close> walks over the two words through \<^verbatim>\<open>activation_t\<close> pointers: lane \<open>i\<close> in memory order is
  the \<open>i\<close>-th group of bits from the least significant end.
\<close>

definition mem_lane :: "32 word \<Rightarrow> nat \<Rightarrow> 'b::len word" where
  "mem_lane m i = ucast (drop_bit (LENGTH('b) * i) m)"

definition set_mem_lane :: "32 word \<Rightarrow> nat \<Rightarrow> 'b::len word \<Rightarrow> 32 word" where
  "set_mem_lane m i v =
     (m AND NOT (push_bit (LENGTH('b) * i) (mask LENGTH('b)))) OR push_bit (LENGTH('b) * i) (ucast v)"

definition addActIn32 :: "('a::len, 'w::len) sa_cfg \<Rightarrow> 32 word \<Rightarrow> 32 word \<Rightarrow> 32 word" where
  "addActIn32 c memory systolicResult =
     fold (\<lambda>i m. set_mem_lane m i (act_add c (mem_lane m i) (mem_lane systolicResult i)))
       [0..<ACT_PER_BUS c] memory"

lemma mem_lane_bus: "n < per_bus TYPE('b::len) \<Longrightarrow>
    (bus_lane x n :: 'b word) = mem_lane x (per_bus TYPE('b) - n - 1)"
  by (rule bit_word_eqI)
    (auto simp: bit_bus_lane mem_lane_def bit_ucast_iff bit_drop_bit_eq dest: bit_imp_le_length)

lemma lane_index_less:
  assumes "k < LENGTH('b::len)" "i < per_bus TYPE('b)"
  shows "LENGTH('b) * i + k < 32"
proof -
  have "LENGTH('b) * i + k < LENGTH('b) * Suc i" using assms(1) by simp
  also have "\<dots> \<le> LENGTH('b) * per_bus TYPE('b)" using assms(2) by (intro mult_le_mono2) simp
  also have "\<dots> \<le> 32" by (simp add: per_bus_def BUS_WIDTH_def)
  finally show ?thesis .
qed

lemma mem_lane_set:
  assumes "i < per_bus TYPE('b::len)" "j < per_bus TYPE('b)"
  shows "mem_lane (set_mem_lane m i (v :: 'b word)) j = (if i = j then v else mem_lane m j)"
proof (rule bit_word_eqI)
  fix k assume k: "k < LENGTH('b)"
  let ?l = "LENGTH('b)"
  note lt = lane_index_less [OF k assms(2)]
  show "bit (mem_lane (set_mem_lane m i v) j :: 'b word) k = bit (if i = j then v else mem_lane m j) k"
  proof (cases "i = j")
    case True
    with k lt show ?thesis
      by (auto simp: mem_lane_def set_mem_lane_def bit_ucast_iff bit_drop_bit_eq bit_or_iff
          bit_and_iff bit_not_iff bit_push_bit_iff bit_mask_iff)
  next
    case False
    have "\<not> (?l * i \<le> ?l * j + k \<and> ?l * j + k - ?l * i < ?l)"
    proof
      assume a: "?l * i \<le> ?l * j + k \<and> ?l * j + k - ?l * i < ?l"
      then have "?l * j + k = ?l * i + (?l * j + k - ?l * i)" by simp
      with a k have "j = i" by (blast dest: lane_window)
      with False show False by simp
    qed
    with False k lt show ?thesis
      by (auto simp: mem_lane_def set_mem_lane_def bit_ucast_iff bit_drop_bit_eq bit_or_iff
          bit_and_iff bit_not_iff bit_push_bit_iff bit_mask_iff not_less dest: bit_imp_le_length)
  qed
qed

lemma mem_lane_addAct_fold:
  fixes c :: "('a::len, 'w::len) sa_cfg"
  assumes "n \<le> per_bus TYPE('a)" "j < per_bus TYPE('a)"
  shows "mem_lane (fold (\<lambda>i m. set_mem_lane m i (act_add c (mem_lane m i) (mem_lane r i)))
      [0..<n] m) j = (if j < n then act_add c (mem_lane m j) (mem_lane r j) else mem_lane m j)"
  using assms by (induction n) (auto simp: mem_lane_set less_Suc_eq)

lemma bus_lane_addActIn32:
  fixes c :: "('a::len, 'w::len) sa_cfg"
  assumes "n < ACT_PER_BUS c"
  shows "bus_lane (addActIn32 c m r) n = act_add c (bus_lane m n) (bus_lane r n)"
  using assms
  by (simp add: addActIn32_def ACT_PER_BUS_def mem_lane_bus mem_lane_addAct_fold)

subsection \<open>The contract of the accelerator\<close>

record 's smm_ops =
  op_param :: "nat \<Rightarrow> 32 word \<Rightarrow> nat \<Rightarrow> 's \<Rightarrow> ('s \<times> 64 word) option"
  op_queue :: "nat \<Rightarrow> 32 word \<Rightarrow> nat \<Rightarrow> 's \<Rightarrow> ('s \<times> 64 word) option"
  op_stream :: "nat \<Rightarrow> 32 word \<Rightarrow> nat \<Rightarrow> 's \<Rightarrow> ('s \<times> 64 word) option"

text \<open>
  A driver offers the three calls. Its states are \<open>ready\<close>, \<open>loading\<close> (the first \<open>k\<close> weight words
  are in) or \<open>running\<close> (the tile is loaded and \<open>n\<close> bus words have been fed). From the
  \<open>latency c\<close>-th call on, every call returns the next word of the product of the input rows and
  the weight tile.
\<close>

locale systolic_driver =
  fixes c :: "('a::len, 'w::len) sa_cfg"
    and ops :: "'s smm_ops"
    and supported :: bool
    and ready :: "'s \<Rightarrow> bool"
    and loading :: "(nat \<Rightarrow> 32 word) \<Rightarrow> nat \<Rightarrow> 's \<Rightarrow> bool"
    and running :: "(nat \<Rightarrow> 32 word) \<Rightarrow> (nat \<Rightarrow> 32 word) \<Rightarrow> nat \<Rightarrow> 's \<Rightarrow> bool"
  assumes supported_ok: "supported \<Longrightarrow> cfg_ok c"
    and load_start: "ready s \<Longrightarrow> loading vals 0 s"
    and load_step: "supported \<Longrightarrow> loading vals k s \<Longrightarrow> k < kernel_dim c * MAX_W_COL c \<Longrightarrow>
      \<exists>s' r. op_param ops (k * W_PER_BUS c) (vals k) 0 s = Some (s', r) \<and> loading vals (Suc k) s'"
    and load_done: "supported \<Longrightarrow> loading vals (kernel_dim c * MAX_W_COL c) s \<Longrightarrow> running vals u 0 s"
    and queue_step: "supported \<Longrightarrow> running vals u n s \<Longrightarrow> n mod MAX_ACT_COL c \<noteq> MAX_ACT_COL c - 1 \<Longrightarrow>
      \<exists>s' r. op_queue ops (n mod MAX_ACT_COL c) (u n) 0 s = Some (s', r) \<and> running vals u (Suc n) s' \<and>
        (latency c \<le> n \<longrightarrow> ucast r = run_result c vals u (n - latency c))"
    and stream_step: "supported \<Longrightarrow> running vals u n s \<Longrightarrow> n mod MAX_ACT_COL c = MAX_ACT_COL c - 1 \<Longrightarrow>
      \<exists>s' r. op_stream ops (n mod MAX_ACT_COL c) (u n) 0 s = Some (s', r) \<and> running vals u (Suc n) s' \<and>
        (latency c \<le> n \<longrightarrow> ucast r = run_result c vals u (n - latency c))"
    and run_ready: "running vals u n s \<Longrightarrow> ready s"

subsection \<open>The simulated accelerator keeps the contract\<close>

text \<open>The operands are passed in 64-bit registers and read back as 32-bit integers.\<close>

definition gem5_ops :: "('a::len, 'w::len) sa_cfg \<Rightarrow> int \<Rightarrow> (regs \<times> ('a, 'w) smm_dev) smm_ops" where
  "gem5_ops c thread =
     \<lparr>op_param = (\<lambda>idx v tid. smmParamWrite c thread (word_of_nat idx) (ucast v) (word_of_nat tid)),
      op_queue = (\<lambda>idx v tid. smmQueue c thread (word_of_nat idx) (ucast v) (word_of_nat tid)),
      op_stream = (\<lambda>idx v tid. smmStream c thread (ucast v) (word_of_nat tid))\<rparr>"

definition gem5_supported :: "('a::len, 'w::len) sa_cfg \<Rightarrow> bool" where
  "gem5_supported c \<longleftrightarrow> cfg_ok c \<and> kernel_dim c * kernel_dim c < 2 ^ 31"

definition on_tile :: "(('a, 'w) sa_tile \<Rightarrow> bool) \<Rightarrow> regs \<times> ('a, 'w) smm_dev \<Rightarrow> bool" where
  "on_tile P s \<longleftrightarrow> (case get_tile (snd s) 0 of None \<Rightarrow> False | Some t \<Rightarrow> P t)"

lemma reg_int_of_nat: "n < 2 ^ 31 \<Longrightarrow> reg_int (word_of_nat n) = int n"
proof -
  assume n: "n < 2 ^ 31"
  have "ucast (word_of_nat n :: 64 word) = (word_of_nat n :: 32 word)"
    using n by (simp add: unsigned_of_nat take_bit_nat_eq_self)
  moreover have "sint (word_of_nat n :: 32 word) = int n"
    using n by (simp add: signed_of_nat signed_take_bit_int_eq_self)
  ultimately show ?thesis by (simp add: reg_int_def)
qed

lemma ucast_ucast_32_64 [simp]: "ucast (ucast (v :: 32 word) :: 64 word) = v"
  by (rule bit_word_eqI) (auto simp: bit_ucast_iff)

lemma get_set_tile:
  assumes "get_tile d tid = Some t"
  shows "get_tile (set_tile d tid t') tid = Some t'"
  using assms by (auto simp: get_tile_def set_tile_def rdi_def rd_def split: if_splits Option.bind_splits)

lemma smmParamWrite_eq:
  assumes "idx < 2 ^ 31" "get_tile d 0 = Some t"
  shows "op_param (gem5_ops c th) idx v 0 (x, d) =
    (case tile_loadWeights c idx v t of None \<Rightarrow> None
     | Some t' \<Rightarrow> Some ((x(9 := word_of_nat idx, 7 := ucast v, 8 := 0, 10 := of_bool (non_zero_tile t')),
                       set_tile d 0 t'), of_bool (non_zero_tile t')))"
  using assms reg_int_of_nat [of idx] reg_int_of_nat [of 0]
  by (simp add: gem5_ops_def smmParamWrite_def decode_words loadWeights_def split: option.splits)

lemma smmQueue_eq:
  assumes "idx < 2 ^ 31" "get_tile d 0 = Some t"
  shows "op_queue (gem5_ops c th) idx v 0 (x, d) =
    (case tile_inputQueue c idx v t of None \<Rightarrow> None
     | Some (t', r) \<Rightarrow> Some ((x(9 := word_of_nat idx, 7 := ucast v, 8 := 0, 10 := ucast r),
                       set_tile d 0 t'), ucast r))"
  using assms reg_int_of_nat [of idx] reg_int_of_nat [of 0]
  by (simp add: gem5_ops_def smmQueue_def decode_words inputQueue_def split: option.splits)

lemma smmStream_eq:
  assumes "get_tile d 0 = Some t"
  shows "op_stream (gem5_ops c th) idx v 0 (x, d) =
    (case tile_streamInOut c v t of None \<Rightarrow> None
     | Some (t', r) \<Rightarrow> Some ((x(7 := ucast v, 8 := 0, 10 := ucast r), set_tile d 0 t'), ucast r))"
  using assms reg_int_of_nat [of 0]
  by (simp add: gem5_ops_def smmStream_def decode_words streamInOut_def split: option.splits)

lemma smmReadFlag_value:
  assumes "smmReadFlag c th val tid s = Some (s', hw)" "kernel_dim c < 2 ^ 32"
  shows "hw = word_of_nat (kernel_dim c)"
proof -
  have "hw = ucast (word_of_nat (kernel_dim c) :: 32 word)" using assms(1)
    by (cases s) (auto simp: smmReadFlag_def decode_words readFlag_def)
  then show ?thesis using assms(2) by (auto simp: unsigned_ucast_eq unsigned_of_nat take_bit_nat_eq_self intro!: unsigned_word_eqI [where ?'a = nat])
qed

lemma smmReadFlag_run:
  assumes "kernel_dim c < 2 ^ 32"
  shows "\<exists>x'. smmReadFlag c th 0 0 (x, d) = Some ((x', d), word_of_nat (kernel_dim c))"
proof -
  obtain x' hw where run: "smmReadFlag c th 0 0 (x, d) = Some ((x', d), hw)" by (simp add: smmReadFlag_def decode_words)
  with smmReadFlag_value [OF run assms] show ?thesis by simp
qed

lemmas gem5_op_eqs = smmParamWrite_eq smmQueue_eq smmStream_eq

lemma on_tileE:
  assumes "on_tile P s"
  obtains x d t where "s = (x, d)" "get_tile d 0 = Some t" "P t"
  using assms by (cases s) (auto simp: on_tile_def split: option.splits)

lemma on_tile_set: "get_tile d 0 = Some t \<Longrightarrow> P t' \<Longrightarrow> on_tile P (x, set_tile d 0 t')"
  by (simp add: on_tile_def get_set_tile)

lemma small_indices:
  assumes "gem5_supported c"
  shows "k < kernel_dim c * MAX_W_COL c \<Longrightarrow> k * W_PER_BUS c < 2 ^ 31"
    and "n mod MAX_ACT_COL c < 2 ^ 31"
proof -
  have ok: "cfg_ok c" and lt: "kernel_dim c * kernel_dim c < 2 ^ 31"
    using assms by (simp_all add: gem5_supported_def)
  show "k * W_PER_BUS c < 2 ^ 31" if "k < kernel_dim c * MAX_W_COL c"
  proof -
    have "k * W_PER_BUS c < kernel_dim c * MAX_W_COL c * W_PER_BUS c"
      using that ok by (simp add: cfg_okD)
    also have "\<dots> = kernel_dim c * kernel_dim c" using ok by (simp add: cfg_okD mult.assoc)
    finally show ?thesis using lt by simp
  qed
  have "n mod MAX_ACT_COL c < MAX_ACT_COL c" using ok by (simp add: cfg_okD)
  also have "\<dots> \<le> kernel_dim c" using cfg_okD(2,6) [OF ok] by (metis Suc_leI mult_le_mono2 nat_mult_1_right One_nat_def)
  also have "\<dots> \<le> kernel_dim c * kernel_dim c" by simp
  finally show "n mod MAX_ACT_COL c < 2 ^ 31" using lt by simp
qed

interpretation gem5: systolic_driver c "gem5_ops c th" "gem5_supported c" "on_tile (tile_wf c)"
  "\<lambda>vals k. on_tile (loaded c vals k)" "\<lambda>vals u n. on_tile (tile_run c vals u n)"
  for c :: "('a::len, 'w::len) sa_cfg" and th
proof
  show "gem5_supported c \<Longrightarrow> cfg_ok c" by (simp add: gem5_supported_def)
next
  fix s vals assume "on_tile (tile_wf c) s"
  then show "on_tile (loaded c vals 0) s"
    by (elim on_tileE) (simp add: on_tile_def loaded_def)
next
  fix vals k s
  assume sup: "gem5_supported c" and "on_tile (loaded c vals k) s"
    and k: "k < kernel_dim c * MAX_W_COL c"
  then obtain x d t where s: "s = (x, d)" "get_tile d 0 = Some t" "loaded c vals k t"
    by (elim on_tileE)
  obtain t' where t': "tile_loadWeights c (k * W_PER_BUS c) (vals k) t = Some t'" "loaded c vals (Suc k) t'"
    using loaded_step [OF _ k s(3)] sup by (auto simp: gem5_supported_def)
  then show "\<exists>s' r. op_param (gem5_ops c th) (k * W_PER_BUS c) (vals k) 0 s = Some (s', r) \<and>
      on_tile (loaded c vals (Suc k)) s'"
    using s(1,2) small_indices(1) [OF sup k] by (simp add: gem5_op_eqs on_tile_set)
next
  fix vals s u
  assume "gem5_supported c" "on_tile (loaded c vals (kernel_dim c * MAX_W_COL c)) s"
  then show "on_tile (tile_run c vals u 0) s"
    by (elim on_tileE) (simp add: on_tile_def tile_run_start gem5_supported_def)
next
  fix vals u n s
  assume sup: "gem5_supported c" and "on_tile (tile_run c vals u n) s"
    and n: "n mod MAX_ACT_COL c \<noteq> MAX_ACT_COL c - 1"
  then obtain x d t where s: "s = (x, d)" "get_tile d 0 = Some t" "tile_run c vals u n t"
    by (elim on_tileE)
  obtain t' r where t': "tile_inputQueue c (n mod MAX_ACT_COL c) (u n) t = Some (t', r)"
    "tile_run c vals u (Suc n) t'" "latency c \<le> n \<longrightarrow> r = run_result c vals u (n - latency c)"
    using tile_run_queue [OF _ s(3) n] sup by (auto simp: gem5_supported_def)
  then show "\<exists>s' r. op_queue (gem5_ops c th) (n mod MAX_ACT_COL c) (u n) 0 s = Some (s', r) \<and>
      on_tile (tile_run c vals u (Suc n)) s' \<and>
      (latency c \<le> n \<longrightarrow> ucast r = run_result c vals u (n - latency c))"
    using s(1,2) small_indices(2) [OF sup] by (simp add: gem5_op_eqs on_tile_set)
next
  fix vals u n s
  assume sup: "gem5_supported c" and "on_tile (tile_run c vals u n) s"
    and n: "n mod MAX_ACT_COL c = MAX_ACT_COL c - 1"
  then obtain x d t where s: "s = (x, d)" "get_tile d 0 = Some t" "tile_run c vals u n t"
    by (elim on_tileE)
  obtain t' r where t': "tile_streamInOut c (u n) t = Some (t', r)"
    "tile_run c vals u (Suc n) t'" "latency c \<le> n \<longrightarrow> r = run_result c vals u (n - latency c)"
    using tile_run_stream [OF _ s(3) n] sup by (auto simp: gem5_supported_def)
  then show "\<exists>s' r. op_stream (gem5_ops c th) (n mod MAX_ACT_COL c) (u n) 0 s = Some (s', r) \<and>
      on_tile (tile_run c vals u (Suc n)) s' \<and>
      (latency c \<le> n \<longrightarrow> ucast r = run_result c vals u (n - latency c))"
    using s(1,2) by (simp add: gem5_op_eqs on_tile_set)
next
  fix vals u n s assume "on_tile (tile_run c vals u n) s"
  then show "on_tile (tile_wf c) s"
    by (elim on_tileE) (simp add: on_tile_def tile_run_wf)
qed

end
