(* ===== verification/TiC_Tile_Mult.thy ===== *)
theory TiC_Tile_Mult
  imports TiC_Smm
begin

text \<open>
  \<^verbatim>\<open>SparseMatrixMultiplier::processMultiplication\<close> of
  \<^verbatim>\<open>accelerator/sparseMatrixMultiplication.cpp\<close>: load one weight tile into the accelerator, stream
  all rows of one block column of the input through it and accumulate the words it returns into
  one block column of the output. A pointer into an array is a pair of the array and an offset;
  \<^verbatim>\<open>values\<close> is such a pair.

  The specification lemma is proved once in the locale \<open>systolic_driver\<close>.
\<close>

subsection \<open>Model\<close>

definition load_tile ::
  "('a::len, 'w::len) sa_cfg \<Rightarrow> 's smm_ops \<Rightarrow> 32 word list \<Rightarrow> nat \<Rightarrow> 's \<Rightarrow> 's option" where
  "load_tile c ops values voff s =
     for_list [0..<kernel_dim c * MAX_W_COL c] (\<lambda>k s. do {
       weight \<leftarrow> rd values (voff + k);
       (s, _) \<leftarrow> op_param ops (k * W_PER_BUS c) weight 0 s;
       Some s
     }) s"

definition bus_call ::
  "('a::len, 'w::len) sa_cfg \<Rightarrow> 's smm_ops \<Rightarrow> nat \<Rightarrow> 32 word \<Rightarrow> 's \<Rightarrow> ('s \<times> 64 word) option" where
  "bus_call c ops j content s =
     (if j = MAX_ACT_COL c - 1 then op_stream ops (j mod MAX_ACT_COL c) content 0 s
      else op_queue ops (j mod MAX_ACT_COL c) content 0 s)"

definition collect ::
  "('a::len, 'w::len) sa_cfg \<Rightarrow> nat \<Rightarrow> 64 word \<Rightarrow> 32 word list \<Rightarrow> nat \<Rightarrow> (32 word list \<times> nat) option" where
  "collect c n mult output outPtr =
     (if MAX_ACT_COL c * (2 * kernel_dim c - 1) - 1 \<le> n then do {
        m \<leftarrow> rd output outPtr;
        output \<leftarrow> wr output outPtr (addActIn32 c m (ucast mult));
        Some (output, outPtr + 1)
      } else Some (output, outPtr))"

text \<open>The bodies of the two streaming loops: a word of the input, then the flushing zeros.\<close>

definition feed_word ::
  "('a::len, 'w::len) sa_cfg \<Rightarrow> 's smm_ops \<Rightarrow> 32 word list \<Rightarrow> nat \<Rightarrow> nat
     \<Rightarrow> 's \<times> 32 word list \<times> nat \<times> nat \<Rightarrow> ('s \<times> 32 word list \<times> nat \<times> nat) option" where
  "feed_word c ops input i j = (\<lambda>(s, output, inPtr, outPtr). do {
     content \<leftarrow> rd input inPtr;
     (s, mult) \<leftarrow> bus_call c ops j content s;
     (output, outPtr) \<leftarrow> collect c (i * MAX_ACT_COL c + j) mult output outPtr;
     Some (s, output, inPtr + 1, outPtr)
   })"

definition drain_word ::
  "('a::len, 'w::len) sa_cfg \<Rightarrow> 's smm_ops \<Rightarrow> nat
     \<Rightarrow> 's \<times> 32 word list \<times> nat \<Rightarrow> ('s \<times> 32 word list \<times> nat) option" where
  "drain_word c ops i = (\<lambda>(s, output, outPtr). do {
     (s, mult) \<leftarrow> bus_call c ops (i mod MAX_ACT_COL c) 0 s;
     (output, outPtr) \<leftarrow> collect c i mult output outPtr;
     Some (s, output, outPtr)
   })"

definition processMultiplication ::
  "('a::len, 'w::len) sa_cfg \<Rightarrow> 's smm_ops \<Rightarrow> nat \<Rightarrow> 32 word list \<Rightarrow> nat \<Rightarrow> nat
     \<Rightarrow> 32 word list \<Rightarrow> nat \<Rightarrow> 's \<times> 32 word list \<Rightarrow> ('s \<times> 32 word list) option" where
  "processMultiplication c ops seq_len input row col values voff = (\<lambda>(s, output). do {
     s \<leftarrow> load_tile c ops values voff s;
     (s, output, inPtr, outPtr) \<leftarrow>
       for_list [0..<seq_len] (\<lambda>i. for_list [0..<MAX_ACT_COL c] (feed_word c ops input i))
         (s, output, row * MAX_ACT_COL c * seq_len, col * MAX_ACT_COL c * seq_len);
     (s, output, outPtr) \<leftarrow>
       for_list [seq_len * MAX_ACT_COL c ..< MAX_ACT_COL c * (seq_len + 2 * kernel_dim c - 1) - 1]
         (drain_word c ops) (s, output, outPtr);
     Some (s, output)
   })"

subsection \<open>What one call adds to the output\<close>

definition block_input ::
  "('a::len, 'w::len) sa_cfg \<Rightarrow> nat \<Rightarrow> 32 word list \<Rightarrow> nat \<Rightarrow> nat \<Rightarrow> 32 word" where
  "block_input c seq_len input row n =
     (if n < seq_len * MAX_ACT_COL c then input ! (row * MAX_ACT_COL c * seq_len + n) else 0)"

definition add_block ::
  "('a::len, 'w::len) sa_cfg \<Rightarrow> nat \<Rightarrow> nat \<Rightarrow> (nat \<Rightarrow> 32 word) \<Rightarrow> nat \<Rightarrow> 32 word list \<Rightarrow> 32 word list" where
  "add_block c seq_len col res n output =
     map (\<lambda>p. if col * MAX_ACT_COL c * seq_len \<le> p \<and> p < col * MAX_ACT_COL c * seq_len + n
              then addActIn32 c (output ! p) (res (p - col * MAX_ACT_COL c * seq_len))
              else output ! p) [0..<length output]"

lemma length_add_block [simp]: "length (add_block c seq_len col res n output) = length output"
  by (simp add: add_block_def)

lemma nth_add_block [simp]:
  "p < length output \<Longrightarrow> add_block c seq_len col res n output ! p =
     (if col * MAX_ACT_COL c * seq_len \<le> p \<and> p < col * MAX_ACT_COL c * seq_len + n
      then addActIn32 c (output ! p) (res (p - col * MAX_ACT_COL c * seq_len)) else output ! p)"
  by (simp add: add_block_def)

lemma add_block_0 [simp]: "add_block c seq_len col res 0 output = output"
  by (rule nth_equalityI) auto

lemma add_block_Suc:
  assumes "col * MAX_ACT_COL c * seq_len + n < length output"
  shows "(add_block c seq_len col res n output)[col * MAX_ACT_COL c * seq_len + n :=
     addActIn32 c (add_block c seq_len col res n output ! (col * MAX_ACT_COL c * seq_len + n)) (res n)]
     = add_block c seq_len col res (Suc n) output"
  using assms by (intro nth_equalityI) (auto simp: nth_list_update)

lemma collect_spec:
  assumes "latency c \<le> n \<longrightarrow> ucast mult = res (n - latency c)"
    and "latency c \<le> n \<longrightarrow> col * MAX_ACT_COL c * seq_len + (n - latency c) < length output"
  shows "collect c n mult (add_block c seq_len col res (n - latency c) output)
      (col * MAX_ACT_COL c * seq_len + (n - latency c))
    = Some (add_block c seq_len col res (Suc n - latency c) output,
            col * MAX_ACT_COL c * seq_len + (Suc n - latency c))"
proof (cases "latency c \<le> n")
  case True
  then have room: "col * MAX_ACT_COL c * seq_len + (n - latency c) < length output"
    using assms(2) by blast
  have "Suc n - latency c = Suc (n - latency c)" using True by (rule Suc_diff_le)
  with True assms(1) room add_block_Suc [OF room, of res] show ?thesis
    unfolding collect_def latency_def [symmetric] by (simp add: arr_simps del: nth_add_block)
next
  case False
  then show ?thesis unfolding collect_def latency_def [symmetric] by simp
qed

lemma stream_length:
  assumes "cfg_ok c"
  shows "MAX_ACT_COL c * (seq_len + 2 * kernel_dim c - 1) - 1 = seq_len * MAX_ACT_COL c + latency c"
proof -
  let ?M = "MAX_ACT_COL c" and ?K = "kernel_dim c"
  have "seq_len + 2 * ?K - 1 = seq_len + (2 * ?K - 1)" using cfg_okD(1) [OF assms] by simp
  then have "?M * (seq_len + 2 * ?K - 1) = seq_len * ?M + ?M * (2 * ?K - 1)"
    by (metis distrib_left mult.commute)
  moreover have "0 < ?M * (2 * ?K - 1)" using cfg_okD(1,8) [OF assms] by simp
  ultimately show ?thesis unfolding latency_def by linarith
qed

subsection \<open>Correctness under the driver contract\<close>

context systolic_driver
begin

lemma load_tile_spec:
  assumes "supported" "ready s" "voff + kernel_dim c * MAX_W_COL c \<le> length values"
  shows "\<exists>s'. load_tile c ops values voff s = Some s' \<and> running (\<lambda>k. values ! (voff + k)) u 0 s'"
proof -
  let ?vals = "\<lambda>k. values ! (voff + k)"
  have "\<exists>s'. load_tile c ops values voff s = Some s' \<and> loading ?vals (kernel_dim c * MAX_W_COL c) s'"
    unfolding load_tile_def
  proof (rule for_up_rule [where I = "loading ?vals"])
    show "loading ?vals 0 s" using assms(2) by (rule load_start)
    fix k s assume k: "k < kernel_dim c * MAX_W_COL c" and "loading ?vals k s"
    with load_step [OF assms(1)] obtain s' r
      where "op_param ops (k * W_PER_BUS c) (?vals k) 0 s = Some (s', r)" "loading ?vals (Suc k) s'"
      by blast
    with k assms(3) show "\<exists>s'. do { weight \<leftarrow> rd values (voff + k);
        (s, _) \<leftarrow> op_param ops (k * W_PER_BUS c) weight 0 s; Some s } = Some s' \<and>
        loading ?vals (Suc k) s'"
      by (simp add: arr_simps)
  qed simp
  with load_done [OF assms(1)] show ?thesis by blast
qed

lemma bus_call_spec:
  assumes "supported" "running vals u n s" "v = u n"
  shows "\<exists>s' r. bus_call c ops (n mod MAX_ACT_COL c) v s = Some (s', r) \<and>
    running vals u (Suc n) s' \<and>
    (latency c \<le> n \<longrightarrow> ucast r = run_result c vals u (n - latency c))"
proof -
  have "(MAX_ACT_COL c - Suc 0) mod MAX_ACT_COL c = MAX_ACT_COL c - Suc 0"
    using supported_ok [OF assms(1)] by (simp add: cfg_okD)
  then show ?thesis
    using queue_step [OF assms(1,2)] stream_step [OF assms(1,2)] assms(3)
    by (cases "n mod MAX_ACT_COL c = MAX_ACT_COL c - 1") (auto simp: bus_call_def)
qed

text \<open>The state of the two streaming loops after \<open>n\<close> bus calls.\<close>

lemma stream_step_spec:
  assumes sup: supported and run: "running vals u n s" and v: "v = u n"
    and out: "latency c \<le> n \<longrightarrow> col * MAX_ACT_COL c * seq_len + (n - latency c) < length output"
  shows "\<exists>s' r. bus_call c ops (n mod MAX_ACT_COL c) v s = Some (s', r) \<and> running vals u (Suc n) s' \<and>
    collect c n r (add_block c seq_len col (run_result c vals u) (n - latency c) output)
      (col * MAX_ACT_COL c * seq_len + (n - latency c)) =
    Some (add_block c seq_len col (run_result c vals u) (Suc n - latency c) output,
          col * MAX_ACT_COL c * seq_len + (Suc n - latency c))"
proof -
  obtain s' r where s': "bus_call c ops (n mod MAX_ACT_COL c) v s = Some (s', r)"
    "running vals u (Suc n) s'" "latency c \<le> n \<longrightarrow> ucast r = run_result c vals u (n - latency c)"
    using bus_call_spec [OF sup run v] by blast
  with collect_spec [where res = "run_result c vals u", OF s'(3) out] show ?thesis by simp
qed

lemma feed_loop_spec:
  assumes sup: supported and run: "running vals u 0 s"
    and u: "\<And>n. n < seq_len * MAX_ACT_COL c \<Longrightarrow> base + n < length input \<and> u n = input ! (base + n)"
    and out: "Suc col * MAX_ACT_COL c * seq_len \<le> length output"
  shows "\<exists>s'. for_list [0..<seq_len] (\<lambda>i. for_list [0..<MAX_ACT_COL c] (feed_word c ops input i))
      (s, output, base, col * MAX_ACT_COL c * seq_len) =
    Some (s', add_block c seq_len col (run_result c vals u) (seq_len * MAX_ACT_COL c - latency c) output,
      base + seq_len * MAX_ACT_COL c,
      col * MAX_ACT_COL c * seq_len + (seq_len * MAX_ACT_COL c - latency c)) \<and>
    running vals u (seq_len * MAX_ACT_COL c) s'"
proof -
  let ?M = "MAX_ACT_COL c"
  let ?out = "\<lambda>n. add_block c seq_len col (run_result c vals u) (n - latency c) output"
  let ?op = "\<lambda>n. col * ?M * seq_len + (n - latency c)"
  let ?I = "\<lambda>n (s, o', i, p). running vals u n s \<and> o' = ?out n \<and> i = base + n \<and> p = ?op n"
  have "\<exists>st. for_list [0..<seq_len * ?M] (\<lambda>n. feed_word c ops input (n div ?M) (n mod ?M))
      (s, output, base, col * ?M * seq_len) = Some st \<and> ?I (seq_len * ?M) st"
  proof (rule for_up_rule [where I = ?I])
    show "?I 0 (s, output, base, col * ?M * seq_len)" using run by simp
    fix n st assume n: "n < seq_len * ?M" and I: "?I n st"
    then obtain s where st: "st = (s, ?out n, base + n, ?op n)" and run: "running vals u n s"
      by (cases st) auto
    have room: "latency c \<le> n \<longrightarrow> ?op n < length output" using out n by (auto simp: algebra_simps)
    show "\<exists>s'. feed_word c ops input (n div ?M) (n mod ?M) st = Some s' \<and> ?I (Suc n) s'"
      using stream_step_spec [OF sup run refl room] u [OF n] st by (auto simp: feed_word_def arr_simps)
  qed simp
  then show ?thesis unfolding for_list_nest by auto
qed

lemma drain_loop_spec:
  assumes sup: supported and run: "running vals u a s" and ab: "a \<le> b"
    and u: "\<And>n. a \<le> n \<Longrightarrow> u n = 0"
    and out: "col * MAX_ACT_COL c * seq_len + (b - latency c) \<le> length output"
  shows "\<exists>s'. for_list [a..<b] (drain_word c ops)
      (s, add_block c seq_len col (run_result c vals u) (a - latency c) output,
       col * MAX_ACT_COL c * seq_len + (a - latency c)) =
    Some (s', add_block c seq_len col (run_result c vals u) (b - latency c) output,
       col * MAX_ACT_COL c * seq_len + (b - latency c)) \<and> running vals u b s'"
proof -
  let ?out = "\<lambda>n. add_block c seq_len col (run_result c vals u) (n - latency c) output"
  let ?op = "\<lambda>n. col * MAX_ACT_COL c * seq_len + (n - latency c)"
  let ?I = "\<lambda>n (s, o', p). running vals u n s \<and> o' = ?out n \<and> p = ?op n"
  have "\<exists>st. for_list [a..<b] (drain_word c ops) (s, ?out a, ?op a) = Some st \<and> ?I b st"
  proof (rule for_up_rule [where I = ?I])
    show "?I a (s, ?out a, ?op a)" using run by simp
    fix n st assume n: "a \<le> n" "n < b" and I: "?I n st"
    then obtain s where st: "st = (s, ?out n, ?op n)" and run: "running vals u n s"
      by (cases st) auto
    have room: "latency c \<le> n \<longrightarrow> ?op n < length output" using out n by auto
    show "\<exists>s'. drain_word c ops n st = Some s' \<and> ?I (Suc n) s'"
      using stream_step_spec [OF sup run _ room, of 0] u [OF n(1)] st by (auto simp: drain_word_def)
  qed (rule ab)
  then show ?thesis by auto
qed

theorem processMultiplication_spec:
  assumes sup: supported and "ready s"
    and vals: "voff + kernel_dim c * MAX_W_COL c \<le> length values"
    and inp: "Suc row * MAX_ACT_COL c * seq_len \<le> length input"
    and out: "Suc col * MAX_ACT_COL c * seq_len \<le> length output"
  shows "\<exists>s'. processMultiplication c ops seq_len input row col values voff (s, output) =
      Some (s', add_block c seq_len col
        (run_result c (\<lambda>k. values ! (voff + k)) (block_input c seq_len input row))
        (seq_len * MAX_ACT_COL c) output) \<and> ready s'"
proof -
  let ?M = "MAX_ACT_COL c" and ?vals = "\<lambda>k. values ! (voff + k)" and ?L = "latency c"
  let ?u = "block_input c seq_len input row"
  have ok: "cfg_ok c" by (rule supported_ok [OF sup])
  have N: "?M * (seq_len + 2 * kernel_dim c - 1) - 1 = seq_len * ?M + ?L"
    by (rule stream_length [OF ok])
  obtain s1 where s1: "load_tile c ops values voff s = Some s1" "running ?vals ?u 0 s1"
    using load_tile_spec [OF sup assms(2) vals] by blast
  have u: "row * ?M * seq_len + n < length input \<and> ?u n = input ! (row * ?M * seq_len + n)"
    if "n < seq_len * ?M" for n
    using inp that by (simp add: block_input_def algebra_simps)
  from feed_loop_spec [OF sup s1(2) u out] obtain s2 where s2:
    "for_list [0..<seq_len] (\<lambda>i. for_list [0..<?M] (feed_word c ops input i))
      (s1, output, row * ?M * seq_len, col * ?M * seq_len) =
     Some (s2, add_block c seq_len col (run_result c ?vals ?u) (seq_len * ?M - ?L) output,
       row * ?M * seq_len + seq_len * ?M, col * ?M * seq_len + (seq_len * ?M - ?L))"
    "running ?vals ?u (seq_len * ?M) s2" by blast
  have "\<exists>s3. for_list [seq_len * ?M..<seq_len * ?M + ?L] (drain_word c ops)
      (s2, add_block c seq_len col (run_result c ?vals ?u) (seq_len * ?M - ?L) output,
       col * ?M * seq_len + (seq_len * ?M - ?L)) =
     Some (s3, add_block c seq_len col (run_result c ?vals ?u) (seq_len * ?M + ?L - ?L) output,
       col * ?M * seq_len + (seq_len * ?M + ?L - ?L)) \<and> running ?vals ?u (seq_len * ?M + ?L) s3"
    using out by (intro drain_loop_spec [OF sup s2(2)]) (auto simp: block_input_def algebra_simps)
  with s1(1) s2(1) run_ready show ?thesis
    unfolding processMultiplication_def N by auto
qed

end

subsection \<open>On the simulated accelerator\<close>

text \<open>C3: On the simulated accelerator, multiplying one weight tile with all rows of one input block column
  returns, whatever an earlier multiplication left in the registers of the array; it adds to every
  word of the output block column the word of the matrix product of the input rows and the tile,
  leaves the rest of the output alone and the accelerator ready for the next tile.\<close>

theorem processMultiplication_gem5:
  assumes "gem5_supported c" and "on_tile (tile_wf c) s"
    and "voff + kernel_dim c * MAX_W_COL c \<le> length values"
    and "Suc row * MAX_ACT_COL c * seq_len \<le> length input"
    and "Suc col * MAX_ACT_COL c * seq_len \<le> length output"
  shows "\<exists>s' output'. processMultiplication c (gem5_ops c th) seq_len input row col values voff (s, output)
        = Some (s', output') \<and> on_tile (tile_wf c) s' \<and> length output' = length output \<and>
      (\<forall>p<length output. output' ! p =
         (if col * MAX_ACT_COL c * seq_len \<le> p \<and> p < Suc col * MAX_ACT_COL c * seq_len
          then addActIn32 c (output ! p) (bus_pack (\<lambda>i. tile_dot c
            (tile_weights c (\<lambda>k. values ! (voff + k)))
            (row_act c (block_input c seq_len input row) (p mod (MAX_ACT_COL c * seq_len) div MAX_ACT_COL c))
            (p mod MAX_ACT_COL c * ACT_PER_BUS c + i)))
          else output ! p))"
proof -
  let ?M = "MAX_ACT_COL c"
  have base: "p - col * ?M * seq_len = p mod (?M * seq_len)" "p mod (?M * seq_len) mod ?M = p mod ?M"
    if "col * ?M * seq_len \<le> p" "p < Suc col * ?M * seq_len" for p
  proof -
    from that have "p = mem2d (?M * seq_len) col (p - col * ?M * seq_len)"
      and "p - col * ?M * seq_len < ?M * seq_len" by (simp_all add: mem2d_def algebra_simps)
    then show "p - col * ?M * seq_len = p mod (?M * seq_len)" by (metis mem2d_mod)
    show "p mod (?M * seq_len) mod ?M = p mod ?M" by (simp add: mod_mod_cancel)
  qed
  from gem5.processMultiplication_spec [OF assms, of th] show ?thesis
    using base by (fastforce simp: run_result_def sa_result_def algebra_simps)
qed

definition demo_cfg :: "(16, 8) sa_cfg" where
  "demo_cfg = int_cfg 4"

definition demo_dev :: "regs \<times> (16, 8) smm_dev" where
  "demo_dev = ((\<lambda>_. 0), smm_create demo_cfg 0 0 1)"

lemma demo_cfg_simps [simp]:
  "kernel_dim demo_cfg = 4" "ACT_PER_BUS demo_cfg = 2" "W_PER_BUS demo_cfg = 4"
  "MAX_ACT_COL demo_cfg = 2" "MAX_W_COL demo_cfg = 1"
  by (simp_all add: demo_cfg_def int_cfg_def ACT_PER_BUS_def W_PER_BUS_def MAX_ACT_COL_def
      MAX_W_COL_def per_bus_def BUS_WIDTH_def CEILING_DIV_def)

lemma demo_supported: "gem5_supported demo_cfg"
  by (simp add: gem5_supported_def cfg_ok_def)

lemma demo_ready: "on_tile (tile_wf demo_cfg) demo_dev"
  by (simp add: on_tile_def demo_dev_def smm_create_def get_tile_def rdi_def rd_def SATile_wf)

theorem processMultiplication_gem5_witness:
  "\<exists>s' output'. processMultiplication demo_cfg (gem5_ops demo_cfg 0) 2 [1, 2, 3, 4] 0 0 [5, 6, 7, 8] 0
     (demo_dev, [0, 0, 0, 0, 9]) = Some (s', output') \<and> output' ! 4 = 9"
  using processMultiplication_gem5 [OF demo_supported demo_ready, of 0 "[5, 6, 7, 8]" 0 2 "[1, 2, 3, 4]" 0
      "[0, 0, 0, 0, 9]" 0]
  by auto

end
