(* ===== verification/TiC_Sparse_Mult.thy ===== *)
theory TiC_Sparse_Mult
  imports TiC_Tile_Mult
begin

text \<open>
  The multiplier \<^verbatim>\<open>SparseMatrixMultiplier\<close> of \<^verbatim>\<open>accelerator/sparseMatrixMultiplication.cpp\<close>: one
  \<^verbatim>\<open>compute\<dots>\<close> method per storage format of the weight kernel, and the two \<^verbatim>\<open>compute\<close> dispatchers.
  A pointer that walks through an array is an offset into it. The index arrays of CSR and CSC
  hold natural numbers, the array of tile pointers holds offsets into the kernel.

  A kernel is stored tile by tile, block column after block column. The methods differ in which tiles
  they visit, in which order, and where they find the words of a tile.
\<close>

subsection \<open>Model\<close>

datatype Format = CSR | CSC | WITH_FLAG | HIDDEN_KEY | DYNAMIC | NON_PRUNED | META_DATA | INTERLEAVED

record multiplier =
  input_size :: nat
  output_size :: nat
  mult_seq_len :: nat
  mult_format :: Format

definition SparseMatrixMultiplier :: "nat \<Rightarrow> nat \<Rightarrow> nat \<Rightarrow> Format \<Rightarrow> multiplier" where
  "SparseMatrixMultiplier isize osize slen fmt =
     \<lparr>input_size = isize, output_size = osize, mult_seq_len = slen, mult_format = fmt\<rparr>"

definition row_in_w :: "('a::len, 'w::len) sa_cfg \<Rightarrow> multiplier \<Rightarrow> nat" where
  "row_in_w c m = input_size m div kernel_dim c"

definition col_in_w :: "('a::len, 'w::len) sa_cfg \<Rightarrow> multiplier \<Rightarrow> nat" where
  "col_in_w c m = output_size m div kernel_dim c"

text \<open>\<^verbatim>\<open>KERNEL_DIM * MAX_W_COL\<close>, the number of words of a tile.\<close>

definition tile_words :: "('a::len, 'w::len) sa_cfg \<Rightarrow> nat" where
  "tile_words c = kernel_dim c * MAX_W_COL c"

definition computeCSR ::
  "('a::len, 'w::len) sa_cfg \<Rightarrow> 's smm_ops \<Rightarrow> multiplier \<Rightarrow> 32 word list \<Rightarrow> nat list \<Rightarrow> nat list
     \<Rightarrow> 32 word list \<Rightarrow> nat list \<Rightarrow> 's \<times> 32 word list \<Rightarrow> ('s \<times> 32 word list) option" where
  "computeCSR c ops m input col_ind row_ptr krn values =
     for_list [0..<row_in_w c m] (\<lambda>i st. do {
       lo \<leftarrow> rd row_ptr i;
       hi \<leftarrow> rd row_ptr (i + 1);
       for_list [lo..<hi] (\<lambda>j st. do {
         col \<leftarrow> rd col_ind j;
         v \<leftarrow> rd values j;
         processMultiplication c ops (mult_seq_len m) input i col krn v st
       }) st
     })"

definition computeCSC ::
  "('a::len, 'w::len) sa_cfg \<Rightarrow> 's smm_ops \<Rightarrow> multiplier \<Rightarrow> 32 word list \<Rightarrow> nat list \<Rightarrow> nat list
     \<Rightarrow> 32 word list \<Rightarrow> nat list \<Rightarrow> 's \<times> 32 word list \<Rightarrow> ('s \<times> 32 word list) option" where
  "computeCSC c ops m input col_ptr row_ind krn values =
     for_list [0..<col_in_w c m] (\<lambda>i st. do {
       lo \<leftarrow> rd col_ptr i;
       hi \<leftarrow> rd col_ptr (i + 1);
       for_list [lo..<hi] (\<lambda>j st. do {
         row \<leftarrow> rd row_ind j;
         v \<leftarrow> rd values j;
         processMultiplication c ops (mult_seq_len m) input row i krn v st
       }) st
     })"

text \<open>The loop state of the remaining methods adds the moving pointers to the pair of the
  accelerator and the output.\<close>

definition computeMetaData ::
  "('a::len, 'w::len) sa_cfg \<Rightarrow> 's smm_ops \<Rightarrow> multiplier \<Rightarrow> 32 word list \<Rightarrow> 32 word list \<Rightarrow> 32 word list
     \<Rightarrow> 32 word list \<Rightarrow> 's \<times> 32 word list \<Rightarrow> ('s \<times> 32 word list) option" where
  "computeMetaData c ops m input m1 m2 values st0 = do {
     (st, _) \<leftarrow> for_list [0..<col_in_w c m] (\<lambda>i (st, p1, p2, vp). do {
       a \<leftarrow> rd m1 p1;
       if a = 0 then Some (st, p1 + 1, p2, vp) else do {
         (st, p2, vp) \<leftarrow> for_list [0..<row_in_w c m] (\<lambda>j (st, p2, vp). do {
           b \<leftarrow> rd m2 p2;
           if b = 0 then Some (st, p2 + 1, vp) else do {
             st \<leftarrow> processMultiplication c ops (mult_seq_len m) input j i values vp st;
             Some (st, p2 + 1, vp + tile_words c)
           }
         }) (st, p2, vp);
         Some (st, p1 + 1, p2, vp)
       }
     }) (st0, 0, 0, 0);
     Some st
   }"

text \<open>
  The \<^verbatim>\<open>while (values < next_block)\<close> loop of the interleaved format. Every 32 iterations it moves on
  to the next word of \<open>values\<close> for its metadata, so it reaches \<open>next_block\<close> or leaves the array.
\<close>

declare Option.bind_cong [fundef_cong]

function interleaved_block ::
  "('a::len, 'w::len) sa_cfg \<Rightarrow> 's smm_ops \<Rightarrow> nat \<Rightarrow> 32 word list \<Rightarrow> 32 word list \<Rightarrow> nat \<Rightarrow> nat
     \<Rightarrow> nat \<Rightarrow> nat \<Rightarrow> nat \<Rightarrow> nat \<Rightarrow> 's \<times> 32 word list \<Rightarrow> (('s \<times> 32 word list) \<times> nat) option" where
  "interleaved_block c ops seq_len input values next_block i metadata counter32 row vp st =
     (if vp < next_block then
        (let metadata' = (if counter32 = 32 then metadata + 1 else metadata);
             counter' = (if counter32 = 32 then 0 else counter32)
         in do {
           w \<leftarrow> rd values metadata';
           assert_c (counter' < 32);
           if \<not> bit w counter'
           then interleaved_block c ops seq_len input values next_block i metadata' (counter' + 1)
                  (row + 1) vp st
           else do {
             st \<leftarrow> processMultiplication c ops seq_len input row i values vp st;
             interleaved_block c ops seq_len input values next_block i metadata' (counter' + 1)
               (row + 1) (vp + tile_words c) st
           }
         })
      else Some (st, vp))"
  by pat_completeness auto
termination
  by (relation "measure (\<lambda>(c, ops, seq_len, input, values, next_block, i, metadata, counter32, row, vp, st).
        33 * (length values - metadata) + (32 - counter32))")
    (auto simp: rd_def assert_c_def split: if_splits)

declare interleaved_block.simps [simp del]

definition computeInterleavedMetaData ::
  "('a::len, 'w::len) sa_cfg \<Rightarrow> 's smm_ops \<Rightarrow> multiplier \<Rightarrow> 32 word list \<Rightarrow> 32 word list
     \<Rightarrow> 's \<times> 32 word list \<Rightarrow> ('s \<times> 32 word list) option" where
  "computeInterleavedMetaData c ops m input values st0 = (
     let BLOCK_SIZE = row_in_w c m;
         metadata_block_size = (BLOCK_SIZE + 32 - 1) div 32;
         metadata_offset = 32 - min 32 (row_in_w c m)
     in do {
       (st, _) \<leftarrow> for_list [0..<col_in_w c m] (\<lambda>i (st, vp). do {
         off \<leftarrow> rd values vp;
         interleaved_block c ops (mult_seq_len m) input values (vp + unat off) i (vp + 1) metadata_offset 0
           (vp + 1 + metadata_block_size) st
       }) (st0, 0);
       Some st
     })"

definition computeWithFlag ::
  "('a::len, 'w::len) sa_cfg \<Rightarrow> 's smm_ops \<Rightarrow> multiplier \<Rightarrow> 32 word list \<Rightarrow> 32 word list
     \<Rightarrow> 32 word list \<Rightarrow> 's \<times> 32 word list \<Rightarrow> ('s \<times> 32 word list) option" where
  "computeWithFlag c ops m input flag values st0 = do {
     (st, _) \<leftarrow> for_list [0..<col_in_w c m] (\<lambda>i. for_list [0..<row_in_w c m] (\<lambda>j (st, fp, counter, vp). do {
       let fp = (if counter = 32 then fp + 1 else fp);
       let counter = (if counter = 32 then 0 else counter);
       f \<leftarrow> rd flag fp;
       if f AND drop_bit counter 0x80000000 \<noteq> 0 then Some (st, fp, counter + 1, vp) else do {
         st \<leftarrow> processMultiplication c ops (mult_seq_len m) input j i values vp st;
         Some (st, fp, counter + 1, vp + tile_words c)
       }
     })) (st0, 0, 0 :: nat, 0);
     Some st
   }"

definition computeHiddenKey ::
  "('a::len, 'w::len) sa_cfg \<Rightarrow> 's smm_ops \<Rightarrow> multiplier \<Rightarrow> 32 word list \<Rightarrow> 32 word list
     \<Rightarrow> 32 word list \<Rightarrow> 's \<times> 32 word list \<Rightarrow> ('s \<times> 32 word list) option" where
  "computeHiddenKey c ops m input hiddenKey values st0 = do {
     (st, _) \<leftarrow> for_list [0..<col_in_w c m] (\<lambda>i. for_list [0..<row_in_w c m] (\<lambda>j (st, vp). do {
       key \<leftarrow> rd hiddenKey 0;
       v \<leftarrow> rd values vp;
       if key = v then Some (st, vp + 1) else do {
         st \<leftarrow> processMultiplication c ops (mult_seq_len m) input j i values vp st;
         Some (st, vp + tile_words c)
       }
     })) (st0, 0);
     Some st
   }"

definition computeDynamic ::
  "('a::len, 'w::len) sa_cfg \<Rightarrow> 's smm_ops \<Rightarrow> multiplier \<Rightarrow> 32 word list
     \<Rightarrow> 32 word list \<Rightarrow> 's \<times> 32 word list \<Rightarrow> ('s \<times> 32 word list) option" where
  "computeDynamic c ops m input values st0 = do {
     (st, _) \<leftarrow> for_list [0..<col_in_w c m] (\<lambda>i. for_list [0..<row_in_w c m] (\<lambda>j (st, vp). do {
       zero_tile \<leftarrow> for_brk [0..<tile_words c] (\<lambda>z. \<not> z) (\<lambda>k zero_tile. do {
         v \<leftarrow> rd values (vp + k);
         Some (if v \<noteq> 0 then False else zero_tile)
       }) True;
       if zero_tile then Some (st, vp + tile_words c) else do {
         st \<leftarrow> processMultiplication c ops (mult_seq_len m) input j i values vp st;
         Some (st, vp + tile_words c)
       }
     })) (st0, 0);
     Some st
   }"

definition computeNonPruned ::
  "('a::len, 'w::len) sa_cfg \<Rightarrow> 's smm_ops \<Rightarrow> multiplier \<Rightarrow> 32 word list
     \<Rightarrow> 32 word list \<Rightarrow> 's \<times> 32 word list \<Rightarrow> ('s \<times> 32 word list) option" where
  "computeNonPruned c ops m input values st0 = do {
     (st, _) \<leftarrow> for_list [0..<col_in_w c m] (\<lambda>i. for_list [0..<row_in_w c m] (\<lambda>j (st, vp). do {
       st \<leftarrow> processMultiplication c ops (mult_seq_len m) input j i values vp st;
       Some (st, vp + tile_words c)
     })) (st0, 0);
     Some st
   }"

text \<open>The two overloads of \<^verbatim>\<open>compute\<close>. A format the overload does not handle leaves the output alone.\<close>

definition compute_indexed ::
  "('a::len, 'w::len) sa_cfg \<Rightarrow> 's smm_ops \<Rightarrow> multiplier \<Rightarrow> 32 word list \<Rightarrow> nat list \<Rightarrow> nat list
     \<Rightarrow> 32 word list \<Rightarrow> nat list \<Rightarrow> 's \<times> 32 word list \<Rightarrow> ('s \<times> 32 word list) option" where
  "compute_indexed c ops m input col_ptr row_ptr krn values st =
     (if mult_format m = CSR then computeCSR c ops m input col_ptr row_ptr krn values st
      else if mult_format m = CSC then computeCSC c ops m input col_ptr row_ptr krn values st
      else Some st)"

definition compute_packed ::
  "('a::len, 'w::len) sa_cfg \<Rightarrow> 's smm_ops \<Rightarrow> multiplier \<Rightarrow> 32 word list \<Rightarrow> 32 word list \<Rightarrow> 32 word list
     \<Rightarrow> 32 word list \<Rightarrow> 's \<times> 32 word list \<Rightarrow> ('s \<times> 32 word list) option" where
  "compute_packed c ops m input row_ptr col_ind values st =
     (if mult_format m = META_DATA then computeMetaData c ops m input row_ptr col_ind values st
      else if mult_format m = INTERLEAVED then computeInterleavedMetaData c ops m input values st
      else if mult_format m = WITH_FLAG then computeWithFlag c ops m input row_ptr values st
      else if mult_format m = HIDDEN_KEY then computeHiddenKey c ops m input row_ptr values st
      else if mult_format m = DYNAMIC then computeDynamic c ops m input values st
      else if mult_format m = NON_PRUNED then computeNonPruned c ops m input values st
      else Some st)"

end
