(* ===== verification/TiC_Develop.thy ===== *)
theory TiC_Develop
  imports TiC_Tile_Mult
begin

text \<open>
  The emulation of the accelerator used when the software is compiled with \<^verbatim>\<open>DEVELOP\<close>: the class of
  \<^verbatim>\<open>accelerator/systolic_m2m.{h,cc}\<close> and the wrappers of \<^verbatim>\<open>accelerator/smm_gem.cc\<close> over the array
  \<^verbatim>\<open>smmList\<close>. The state of a device is that of a simulated tile; its member \<^verbatim>\<open>extra_input_buffer\<close> is
  never read and is left out. A failed \<^verbatim>\<open>assert\<close> is \<open>None\<close>.

  The emulation keeps the contract of the accelerator when a bus word holds one activation or a column of
  activations fits one bus word; otherwise it stores the activations in the wrong rows.
\<close>

subsection \<open>Model\<close>

text \<open>The remainder of C++, which has the sign of the dividend.\<close>

definition c_rem :: "int \<Rightarrow> int \<Rightarrow> int" where
  "c_rem a b = sgn a * (\<bar>a\<bar> mod \<bar>b\<bar>)"

definition getNthWeight :: "('a::len, 'w::len) sa_cfg \<Rightarrow> 32 word \<Rightarrow> nat \<Rightarrow> 'w word option" where
  "getNthWeight c x n = do { assert_c (n < W_PER_BUS c); Some (bus_lane x n) }"

definition getNthActivation :: "('a::len, 'w::len) sa_cfg \<Rightarrow> 32 word \<Rightarrow> nat \<Rightarrow> 'a word option" where
  "getNthActivation c x n = do { assert_c (n < ACT_PER_BUS c); Some (bus_lane x n) }"

definition dev_loadWeights ::
  "('a::len, 'w::len) sa_cfg \<Rightarrow> nat \<Rightarrow> 32 word \<Rightarrow> ('a, 'w) sa_tile \<Rightarrow> (('a, 'w) sa_tile \<times> bool) option" where
  "dev_loadWeights c idx val t = do {
     ws \<leftarrow> for_list [0..<W_PER_BUS c] (\<lambda>i ws. do {
       currVal \<leftarrow> getNthWeight c val i;
       if idx + i < kernel_dim c * kernel_dim c then wr ws (idx + i) currVal else Some ws
     }) (weights t);
     let t' = t\<lparr>weights := ws, non_zero_tile := (if val \<noteq> 0 then True else non_zero_tile t)\<rparr>;
     Some (t', non_zero_tile t')
   }"

definition store_element ::
  "('a::len, 'w::len) sa_cfg \<Rightarrow> nat \<Rightarrow> 32 word \<Rightarrow> nat \<Rightarrow> 'a word list \<Rightarrow> 'a word list option" where
  "store_element c idx val i iw = (let K = int (kernel_dim c) in do {
     currVal \<leftarrow> getNthActivation c val i;
     let row_index = int (idx + i);
     let in_row = c_rem row_index K;
     let in_col = c_rem (K - row_index - 1 + K) K;
     assert_c (0 \<le> in_row \<and> in_row < K \<and> 0 \<le> in_col \<and> in_col < K);
     wri iw (in_row * K + in_col) currVal
   })"

definition storeInput ::
  "('a::len, 'w::len) sa_cfg \<Rightarrow> nat \<Rightarrow> 32 word \<Rightarrow> 'a word list \<Rightarrow> 'a word list option" where
  "storeInput c idx val inWaiting = do {
     assert_c (kernel_dim c mod 4 = 0);
     for_list [0..<ACT_PER_BUS c] (store_element c idx val) inWaiting
   }"

definition output_element ::
  "('a::len, 'w::len) sa_cfg \<Rightarrow> int \<Rightarrow> 'a word list \<Rightarrow> nat \<Rightarrow> 'a word option" where
  "output_element c result_idx outWaiting i = (let K = int (kernel_dim c) in do {
     let out_row = c_rem (K - result_idx - int i - 1 + K) K;
     let out_col = c_rem (result_idx + int i) K;
     assert_c (0 \<le> out_row \<and> out_row < K \<and> 0 \<le> out_col \<and> out_col < K);
     rdi outWaiting (out_row * K + out_col)
   })"

definition retrieveOutput ::
  "('a::len, 'w::len) sa_cfg \<Rightarrow> nat \<Rightarrow> 'a word list \<Rightarrow> 32 word option" where
  "retrieveOutput c idx outWaiting = do {
     assert_c (kernel_dim c mod ACT_PER_BUS c = 0);
     let result_idx = c_rem (int (idx + ACT_PER_BUS c)) (int (kernel_dim c));
     for_list [0..<ACT_PER_BUS c] (\<lambda>i result. do {
       v \<leftarrow> output_element c result_idx outWaiting i;
       Some (result OR push_bit (LENGTH('a) * (ACT_PER_BUS c - i - 1)) (ucast v))
     }) 0
   }"

definition dev_inputQueue ::
  "('a::len, 'w::len) sa_cfg \<Rightarrow> nat \<Rightarrow> 32 word \<Rightarrow> ('a, 'w) sa_tile \<Rightarrow> (('a, 'w) sa_tile \<times> 32 word) option" where
  "dev_inputQueue c idx val t = do {
     iw \<leftarrow> storeInput c idx val (inWaitingMemory t);
     result \<leftarrow> retrieveOutput c idx (outWaitingMemory t);
     Some (t\<lparr>inWaitingMemory := iw\<rparr>, result)
   }"

definition dev_streamInOut ::
  "('a::len, 'w::len) sa_cfg \<Rightarrow> nat \<Rightarrow> 32 word \<Rightarrow> ('a, 'w) sa_tile \<Rightarrow> (('a, 'w) sa_tile \<times> 32 word) option" where
  "dev_streamInOut c idx val t = (let K = kernel_dim c in do {
     iw \<leftarrow> storeInput c idx val (inWaitingMemory t);
     (im, iw) \<leftarrow> skew_inputs K (inputMemory t, iw);
     om \<leftarrow> mac_sweep c (weights t) im (outputMemory t);
     im \<leftarrow> shift_inputs K im;
     ow \<leftarrow> deskew_outputs K om (outWaitingMemory t);
     result \<leftarrow> retrieveOutput c idx ow;
     Some (t\<lparr>inputMemory := im, outputMemory := om, inWaitingMemory := iw,
             outWaitingMemory := ow, non_zero_tile := False\<rparr>, result)
   })"

definition dev_readFlag :: "('a::len, 'w::len) sa_cfg \<Rightarrow> 32 word \<Rightarrow> 32 word" where
  "dev_readFlag c val = word_of_nat (kernel_dim c)"

text \<open>The four devices of \<^verbatim>\<open>smmList\<close> and the wrappers.\<close>

definition smmList :: "('a::len, 'w::len) sa_cfg \<Rightarrow> ('a, 'w) sa_tile list" where
  "smmList c = replicate 4 (SATile c)"

definition develop_ops :: "('a::len, 'w::len) sa_cfg \<Rightarrow> ('a, 'w) sa_tile list smm_ops" where
  "develop_ops c =
     \<lparr>op_param = (\<lambda>idx v tid s. do {
        t \<leftarrow> rd s tid;
        (t', r) \<leftarrow> dev_loadWeights c idx v t;
        Some (s[tid := t'], of_bool r) }),
      op_queue = (\<lambda>idx v tid s. do {
        t \<leftarrow> rd s tid;
        (t', r) \<leftarrow> dev_inputQueue c idx v t;
        Some (s[tid := t'], ucast r) }),
      op_stream = (\<lambda>idx v tid s. do {
        t \<leftarrow> rd s tid;
        (t', r) \<leftarrow> dev_streamInOut c idx v t;
        Some (s[tid := t'], ucast r) })\<rparr>"

definition develop_readFlag :: "('a::len, 'w::len) sa_cfg \<Rightarrow> 32 word \<Rightarrow> nat \<Rightarrow> ('a, 'w) sa_tile list \<Rightarrow> (('a, 'w) sa_tile list \<times> 64 word) option" where
  "develop_readFlag c val tid s = do { t \<leftarrow> rd s tid; Some (s, ucast (dev_readFlag c val)) }"

subsection \<open>Agreement with the simulated device\<close>

text \<open>
  The emulation counts the columns of its registers in activations, the simulated device in bus words: the same call has
  the same effect when its index is multiplied by the activations of a bus word. The software passes bus words, which is
  right where the two numbers are equal.
\<close>

definition develop_sized :: "('a::len, 'w::len) sa_cfg \<Rightarrow> bool" where
  "develop_sized c \<longleftrightarrow> cfg_ok c \<and> 4 dvd kernel_dim c"

definition develop_supported :: "('a::len, 'w::len) sa_cfg \<Rightarrow> bool" where
  "develop_supported c \<longleftrightarrow> develop_sized c \<and> (ACT_PER_BUS c = 1 \<or> MAX_ACT_COL c = 1)"

lemma develop_sized_ok: "develop_sized c \<Longrightarrow> cfg_ok c" "develop_supported c \<Longrightarrow> cfg_ok c" "develop_supported c \<Longrightarrow> develop_sized c"
  by (simp_all add: develop_supported_def develop_sized_def)

lemma c_rem_nat: "c_rem (int a) (int b) = int (a mod b)"
  by (cases "a = 0") (simp_all add: c_rem_def zmod_int)

lemma c_rem_wrap:
  assumes "r < K"
  shows "c_rem (int K - int r - 1 + int K) (int K) = int (K - 1 - r)"
proof -
  have "int K - int r - 1 + int K = int (K - 1 - r + K)" using assms by simp
  then have "c_rem (int K - int r - 1 + int K) (int K) = int ((K - 1 - r + K) mod K)"
    by (simp only: c_rem_nat)
  also have "(K - 1 - r + K) mod K = K - 1 - r" using assms by (simp only: mod_add_self2) simp
  finally show ?thesis .
qed

lemma bus_element:
  assumes "cfg_ok c" "q < MAX_ACT_COL c" "i < ACT_PER_BUS c"
  shows "q * ACT_PER_BUS c + i < kernel_dim c"
    "(q * ACT_PER_BUS c + ACT_PER_BUS c) mod kernel_dim c = (q + 1) mod MAX_ACT_COL c * ACT_PER_BUS c"
    "(q + 1) mod MAX_ACT_COL c * ACT_PER_BUS c + i < kernel_dim c"
proof -
  let ?A = "ACT_PER_BUS c" and ?M = "MAX_ACT_COL c"
  note K = cfg_okD(6) [OF assms(1)]
  show "q * ?A + i < kernel_dim c" using mem2d_less [OF assms(2,3)] by (simp add: mem2d_def K)
  have "q * ?A + ?A = (q + 1) * ?A" by simp
  then show "(q * ?A + ?A) mod kernel_dim c = (q + 1) mod ?M * ?A" by (simp only: K [symmetric] mult_mod_left)
  have "(q + 1) mod ?M < ?M" using cfg_okD(8) [OF assms(1)] by simp
  then show "(q + 1) mod ?M * ?A + i < kernel_dim c" using mem2d_less [OF _ assms(3)] by (simp add: mem2d_def flip: K)
qed

lemma supported_index:
  assumes "develop_supported c" "q < MAX_ACT_COL c"
  shows "q * ACT_PER_BUS c = q"
  using assms by (auto simp: develop_supported_def)

lemma store_element_at:
  assumes "idx + i < kernel_dim c" "i < ACT_PER_BUS c"
  shows "store_element c idx val i iw = wr iw (mem2d (kernel_dim c) (idx + i) (kernel_dim c - 1 - (idx + i))) (bus_lane val i)"
proof -
  let ?K = "kernel_dim c" and ?r = "idx + i"
  have cell: "c_rem (int ?r) (int ?K) = int ?r" "c_rem (int ?K - int ?r - 1 + int ?K) (int ?K) = int (?K - 1 - ?r)"
    using assms(1) by (simp_all only: c_rem_nat c_rem_wrap mod_less)
  have idx: "int ?r * int ?K + int (?K - 1 - ?r) = int (mem2d ?K ?r (?K - 1 - ?r))"
    by (simp add: mem2d_def del: of_nat_diff)
  have in_range: "0 \<le> int ?r \<and> int ?r < int ?K \<and> 0 \<le> int (?K - 1 - ?r) \<and> int (?K - 1 - ?r) < int ?K"
    using assms(1) by (simp only: of_nat_0_le_iff of_nat_less_iff simp_thms)
  show ?thesis
    using assms(2) unfolding store_element_def Let_def cell idx by (simp only: getNthActivation_def in_range wri_nat) simp
qed

lemma store_element_eq:
  assumes "cfg_ok c" "q < MAX_ACT_COL c" "i < ACT_PER_BUS c"
  shows "store_element c (q * ACT_PER_BUS c) val i iw = wr iw (mem2d (kernel_dim c) (q * ACT_PER_BUS c + i)
    (kernel_dim c - 1 - (q * ACT_PER_BUS c + i))) (bus_lane val i)"
  by (rule store_element_at [OF bus_element(1) [OF assms] assms(3)])

lemma storeInput_eq:
  assumes "develop_sized c" "q < MAX_ACT_COL c"
  shows "storeInput c (q * ACT_PER_BUS c) val iw = tile_store c q val iw"
proof -
  let ?step = "\<lambda>i iw. wr iw (mem2d (kernel_dim c) (q * ACT_PER_BUS c + i) (kernel_dim c - 1 - (q * ACT_PER_BUS c + i))) (bus_lane val i)"
  note ok = develop_sized_ok(1) [OF assms(1)]
  have "tile_store c q val iw = for_list [0..<ACT_PER_BUS c] ?step iw"
    unfolding tile_store_def Let_def
  proof (rule for_list_cong)
    fix i iw assume "i \<in> set [0..<ACT_PER_BUS c]"
    then have "q * ACT_PER_BUS c + i < kernel_dim c" using bus_element(1) [OF ok assms(2)] by simp
    then show "wri iw (int (q * ACT_PER_BUS c + i) * int (kernel_dim c) + (int (kernel_dim c) - int (q * ACT_PER_BUS c + i) - 1)) (bus_lane val i) =
        ?step i iw"
      by (simp only: mem2d_int(1) wri_nat)
  qed
  moreover have "storeInput c (q * ACT_PER_BUS c) val iw = for_list [0..<ACT_PER_BUS c] ?step iw"
    using assms(1) unfolding storeInput_def develop_sized_def
    by (auto intro!: for_list_cong simp: store_element_eq [OF ok assms(2)])
  ultimately show ?thesis by simp
qed

lemma output_element_eq:
  assumes "r + i < kernel_dim c"
  shows "output_element c (int r) ow i = rd ow (mem2d (kernel_dim c) (kernel_dim c - 1 - (r + i)) (r + i))"
proof -
  let ?K = "kernel_dim c" and ?r = "r + i"
  have int_r: "int ?K - int r - int i - 1 + int ?K = int ?K - int ?r - 1 + int ?K" "int r + int i = int ?r" by simp_all
  have cell: "c_rem (int ?r) (int ?K) = int ?r" "c_rem (int ?K - int ?r - 1 + int ?K) (int ?K) = int (?K - 1 - ?r)"
    using assms by (simp_all only: c_rem_nat c_rem_wrap mod_less)
  have idx: "int (?K - 1 - ?r) * int ?K + int ?r = int (mem2d ?K (?K - 1 - ?r) ?r)"
    by (simp add: mem2d_def del: of_nat_diff)
  have in_range: "0 \<le> int (?K - 1 - ?r) \<and> int (?K - 1 - ?r) < int ?K \<and> 0 \<le> int ?r \<and> int ?r < int ?K"
    using assms by auto
  show ?thesis
    unfolding output_element_def Let_def int_r cell idx by (simp only: in_range rdi_nat) simp
qed

lemma retrieveOutput_eq:
  assumes "develop_sized c" "q < MAX_ACT_COL c"
  shows "retrieveOutput c (q * ACT_PER_BUS c) ow = tile_retrieve c ((q + 1) mod MAX_ACT_COL c * ACT_PER_BUS c) ow"
proof -
  let ?r = "(q + 1) mod MAX_ACT_COL c * ACT_PER_BUS c" and ?K = "kernel_dim c"
  note ok = develop_sized_ok(1) [OF assms(1)]
  have A: "0 < ACT_PER_BUS c" "?K mod ACT_PER_BUS c = 0" using ok by (auto simp: cfg_okD cfg_ok_def)
  have "c_rem (int (q * ACT_PER_BUS c + ACT_PER_BUS c)) (int ?K) = int ?r"
    unfolding c_rem_nat bus_element(2) [OF ok assms(2) A(1)] ..
  moreover have "output_element c (int ?r) ow i =
      rdi ow ((int ?K - int (?r + i) - 1) * int ?K + int (?r + i))" if "i \<in> set [0..<ACT_PER_BUS c]" for i
  proof -
    have "?r + i < ?K" using bus_element(3) [OF ok assms(2)] that by simp
    then show ?thesis by (simp only: output_element_eq mem2d_int(2) rdi_nat)
  qed
  ultimately show ?thesis
    using A(2) unfolding retrieveOutput_def tile_retrieve_def Let_def
    by (simp only: simp_thms assert_c_True bind.bind_lunit cong: for_list_cong)
qed

lemma dev_queue_element:
  assumes "develop_sized c" "q < MAX_ACT_COL c"
  shows "dev_inputQueue c (q * ACT_PER_BUS c) val t = tile_inputQueue c q val t"
  by (simp add: dev_inputQueue_def tile_inputQueue_def storeInput_eq [OF assms] retrieveOutput_eq [OF assms])

lemma dev_stream_element:
  assumes sup: "develop_sized c" and q: "q = MAX_ACT_COL c - 1"
  shows "dev_streamInOut c (q * ACT_PER_BUS c) val t = tile_streamInOut c val t"
proof -
  have "0 < MAX_ACT_COL c" using sup by (simp add: develop_sized_def cfg_okD)
  then have lt: "q < MAX_ACT_COL c" and r: "(q + 1) mod MAX_ACT_COL c * ACT_PER_BUS c = 0" using q by auto
  show ?thesis
    unfolding dev_streamInOut_def tile_streamInOut_def Let_def storeInput_eq [OF sup lt]
      retrieveOutput_eq [OF sup lt] r unfolding q ..
qed

lemma dev_load_eq:
  assumes "idx + W_PER_BUS c \<le> kernel_dim c * kernel_dim c"
  shows "dev_loadWeights c idx val t =
    (case tile_loadWeights c idx val t of None \<Rightarrow> None | Some t' \<Rightarrow> Some (t', non_zero_tile t'))"
proof -
  have "for_list [0..<W_PER_BUS c] (\<lambda>i ws. do {
      currVal \<leftarrow> getNthWeight c val i;
      if idx + i < kernel_dim c * kernel_dim c then wr ws (idx + i) currVal else Some ws }) ws =
    for_list [0..<W_PER_BUS c] (\<lambda>i ws. wr ws (idx + i) (bus_lane val i)) ws" for ws
    using assms by (intro for_list_cong) (auto simp: getNthWeight_def)
  then show ?thesis
    by (cases "for_list [0..<W_PER_BUS c] (\<lambda>i ws. wr ws (idx + i) (bus_lane val i)) (weights t)")
      (simp_all add: dev_loadWeights_def tile_loadWeights_def Let_def)
qed

subsection \<open>The emulation keeps the contract\<close>

definition on_first :: "(('a, 'w) sa_tile \<Rightarrow> bool) \<Rightarrow> ('a, 'w) sa_tile list \<Rightarrow> bool" where
  "on_first P s \<longleftrightarrow> s \<noteq> [] \<and> P (s ! 0)"

lemma on_firstE: "on_first P s \<Longrightarrow> (\<And>t ts. s = t # ts \<Longrightarrow> P t \<Longrightarrow> thesis) \<Longrightarrow> thesis"
  by (cases s) (auto simp: on_first_def)

lemma develop_load:
  assumes sized: "develop_sized c" and "on_first (loaded c vals k) s" and k: "k < kernel_dim c * MAX_W_COL c"
  shows "\<exists>s' r. op_param (develop_ops c) (k * W_PER_BUS c) (vals k) 0 s = Some (s', r) \<and> on_first (loaded c vals (Suc k)) s'"
proof -
  obtain t ts where s: "s = t # ts" "loaded c vals k t" using assms(2) by (elim on_firstE)
  have ok: "cfg_ok c" using sized by (rule develop_sized_ok(1))
  have "Suc k * W_PER_BUS c \<le> kernel_dim c * MAX_W_COL c * W_PER_BUS c" using k by (intro mult_le_mono1) simp
  then have "k * W_PER_BUS c + W_PER_BUS c \<le> kernel_dim c * kernel_dim c"
    using cfg_okD(7) [OF ok] by (simp add: mult.assoc)
  with loaded_step [OF ok k s(2)] s(1) show ?thesis
    by (auto simp: develop_ops_def dev_load_eq rd_def on_first_def)
qed

lemma develop_start: "develop_sized c \<Longrightarrow> on_first (loaded c vals (kernel_dim c * MAX_W_COL c)) s \<Longrightarrow> on_first (tile_run c vals u 0) s"
  by (simp add: on_first_def tile_run_start develop_sized_ok(1))

lemma develop_queue:
  assumes sized: "develop_sized c" and "on_first (tile_run c vals u n) s" and n: "n mod MAX_ACT_COL c \<noteq> MAX_ACT_COL c - 1"
  shows "\<exists>s' r. op_queue (develop_ops c) (n mod MAX_ACT_COL c * ACT_PER_BUS c) (u n) 0 s = Some (s', r) \<and>
      on_first (tile_run c vals u (Suc n)) s' \<and> (latency c \<le> n \<longrightarrow> ucast r = run_result c vals u (n - latency c))"
proof -
  obtain t ts where s: "s = t # ts" "tile_run c vals u n t" using assms(2) by (elim on_firstE)
  have ok: "cfg_ok c" using sized by (rule develop_sized_ok(1))
  have lt: "n mod MAX_ACT_COL c < MAX_ACT_COL c" using cfg_okD(8) [OF ok] by simp
  from tile_run_queue [OF ok s(2) n] s(1) show ?thesis
    by (auto simp: develop_ops_def dev_queue_element [OF sized lt] rd_def on_first_def)
qed

lemma develop_stream:
  assumes sized: "develop_sized c" and "on_first (tile_run c vals u n) s" and n: "n mod MAX_ACT_COL c = MAX_ACT_COL c - 1"
  shows "\<exists>s' r. op_stream (develop_ops c) (n mod MAX_ACT_COL c * ACT_PER_BUS c) (u n) 0 s = Some (s', r) \<and>
      on_first (tile_run c vals u (Suc n)) s' \<and> (latency c \<le> n \<longrightarrow> ucast r = run_result c vals u (n - latency c))"
proof -
  obtain t ts where s: "s = t # ts" "tile_run c vals u n t" using assms(2) by (elim on_firstE)
  from tile_run_stream [OF develop_sized_ok(1) [OF sized] s(2) n] s(1) show ?thesis
    by (auto simp: develop_ops_def dev_stream_element [OF sized n] rd_def on_first_def)
qed

lemma develop_ready: "on_first (tile_wf c) s \<Longrightarrow> on_first (loaded c vals 0) s" "on_first (tile_run c vals u n) s \<Longrightarrow> on_first (tile_wf c) s"
  by (auto simp: on_first_def loaded_def intro: tile_run_wf)

interpretation develop: systolic_driver c "develop_ops c" "develop_supported c" "on_first (tile_wf c)"
  "\<lambda>vals k. on_first (loaded c vals k)" "\<lambda>vals u n. on_first (tile_run c vals u n)"
  for c :: "('a::len, 'w::len) sa_cfg"
proof
  have index: "n mod MAX_ACT_COL c * ACT_PER_BUS c = n mod MAX_ACT_COL c" if "develop_supported c" for n
    using supported_index [OF that] cfg_okD(8) [OF develop_sized_ok(2) [OF that]] by simp
  fix vals u n s assume sup: "develop_supported c" and run: "on_first (tile_run c vals u n) s"
  show "n mod MAX_ACT_COL c \<noteq> MAX_ACT_COL c - 1 \<Longrightarrow> \<exists>s' r. op_queue (develop_ops c) (n mod MAX_ACT_COL c) (u n) 0 s = Some (s', r) \<and>
      on_first (tile_run c vals u (Suc n)) s' \<and> (latency c \<le> n \<longrightarrow> ucast r = run_result c vals u (n - latency c))"
    using develop_queue [OF develop_sized_ok(3) [OF sup] run] unfolding index [OF sup] .
  show "n mod MAX_ACT_COL c = MAX_ACT_COL c - 1 \<Longrightarrow> \<exists>s' r. op_stream (develop_ops c) (n mod MAX_ACT_COL c) (u n) 0 s = Some (s', r) \<and>
      on_first (tile_run c vals u (Suc n)) s' \<and> (latency c \<le> n \<longrightarrow> ucast r = run_result c vals u (n - latency c))"
    using develop_stream [OF develop_sized_ok(3) [OF sup] run] unfolding index [OF sup] .
qed (blast intro: develop_sized_ok develop_ready develop_load develop_start)+

subsection \<open>Activations the emulation overwrites\<close>

text \<open>
  The software passes the number of a bus word where the emulation takes the number of an activation. So a word is stored one
  activation behind its predecessor and overwrites all but the first activation of it. Two runs are compared whose inputs differ
  in what is overwritten; their waiting memories differ only in cells that the next word of the row overwrites.
\<close>

definition waiting_cells :: "('a::len, 'w::len) sa_cfg \<Rightarrow> nat \<Rightarrow> nat \<Rightarrow> nat set" where
  "waiting_cells c a b = (\<lambda>r. mem2d (kernel_dim c) r (kernel_dim c - 1 - r)) ` {a..<b}"

definition same_but :: "nat set \<Rightarrow> 'x list \<Rightarrow> 'x list \<Rightarrow> bool" where
  "same_but D xs ys \<longleftrightarrow> length ys = length xs \<and> (\<forall>p<length xs. p \<notin> D \<longrightarrow> ys ! p = xs ! p)"

lemma same_but_empty: "same_but {} xs ys \<longleftrightarrow> ys = xs"
  by (auto simp: same_but_def intro: nth_equalityI)

lemma same_but_wr:
  assumes "same_but D xs ys" "D \<subseteq> insert p E" "v = w \<or> p \<in> E"
  shows "rel_option (same_but E) (wr xs p v) (wr ys p w)"
  using assms by (auto simp: same_but_def wr_def nth_list_update)

lemma waiting_cells_step:
  "{a..<b} \<subseteq> insert r {a'..<b'} \<Longrightarrow>
    waiting_cells c a b \<subseteq> insert (mem2d (kernel_dim c) r (kernel_dim c - 1 - r)) (waiting_cells c a' b')"
  by (auto simp: waiting_cells_def)

lemma for_up_rel:
  assumes "R 0 s s'" "\<And>i s s'. i < n \<Longrightarrow> R i s s' \<Longrightarrow> rel_option (R (Suc i)) (f i s) (g i s')"
  shows "rel_option (R n) (for_list [0..<n] f s) (for_list [0..<n] g s')"
  using assms
proof (induction n)
  case (Suc n)
  then have IH: "rel_option (R n) (for_list [0..<n] f s) (for_list [0..<n] g s')" by simp
  have snoc: "for_list [0..<Suc n] h x = Option.bind (for_list [0..<n] h x) (h n)" for h x
    by (simp add: for_list_append for_list_one)
  show ?case unfolding snoc
    using IH Suc.prems(2) by (cases "for_list [0..<n] f s"; cases "for_list [0..<n] g s'") auto
qed simp

lemma store_row:
  assumes "develop_sized c" "j < MAX_ACT_COL c" "i < ACT_PER_BUS c"
  shows "j + i < kernel_dim c"
proof -
  have "j * 1 + i \<le> j * ACT_PER_BUS c + i" using assms(3) by (intro add_right_mono mult_le_mono2) simp
  also have "\<dots> < kernel_dim c" by (rule bus_element(1) [OF develop_sized_ok(1) [OF assms(1)] assms(2,3)])
  finally show ?thesis by simp
qed

lemma storeInput_first:
  fixes c :: "('a::len, 'w::len) sa_cfg"
  assumes sized: "develop_sized c" and j: "j < MAX_ACT_COL c"
    and "same_but (waiting_cells c j (j + ACT_PER_BUS c - 1)) iw iw'" "bus_lane v' 0 = (bus_lane v 0 :: 'a word)"
  shows "rel_option (same_but (waiting_cells c (Suc j) (j + ACT_PER_BUS c))) (storeInput c j v iw) (storeInput c j v' iw')"
proof -
  let ?A = "ACT_PER_BUS c"
  let ?D = "\<lambda>i. waiting_cells c (if i = 0 then j else Suc j) (j + max i (?A - 1))"
  have A: "0 < ?A" using develop_sized_ok(1) [OF sized] by (simp add: cfg_okD)
  have "rel_option (same_but (?D ?A)) (for_list [0..<?A] (store_element c j v) iw) (for_list [0..<?A] (store_element c j v') iw')"
  proof (rule for_up_rel [where R = "\<lambda>i. same_but (?D i)"])
    show "same_but (?D 0) iw iw'" using assms(3) A by simp
  next
    fix i and iw iw' :: "'a word list" assume i: "i < ?A" and same: "same_but (?D i) iw iw'"
    have cells: "?D i \<subseteq> insert (mem2d (kernel_dim c) (j + i) (kernel_dim c - 1 - (j + i))) (?D (Suc i))"
      by (rule waiting_cells_step) auto
    have "bus_lane v i = (bus_lane v' i :: 'a word) \<or> mem2d (kernel_dim c) (j + i) (kernel_dim c - 1 - (j + i)) \<in> ?D (Suc i)"
      using assms(4) by (cases i) (auto simp: waiting_cells_def)
    from same_but_wr [OF same cells this] show "rel_option (same_but (?D (Suc i))) (store_element c j v i iw) (store_element c j v' i iw')"
      by (simp add: store_element_at [OF store_row [OF sized j i] i])
  qed
  moreover have "?D ?A = waiting_cells c (Suc j) (j + ?A)" using A by simp
  ultimately show ?thesis using sized by (simp add: storeInput_def develop_sized_def)
qed

lemma storeInput_whole:
  fixes c :: "('a::len, 'w::len) sa_cfg"
  assumes sized: "develop_sized c" and j: "j < MAX_ACT_COL c"
    and "same_but (waiting_cells c j (j + ACT_PER_BUS c - 1)) iw iw'"
  shows "storeInput c j v iw' = storeInput c j v iw"
proof -
  let ?A = "ACT_PER_BUS c"
  let ?D = "\<lambda>i. waiting_cells c (j + i) (j + ?A - 1)"
  have "rel_option (same_but (?D ?A)) (for_list [0..<?A] (store_element c j v) iw) (for_list [0..<?A] (store_element c j v) iw')"
  proof (rule for_up_rel [where R = "\<lambda>i. same_but (?D i)"])
    show "same_but (?D 0) iw iw'" using assms(3) by simp
  next
    fix i and iw iw' :: "'a word list" assume i: "i < ?A" and same: "same_but (?D i) iw iw'"
    have "?D i \<subseteq> insert (mem2d (kernel_dim c) (j + i) (kernel_dim c - 1 - (j + i))) (?D (Suc i))"
      by (rule waiting_cells_step) auto
    from same_but_wr [OF same this] show "rel_option (same_but (?D (Suc i))) (store_element c j v i iw) (store_element c j v i iw')"
      by (simp add: store_element_at [OF store_row [OF sized j i] i])
  qed
  moreover have "?D ?A = {}" by (simp add: waiting_cells_def)
  ultimately have "for_list [0..<?A] (store_element c j v) iw' = for_list [0..<?A] (store_element c j v) iw"
    by (cases "for_list [0..<?A] (store_element c j v) iw"; cases "for_list [0..<?A] (store_element c j v) iw'") (simp_all add: same_but_empty)
  then show ?thesis by (simp add: storeInput_def)
qed

text \<open>Devices whose first tiles differ in those cells.\<close>

definition same_until :: "('a::len, 'w::len) sa_cfg \<Rightarrow> nat \<Rightarrow> ('a, 'w) sa_tile list \<Rightarrow> ('a, 'w) sa_tile list \<Rightarrow> bool" where
  "same_until c j s s' \<longleftrightarrow> s' = s \<or> (\<exists>t ts iw. s = t # ts \<and> s' = t\<lparr>inWaitingMemory := iw\<rparr> # ts \<and>
     same_but (waiting_cells c j (j + ACT_PER_BUS c - 1)) (inWaitingMemory t) iw)"

lemma same_until_cases:
  assumes "same_until c j s s'"
  obtains "s = []" "s' = []" | t ts iw where "s = t # ts" "s' = t\<lparr>inWaitingMemory := iw\<rparr> # ts"
    "same_but (waiting_cells c j (j + ACT_PER_BUS c - 1)) (inWaitingMemory t) iw"
proof (cases s)
  case (Cons t ts)
  show ?thesis
  proof (cases "s' = s")
    case True
    then show ?thesis using Cons that(2) [of t ts "inWaitingMemory t"] by (simp add: same_but_def)
  qed (use assms that in \<open>auto simp: same_until_def\<close>)
qed (use assms that in \<open>auto simp: same_until_def\<close>)

lemma queue_same:
  fixes c :: "('a::len, 'w::len) sa_cfg"
  assumes "develop_sized c" "j < MAX_ACT_COL c" "same_until c j s s'" "bus_lane v' 0 = (bus_lane v 0 :: 'a word)"
  shows "rel_option (\<lambda>(s, r) (s', r'). r' = r \<and> same_until c (Suc j) s s') (op_queue (develop_ops c) j v 0 s) (op_queue (develop_ops c) j v' 0 s')"
  using assms(3)
proof (cases rule: same_until_cases)
  case 1
  then show ?thesis by (simp add: develop_ops_def rd_def)
next
  case (2 t ts iw)
  from storeInput_first [OF assms(1,2) 2(3) assms(4)] 2(1,2) show ?thesis
    by (cases "storeInput c j v (inWaitingMemory t)"; cases "storeInput c j v' iw"; cases "retrieveOutput c j (outWaitingMemory t)")
      (auto simp: develop_ops_def rd_def dev_inputQueue_def same_until_def)
qed

lemma stream_same:
  fixes c :: "('a::len, 'w::len) sa_cfg"
  assumes "develop_sized c" "j < MAX_ACT_COL c" "same_until c j s s'"
  shows "op_stream (develop_ops c) j v 0 s' = op_stream (develop_ops c) j v 0 s"
  using assms(3)
proof (cases rule: same_until_cases)
  case (2 t ts iw)
  then show ?thesis using storeInput_whole [OF assms(1,2) 2(3), of v] by (simp add: develop_ops_def rd_def dev_streamInOut_def Let_def)
qed simp

text \<open>Inputs that agree in the first activation of every bus word and in the last word of every row.\<close>

definition first_lanes_agree :: "('a::len, 'w::len) sa_cfg \<Rightarrow> 32 word list \<Rightarrow> 32 word list \<Rightarrow> bool" where
  "first_lanes_agree c xs ys \<longleftrightarrow> length ys = length xs \<and> (\<forall>p<length xs. bus_lane (ys ! p) 0 = (bus_lane (xs ! p) 0 :: 'a word) \<and>
     (p mod MAX_ACT_COL c = MAX_ACT_COL c - 1 \<longrightarrow> ys ! p = xs ! p))"

definition fed_same ::
  "('a::len, 'w::len) sa_cfg \<Rightarrow> nat \<Rightarrow> nat \<Rightarrow> ('a, 'w) sa_tile list \<times> 32 word list \<times> nat \<times> nat
     \<Rightarrow> ('a, 'w) sa_tile list \<times> 32 word list \<times> nat \<times> nat \<Rightarrow> bool" where
  "fed_same c base j = (\<lambda>(s, output, inPtr, outPtr) (s', output', inPtr', outPtr').
     output' = output \<and> inPtr' = inPtr \<and> outPtr' = outPtr \<and> inPtr = base + j \<and>
     (if j = MAX_ACT_COL c then s' = s else same_until c j s s'))"

lemma feed_word_same:
  fixes c :: "('a::len, 'w::len) sa_cfg"
  assumes sized: "develop_sized c" and lanes: "first_lanes_agree c xs ys" and "MAX_ACT_COL c dvd base" and j: "j < MAX_ACT_COL c"
    and "fed_same c base j st st'"
  shows "rel_option (fed_same c base (Suc j)) (feed_word c (develop_ops c) xs i j st) (feed_word c (develop_ops c) ys i j st')"
proof -
  let ?M = "MAX_ACT_COL c"
  obtain s s' out outPtr where st: "st = (s, out, base + j, outPtr)" "st' = (s', out, base + j, outPtr)" and same: "same_until c j s s'"
    using assms(5) j by (cases st; cases st') (auto simp: fed_same_def)
  show ?thesis
  proof (cases "base + j < length xs")
    case True
    have mod: "(base + j) mod ?M = j" using assms(3) j by auto
    have ys: "base + j < length ys" "bus_lane (ys ! (base + j)) 0 = (bus_lane (xs ! (base + j)) 0 :: 'a word)"
      "j = ?M - 1 \<Longrightarrow> ys ! (base + j) = xs ! (base + j)" using lanes True mod by (auto simp: first_lanes_agree_def)
    show ?thesis
    proof (cases "j = ?M - 1")
      case last: True
      then have "Suc j = ?M" using j by simp
      moreover have "bus_call c (develop_ops c) j (ys ! (base + j)) s' = bus_call c (develop_ops c) j (xs ! (base + j)) s"
        using stream_same [OF sized j same] ys(3) last j by (simp add: bus_call_def)
      ultimately show ?thesis unfolding st
        by (cases "feed_word c (develop_ops c) xs i j (s, out, base + j, outPtr)")
          (use True ys(1) in \<open>auto simp: feed_word_def rd_def fed_same_def split: Option.bind_splits\<close>)
    next
      case False
      then have "Suc j \<noteq> ?M" using j by simp
      moreover have "rel_option (\<lambda>(s, r) (s', r'). r' = r \<and> same_until c (Suc j) s s')
          (bus_call c (develop_ops c) j (xs ! (base + j)) s) (bus_call c (develop_ops c) j (ys ! (base + j)) s')"
        using queue_same [OF sized j same ys(2)] False j by (simp add: bus_call_def)
      ultimately show ?thesis unfolding st using True ys(1)
        by (cases "bus_call c (develop_ops c) j (xs ! (base + j)) s"; cases "bus_call c (develop_ops c) j (ys ! (base + j)) s'")
          (auto simp: feed_word_def rd_def fed_same_def split: Option.bind_split)
    qed
  next
    case False
    then show ?thesis unfolding st using lanes by (simp add: feed_word_def rd_def first_lanes_agree_def)
  qed
qed

lemma feed_same:
  fixes c :: "('a::len, 'w::len) sa_cfg"
  assumes sized: "develop_sized c" and lanes: "first_lanes_agree c xs ys" and base: "MAX_ACT_COL c dvd base"
  shows "for_list [0..<n] (\<lambda>i. for_list [0..<MAX_ACT_COL c] (feed_word c (develop_ops c) ys i)) (s, output, base, outPtr) =
    for_list [0..<n] (\<lambda>i. for_list [0..<MAX_ACT_COL c] (feed_word c (develop_ops c) xs i)) (s, output, base, outPtr)"
proof -
  let ?M = "MAX_ACT_COL c"
  let ?row = "\<lambda>zs i. for_list [0..<?M] (feed_word c (develop_ops c) zs i)"
  have M: "0 < ?M" using develop_sized_ok(1) [OF sized] by (simp add: cfg_okD)
  let ?R = "\<lambda>i st st'. st' = st \<and> (\<exists>s output outPtr. st = (s, output, base + i * ?M, outPtr))"
  have "rel_option (?R n) (for_list [0..<n] (?row xs) (s, output, base, outPtr)) (for_list [0..<n] (?row ys) (s, output, base, outPtr))"
  proof (rule for_up_rel [where R = ?R])
    fix i and st st' :: "('a, 'w) sa_tile list \<times> 32 word list \<times> nat \<times> nat" assume "?R i st st'"
    then obtain s out outPtr where st: "st = (s, out, base + i * ?M, outPtr)" "st' = st" by blast
    have dvd: "?M dvd base + i * ?M" using base by simp
    have "rel_option (fed_same c (base + i * ?M) ?M) (?row xs i st) (?row ys i st')"
    proof (rule for_up_rel [where R = "fed_same c (base + i * ?M)"])
      show "fed_same c (base + i * ?M) 0 st st'" using M by (simp add: fed_same_def st same_until_def)
    qed (rule feed_word_same [OF sized lanes dvd])
    then show "rel_option (?R (Suc i)) (?row xs i st) (?row ys i st')"
      by (rule option.rel_mono_strong) (auto simp: fed_same_def)
  qed simp
  then show ?thesis by (cases "for_list [0..<n] (?row xs) (s, output, base, outPtr)"; cases "for_list [0..<n] (?row ys) (s, output, base, outPtr)") simp_all
qed

text \<open>The emulation ignores activations: multiplying a tile gives the same output and leaves the device in the same state for any two
  inputs that agree in the first activation of every bus word and in the last bus word of every row of the array.\<close>

lemma develop_same_product:
  fixes c :: "('a::len, 'w::len) sa_cfg"
  assumes "develop_sized c" "first_lanes_agree c xs ys"
  shows "processMultiplication c (develop_ops c) seq_len ys row col vals voff (ts, output) =
    processMultiplication c (develop_ops c) seq_len xs row col vals voff (ts, output)"
proof -
  have "MAX_ACT_COL c dvd row * MAX_ACT_COL c * seq_len" by simp
  from feed_same [OF assms this] show ?thesis by (simp add: processMultiplication_def split: Option.bind_split)
qed

end
