(* ===== verification/TiC_Schedule.thy ===== *)
theory TiC_Schedule
  imports TiC_Sparse_Mult TiC_Develop
begin

text \<open>
  What the multiplier computes, whatever the storage format: a format determines a schedule, a list of
  tiles with their block row and block column, and the output is the fold of \<open>tile_add\<close> over
  it. \<open>dense_sched\<close> visits every tile of the kernel, \<open>pruned_sched\<close> the tiles with a non-zero word.
  Every \<^verbatim>\<open>compute\<dots>\<close> method is shown to run the schedule its data describes, for any accelerator
  that keeps the contract \<open>systolic_driver\<close>.
\<close>

subsection \<open>Tiles and schedules\<close>

type_synonym tile_op = "nat \<times> nat \<times> 32 word list"

definition tile_add ::
  "('a::len, 'w::len) sa_cfg \<Rightarrow> nat \<Rightarrow> 32 word list \<Rightarrow> tile_op \<Rightarrow> 32 word list \<Rightarrow> 32 word list" where
  "tile_add c seq_len input = (\<lambda>(row, col, tile) output.
     add_block c seq_len col (run_result c ((!) tile) (block_input c seq_len input row))
       (seq_len * MAX_ACT_COL c) output)"

definition dense_tile :: "('a::len, 'w::len) sa_cfg \<Rightarrow> 32 word list \<Rightarrow> nat \<Rightarrow> 32 word list" where
  "dense_tile c krn n = take (tile_words c) (drop (n * tile_words c) krn)"

definition tile_nonzero :: "('a::len, 'w::len) sa_cfg \<Rightarrow> 32 word list \<Rightarrow> nat \<Rightarrow> bool" where
  "tile_nonzero c krn n \<longleftrightarrow> (\<exists>v \<in> set (dense_tile c krn n). w_nonzero c v)"

definition lin_op :: "('a::len, 'w::len) sa_cfg \<Rightarrow> nat \<Rightarrow> 32 word list \<Rightarrow> nat \<Rightarrow> tile_op" where
  "lin_op c R krn n = (n mod R, n div R, dense_tile c krn n)"

definition tile_sched ::
  "('a::len, 'w::len) sa_cfg \<Rightarrow> multiplier \<Rightarrow> 32 word list \<Rightarrow> (nat \<Rightarrow> bool) \<Rightarrow> tile_op list" where
  "tile_sched c m krn P =
     map (lin_op c (row_in_w c m) krn) (filter P [0..<col_in_w c m * row_in_w c m])"

abbreviation dense_sched :: "('a::len, 'w::len) sa_cfg \<Rightarrow> multiplier \<Rightarrow> 32 word list \<Rightarrow> tile_op list" where
  "dense_sched c m krn \<equiv> tile_sched c m krn (\<lambda>_. True)"

abbreviation pruned_sched :: "('a::len, 'w::len) sa_cfg \<Rightarrow> multiplier \<Rightarrow> 32 word list \<Rightarrow> tile_op list" where
  "pruned_sched c m krn \<equiv> tile_sched c m krn (tile_nonzero c krn)"

text \<open>The result of running a schedule, and the shapes the arrays must have.\<close>

definition sched_result ::
  "('a::len, 'w::len) sa_cfg \<Rightarrow> multiplier \<Rightarrow> 32 word list \<Rightarrow> tile_op list \<Rightarrow> 32 word list \<Rightarrow> 32 word list" where
  "sched_result c m input sched output = fold (tile_add c (mult_seq_len m) input) sched output"

definition shapes_ok ::
  "('a::len, 'w::len) sa_cfg \<Rightarrow> multiplier \<Rightarrow> 32 word list \<Rightarrow> nat \<Rightarrow> bool" where
  "shapes_ok c m input n \<longleftrightarrow>
     row_in_w c m * MAX_ACT_COL c * mult_seq_len m \<le> length input \<and>
     col_in_w c m * MAX_ACT_COL c * mult_seq_len m \<le> n"

lemma length_tile_add [simp]: "length (tile_add c seq_len input t output) = length output"
  by (simp add: tile_add_def split: prod.splits)

lemma length_sched_result [simp]: "length (sched_result c m input sched output) = length output"
  unfolding sched_result_def by (induction sched arbitrary: "output") simp_all

lemma sched_result_simps [simp]:
  "sched_result c m input [] output = output"
  "sched_result c m input (t # ts) output =
     sched_result c m input ts (tile_add c (mult_seq_len m) input t output)"
  "sched_result c m input (ts @ us) output = sched_result c m input us (sched_result c m input ts output)"
  by (simp_all add: sched_result_def)

lemma length_dense_tile:
  "n * tile_words c + tile_words c \<le> length krn \<Longrightarrow> length (dense_tile c krn n) = tile_words c"
  by (simp add: dense_tile_def)

lemma nth_dense_tile:
  "n * tile_words c + tile_words c \<le> length krn \<Longrightarrow> k < tile_words c \<Longrightarrow>
     dense_tile c krn n ! k = krn ! (n * tile_words c + k)"
  by (simp add: dense_tile_def)

lemma tile_bound: "n < N \<Longrightarrow> N * tile_words c \<le> length krn \<Longrightarrow> n * tile_words c + tile_words c \<le> length krn"
  using mult_le_mono1 [of "Suc n" N "tile_words c"] by simp

lemma tile_nonzero_iff:
  assumes "n * tile_words c + tile_words c \<le> length krn"
  shows "tile_nonzero c krn n \<longleftrightarrow> (\<exists>k<tile_words c. w_nonzero c (krn ! (n * tile_words c + k)))"
proof -
  have "set (dense_tile c krn n) = {dense_tile c krn n ! k |k. k < tile_words c}"
    using length_dense_tile [OF assms] by (auto simp: set_conv_nth)
  then show ?thesis using nth_dense_tile [OF assms] by (auto simp: tile_nonzero_def)
qed

lemma run_result_cong:
  fixes c :: "('a::len, 'w::len) sa_cfg"
  assumes "cfg_ok c" "\<And>k. k < tile_words c \<Longrightarrow> v k = v' k"
  shows "run_result c v u = run_result c v' u"
proof -
  have "v (p div W_PER_BUS c) = v' (p div W_PER_BUS c)" if "p < kernel_dim c * kernel_dim c" for p
  proof (rule assms(2))
    have "kernel_dim c * kernel_dim c = tile_words c * W_PER_BUS c"
      using cfg_okD(7) [OF assms(1)] by (simp add: tile_words_def mult.assoc)
    with that show "p div W_PER_BUS c < tile_words c" by (simp add: less_mult_imp_div_less)
  qed
  then have "tile_weights c v = tile_weights c v'" by (simp add: tile_weights_def)
  then show ?thesis by (simp add: run_result_def fun_eq_iff)
qed

lemma block_bound: "(i::nat) < n \<Longrightarrow> n * a * b \<le> l \<Longrightarrow> Suc i * a * b \<le> l"
  by (rule order_trans [OF mult_le_mono1 [OF mult_le_mono1]]) simp_all

subsection \<open>Running a schedule on an accelerator\<close>

context systolic_driver
begin

lemma process_tile:
  assumes sup: supported and "ready s" and shapes: "shapes_ok c m input (length output)"
    and "row < row_in_w c m" "col < col_in_w c m"
    and vals_len: "voff + tile_words c \<le> length vals"
    and tile: "\<And>k. k < tile_words c \<Longrightarrow> vals ! (voff + k) = tile ! k"
  shows "\<exists>s'. processMultiplication c ops (mult_seq_len m) input row col vals voff (s, output) =
      Some (s', tile_add c (mult_seq_len m) input (row, col, tile) output) \<and> ready s'"
proof -
  have "run_result c (\<lambda>k. vals ! (voff + k)) u = run_result c ((!) tile) u" for u
    by (rule run_result_cong [OF supported_ok [OF sup] tile])
  moreover have "Suc row * MAX_ACT_COL c * mult_seq_len m \<le> length input"
    "Suc col * MAX_ACT_COL c * mult_seq_len m \<le> length output"
    using block_bound [OF assms(4)] block_bound [OF assms(5)] shapes by (auto simp: shapes_ok_def)
  ultimately show ?thesis
    using processMultiplication_spec [OF sup assms(2) vals_len [unfolded tile_words_def]]
    by (simp add: tile_add_def)
qed

lemma sched_loop:
  assumes "ready s" "length output = L" and ab: "a \<le> b"
    and step: "\<And>i s output. a \<le> i \<Longrightarrow> i < b \<Longrightarrow> ready s \<Longrightarrow> length output = L \<Longrightarrow>
      \<exists>s'. body i (mk i (s, output)) = Some (mk (Suc i) (s', sched_result c m input (sch i) output)) \<and> ready s'"
  shows "\<exists>s'. for_list [a..<b] body (mk a (s, output)) =
      Some (mk b (s', sched_result c m input (concat (map sch [a..<b])) output)) \<and> ready s'"
proof -
  let ?I = "\<lambda>i x. \<exists>s'. x = mk i (s', sched_result c m input (concat (map sch [a..<i])) output) \<and> ready s'"
  have "\<exists>x. for_list [a..<b] body (mk a (s, output)) = Some x \<and> ?I b x"
  proof (rule for_up_rule [where I = ?I])
    show "?I a (mk a (s, output))" using assms(1) by auto
    fix i x assume i: "a \<le> i" "i < b" and "?I i x"
    then obtain s1 where "x = mk i (s1, sched_result c m input (concat (map sch [a..<i])) output)" "ready s1"
      by blast
    with step [OF i, of s1 "sched_result c m input (concat (map sch [a..<i])) output"] assms(2) i(1)
    show "\<exists>y. body i x = Some y \<and> ?I (Suc i) y" by auto
  qed (rule ab)
  then show ?thesis by auto
qed

text \<open>A loop over tiles in which iteration \<open>n\<close> either skips or multiplies tile \<open>n\<close>, and in both
  cases moves its pointers from \<open>q n\<close> to \<open>q (n + 1)\<close>.\<close>

lemma tile_loop:
  assumes sup: supported and "ready s" and shapes: "shapes_ok c m input (length output)" and ab: "a \<le> b"
    and body: "\<And>n st. a \<le> n \<Longrightarrow> n < b \<Longrightarrow> body n (st, q n) = (if vis n then do {
        st \<leftarrow> processMultiplication c ops (mult_seq_len m) input (row n) (col n) vals (vp n) st;
        Some (st, q (Suc n)) } else Some (st, q (Suc n)))"
    and fits: "\<And>n. a \<le> n \<Longrightarrow> n < b \<Longrightarrow> vis n \<Longrightarrow> row n < row_in_w c m \<and> col n < col_in_w c m \<and>
        vp n + tile_words c \<le> length vals \<and> (\<forall>k<tile_words c. vals ! (vp n + k) = tile n ! k)"
  shows "\<exists>s'. for_list [a..<b] body ((s, output), q a) =
      Some ((s', sched_result c m input (map (\<lambda>n. (row n, col n, tile n)) (filter vis [a..<b])) output), q b)
      \<and> ready s'"
proof -
  let ?sch = "\<lambda>n. if vis n then [(row n, col n, tile n)] else []"
  have step: "\<exists>s'. body n ((s, out), q n) = Some ((s', sched_result c m input (?sch n) out), q (Suc n)) \<and> ready s'"
    if n: "a \<le> n" "n < b" and s: "ready s" and len: "length out = length output" for n s out
  proof (cases "vis n")
    case True
    with fits [OF n True] process_tile [OF sup s, of m "input" out "row n" "col n" "vp n" vals "tile n"]
      body [OF n] shapes len show ?thesis by auto
  next
    case False
    with body [OF n] s show ?thesis by simp
  qed
  have "concat (map ?sch [a..<b]) = map (\<lambda>n. (row n, col n, tile n)) (filter vis [a..<b])"
    by (rule concat_map_if)
  with sched_loop [where mk = "\<lambda>n st. (st, q n)" and sch = ?sch and body = body, OF assms(2) refl ab step]
  show ?thesis by simp
qed

text \<open>A loop over a list of tiles, all of them multiplied.\<close>

lemma tile_list_loop:
  assumes sup: supported and "ready s" and shapes: "shapes_ok c m input (length output)"
    and fits: "\<And>x. x \<in> set xs \<Longrightarrow> row x < row_in_w c m \<and> col x < col_in_w c m \<and>
        vp x + tile_words c \<le> length vals \<and> (\<forall>k<tile_words c. vals ! (vp x + k) = tile x ! k)"
  shows "\<exists>s'. for_list xs (\<lambda>x. processMultiplication c ops (mult_seq_len m) input (row x) (col x) vals (vp x))
      (s, output) = Some (s', sched_result c m input (map (\<lambda>x. (row x, col x, tile x)) xs) output) \<and> ready s'"
  using assms(2) shapes fits
proof (induction xs arbitrary: s "output")
  case Nil
  then show ?case by simp
next
  case (Cons x xs)
  obtain s1 where s1: "processMultiplication c ops (mult_seq_len m) input (row x) (col x) vals (vp x) (s, output)
      = Some (s1, tile_add c (mult_seq_len m) input (row x, col x, tile x) output)" "ready s1"
    using process_tile [OF sup Cons.prems(1,2), of "row x" "col x" "vp x" vals "tile x"]
      Cons.prems(3) [of x] by auto
  with Cons.IH [OF s1(2)] Cons.prems(2,3) show ?case by simp
qed

end

end
