(* ===== verification/TiC_Formats.thy ===== *)
theory TiC_Formats
  imports TiC_Schedule
begin

text \<open>
  The readers of the storage formats. For each \<^verbatim>\<open>compute\<dots>\<close> method a predicate says what data of its
  format describe the tiles selected by \<open>P\<close> of a dense kernel, and a lemma shows that the
  method, given such data, multiplies exactly those tiles, in the order of its schedule, without
  leaving any array.
\<close>

subsection \<open>Data of the formats\<close>

definition tile_seg :: "('a::len, 'w::len) sa_cfg \<Rightarrow> 32 word list \<Rightarrow> (nat \<Rightarrow> bool) \<Rightarrow> nat \<Rightarrow> 32 word list" where
  "tile_seg c krn P n = (if P n then dense_tile c krn n else [])"

definition kernel_ok :: "('a::len, 'w::len) sa_cfg \<Rightarrow> multiplier \<Rightarrow> 32 word list \<Rightarrow> bool" where
  "kernel_ok c m krn \<longleftrightarrow> col_in_w c m * row_in_w c m * tile_words c \<le> length krn"

definition flag_data ::
  "('a::len, 'w::len) sa_cfg \<Rightarrow> multiplier \<Rightarrow> 32 word list \<Rightarrow> (nat \<Rightarrow> bool) \<Rightarrow> 32 word list \<Rightarrow> 32 word list \<Rightarrow> bool" where
  "flag_data c m krn P flag values \<longleftrightarrow> (let N = col_in_w c m * row_in_w c m in
     N \<le> 32 * length flag \<and> (\<forall>n<N. bit (flag ! (n div 32)) (31 - n mod 32) \<longleftrightarrow> \<not> P n) \<and>
     holds_segs values (tile_seg c krn P) N)"

definition hidden_seg ::
  "('a::len, 'w::len) sa_cfg \<Rightarrow> 32 word list \<Rightarrow> (nat \<Rightarrow> bool) \<Rightarrow> 32 word \<Rightarrow> nat \<Rightarrow> 32 word list" where
  "hidden_seg c krn P key n = (if P n then dense_tile c krn n else [key])"

definition hidden_data ::
  "('a::len, 'w::len) sa_cfg \<Rightarrow> multiplier \<Rightarrow> 32 word list \<Rightarrow> (nat \<Rightarrow> bool) \<Rightarrow> 32 word \<Rightarrow> 32 word list \<Rightarrow> bool" where
  "hidden_data c m krn P key values \<longleftrightarrow> (let N = col_in_w c m * row_in_w c m in
     (\<forall>n<N. P n \<longrightarrow> krn ! (n * tile_words c) \<noteq> key) \<and> holds_segs values (hidden_seg c krn P key) N)"

text \<open>Block column \<open>i\<close> has a selected tile, and the number of such columns before \<open>i\<close>.\<close>

definition col_used :: "nat \<Rightarrow> (nat \<Rightarrow> bool) \<Rightarrow> nat \<Rightarrow> bool" where
  "col_used R P i \<longleftrightarrow> (\<exists>j<R. P (mem2d R i j))"

definition used_before :: "nat \<Rightarrow> (nat \<Rightarrow> bool) \<Rightarrow> nat \<Rightarrow> nat" where
  "used_before R P i = length (filter (col_used R P) [0..<i])"

definition meta_data ::
  "('a::len, 'w::len) sa_cfg \<Rightarrow> multiplier \<Rightarrow> 32 word list \<Rightarrow> (nat \<Rightarrow> bool)
     \<Rightarrow> 32 word list \<Rightarrow> 32 word list \<Rightarrow> 32 word list \<Rightarrow> bool" where
  "meta_data c m krn P m1 m2 values \<longleftrightarrow> (let R = row_in_w c m; C = col_in_w c m in
     C \<le> length m1 \<and> used_before R P C * R \<le> length m2 \<and>
     (\<forall>i<C. m1 ! i \<noteq> 0 \<longleftrightarrow> col_used R P i) \<and>
     (\<forall>i<C. col_used R P i \<longrightarrow> (\<forall>j<R. m2 ! mem2d R (used_before R P i) j \<noteq> 0 \<longleftrightarrow> P (mem2d R i j))) \<and>
     holds_segs values (tile_seg c krn P) (C * R))"

text \<open>
  A block of the interleaved format: the distance to the next block, one bit of metadata per tile of the
  column, counted from bit \<open>off\<close> of the first metadata word, and the selected tiles.
\<close>

definition block_tiles ::
  "('a::len, 'w::len) sa_cfg \<Rightarrow> nat \<Rightarrow> 32 word list \<Rightarrow> (nat \<Rightarrow> bool) \<Rightarrow> nat \<Rightarrow> nat \<Rightarrow> 32 word list" where
  "block_tiles c R krn P i n = concat (map (\<lambda>j. tile_seg c krn P (mem2d R i j)) [0..<n])"

definition interleaved_seg ::
  "('a::len, 'w::len) sa_cfg \<Rightarrow> nat \<Rightarrow> 32 word list \<Rightarrow> (nat \<Rightarrow> bool) \<Rightarrow> (nat \<Rightarrow> 32 word list) \<Rightarrow> nat \<Rightarrow> 32 word list" where
  "interleaved_seg c R krn P meta i =
     word_of_nat (1 + length (meta i) + length (block_tiles c R krn P i R)) # meta i @ block_tiles c R krn P i R"

definition interleaved_data ::
  "('a::len, 'w::len) sa_cfg \<Rightarrow> multiplier \<Rightarrow> 32 word list \<Rightarrow> (nat \<Rightarrow> bool) \<Rightarrow> nat
     \<Rightarrow> (nat \<Rightarrow> 32 word list) \<Rightarrow> 32 word list \<Rightarrow> bool" where
  "interleaved_data c m krn P off meta values \<longleftrightarrow> (let R = row_in_w c m; C = col_in_w c m in
     (\<forall>i<C. length (meta i) = (R + 31) div 32 \<and> length (interleaved_seg c R krn P meta i) < 2 ^ 32 \<and>
        (\<forall>j<R. (off + j) div 32 < length (meta i) \<and>
           (bit (meta i ! ((off + j) div 32)) ((off + j) mod 32) \<longleftrightarrow> P (mem2d R i j)))) \<and>
     holds_segs values (interleaved_seg c R krn P meta) C)"

text \<open>Compressed indices: \<open>P i\<close> selects the inner indices below \<open>Q\<close> of the outer index \<open>i\<close>.\<close>

definition sel :: "(nat \<Rightarrow> nat \<Rightarrow> bool) \<Rightarrow> nat \<Rightarrow> nat \<Rightarrow> nat list" where
  "sel P Q i = filter (P i) [0..<Q]"

definition compressed_data ::
  "(nat \<Rightarrow> nat \<Rightarrow> bool) \<Rightarrow> nat \<Rightarrow> nat \<Rightarrow> (nat \<Rightarrow> nat \<Rightarrow> nat) \<Rightarrow> nat list \<Rightarrow> nat list \<Rightarrow> nat list \<Rightarrow> bool" where
  "compressed_data P outer Q off ptr ind values \<longleftrightarrow>
     outer < length ptr \<and> (\<forall>i\<le>outer. ptr ! i = seg_off (sel P Q) i) \<and>
     holds_segs ind (sel P Q) outer \<and> holds_segs values (\<lambda>i. map (off i) (sel P Q i)) outer"

definition csr_data ::
  "('a::len, 'w::len) sa_cfg \<Rightarrow> multiplier \<Rightarrow> (nat \<Rightarrow> bool) \<Rightarrow> nat list \<Rightarrow> nat list \<Rightarrow> nat list \<Rightarrow> bool" where
  "csr_data c m P col_ind row_ptr values \<longleftrightarrow> (let R = row_in_w c m; C = col_in_w c m in
     compressed_data (\<lambda>i j. P (mem2d R j i)) R C (\<lambda>i j. mem2d R j i * tile_words c) row_ptr col_ind values)"

definition csc_data ::
  "('a::len, 'w::len) sa_cfg \<Rightarrow> multiplier \<Rightarrow> (nat \<Rightarrow> bool) \<Rightarrow> nat list \<Rightarrow> nat list \<Rightarrow> nat list \<Rightarrow> bool" where
  "csc_data c m P col_ptr row_ind values \<longleftrightarrow> (let R = row_in_w c m; C = col_in_w c m in
     compressed_data (\<lambda>i j. P (mem2d R i j)) C R (\<lambda>i j. mem2d R i j * tile_words c) col_ptr row_ind values)"

definition csr_sched ::
  "('a::len, 'w::len) sa_cfg \<Rightarrow> multiplier \<Rightarrow> 32 word list \<Rightarrow> (nat \<Rightarrow> bool) \<Rightarrow> tile_op list" where
  "csr_sched c m krn P = (let R = row_in_w c m; C = col_in_w c m in
     concat (map (\<lambda>i. map (\<lambda>j. (i, j, dense_tile c krn (mem2d R j i)))
       (sel (\<lambda>i j. P (mem2d R j i)) C i)) [0..<R]))"

subsection \<open>Arithmetic of the linear tile index\<close>

lemma lin_bounds: "n < C * R \<Longrightarrow> n mod R < R \<and> n div R < (C::nat)"
  by (cases R) (auto simp: less_mult_imp_div_less)

lemma kernel_tile_fits:
  assumes "kernel_ok c m krn" "n < col_in_w c m * row_in_w c m"
  shows "n * tile_words c + tile_words c \<le> length krn"
    "\<forall>k<tile_words c. krn ! (n * tile_words c + k) = dense_tile c krn n ! k"
    "length (dense_tile c krn n) = tile_words c"
proof -
  have "n * tile_words c + tile_words c \<le> length krn"
    using assms by (intro tile_bound [of n "col_in_w c m * row_in_w c m"]) (simp_all add: kernel_ok_def)
  then show "n * tile_words c + tile_words c \<le> length krn"
    "\<forall>k<tile_words c. krn ! (n * tile_words c + k) = dense_tile c krn n ! k"
    "length (dense_tile c krn n) = tile_words c"
    by (simp_all add: nth_dense_tile length_dense_tile)
qed

lemma stream_tile_fits:
  assumes "holds_segs values f N" "n < N" "f n = dense_tile c krn n" "length (dense_tile c krn n) = tile_words c"
  shows "seg_off f n + tile_words c \<le> length values"
    "\<forall>k<tile_words c. values ! (seg_off f n + k) = dense_tile c krn n ! k"
proof -
  have "seg_off f n + tile_words c \<le> seg_off f N" using seg_off_bound [OF assms(2), of f] assms(3,4) by simp
  also have "\<dots> \<le> length values" using assms(1) by (simp add: holds_segs_def)
  finally show "seg_off f n + tile_words c \<le> length values" .
  show "\<forall>k<tile_words c. values ! (seg_off f n + k) = dense_tile c krn n ! k"
    using holds_segs_nth(2) [OF assms(1,2)] assms(3,4) by simp
qed

lemma tile_words_pos: "cfg_ok c \<Longrightarrow> 0 < tile_words c"
  by (simp add: tile_words_def cfg_okD)

lemma bit_msb: "bit (0x80000000 :: 32 word) k \<longleftrightarrow> k = 31"
  using bit_exp_iff [where 'a = "32 word", of 31 k] by auto

lemma msb_flag:
  assumes "n < 32"
  shows "(f :: 32 word) AND drop_bit n 0x80000000 \<noteq> 0 \<longleftrightarrow> bit f (31 - n)"
proof -
  have *: "bit (f AND drop_bit n 0x80000000) k \<longleftrightarrow> k = 31 - n \<and> bit f (31 - n)" for k
  proof -
    have "n + k = 31 \<longleftrightarrow> k = 31 - n" using assms by arith
    then show ?thesis by (auto simp only: bit_and_iff bit_drop_bit_eq bit_msb o_def)
  qed
  have "31 - n < 32" by arith
  then show ?thesis unfolding bit_eq_iff [of _ "0 :: 32 word"] * by simp
qed

lemma tile_sched_columns:
  "tile_sched c m krn P = concat (map (\<lambda>i. map (\<lambda>j. (j, i, dense_tile c krn (mem2d (row_in_w c m) i j)))
     (filter (\<lambda>j. P (mem2d (row_in_w c m) i j)) [0..<row_in_w c m])) [0..<col_in_w c m])"
proof -
  let ?R = "row_in_w c m"
  have "map (lin_op c ?R krn) (filter P (map (mem2d ?R i) [0..<?R])) =
      map (\<lambda>j. (j, i, dense_tile c krn (mem2d ?R i j))) (filter (\<lambda>j. P (mem2d ?R i j)) [0..<?R])" for i
    by (auto simp: filter_map o_def lin_op_def)
  then show ?thesis
    unfolding tile_sched_def upt_mult_concat by (simp add: filter_concat map_concat o_def)
qed

lemma used_before_Suc [simp]: "used_before R P (Suc i) = used_before R P i + (if col_used R P i then 1 else 0)"
  by (simp add: used_before_def)

lemma used_before_mono: "i \<le> k \<Longrightarrow> used_before R P i \<le> used_before R P k"
  by (induction k) (auto simp: le_Suc_eq)

lemma meta_used:
  assumes "meta_data c m krn P m1 m2 values" "i < col_in_w c m" "col_used (row_in_w c m) P i" "j < row_in_w c m"
  shows "used_before (row_in_w c m) P i * row_in_w c m + j < length m2 \<and>
    (m2 ! (used_before (row_in_w c m) P i * row_in_w c m + j) \<noteq> 0 \<longleftrightarrow> P (mem2d (row_in_w c m) i j))"
proof -
  let ?R = "row_in_w c m"
  have "used_before ?R P i < used_before ?R P (col_in_w c m)"
    using used_before_mono [of "Suc i" "col_in_w c m" ?R P] assms(2,3) by simp
  then have "mem2d ?R (used_before ?R P i) j < used_before ?R P (col_in_w c m) * ?R"
    using assms(4) by (rule mem2d_less)
  with assms show ?thesis by (auto simp: meta_data_def Let_def mem2d_def)
qed

lemma unused_col:
  assumes "\<not> col_used R P i"
  shows "filter (\<lambda>j. P (mem2d R i j)) [0..<R] = []"
    and "seg_off (tile_seg c krn P) (Suc i * R) = seg_off (tile_seg c krn P) (i * R)"
proof -
  show "filter (\<lambda>j. P (mem2d R i j)) [0..<R] = []"
    using assms by (auto simp: filter_empty_conv col_used_def)
  have "seg_off (tile_seg c krn P) (mem2d R i j) = seg_off (tile_seg c krn P) (i * R)" if "j \<le> R" for j
    using that
  proof (induction j)
    case 0
    then show ?case by (simp add: mem2d_def)
  next
    case (Suc j)
    then have "\<not> P (mem2d R i j)" using assms by (auto simp: col_used_def)
    with Suc show ?case by (simp add: mem2d_def tile_seg_def)
  qed
  from this [of R] show "seg_off (tile_seg c krn P) (Suc i * R) = seg_off (tile_seg c krn P) (i * R)"
    by (simp add: mem2d_def add.commute)
qed

lemma interleaved_position:
  assumes "32 * md + cnt = 32 * md0 + p" "cnt \<le> (32::nat)"
  shows "(if cnt = 32 then md + 1 else md) = md0 + p div 32 \<and> (if cnt = 32 then 0 else cnt) = p mod 32"
proof -
  have "(32 * md + cnt) div 32 = md0 + p div 32" "(32 * md + cnt) mod 32 = p mod 32"
    unfolding assms(1) by simp_all
  moreover have "(32 * md + cnt) div 32 = md + cnt div 32" "(32 * md + cnt) mod 32 = cnt mod 32"
    by simp_all
  ultimately show ?thesis using assms(2) by (cases "cnt = 32") auto
qed

lemma vpos_mono:
  assumes "\<And>j. j < (R::nat) \<Longrightarrow> vpos (Suc j) = vpos j + (if P j then t else (0::nat))" "a \<le> b" "b \<le> R"
  shows "vpos a \<le> vpos b"
  using assms(2,3)
proof (induction b)
  case 0
  then show ?case by simp
next
  case (Suc b)
  then show ?case using assms(1) [of b] by (cases "a = Suc b") auto
qed

lemma vpos_less:
  assumes "\<And>j. j < (R::nat) \<Longrightarrow> vpos (Suc j) = vpos j + (if P j then t else (0::nat))"
    and "r \<le> j" "j < R" "P j" "0 < t"
  shows "vpos r < vpos R"
proof -
  note mono = vpos_mono [where R = R and vpos = vpos and P = P and t = t, OF assms(1)]
  have "vpos r \<le> vpos j" "vpos (Suc j) \<le> vpos R" using mono assms(2,3) by auto
  with assms(1) [OF assms(3)] assms(4,5) show ?thesis by simp
qed

lemma block_tiles_nth:
  assumes "j < R" "P (mem2d R i j)" "length (dense_tile c krn (mem2d R i j)) = tile_words c"
  shows "length (block_tiles c R krn P i j) + tile_words c \<le> length (block_tiles c R krn P i R)"
    "k < tile_words c \<Longrightarrow>
      block_tiles c R krn P i R ! (length (block_tiles c R krn P i j) + k) = dense_tile c krn (mem2d R i j) ! k"
proof -
  let ?g = "\<lambda>j. tile_seg c krn P (mem2d R i j)"
  have g: "?g j = dense_tile c krn (mem2d R i j)" using assms(2) by (simp add: tile_seg_def)
  have off: "length (block_tiles c R krn P i n) = seg_off ?g n" for n
    by (simp add: block_tiles_def seg_off_def)
  show "length (block_tiles c R krn P i j) + tile_words c \<le> length (block_tiles c R krn P i R)"
    using seg_off_bound [OF assms(1), of ?g] g assms(3) by (simp add: off)
  have "holds_segs (block_tiles c R krn P i R) ?g R"
    by (simp add: holds_segs_def off) (simp add: block_tiles_def seg_off_def)
  from holds_segs_nth(2) [OF this assms(1)] g assms(3)
  show "k < tile_words c \<Longrightarrow>
      block_tiles c R krn P i R ! (length (block_tiles c R krn P i j) + k) = dense_tile c krn (mem2d R i j) ! k"
    by (simp add: off)
qed

subsection \<open>The readers run their schedules\<close>

context systolic_driver
begin

lemma computeNonPruned_run:
  assumes "supported" "ready s" "shapes_ok c m input (length output)" "kernel_ok c m krn"
  shows "\<exists>s'. computeNonPruned c ops m input krn (s, output) =
    Some (s', sched_result c m input (dense_sched c m krn) output) \<and> ready s'"
proof -
  let ?R = "row_in_w c m" and ?C = "col_in_w c m" and ?t = "tile_words c"
  let ?body = "\<lambda>i j (st, vp). do {
      st \<leftarrow> processMultiplication c ops (mult_seq_len m) input j i krn vp st; Some (st, vp + ?t) }"
  have "\<exists>s'. for_list [0..<?C * ?R] (\<lambda>n. ?body (n div ?R) (n mod ?R)) ((s, output), 0 * ?t) =
      Some ((s', sched_result c m input (map (\<lambda>n. (n mod ?R, n div ?R, dense_tile c krn n))
        (filter (\<lambda>_. True) [0..<?C * ?R])) output), ?C * ?R * ?t) \<and> ready s'"
    using kernel_tile_fits [OF assms(4)] lin_bounds
    by (intro tile_loop [where q = "\<lambda>n. n * ?t" and vp = "\<lambda>n. n * ?t" and vals = krn, OF assms(1-3)])
      (auto simp: add.commute)
  then show ?thesis
    unfolding computeNonPruned_def for_list_nest tile_sched_def lin_op_def by auto
qed

lemma computeDynamic_run:
  assumes "supported" "ready s" "shapes_ok c m input (length output)" "kernel_ok c m krn"
  shows "\<exists>s'. computeDynamic c ops m input krn (s, output) =
    Some (s', sched_result c m input (tile_sched c m krn (\<lambda>n. \<exists>v \<in> set (dense_tile c krn n). v \<noteq> 0)) output)
    \<and> ready s'"
proof -
  let ?R = "row_in_w c m" and ?C = "col_in_w c m" and ?t = "tile_words c"
  let ?P = "\<lambda>n. \<exists>v \<in> set (dense_tile c krn n). v \<noteq> 0"
  let ?scan = "\<lambda>vp. for_brk [0..<?t] (\<lambda>z. \<not> z)
      (\<lambda>k z. do { v \<leftarrow> rd krn (vp + k); Some (if v \<noteq> 0 then False else z) }) True"
  let ?body = "\<lambda>i j (st, vp). do {
      z \<leftarrow> ?scan vp;
      if z then Some (st, vp + ?t) else do {
        st \<leftarrow> processMultiplication c ops (mult_seq_len m) input j i krn vp st; Some (st, vp + ?t) } }"
  have scan: "?scan (n * ?t) = Some (\<not> ?P n)" if n: "n < ?C * ?R" for n
  proof -
    have "?scan (n * ?t) = Some (\<not> (\<exists>k \<in> set [0..<?t]. krn ! (n * ?t + k) \<noteq> 0))"
      using kernel_tile_fits(1) [OF assms(4) n] by (intro for_brk_search) auto
    also have "(\<exists>k \<in> set [0..<?t]. krn ! (n * ?t + k) \<noteq> 0) \<longleftrightarrow> ?P n"
      using kernel_tile_fits(2,3) [OF assms(4) n] by (auto simp: Bex_def in_set_conv_nth)
    finally show ?thesis .
  qed
  have "\<exists>s'. for_list [0..<?C * ?R] (\<lambda>n. ?body (n div ?R) (n mod ?R)) ((s, output), 0 * ?t) =
      Some ((s', sched_result c m input (map (\<lambda>n. (n mod ?R, n div ?R, dense_tile c krn n))
        (filter ?P [0..<?C * ?R])) output), ?C * ?R * ?t) \<and> ready s'"
    using kernel_tile_fits [OF assms(4)] lin_bounds scan
    by (intro tile_loop [where q = "\<lambda>n. n * ?t" and vp = "\<lambda>n. n * ?t" and vals = krn, OF assms(1-3)])
      (auto simp: add.commute)
  then show ?thesis
    unfolding computeDynamic_def for_list_nest tile_sched_def lin_op_def by auto
qed

lemma computeWithFlag_run:
  assumes "supported" "ready s" "shapes_ok c m input (length output)" "kernel_ok c m krn"
    and data: "flag_data c m krn P flag values"
  shows "\<exists>s'. computeWithFlag c ops m input flag values (s, output) =
    Some (s', sched_result c m input (tile_sched c m krn P) output) \<and> ready s'"
proof -
  let ?R = "row_in_w c m" and ?C = "col_in_w c m" and ?t = "tile_words c" and ?f = "tile_seg c krn P"
  let ?q = "\<lambda>n. ((n - 1) div 32, if n = 0 then 0 else (n - 1) mod 32 + 1, seg_off ?f n)"
  let ?body = "\<lambda>i j (st, fp, counter, vp). do {
      let fp = (if counter = 32 then fp + 1 else fp);
      let counter = (if counter = 32 then 0 else counter);
      f \<leftarrow> rd flag fp;
      if f AND drop_bit counter 0x80000000 \<noteq> 0 then Some (st, fp, counter + 1, vp) else do {
        st \<leftarrow> processMultiplication c ops (mult_seq_len m) input j i values vp st;
        Some (st, fp, counter + 1, vp + ?t) } }"
  have segs: "holds_segs values ?f (?C * ?R)" using data by (simp add: flag_data_def Let_def)
  have pos: "((n - 1) mod 32 + 1 = 32 \<longrightarrow> (n - 1) div 32 + 1 = n div 32 \<and> n mod 32 = 0) \<and>
      ((n - 1) mod 32 + 1 \<noteq> 32 \<longrightarrow> (n - 1) div 32 = n div 32 \<and> (n - 1) mod 32 + 1 = n mod 32)"
    if "0 < n" for n :: nat
    using that by (cases n) (auto simp: div_Suc mod_Suc)
  have body: "?body i j (st, ?q n) = (if P n then do {
        st \<leftarrow> processMultiplication c ops (mult_seq_len m) input j i values (seg_off ?f n) st;
        Some (st, ?q (Suc n)) } else Some (st, ?q (Suc n)))" if n: "n < ?C * ?R" for n i j st
  proof -
    have "n div 32 < length flag" "bit (flag ! (n div 32)) (31 - n mod 32) \<longleftrightarrow> \<not> P n"
      using data n by (auto simp: flag_data_def Let_def)
    then show ?thesis using pos [of n] msb_flag [of "n mod 32" "flag ! (n div 32)"]
        kernel_tile_fits(3) [OF assms(4) n]
      by (cases "n = 0") (auto simp: arr_simps Let_def tile_seg_def)
  qed
  have "\<exists>s'. for_list [0..<?C * ?R] (\<lambda>n. ?body (n div ?R) (n mod ?R)) ((s, output), ?q 0) =
      Some ((s', sched_result c m input (map (\<lambda>n. (n mod ?R, n div ?R, dense_tile c krn n))
        (filter P [0..<?C * ?R])) output), ?q (?C * ?R)) \<and> ready s'"
  proof (rule tile_loop [where q = ?q and vp = "seg_off ?f" and vals = "values", OF assms(1-3)])
    fix n assume n: "n < ?C * ?R" and P: "P n"
    then have "?f n = dense_tile c krn n" by (simp add: tile_seg_def)
    from lin_bounds [OF n] stream_tile_fits [OF segs n this kernel_tile_fits(3) [OF assms(4) n]]
    show "n mod ?R < ?R \<and> n div ?R < ?C \<and> seg_off ?f n + ?t \<le> length values \<and>
      (\<forall>k<?t. values ! (seg_off ?f n + k) = dense_tile c krn n ! k)" by blast
  next
    fix n st assume "n < ?C * ?R"
    then show "?body (n div ?R) (n mod ?R) (st, ?q n) = (if P n then do {
        st \<leftarrow> processMultiplication c ops (mult_seq_len m) input (n mod ?R) (n div ?R) values (seg_off ?f n) st;
        Some (st, ?q (Suc n)) } else Some (st, ?q (Suc n)))" by (rule body)
  qed simp
  then show ?thesis
    unfolding computeWithFlag_def for_list_nest tile_sched_def lin_op_def by auto
qed

lemma computeHiddenKey_run:
  assumes "supported" "ready s" "shapes_ok c m input (length output)" "kernel_ok c m krn"
    and data: "hidden_data c m krn P key values"
  shows "\<exists>s'. computeHiddenKey c ops m input (key # rest) values (s, output) =
    Some (s', sched_result c m input (tile_sched c m krn P) output) \<and> ready s'"
proof -
  let ?R = "row_in_w c m" and ?C = "col_in_w c m" and ?t = "tile_words c" and ?f = "hidden_seg c krn P key"
  let ?body = "\<lambda>i j (st, vp). do {
      key \<leftarrow> rd (key # rest) 0;
      v \<leftarrow> rd values vp;
      if key = v then Some (st, vp + 1) else do {
        st \<leftarrow> processMultiplication c ops (mult_seq_len m) input j i values vp st;
        Some (st, vp + ?t) } }"
  have segs: "holds_segs values ?f (?C * ?R)" using data by (simp add: hidden_data_def Let_def)
  have t0: "0 < ?t" by (rule tile_words_pos [OF supported_ok [OF assms(1)]])
  have body: "?body i j (st, seg_off ?f n) = (if P n then do {
        st \<leftarrow> processMultiplication c ops (mult_seq_len m) input j i values (seg_off ?f n) st;
        Some (st, seg_off ?f (Suc n)) } else Some (st, seg_off ?f (Suc n)))" if n: "n < ?C * ?R" for n i j st
  proof (cases "P n")
    case True
    have "dense_tile c krn n ! 0 \<noteq> key"
      using data n True kernel_tile_fits(2) [OF assms(4) n] t0 by (auto simp: hidden_data_def Let_def)
    with True t0 holds_segs_nth [OF segs n, of 0] kernel_tile_fits(3) [OF assms(4) n]
    show ?thesis by (auto simp: hidden_seg_def arr_simps)
  next
    case False
    with holds_segs_nth [OF segs n, of 0] show ?thesis by (auto simp: hidden_seg_def arr_simps)
  qed
  have "\<exists>s'. for_list [0..<?C * ?R] (\<lambda>n. ?body (n div ?R) (n mod ?R)) ((s, output), seg_off ?f 0) =
      Some ((s', sched_result c m input (map (\<lambda>n. (n mod ?R, n div ?R, dense_tile c krn n))
        (filter P [0..<?C * ?R])) output), seg_off ?f (?C * ?R)) \<and> ready s'"
  proof (rule tile_loop [where q = "seg_off ?f" and vp = "seg_off ?f" and vals = "values", OF assms(1-3)])
    fix n assume n: "n < ?C * ?R" and P: "P n"
    then have "?f n = dense_tile c krn n" by (simp add: hidden_seg_def)
    from lin_bounds [OF n] stream_tile_fits [OF segs n this kernel_tile_fits(3) [OF assms(4) n]]
    show "n mod ?R < ?R \<and> n div ?R < ?C \<and> seg_off ?f n + ?t \<le> length values \<and>
      (\<forall>k<?t. values ! (seg_off ?f n + k) = dense_tile c krn n ! k)" by blast
  next
    fix n st assume "n < ?C * ?R"
    then show "?body (n div ?R) (n mod ?R) (st, seg_off ?f n) = (if P n then do {
        st \<leftarrow> processMultiplication c ops (mult_seq_len m) input (n mod ?R) (n div ?R) values (seg_off ?f n) st;
        Some (st, seg_off ?f (Suc n)) } else Some (st, seg_off ?f (Suc n)))" by (rule body)
  qed simp
  then show ?thesis
    unfolding computeHiddenKey_def for_list_nest tile_sched_def lin_op_def by auto
qed

text \<open>The compressed formats: the loop over the positions of an outer index is a loop over its
  selected inner indices.\<close>

lemma compressed_loop:
  assumes "supported" "ready s" "shapes_ok c m input (length output)" "kernel_ok c m krn"
    and data: "compressed_data P outer Q off ptr ind vals"
    and lin: "\<And>i j. i < outer \<Longrightarrow> j < Q \<Longrightarrow> P i j \<Longrightarrow> row i j < row_in_w c m \<and> col i j < col_in_w c m \<and>
      off i j = mem2d (row_in_w c m) (col i j) (row i j) * tile_words c"
  shows "\<exists>s'. for_list [0..<outer] (\<lambda>i st. do {
      lo \<leftarrow> rd ptr i; hi \<leftarrow> rd ptr (i + 1);
      for_list [lo..<hi] (\<lambda>p st. do {
        j \<leftarrow> rd ind p; v \<leftarrow> rd vals p;
        processMultiplication c ops (mult_seq_len m) input (row i j) (col i j) krn v st }) st }) (s, output) =
    Some (s', sched_result c m input (concat (map (\<lambda>i. map (\<lambda>j. (row i j, col i j,
      dense_tile c krn (mem2d (row_in_w c m) (col i j) (row i j)))) (sel P Q i)) [0..<outer])) output) \<and> ready s'"
proof (rule sched_loop [where mk = "\<lambda>_ st. st", OF assms(2) refl])
  fix i s and out :: "32 word list" assume i: "i < outer" and s: "ready s" and len: "length out = length output"
  let ?R = "row_in_w c m"
  have ptr: "rd ptr i = Some (seg_off (sel P Q) i)" "rd ptr (i + 1) = Some (seg_off (sel P Q) (Suc i))"
    using data i by (auto simp: compressed_data_def arr_simps simp del: seg_off_Suc)
  have segs: "holds_segs ind (sel P Q) outer" "holds_segs vals (\<lambda>i. map (off i) (sel P Q i)) outer"
    using data by (auto simp: compressed_data_def)
  have "\<exists>s'. for_list (sel P Q i) (\<lambda>j. processMultiplication c ops (mult_seq_len m) input (row i j) (col i j) krn (off i j))
      (s, out) = Some (s', sched_result c m input (map (\<lambda>j. (row i j, col i j,
        dense_tile c krn (mem2d ?R (col i j) (row i j)))) (sel P Q i)) out) \<and> ready s'"
  proof (rule tile_list_loop [OF assms(1) s])
    show "shapes_ok c m input (length out)" using assms(3) len by simp
    fix j assume "j \<in> set (sel P Q i)"
    then have j: "j < Q" "P i j" by (auto simp: sel_def)
    from lin [OF i j] have "mem2d ?R (col i j) (row i j) < col_in_w c m * ?R" by (auto intro: mem2d_less)
    from kernel_tile_fits [OF assms(4) this] lin [OF i j]
    show "row i j < ?R \<and> col i j < col_in_w c m \<and> off i j + tile_words c \<le> length krn \<and>
      (\<forall>k<tile_words c. krn ! (off i j + k) = dense_tile c krn (mem2d ?R (col i j) (row i j)) ! k)" by simp
  qed
  then show "\<exists>s'. do { lo \<leftarrow> rd ptr i; hi \<leftarrow> rd ptr (i + 1);
      for_list [lo..<hi] (\<lambda>p st. do {
        j \<leftarrow> rd ind p; v \<leftarrow> rd vals p;
        processMultiplication c ops (mult_seq_len m) input (row i j) (col i j) krn v st }) (s, out) } =
    Some (s', sched_result c m input (map (\<lambda>j. (row i j, col i j,
      dense_tile c krn (mem2d ?R (col i j) (row i j)))) (sel P Q i)) out) \<and> ready s'"
    unfolding ptr bind.bind_lunit using for_list_seg [OF segs i, where h = off
        and X = "\<lambda>j. processMultiplication c ops (mult_seq_len m) input (row i j) (col i j) krn"]
    by (simp del: seg_off_Suc)
qed simp

lemma computeCSR_run:
  assumes "supported" "ready s" "shapes_ok c m input (length output)" "kernel_ok c m krn"
    and data: "csr_data c m P col_ind row_ptr vals"
  shows "\<exists>s'. computeCSR c ops m input col_ind row_ptr krn vals (s, output) =
    Some (s', sched_result c m input (csr_sched c m krn P) output) \<and> ready s'"
  unfolding computeCSR_def csr_sched_def Let_def
  by (rule compressed_loop [where row = "\<lambda>i j. i" and col = "\<lambda>i j. j", OF assms(1-4) data [unfolded csr_data_def Let_def]])
    simp

lemma computeCSC_run:
  assumes "supported" "ready s" "shapes_ok c m input (length output)" "kernel_ok c m krn"
    and data: "csc_data c m P col_ptr row_ind vals"
  shows "\<exists>s'. computeCSC c ops m input col_ptr row_ind krn vals (s, output) =
    Some (s', sched_result c m input (tile_sched c m krn P) output) \<and> ready s'"
  unfolding computeCSC_def tile_sched_columns
  using compressed_loop [where row = "\<lambda>i j. j" and col = "\<lambda>i j. i", OF assms(1-4) data [unfolded csc_data_def Let_def]]
  by (simp add: sel_def)

lemma metadata_column:
  assumes "supported" "ready s" "shapes_ok c m input (length output)" "kernel_ok c m krn"
    and i: "i < col_in_w c m"
    and segs: "holds_segs values (tile_seg c krn P) (col_in_w c m * row_in_w c m)"
    and m2: "\<And>j. j < row_in_w c m \<Longrightarrow> b + j < length m2 \<and> (m2 ! (b + j) \<noteq> 0 \<longleftrightarrow> P (mem2d (row_in_w c m) i j))"
  shows "\<exists>s'. for_list [0..<row_in_w c m] (\<lambda>j (st, p2, vp). do {
      w \<leftarrow> rd m2 p2;
      if w = 0 then Some (st, p2 + 1, vp) else do {
        st \<leftarrow> processMultiplication c ops (mult_seq_len m) input j i values vp st;
        Some (st, p2 + 1, vp + tile_words c)
      }
    }) ((s, output), b, seg_off (tile_seg c krn P) (i * row_in_w c m)) =
    Some ((s', sched_result c m input (map (\<lambda>j. (j, i, dense_tile c krn (mem2d (row_in_w c m) i j)))
        (filter (\<lambda>j. P (mem2d (row_in_w c m) i j)) [0..<row_in_w c m])) output),
      b + row_in_w c m, seg_off (tile_seg c krn P) (Suc i * row_in_w c m)) \<and> ready s'"
proof -
  let ?R = "row_in_w c m" and ?t = "tile_words c" and ?f = "tile_seg c krn P"
  let ?q = "\<lambda>j. (b + j, seg_off ?f (mem2d ?R i j))"
  let ?body = "\<lambda>j (st, p2, vp). do {
      w \<leftarrow> rd m2 p2;
      if w = 0 then Some (st, p2 + 1, vp) else do {
        st \<leftarrow> processMultiplication c ops (mult_seq_len m) input j i values vp st;
        Some (st, p2 + 1, vp + ?t)
      }
    }"
  have lt: "mem2d ?R i j < col_in_w c m * ?R" if "j < ?R" for j using that i by (rule_tac mem2d_less)
  have Suc: "mem2d ?R i (Suc j) = Suc (mem2d ?R i j)" for j by (simp add: mem2d_def)
  have "\<exists>s'. for_list [0..<?R] ?body ((s, output), ?q 0) =
      Some ((s', sched_result c m input (map (\<lambda>j. (j, i, dense_tile c krn (mem2d ?R i j)))
        (filter (\<lambda>j. P (mem2d ?R i j)) [0..<?R])) output), ?q ?R) \<and> ready s'"
  proof (rule tile_loop [where q = ?q and vp = "\<lambda>j. seg_off ?f (mem2d ?R i j)" and vals = "values", OF assms(1-3)])
    fix j assume j: "j < ?R" and P: "P (mem2d ?R i j)"
    then have "?f (mem2d ?R i j) = dense_tile c krn (mem2d ?R i j)" by (simp add: tile_seg_def)
    from stream_tile_fits [OF segs lt [OF j] this kernel_tile_fits(3) [OF assms(4) lt [OF j]]] i j
    show "j < ?R \<and> i < col_in_w c m \<and> seg_off ?f (mem2d ?R i j) + ?t \<le> length values \<and>
      (\<forall>k<?t. values ! (seg_off ?f (mem2d ?R i j) + k) = dense_tile c krn (mem2d ?R i j) ! k)" by blast
  next
    fix j st assume j: "j < ?R"
    from m2 [OF j] kernel_tile_fits(3) [OF assms(4) lt [OF j]]
    show "?body j (st, ?q j) = (if P (mem2d ?R i j) then do {
        st \<leftarrow> processMultiplication c ops (mult_seq_len m) input j i values (seg_off ?f (mem2d ?R i j)) st;
        Some (st, ?q (Suc j)) } else Some (st, ?q (Suc j)))"
      by (auto simp: arr_simps tile_seg_def Suc)
  qed simp
  then show ?thesis by (simp add: mem2d_def add.commute)
qed

lemma computeMetaData_run:
  assumes "supported" "ready s" "shapes_ok c m input (length output)" "kernel_ok c m krn"
    and data: "meta_data c m krn P m1 m2 values"
  shows "\<exists>s'. computeMetaData c ops m input m1 m2 values (s, output) =
    Some (s', sched_result c m input (tile_sched c m krn P) output) \<and> ready s'"
proof -
  let ?R = "row_in_w c m" and ?C = "col_in_w c m" and ?t = "tile_words c" and ?f = "tile_seg c krn P"
  let ?U = "used_before ?R P"
  let ?mk = "\<lambda>i st. (st, i, ?U i * ?R, seg_off ?f (i * ?R))"
  let ?body = "\<lambda>i (st, p1, p2, vp). do {
       a \<leftarrow> rd m1 p1;
       if a = 0 then Some (st, p1 + 1, p2, vp) else do {
         (st, p2, vp) \<leftarrow> for_list [0..<?R] (\<lambda>j (st, p2, vp). do {
           b \<leftarrow> rd m2 p2;
           if b = 0 then Some (st, p2 + 1, vp) else do {
             st \<leftarrow> processMultiplication c ops (mult_seq_len m) input j i values vp st;
             Some (st, p2 + 1, vp + ?t)
           }
         }) (st, p2, vp);
         Some (st, p1 + 1, p2, vp)
       }
     }"
  let ?sch = "\<lambda>i. map (\<lambda>j. (j, i, dense_tile c krn (mem2d ?R i j))) (filter (\<lambda>j. P (mem2d ?R i j)) [0..<?R])"
  have "\<exists>s'. for_list [0..<?C] ?body (?mk 0 (s, output)) =
      Some (?mk ?C (s', sched_result c m input (concat (map ?sch [0..<?C])) output)) \<and> ready s'"
  proof (rule sched_loop [where mk = ?mk, OF assms(2) refl])
    fix i s and out :: "32 word list" assume i: "i < ?C" and s: "ready s" and len: "length out = length output"
    have m1: "rd m1 i = Some (m1 ! i)" "m1 ! i \<noteq> 0 \<longleftrightarrow> col_used ?R P i"
      and segs: "holds_segs values ?f (?C * ?R)"
      using data i by (auto simp: meta_data_def Let_def arr_simps)
    note col = metadata_column [where P = P and b = "?U i * ?R" and ?m2.0 = m2,
        OF assms(1) s assms(3) [folded len] assms(4) i segs]
    show "\<exists>s'. ?body i (?mk i (s, out)) = Some (?mk (Suc i) (s', sched_result c m input (?sch i) out)) \<and> ready s'"
    proof (cases "col_used ?R P i")
      case True
      with col [OF meta_used [OF data i True]] m1 show ?thesis by (auto simp: add.commute)
    next
      case False
      with unused_col(1) [OF False] unused_col(2) [OF False, of c krn] m1 s show ?thesis by auto
    qed
  qed simp
  then show ?thesis unfolding computeMetaData_def tile_sched_columns by (auto simp: used_before_def)
qed

text \<open>
  The \<^verbatim>\<open>while\<close> loop over a block: \<open>vpos\<close> is the position of the next tile before row \<open>r\<close>. The pair of
  the metadata pointer and the bit counter is determined by the bit position they stand for.
\<close>

lemma interleaved_block_run:
  assumes sup: "supported" and "ready s" "shapes_ok c m input (length output)" and i: "i < col_in_w c m"
    and r: "r \<le> row_in_w c m"
    and pos: "32 * md + cnt = 32 * md0 + (off + r)" "cnt \<le> 32"
    and bits: "\<And>j. j < row_in_w c m \<Longrightarrow> md0 + (off + j) div 32 < length vals \<and>
      (bit (vals ! (md0 + (off + j) div 32)) ((off + j) mod 32) \<longleftrightarrow> P j)"
    and vpos: "\<And>j. j < row_in_w c m \<Longrightarrow> vpos (Suc j) = vpos j + (if P j then tile_words c else 0)"
    and fits: "\<And>j. j < row_in_w c m \<Longrightarrow> P j \<Longrightarrow> vpos j + tile_words c \<le> length vals \<and>
      (\<forall>k<tile_words c. vals ! (vpos j + k) = tile j ! k)"
  shows "\<exists>s'. interleaved_block c ops (mult_seq_len m) input vals (vpos (row_in_w c m)) i md cnt r (vpos r) (s, output) =
    Some ((s', sched_result c m input (map (\<lambda>j. (j, i, tile j)) (filter P [r..<row_in_w c m])) output),
      vpos (row_in_w c m)) \<and> ready s'"
  using assms(2,3) r pos
proof (induction "row_in_w c m - r" arbitrary: r md cnt s "output")
  case 0
  then show ?case by (simp add: interleaved_block.simps)
next
  case (Suc d)
  let ?R = "row_in_w c m"
  let ?md = "if cnt = 32 then md + 1 else md" and ?cnt = "if cnt = 32 then 0 else cnt"
  have rR: "r < ?R" using Suc.hyps(2) by simp
  have mdc: "?md = md0 + (off + r) div 32" "?cnt = (off + r) mod 32"
    using interleaved_position [OF Suc.prems(4,5)] by auto
  have next_pos: "32 * ?md + (?cnt + 1) = 32 * md0 + (off + Suc r)" "?cnt + 1 \<le> 32"
    unfolding mdc by (simp_all add: Suc_le_eq)
  note IH = Suc.hyps(1) [of "Suc r", OF _ _ _ _ next_pos]
  show ?case
  proof (cases "P r")
    case True
    obtain s1 where s1: "processMultiplication c ops (mult_seq_len m) input r i vals (vpos r) (s, output) =
        Some (s1, tile_add c (mult_seq_len m) input (r, i, tile r) output)" "ready s1"
      using process_tile [OF sup Suc.prems(1,2) rR i, of "vpos r" vals "tile r"] fits [OF rR True] by auto
    have "vpos r < vpos ?R"
      using vpos_less [where P = P and vpos = vpos, OF vpos order_refl rR True] tile_words_pos [OF supported_ok [OF sup]] by simp
    with True s1 bits [OF rR] IH [of s1 "tile_add c (mult_seq_len m) input (r, i, tile r) output"]
      Suc.hyps(2) Suc.prems(2) rR vpos [OF rR]
    show ?thesis
      by (subst interleaved_block.simps) (simp add: mdc arr_simps upt_conv_Cons)
  next
    case False
    show ?thesis
    proof (cases "vpos r < vpos ?R")
      case True
      with False bits [OF rR] IH [of s "output"] Suc.hyps(2) Suc.prems(1,2) rR vpos [OF rR]
      show ?thesis
        by (subst interleaved_block.simps) (simp add: mdc arr_simps upt_conv_Cons)
    next
      case ge: False
      then have "filter P [r..<?R] = []"
        using vpos_less [where P = P and vpos = vpos and r = r, OF vpos] tile_words_pos [OF supported_ok [OF sup]]
        by (auto simp: filter_empty_conv)
      moreover have "vpos r = vpos ?R"
        using ge vpos_mono [where P = P and vpos = vpos and a = r and b = ?R, OF vpos] rR by simp
      ultimately show ?thesis using Suc.prems(1) by (simp add: interleaved_block.simps)
    qed
  qed
qed

lemma interleaved_column:
  assumes sup: "supported" and "ready s" "shapes_ok c m input (length output)" and ker: "kernel_ok c m krn"
    and i: "i < col_in_w c m"
    and data: "interleaved_data c m krn P off meta vals" and off: "off \<le> 32"
    and vp: "vp = seg_off (interleaved_seg c (row_in_w c m) krn P meta) i"
  shows "\<exists>s'. do {
      w \<leftarrow> rd vals vp;
      interleaved_block c ops (mult_seq_len m) input vals (vp + unat w) i (vp + 1) off 0
        (vp + 1 + (row_in_w c m + 31) div 32) (s, output) } =
    Some ((s', sched_result c m input (map (\<lambda>j. (j, i, dense_tile c krn (mem2d (row_in_w c m) i j)))
        (filter (\<lambda>j. P (mem2d (row_in_w c m) i j)) [0..<row_in_w c m])) output),
      seg_off (interleaved_seg c (row_in_w c m) krn P meta) (Suc i)) \<and> ready s'"
proof -
  let ?R = "row_in_w c m" and ?t = "tile_words c" and ?M = "(row_in_w c m + 31) div 32"
  let ?f = "interleaved_seg c ?R krn P meta" and ?bt = "block_tiles c ?R krn P i"
  let ?vpos = "\<lambda>j. vp + 1 + ?M + length (?bt j)"
  have segs: "holds_segs vals ?f (col_in_w c m)" and M: "length (meta i) = ?M"
    and small: "1 + ?M + length (?bt ?R) < 2 ^ 32"
    and meta: "\<And>j. j < ?R \<Longrightarrow> (off + j) div 32 < length (meta i) \<and>
      (bit (meta i ! ((off + j) div 32)) ((off + j) mod 32) \<longleftrightarrow> P (mem2d ?R i j))"
    using data i by (auto simp: interleaved_data_def Let_def interleaved_seg_def)
  have f: "length (?f i) = 1 + ?M + length (?bt ?R)" using M by (simp add: interleaved_seg_def)
  note nth = holds_segs_nth [OF segs i, folded vp]
  have w: "rd vals vp = Some (word_of_nat (1 + ?M + length (?bt ?R)))"
    using nth [of 0] f M by (simp add: arr_simps interleaved_seg_def)
  have to_nat: "unat (word_of_nat (1 + ?M + length (?bt ?R)) :: 32 word) = 1 + ?M + length (?bt ?R)"
    using small by (rule unat_word_of_nat_32)
  have lt: "mem2d ?R i j < col_in_w c m * ?R" if "j < ?R" for j using that i by (rule_tac mem2d_less)
  have Suc: "?bt (Suc j) = ?bt j @ tile_seg c krn P (mem2d ?R i j)" for j by (simp add: block_tiles_def)
  have "\<exists>s'. interleaved_block c ops (mult_seq_len m) input vals (?vpos ?R) i (vp + 1) off 0 (?vpos 0) (s, output) =
    Some ((s', sched_result c m input (map (\<lambda>j. (j, i, dense_tile c krn (mem2d ?R i j)))
        (filter (\<lambda>j. P (mem2d ?R i j)) [0..<?R])) output), ?vpos ?R) \<and> ready s'"
  proof (rule interleaved_block_run [where ?md0.0 = "vp + 1" and off = off and vpos = ?vpos, OF sup assms(2,3) i])
    fix j assume j: "j < ?R"
    let ?p = "(off + j) div 32"
    have "1 + ?p < length (?f i)" "?f i ! (1 + ?p) = meta i ! ?p"
      using meta [OF j] f M by (auto simp: interleaved_seg_def nth_append)
    with nth [of "1 + ?p"] meta [OF j]
    show "vp + 1 + ?p < length vals \<and> (bit (vals ! (vp + 1 + ?p)) ((off + j) mod 32) \<longleftrightarrow> P (mem2d ?R i j))"
      by (simp add: add.assoc)
    show "?vpos (Suc j) = ?vpos j + (if P (mem2d ?R i j) then ?t else 0)"
      using kernel_tile_fits(3) [OF ker lt [OF j]] by (simp add: Suc tile_seg_def)
    assume P: "P (mem2d ?R i j)"
    note block_tile = block_tiles_nth [where P = P and i = i, OF j P kernel_tile_fits(3) [OF ker lt [OF j]]]
    have "length (?bt j) + ?t \<le> length (?bt ?R)" by (rule block_tile(1))
    moreover have "vp + length (?f i) \<le> length vals"
      using seg_off_bound [OF i, of ?f] segs vp by (simp add: holds_segs_def)
    moreover have "vals ! (?vpos j + k) = dense_tile c krn (mem2d ?R i j) ! k" if k: "k < ?t" for k
      using nth(2) [of "1 + ?M + length (?bt j) + k"] block_tile k f M
      by (simp add: interleaved_seg_def nth_append add.assoc)
    ultimately show "?vpos j + ?t \<le> length vals \<and>
      (\<forall>k<?t. vals ! (?vpos j + k) = dense_tile c krn (mem2d ?R i j) ! k)" using f by simp
  qed (use off in auto)
  moreover have "?vpos ?R = seg_off ?f (Suc i)" "?vpos 0 = vp + 1 + ?M"
    using f vp by (simp_all add: block_tiles_def)
  ultimately show ?thesis using w to_nat by (simp add: add.assoc)
qed

lemma computeInterleavedMetaData_run:
  assumes "supported" "ready s" "shapes_ok c m input (length output)" "kernel_ok c m krn"
    and data: "interleaved_data c m krn P (32 - min 32 (row_in_w c m)) meta vals"
  shows "\<exists>s'. computeInterleavedMetaData c ops m input vals (s, output) =
    Some (s', sched_result c m input (tile_sched c m krn P) output) \<and> ready s'"
proof -
  let ?R = "row_in_w c m" and ?C = "col_in_w c m"
  let ?mk = "\<lambda>i st. (st, seg_off (interleaved_seg c ?R krn P meta) i)"
  let ?body = "\<lambda>i (st, vp). do {
      off \<leftarrow> rd vals vp;
      interleaved_block c ops (mult_seq_len m) input vals (vp + unat off) i (vp + 1) (32 - min 32 ?R) 0
        (vp + 1 + (?R + 31) div 32) st }"
  let ?sch = "\<lambda>i. map (\<lambda>j. (j, i, dense_tile c krn (mem2d ?R i j))) (filter (\<lambda>j. P (mem2d ?R i j)) [0..<?R])"
  have "\<exists>s'. for_list [0..<?C] ?body (?mk 0 (s, output)) =
      Some (?mk ?C (s', sched_result c m input (concat (map ?sch [0..<?C])) output)) \<and> ready s'"
  proof (rule sched_loop [where mk = ?mk, OF assms(2) refl])
    fix i s and out :: "32 word list"
    assume i: "i < ?C" and s: "ready s" and len: "length out = length output"
    show "\<exists>s'. ?body i (?mk i (s, out)) = Some (?mk (Suc i) (s', sched_result c m input (?sch i) out)) \<and> ready s'"
      using interleaved_column [OF assms(1) s assms(3) [folded len] assms(4) i data _ refl] by simp
  qed simp
  then show ?thesis
    unfolding computeInterleavedMetaData_def tile_sched_columns Let_def by (auto simp: add.commute)
qed

end

end
