(* ===== verification/TiC_Product.thy ===== *)
theory TiC_Product
  imports TiC_Formats
begin

text \<open>
  What running a schedule means. An output word depends only on the tiles of its block column, so
  schedules that visit each column's tiles in the same order give the same output; with integer
  arithmetic a zero tile changes nothing; and the dense schedule accumulates the matrix product
  of the activations and the weights, both addressed through the blocked layout.
\<close>

subsection \<open>The blocked layout\<close>

definition act_at :: "('a::len, 'w::len) sa_cfg \<Rightarrow> nat \<Rightarrow> 32 word list \<Rightarrow> nat \<Rightarrow> nat \<Rightarrow> 'a word" where
  "act_at c seq_len xs t k =
     bus_lane (xs ! (k div kernel_dim c * MAX_ACT_COL c * seq_len + t * MAX_ACT_COL c
       + k mod kernel_dim c div ACT_PER_BUS c)) (k mod ACT_PER_BUS c)"

definition weight_at :: "('a::len, 'w::len) sa_cfg \<Rightarrow> nat \<Rightarrow> 32 word list \<Rightarrow> nat \<Rightarrow> nat \<Rightarrow> 'w word" where
  "weight_at c R krn k j =
     bus_lane (krn ! (mem2d R (j div kernel_dim c) (k div kernel_dim c) * tile_words c
       + k mod kernel_dim c * MAX_W_COL c + j mod kernel_dim c div W_PER_BUS c)) (j mod W_PER_BUS c)"

subsection \<open>Schedules with the same columns\<close>

abbreviation in_col :: "nat \<Rightarrow> tile_op \<Rightarrow> bool" where
  "in_col col \<equiv> \<lambda>t. fst (snd t) = col"

definition word_add ::
  "('a::len, 'w::len) sa_cfg \<Rightarrow> multiplier \<Rightarrow> 32 word list \<Rightarrow> nat \<Rightarrow> tile_op \<Rightarrow> 32 word \<Rightarrow> 32 word" where
  "word_add c m input n t w = addActIn32 c w
     (run_result c ((!) (snd (snd t))) (block_input c (mult_seq_len m) input (fst t)) n)"

lemma tile_add_word:
  assumes "p < length output" "0 < MAX_ACT_COL c * mult_seq_len m"
  shows "tile_add c (mult_seq_len m) input t output ! p =
    (if in_col (p div (MAX_ACT_COL c * mult_seq_len m)) t
     then word_add c m input (p mod (MAX_ACT_COL c * mult_seq_len m)) t (output ! p) else output ! p)"
proof -
  obtain row col tile where t: "t = (row, col, tile)" by (cases t)
  let ?B = "MAX_ACT_COL c * mult_seq_len m"
  have "col * ?B \<le> p \<and> p < col * ?B + ?B \<longleftrightarrow> p div ?B = col"
    using assms(2) by (metis add.commute div_nat_eqI div_times_less_eq_dividend dividend_less_div_times
        mult.commute mult_Suc)
  moreover have "p - col * ?B = p mod ?B" if "p div ?B = col"
    using that by (metis minus_div_mult_eq_mod)
  ultimately show ?thesis
    using assms(1) by (auto simp: t tile_add_def word_add_def mult.assoc mult.commute [of "mult_seq_len m"])
qed

lemma sched_word:
  assumes "p < length output" "0 < MAX_ACT_COL c * mult_seq_len m"
  shows "sched_result c m input sched output ! p =
    fold (word_add c m input (p mod (MAX_ACT_COL c * mult_seq_len m)))
      (filter (in_col (p div (MAX_ACT_COL c * mult_seq_len m))) sched) (output ! p)"
  using assms(1) by (induction sched arbitrary: "output") (auto simp: tile_add_word [OF _ assms(2)])

lemma tile_add_empty:
  assumes "MAX_ACT_COL c * seq_len = 0"
  shows "tile_add c seq_len input t output = output"
  using assms by (cases t) (auto simp: tile_add_def mult.commute)

lemma sched_result_cong:
  assumes "\<And>col. filter (in_col col) sched = filter (in_col col) sched'"
  shows "sched_result c m input sched output = sched_result c m input sched' output"
proof (cases "MAX_ACT_COL c * mult_seq_len m = 0")
  case True
  have "sched_result c m input ts output = output" for ts
    by (induction ts) (simp_all add: tile_add_empty [OF True])
  then show ?thesis by simp
next
  case False
  then have "0 < MAX_ACT_COL c * mult_seq_len m" by simp
  then show ?thesis using assms by (intro nth_equalityI) (simp_all add: sched_word [OF _ \<open>0 < _\<close>])
qed

lemma filter_col_block:
  "filter (in_col k) (concat (map (\<lambda>i. map (\<lambda>j. (f i j, i, g i j)) (xs i)) [0..<n])) =
     (if k < n then map (\<lambda>j. (f k j, k, g k j)) (xs k) else [])"
  by (induction n) (auto simp: filter_map o_def less_Suc_eq)

lemma filter_upt_eq: "filter (\<lambda>j. Q j \<and> j = k) [0..<n] = (if k < n \<and> Q k then [k] else [])"
  by (induction n) (auto simp: less_Suc_eq)

lemma filter_col_rows:
  "filter (in_col k) (concat (map (\<lambda>i. map (\<lambda>j. (i, j, g i j)) (sel Q n i)) [0..<r])) =
     (if k < n then map (\<lambda>i. (i, k, g i k)) (filter (\<lambda>i. Q i k) [0..<r]) else [])"
proof -
  have "filter (in_col k) (map (\<lambda>j. (i, j, g i j)) (sel Q n i)) =
      (if k < n \<and> Q i k then [(i, k, g i k)] else [])" for i
    using filter_upt_eq [of "Q i" k n] by (auto simp: sel_def filter_map o_def)
  then show ?thesis by (induction r) auto
qed

text \<open>The row-wise schedule of CSR gives the same output as the column-wise one, bit for bit and for any arithmetic.\<close>

lemma csr_sched_result:
  "sched_result c m input (csr_sched c m krn P) output = sched_result c m input (tile_sched c m krn P) output"
  by (rule sched_result_cong)
    (simp add: csr_sched_def Let_def filter_col_rows tile_sched_columns filter_col_block)

subsection \<open>Zero tiles\<close>

text \<open>What the arithmetic must satisfy for a skipped tile not to matter.\<close>

definition zero_neutral :: "('a::len, 'w::len) sa_cfg \<Rightarrow> bool" where
  "zero_neutral c \<longleftrightarrow> (\<forall>v. act_add c v 0 = v) \<and> (\<forall>x. mac c x 0 0 = 0) \<and> (\<forall>v. \<not> w_nonzero c v \<longrightarrow> v = 0)"

lemma bus_pack_0: "bus_pack (\<lambda>_. 0 :: 'b::len word) = 0"
proof -
  have "fold (\<lambda>i result. result OR push_bit (f i) (ucast (0 :: 'b word))) xs (0 :: 32 word) = 0" for f xs
    by (induction xs) auto
  then show ?thesis by (simp add: bus_pack_def)
qed

lemma run_result_zero:
  fixes c :: "('a::len, 'w::len) sa_cfg"
  assumes "cfg_ok c" "zero_neutral c" "\<And>k. k < tile_words c \<Longrightarrow> v k = 0"
  shows "run_result c v u n = 0"
proof -
  have sum: "col_sum c x w i = 0" if "\<And>j. j < i \<Longrightarrow> w j = 0" for x w i
    using that assms(2) by (induction i) (auto simp: zero_neutral_def)
  have "run_result c v u n = run_result c (\<lambda>_. 0) u n"
    by (rule fun_cong [OF run_result_cong [OF assms(1,3)]])
  also have "run_result c (\<lambda>_. 0) u n = bus_pack (\<lambda>i. tile_dot c (tile_weights c (\<lambda>_. 0))
      (row_act c u (n div MAX_ACT_COL c)) (n mod MAX_ACT_COL c * ACT_PER_BUS c + i))"
    by (simp add: run_result_def sa_result_def)
  also have "\<dots> = bus_pack (\<lambda>_. 0 :: 'a word)"
  proof (rule bus_pack_cong)
    fix i assume i: "i < per_bus TYPE('a)"
    have "n mod MAX_ACT_COL c * ACT_PER_BUS c + i < MAX_ACT_COL c * ACT_PER_BUS c"
      using mem2d_less [of "n mod MAX_ACT_COL c" "MAX_ACT_COL c" i "ACT_PER_BUS c"] cfg_okD(8) [OF assms(1)] i
      by (simp add: mem2d_def ACT_PER_BUS_def)
    then have j: "n mod MAX_ACT_COL c * ACT_PER_BUS c + i < kernel_dim c" by (simp add: cfg_okD(6) [OF assms(1)])
    show "tile_dot c (tile_weights c (\<lambda>_. 0)) (row_act c u (n div MAX_ACT_COL c))
        (n mod MAX_ACT_COL c * ACT_PER_BUS c + i) = 0"
      unfolding tile_dot_def
      by (subst sum) (auto simp: tile_weights_def mem2d_less [OF _ j])
  qed
  finally show ?thesis by (simp add: bus_pack_0)
qed

lemma addActIn32_0:
  fixes c :: "('a::len, 'w::len) sa_cfg"
  assumes "cfg_ok c" "zero_neutral c"
  shows "addActIn32 c w 0 = w"
proof (rule bus_word_eqI [where 'b = 'a])
  show "LENGTH('a) * per_bus TYPE('a) = 32" using cfg_okD(4) [OF assms(1)] by (simp add: ACT_PER_BUS_def)
  fix i assume "i < per_bus TYPE('a)"
  then show "(bus_lane (addActIn32 c w 0) i :: 'a word) = bus_lane w i"
    using assms(2) by (subst bus_lane_addActIn32) (auto simp: ACT_PER_BUS_def zero_neutral_def)
qed

lemma tile_add_zero:
  assumes "cfg_ok c" "zero_neutral c" "\<And>k. k < tile_words c \<Longrightarrow> tile ! k = 0"
  shows "tile_add c seq_len input (row, col, tile) output = output"
  by (rule nth_equalityI) (simp_all add: tile_add_def run_result_zero [OF assms] addActIn32_0 [OF assms(1,2)])

lemma pruned_result:
  assumes "cfg_ok c" "zero_neutral c" "kernel_ok c m krn"
    and P: "\<And>n. n < col_in_w c m * row_in_w c m \<Longrightarrow> tile_nonzero c krn n \<Longrightarrow> P n"
  shows "sched_result c m input (tile_sched c m krn P) output = sched_result c m input (dense_sched c m krn) output"
proof -
  let ?f = "\<lambda>n. tile_add c (mult_seq_len m) input (lin_op c (row_in_w c m) krn n)"
  have skip: "?f n out = out" if n: "n < col_in_w c m * row_in_w c m" and "\<not> P n" for n out
  proof -
    have "\<not> tile_nonzero c krn n" using P [OF n] that(2) by blast
    then have "dense_tile c krn n ! k = 0" if "k < tile_words c" for k
      using assms(2) kernel_tile_fits(3) [OF assms(3) n] that
      by (auto simp: tile_nonzero_def zero_neutral_def)
    then show ?thesis unfolding lin_op_def by (rule tile_add_zero [OF assms(1,2)])
  qed
  have "fold ?f (filter P ns) out = fold ?f ns out" if "\<And>n. n \<in> set ns \<Longrightarrow> n < col_in_w c m * row_in_w c m" for ns out
    using that by (induction ns arbitrary: out) (auto simp: skip)
  from this [of "[0..<col_in_w c m * row_in_w c m]" "output"] show ?thesis
    by (simp add: sched_result_def tile_sched_def fold_map o_def)
qed

subsection \<open>The matrix product\<close>

lemma ucast_down_add:
  assumes "LENGTH('b::len) \<le> LENGTH('c::len)"
  shows "(ucast (x + y :: 'c word) :: 'b word) = ucast x + ucast y"
  using assms by transfer (metis min.absorb1 take_bit_add take_bit_take_bit)

lemma ucast_down_mult:
  assumes "LENGTH('b::len) \<le> LENGTH('c::len)"
  shows "(ucast (x * y :: 'c word) :: 'b word) = ucast x * ucast y"
  using assms by transfer (metis min.absorb1 take_bit_mult take_bit_take_bit)

lemma ucast_scast:
  assumes "LENGTH('b::len) \<le> LENGTH('c::len)"
  shows "(ucast (scast (x :: 'd::len word) :: 'c word) :: 'b word) = scast x"
  using assms by transfer (simp add: min_def)

lemma col_sum_int:
  assumes "mac c = mac_int" "LENGTH('a::len) \<le> 32"
  shows "(ucast (col_sum (c :: ('a, 'w::len) sa_cfg) x w n) :: 'a word) = (\<Sum>i<n. x i * scast (w i))"
proof (induction n)
  case 0
  then show ?case by simp
next
  case (Suc n)
  have "(ucast (scast (x n) :: 32 word) :: 'a word) = x n"
    using ucast_scast [where 'b = 'a and 'c = 32, of "x n"] assms(2) by simp
  with Suc assms show ?case
    by (simp add: mac_int_def ucast_down_add ucast_down_mult ucast_scast add.commute)
qed

lemma mod_block: "A dvd K \<Longrightarrow> (r * K + i) mod A = (i::nat) mod A"
  by (metis dvd_mult mod_0_imp_dvd mod_add_left_eq add_0 dvd_imp_mod_0)

lemma row_act_act_at:
  assumes ok: "cfg_ok c" and t: "t < seq_len" and i: "i < kernel_dim c"
  shows "row_act c (block_input c seq_len input r) t i = act_at c seq_len input t (r * kernel_dim c + i)"
proof -
  have "i div ACT_PER_BUS c < MAX_ACT_COL c"
    using i cfg_okD(6) [OF ok] by (simp add: less_mult_imp_div_less)
  then have "mem2d (MAX_ACT_COL c) t (i div ACT_PER_BUS c) < seq_len * MAX_ACT_COL c"
    by (rule mem2d_less [OF t])
  moreover have "(r * kernel_dim c + i) mod ACT_PER_BUS c = i mod ACT_PER_BUS c"
    using ok by (intro mod_block) (simp add: cfg_ok_def)
  ultimately show ?thesis using i by (simp add: row_act_def block_input_def act_at_def mem2d_def add.assoc)
qed

lemma tile_weight_at:
  assumes ok: "cfg_ok c" and n: "kernel_ok c m krn" "n < col_in_w c m * row_in_w c m"
    and i: "i < kernel_dim c" and j: "j < kernel_dim c"
  shows "tile_weights c ((!) (dense_tile c krn n)) ! mem2d (kernel_dim c) i j =
    bus_lane (krn ! (n * tile_words c + i * MAX_W_COL c + j div W_PER_BUS c)) (j mod W_PER_BUS c)"
proof -
  let ?W = "W_PER_BUS c" and ?K = "kernel_dim c"
  have K: "?K = MAX_W_COL c * ?W" and W: "0 < ?W" using cfg_okD(3,7) [OF ok] by simp_all
  have "mem2d ?K i j = (i * MAX_W_COL c) * ?W + j" by (simp add: mem2d_def K mult.assoc)
  then have dm: "mem2d ?K i j div ?W = i * MAX_W_COL c + j div ?W" "mem2d ?K i j mod ?W = j mod ?W"
    using W by simp_all
  have "j div ?W < MAX_W_COL c" using j K by (simp add: less_mult_imp_div_less)
  then have "i * MAX_W_COL c + j div ?W < tile_words c"
    using mem2d_less [OF i, of "j div ?W" "MAX_W_COL c"] by (simp add: mem2d_def tile_words_def)
  then show ?thesis
    using mem2d_less [OF i j] dm kernel_tile_fits(2) [OF n]
    by (simp add: tile_weights_def add.assoc)
qed

lemma bus_lane_run_result:
  fixes c :: "('a::len, 'w::len) sa_cfg"
  assumes ok: "cfg_ok c" and "mac c = mac_int" and q: "q < MAX_ACT_COL c" and l: "l < ACT_PER_BUS c"
  shows "bus_lane (run_result c v u (t * MAX_ACT_COL c + q)) l =
    (\<Sum>i<kernel_dim c. row_act c u t i * scast (tile_weights c v ! mem2d (kernel_dim c) i (q * ACT_PER_BUS c + l)))"
proof -
  have "LENGTH('a) \<le> 32" using ok by (auto simp: cfg_ok_def)
  with assms(2) q l show ?thesis
    by (simp add: run_result_def sa_result_def bus_lane_pack ACT_PER_BUS_def tile_dot_def col_sum_int)
qed

lemma fold_word_add_lane:
  fixes c :: "('a::len, 'w::len) sa_cfg"
  assumes "act_add c = (+)" "l < ACT_PER_BUS c"
  shows "(bus_lane (fold (word_add c m input n) ts w) l :: 'a word) = bus_lane w l +
    (\<Sum>t\<leftarrow>ts. bus_lane (run_result c ((!) (snd (snd t))) (block_input c (mult_seq_len m) input (fst t)) n) l)"
  using assms by (induction ts arbitrary: w) (simp_all add: word_add_def bus_lane_addActIn32 add.assoc)

lemma sum_list_upt: "(\<Sum>r\<leftarrow>[0..<n]. f r) = (\<Sum>r<n. f r)" for f :: "nat \<Rightarrow> 'b::comm_monoid_add"
  by (induction n) (simp_all add: add.commute)

lemma dense_product:
  fixes c :: "('a::len, 'w::len) sa_cfg"
  assumes ok: "cfg_ok c" and arith: "mac c = mac_int" "act_add c = (+)"
    and ker: "kernel_ok c m krn" and shapes: "shapes_ok c m input (length output)"
    and t: "t < mult_seq_len m" and j: "j < col_in_w c m * kernel_dim c"
  shows "act_at c (mult_seq_len m) (sched_result c m input (dense_sched c m krn) output) t j =
    act_at c (mult_seq_len m) output t j +
    (\<Sum>k<row_in_w c m * kernel_dim c. act_at c (mult_seq_len m) input t k * scast (weight_at c (row_in_w c m) krn k j))"
proof -
  let ?K = "kernel_dim c" and ?M = "MAX_ACT_COL c" and ?A = "ACT_PER_BUS c" and ?R = "row_in_w c m"
  let ?s = "mult_seq_len m" and ?col = "j div kernel_dim c" and ?q = "j mod kernel_dim c div ACT_PER_BUS c"
  let ?n = "mem2d ?M t ?q" and ?l = "j mod ACT_PER_BUS c"
  have jK: "j mod ?K < ?K" and l: "?l < ?A" using cfg_okD(1,2) [OF ok] by simp_all
  have q: "?q < ?M" using jK cfg_okD(6) [OF ok] by (simp add: less_mult_imp_div_less)
  have col: "?col < col_in_w c m" using j by (simp add: less_mult_imp_div_less)
  have n: "?n < ?M * ?s" using mem2d_less [OF t q] by (simp add: mult.commute)
  have p: "mem2d (?M * ?s) ?col ?n < length output"
    using mem2d_less [OF col n] shapes by (simp add: shapes_ok_def mult.assoc)
  have jl: "?q * ?A + ?l = j mod ?K"
  proof -
    have "j mod ?K mod ?A = ?l" using ok by (simp add: cfg_ok_def mod_mod_cancel)
    then show ?thesis by (metis div_mult_mod_eq)
  qed
  have at: "act_at c ?s xs t j = bus_lane (xs ! mem2d (?M * ?s) ?col ?n) ?l" for xs
    by (simp add: act_at_def mem2d_def mult.assoc add.assoc)
  have filt: "filter (in_col ?col) (dense_sched c m krn) =
      map (\<lambda>r. (r, ?col, dense_tile c krn (mem2d ?R ?col r))) [0..<?R]"
    using col by (simp add: tile_sched_columns filter_col_block)
  have dot: "bus_lane (run_result c ((!) (dense_tile c krn (mem2d ?R ?col r))) (block_input c ?s input r) ?n) ?l
      = (\<Sum>k\<in>{r * ?K..<r * ?K + ?K}. act_at c ?s input t k * scast (weight_at c ?R krn k j))" if r: "r < ?R" for r
  proof -
    have "bus_lane (run_result c ((!) (dense_tile c krn (mem2d ?R ?col r))) (block_input c ?s input r) ?n) ?l
      = (\<Sum>i<?K. act_at c ?s input t (r * ?K + i) * scast (weight_at c ?R krn (r * ?K + i) j))"
      using r jK unfolding mem2d_def [of ?M t] bus_lane_run_result [OF ok arith(1) q l] jl
      by (intro sum.cong refl arg_cong2 [where f = "(*)"] arg_cong [where f = scast])
        (simp_all add: row_act_act_at [OF ok t] tile_weight_at [OF ok ker mem2d_less [OF col r]] weight_at_def
          mod_mod_cancel ok [unfolded cfg_ok_def])
    also have "\<dots> = (\<Sum>k\<in>{r * ?K..<r * ?K + ?K}. act_at c ?s input t k * scast (weight_at c ?R krn k j))"
      by (rule sum.reindex_bij_witness [of _ "\<lambda>k. k - r * ?K" "\<lambda>i. r * ?K + i"]) auto
    finally show ?thesis .
  qed
  have "0 < ?M * ?s" using n by (cases "?M * ?s") auto
  from sched_word [OF p this, of "input" "dense_sched c m krn"]
  have "sched_result c m input (dense_sched c m krn) output ! mem2d (?M * ?s) ?col ?n =
      fold (word_add c m input ?n) (filter (in_col ?col) (dense_sched c m krn))
        (output ! mem2d (?M * ?s) ?col ?n)" by (simp only: mem2d_div [OF n] mem2d_mod [OF n])
  then have "act_at c ?s (sched_result c m input (dense_sched c m krn) output) t j =
      act_at c ?s output t j + (\<Sum>r<?R. bus_lane (run_result c ((!) (dense_tile c krn (mem2d ?R ?col r)))
        (block_input c ?s input r) ?n) ?l)"
    unfolding at filt by (simp add: fold_word_add_lane [OF arith(2) l] o_def sum_list_upt)
  also have "(\<Sum>r<?R. bus_lane (run_result c ((!) (dense_tile c krn (mem2d ?R ?col r))) (block_input c ?s input r) ?n) ?l)
      = (\<Sum>r<?R. \<Sum>k\<in>{r * ?K..<r * ?K + ?K}. act_at c ?s input t k * scast (weight_at c ?R krn k j))"
    by (intro sum.cong refl dot) simp
  finally show ?thesis by (simp only: sum.nat_group)
qed

end
