(* ===== verification/TiC_Sparse_Rep.thy ===== *)
theory TiC_Sparse_Rep
  imports TiC_Product
begin

text \<open>
  The writers of the storage formats, \<^verbatim>\<open>transformer_layers/sparse_rep.cc\<close>: from a dense kernel of
  \<^verbatim>\<open>n_row\<close> rows of \<^verbatim>\<open>n_col\<close> words, stored tile by tile, to the arrays the multiplier reads. Each writer
  is shown to stay inside its arrays and to produce the data that the reader of the same format expects;
  the theorems at the end put writer and reader together.

  The arrays a caller passes keep their contents behind the part that is written: \<open>overlay ys xs\<close>.
\<close>

subsection \<open>Model\<close>

definition tile_all_zeros :: "('a::len, 'w::len) sa_cfg \<Rightarrow> 32 word list \<Rightarrow> nat \<Rightarrow> bool option" where
  "tile_all_zeros c krn tile_index =
     for_brk [0..<kernel_dim c] (\<lambda>z. \<not> z) (\<lambda>ii z.
       for_brk [0..<MAX_W_COL c] (\<lambda>z. \<not> z) (\<lambda>jj z. do {
         v \<leftarrow> rd krn (tile_index + ii * MAX_W_COL c + jj);
         Some (if w_nonzero c v then False else z)
       }) z) True"

definition copy_tile ::
  "('a::len, 'w::len) sa_cfg \<Rightarrow> 32 word list \<Rightarrow> nat \<Rightarrow> 32 word list \<times> nat \<Rightarrow> (32 word list \<times> nat) option" where
  "copy_tile c krn tile_index =
     for_list [0..<kernel_dim c] (\<lambda>ii. for_list [0..<MAX_W_COL c] (\<lambda>jj (new_kernel, p). do {
       v \<leftarrow> rd krn (tile_index + ii * MAX_W_COL c + jj);
       new_kernel \<leftarrow> wr new_kernel p v;
       Some (new_kernel, p + 1)
     }))"

text \<open>The body of the inner loops of \<^verbatim>\<open>dense2csr\<close> and \<^verbatim>\<open>dense2csc\<close>: a tile with a non-zero word is recorded.\<close>

definition record_tile ::
  "('a::len, 'w::len) sa_cfg \<Rightarrow> 32 word list \<Rightarrow> nat \<Rightarrow> nat
     \<Rightarrow> nat list \<times> nat list \<times> nat \<Rightarrow> (nat list \<times> nat list \<times> nat) option" where
  "record_tile c krn tile_index j = (\<lambda>(ind, values, nnz). do {
     all_zeros \<leftarrow> tile_all_zeros c krn tile_index;
     if all_zeros then Some (ind, values, nnz) else do {
       ind \<leftarrow> wr ind nnz j;
       values \<leftarrow> wr values nnz tile_index;
       Some (ind, values, nnz + 1)
     }
   })"

definition dense2csr ::
  "('a::len, 'w::len) sa_cfg \<Rightarrow> 32 word list \<Rightarrow> nat \<Rightarrow> nat \<Rightarrow> nat list \<Rightarrow> nat list \<Rightarrow> nat list
     \<Rightarrow> (nat list \<times> nat list \<times> nat list \<times> nat) option" where
  "dense2csr c krn n_row n_col col_ptr row_ptr values = do {
     row_ptr \<leftarrow> wr row_ptr 0 0;
     for_list [0..<n_row div kernel_dim c] (\<lambda>i (col_ptr, row_ptr, values, nnz). do {
       (col_ptr, values, nnz) \<leftarrow> for_list [0..<n_col div MAX_W_COL c] (\<lambda>j.
         record_tile c krn ((j * (n_row div kernel_dim c) + i) * kernel_dim c * MAX_W_COL c) j) (col_ptr, values, nnz);
       row_ptr \<leftarrow> wr row_ptr (i + 1) nnz;
       Some (col_ptr, row_ptr, values, nnz)
     }) (col_ptr, row_ptr, values, 0)
   }"

definition dense2csc ::
  "('a::len, 'w::len) sa_cfg \<Rightarrow> 32 word list \<Rightarrow> nat \<Rightarrow> nat \<Rightarrow> nat list \<Rightarrow> nat list \<Rightarrow> nat list
     \<Rightarrow> (nat list \<times> nat list \<times> nat list \<times> nat) option" where
  "dense2csc c krn n_row n_col col_ptr row_ind values = do {
     col_ptr \<leftarrow> wr col_ptr 0 0;
     for_list [0..<n_col div MAX_W_COL c] (\<lambda>i (col_ptr, row_ind, values, nnz). do {
       (row_ind, values, nnz) \<leftarrow> for_list [0..<n_row div kernel_dim c] (\<lambda>j.
         record_tile c krn ((i * (n_row div kernel_dim c) + j) * kernel_dim c * MAX_W_COL c) j) (row_ind, values, nnz);
       col_ptr \<leftarrow> wr col_ptr (i + 1) nnz;
       Some (col_ptr, row_ind, values, nnz)
     }) (col_ptr, row_ind, values, 0)
   }"

definition meta_row ::
  "('a::len, 'w::len) sa_cfg \<Rightarrow> 32 word list \<Rightarrow> nat \<Rightarrow> nat \<Rightarrow> nat \<Rightarrow> nat
     \<Rightarrow> 32 word list \<times> nat \<times> 32 word list \<times> bool \<Rightarrow> (32 word list \<times> nat \<times> 32 word list \<times> bool) option" where
  "meta_row c krn R m2StartIndex j i = (\<lambda>(new_kernel, p, m2, columnAllZeros). do {
     let tile_index = (j * R + i) * kernel_dim c * MAX_W_COL c;
     tileAllZeros \<leftarrow> tile_all_zeros c krn tile_index;
     m2 \<leftarrow> wr m2 (m2StartIndex + i) (of_bool (\<not> tileAllZeros));
     if tileAllZeros then Some (new_kernel, p, m2, columnAllZeros) else do {
       (new_kernel, p) \<leftarrow> copy_tile c krn tile_index (new_kernel, p);
       Some (new_kernel, p, m2, False)
     }
   })"

definition dense2metaData ::
  "('a::len, 'w::len) sa_cfg \<Rightarrow> 32 word list \<Rightarrow> nat \<Rightarrow> nat \<Rightarrow> 32 word list \<Rightarrow> 32 word list
     \<Rightarrow> (32 word list \<times> 32 word list \<times> 32 word list) option" where
  "dense2metaData c krn n_row n_col m1 m2 = do {
     (new_kernel, p, m1, m2, m2StartIndex) \<leftarrow>
       for_list [0..<n_col div MAX_W_COL c] (\<lambda>j (new_kernel, p, m1, m2, m2StartIndex). do {
         (new_kernel, p, m2, columnAllZeros) \<leftarrow>
           for_list [0..<n_row div kernel_dim c] (meta_row c krn (n_row div kernel_dim c) m2StartIndex j)
             (new_kernel, p, m2, True);
         if columnAllZeros then do {
           m1 \<leftarrow> wr m1 j 0;
           Some (new_kernel, p, m1, m2, m2StartIndex)
         } else do {
           m1 \<leftarrow> wr m1 j 1;
           Some (new_kernel, p, m1, m2, m2StartIndex + n_row div kernel_dim c)
         }
       }) (replicate (n_row * n_col) 0, 0, m1, m2, 0);
     Some (new_kernel, m1, m2)
   }"

definition new_kernel_size :: "('a::len, 'w::len) sa_cfg \<Rightarrow> nat \<Rightarrow> nat \<Rightarrow> nat" where
  "new_kernel_size c n_row n_col =
     100 + n_row * n_col + n_row * n_col * MAX_W_COL c div (32 * kernel_dim c * kernel_dim c)
       + n_col * MAX_W_COL c div kernel_dim c"

definition interleave_row ::
  "('a::len, 'w::len) sa_cfg \<Rightarrow> 32 word list \<Rightarrow> nat \<Rightarrow> nat \<Rightarrow> nat \<Rightarrow> nat
     \<Rightarrow> 32 word list \<times> nat \<times> nat \<times> nat \<Rightarrow> (32 word list \<times> nat \<times> nat \<times> nat) option" where
  "interleave_row c krn R values_start j i = (\<lambda>(new_kernel, p, metadata, counter32). do {
     let tile_index = (j * R + i) * kernel_dim c * MAX_W_COL c;
     tileAllZeros \<leftarrow> tile_all_zeros c krn tile_index;
     (new_kernel, p) \<leftarrow>
       (if tileAllZeros then Some (new_kernel, p) else do {
          (new_kernel, p) \<leftarrow> copy_tile c krn tile_index (new_kernel, p);
          w \<leftarrow> rd new_kernel metadata;
          new_kernel \<leftarrow> wr new_kernel metadata (w OR push_bit counter32 1);
          Some (new_kernel, p)
        });
     if counter32 + 1 = 32 then do {
       new_kernel \<leftarrow>
         (if metadata + 1 < values_start then wr new_kernel (metadata + 1) 0 else Some new_kernel);
       Some (new_kernel, p, metadata + 1, 0)
     } else Some (new_kernel, p, metadata, counter32 + 1)
   })"

definition dense2interleavedMetaData ::
  "('a::len, 'w::len) sa_cfg \<Rightarrow> 32 word list \<Rightarrow> nat \<Rightarrow> nat \<Rightarrow> 32 word list option" where
  "dense2interleavedMetaData c krn n_row n_col = (
     let BLOCK_SIZE = n_row div kernel_dim c;
         metadata_block_size = (BLOCK_SIZE + 32 - 1) div 32
     in do {
       (new_kernel, p) \<leftarrow> for_list [0..<n_col div MAX_W_COL c] (\<lambda>j (new_kernel, p). do {
         let offset_to_next_block = p;
         let metadata = p + 1;
         let values_start = metadata + metadata_block_size;
         (new_kernel, p, _, _) \<leftarrow>
           for_list [0..<n_row div kernel_dim c] (interleave_row c krn (n_row div kernel_dim c) values_start j)
             (new_kernel, values_start, metadata, 0);
         new_kernel \<leftarrow> wr new_kernel offset_to_next_block (word_of_nat (p - offset_to_next_block));
         Some (new_kernel, p)
       }) (replicate (new_kernel_size c n_row n_col) 0, 0);
       Some new_kernel
     })"

definition remove_zero_tiles ::
  "('a::len, 'w::len) sa_cfg \<Rightarrow> 32 word list \<Rightarrow> nat \<Rightarrow> nat \<Rightarrow> 32 word list option" where
  "remove_zero_tiles c krn n_row n_col = do {
     (new_kernel, p, counter) \<leftarrow> for_list [0..<n_row div kernel_dim c] (\<lambda>i.
       for_list [0..<n_col div MAX_W_COL c] (\<lambda>j (new_kernel, p, counter). do {
         let tile_index = (i * (n_col div MAX_W_COL c) + j) * kernel_dim c * MAX_W_COL c;
         all_zeros \<leftarrow> tile_all_zeros c krn tile_index;
         if \<not> all_zeros then do {
           (new_kernel, p) \<leftarrow> copy_tile c krn tile_index (new_kernel, p);
           Some (new_kernel, p, counter)
         } else Some (new_kernel, p, counter + 1)
       })) (replicate (n_row * n_col) 0, 0, 0 :: nat);
     Some new_kernel
   }"

definition interleave_hidden_flag_zero_free ::
  "('a::len, 'w::len) sa_cfg \<Rightarrow> 32 word list \<Rightarrow> nat \<Rightarrow> nat \<Rightarrow> 32 word \<Rightarrow> 32 word list option" where
  "interleave_hidden_flag_zero_free c krn n_row n_col hidden_flag = do {
     (new_kernel, p, counter) \<leftarrow> for_list [0..<n_row div kernel_dim c] (\<lambda>i.
       for_list [0..<n_col div MAX_W_COL c] (\<lambda>j (new_kernel, p, counter). do {
         let tile_index = (i * (n_col div MAX_W_COL c) + j) * kernel_dim c * MAX_W_COL c;
         all_zeros \<leftarrow> tile_all_zeros c krn tile_index;
         if \<not> all_zeros then do {
           (new_kernel, p) \<leftarrow> copy_tile c krn tile_index (new_kernel, p);
           Some (new_kernel, p, counter)
         } else do {
           new_kernel \<leftarrow> wr new_kernel p hidden_flag;
           Some (new_kernel, p + 1, counter + 1)
         }
       })) (replicate (n_row * n_col) 0, 0, 0 :: nat);
     Some new_kernel
   }"

text \<open>The version of \<^verbatim>\<open>debuggerFunctions.cc\<close> works in place and compares the words as integers, whatever the type of the weights.\<close>

definition interleave_hidden_flag ::
  "('a::len, 'w::len) sa_cfg \<Rightarrow> nat \<Rightarrow> nat \<Rightarrow> 32 word \<Rightarrow> 32 word list \<Rightarrow> 32 word list option" where
  "interleave_hidden_flag c n_row n_col hidden_flag =
     for_list [0..<n_row div kernel_dim c] (\<lambda>i. for_list [0..<n_col div MAX_W_COL c] (\<lambda>j krn. do {
       let tile_index = (i * (n_col div MAX_W_COL c) + j) * kernel_dim c * MAX_W_COL c;
       all_zeros \<leftarrow> tile_all_zeros (c\<lparr>w_nonzero := int_nonzero\<rparr>) krn tile_index;
       if all_zeros then wr krn tile_index hidden_flag else Some krn
     }))"

subsection \<open>Scanning and copying a tile\<close>

lemma tile_all_zeros_spec:
  assumes "n * tile_words c + tile_words c \<le> length krn"
  shows "tile_all_zeros c krn (n * kernel_dim c * MAX_W_COL c) = Some (\<not> tile_nonzero c krn n)"
proof -
  let ?K = "kernel_dim c" and ?W = "MAX_W_COL c" and ?t = "n * kernel_dim c * MAX_W_COL c"
  have t: "?t = n * tile_words c" by (simp add: tile_words_def mult.assoc)
  have lt: "?t + ii * ?W + jj < length krn" if "ii < ?K" "jj < ?W" for ii jj
    using mem2d_less [OF that] assms by (simp add: t tile_words_def mem2d_def)
  have "tile_all_zeros c krn ?t =
      Some (\<forall>ii \<in> set [0..<?K]. \<not> (\<exists>jj \<in> set [0..<?W]. w_nonzero c (krn ! (?t + ii * ?W + jj))))"
    unfolding tile_all_zeros_def
    by (intro for_brk_all for_brk_search) (simp add: lt)
  also have "(\<forall>ii \<in> set [0..<?K]. \<not> (\<exists>jj \<in> set [0..<?W]. w_nonzero c (krn ! (?t + ii * ?W + jj)))) \<longleftrightarrow>
      \<not> (\<exists>k<?K * ?W. w_nonzero c (krn ! (?t + k)))"
    using ex_mem2d [of ?K ?W "\<lambda>k. w_nonzero c (krn ! (?t + k))"] by (simp add: mem2d_def add.assoc Ball_def)
  finally show ?thesis
    by (simp add: tile_nonzero_iff [OF assms] tile_words_def mult.assoc)
qed

lemma copy_tile_spec:
  assumes "n * tile_words c + tile_words c \<le> length krn" "length ys + tile_words c \<le> length xs"
  shows "copy_tile c krn (n * kernel_dim c * MAX_W_COL c) (overlay ys xs, length ys) =
    Some (overlay (ys @ dense_tile c krn n) xs, length ys + tile_words c)"
proof -
  let ?W = "MAX_W_COL c" and ?t = "tile_words c"
  let ?I = "\<lambda>k (ns, p). ns = overlay (ys @ take k (dense_tile c krn n)) xs \<and> p = length ys + k"
  have len: "length (dense_tile c krn n) = ?t" by (rule length_dense_tile [OF assms(1)])
  have "\<exists>s. for_list [0..<?t] (\<lambda>k (ns, p). do {
      v \<leftarrow> rd krn (n * kernel_dim c * ?W + k div ?W * ?W + k mod ?W);
      ns \<leftarrow> wr ns p v;
      Some (ns, p + 1) }) (overlay ys xs, length ys) = Some s \<and> ?I ?t s"
  proof (rule for_up_rule [where I = ?I])
    fix k s assume k: "k < ?t" and "?I k s"
    then obtain s: "s = (overlay (ys @ take k (dense_tile c krn n)) xs, length ys + k)" by (cases s) auto
    have idx: "n * kernel_dim c * ?W + k div ?W * ?W + k mod ?W = n * ?t + k"
      by (simp add: tile_words_def mult.assoc add.assoc)
    have "n * ?t + k < length krn" using assms(1) k by simp
    moreover have "wr (overlay (ys @ take k (dense_tile c krn n)) xs) (length ys + k) (krn ! (n * ?t + k)) =
        Some (overlay (ys @ take (Suc k) (dense_tile c krn n)) xs)"
      using wr_overlay [of "ys @ take k (dense_tile c krn n)" xs] k assms(2) len nth_dense_tile [OF assms(1) k]
      by (simp add: take_Suc_conv_app_nth)
    ultimately show "\<exists>s'. (\<lambda>(ns, p). do {
        v \<leftarrow> rd krn (n * kernel_dim c * ?W + k div ?W * ?W + k mod ?W);
        ns \<leftarrow> wr ns p v;
        Some (ns, p + 1) }) s = Some s' \<and> ?I (Suc k) s'"
      by (simp add: s idx arr_simps)
  qed auto
  then show ?thesis unfolding copy_tile_def for_list_nest by (auto simp: tile_words_def len)
qed

subsection \<open>Writers of a stream of tiles\<close>

lemma emit_loop:
  fixes body :: "nat \<Rightarrow> 'b list \<times> nat \<times> 'x \<Rightarrow> ('b list \<times> nat \<times> 'x) option"
  assumes step: "\<And>n ys x. n < N \<Longrightarrow> length ys + length (f n) \<le> length xs \<Longrightarrow>
      \<exists>x'. body n (overlay ys xs, length ys, x) = Some (overlay (ys @ f n) xs, length ys + length (f n), x')"
    and room: "seg_off f N \<le> length xs"
  shows "\<exists>x'. for_list [0..<N] body (xs, 0, x) = Some (overlay (concat (map f [0..<N])) xs, seg_off f N, x')"
proof -
  let ?I = "\<lambda>n s. \<exists>x' :: 'x. s = (overlay (concat (map f [0..<n])) xs, seg_off f n, x')"
  have "\<exists>s. for_list [0..<N] body (xs, 0, x) = Some s \<and> ?I N s"
  proof (rule for_up_rule [where I = ?I])
    fix n s assume n: "n < N" and "?I n s"
    then obtain x' where s: "s = (overlay (concat (map f [0..<n])) xs, length (concat (map f [0..<n])), x')"
      by (auto simp: seg_off_def)
    have "length (concat (map f [0..<n])) + length (f n) \<le> length xs"
      using seg_off_bound [OF n, of f] room by (simp add: seg_off_def)
    from step [OF n this, of x'] show "\<exists>s'. body n s = Some s' \<and> ?I (Suc n) s'"
      by (auto simp: s seg_off_def)
  qed auto
  then show ?thesis by auto
qed

lemma tiles_room:
  "n_row div kernel_dim c * (n_col div MAX_W_COL c) * tile_words c \<le> n_row * n_col"
proof -
  have "n_row div kernel_dim c * (n_col div MAX_W_COL c) * tile_words c =
      (n_row div kernel_dim c * kernel_dim c) * (n_col div MAX_W_COL c * MAX_W_COL c)"
    by (simp add: tile_words_def mult_ac)
  also have "\<dots> \<le> n_row * n_col" by (intro mult_le_mono) (rule div_times_less_eq_dividend)+
  finally show ?thesis .
qed

lemma seg_off_le: "(\<And>n. n < N \<Longrightarrow> length (f n) \<le> t) \<Longrightarrow> seg_off f N \<le> N * t"
proof (induction N)
  case 0
  then show ?case by simp
next
  case (Suc N)
  then have "seg_off f N \<le> N * t" "length (f N) \<le> t" by auto
  then show ?case by simp
qed

lemma remove_zero_tiles_spec:
  assumes krn: "n_row div kernel_dim c * (n_col div MAX_W_COL c) * tile_words c \<le> length krn"
  shows "\<exists>new_kernel. remove_zero_tiles c krn n_row n_col = Some new_kernel \<and>
    length new_kernel = n_row * n_col \<and>
    holds_segs new_kernel (tile_seg c krn (tile_nonzero c krn)) (n_row div kernel_dim c * (n_col div MAX_W_COL c))"
proof -
  let ?K = "kernel_dim c" and ?C = "n_col div MAX_W_COL c" and ?f = "tile_seg c krn (tile_nonzero c krn)"
  let ?N = "n_row div ?K * ?C" and ?z = "replicate (n_row * n_col) (0 :: 32 word)"
  have tile: "n * tile_words c + tile_words c \<le> length krn" if "n < ?N" for n by (rule tile_bound [OF that krn])
  have len: "length (?f n) \<le> tile_words c" if "n < ?N" for n
    using length_dense_tile [OF tile [OF that]] by (simp add: tile_seg_def)
  have room: "seg_off ?f ?N \<le> length ?z"
    using seg_off_le [of ?N ?f, OF len] tiles_room [of n_row c n_col] by simp
  have "\<exists>cnt. for_list [0..<?N] (\<lambda>n (new_kernel, p, counter). do {
         let tile_index = n * ?K * MAX_W_COL c;
         all_zeros \<leftarrow> tile_all_zeros c krn tile_index;
         if \<not> all_zeros then do {
           (new_kernel, p) \<leftarrow> copy_tile c krn tile_index (new_kernel, p);
           Some (new_kernel, p, counter)
         } else Some (new_kernel, p, counter + 1)
       }) (?z, 0, 0 :: nat) = Some (overlay (concat (map ?f [0..<?N])) ?z, seg_off ?f ?N, cnt)"
    by (rule emit_loop [OF _ room])
      (auto simp: Let_def tile tile_all_zeros_spec copy_tile_spec tile_seg_def length_dense_tile)
  then show ?thesis
    using room unfolding remove_zero_tiles_def for_list_nest div_mult_mod_eq
    by (auto simp: holds_segs_overlay seg_off_def)
qed

lemma hidden_flag_spec:
  assumes krn: "n_row div kernel_dim c * (n_col div MAX_W_COL c) * tile_words c \<le> length krn"
    and ok: "cfg_ok c"
  shows "\<exists>new_kernel. interleave_hidden_flag_zero_free c krn n_row n_col key = Some new_kernel \<and>
    length new_kernel = n_row * n_col \<and>
    holds_segs new_kernel (hidden_seg c krn (tile_nonzero c krn) key) (n_row div kernel_dim c * (n_col div MAX_W_COL c))"
proof -
  let ?K = "kernel_dim c" and ?C = "n_col div MAX_W_COL c" and ?f = "hidden_seg c krn (tile_nonzero c krn) key"
  let ?N = "n_row div ?K * ?C" and ?z = "replicate (n_row * n_col) (0 :: 32 word)"
  have tile: "n * tile_words c + tile_words c \<le> length krn" if "n < ?N" for n by (rule tile_bound [OF that krn])
  have len: "length (?f n) \<le> tile_words c" if "n < ?N" for n
    using length_dense_tile [OF tile [OF that]] tile_words_pos [OF ok] by (simp add: hidden_seg_def)
  have room: "seg_off ?f ?N \<le> length ?z"
    using seg_off_le [of ?N ?f, OF len] tiles_room [of n_row c n_col] by simp
  have "\<exists>cnt. for_list [0..<?N] (\<lambda>n (new_kernel, p, counter). do {
         let tile_index = n * ?K * MAX_W_COL c;
         all_zeros \<leftarrow> tile_all_zeros c krn tile_index;
         if \<not> all_zeros then do {
           (new_kernel, p) \<leftarrow> copy_tile c krn tile_index (new_kernel, p);
           Some (new_kernel, p, counter)
         } else do {
           new_kernel \<leftarrow> wr new_kernel p key;
           Some (new_kernel, p + 1, counter + 1)
         }
       }) (?z, 0, 0 :: nat) = Some (overlay (concat (map ?f [0..<?N])) ?z, seg_off ?f ?N, cnt)"
    by (rule emit_loop [OF _ room])
      (auto simp: Let_def tile tile_all_zeros_spec copy_tile_spec hidden_seg_def length_dense_tile wr_overlay)
  then show ?thesis
    using room unfolding interleave_hidden_flag_zero_free_def for_list_nest div_mult_mod_eq
    by (auto simp: holds_segs_overlay seg_off_def)
qed

subsection \<open>Writers of compressed indices\<close>

lemma sel_prefix:
  assumes "j < Q"
  shows "filter (P i) [0..<Suc j] = filter (P i) [0..<j] @ (if P i j then [j] else [])"
    and "length (filter (P i) [0..<j]) + (if P i j then 1 else 0) \<le> length (sel P Q i)"
proof -
  show step: "filter (P i) [0..<Suc j] = filter (P i) [0..<j] @ (if P i j then [j] else [])" by simp
  have "[0..<Q] = [0..<Suc j] @ [Suc j..<Q]" using assms upt_add_eq_append [of 0 "Suc j" "Q - Suc j"] by simp
  then have "length (filter (P i) [0..<Suc j]) \<le> length (sel P Q i)" by (simp add: sel_def)
  then show "length (filter (P i) [0..<j]) + (if P i j then 1 else 0) \<le> length (sel P Q i)"
    unfolding step by (cases "P i j") auto
qed

lemma compress_inner:
  assumes scan: "\<And>j. j < Q \<Longrightarrow> tile_all_zeros c krn (off i j) = Some (\<not> P i j)"
    and room: "length ys + length (sel P Q i) \<le> length ind" "length ys + length (sel P Q i) \<le> length vals"
    and len: "length zs = length ys"
  shows "for_list [0..<Q] (\<lambda>j. record_tile c krn (off i j) j) (overlay ys ind, overlay zs vals, length ys) =
    Some (overlay (ys @ sel P Q i) ind, overlay (zs @ map (off i) (sel P Q i)) vals, length ys + length (sel P Q i))"
proof -
  let ?sel = "\<lambda>j. filter (P i) [0..<j]"
  let ?I = "\<lambda>j s. s = (overlay (ys @ ?sel j) ind, overlay (zs @ map (off i) (?sel j)) vals, length ys + length (?sel j))"
  have "\<exists>s. for_list [0..<Q] (\<lambda>j. record_tile c krn (off i j) j) (overlay ys ind, overlay zs vals, length ys)
      = Some s \<and> ?I Q s"
  proof (rule for_up_rule [where I = ?I])
    fix j s assume j: "j < Q" and s: "?I j s"
    note pre = sel_prefix [OF j, of P i]
    show "\<exists>s'. record_tile c krn (off i j) j s = Some s' \<and> ?I (Suc j) s'"
    proof (cases "P i j")
      case True
      then have "wr (overlay (ys @ ?sel j) ind) (length ys + length (?sel j)) j = Some (overlay (ys @ ?sel j @ [j]) ind)"
        "wr (overlay (zs @ map (off i) (?sel j)) vals) (length ys + length (?sel j)) (off i j) =
          Some (overlay (zs @ map (off i) (?sel j) @ [off i j]) vals)"
        using pre(2) room len wr_overlay [of "ys @ ?sel j" ind j]
          wr_overlay [of "zs @ map (off i) (?sel j)" vals "off i j"] by simp_all
      with True s scan [OF j] show ?thesis by (simp add: record_tile_def)
    next
      case False
      with s scan [OF j] show ?thesis by (simp add: record_tile_def)
    qed
  qed auto
  then show ?thesis by (simp add: sel_def)
qed

lemma compress_loop:
  fixes c :: "('a::len, 'w::len) sa_cfg"
  assumes scan: "\<And>i j. i < outer \<Longrightarrow> j < Q \<Longrightarrow> tile_all_zeros c krn (off i j) = Some (\<not> P i j)"
    and room: "seg_off (sel P Q) outer \<le> length ind" "seg_off (sel P Q) outer \<le> length vals"
    and ptr: "outer < length ptr" "ptr ! 0 = 0"
    and body: "\<And>i ind ptr vals nnz. body i (mk (ind, ptr, vals, nnz)) = do {
      (ind, vals, nnz) \<leftarrow> for_list [0..<Q] (\<lambda>j. record_tile c krn (off i j) j) (ind, vals, nnz);
      ptr \<leftarrow> wr ptr (i + 1) nnz;
      Some (mk (ind, ptr, vals, nnz)) }"
  shows "\<exists>ind' ptr' vals'. for_list [0..<outer] body (mk (ind, ptr, vals, 0)) =
      Some (mk (ind', ptr', vals', seg_off (sel P Q) outer)) \<and> compressed_data P outer Q off ptr' ind' vals'"
proof -
  let ?f = "sel P Q" and ?g = "\<lambda>i. map (off i) (sel P Q i)"
  let ?cat = "\<lambda>f n. concat (map f [0..<n])"
  let ?I = "\<lambda>n s. \<exists>ptr'. s = mk (overlay (?cat ?f n) ind, ptr', overlay (?cat ?g n) vals, length (?cat ?f n)) \<and>
      length ptr' = length ptr \<and> (\<forall>k\<le>n. ptr' ! k = seg_off ?f k)"
  have lens: "length (?cat ?g n) = length (?cat ?f n)" for n by (induction n) auto
  have "\<exists>s. for_list [0..<outer] body (mk (ind, ptr, vals, 0)) = Some s \<and> ?I outer s"
  proof (rule for_up_rule [where I = ?I])
    show "?I 0 (mk (ind, ptr, vals, 0))" using ptr(2) by auto
    fix i s assume i: "i < outer" and "?I i s"
    then obtain ptr' where s: "s = mk (overlay (?cat ?f i) ind, ptr', overlay (?cat ?g i) vals, length (?cat ?f i))"
      and len: "length ptr' = length ptr" and ptr': "\<forall>k\<le>i. ptr' ! k = seg_off ?f k" by blast
    have fit: "length (?cat ?f i) + length (?f i) \<le> length ind" "length (?cat ?f i) + length (?f i) \<le> length vals"
      using seg_off_bound [OF i, of ?f] room by (simp_all add: seg_off_def)
    have inner: "for_list [0..<Q] (\<lambda>j. record_tile c krn (off i j) j)
        (overlay (?cat ?f i) ind, overlay (?cat ?g i) vals, length (?cat ?f i)) =
      Some (overlay (?cat ?f (Suc i)) ind, overlay (?cat ?g (Suc i)) vals, length (?cat ?f (Suc i)))"
      using compress_inner [where P = P and off = off and i = i, OF scan [OF i] fit lens] by simp
    have "\<forall>k\<le>Suc i. ptr'[Suc i := length (?cat ?f i) + length (?f i)] ! k = seg_off ?f k"
      using ptr' i ptr(1) len by (auto simp: nth_list_update le_Suc_eq seg_off_def)
    with i len ptr(1) inner show "\<exists>s'. body i s = Some s' \<and> ?I (Suc i) s'"
      by (auto simp: s body wr_def)
  qed simp
  then obtain ptr' where loop: "for_list [0..<outer] body (mk (ind, ptr, vals, 0)) =
      Some (mk (overlay (?cat ?f outer) ind, ptr', overlay (?cat ?g outer) vals, seg_off ?f outer))"
    and len: "length ptr' = length ptr" "\<forall>k\<le>outer. ptr' ! k = seg_off ?f k" by (auto simp: seg_off_def)
  have "compressed_data P outer Q off ptr' (overlay (?cat ?f outer) ind) (overlay (?cat ?g outer) vals)"
    using room ptr(1) lens [of outer] len by (simp add: compressed_data_def holds_segs_overlay seg_off_def)
  with loop show ?thesis by blast
qed

text \<open>The dimensions a kernel and a multiplier agree on: \<^verbatim>\<open>n_col\<close> counts bus words.\<close>

definition dims_ok :: "('a::len, 'w::len) sa_cfg \<Rightarrow> multiplier \<Rightarrow> nat \<Rightarrow> nat \<Rightarrow> bool" where
  "dims_ok c m n_row n_col \<longleftrightarrow> input_size m = n_row \<and> output_size m = n_col * W_PER_BUS c"

lemma dims:
  assumes "cfg_ok c" "dims_ok c m n_row n_col"
  shows "n_row div kernel_dim c = row_in_w c m" "n_col div MAX_W_COL c = col_in_w c m"
  using assms cfg_okD(3,7) [OF assms(1)]
  by (auto simp: row_in_w_def col_in_w_def dims_ok_def simp flip: cfg_okD(7) [OF assms(1)])

lemma scan_tile:
  assumes "kernel_ok c m krn" "i < col_in_w c m" "j < row_in_w c m"
  shows "tile_all_zeros c krn ((i * row_in_w c m + j) * kernel_dim c * MAX_W_COL c) =
    Some (\<not> tile_nonzero c krn (mem2d (row_in_w c m) i j))"
  using tile_all_zeros_spec [OF kernel_tile_fits(1) [OF assms(1) mem2d_less [OF assms(2,3)]]]
  by (simp add: mem2d_def)

lemma dense2csr_spec:
  assumes "cfg_ok c" "dims_ok c m n_row n_col" "kernel_ok c m krn"
    and "row_in_w c m < length row_ptr"
    and "row_in_w c m * col_in_w c m \<le> length col_ptr" "row_in_w c m * col_in_w c m \<le> length vals"
  shows "\<exists>col_ind' row_ptr' vals' nnz. dense2csr c krn n_row n_col col_ptr row_ptr vals =
      Some (col_ind', row_ptr', vals', nnz) \<and> csr_data c m (tile_nonzero c krn) col_ind' row_ptr' vals'"
proof -
  let ?R = "row_in_w c m" and ?C = "col_in_w c m"
  let ?P = "\<lambda>i j. tile_nonzero c krn (mem2d ?R j i)"
  let ?off = "\<lambda>i j. (j * ?R + i) * kernel_dim c * MAX_W_COL c"
  have room: "seg_off (sel ?P ?C) ?R \<le> ?R * ?C"
    by (rule seg_off_le) (simp add: sel_def order_trans [OF length_filter_le])
  have off: "?off = (\<lambda>i j. mem2d ?R j i * tile_words c)"
    by (simp add: mem2d_def tile_words_def mult.assoc fun_eq_iff)
  note loop = compress_loop [where off = ?off and P = ?P and outer = ?R and Q = ?C and c = c and krn = krn
      and ind = col_ptr and vals = vals and ptr = "row_ptr[0 := 0]"]
  show ?thesis
    unfolding dense2csr_def dims [OF assms(1,2)] csr_data_def Let_def off [symmetric]
    using loop [where mk = "\<lambda>x. x" and body = "\<lambda>i (col_ptr, row_ptr, values, nnz). do {
       (col_ptr, values, nnz) \<leftarrow> for_list [0..<?C] (\<lambda>j. record_tile c krn (?off i j) j) (col_ptr, values, nnz);
       row_ptr \<leftarrow> wr row_ptr (i + 1) nnz;
       Some (col_ptr, row_ptr, values, nnz) }"] scan_tile [OF assms(3)] room assms(4-6)
    by (auto simp: wr_def)
qed

lemma dense2csc_spec:
  assumes "cfg_ok c" "dims_ok c m n_row n_col" "kernel_ok c m krn"
    and "col_in_w c m < length col_ptr"
    and "col_in_w c m * row_in_w c m \<le> length row_ind" "col_in_w c m * row_in_w c m \<le> length vals"
  shows "\<exists>col_ptr' row_ind' vals' nnz. dense2csc c krn n_row n_col col_ptr row_ind vals =
      Some (col_ptr', row_ind', vals', nnz) \<and> csc_data c m (tile_nonzero c krn) col_ptr' row_ind' vals'"
proof -
  let ?R = "row_in_w c m" and ?C = "col_in_w c m"
  let ?P = "\<lambda>i j. tile_nonzero c krn (mem2d ?R i j)"
  let ?off = "\<lambda>i j. (i * ?R + j) * kernel_dim c * MAX_W_COL c"
  have room: "seg_off (sel ?P ?R) ?C \<le> ?C * ?R"
    by (rule seg_off_le) (simp add: sel_def order_trans [OF length_filter_le])
  have off: "?off = (\<lambda>i j. mem2d ?R i j * tile_words c)"
    by (simp add: mem2d_def tile_words_def mult.assoc fun_eq_iff)
  note loop = compress_loop [where off = ?off and P = ?P and outer = ?C and Q = ?R and c = c and krn = krn
      and ind = row_ind and vals = vals and ptr = "col_ptr[0 := 0]"]
  show ?thesis
    unfolding dense2csc_def dims [OF assms(1,2)] csc_data_def Let_def off [symmetric]
    using loop [where mk = "\<lambda>(ind, ptr, vals, nnz). (ptr, ind, vals, nnz)"
        and body = "\<lambda>i (col_ptr, row_ind, values, nnz). do {
       (row_ind, values, nnz) \<leftarrow> for_list [0..<?R] (\<lambda>j. record_tile c krn (?off i j) j) (row_ind, values, nnz);
       col_ptr \<leftarrow> wr col_ptr (i + 1) nnz;
       Some (col_ptr, row_ind, values, nnz) }"] scan_tile [OF assms(3)] room assms(4-6)
    by (auto simp: wr_def)
qed

subsection \<open>The writer of the two-level metadata\<close>

lemma block_tiles_0 [simp]: "block_tiles c R krn P j 0 = []"
  by (simp add: block_tiles_def)

lemma block_tiles_Suc [simp]:
  "block_tiles c R krn P j (Suc i) = block_tiles c R krn P j i @ tile_seg c krn P (mem2d R j i)"
  by (simp add: block_tiles_def)

lemma tile_stream_Suc:
  "concat (map (tile_seg c krn P) [0..<Suc j * R]) =
     concat (map (tile_seg c krn P) [0..<j * R]) @ block_tiles c R krn P j R"
proof -
  have "[0..<Suc j * R] = [0..<j * R] @ map (mem2d R j) [0..<R]"
    using upt_mult_concat [of "Suc j" R] upt_mult_concat [of j R] by simp
  then show ?thesis by (simp add: block_tiles_def o_def)
qed

lemma length_block_tiles:
  assumes "kernel_ok c m krn" "j < col_in_w c m" "i \<le> row_in_w c m"
  shows "length (block_tiles c (row_in_w c m) krn P j i) \<le> i * tile_words c"
  using assms(3)
proof (induction i)
  case 0
  then show ?case by simp
next
  case (Suc i)
  then have "length (tile_seg c krn P (mem2d (row_in_w c m) j i)) \<le> tile_words c"
    using kernel_tile_fits(3) [OF assms(1) mem2d_less [OF assms(2)]] by (simp add: tile_seg_def)
  with Suc show ?case by simp
qed

lemma meta_column:
  fixes c :: "('a::len, 'w::len) sa_cfg" and krn m2 :: "32 word list" and m :: multiplier
  defines "P \<equiv> tile_nonzero c krn" and "R \<equiv> row_in_w c m"
  assumes ker: "kernel_ok c m krn" and j: "j < col_in_w c m"
    and room: "length ys + R * tile_words c \<le> length xs" and m2: "S + R \<le> length m2"
  shows "\<exists>m2'. for_list [0..<R] (meta_row c krn R S j) (overlay ys xs, length ys, m2, True) =
      Some (overlay (ys @ block_tiles c R krn P j R) xs, length (ys @ block_tiles c R krn P j R), m2', \<not> col_used R P j) \<and>
    length m2' = length m2 \<and> (\<forall>k<S. m2' ! k = m2 ! k) \<and> (\<forall>k<R. m2' ! (S + k) = of_bool (P (mem2d R j k)))"
proof -
  let ?bt = "block_tiles c R krn P j"
  let ?I = "\<lambda>i s. \<exists>m2'. s = (overlay (ys @ ?bt i) xs, length (ys @ ?bt i), m2', \<not> (\<exists>k<i. P (mem2d R j k))) \<and>
      length m2' = length m2 \<and> (\<forall>k<S. m2' ! k = m2 ! k) \<and> (\<forall>k<i. m2' ! (S + k) = of_bool (P (mem2d R j k)))"
  have "\<exists>s. for_list [0..<R] (meta_row c krn R S j) (overlay ys xs, length ys, m2, True) = Some s \<and> ?I R s"
  proof (rule for_up_rule [where I = ?I])
    fix i s assume i: "i < R" and "?I i s"
    then obtain m2' where s: "s = (overlay (ys @ ?bt i) xs, length (ys @ ?bt i), m2', \<not> (\<exists>k<i. P (mem2d R j k)))"
      and m2': "length m2' = length m2" "\<forall>k<S. m2' ! k = m2 ! k" "\<forall>k<i. m2' ! (S + k) = of_bool (P (mem2d R j k))"
      by blast
    let ?m = "m2'[S + i := of_bool (P (mem2d R j i))]"
    have scan: "tile_all_zeros c krn ((j * R + i) * kernel_dim c * MAX_W_COL c) = Some (\<not> P (mem2d R j i))"
      using scan_tile [OF ker j i [unfolded R_def]] by (simp add: P_def R_def)
    have fits: "mem2d R j i * tile_words c + tile_words c \<le> length krn"
      using kernel_tile_fits(1) [OF ker mem2d_less [OF j]] i by (simp add: R_def)
    have "length (?bt i) + tile_words c \<le> R * tile_words c"
      using length_block_tiles [OF ker j, of i P] i mult_le_mono1 [of "Suc i" R "tile_words c"] by (simp add: R_def)
    then have copy: "copy_tile c krn ((j * R + i) * kernel_dim c * MAX_W_COL c) (overlay (ys @ ?bt i) xs, length (ys @ ?bt i)) =
        Some (overlay (ys @ ?bt i @ dense_tile c krn (mem2d R j i)) xs, length (ys @ ?bt i) + tile_words c)"
      using copy_tile_spec [OF fits, of "ys @ ?bt i" xs] room by (simp add: mem2d_def)
    have w: "wr m2' (S + i) v = Some (m2'[S + i := v])" for v using m2'(1) m2 i by (simp add: wr_def)
    have "length ?m = length m2" "\<forall>k<S. ?m ! k = m2 ! k" "\<forall>k<Suc i. ?m ! (S + k) = of_bool (P (mem2d R j k))"
      using m2' m2 i by (auto simp: less_Suc_eq)
    moreover have "meta_row c krn R S j i s = Some (overlay (ys @ ?bt (Suc i)) xs, length (ys @ ?bt (Suc i)), ?m,
        \<not> (\<exists>k<Suc i. P (mem2d R j k)))"
      using length_dense_tile [OF fits]
      by (auto simp: s meta_row_def Let_def scan w copy [simplified] tile_seg_def less_Suc_eq)
    ultimately show "\<exists>s'. meta_row c krn R S j i s = Some s' \<and> ?I (Suc i) s'" by blast
  qed auto
  then show ?thesis by (auto simp: col_used_def)
qed

lemma used_before_le: "used_before R P i \<le> i"
  by (induction i) (auto simp: used_before_def)

lemma tile_stream_len:
  assumes "kernel_ok c m krn" "N \<le> col_in_w c m * row_in_w c m"
  shows "length (concat (map (tile_seg c krn P) [0..<N])) \<le> N * tile_words c"
proof -
  have "seg_off (tile_seg c krn P) N \<le> N * tile_words c"
    using assms(2) by (intro seg_off_le) (simp add: tile_seg_def kernel_tile_fits(3) [OF assms(1)])
  then show ?thesis by (simp add: seg_off_def)
qed

lemma tile_stream_room:
  assumes "kernel_ok c m krn" "j < col_in_w c m"
  shows "length (concat (map (tile_seg c krn P) [0..<j * row_in_w c m])) + row_in_w c m * tile_words c
    \<le> col_in_w c m * row_in_w c m * tile_words c"
proof -
  let ?R = "row_in_w c m" and ?t = "tile_words c"
  have "length (concat (map (tile_seg c krn P) [0..<j * ?R])) \<le> j * ?R * ?t"
    using assms by (intro tile_stream_len mult_le_mono1) auto
  moreover have "Suc j * ?R * ?t \<le> col_in_w c m * ?R * ?t" using assms(2) by (intro mult_le_mono1) simp
  ultimately show ?thesis by (simp add: algebra_simps)
qed

lemma dense2metaData_spec:
  assumes "cfg_ok c" "dims_ok c m n_row n_col" and ker: "kernel_ok c m krn"
    and m1: "col_in_w c m \<le> length m1" and m2: "col_in_w c m * row_in_w c m \<le> length m2"
  shows "\<exists>new_kernel m1' m2'. dense2metaData c krn n_row n_col m1 m2 = Some (new_kernel, m1', m2') \<and>
    meta_data c m krn (tile_nonzero c krn) m1' m2' new_kernel"
proof -
  let ?R = "row_in_w c m" and ?C = "col_in_w c m" and ?P = "tile_nonzero c krn"
  let ?z = "replicate (n_row * n_col) (0 :: 32 word)" and ?U = "used_before ?R ?P"
  let ?st = "\<lambda>j. concat (map (tile_seg c krn ?P) [0..<j * ?R])"
  have zroom: "?C * ?R * tile_words c \<le> length ?z"
    using tiles_room [of n_row c n_col] dims [OF assms(1,2)] by (simp add: mult_ac)
  let ?I = "\<lambda>j s. \<exists>(m1' :: 32 word list) (m2' :: 32 word list). s = (overlay (?st j) ?z, length (?st j), m1', m2', ?U j * ?R) \<and>
      length m1' = length m1 \<and> length m2' = length m2 \<and> (\<forall>i<j. m1' ! i = of_bool (col_used ?R ?P i)) \<and>
      (\<forall>i<j. col_used ?R ?P i \<longrightarrow> (\<forall>k<?R. m2' ! mem2d ?R (?U i) k = of_bool (?P (mem2d ?R i k))))"
  let ?body = "\<lambda>j (new_kernel, p, m1, m2, m2StartIndex). do {
         (new_kernel, p, m2, columnAllZeros) \<leftarrow>
           for_list [0..<?R] (meta_row c krn ?R m2StartIndex j) (new_kernel, p, m2, True);
         if columnAllZeros then do {
           m1 \<leftarrow> wr m1 j 0;
           Some (new_kernel, p, m1, m2, m2StartIndex)
         } else do {
           m1 \<leftarrow> wr m1 j 1;
           Some (new_kernel, p, m1, m2, m2StartIndex + ?R)
         } }"
  have "\<exists>s. for_list [0..<?C] ?body (?z, 0, m1, m2, 0) = Some s \<and> ?I ?C s"
  proof (rule for_up_rule [where I = ?I])
    show "?I 0 (?z, 0, m1, m2, 0)" by (auto simp: used_before_def)
    fix j s assume j: "j < ?C" and "?I j s"
    then obtain m1' m2' :: "32 word list" where s: "s = (overlay (?st j) ?z, length (?st j), m1', m2', ?U j * ?R)"
      and len: "length m1' = length m1" "length m2' = length m2"
      and m1': "\<forall>i<j. m1' ! i = of_bool (col_used ?R ?P i)"
      and m2': "\<forall>i<j. col_used ?R ?P i \<longrightarrow> (\<forall>k<?R. m2' ! mem2d ?R (?U i) k = of_bool (?P (mem2d ?R i k)))" by blast
    have "Suc (?U j) * ?R \<le> ?C * ?R" using used_before_le [of ?R ?P j] j by (intro mult_le_mono1) simp
    then have S: "?U j * ?R + ?R \<le> length m2'" using m2 len by simp
    have room: "length (?st j) + ?R * tile_words c \<le> length ?z"
      using tile_stream_room [OF ker j, of ?P] zroom by simp
    obtain m3 where col: "for_list [0..<?R] (meta_row c krn ?R (?U j * ?R) j) (overlay (?st j) ?z, length (?st j), m2', True) =
        Some (overlay (?st (Suc j)) ?z, length (?st (Suc j)), m3, \<not> col_used ?R ?P j)"
      and m3: "length m3 = length m2'" "\<forall>k<?U j * ?R. m3 ! k = m2' ! k"
        "\<forall>k<?R. m3 ! (?U j * ?R + k) = of_bool (?P (mem2d ?R j k))"
      using meta_column [OF ker j room S] unfolding tile_stream_Suc by blast
    have old: "m3 ! mem2d ?R (?U i) k = of_bool (?P (mem2d ?R i k))" if i: "i < j" "col_used ?R ?P i" and k: "k < ?R" for i k
    proof -
      have "?U i < ?U j" using used_before_mono [of "Suc i" j ?R ?P] i by simp
      then have "mem2d ?R (?U i) k < ?U j * ?R" using k by (rule mem2d_less)
      with m3(2) m2' i k show ?thesis by simp
    qed
    let ?m1 = "m1'[j := of_bool (col_used ?R ?P j)]"
    have "?body j s = Some (overlay (?st (Suc j)) ?z, length (?st (Suc j)), ?m1, m3, ?U (Suc j) * ?R)"
      using len m1 j by (simp add: s col wr_def)
    moreover have "\<forall>i<Suc j. ?m1 ! i = of_bool (col_used ?R ?P i)"
      using m1' len m1 j by (auto simp: less_Suc_eq nth_list_update)
    moreover have "\<forall>i<Suc j. col_used ?R ?P i \<longrightarrow> (\<forall>k<?R. m3 ! mem2d ?R (?U i) k = of_bool (?P (mem2d ?R i k)))"
      using old m3(3) by (auto simp: less_Suc_eq mem2d_def)
    ultimately show "\<exists>s'. ?body j s = Some s' \<and> ?I (Suc j) s'" using len m3(1)
      by (intro exI conjI) (assumption | rule refl | simp)+
  qed simp
  then obtain m1' m2' where run: "for_list [0..<?C] ?body (?z, 0, m1, m2, 0) =
      Some (overlay (?st ?C) ?z, length (?st ?C), m1', m2', ?U ?C * ?R)"
    and len: "length m1' = length m1" "length m2' = length m2"
    and m12: "\<forall>i<?C. m1' ! i = of_bool (col_used ?R ?P i)"
      "\<forall>i<?C. col_used ?R ?P i \<longrightarrow> (\<forall>k<?R. m2' ! mem2d ?R (?U i) k = of_bool (?P (mem2d ?R i k)))" by blast
  have "?U ?C * ?R \<le> length m2'"
    using order_trans [OF mult_le_mono1 [OF used_before_le] m2] len by simp
  moreover have "length (?st ?C) \<le> length ?z"
    using tile_stream_len [OF ker order_refl, of ?P] zroom by simp
  ultimately have "meta_data c m krn ?P m1' m2' (overlay (?st ?C) ?z)"
    using len m12 m1 by (simp add: meta_data_def Let_def holds_segs_overlay)
  with run show ?thesis unfolding dense2metaData_def dims [OF assms(1,2)] by auto
qed

subsection \<open>The writer of the interleaved metadata\<close>

text \<open>The metadata words of a column whose first \<open>n\<close> tiles have been seen.\<close>

definition meta_words :: "nat \<Rightarrow> (nat \<Rightarrow> bool) \<Rightarrow> nat \<Rightarrow> 32 word list" where
  "meta_words M f n =
     map (\<lambda>k. horner_sum of_bool 2 (map (\<lambda>b. 32 * k + b < n \<and> f (32 * k + b)) [0..<32])) [0..<M]"

lemma length_meta_words [simp]: "length (meta_words M f n) = M"
  by (simp add: meta_words_def)

lemma bit_meta_words:
  "k < M \<Longrightarrow> bit (meta_words M f n ! k) b \<longleftrightarrow> b < 32 \<and> 32 * k + b < n \<and> f (32 * k + b)"
  by (auto simp: meta_words_def bit_horner_sum_bit_word_iff)

lemma meta_words_0: "meta_words M f 0 = replicate M 0"
  by (rule nth_equalityI) (auto intro!: bit_word_eqI simp: bit_meta_words)

lemma meta_words_Suc:
  assumes "n div 32 < M"
  shows "meta_words M f (Suc n) = (if f n
    then (meta_words M f n)[n div 32 := meta_words M f n ! (n div 32) OR push_bit (n mod 32) 1]
    else meta_words M f n)" (is "?l = ?r")
proof (rule nth_equalityI)
  show "length ?l = length ?r" by simp
  fix k assume "k < length ?l"
  then have k: "k < M" by simp
  have pos: "32 * k + b = n \<longleftrightarrow> k = n div 32 \<and> b = n mod 32" if "b < 32" for b
    using that by (metis div_mult_mod_eq mem2d_def mem2d_div mem2d_mod mult.commute)
  have one: "bit (push_bit (n mod 32) (1 :: 32 word)) b \<longleftrightarrow> b = n mod 32" if "b < 32" for b
    using that by (auto simp: bit_exp_iff)
  have "bit (?l ! k) b \<longleftrightarrow> bit (?r ! k) b" if "b < 32" for b
    using k assms pos [OF that] one [OF that] that
    by (auto simp: bit_meta_words nth_list_update less_Suc_eq bit_or_iff)
  then show "?l ! k = ?r ! k" by (intro bit_word_eqI) simp
qed

lemma overlay_update:
  assumes "k < length ms"
  shows "(overlay (ys @ v # ms @ ts) xs)[length ys + 1 + k := w] = overlay (ys @ v # ms[k := w] @ ts) xs"
  using assms by (simp add: overlay_def list_update_append)

lemma block_tiles_mono: "i \<le> k \<Longrightarrow> length (block_tiles c R krn P j i) \<le> length (block_tiles c R krn P j k)"
  by (induction k) (auto simp: le_Suc_eq)

lemma meta_index: "i < (R::nat) \<Longrightarrow> i div 32 < (R + 31) div 32"
proof -
  assume "i < R"
  then have "(i + 32) div 32 \<le> (R + 31) div 32" by (intro div_le_mono) simp
  then show ?thesis by simp
qed

lemma Suc_div_mod_32: "Suc i div 32 = (if i mod 32 + 1 = 32 then i div 32 + 1 else i div 32)"
  "Suc i mod 32 = (if i mod 32 + 1 = 32 then 0 else i mod 32 + 1)"
  by (auto simp: div_Suc mod_Suc)

lemma meta_words_next: "Suc (i div 32) < M \<Longrightarrow> meta_words M f (Suc i) ! Suc (i div 32) = 0"
proof -
  assume k: "Suc (i div 32) < M"
  have "i < 32 * Suc (i div 32)" using dividend_less_div_times [of 32 i] by simp
  then have "\<not> 32 * Suc (i div 32) + b < Suc i" for b by linarith
  with k show ?thesis by (intro bit_word_eqI) (simp only: bit_meta_words, simp)
qed

lemma interleave_row_step:
  assumes ker: "kernel_ok c m krn" and j: "j < col_in_w c m" and i: "i < row_in_w c m"
    and M: "M = (row_in_w c m + 31) div 32"
    and room: "length ys + 1 + M + length (block_tiles c (row_in_w c m) krn (tile_nonzero c krn) j (row_in_w c m)) \<le> length xs"
  shows "interleave_row c krn (row_in_w c m) (length ys + 1 + M) j i
      (overlay (ys @ 0 # meta_words M (\<lambda>k. tile_nonzero c krn (mem2d (row_in_w c m) j k)) i @
          block_tiles c (row_in_w c m) krn (tile_nonzero c krn) j i) xs,
       length ys + 1 + M + length (block_tiles c (row_in_w c m) krn (tile_nonzero c krn) j i),
       length ys + 1 + i div 32, i mod 32) =
    Some (overlay (ys @ 0 # meta_words M (\<lambda>k. tile_nonzero c krn (mem2d (row_in_w c m) j k)) (Suc i) @
          block_tiles c (row_in_w c m) krn (tile_nonzero c krn) j (Suc i)) xs,
       length ys + 1 + M + length (block_tiles c (row_in_w c m) krn (tile_nonzero c krn) j (Suc i)),
       length ys + 1 + Suc i div 32, Suc i mod 32)"
proof -
  let ?R = "row_in_w c m" and ?P = "tile_nonzero c krn" and ?t = "tile_words c"
  let ?bt = "block_tiles c ?R krn ?P j" and ?mw = "meta_words M (\<lambda>k. ?P (mem2d ?R j k))"
  let ?ti = "(j * ?R + i) * kernel_dim c * MAX_W_COL c"
  have iM: "i div 32 < M" unfolding M by (rule meta_index [OF i])
  note scan = scan_tile [OF ker j i]
  have fits: "mem2d ?R j i * ?t + ?t \<le> length krn" by (rule kernel_tile_fits(1) [OF ker mem2d_less [OF j i]])
  have bt: "length (?bt i) + ?t \<le> length (?bt ?R)" if "?P (mem2d ?R j i)"
    by (rule block_tiles_nth(1) [where P = ?P and i = j, OF i that length_dense_tile [OF fits]])
  have copy: "copy_tile c krn ?ti (overlay (ys @ 0 # ms @ ?bt i) xs, length ys + 1 + M + length (?bt i)) =
      Some (overlay (ys @ 0 # ms @ ?bt (Suc i)) xs, length ys + 1 + M + length (?bt (Suc i)))"
    if "?P (mem2d ?R j i)" "length ms = M" for ms
    using copy_tile_spec [OF fits, of "ys @ 0 # ms @ ?bt i" xs] bt [OF that(1)] room that length_dense_tile [OF fits]
    by (simp add: mem2d_def tile_seg_def add.assoc)
  have meta: "rd (overlay (ys @ 0 # ?mw i @ ts) xs) (length ys + 1 + i div 32) = Some (?mw i ! (i div 32))"
    "wr (overlay (ys @ 0 # ?mw i @ ts) xs) (length ys + 1 + i div 32) w =
      Some (overlay (ys @ 0 # (?mw i)[i div 32 := w] @ ts) xs)"
    if "length ys + 1 + M + length ts \<le> length xs" for ts w
    using that iM overlay_update [of "i div 32" "?mw i" ys 0 ts xs w]
    by (simp_all add: rd_def wr_def overlay_def nth_append)
  have clear: "wr (overlay (ys @ 0 # ?mw (Suc i) @ ts) xs) (length ys + 1 + i div 32 + 1) 0 =
      Some (overlay (ys @ 0 # ?mw (Suc i) @ ts) xs)"
    if "length ys + 1 + M + length ts \<le> length xs" "length ys + 1 + i div 32 + 1 < length ys + 1 + M" for ts
  proof -
    have k: "Suc (i div 32) < M" using that(2) by simp
    from meta_words_next [OF k] have "(?mw (Suc i))[Suc (i div 32) := 0] = ?mw (Suc i)" by (metis list_update_id)
    then show ?thesis using overlay_update [of "Suc (i div 32)" "?mw (Suc i)" ys 0 ts xs 0] that k
      by (simp add: wr_def)
  qed
  have room': "length ys + 1 + M + length (?bt (Suc i)) \<le> length xs" "length ys + 1 + M + length (?bt i) \<le> length xs"
    using block_tiles_mono [of "Suc i" ?R c ?R krn ?P j] block_tiles_mono [of i ?R c ?R krn ?P j] i room by auto
  let ?new = "overlay (ys @ 0 # ?mw (Suc i) @ ?bt (Suc i)) xs"
  have mid: "(if \<not> ?P (mem2d ?R j i) then Some (overlay (ys @ 0 # ?mw i @ ?bt i) xs, length ys + 1 + M + length (?bt i)) else do {
      (nk, p) \<leftarrow> copy_tile c krn ?ti (overlay (ys @ 0 # ?mw i @ ?bt i) xs, length ys + 1 + M + length (?bt i));
      w \<leftarrow> rd nk (length ys + 1 + i div 32);
      nk \<leftarrow> wr nk (length ys + 1 + i div 32) (w OR push_bit (i mod 32) 1);
      Some (nk, p) }) = Some (?new, length ys + 1 + M + length (?bt (Suc i)))"
  proof (cases "?P (mem2d ?R j i)")
    case True
    then have "?mw (Suc i) = (?mw i)[i div 32 := ?mw i ! (i div 32) OR push_bit (i mod 32) 1]"
      using meta_words_Suc [OF iM, of "\<lambda>k. ?P (mem2d ?R j k)"] by simp
    then show ?thesis using True unfolding copy [OF True length_meta_words]
      by (simp del: block_tiles_Suc push_bit_of_1 One_nat_def add: meta [OF room'(1)])
  next
    case False
    then show ?thesis using meta_words_Suc [OF iM, of "\<lambda>k. ?P (mem2d ?R j k)"] by (simp add: tile_seg_def)
  qed
  show ?thesis
    unfolding interleave_row_def Let_def prod.case scan bind.bind_lunit mid Suc_div_mod_32
    using clear [OF room'(1)] by (simp del: block_tiles_Suc)
qed

lemma overlay_zeros:
  assumes "length ys + n \<le> L"
  shows "overlay (ys @ replicate n x) (replicate L x) = overlay ys (replicate L x)"
proof -
  have "replicate (L - length ys) x = replicate n x @ replicate (L - (length ys + n)) x"
    using assms by (metis diff_diff_left le_add_diff_inverse replicate_add add_le_imp_le_diff add.commute)
  then show ?thesis using assms by (simp add: overlay_def)
qed

definition meta_of :: "('a::len, 'w::len) sa_cfg \<Rightarrow> multiplier \<Rightarrow> 32 word list \<Rightarrow> nat \<Rightarrow> 32 word list" where
  "meta_of c m krn j = meta_words ((row_in_w c m + 31) div 32)
     (\<lambda>k. tile_nonzero c krn (mem2d (row_in_w c m) j k)) (row_in_w c m)"

abbreviation packed_seg :: "('a::len, 'w::len) sa_cfg \<Rightarrow> multiplier \<Rightarrow> 32 word list \<Rightarrow> nat \<Rightarrow> 32 word list" where
  "packed_seg c m krn \<equiv> interleaved_seg c (row_in_w c m) krn (tile_nonzero c krn) (meta_of c m krn)"

lemma interleave_column:
  assumes ker: "kernel_ok c m krn" and j: "j < col_in_w c m"
    and M: "M = (row_in_w c m + 31) div 32"
    and room: "length ys + length (packed_seg c m krn j) \<le> L"
  shows "do {
      (nk, p, _, _) \<leftarrow> for_list [0..<row_in_w c m] (interleave_row c krn (row_in_w c m) (length ys + 1 + M) j)
        (overlay ys (replicate L 0), length ys + 1 + M, length ys + 1, 0);
      nk \<leftarrow> wr nk (length ys) (word_of_nat (p - length ys));
      Some (nk, p) } =
    Some (overlay (ys @ packed_seg c m krn j) (replicate L 0), length (ys @ packed_seg c m krn j))"
proof -
  let ?R = "row_in_w c m" and ?P = "tile_nonzero c krn" and ?z = "replicate L (0 :: 32 word)"
  let ?bt = "block_tiles c ?R krn ?P j" and ?mw = "meta_words M (\<lambda>k. ?P (mem2d ?R j k))"
  have seg: "packed_seg c m krn j = word_of_nat (1 + M + length (?bt ?R)) # ?mw ?R @ ?bt ?R"
    by (simp add: interleaved_seg_def meta_of_def M)
  have room': "length ys + 1 + M + length (?bt ?R) \<le> length ?z" using room by (simp add: seg)
  let ?I = "\<lambda>i s. s = (overlay (ys @ 0 # ?mw i @ ?bt i) ?z, length ys + 1 + M + length (?bt i),
      length ys + 1 + i div 32, i mod 32)"
  have "\<exists>s. for_list [0..<?R] (interleave_row c krn ?R (length ys + 1 + M) j)
      (overlay ys ?z, length ys + 1 + M, length ys + 1, 0) = Some s \<and> ?I ?R s"
  proof (rule for_up_rule [where I = ?I])
    have "overlay ys ?z = overlay (ys @ replicate (Suc M) 0) ?z"
      using room' by (intro overlay_zeros [symmetric]) simp
    then show "?I 0 (overlay ys ?z, length ys + 1 + M, length ys + 1, 0)" by (simp add: meta_words_0)
    fix i s assume "i < ?R" "?I i s"
    then show "\<exists>s'. interleave_row c krn ?R (length ys + 1 + M) j i s = Some s' \<and> ?I (Suc i) s'"
      using interleave_row_step [OF ker j _ M room'] by blast
  qed simp
  moreover have "wr (overlay (ys @ 0 # ts) ?z) (length ys) v = Some (overlay (ys @ v # ts) ?z)"
    if "length ys + 1 + length ts \<le> L" for ts v
    using that by (simp add: wr_def overlay_def list_update_append)
  ultimately show ?thesis using room' by (auto simp: seg)
qed

lemma dense2interleavedMetaData_spec:
  assumes "cfg_ok c" "dims_ok c m n_row n_col" and ker: "kernel_ok c m krn"
    and room: "seg_off (packed_seg c m krn) (col_in_w c m) \<le> new_kernel_size c n_row n_col"
  shows "\<exists>new_kernel. dense2interleavedMetaData c krn n_row n_col = Some new_kernel \<and>
    holds_segs new_kernel (packed_seg c m krn) (col_in_w c m)"
proof -
  let ?R = "row_in_w c m" and ?C = "col_in_w c m" and ?L = "new_kernel_size c n_row n_col"
  let ?z = "replicate ?L (0 :: 32 word)" and ?f = "packed_seg c m krn" and ?M = "(row_in_w c m + 32 - 1) div 32"
  let ?cat = "\<lambda>j. concat (map ?f [0..<j])"
  let ?body = "\<lambda>j (nk, p). do {
      (nk, p', _, _) \<leftarrow> for_list [0..<?R] (interleave_row c krn ?R (p + 1 + ?M) j) (nk, p + 1 + ?M, p + 1, 0);
      nk \<leftarrow> wr nk p (word_of_nat (p' - p));
      Some (nk, p') }"
  let ?I = "\<lambda>j s. s = (overlay (?cat j) ?z, length (?cat j))"
  have "\<exists>s. for_list [0..<?C] ?body (?z, 0) = Some s \<and> ?I ?C s"
  proof (rule for_up_rule [where I = ?I])
    fix j s assume j: "j < ?C" and s: "?I j s"
    have "length (?cat j) + length (?f j) \<le> ?L"
      using seg_off_bound [OF j, of ?f] room by (simp add: seg_off_def)
    from interleave_column [OF ker j _ this, of ?M] s
    show "\<exists>s'. ?body j s = Some s' \<and> ?I (Suc j) s'" by (simp add: add.commute)
  qed auto
  then show ?thesis
    using room unfolding dense2interleavedMetaData_def dims [OF assms(1,2)] Let_def
    by (auto simp: seg_off_def intro: holds_segs_overlay)
qed

subsection \<open>Keys in place\<close>

definition keyed :: "('a::len, 'w::len) sa_cfg \<Rightarrow> 32 word \<Rightarrow> nat \<Rightarrow> 32 word list \<Rightarrow> 32 word list" where
  "keyed c key n krn = map (\<lambda>p. if p mod tile_words c = 0 \<and> p div tile_words c < n \<and> \<not> tile_nonzero (c\<lparr>w_nonzero := int_nonzero\<rparr>) krn (p div tile_words c)
     then key else krn ! p) [0..<length krn]"

lemma keyed_step:
  assumes ok: "cfg_ok c" and n: "n * tile_words c + tile_words c \<le> length krn"
  shows "do { all_zeros \<leftarrow> tile_all_zeros (c\<lparr>w_nonzero := int_nonzero\<rparr>) (keyed c key n krn) (n * kernel_dim c * MAX_W_COL c);
      if all_zeros then wr (keyed c key n krn) (n * kernel_dim c * MAX_W_COL c) key else Some (keyed c key n krn) } = Some (keyed c key (Suc n) krn)"
proof -
  let ?T = "tile_words c" and ?c = "c\<lparr>w_nonzero := int_nonzero\<rparr>"
  have T: "0 < ?T" by (rule tile_words_pos [OF ok])
  have geo: "kernel_dim ?c = kernel_dim c" "MAX_W_COL ?c = MAX_W_COL c" "tile_words ?c = ?T" "w_nonzero ?c = int_nonzero"
    by (simp_all add: MAX_W_COL_def W_PER_BUS_def tile_words_def)
  have idx: "n * kernel_dim c * MAX_W_COL c = n * ?T" by (simp add: tile_words_def mult.assoc)
  have len: "length (keyed c key n krn) = length krn" by (simp add: keyed_def)
  have same: "keyed c key n krn ! (n * ?T + k) = krn ! (n * ?T + k)" if "k < ?T" for k
    using that n by (simp add: keyed_def)
  have "tile_nonzero ?c (keyed c key n krn) n = tile_nonzero ?c krn n"
    using n same by (simp add: tile_nonzero_iff geo len cong: conj_cong)
  moreover have "tile_all_zeros ?c (keyed c key n krn) (n * kernel_dim c * MAX_W_COL c) = Some (\<not> tile_nonzero ?c (keyed c key n krn) n)"
    using tile_all_zeros_spec [of n ?c "keyed c key n krn"] n by (simp add: geo keyed_def)
  moreover have "(keyed c key n krn)[n * ?T := key] = keyed c key (Suc n) krn" if "\<not> tile_nonzero ?c krn n"
  proof (rule nth_equalityI)
    fix p assume "p < length ((keyed c key n krn)[n * ?T := key])"
    moreover have "p = n * ?T \<longleftrightarrow> p mod ?T = 0 \<and> p div ?T = n" using T by auto
    ultimately show "(keyed c key n krn)[n * ?T := key] ! p = keyed c key (Suc n) krn ! p"
      using that by (auto simp: keyed_def nth_list_update less_Suc_eq)
  qed (simp add: keyed_def)
  moreover have "keyed c key n krn = keyed c key (Suc n) krn" if "tile_nonzero ?c krn n"
    using that by (auto simp: keyed_def less_Suc_eq)
  moreover have "n * ?T < length (keyed c key n krn)" using n T by (simp add: keyed_def)
  ultimately show ?thesis by (simp add: idx wr_def)
qed

text \<open>Exactly the zero tiles are marked, and nothing else is changed.\<close>

lemma interleave_hidden_flag_run:
  assumes "cfg_ok c" "n_row div kernel_dim c * (n_col div MAX_W_COL c) * tile_words c \<le> length krn"
  shows "interleave_hidden_flag c n_row n_col key krn = Some (keyed c key (n_row div kernel_dim c * (n_col div MAX_W_COL c)) krn)"
proof -
  let ?C = "n_col div MAX_W_COL c" and ?N = "n_row div kernel_dim c * (n_col div MAX_W_COL c)"
  have "\<exists>out. for_list [0..<?N] (\<lambda>n krn. do { all_zeros \<leftarrow> tile_all_zeros (c\<lparr>w_nonzero := int_nonzero\<rparr>) krn (n * kernel_dim c * MAX_W_COL c);
      if all_zeros then wr krn (n * kernel_dim c * MAX_W_COL c) key else Some krn }) krn = Some out \<and> out = keyed c key ?N krn"
  proof (rule for_up_rule)
    show "krn = keyed c key 0 krn" by (simp add: keyed_def map_nth)
    fix n xs assume "n < ?N" and xs: "xs = keyed c key n krn"
    from tile_bound [OF this(1) assms(2)] show "\<exists>ys. do { all_zeros \<leftarrow> tile_all_zeros (c\<lparr>w_nonzero := int_nonzero\<rparr>) xs (n * kernel_dim c * MAX_W_COL c);
      if all_zeros then wr xs (n * kernel_dim c * MAX_W_COL c) key else Some xs } = Some ys \<and> ys = keyed c key (Suc n) krn"
      unfolding xs keyed_step [OF assms(1) \<open>n * tile_words c + tile_words c \<le> length krn\<close>] by simp
  qed simp
  then show ?thesis unfolding interleave_hidden_flag_def for_list_nest Let_def div_mult_mod_eq by simp
qed

end
