(* ===== verification/TiC_Matmul.thy ===== *)
theory TiC_Matmul
  imports TiC_Sparse_Rep
begin

text \<open>
  Writers and readers together. For every storage format: a dense integer kernel is written in the format, the
  multiplier reads it back, and the output has accumulated the matrix product. The lemmas are proved once for any
  accelerator that keeps the contract; the properties state them for the simulated accelerator.
\<close>

subsection \<open>The product\<close>

definition int_arith :: "('a::len, 'w::len) sa_cfg \<Rightarrow> bool" where
  "int_arith c \<longleftrightarrow> mac c = mac_int \<and> act_add c = (+) \<and> w_nonzero c = int_nonzero"

definition is_product ::
  "('a::len, 'w::len) sa_cfg \<Rightarrow> multiplier \<Rightarrow> 32 word list \<Rightarrow> 32 word list \<Rightarrow> 32 word list \<Rightarrow> 32 word list \<Rightarrow> bool" where
  "is_product c m input krn output output' \<longleftrightarrow> length output' = length output \<and>
     (\<forall>t<mult_seq_len m. \<forall>j<col_in_w c m * kernel_dim c.
        act_at c (mult_seq_len m) output' t j = act_at c (mult_seq_len m) output t j +
          (\<Sum>k<row_in_w c m * kernel_dim c.
             act_at c (mult_seq_len m) input t k * scast (weight_at c (row_in_w c m) krn k j))) \<and>
     (\<forall>p. col_in_w c m * MAX_ACT_COL c * mult_seq_len m \<le> p \<longrightarrow> p < length output \<longrightarrow> output' ! p = output ! p)"

lemma int_arith_int_cfg [simp]: "int_arith (int_cfg n)"
  by (simp add: int_arith_def int_cfg_def)

lemma int_arith_neutral: "int_arith c \<Longrightarrow> zero_neutral c"
  by (simp add: int_arith_def zero_neutral_def mac_int_def int_nonzero_def)

lemma sched_result_outside:
  assumes "col_in_w c m * MAX_ACT_COL c * mult_seq_len m \<le> p" "p < length output"
  shows "sched_result c m input (tile_sched c m krn P) output ! p = output ! p"
proof (cases "0 < MAX_ACT_COL c * mult_seq_len m")
  case True
  have "\<not> p div (MAX_ACT_COL c * mult_seq_len m) < col_in_w c m"
    using assms(1) True by (simp add: div_less_iff_less_mult mult.assoc not_less)
  then have "filter (in_col (p div (MAX_ACT_COL c * mult_seq_len m))) (tile_sched c m krn P) = []"
    by (simp add: tile_sched_columns filter_col_block)
  then show ?thesis using assms(2) by (simp add: sched_word [OF _ True])
next
  case False
  have "sched_result c m input ts output = output" for ts
    using False by (induction ts) (simp_all add: tile_add_empty)
  then show ?thesis by simp
qed

lemma sched_is_product:
  assumes "cfg_ok c" "int_arith c" "kernel_ok c m krn" "shapes_ok c m input (length output)"
    and "\<And>n. n < col_in_w c m * row_in_w c m \<Longrightarrow> tile_nonzero c krn n \<Longrightarrow> P n"
  shows "is_product c m input krn output (sched_result c m input (tile_sched c m krn P) output)"
proof -
  have "sched_result c m input (tile_sched c m krn P) output = sched_result c m input (dense_sched c m krn) output"
    by (rule pruned_result [OF assms(1) int_arith_neutral [OF assms(2)] assms(3,5)])
  then show ?thesis
    using dense_product [OF assms(1) _ _ assms(3,4)] assms(2) sched_result_outside [of c m _ "output"]
    by (simp add: is_product_def int_arith_def)
qed

subsection \<open>Every format computes the product\<close>

context systolic_driver
begin

lemma dense_formats_product:
  assumes "supported" "int_arith c" "ready s" "kernel_ok c m krn" "shapes_ok c m input (length output)"
    and "mult_format m = NON_PRUNED \<or> mult_format m = DYNAMIC"
  shows "\<exists>s' output'. compute_packed c ops m input row_ptr col_ind krn (s, output) = Some (s', output') \<and>
    ready s' \<and> is_product c m input krn output output'"
proof -
  note prod = sched_is_product [OF supported_ok [OF assms(1)] assms(2,4,5)]
  from assms(6) show ?thesis
  proof
    assume "mult_format m = NON_PRUNED"
    with computeNonPruned_run [OF assms(1,3,5,4)] prod [of "\<lambda>_. True"] show ?thesis
      by (auto simp: compute_packed_def)
  next
    assume "mult_format m = DYNAMIC"
    with computeDynamic_run [OF assms(1,3,5,4)] prod [of "\<lambda>n. \<exists>v \<in> set (dense_tile c krn n). v \<noteq> 0"] assms(2)
    show ?thesis by (auto simp: compute_packed_def tile_nonzero_def int_arith_def int_nonzero_def)
  qed
qed

lemma csr_csc_result:
  assumes "supported" "ready s" "dims_ok c m n_row n_col" "kernel_ok c m krn"
    "shapes_ok c m input (length output)"
    and "mult_format m = CSR \<and> row_in_w c m < length ptr \<and> enc = dense2csr c krn n_row n_col ind ptr vals \<or>
      mult_format m = CSC \<and> col_in_w c m < length ptr \<and> enc = dense2csc c krn n_row n_col ptr ind vals"
    and "row_in_w c m * col_in_w c m \<le> length ind" "row_in_w c m * col_in_w c m \<le> length vals"
  shows "\<exists>a b vals' nnz s'. enc = Some (a, b, vals', nnz) \<and>
    compute_indexed c ops m input a b krn vals' (s, output) =
      Some (s', sched_result c m input (pruned_sched c m krn) output) \<and> ready s'"
proof -
  have ok: "cfg_ok c" by (rule supported_ok [OF assms(1)])
  from assms(6) show ?thesis
  proof (elim disjE conjE)
    assume "mult_format m = CSR" "row_in_w c m < length ptr" and enc: "enc = dense2csr c krn n_row n_col ind ptr vals"
    with dense2csr_spec [OF ok assms(3,4) _ assms(7,8), of ptr] computeCSR_run [OF assms(1,2,5,4)]
    show ?thesis by (fastforce simp: compute_indexed_def csr_sched_result)
  next
    assume "mult_format m = CSC" "col_in_w c m < length ptr" and enc: "enc = dense2csc c krn n_row n_col ptr ind vals"
    with dense2csc_spec [OF ok assms(3,4), of ptr ind vals] computeCSC_run [OF assms(1,2,5,4)] assms(7,8)
    show ?thesis by (fastforce simp: compute_indexed_def mult.commute)
  qed
qed

lemma metadata_result:
  assumes "supported" "ready s" "dims_ok c m n_row n_col" "kernel_ok c m krn"
    "shapes_ok c m input (length output)" "mult_format m = META_DATA"
    and "col_in_w c m \<le> length m1" "col_in_w c m * row_in_w c m \<le> length m2"
  shows "\<exists>krn' m1' m2' s'. dense2metaData c krn n_row n_col m1 m2 = Some (krn', m1', m2') \<and>
    compute_packed c ops m input m1' m2' krn' (s, output) =
      Some (s', sched_result c m input (pruned_sched c m krn) output) \<and> ready s'"
  using dense2metaData_spec [OF supported_ok [OF assms(1)] assms(3,4,7,8)] computeMetaData_run [OF assms(1,2,5,4)] assms(6)
  by (fastforce simp: compute_packed_def)

lemma flag_result:
  assumes "supported" "ready s" "dims_ok c m n_row n_col" "kernel_ok c m krn"
    "shapes_ok c m input (length output)" "mult_format m = WITH_FLAG"
    and "col_in_w c m * row_in_w c m \<le> 32 * length flag"
    and "\<And>n. n < col_in_w c m * row_in_w c m \<Longrightarrow> bit (flag ! (n div 32)) (31 - n mod 32) \<longleftrightarrow> \<not> tile_nonzero c krn n"
  shows "\<exists>krn' s'. remove_zero_tiles c krn n_row n_col = Some krn' \<and>
    compute_packed c ops m input flag col_ind krn' (s, output) =
      Some (s', sched_result c m input (pruned_sched c m krn) output) \<and> ready s'"
proof -
  have ok: "cfg_ok c" by (rule supported_ok [OF assms(1)])
  obtain krn' where krn': "remove_zero_tiles c krn n_row n_col = Some krn'"
    "holds_segs krn' (tile_seg c krn (tile_nonzero c krn)) (col_in_w c m * row_in_w c m)"
    using remove_zero_tiles_spec [of n_row c n_col krn] assms(4)
    by (auto simp: dims [OF ok assms(3)] kernel_ok_def mult.commute)
  then have "flag_data c m krn (tile_nonzero c krn) flag krn'"
    using assms(7,8) by (simp add: flag_data_def Let_def)
  with computeWithFlag_run [OF assms(1,2,5,4)] krn'(1) assms(6) show ?thesis
    by (fastforce simp: compute_packed_def)
qed

lemma hidden_result:
  assumes "supported" "ready s" "dims_ok c m n_row n_col" "kernel_ok c m krn"
    "shapes_ok c m input (length output)" "mult_format m = HIDDEN_KEY"
    and "\<And>n. n < col_in_w c m * row_in_w c m \<Longrightarrow> tile_nonzero c krn n \<Longrightarrow> krn ! (n * tile_words c) \<noteq> key"
  shows "\<exists>krn' s'. interleave_hidden_flag_zero_free c krn n_row n_col key = Some krn' \<and>
    compute_packed c ops m input [key] col_ind krn' (s, output) =
      Some (s', sched_result c m input (pruned_sched c m krn) output) \<and> ready s'"
proof -
  have ok: "cfg_ok c" by (rule supported_ok [OF assms(1)])
  obtain krn' where krn': "interleave_hidden_flag_zero_free c krn n_row n_col key = Some krn'"
    "holds_segs krn' (hidden_seg c krn (tile_nonzero c krn) key) (col_in_w c m * row_in_w c m)"
    using hidden_flag_spec [of n_row c n_col krn key] assms(4) ok
    by (auto simp: dims [OF ok assms(3)] kernel_ok_def mult.commute)
  then have "hidden_data c m krn (tile_nonzero c krn) key krn'"
    using assms(7) by (simp add: hidden_data_def Let_def)
  with computeHiddenKey_run [OF assms(1,2,5,4)] krn'(1) assms(6) show ?thesis
    by (fastforce simp: compute_packed_def)
qed

text \<open>The interleaved format is read back when a block column has at least 32 tiles.\<close>

lemma interleaved_result:
  assumes "supported" "ready s" "dims_ok c m n_row n_col" "kernel_ok c m krn"
    "shapes_ok c m input (length output)" "mult_format m = INTERLEAVED"
    and room: "seg_off (packed_seg c m krn) (col_in_w c m) \<le> new_kernel_size c n_row n_col"
    and small: "new_kernel_size c n_row n_col < 2 ^ 32" and R: "32 \<le> row_in_w c m"
  shows "\<exists>krn' s'. dense2interleavedMetaData c krn n_row n_col = Some krn' \<and>
    compute_packed c ops m input row_ptr col_ind krn' (s, output) =
      Some (s', sched_result c m input (pruned_sched c m krn) output) \<and> ready s'"
proof -
  have ok: "cfg_ok c" by (rule supported_ok [OF assms(1)])
  let ?R = "row_in_w c m"
  obtain krn' where krn': "dense2interleavedMetaData c krn n_row n_col = Some krn'"
    "holds_segs krn' (packed_seg c m krn) (col_in_w c m)"
    using dense2interleavedMetaData_spec [OF ok assms(3,4) room] by blast
  have "length (packed_seg c m krn i) < 2 ^ 32" if "i < col_in_w c m" for i
    using seg_off_bound [OF that, of "packed_seg c m krn"] room small by simp
  moreover have "bit (meta_of c m krn i ! (j div 32)) (j mod 32) \<longleftrightarrow> tile_nonzero c krn (mem2d ?R i j)"
    if "j < ?R" for i j
    using that meta_index [OF that] by (simp add: meta_of_def bit_meta_words)
  ultimately have "interleaved_data c m krn (tile_nonzero c krn) (32 - min 32 ?R) (meta_of c m krn) krn'"
    using krn'(2) R meta_index by (simp add: interleaved_data_def Let_def meta_of_def)
  with computeInterleavedMetaData_run [OF assms(1,2,5,4)] krn'(1) assms(6) show ?thesis
    by (fastforce simp: compute_packed_def)
qed

end

subsection \<open>Room for the interleaved format\<close>

lemma tile_stream_count:
  assumes "kernel_ok c m krn" "N \<le> col_in_w c m * row_in_w c m"
  shows "length (concat (map (tile_seg c krn P) [0..<N])) = length (filter P [0..<N]) * tile_words c"
  using assms(2)
proof (induction N)
  case 0
  then show ?case by simp
next
  case (Suc N)
  with kernel_tile_fits(3) [OF assms(1), of N] show ?case by (simp add: tile_seg_def)
qed

lemma packed_size:
  assumes "kernel_ok c m krn" "n \<le> col_in_w c m"
  shows "seg_off (packed_seg c m krn) n = n * (1 + (row_in_w c m + 31) div 32) +
    length (filter (tile_nonzero c krn) [0..<n * row_in_w c m]) * tile_words c"
proof -
  have "seg_off (packed_seg c m krn) n = n * (1 + (row_in_w c m + 31) div 32) +
      length (concat (map (tile_seg c krn (tile_nonzero c krn)) [0..<n * row_in_w c m]))"
  proof (induction n)
    case (Suc n)
    have "length (packed_seg c m krn n) = 1 + (row_in_w c m + 31) div 32 +
        length (block_tiles c (row_in_w c m) krn (tile_nonzero c krn) n (row_in_w c m))"
      by (simp add: interleaved_seg_def meta_of_def)
    with Suc tile_stream_Suc [of c krn "tile_nonzero c krn" n "row_in_w c m"] show ?case
      by (simp only: seg_off_Suc length_append) simp
  qed simp
  also have "length (concat (map (tile_seg c krn (tile_nonzero c krn)) [0..<n * row_in_w c m])) =
      length (filter (tile_nonzero c krn) [0..<n * row_in_w c m]) * tile_words c"
    by (rule tile_stream_count [OF assms(1) mult_le_mono1 [OF assms(2)]])
  finally show ?thesis .
qed

subsection \<open>Properties of the simulated system\<close>

definition demo_mult :: "Format \<Rightarrow> multiplier" where
  "demo_mult f = SparseMatrixMultiplier 4 4 1 f"

lemma demo_mult_simps [simp]:
  "row_in_w demo_cfg (demo_mult f) = 1" "col_in_w demo_cfg (demo_mult f) = 1" "mult_format (demo_mult f) = f"
  "mult_seq_len (demo_mult f) = 1" "dims_ok demo_cfg (demo_mult f) 4 (Suc 0)" "tile_words demo_cfg = 4"
  "kernel_ok demo_cfg (demo_mult f) krn \<longleftrightarrow> 4 \<le> length krn"
  "shapes_ok demo_cfg (demo_mult f) input n \<longleftrightarrow> 2 \<le> length input \<and> 2 \<le> n"
  by (simp_all add: demo_mult_def SparseMatrixMultiplier_def row_in_w_def col_in_w_def tile_words_def dims_ok_def
      kernel_ok_def shapes_ok_def)

lemma demo_int: "int_arith demo_cfg"
  by (simp add: demo_cfg_def)

lemma demo_tile: "tile_nonzero demo_cfg [1, 2, 3, 4] 0"
proof -
  have "w_nonzero demo_cfg = int_nonzero" by (simp add: demo_cfg_def int_cfg_def)
  then show ?thesis by (simp add: tile_nonzero_def dense_tile_def int_nonzero_def)
qed

text \<open>C1: On the simulated accelerator, with integer arithmetic, multiplying with a dense kernel (formats
  \<^verbatim>\<open>NON_PRUNED\<close> and \<^verbatim>\<open>DYNAMIC\<close>) returns and adds to every activation of the output the dot product of the input row
  and the weight column, modulo the width of an activation; the output behind the result is untouched.\<close>

theorem gem5_dense_matmul:
  assumes "gem5_supported c" "int_arith c" "on_tile (tile_wf c) s" "kernel_ok c m krn"
    and "shapes_ok c m input (length output)" "mult_format m = NON_PRUNED \<or> mult_format m = DYNAMIC"
  shows "\<exists>s' output'. compute_packed c (gem5_ops c th) m input row_ptr col_ind krn (s, output) = Some (s', output') \<and>
    on_tile (tile_wf c) s' \<and> is_product c m input krn output output'"
  by (rule gem5.dense_formats_product [OF assms])

theorem gem5_dense_matmul_witness:
  "\<exists>s' output'. compute_packed demo_cfg (gem5_ops demo_cfg 0) (demo_mult NON_PRUNED) [5, 6] [] [] [1, 2, 3, 4]
     (demo_dev, [0, 0]) = Some (s', output') \<and> on_tile (tile_wf demo_cfg) s' \<and>
     is_product demo_cfg (demo_mult NON_PRUNED) [5, 6] [1, 2, 3, 4] [0, 0] output'"
  by (rule gem5_dense_matmul [OF demo_supported demo_int demo_ready]) simp_all

text \<open>C4: A kernel written as compressed rows or columns (\<^verbatim>\<open>dense2csr\<close>, \<^verbatim>\<open>dense2csc\<close>) and multiplied in that format
  gives the matrix product of the dense kernel; neither the writer nor the reader leaves its arrays.\<close>

theorem gem5_compressed_matmul:
  assumes "gem5_supported c" "int_arith c" "on_tile (tile_wf c) s" "kernel_ok c m krn"
    and "shapes_ok c m input (length output)" "dims_ok c m n_row n_col"
    and "mult_format m = CSR \<and> row_in_w c m < length ptr \<and> enc = dense2csr c krn n_row n_col ind ptr vals \<or>
      mult_format m = CSC \<and> col_in_w c m < length ptr \<and> enc = dense2csc c krn n_row n_col ptr ind vals"
    and "row_in_w c m * col_in_w c m \<le> length ind" "row_in_w c m * col_in_w c m \<le> length vals"
  shows "\<exists>a b vals' nnz s' output'. enc = Some (a, b, vals', nnz) \<and>
    compute_indexed c (gem5_ops c th) m input a b krn vals' (s, output) = Some (s', output') \<and>
    on_tile (tile_wf c) s' \<and> is_product c m input krn output output'"
proof -
  have "is_product c m input krn output (sched_result c m input (pruned_sched c m krn) output)"
    using assms(1) by (intro sched_is_product assms(2,4,5)) (simp_all add: gem5_supported_def)
  with gem5.csr_csc_result [OF assms(1,3,6,4,5,7,8,9), of th] show ?thesis by blast
qed

theorem gem5_compressed_matmul_witness:
  "\<exists>a b vals' nnz s' output'. dense2csr demo_cfg [1, 2, 3, 4] 4 1 [0] [0, 0] [0] = Some (a, b, vals', nnz) \<and>
     compute_indexed demo_cfg (gem5_ops demo_cfg 0) (demo_mult CSR) [5, 6] a b [1, 2, 3, 4] vals' (demo_dev, [0, 0]) =
       Some (s', output') \<and> on_tile (tile_wf demo_cfg) s' \<and>
     is_product demo_cfg (demo_mult CSR) [5, 6] [1, 2, 3, 4] [0, 0] output'"
  by (rule gem5_compressed_matmul [OF demo_supported demo_int demo_ready,
        where ptr = "[0, 0]" and ind = "[0]" and vals = "[0]" and n_row = 4 and n_col = 1]) simp_all

text \<open>C6: A kernel written with two-level metadata (\<^verbatim>\<open>dense2metaData\<close>) and multiplied in that format gives the matrix
  product of the dense kernel.\<close>

theorem gem5_metadata_matmul:
  assumes "gem5_supported c" "int_arith c" "on_tile (tile_wf c) s" "kernel_ok c m krn"
    and "shapes_ok c m input (length output)" "dims_ok c m n_row n_col" "mult_format m = META_DATA"
    and "col_in_w c m \<le> length m1" "col_in_w c m * row_in_w c m \<le> length m2"
  shows "\<exists>krn' m1' m2' s' output'. dense2metaData c krn n_row n_col m1 m2 = Some (krn', m1', m2') \<and>
    compute_packed c (gem5_ops c th) m input m1' m2' krn' (s, output) = Some (s', output') \<and>
    on_tile (tile_wf c) s' \<and> is_product c m input krn output output'"
proof -
  have "is_product c m input krn output (sched_result c m input (pruned_sched c m krn) output)"
    using assms(1) by (intro sched_is_product assms(2,4,5)) (simp_all add: gem5_supported_def)
  with gem5.metadata_result [OF assms(1,3,6,4,5,7,8,9), of th] show ?thesis by blast
qed

theorem gem5_metadata_matmul_witness:
  "\<exists>krn' m1' m2' s' output'. dense2metaData demo_cfg [1, 2, 3, 4] 4 1 [0] [0] = Some (krn', m1', m2') \<and>
     compute_packed demo_cfg (gem5_ops demo_cfg 0) (demo_mult META_DATA) [5, 6] m1' m2' krn' (demo_dev, [0, 0]) =
       Some (s', output') \<and> on_tile (tile_wf demo_cfg) s' \<and>
     is_product demo_cfg (demo_mult META_DATA) [5, 6] [1, 2, 3, 4] [0, 0] output'"
  by (rule gem5_metadata_matmul [OF demo_supported demo_int demo_ready]) simp_all

text \<open>C7: Removing the zero tiles of a kernel (\<^verbatim>\<open>remove_zero_tiles\<close>) and multiplying under a flag array whose bits, most
  significant first, mark the zero tiles gives the matrix product of the dense kernel.\<close>

theorem gem5_flag_matmul:
  assumes "gem5_supported c" "int_arith c" "on_tile (tile_wf c) s" "kernel_ok c m krn"
    and "shapes_ok c m input (length output)" "dims_ok c m n_row n_col" "mult_format m = WITH_FLAG"
    and "col_in_w c m * row_in_w c m \<le> 32 * length flag"
    and "\<And>n. n < col_in_w c m * row_in_w c m \<Longrightarrow> bit (flag ! (n div 32)) (31 - n mod 32) \<longleftrightarrow> \<not> tile_nonzero c krn n"
  shows "\<exists>krn' s' output'. remove_zero_tiles c krn n_row n_col = Some krn' \<and>
    compute_packed c (gem5_ops c th) m input flag col_ind krn' (s, output) = Some (s', output') \<and>
    on_tile (tile_wf c) s' \<and> is_product c m input krn output output'"
proof -
  have "is_product c m input krn output (sched_result c m input (pruned_sched c m krn) output)"
    using assms(1) by (intro sched_is_product assms(2,4,5)) (simp_all add: gem5_supported_def)
  with gem5.flag_result [OF assms(1,3,6,4,5,7,8,9), of th] show ?thesis by blast
qed

theorem gem5_flag_matmul_witness:
  "\<exists>krn' s' output'. remove_zero_tiles demo_cfg [1, 2, 3, 4] 4 1 = Some krn' \<and>
     compute_packed demo_cfg (gem5_ops demo_cfg 0) (demo_mult WITH_FLAG) [5, 6] [0] [] krn' (demo_dev, [0, 0]) =
       Some (s', output') \<and> on_tile (tile_wf demo_cfg) s' \<and>
     is_product demo_cfg (demo_mult WITH_FLAG) [5, 6] [1, 2, 3, 4] [0, 0] output'"
  by (rule gem5_flag_matmul [OF demo_supported demo_int demo_ready]) (simp_all add: demo_tile)

text \<open>C8: Replacing the zero tiles of a kernel by a one-word key (\<^verbatim>\<open>interleave_hidden_flag_zero_free\<close>) and multiplying
  with that key gives the matrix product of the dense kernel, provided no non-zero tile starts with the key.\<close>

theorem gem5_hidden_matmul:
  assumes "gem5_supported c" "int_arith c" "on_tile (tile_wf c) s" "kernel_ok c m krn"
    and "shapes_ok c m input (length output)" "dims_ok c m n_row n_col" "mult_format m = HIDDEN_KEY"
    and "\<And>n. n < col_in_w c m * row_in_w c m \<Longrightarrow> tile_nonzero c krn n \<Longrightarrow> krn ! (n * tile_words c) \<noteq> key"
  shows "\<exists>krn' s' output'. interleave_hidden_flag_zero_free c krn n_row n_col key = Some krn' \<and>
    compute_packed c (gem5_ops c th) m input [key] col_ind krn' (s, output) = Some (s', output') \<and>
    on_tile (tile_wf c) s' \<and> is_product c m input krn output output'"
proof -
  have "is_product c m input krn output (sched_result c m input (pruned_sched c m krn) output)"
    using assms(1) by (intro sched_is_product assms(2,4,5)) (simp_all add: gem5_supported_def)
  with gem5.hidden_result [OF assms(1,3,6,4,5,7,8), of th] show ?thesis by blast
qed

theorem gem5_hidden_matmul_witness:
  "\<exists>krn' s' output'. interleave_hidden_flag_zero_free demo_cfg [1, 2, 3, 4] 4 1 0xAAAAAAAA = Some krn' \<and>
     compute_packed demo_cfg (gem5_ops demo_cfg 0) (demo_mult HIDDEN_KEY) [5, 6] [0xAAAAAAAA] [] krn' (demo_dev, [0, 0]) =
       Some (s', output') \<and> on_tile (tile_wf demo_cfg) s' \<and>
     is_product demo_cfg (demo_mult HIDDEN_KEY) [5, 6] [1, 2, 3, 4] [0, 0] output'"
  by (rule gem5_hidden_matmul [OF demo_supported demo_int demo_ready]) (simp_all add: demo_tile)

text \<open>C5: A kernel written with interleaved metadata (\<^verbatim>\<open>dense2interleavedMetaData\<close>) and multiplied in that format gives the
  matrix product of the dense kernel, when a block column has at least 32 tiles and the blocks fit the buffer the writer
  allocates.\<close>

theorem gem5_interleaved_matmul:
  assumes "gem5_supported c" "int_arith c" "on_tile (tile_wf c) s" "kernel_ok c m krn"
    and "shapes_ok c m input (length output)" "dims_ok c m n_row n_col" "mult_format m = INTERLEAVED"
    and "col_in_w c m * (1 + (row_in_w c m + 31) div 32) +
      length (filter (tile_nonzero c krn) [0..<col_in_w c m * row_in_w c m]) * tile_words c \<le> new_kernel_size c n_row n_col"
    and "new_kernel_size c n_row n_col < 2 ^ 32" "32 \<le> row_in_w c m"
  shows "\<exists>krn' s' output'. dense2interleavedMetaData c krn n_row n_col = Some krn' \<and>
    compute_packed c (gem5_ops c th) m input row_ptr col_ind krn' (s, output) = Some (s', output') \<and>
    on_tile (tile_wf c) s' \<and> is_product c m input krn output output'"
proof -
  have "is_product c m input krn output (sched_result c m input (pruned_sched c m krn) output)"
    using assms(1) by (intro sched_is_product assms(2,4,5)) (simp_all add: gem5_supported_def)
  moreover have "seg_off (packed_seg c m krn) (col_in_w c m) \<le> new_kernel_size c n_row n_col"
    using packed_size [OF assms(4) order_refl] assms(8) by simp
  ultimately show ?thesis
    using gem5.interleaved_result [OF assms(1,3,6,4,5,7) _ assms(9,10), of th] by blast
qed

theorem gem5_interleaved_matmul_witness:
  "\<exists>krn' s' output'. dense2interleavedMetaData demo_cfg (replicate 128 1) 128 1 = Some krn' \<and>
     compute_packed demo_cfg (gem5_ops demo_cfg 0) (SparseMatrixMultiplier 128 4 1 INTERLEAVED) (replicate 64 1) [] [] krn'
       (demo_dev, [0, 0]) = Some (s', output') \<and> on_tile (tile_wf demo_cfg) s' \<and>
     is_product demo_cfg (SparseMatrixMultiplier 128 4 1 INTERLEAVED) (replicate 64 1) (replicate 128 1) [0, 0] output'"
proof (rule gem5_interleaved_matmul [OF demo_supported demo_int demo_ready])
  let ?m = "SparseMatrixMultiplier 128 4 1 INTERLEAVED"
  have "length (filter (tile_nonzero demo_cfg (replicate 128 1)) [0..<32]) \<le> 32"
    using length_filter_le [of _ "[0..<32]"] by simp
  then show "col_in_w demo_cfg ?m * (1 + (row_in_w demo_cfg ?m + 31) div 32) +
      length (filter (tile_nonzero demo_cfg (replicate 128 1)) [0..<col_in_w demo_cfg ?m * row_in_w demo_cfg ?m]) *
        tile_words demo_cfg \<le> new_kernel_size demo_cfg 128 1"
    by (simp add: SparseMatrixMultiplier_def col_in_w_def row_in_w_def tile_words_def new_kernel_size_def)
qed (simp_all add: SparseMatrixMultiplier_def col_in_w_def row_in_w_def kernel_ok_def shapes_ok_def dims_ok_def
    tile_words_def new_kernel_size_def)

text \<open>With any arithmetic, floating point included, multiplying with a kernel in compressed rows and in compressed
  columns gives the same output bit for bit.\<close>

lemma gem5_csr_csc_agree:
  assumes "gem5_supported c" "on_tile (tile_wf c) s" "kernel_ok c m krn"
    and "shapes_ok c m input (length output)" "dims_ok c m n_row n_col"
    and "row_in_w c m < length row_ptr" "col_in_w c m < length col_ptr"
    and "row_in_w c m * col_in_w c m \<le> length ind" "row_in_w c m * col_in_w c m \<le> length vals"
  shows "\<exists>a b v n a' b' v' n' s1 s2 output'.
    dense2csr c krn n_row n_col ind row_ptr vals = Some (a, b, v, n) \<and>
    dense2csc c krn n_row n_col col_ptr ind vals = Some (a', b', v', n') \<and>
    compute_indexed c (gem5_ops c th) (m\<lparr>mult_format := CSR\<rparr>) input a b krn v (s, output) = Some (s1, output') \<and>
    compute_indexed c (gem5_ops c th) (m\<lparr>mult_format := CSC\<rparr>) input a' b' krn v' (s, output) = Some (s2, output')"
proof -
  have same: "row_in_w c (m\<lparr>mult_format := f\<rparr>) = row_in_w c m" "col_in_w c (m\<lparr>mult_format := f\<rparr>) = col_in_w c m"
    "kernel_ok c (m\<lparr>mult_format := f\<rparr>) krn" "shapes_ok c (m\<lparr>mult_format := f\<rparr>) input (length output)"
    "dims_ok c (m\<lparr>mult_format := f\<rparr>) n_row n_col" for f
    using assms(3-5) by (simp_all add: row_in_w_def col_in_w_def kernel_ok_def shapes_ok_def dims_ok_def)
  have result: "sched_result c (m\<lparr>mult_format := f\<rparr>) input (pruned_sched c (m\<lparr>mult_format := f\<rparr>) krn) output =
      sched_result c m input (pruned_sched c m krn) output" for f
    by (simp add: sched_result_def tile_sched_def same)
  show ?thesis
    using gem5.csr_csc_result [OF assms(1,2) same(5,3,4) [of CSR], of row_ptr _ ind vals th]
      gem5.csr_csc_result [OF assms(1,2) same(5,3,4) [of CSC], of col_ptr _ ind vals th] assms(6-9)
    unfolding result same by (simp, blast)
qed

lemma gem5_csr_csc_agree_witness:
  "\<exists>a b v n a' b' v' n' s1 s2 output'.
    dense2csr demo_cfg [1, 2, 3, 4] 4 1 [0] [0, 0] [0] = Some (a, b, v, n) \<and>
    dense2csc demo_cfg [1, 2, 3, 4] 4 1 [0, 0] [0] [0] = Some (a', b', v', n') \<and>
    compute_indexed demo_cfg (gem5_ops demo_cfg 0) ((demo_mult CSR)\<lparr>mult_format := CSR\<rparr>) [5, 6] a b [1, 2, 3, 4] v
      (demo_dev, [0, 0]) = Some (s1, output') \<and>
    compute_indexed demo_cfg (gem5_ops demo_cfg 0) ((demo_mult CSR)\<lparr>mult_format := CSC\<rparr>) [5, 6] a' b' [1, 2, 3, 4] v'
      (demo_dev, [0, 0]) = Some (s2, output')"
  by (rule gem5_csr_csc_agree [OF demo_supported demo_ready]) simp_all

end
