(* ===== verification/TiC_Limits.thy ===== *)
theory TiC_Limits
  imports TiC_Matmul
begin

text \<open>
  Where the storage formats stop working. The theorems show that conditions under which the formats are proved correct
  are needed: the hidden key must not start a non-zero tile, a block column of the interleaved format must have 32 tiles
  for its reader to find the metadata bits where the writer puts them, and its blocks must fit the buffer the writer
  allocates.
\<close>

subsection \<open>A key that starts a tile\<close>

text \<open>A non-zero tile that starts with the hidden key is lost: the writer stores it unchanged, the reader takes its first
  word for the mark of a zero tile and leaves the output as it was.\<close>

lemma hidden_key_collision:
  assumes "cfg_ok c" "dims_ok c m n_row n_col" "kernel_ok c m krn" "mult_format m = HIDDEN_KEY"
    and "row_in_w c m = 1" "col_in_w c m = 1" "tile_nonzero c krn 0" "krn ! 0 = key"
  shows "\<exists>krn'. interleave_hidden_flag_zero_free c krn n_row n_col key = Some krn' \<and>
    take (tile_words c) krn' = dense_tile c krn 0 \<and>
    compute_packed c ops m input [key] col_ind krn' (s, output) = Some (s, output)"
proof -
  have W: "0 < tile_words c" using cfg_okD(1,9) [OF assms(1)] by (simp add: tile_words_def)
  have fits: "tile_words c \<le> length krn" using assms(3,5,6) by (simp add: kernel_ok_def)
  obtain krn' where krn': "interleave_hidden_flag_zero_free c krn n_row n_col key = Some krn'"
    and holds: "holds_segs krn' (hidden_seg c krn (tile_nonzero c krn) key) 1"
    using hidden_flag_spec [of n_row c n_col krn key] assms(1,5,6) fits
    by (auto simp: dims [OF assms(1,2)] kernel_ok_def mult.commute)
  have seg: "hidden_seg c krn (tile_nonzero c krn) key 0 = dense_tile c krn 0" using assms(7) by (simp add: hidden_seg_def)
  have len: "length (dense_tile c krn 0) = tile_words c" using fits by (simp add: dense_tile_def)
  have tile: "take (tile_words c) krn' = dense_tile c krn 0"
    using holds by (simp add: holds_segs_def seg_off_def seg len)
  moreover have "krn' ! 0 = key" and "krn' \<noteq> []"
  proof -
    have "krn' ! 0 = take (tile_words c) krn' ! 0" using W by simp
    also have "\<dots> = key" using W assms(8) by (simp add: tile dense_tile_def)
    finally show "krn' ! 0 = key" .
    show "krn' \<noteq> []" using tile len W by auto
  qed
  ultimately show ?thesis
    using krn' assms(4-6) by (simp add: compute_packed_def computeHiddenKey_def rd_def)
qed

lemma hidden_key_collision_witness:
  "\<exists>krn'. interleave_hidden_flag_zero_free demo_cfg [1, 2, 3, 4] 4 1 1 = Some krn' \<and>
     compute_packed demo_cfg (gem5_ops demo_cfg 0) (demo_mult HIDDEN_KEY) [5, 6] [1] [] krn' (demo_dev, [0, 0]) =
       Some (demo_dev, [0, 0])"
  using hidden_key_collision [of demo_cfg "demo_mult HIDDEN_KEY" 4 1 "[1, 2, 3, 4]" 1 "gem5_ops demo_cfg 0" "[5, 6]" "[]"
      demo_dev "[0, 0]"] demo_supported demo_tile
  by (auto simp: gem5_supported_def)

subsection \<open>Short block columns in the interleaved format\<close>

lemma processMultiplication_row_overrun:
  assumes "0 < seq_len" "0 < MAX_ACT_COL c" "length input \<le> row * MAX_ACT_COL c * seq_len"
  shows "processMultiplication c ops seq_len input row col vals voff (s, output) = None"
proof -
  have "[0..<seq_len] = 0 # [1..<seq_len]" "[0..<MAX_ACT_COL c] = 0 # [1..<MAX_ACT_COL c]"
    using assms(1,2) by (simp_all add: upt_conv_Cons)
  then show ?thesis
    using assms(3) by (auto simp: processMultiplication_def feed_word_def rd_None split: Option.bind_splits)
qed

text \<open>Once the reader is past the rows of the input it leaves an array, whatever bits it finds.\<close>

lemma interleaved_block_overrun:
  assumes "0 < seq_len" "0 < MAX_ACT_COL c" "length input \<le> row * MAX_ACT_COL c * seq_len" "vp < next_block"
  shows "interleaved_block c ops seq_len input vals next_block i metadata counter32 row vp st = None"
  using assms
proof (induction c ops seq_len input vals next_block i metadata counter32 row vp st rule: interleaved_block.induct)
  case (1 c ops seq_len "input" vals next_block i metadata counter32 row vp st)
  let ?md = "if counter32 = 32 then metadata + 1 else metadata" and ?cnt = "if counter32 = 32 then 0 else counter32"
  have row: "length input \<le> (row + 1) * MAX_ACT_COL c * seq_len" using 1(5) by (simp add: algebra_simps)
  have "processMultiplication c ops seq_len input row i vals vp st = None"
    using processMultiplication_row_overrun [OF 1(3,4,5)] by (cases st) simp
  then show ?case
    using 1(1) [OF 1(6) refl refl _ _ _ 1(3,4) row 1(6)] 1(6)
    by (subst interleaved_block.simps) (auto simp: Let_def assert_c_def split: Option.bind_splits)
qed

text \<open>C27: A block column of one tile cannot be read back from the interleaved format: the writer marks the tile in bit 0 of
  the metadata word, the reader starts at bit 31, takes the weights for metadata and runs out of the input.\<close>

theorem interleaved_short_column:
  assumes "cfg_ok c" "dims_ok c m n_row n_col" "kernel_ok c m krn" "mult_format m = INTERLEAVED"
    and "row_in_w c m = 1" "0 < col_in_w c m" "tile_nonzero c krn 0" "tile_words c + 2 < 2 ^ 32"
    and "seg_off (packed_seg c m krn) (col_in_w c m) \<le> new_kernel_size c n_row n_col"
    and "0 < mult_seq_len m" "length input = MAX_ACT_COL c * mult_seq_len m"
  shows "\<exists>krn'. dense2interleavedMetaData c krn n_row n_col = Some krn' \<and>
    compute_packed c ops m input row_ptr col_ind krn' (s, output) = None"
proof -
  have W: "0 < tile_words c" and M: "0 < MAX_ACT_COL c" using cfg_okD(1,8,9) [OF assms(1)] by (simp_all add: tile_words_def)
  obtain krn' where krn': "dense2interleavedMetaData c krn n_row n_col = Some krn'"
    and holds: "holds_segs krn' (packed_seg c m krn) (col_in_w c m)"
    using dense2interleavedMetaData_spec [OF assms(1-3,9)] by blast
  obtain w where meta: "meta_of c m krn 0 = [w]"
    using assms(5) by (simp add: meta_of_def meta_words_def)
  have "\<not> bit (meta_of c m krn 0 ! 0) 31"
    using assms(5) by (simp add: meta_of_def bit_meta_words)
  then have bit31: "\<not> bit w 31" by (simp add: meta)
  have "length (block_tiles c 1 krn (tile_nonzero c krn) 0 1) = tile_words c"
    using kernel_tile_fits(3) [OF assms(3), of 0] assms(5-7) by (simp add: block_tiles_def tile_seg_def mem2d_def)
  then have seg: "packed_seg c m krn 0 ! 0 = word_of_nat (2 + tile_words c)" "packed_seg c m krn 0 ! 1 = w"
    "length (packed_seg c m krn 0) = 2 + tile_words c"
    using meta assms(5) by (auto simp: interleaved_seg_def)
  have krn'0: "0 < length krn'" "krn' ! 0 = word_of_nat (2 + tile_words c)"
    and krn'1: "1 < length krn'" "krn' ! 1 = w"
    using holds_segs_nth [OF holds assms(6), of 0] holds_segs_nth [OF holds assms(6), of 1] seg by simp_all
  have off: "unat (word_of_nat (2 + tile_words c) :: 32 word) = 2 + tile_words c"
    by (rule unat_word_of_nat_32) (use assms(8) in simp)
  have "interleaved_block c ops (mult_seq_len m) input krn' (2 + tile_words c) 0 1 32 1 2 (s, output) = None"
    using W M assms(10,11) by (intro interleaved_block_overrun) simp_all
  then have first: "interleaved_block c ops (mult_seq_len m) input krn' (2 + tile_words c) 0 1 31 0 2 (s, output) = None"
    using krn'1 bit31 W by (subst interleaved_block.simps) (simp add: rd_def Let_def)
  have "[0..<col_in_w c m] = 0 # [1..<col_in_w c m]" using assms(6) by (simp add: upt_conv_Cons)
  with krn' krn'0 first off assms(4,5) show ?thesis
    by (simp add: compute_packed_def computeInterleavedMetaData_def rd_def Let_def flip: numeral_2_eq_2)
qed

theorem interleaved_short_column_witness:
  "\<exists>krn'. dense2interleavedMetaData demo_cfg [1, 2, 3, 4] 4 1 = Some krn' \<and>
     compute_packed demo_cfg (gem5_ops demo_cfg 0) (demo_mult INTERLEAVED) [5, 6] [] [] krn' (demo_dev, [0, 0]) = None"
proof (rule interleaved_short_column)
  have "seg_off (packed_seg demo_cfg (demo_mult INTERLEAVED) [1, 2, 3, 4]) 1 \<le> 104"
    using packed_size [of demo_cfg "demo_mult INTERLEAVED" "[1, 2, 3, 4]" 1] demo_tile by simp
  then show "seg_off (packed_seg demo_cfg (demo_mult INTERLEAVED) [1, 2, 3, 4]) (col_in_w demo_cfg (demo_mult INTERLEAVED)) \<le>
      new_kernel_size demo_cfg 4 1"
    by (simp add: new_kernel_size_def)
qed (use demo_supported demo_tile in \<open>simp_all add: gem5_supported_def\<close>)

subsection \<open>The buffer of the interleaved format\<close>

lemma copy_tile_room:
  assumes "copy_tile c krn t (nk, p) = Some (nk', p')"
  shows "length nk' = length nk" "p' = p + tile_words c" "0 < tile_words c \<Longrightarrow> p' \<le> length nk"
proof -
  let ?I = "\<lambda>k (ns, q). length ns = length nk \<and> q = p + k \<and> (0 < k \<longrightarrow> q \<le> length nk)"
  have "?I (tile_words c) (nk', p')"
    using assms unfolding copy_tile_def for_list_nest tile_words_def [symmetric]
    by (rule for_up_partial [where I = ?I]) (auto simp: wr_def split: Option.bind_splits if_splits)
  then show "length nk' = length nk" "p' = p + tile_words c" "0 < tile_words c \<Longrightarrow> p' \<le> length nk" by auto
qed

lemma interleave_row_room:
  assumes "interleave_row c krn R vs j i (nk, p, md, cnt) = Some (nk', p', md', cnt')"
    and "tile_all_zeros c krn ((j * R + i) * kernel_dim c * MAX_W_COL c) = Some (\<not> nz)"
  shows "length nk' = length nk \<and> p' = p + (if nz then tile_words c else 0) \<and>
    (nz \<and> 0 < tile_words c \<longrightarrow> p' \<le> length nk)"
proof (cases nz)
  case True
  with assms obtain nk1 p1 where copy: "copy_tile c krn ((j * R + i) * kernel_dim c * MAX_W_COL c) (nk, p) = Some (nk1, p1)"
    and "length nk' = length nk1" "p' = p1"
    by (auto simp: interleave_row_def Let_def wr_def split: Option.bind_splits if_splits)
  with copy_tile_room [OF copy] True show ?thesis by simp
next
  case False
  with assms show ?thesis
    by (auto simp: interleave_row_def Let_def wr_def split: Option.bind_splits if_splits)
qed

text \<open>A column that is written has room for its tiles up to the last non-zero one.\<close>

lemma interleave_rows_room:
  assumes "cfg_ok c" and ker: "kernel_ok c m krn" and j: "j < col_in_w c m"
    and run: "for_list [0..<row_in_w c m] (interleave_row c krn (row_in_w c m) vs j) (nk, vs, md, cnt) = Some (nk', p', md', cnt')"
  shows "length nk' = length nk \<and>
    p' = vs + length (block_tiles c (row_in_w c m) krn (tile_nonzero c krn) j (row_in_w c m)) \<and>
    (0 < row_in_w c m \<and> tile_nonzero c krn (mem2d (row_in_w c m) j (row_in_w c m - 1)) \<longrightarrow> p' \<le> length nk)"
proof -
  let ?R = "row_in_w c m" and ?P = "tile_nonzero c krn"
  let ?I = "\<lambda>i (ns, q, _). length ns = length nk \<and> q = vs + length (block_tiles c ?R krn ?P j i) \<and>
    (0 < i \<and> ?P (mem2d ?R j (i - 1)) \<longrightarrow> q \<le> length nk)"
  have W: "0 < tile_words c" using cfg_okD(1,9) [OF assms(1)] by (simp add: tile_words_def)
  have "?I ?R (nk', p', md', cnt')"
  proof (rule for_up_partial [where I = ?I, OF run])
    fix i s s'
    assume i: "i < ?R" and "?I i s" and step: "interleave_row c krn ?R vs j i s = Some s'"
    moreover obtain ns q a b ns' q' a' b' where s: "s = (ns, q, a, b)" "s' = (ns', q', a', b')"
      by (metis prod.exhaust)
    moreover have "length (dense_tile c krn (mem2d ?R j i)) = tile_words c"
      by (rule kernel_tile_fits(3) [OF ker mem2d_less [OF j i]])
    ultimately show "?I (Suc i) s'"
      using interleave_row_room [OF step [unfolded s] scan_tile [OF ker j i]] W by (auto simp: tile_seg_def)
  qed auto
  then show ?thesis by auto
qed

text \<open>C26: The buffer \<^verbatim>\<open>dense2interleavedMetaData\<close> allocates can be too small: a kernel whose last tile is non-zero and whose
  offsets, metadata and non-zero tiles are more than \<^verbatim>\<open>new_kernel_size\<close> words is written behind the buffer.\<close>

theorem interleaved_overflow:
  assumes "cfg_ok c" "dims_ok c m n_row n_col" and ker: "kernel_ok c m krn"
    and "0 < row_in_w c m" "0 < col_in_w c m" "tile_nonzero c krn (col_in_w c m * row_in_w c m - 1)"
    and big: "new_kernel_size c n_row n_col < col_in_w c m * (1 + (row_in_w c m + 31) div 32) +
      length (filter (tile_nonzero c krn) [0..<col_in_w c m * row_in_w c m]) * tile_words c"
  shows "dense2interleavedMetaData c krn n_row n_col = None"
proof (rule ccontr)
  let ?R = "row_in_w c m" and ?C = "col_in_w c m" and ?L = "new_kernel_size c n_row n_col"
  let ?f = "packed_seg c m krn" and ?M = "(row_in_w c m + 32 - 1) div 32"
  let ?body = "\<lambda>j (nk, p). do {
      (nk, p', _, _) \<leftarrow> for_list [0..<?R] (interleave_row c krn ?R (p + 1 + ?M) j) (nk, p + 1 + ?M, p + 1, 0);
      nk \<leftarrow> wr nk p (word_of_nat (p' - p));
      Some (nk, p') }"
  let ?I = "\<lambda>j (nk, p). length nk = ?L \<and> p = seg_off ?f j \<and>
    (0 < j \<and> tile_nonzero c krn (mem2d ?R (j - 1) (?R - 1)) \<longrightarrow> p \<le> ?L)"
  assume "dense2interleavedMetaData c krn n_row n_col \<noteq> None"
  then obtain nk p where run: "for_list [0..<?C] ?body (replicate ?L 0, 0) = Some (nk, p)"
    unfolding dense2interleavedMetaData_def dims [OF assms(1,2)] Let_def by (auto split: Option.bind_splits)
  have "?I ?C (nk, p)"
  proof (rule for_up_partial [where I = ?I, OF run])
    fix j s s' assume j: "j < ?C" and I: "?I j s" and step: "?body j s = Some s'"
    obtain nk p where s: "s = (nk, p)" by (cases s)
    with step obtain nk1 p1 a b where rows: "for_list [0..<?R] (interleave_row c krn ?R (p + 1 + ?M) j)
        (nk, p + 1 + ?M, p + 1, 0) = Some (nk1, p1, a, b)" and s': "length (fst s') = length nk1" "snd s' = p1"
      by (auto simp: wr_def split: Option.bind_splits if_splits)
    have "length (?f j) = 1 + ?M + length (block_tiles c ?R krn (tile_nonzero c krn) j ?R)"
      by (simp add: interleaved_seg_def meta_of_def)
    with interleave_rows_room [OF assms(1) ker j rows] I s s' assms(4) show "?I (Suc j) s'"
      by (cases s') auto
  qed auto
  moreover have "mem2d ?R (?C - 1) (?R - 1) = ?C * ?R - 1"
    using assms(4,5) by (cases ?C; cases ?R) (auto simp: mem2d_def)
  ultimately show False
    using assms(5,6) big packed_size [OF ker order_refl] by simp
qed

lemma demo_all_nonzero: "n < 60 \<Longrightarrow> tile_nonzero demo_cfg (replicate 240 1) n"
  by (simp add: tile_nonzero_def dense_tile_def demo_cfg_def int_cfg_def int_nonzero_def tile_words_def MAX_W_COL_def
      W_PER_BUS_def CEILING_DIV_def per_bus_def BUS_WIDTH_def)

theorem interleaved_overflow_witness:
  "dense2interleavedMetaData demo_cfg (replicate 240 1) 4 60 = None"
proof (rule interleaved_overflow [where m = "SparseMatrixMultiplier 4 240 1 INTERLEAVED"])
  let ?m = "SparseMatrixMultiplier 4 240 1 INTERLEAVED"
  have dim: "row_in_w demo_cfg ?m = 1" "col_in_w demo_cfg ?m = 60" "tile_words demo_cfg = 4"
    by (simp_all add: SparseMatrixMultiplier_def row_in_w_def col_in_w_def tile_words_def)
  have "filter (tile_nonzero demo_cfg (replicate 240 1)) [0..<60] = [0..<60]"
    by (rule filter_True) (simp add: demo_all_nonzero)
  then show "new_kernel_size demo_cfg 4 60 < col_in_w demo_cfg ?m * (1 + (row_in_w demo_cfg ?m + 31) div 32) +
      length (filter (tile_nonzero demo_cfg (replicate 240 1)) [0..<col_in_w demo_cfg ?m * row_in_w demo_cfg ?m]) *
        tile_words demo_cfg"
    unfolding dim by (simp add: new_kernel_size_def)
qed (use demo_supported in \<open>simp_all add: gem5_supported_def SparseMatrixMultiplier_def col_in_w_def row_in_w_def
    kernel_ok_def dims_ok_def tile_words_def demo_all_nonzero\<close>)

end
