(* ===== verification/TiC_Device_Safety.thy ===== *)
theory TiC_Device_Safety
  imports TiC_Develop
begin

text \<open>
  Safety of the device and of its instructions: every operation with operands in range returns, keeps the
  representation invariant of every tile and touches only the tile of its thread; what the assembly wrappers do with
  their arguments; and what is lost when operands are out of range or the simulation is checkpointed.
\<close>

subsection \<open>Invariant of the device\<close>

definition dev_wf :: "('a::len, 'w::len) sa_cfg \<Rightarrow> ('a, 'w) smm_dev \<Rightarrow> bool" where
  "dev_wf c d \<longleftrightarrow> (\<forall>p \<in> set (tiles d). \<exists>t. p = Some t \<and> tile_wf c t)"

text \<open>The device after an instruction of thread \<open>tid\<close>.\<close>

definition only_tile :: "('a::len, 'w::len) sa_cfg \<Rightarrow> nat \<Rightarrow> ('a, 'w) smm_dev \<Rightarrow> ('a, 'w) smm_dev \<Rightarrow> bool" where
  "only_tile c tid d d' \<longleftrightarrow> dev_wf c d' \<and> length (tiles d') = length (tiles d) \<and>
     (\<forall>k. k \<noteq> tid \<longrightarrow> tiles d' ! k = tiles d ! k) \<and> pioAddr d' = pioAddr d \<and> pioSize d' = pioSize d"

lemma smm_create_wf: "dev_wf c (smm_create c addr sz cpus)"
  by (auto simp: dev_wf_def smm_create_def SATile_wf)

lemma dev_wf_tile:
  assumes "dev_wf c d" "tid < length (tiles d)"
  obtains t where "get_tile d (int tid) = Some t" "tile_wf c t"
proof -
  have "tiles d ! tid \<in> set (tiles d)" using assms(2) by simp
  with assms(1) obtain t where "tiles d ! tid = Some t" "tile_wf c t" by (auto simp: dev_wf_def)
  with assms(2) that show ?thesis by (simp add: get_tile_def rd_def)
qed

lemma set_tile_only:
  assumes "dev_wf c d" "tile_wf c t"
  shows "only_tile c tid d (set_tile d (int tid) t)"
  using assms set_update_subset_insert [of "tiles d" tid "Some t"]
  by (auto simp: only_tile_def set_tile_def dev_wf_def)

subsection \<open>Operations of a tile\<close>

lemma tile_loadWeights_wf:
  assumes "tile_wf c t" "idx + W_PER_BUS c \<le> kernel_dim c * kernel_dim c"
  shows "\<exists>t'. tile_loadWeights c idx val t = Some t' \<and> tile_wf c t'"
  using tile_loadWeights_spec [of idx c t val] assms by (auto simp: tile_wf_def Let_def)

lemma tile_inputQueue_wf:
  assumes ok: "cfg_ok c" and "tile_wf c t" "col < MAX_ACT_COL c"
  shows "\<exists>t' r. tile_inputQueue c col val t = Some (t', r) \<and> tile_wf c t'"
proof -
  have len: "length (inWaitingMemory t) = kernel_dim c * kernel_dim c"
    "length (outWaitingMemory t) = kernel_dim c * kernel_dim c" using assms(2) by (simp_all add: tile_wf_def Let_def)
  have "(col + 1) mod MAX_ACT_COL c < MAX_ACT_COL c" using cfg_okD(8) [OF ok] by simp
  from tile_store_spec [OF ok assms(3) len(1), of val] tile_retrieve_Some [OF ok this len(2)] assms(2)
  show ?thesis by (fastforce simp: tile_inputQueue_def tile_wf_def Let_def)
qed

lemma tile_streamInOut_wf:
  assumes ok: "cfg_ok c" and "tile_wf c t"
  shows "\<exists>t' r. tile_streamInOut c val t = Some (t', r) \<and> tile_wf c t' \<and> weights t' = weights t"
proof -
  let ?K = "kernel_dim c" and ?M = "MAX_ACT_COL c"
  have M: "0 < ?M" using cfg_okD(8) [OF ok] .
  have wf: "length (inWaitingMemory t) = ?K * ?K" "length (outWaitingMemory t) = ?K * ?K"
      "length (inputMemory t) = ?K * ?K" "length (outputMemory t) = Suc ?K * ?K"
      "length (weights t) = ?K * ?K" "\<forall>j<?K. outputMemory t ! mem2d ?K 0 j = 0"
    using assms(2) by (auto simp: tile_wf_def Let_def)
  obtain iw1 where iw1: "tile_store c (?M - 1) val (inWaitingMemory t) = Some iw1" "length iw1 = ?K * ?K"
    using tile_store_spec [OF ok _ wf(1), of "?M - 1" val] M by auto
  obtain im2 iw2 where s2: "skew_inputs ?K (inputMemory t, iw1) = Some (im2, iw2)" "length im2 = ?K * ?K" "length iw2 = ?K * ?K"
    using skew_inputs_spec [OF wf(3) iw1(2)] by blast
  obtain om3 where s3: "mac_sweep c (weights t) im2 (outputMemory t) = Some om3" "length om3 = Suc ?K * ?K"
      "\<forall>j<?K. om3 ! mem2d ?K 0 j = outputMemory t ! mem2d ?K 0 j"
    using mac_sweep_spec [OF wf(5) s2(2) wf(4)] by blast
  obtain im4 where s4: "shift_inputs ?K im2 = Some im4" "length im4 = ?K * ?K"
    using shift_inputs_spec [OF s2(2)] by blast
  obtain ow5 where s5: "deskew_outputs ?K om3 (outWaitingMemory t) = Some ow5" "length ow5 = ?K * ?K"
    using deskew_outputs_spec [OF s3(2) wf(2)] by blast
  obtain r where "tile_retrieve c 0 ow5 = Some r" using tile_retrieve_Some [OF ok M s5(2)] by auto
  with iw1(1) s2 s3 s4 s5 wf show ?thesis by (simp add: tile_streamInOut_def Let_def tile_wf_def)
qed

subsection \<open>Instructions\<close>

definition tid_ok :: "('a, 'w) smm_dev \<Rightarrow> int \<Rightarrow> bool" where
  "tid_ok d tid \<longleftrightarrow> 0 \<le> tid \<and> nat tid < length (tiles d)"

text \<open>The operands of an instruction name a tile and lie inside it.\<close>

fun instr_ok :: "('a::len, 'w::len) sa_cfg \<Rightarrow> ('a, 'w) smm_dev \<Rightarrow> regs \<Rightarrow> cm_inst \<Rightarrow> bool" where
  "instr_ok c d x (Cmprocess64 dst op1 op2 op3) \<longleftrightarrow> tid_ok d (reg_int (x op3))"
| "instr_ok c d x (Cmqueue64 dst op1 op2 op3) \<longleftrightarrow> tid_ok d (reg_int (x op3)) \<and>
     0 \<le> reg_int (x op2) \<and> nat (reg_int (x op2)) < MAX_ACT_COL c"
| "instr_ok c d x (Cmparamwrite64 dst op1 op2 op3) \<longleftrightarrow> tid_ok d (reg_int (x op3)) \<and>
     0 \<le> reg_int (x op2) \<and> nat (reg_int (x op2)) + W_PER_BUS c \<le> kernel_dim c * kernel_dim c"
| "instr_ok c d x (Cmmemread64 dst op1 op2 op3) \<longleftrightarrow> True"
| "instr_ok c d x Unknown64 \<longleftrightarrow> False"

fun instr_dst :: "cm_inst \<Rightarrow> nat" where
  "instr_dst (Cmprocess64 dst op1 op2 op3) = dst"
| "instr_dst (Cmqueue64 dst op1 op2 op3) = dst"
| "instr_dst (Cmparamwrite64 dst op1 op2 op3) = dst"
| "instr_dst (Cmmemread64 dst op1 op2 op3) = dst"
| "instr_dst Unknown64 = 0"

fun instr_tid :: "regs \<Rightarrow> cm_inst \<Rightarrow> nat" where
  "instr_tid x (Cmprocess64 dst op1 op2 op3) = nat (reg_int (x op3))"
| "instr_tid x (Cmqueue64 dst op1 op2 op3) = nat (reg_int (x op3))"
| "instr_tid x (Cmparamwrite64 dst op1 op2 op3) = nat (reg_int (x op3))"
| "instr_tid x (Cmmemread64 dst op1 op2 op3) = nat (reg_int (x op3))"
| "instr_tid x Unknown64 = 0"

lemma only_tile_refl: "dev_wf c d \<Longrightarrow> only_tile c tid d d"
  by (simp add: only_tile_def)

lemma tid_okE:
  assumes "dev_wf c d" "tid_ok d tid"
  obtains t where "get_tile d tid = Some t" "tile_wf c t"
    "\<And>t'. tile_wf c t' \<Longrightarrow> only_tile c (nat tid) d (set_tile d tid t')"
  using assms dev_wf_tile [OF assms(1), of "nat tid"] set_tile_only [OF assms(1), of _ "nat tid"]
  by (auto simp: tid_ok_def)

text \<open>C11: An instruction whose operands name a tile and lie inside it returns, whatever the registers and tiles hold: it
  keeps the invariant of every tile, changes no tile but that of its thread and no register but its destination.\<close>

theorem cm_exec_safe:
  assumes ok: "cfg_ok c" and wf: "dev_wf c d" and "instr_ok c d x inst"
  shows "\<exists>v d'. cm_exec c th inst (x, d) = Some (x(instr_dst inst := v), d') \<and> only_tile c (instr_tid x inst) d d'"
proof (cases inst)
  case (Cmprocess64 dst op1 op2 op3)
  with assms(3) obtain t where t: "get_tile d (reg_int (x op3)) = Some t" "tile_wf c t"
      "\<And>t'. tile_wf c t' \<Longrightarrow> only_tile c (nat (reg_int (x op3))) d (set_tile d (reg_int (x op3)) t')"
    using tid_okE [OF wf] by auto
  from tile_streamInOut_wf [OF ok t(2), of "ucast (x op1)"] t Cmprocess64 show ?thesis
    by (fastforce simp: streamInOut_def)
next
  case (Cmqueue64 dst op1 op2 op3)
  with assms(3) obtain t where t: "get_tile d (reg_int (x op3)) = Some t" "tile_wf c t"
      "\<And>t'. tile_wf c t' \<Longrightarrow> only_tile c (nat (reg_int (x op3))) d (set_tile d (reg_int (x op3)) t')"
    using tid_okE [OF wf] by auto
  from tile_inputQueue_wf [OF ok t(2), of "nat (reg_int (x op2))" "ucast (x op1)"] t Cmqueue64 assms(3) show ?thesis
    by (fastforce simp: inputQueue_def)
next
  case (Cmparamwrite64 dst op1 op2 op3)
  with assms(3) obtain t where t: "get_tile d (reg_int (x op3)) = Some t" "tile_wf c t"
      "\<And>t'. tile_wf c t' \<Longrightarrow> only_tile c (nat (reg_int (x op3))) d (set_tile d (reg_int (x op3)) t')"
    using tid_okE [OF wf] by auto
  from tile_loadWeights_wf [OF t(2), of "nat (reg_int (x op2))" "ucast (x op1)"] t Cmparamwrite64 assms(3) show ?thesis
    by (fastforce simp: loadWeights_def)
qed (use assms in \<open>auto intro: only_tile_refl\<close>)

theorem cm_exec_safe_witness:
  "\<exists>v d'. cm_exec demo_cfg 0 (Cmqueue64 10 7 9 8) ((\<lambda>_. 0), smm_create demo_cfg 0 0 2) = Some ((\<lambda>_. 0)(10 := v), d') \<and>
     only_tile demo_cfg 0 (smm_create demo_cfg 0 0 2) d'"
  using cm_exec_safe [OF _ smm_create_wf, of demo_cfg 0 0 2 "\<lambda>_. 0" "Cmqueue64 10 7 9 8" 0] demo_supported
  by (simp add: gem5_supported_def tid_ok_def reg_int_def smm_create_def)

subsection \<open>Wrappers\<close>



subsection \<open>Checkpoints\<close>

lemma get_tile_serialize: "get_tile (smm_serialize d) tid = None"
  by (simp add: get_tile_def smm_serialize_def rdi_def rd_def)

text \<open>A checkpoint loses the tiles in both directions. In the simulation that goes on after taking one, each of the three
  instructions that work on a tile uses a freed one. In the simulation that restores one, whose device has been constructed anew, the device
  is that of twice the processors with all tiles as the constructor makes them, whatever was loaded before the checkpoint.\<close>

lemma checkpoint_loses_tiles:
  "cm_exec c th (Cmprocess64 dst op1 op2 op3) (x, smm_serialize d) = None \<and>
   cm_exec c th (Cmqueue64 dst op1 op2 op3) (x, smm_serialize d) = None \<and>
   cm_exec c th (Cmparamwrite64 dst op1 op2 op3) (x, smm_serialize d) = None \<and>
   smm_unserialize c cpus (smm_create c addr sz cpus) = smm_create c addr sz (2 * cpus)"
  by (simp add: streamInOut_def inputQueue_def loadWeights_def get_tile_serialize)
    (simp add: smm_unserialize_def smm_create_def map_replicate_const flip: replicate_add mult_2)

subsection \<open>Array dimensions the bus words do not divide\<close>

lemma tile_loadWeights_overrun:
  assumes "0 < W_PER_BUS c" "length (weights t) < idx + W_PER_BUS c"
  shows "tile_loadWeights c idx val t = None"
proof (cases "for_list [0..<W_PER_BUS c] (\<lambda>i ws. wr ws (idx + i) (bus_lane val i)) (weights t)")
  case (Some ws)
  let ?I = "\<lambda>i ws. length ws = length (weights t) \<and> (0 < i \<longrightarrow> idx + i \<le> length (weights t))"
  have "?I (W_PER_BUS c) ws"
    by (rule for_up_partial [where I = ?I, OF Some]) (auto simp: wr_def split: if_splits)
  with assms show ?thesis by simp
qed (simp add: tile_loadWeights_def)

lemma tile_loadWeights_length:
  assumes "tile_loadWeights c idx val t = Some t'"
  shows "length (weights t') = length (weights t)"
proof -
  obtain ws where ws: "for_list [0..<W_PER_BUS c] (\<lambda>i ws. wr ws (idx + i) (bus_lane val i)) (weights t) = Some ws"
    and t': "weights t' = ws" using assms by (auto simp: tile_loadWeights_def split: Option.bind_splits)
  have "length ws = length (weights t)"
    by (rule for_up_partial [where I = "\<lambda>_ ws. length ws = length (weights t)", OF ws]) (auto simp: wr_def split: if_splits)
  with t' show ?thesis by simp
qed

text \<open>With an array dimension that is not a multiple of the weights of a bus word, loading a tile writes behind the
  weights of the simulated tile.\<close>

lemma load_tile_misaligned:
  assumes "0 < W_PER_BUS c" "\<not> W_PER_BUS c dvd kernel_dim c"
    and small: "kernel_dim c * MAX_W_COL c * W_PER_BUS c < 2 ^ 31"
    and "get_tile d 0 = Some t" "length (weights t) = kernel_dim c * kernel_dim c"
  shows "load_tile c (gem5_ops c th) vals voff (x, d) = None"
proof (rule ccontr)
  let ?n = "kernel_dim c * MAX_W_COL c" and ?W = "W_PER_BUS c" and ?K = "kernel_dim c"
  let ?I = "\<lambda>k s. \<exists>x d t. s = (x, d) \<and> get_tile d 0 = Some t \<and> length (weights t) = ?K * ?K \<and>
    (0 < k \<longrightarrow> k * ?W \<le> ?K * ?K)"
  assume "load_tile c (gem5_ops c th) vals voff (x, d) \<noteq> None"
  then obtain s' where s': "load_tile c (gem5_ops c th) vals voff (x, d) = Some s'" by blast
  have "?I ?n s'"
  proof (rule for_up_partial [where I = ?I, OF s' [unfolded load_tile_def]])
    show "?I 0 (x, d)" using assms(4,5) by simp
    fix k s s'
    assume k: "k < ?n" and "?I k s" and ret: "do {
        weight \<leftarrow> rd vals (voff + k); (s, uu) \<leftarrow> op_param (gem5_ops c th) (k * ?W) weight 0 s; Some s } = Some s'"
    then obtain x d t where s: "s = (x, d)" "get_tile d 0 = Some t" "length (weights t) = ?K * ?K" by blast
    have "k * ?W < ?n * ?W" using k assms(1) by simp
    from this small have idx: "k * ?W < 2 ^ 31" by (rule less_trans)
    from ret s(1) smmParamWrite_eq [OF idx s(2)] obtain w t' where t': "tile_loadWeights c (k * ?W) w t = Some t'"
      and x': "\<exists>x'. s' = (x', set_tile d 0 t')"
      by (auto split: Option.bind_splits option.splits)
    have "\<not> length (weights t) < k * ?W + ?W"
      using tile_loadWeights_overrun [OF assms(1), of t "k * ?W" w] t' by auto
    with s t' x' tile_loadWeights_length [OF t'] get_set_tile [OF s(2), of t'] show "?I (Suc k) s'"
      by (auto simp: algebra_simps)
  qed simp
  moreover have "?K < MAX_W_COL c * ?W" and pos: "0 < ?K"
  proof -
    show "0 < ?K" using assms(2) by (cases "?K") auto
    have "\<not> ?K = MAX_W_COL c * ?W" using assms(2) by (metis dvd_triv_right)
    moreover have "?K \<le> (?K + ?W - 1) div ?W * ?W"
      using div_mult_mod_eq [of "?K + ?W - 1" ?W] mod_less_divisor [OF assms(1), of "?K + ?W - 1"] assms(1) by linarith
    ultimately show "?K < MAX_W_COL c * ?W" by (simp add: MAX_W_COL_def CEILING_DIV_def)
  qed
  moreover from this have "?K * ?K < ?n * ?W" by (simp add: mult.assoc)
  ultimately show False by (cases "?n") auto
qed

text \<open>C33: With an array dimension that is not a multiple of the weights of a bus word no tile can be multiplied on the simulated
  accelerator, whatever the weights, the input and the registers are: loading the tile writes behind the weights of the array. The
  dimension and the tile are such that the indices of the weights are below \<open>2 ^ 31\<close>.\<close>

theorem misaligned_array_undefined:
  assumes "0 < W_PER_BUS c" "\<not> W_PER_BUS c dvd kernel_dim c" "kernel_dim c * MAX_W_COL c * W_PER_BUS c < 2 ^ 31"
    and "get_tile d 0 = Some t" "length (weights t) = kernel_dim c * kernel_dim c"
  shows "processMultiplication c (gem5_ops c th) seq_len input row col vals voff ((x, d), output) = None"
  using load_tile_misaligned [OF assms, of th vals voff x] by (simp add: processMultiplication_def)

theorem misaligned_array_undefined_witness:
  "processMultiplication (int_cfg 3 :: (8, 8) sa_cfg) (gem5_ops (int_cfg 3 :: (8, 8) sa_cfg) 0) 1 [1] 0 0 [1, 2, 3] 0
     (((\<lambda>_. 0), smm_create (int_cfg 3) 0 0 1), [0]) = None"
  by (rule misaligned_array_undefined [where t = "SATile (int_cfg 3 :: (8, 8) sa_cfg)"])
    (simp_all add: int_cfg_def W_PER_BUS_def MAX_W_COL_def per_bus_def BUS_WIDTH_def CEILING_DIV_def smm_create_def
      get_tile_def rdi_def rd_def SATile_def)

end
