(* ===== verification/TiC_Elements.thy ===== *)
theory TiC_Elements
  imports TiC_Product
begin

text \<open>
  Tensors addressed through element pointers. The layers of \<^verbatim>\<open>transformer_layers\<close> cast a \<^verbatim>\<open>uint32_t*\<close> to
  \<^verbatim>\<open>activation_t*\<close> (or \<^verbatim>\<open>u_activation_t*\<close>) and walk over the elements in memory order, which on the little-endian target
  is least significant lane first. \<open>rd_elem\<close> and \<open>wr_elem\<close> are the accesses through such a pointer, \<open>elems\<close> is the array
  they see.

  The locale \<open>element_view\<close> is what the loops of the layers rely on; its lemmas describe a loop that rewrites elements
  one by one while accumulating a value. It is interpreted for the packed tensors and for plain arrays.
\<close>

subsection \<open>Model\<close>

definition rd_elem :: "32 word list \<Rightarrow> nat \<Rightarrow> 'b::len word option" where
  "rd_elem xs e = do {
     w \<leftarrow> rd xs (e div per_bus TYPE('b));
     Some (mem_lane w (e mod per_bus TYPE('b)))
   }"

definition wr_elem :: "32 word list \<Rightarrow> nat \<Rightarrow> 'b::len word \<Rightarrow> 32 word list option" where
  "wr_elem xs e v = do {
     w \<leftarrow> rd xs (e div per_bus TYPE('b));
     wr xs (e div per_bus TYPE('b)) (set_mem_lane w (e mod per_bus TYPE('b)) v)
   }"

definition elems :: "32 word list \<Rightarrow> 'b::len word list" where
  "elems xs = map (\<lambda>e. mem_lane (xs ! (e div per_bus TYPE('b))) (e mod per_bus TYPE('b)))
     [0..<length xs * per_bus TYPE('b)]"

subsection \<open>The contract of an element pointer\<close>

locale element_view =
  fixes view :: "'m \<Rightarrow> 'x list"
    and get :: "'m \<Rightarrow> nat \<Rightarrow> 'x option"
    and put :: "'m \<Rightarrow> nat \<Rightarrow> 'x \<Rightarrow> 'm option"
    and width_ok :: bool
  assumes get_view: "width_ok \<Longrightarrow> get m e = rd (view m) e"
    and put_view: "width_ok \<Longrightarrow> e < length (view m) \<Longrightarrow>
      \<exists>m'. put m e v = Some m' \<and> view m' = (view m)[e := v]"
    and put_outside: "width_ok \<Longrightarrow> length (view m) \<le> e \<Longrightarrow> put m e v = None"
begin

text \<open>A pass over distinct elements: each is replaced by \<open>f\<close> of it and folded into an accumulator.\<close>

lemma pass_loop_at:
  assumes "width_ok" "distinct es" "set es \<subseteq> {..<length (view m)}"
  shows "\<exists>m'. for_list es (\<lambda>e (m, a). do {
      v \<leftarrow> get m e; m \<leftarrow> put m e (f e v); Some (m, g e v a) }) (m, a) =
    Some (m', fold (\<lambda>e. g e (view m ! e)) es a) \<and> length (view m') = length (view m) \<and>
    (\<forall>e<length (view m). view m' ! e = (if e \<in> set es then f e (view m ! e) else view m ! e))"
  using assms(2,3)
proof (induction es arbitrary: m a)
  case Nil
  then show ?case by simp
next
  case (Cons e es)
  from Cons.prems have e: "e < length (view m)" and es: "e \<notin> set es" "distinct es" by auto
  obtain m1 where m1: "put m e (f e (view m ! e)) = Some m1" "view m1 = (view m)[e := f e (view m ! e)]"
    using put_view [OF assms(1) e] by blast
  have "set es \<subseteq> {..<length (view m1)}" using Cons.prems m1 by auto
  from Cons.IH [OF es(2) this, of "g e (view m ! e) a"] obtain m2 where
    m2: "for_list es (\<lambda>e (m, a). do { v \<leftarrow> get m e; m \<leftarrow> put m e (f e v); Some (m, g e v a) }) (m1, g e (view m ! e) a) =
      Some (m2, fold (\<lambda>e. g e (view m1 ! e)) es (g e (view m ! e) a))" "length (view m2) = length (view m1)"
    "\<forall>e<length (view m1). view m2 ! e = (if e \<in> set es then f e (view m1 ! e) else view m1 ! e)" by blast
  have "fold (\<lambda>e. g e (view m1 ! e)) es a' = fold (\<lambda>e. g e (view m ! e)) es a'" for a'
  proof (rule fold_cong)
    fix x assume "x \<in> set es"
    with es(1) have "x \<noteq> e" by auto
    then show "g x (view m1 ! x) = g x (view m ! x)" by (simp add: m1)
  qed simp_all
  with m1 m2 e es(1) show ?case
    by (auto simp: get_view [OF assms(1)] arr_simps nth_list_update)
qed

lemma update_loop_at:
  assumes "width_ok" "distinct es" "set es \<subseteq> {..<length (view m)}"
  shows "\<exists>m'. for_list es (\<lambda>e m. do { v \<leftarrow> get m e; put m e (f e v) }) m = Some m' \<and>
    length (view m') = length (view m) \<and>
    (\<forall>e<length (view m). view m' ! e = (if e \<in> set es then f e (view m ! e) else view m ! e))"
  using assms(2,3)
proof (induction es arbitrary: m)
  case Nil
  then show ?case by simp
next
  case (Cons e es)
  from Cons.prems have e: "e < length (view m)" and es: "e \<notin> set es" "distinct es" by auto
  obtain m1 where m1: "put m e (f e (view m ! e)) = Some m1" "view m1 = (view m)[e := f e (view m ! e)]"
    using put_view [OF assms(1) e] by blast
  have "set es \<subseteq> {..<length (view m1)}" using Cons.prems m1 by auto
  from Cons.IH [OF es(2) this] m1 e es(1) show ?case
    by (auto simp: get_view [OF assms(1)] arr_simps nth_list_update)
qed

lemma pass_loop:
  assumes "width_ok" "distinct es" "set es \<subseteq> {..<length (view m)}"
  shows "\<exists>m'. for_list es (\<lambda>e (m, a). do {
      v \<leftarrow> get m e; m \<leftarrow> put m e (f v); Some (m, g v a) }) (m, a) =
    Some (m', fold (\<lambda>e. g (view m ! e)) es a) \<and> length (view m') = length (view m) \<and>
    (\<forall>e<length (view m). view m' ! e = (if e \<in> set es then f (view m ! e) else view m ! e))"
  by (rule pass_loop_at [OF assms])

lemma update_loop:
  assumes "width_ok" "distinct es" "set es \<subseteq> {..<length (view m)}"
  shows "\<exists>m'. for_list es (\<lambda>e m. do { v \<leftarrow> get m e; put m e (f v) }) m = Some m' \<and>
    length (view m') = length (view m) \<and>
    (\<forall>e<length (view m). view m' ! e = (if e \<in> set es then f (view m ! e) else view m ! e))"
  by (rule update_loop_at [OF assms])

lemma sum_loop:
  assumes "width_ok" "set es \<subseteq> {..<length (view m)}"
  shows "for_list es (\<lambda>e a. do { v \<leftarrow> get m e; Some (g v a) }) a = Some (fold (\<lambda>e. g (view m ! e)) es a)"
  using assms(2) by (intro for_list_fold) (auto simp: get_view [OF assms(1)] arr_simps)

end

subsection \<open>Packed tensors\<close>

lemma length_elems [simp]: "length (elems xs :: 'b::len word list) = length xs * per_bus TYPE('b)"
  by (simp add: elems_def)

lemma nth_elems:
  "e < length xs * per_bus TYPE('b::len) \<Longrightarrow>
     (elems xs :: 'b word list) ! e = mem_lane (xs ! (e div per_bus TYPE('b))) (e mod per_bus TYPE('b))"
  by (simp add: elems_def)

interpretation packed: element_view "elems :: 32 word list \<Rightarrow> 'b::len word list" rd_elem wr_elem "0 < per_bus TYPE('b)"
proof
  let ?A = "per_bus TYPE('b)"
  assume A: "0 < ?A"
  fix m :: "32 word list" and e :: nat and v :: "'b word"
  have lt: "e div ?A < length m \<longleftrightarrow> e < length (elems m :: 'b word list)"
    using A by (simp add: div_less_iff_less_mult)
  show "rd_elem m e = rd (elems m :: 'b word list) e"
    using lt by (auto simp: rd_elem_def rd_def nth_elems)
  show "length (elems m :: 'b word list) \<le> e \<Longrightarrow> wr_elem m e v = None"
    using lt by (simp add: wr_elem_def rd_def)
  assume e: "e < length (elems m :: 'b word list)"
  let ?m' = "m[e div ?A := set_mem_lane (m ! (e div ?A)) (e mod ?A) v]"
  have "elems ?m' = (elems m :: 'b word list)[e := v]"
  proof (rule nth_equalityI)
    show "length (elems ?m' :: 'b word list) = length ((elems m :: 'b word list)[e := v])" by simp
    fix i assume "i < length (elems ?m' :: 'b word list)"
    then have i: "i < length m * ?A" by simp
    then have "i div ?A < length m" using A by (simp add: div_less_iff_less_mult)
    moreover have "i = e" if "i div ?A = e div ?A" "i mod ?A = e mod ?A"
      using that by (metis div_mult_mod_eq)
    ultimately show "(elems ?m' :: 'b word list) ! i = (elems m)[e := v] ! i"
      using i A e by (cases "i div ?A = e div ?A") (auto simp: nth_elems nth_list_update mem_lane_set)
  qed
  with e lt show "\<exists>m'. wr_elem m e v = Some m' \<and> elems m' = (elems m :: 'b word list)[e := v]"
    by (simp add: wr_elem_def rd_def wr_def)
qed

subsection \<open>Plain arrays\<close>

interpretation plain: element_view "\<lambda>xs. xs" rd wr True
  by unfold_locales (auto simp: rd_def wr_def)

subsection \<open>Activations of the blocked layout as elements\<close>

text \<open>Within a bus word the lanes are mirrored: the first activation is the last element.\<close>

definition mirror :: "nat \<Rightarrow> nat \<Rightarrow> nat" where
  "mirror A x = mem2d A (x div A) (A - x mod A - 1)"

definition act_pos :: "('a::len, 'w::len) sa_cfg \<Rightarrow> nat \<Rightarrow> nat \<Rightarrow> nat \<Rightarrow> nat" where
  "act_pos c seq_len t j =
     mem2d (kernel_dim c) (mem2d seq_len (j div kernel_dim c) t) (mirror (ACT_PER_BUS c) (j mod kernel_dim c))"

text \<open>The elements of row \<open>i\<close> in the order the code visits them: \<^verbatim>\<open>i * KERNEL_DIM + j * seq_len * KERNEL_DIM + k\<close>.\<close>

definition row_elem :: "nat \<Rightarrow> nat \<Rightarrow> nat \<Rightarrow> nat \<Rightarrow> nat \<Rightarrow> nat" where
  "row_elem K seq_len i j k = i * K + j * (seq_len * K) + k"

definition row_elems :: "nat \<Rightarrow> nat \<Rightarrow> nat \<Rightarrow> nat \<Rightarrow> nat list" where
  "row_elems K seq_len n i = map (\<lambda>p. row_elem K seq_len i (p div K) (p mod K)) [0..<n * K]"

lemma row_elem_mem2d: "row_elem K seq_len i j k = mem2d K (mem2d seq_len j i) k"
  by (simp add: row_elem_def mem2d_def algebra_simps)

lemma mirror_mirror: "0 < A \<Longrightarrow> mirror A (mirror A x) = x"
  by (simp add: mirror_def) (simp add: mem2d_def Suc_diff_Suc)

lemma mirror_less: "A dvd K \<Longrightarrow> 0 < A \<Longrightarrow> x < K \<Longrightarrow> mirror A x < K"
  using mem2d_less [of "x div A" "K div A" "A - x mod A - 1" A]
  by (auto simp: mirror_def elim!: dvdE) (simp add: less_mult_imp_div_less mult.commute)

lemma distinct_row_elems: "i < seq_len \<Longrightarrow> distinct (row_elems K seq_len n i)"
proof -
  assume i: "i < seq_len"
  have "inj_on (\<lambda>p. row_elem K seq_len i (p div K) (p mod K)) {0..<n * K}"
  proof (rule inj_onI)
    fix p q assume p: "p \<in> {0..<n * K}" "q \<in> {0..<n * K}"
      and eq: "row_elem K seq_len i (p div K) (p mod K) = row_elem K seq_len i (q div K) (q mod K)"
    then have "0 < K" by (cases K) auto
    with eq i have "p div K = q div K \<and> p mod K = q mod K" by (simp add: row_elem_mem2d)
    then show "p = q" by (metis div_mult_mod_eq)
  qed
  then show ?thesis by (simp add: row_elems_def distinct_map)
qed

lemma set_row_elems: "set (row_elems K seq_len n i) = {mem2d K (mem2d seq_len j i) k | j k. j < n \<and> k < K}"
proof -
  have "set (row_elems K seq_len n i) = (\<lambda>p. row_elem K seq_len i (p div K) (p mod K)) ` {0..<n * K}"
    by (simp add: row_elems_def)
  also have "\<dots> = {mem2d K (mem2d seq_len j i) k | j k. j < n \<and> k < K}"
  proof (intro equalityI subsetI)
    fix e assume "e \<in> (\<lambda>p. row_elem K seq_len i (p div K) (p mod K)) ` {0..<n * K}"
    then obtain p where p: "p < n * K" "e = mem2d K (mem2d seq_len (p div K) i) (p mod K)"
      by (auto simp: row_elem_mem2d)
    then obtain j k where "j < n" "k < K" "p = mem2d K j k" by (elim mem2d_exhaust)
    with p show "e \<in> {mem2d K (mem2d seq_len j i) k | j k. j < n \<and> k < K}" by auto
  next
    fix e assume "e \<in> {mem2d K (mem2d seq_len j i) k | j k. j < n \<and> k < K}"
    then obtain j k where "j < n" "k < K" "e = mem2d K (mem2d seq_len j i) k" by blast
    then show "e \<in> (\<lambda>p. row_elem K seq_len i (p div K) (p mod K)) ` {0..<n * K}"
      by (intro image_eqI [of _ _ "mem2d K j k"]) (simp_all add: row_elem_mem2d mem2d_less)
  qed
  finally show ?thesis .
qed

lemma row_elems_bound: "i < seq_len \<Longrightarrow> set (row_elems K seq_len n i) \<subseteq> {..<n * seq_len * K}"
  by (auto simp: set_row_elems intro!: mem2d_less)

lemma row_elems_disjoint:
  "i < seq_len \<Longrightarrow> i' < seq_len \<Longrightarrow> e \<in> set (row_elems K seq_len n i) \<Longrightarrow> e \<in> set (row_elems K seq_len n i') \<longleftrightarrow> i' = i"
  by (auto simp: set_row_elems)

lemma act_pos_row:
  assumes "cfg_ok c" and t: "t < seq_len"
  shows "bij_betw (act_pos c seq_len t) {..<n * kernel_dim c} (set (row_elems (kernel_dim c) seq_len n t))"
proof (rule bij_betw_imageI)
  let ?K = "kernel_dim c" and ?A = "ACT_PER_BUS c"
  have A: "0 < ?A" "?A dvd ?K" "0 < ?K" using assms(1) by (simp_all add: cfg_okD cfg_ok_def)
  note less = mirror_less [OF A(2,1)]
  show "inj_on (act_pos c seq_len t) {..<n * ?K}"
  proof (rule inj_onI)
    fix j j' assume "act_pos c seq_len t j = act_pos c seq_len t j'"
    then have "j div ?K = j' div ?K" "mirror ?A (j mod ?K) = mirror ?A (j' mod ?K)"
      using A(3) t by (simp_all add: act_pos_def less)
    then show "j = j'" using mirror_mirror [OF A(1)] by (metis div_mult_mod_eq)
  qed
  show "act_pos c seq_len t ` {..<n * ?K} = set (row_elems ?K seq_len n t)"
    unfolding set_row_elems
  proof (intro equalityI subsetI)
    fix e assume "e \<in> act_pos c seq_len t ` {..<n * ?K}"
    then obtain j where "j < n * ?K" "e = act_pos c seq_len t j" by auto
    then show "e \<in> {mem2d ?K (mem2d seq_len j t) k | j k. j < n \<and> k < ?K}"
      using A(3) less by (auto simp: act_pos_def less_mult_imp_div_less intro!: exI)
  next
    fix e assume "e \<in> {mem2d ?K (mem2d seq_len j t) k | j k. j < n \<and> k < ?K}"
    then obtain j k where jk: "j < n" "k < ?K" "e = mem2d ?K (mem2d seq_len j t) k" by blast
    then have "e = act_pos c seq_len t (mem2d ?K j (mirror ?A k))"
      by (simp add: act_pos_def less mirror_mirror [OF A(1)])
    moreover have "mem2d ?K j (mirror ?A k) < n * ?K" using jk less by (intro mem2d_less) simp_all
    ultimately show "e \<in> act_pos c seq_len t ` {..<n * ?K}" by simp
  qed
qed

lemma act_at_elems:
  fixes c :: "('a::len, 'w::len) sa_cfg"
  assumes "cfg_ok c" "t < seq_len" "j < n * kernel_dim c" "n * MAX_ACT_COL c * seq_len \<le> length xs"
  shows "act_at c seq_len xs t j = elems xs ! act_pos c seq_len t j"
proof -
  let ?K = "kernel_dim c" and ?A = "ACT_PER_BUS c" and ?M = "MAX_ACT_COL c"
  have A: "0 < ?A" "?A dvd ?K" "0 < ?K" and MA: "?M * ?A = ?K" using assms(1) by (simp_all add: cfg_okD cfg_ok_def)
  have bus: "per_bus TYPE('a) = ?A" by (simp add: ACT_PER_BUS_def)
  let ?b = "mem2d seq_len (j div ?K) t" and ?q = "j mod ?K div ?A" and ?r = "?A - j mod ?A - 1"
  have q: "?q < ?M" using A MA by (simp add: less_mult_imp_div_less)
  have r: "?r < ?A" "j mod ?K mod ?A = j mod ?A" using A by (simp_all add: mod_mod_cancel)
  have pos: "act_pos c seq_len t j = mem2d ?A (mem2d ?M ?b ?q) ?r"
    using MA by (simp add: act_pos_def mirror_def r(2)) (simp add: mem2d_def algebra_simps flip: MA)
  have "?b < n * seq_len" using assms(2,3) by (intro mem2d_less) (simp_all add: less_mult_imp_div_less)
  then have "mem2d ?M ?b ?q < n * seq_len * ?M" using q by (rule mem2d_less)
  then have w: "mem2d ?M ?b ?q < length xs" using assms(4) by (simp add: mult.assoc mult.commute [of seq_len])
  have "(elems xs :: 'a word list) ! act_pos c seq_len t j = mem_lane (xs ! mem2d ?M ?b ?q) ?r"
    using mem2d_less [OF w r(1)] r(1) by (simp add: nth_elems bus pos)
  also have "\<dots> = bus_lane (xs ! mem2d ?M ?b ?q) (j mod ?A)"
    using A(1) by (simp add: mem_lane_bus bus)
  also have "mem2d ?M ?b ?q = j div ?K * ?M * seq_len + t * ?M + ?q"
    by (simp add: mem2d_def algebra_simps)
  finally show ?thesis by (simp add: act_at_def)
qed

text \<open>Sums over the elements of a row, in any order, are sums over its activations.\<close>

lemma fold_sum_distinct:
  fixes h :: "nat \<Rightarrow> 'z::comm_monoid_add"
  assumes "distinct es"
  shows "fold (\<lambda>e s. s + h e) es s = s + (\<Sum>e \<in> set es. h e)"
  using assms by (induction es arbitrary: s) (simp_all add: add.assoc)

lemma row_sum:
  fixes c :: "('a::len, 'w::len) sa_cfg" and h :: "'a word \<Rightarrow> 'z::comm_monoid_add"
  assumes "cfg_ok c" "t < seq_len" "n * MAX_ACT_COL c * seq_len \<le> length xs"
  shows "fold (\<lambda>e s. s + h (elems xs ! e)) (row_elems (kernel_dim c) seq_len n t) s =
    s + (\<Sum>j<n * kernel_dim c. h (act_at c seq_len xs t j))"
proof -
  have "(\<Sum>e \<in> set (row_elems (kernel_dim c) seq_len n t). h (elems xs ! e)) =
      (\<Sum>j<n * kernel_dim c. h (elems xs ! act_pos c seq_len t j))"
    using sum.reindex_bij_betw [OF act_pos_row [OF assms(1,2), of n], of "\<lambda>e. h (elems xs ! e)"] by simp
  also have "\<dots> = (\<Sum>j<n * kernel_dim c. h (act_at c seq_len xs t j))"
    by (rule sum.cong) (simp_all add: act_at_elems [OF assms(1,2) _ assms(3)])
  finally show ?thesis by (simp add: fold_sum_distinct [OF distinct_row_elems [OF assms(2)]])
qed

end
