(* ===== verification/TiC_Layout.thy ===== *)
theory TiC_Layout
  imports TiC_Elements
begin

text \<open>
  Changes of the layout of a tensor: \<^verbatim>\<open>transformer_layers/transpose.cc\<close> (transposition of packed row-major and of blocked
  tensors, gathering of the heads) and the conversions of \<^verbatim>\<open>transformer_layers/debuggerFunctions.cc\<close> between row-wise and
  block-wise kernels. Each operation writes every word of its output once; \<open>filled\<close> is the invariant of their loops.
\<close>

subsection \<open>Model\<close>

text \<open>One output word of a transposition: lane \<open>k\<close> of each of the words of \<open>swap\<close>.\<close>

definition gather_lanes :: "('a::len, 'w::len) sa_cfg \<Rightarrow> 32 word list \<Rightarrow> nat \<Rightarrow> 32 word option" where
  "gather_lanes c swap k =
     for_list [0..<ACT_PER_BUS c] (\<lambda>s result. do {
       w \<leftarrow> rd swap s;
       Some (result OR push_bit ((ACT_PER_BUS c - 1 - s) * LENGTH('a))
         (drop_bit ((ACT_PER_BUS c - 1 - k) * LENGTH('a)) w AND mask LENGTH('a)))
     }) 0"

definition transpose_words ::
  "('a::len, 'w::len) sa_cfg \<Rightarrow> 32 word list \<Rightarrow> nat \<Rightarrow> nat \<Rightarrow> 32 word list \<Rightarrow> 32 word list option" where
  "transpose_words c input width height output = (
     let height_tile = height div ACT_PER_BUS c; width_tile = width div ACT_PER_BUS c in
     for_list [0..<height_tile] (\<lambda>i. for_list [0..<width_tile] (\<lambda>j output. do {
       swap \<leftarrow> for_list [0..<ACT_PER_BUS c] (\<lambda>k swap. do {
         w \<leftarrow> rd input ((i * ACT_PER_BUS c + k) * width_tile + j);
         wr swap k w
       }) (replicate (ACT_PER_BUS c) 0);
       for_list [0..<ACT_PER_BUS c] (\<lambda>k output. do {
         result \<leftarrow> gather_lanes c swap k;
         wr output ((j * ACT_PER_BUS c + k) * height_tile + i) result
       }) output
     })) output)"

definition transpose_rearranged ::
  "('a::len, 'w::len) sa_cfg \<Rightarrow> 32 word list \<Rightarrow> nat \<Rightarrow> nat \<Rightarrow> 32 word list \<Rightarrow> 32 word list option" where
  "transpose_rearranged c input width height output = (
     let K = kernel_dim c; A = ACT_PER_BUS c; M = MAX_ACT_COL c;
         tileRow = height div K; tileCol = width div K in
     for_list [0..<tileRow] (\<lambda>i. for_list [0..<tileCol] (\<lambda>j.
       let tileInputPtr = (j * tileRow + i) * (K * M); tileOutputPtr = (i * tileCol + j) * (K * M) in
       for_list [0..<M] (\<lambda>m. for_list [0..<A] (\<lambda>indexInBus. for_list [0..<M] (\<lambda>k output. do {
         result \<leftarrow> for_list [0..<A] (\<lambda>s result. do {
           w \<leftarrow> rd input (tileInputPtr + (A * k + s) * M + m);
           Some (result OR push_bit ((A - 1 - s) * LENGTH('a))
             (drop_bit ((A - 1 - indexInBus) * LENGTH('a)) w AND mask LENGTH('a)))
         }) 0;
         wr output (tileOutputPtr + m * A * M + indexInBus * M + k) result
       }))))) output)"

definition multihead_transpose ::
  "32 word list \<Rightarrow> nat \<Rightarrow> nat \<Rightarrow> nat \<Rightarrow> 32 word list \<Rightarrow> 32 word list option" where
  "multihead_transpose input seq_len head_hidden_size num_head output0 = do {
     (output, _) \<leftarrow> for_list [0..<seq_len] (\<lambda>i. for_list [0..<num_head] (\<lambda>n (output, outPtr). do {
       let inPtr = i * head_hidden_size + n * seq_len * head_hidden_size;
       (output, outPtr, inPtr) \<leftarrow> for_list [0..<head_hidden_size] (\<lambda>j (output, outPtr, inPtr). do {
         v \<leftarrow> rd input inPtr;
         output \<leftarrow> wr output outPtr v;
         Some (output, outPtr + 1, inPtr + 1)
       }) (output, outPtr, inPtr);
       Some (output, outPtr)
     })) (output0, 0);
     Some output
   }"

definition blockWise2RowWise ::
  "('a::len, 'w::len) sa_cfg \<Rightarrow> 32 word list \<Rightarrow> nat \<Rightarrow> nat \<Rightarrow> 32 word list \<Rightarrow> 32 word list option" where
  "blockWise2RowWise c blockWise n_row n_col rowWise0 = do {
     (rowWise, _) \<leftarrow> for_list [0..<n_col div MAX_W_COL c] (\<lambda>col (rowWise, bp). do {
       (rowWise, bp, rp) \<leftarrow> for_list [0..<n_row] (\<lambda>row (rowWise, bp, rp). do {
         rowWise \<leftarrow> for_list [0..<MAX_W_COL c] (\<lambda>i rowWise. do {
           v \<leftarrow> rd blockWise (bp + i);
           wr rowWise (rp + i) v
         }) rowWise;
         Some (rowWise, bp + MAX_W_COL c, rp + n_col)
       }) (rowWise, bp, col * MAX_W_COL c);
       Some (rowWise, bp)
     }) (rowWise0, 0);
     Some rowWise
   }"

definition rowWise2BlockWise ::
  "('a::len, 'w::len) sa_cfg \<Rightarrow> 32 word list \<Rightarrow> nat \<Rightarrow> nat \<Rightarrow> 32 word list \<Rightarrow> 32 word list option" where
  "rowWise2BlockWise c rowWise n_row n_col blockWise0 = do {
     (blockWise, _) \<leftarrow> for_list [0..<n_col div MAX_W_COL c] (\<lambda>col (blockWise, bp). do {
       (blockWise, bp, rp) \<leftarrow> for_list [0..<n_row] (\<lambda>row (blockWise, bp, rp). do {
         blockWise \<leftarrow> for_list [0..<MAX_W_COL c] (\<lambda>i blockWise. do {
           v \<leftarrow> rd rowWise (rp + i);
           wr blockWise (bp + i) v
         }) blockWise;
         Some (blockWise, bp + MAX_W_COL c, rp + n_col)
       }) (blockWise, bp, col * MAX_W_COL c);
       Some (blockWise, bp)
     }) (blockWise0, 0);
     Some blockWise
   }"

subsection \<open>Filling an array\<close>

text \<open>The first \<open>n\<close> writes have been made: write \<open>p\<close> puts \<open>v p\<close> into cell \<open>f p\<close>.\<close>

definition filled :: "'x list \<Rightarrow> (nat \<Rightarrow> nat) \<Rightarrow> (nat \<Rightarrow> 'x) \<Rightarrow> nat \<Rightarrow> 'x list \<Rightarrow> bool" where
  "filled xs f v n ys \<longleftrightarrow> length ys = length xs \<and> (\<forall>p<n. ys ! f p = v p) \<and>
     (\<forall>q<length xs. q \<notin> f ` {..<n} \<longrightarrow> ys ! q = xs ! q)"

lemma filled_0 [simp]: "filled xs f v 0 xs"
  by (simp add: filled_def)

lemma filledD: "filled xs f v n ys \<Longrightarrow> p < n \<Longrightarrow> ys ! f p = v p"
  by (simp add: filled_def)

lemma filled_Suc:
  assumes "filled xs f v n ys" "f n < length xs" "inj_on f {..<Suc n}"
  shows "\<exists>zs. wr ys (f n) (v n) = Some zs \<and> filled xs f v (Suc n) zs"
proof -
  have "f n \<noteq> f p" if "p < n" for p
    using inj_onD [OF assms(3), of p n] that by auto
  with assms(1,2) show ?thesis
    by (fastforce simp: filled_def wr_def nth_list_update less_Suc_eq lessThan_Suc)
qed

lemma fill_loop:
  assumes "inj_on f {..<N}" "\<And>n. n < N \<Longrightarrow> f n < length xs"
  shows "\<exists>ys. for_list [0..<N] (\<lambda>n ys. wr ys (f n) (v n)) xs = Some ys \<and> filled xs f v N ys"
proof (rule for_up_rule [where I = "filled xs f v"])
  fix n ys assume "n < N" "filled xs f v n ys"
  then show "\<exists>zs. wr ys (f n) (v n) = Some zs \<and> filled xs f v (Suc n) zs"
    using assms inj_on_subset [OF assms(1), of "{..<Suc n}"] by (intro filled_Suc) auto
qed simp_all

lemma div_mod_eqI: "p div n = q div n \<Longrightarrow> p mod n = q mod n \<Longrightarrow> p = (q::nat)"
  by (metis div_mult_mod_eq)

text \<open>A pointer that advances by the same step in every iteration.\<close>

lemma for_list_ptr:
  "for_list [0..<n] (\<lambda>i (s, p). do { s \<leftarrow> F i p s; Some (s, adv p) }) (s0, p0) =
     do { s \<leftarrow> for_list [0..<n] (\<lambda>i. F i ((adv ^^ i) p0)) s0; Some (s, (adv ^^ n) p0) }"
proof (induction n)
  case (Suc n)
  then show ?case
    by (cases "for_list [0..<n] (\<lambda>i. F i ((adv ^^ i) p0)) s0") (simp_all add: for_list_append)
qed simp

lemma funpow_add: "((\<lambda>p. p + d) ^^ i) p = p + i * (d::nat)"
  by (induction i) simp_all

lemma funpow_add2: "((\<lambda>x. (fst x + d, snd x + e)) ^^ i) x = (fst x + i * (d::nat), snd x + i * (e::nat))"
  by (induction i) simp_all

lemma strip_ptr:
  "for_list [0..<n] (\<lambda>row (xs, bp, rp). do { xs \<leftarrow> G bp rp xs; Some (xs, bp + d, rp + e) }) (xs, b, r) =
     do { xs \<leftarrow> for_list [0..<n] (\<lambda>row. G (b + row * d) (r + row * e)) xs; Some (xs, b + n * d, r + n * e) }"
  using for_list_ptr [of n "\<lambda>row x. G (fst x) (snd x)" "\<lambda>x. (fst x + d, snd x + e)" xs "(b, r)"]
  by (simp add: funpow_add2 case_prod_beta')

subsection \<open>Transposition of row-major tensors\<close>

definition row_act_at :: "('a::len, 'w::len) sa_cfg \<Rightarrow> nat \<Rightarrow> 32 word list \<Rightarrow> nat \<Rightarrow> nat \<Rightarrow> 'a word" where
  "row_act_at c width xs r k = bus_lane (xs ! (r * (width div ACT_PER_BUS c) + k div ACT_PER_BUS c)) (k mod ACT_PER_BUS c)"

lemma gather_fold:
  fixes c :: "('a::len, 'w::len) sa_cfg"
  assumes "\<And>s. s < ACT_PER_BUS c \<Longrightarrow> get s = Some (g s)"
  shows "for_list [0..<ACT_PER_BUS c] (\<lambda>s result. do {
       w \<leftarrow> get s;
       Some (result OR push_bit ((ACT_PER_BUS c - 1 - s) * LENGTH('a))
         (drop_bit ((ACT_PER_BUS c - 1 - k) * LENGTH('a)) w AND mask LENGTH('a)))
     }) 0 = Some (bus_pack (\<lambda>s. bus_lane (g s) k :: 'a word))"
proof -
  have "ucast (bus_lane w k :: 'a word) = drop_bit ((ACT_PER_BUS c - 1 - k) * LENGTH('a)) w AND mask LENGTH('a)"
    for w :: "32 word"
    by (rule bit_word_eqI)
      (auto simp: bit_ucast_iff bit_bus_lane bit_and_iff bit_mask_iff bit_drop_bit_eq ACT_PER_BUS_def ac_simps
        dest: bit_imp_le_length)
  then show ?thesis
    using assms unfolding bus_pack_def ACT_PER_BUS_def
    by (subst for_list_fold [where g = "\<lambda>s result. result OR
          push_bit (LENGTH('a) * (per_bus TYPE('a) - s - 1)) (ucast (bus_lane (g s) k :: 'a word))"])
      (auto simp: mult.commute diff_right_commute)
qed

lemma fill_map:
  assumes "length xs = n"
  shows "for_list [0..<n] (\<lambda>k ys. wr ys k (v k)) xs = Some (map v [0..<n])"
proof -
  obtain ys where "for_list [0..<n] (\<lambda>k ys. wr ys k (v k)) xs = Some ys" "filled xs (\<lambda>k. k) v n ys"
    using fill_loop [of "\<lambda>k. k" n xs v] assms by auto
  moreover from this have "ys = map v [0..<n]"
    using assms by (intro nth_equalityI) (auto simp: filled_def)
  ultimately show ?thesis by simp
qed

lemma transpose_words_run:
  fixes c :: "('a::len, 'w::len) sa_cfg"
  defines "A \<equiv> ACT_PER_BUS c"
  assumes A: "0 < A" and dims: "width = Wt * A" "height = H * A"
    and inp: "height * Wt \<le> length input" and out: "width * H \<le> length output"
  shows "\<exists>ys. transpose_words c input width height output = Some ys \<and>
    filled output (\<lambda>p. mem2d H (mem2d A (p div A mod Wt) (p mod A)) (p div A div Wt))
      (\<lambda>p. bus_pack (\<lambda>s. bus_lane (input ! (mem2d A (p div A div Wt) s * Wt + p div A mod Wt)) (p mod A) :: 'a word))
      (H * Wt * A) ys"
proof -
  let ?V = "\<lambda>i j k. bus_pack (\<lambda>s. bus_lane (input ! (mem2d A i s * Wt + j)) k :: 'a word)"
  let ?F = "\<lambda>i j k. mem2d H (mem2d A j k) i"
  have tiles: "height div A = H" "width div A = Wt" using A dims by simp_all
  have at: "mem2d A i s * Wt + j < length input" if "i < H" "j < Wt" "s < A" for i j s
    using mem2d_less [OF mem2d_less [OF that(1,3)] that(2)] inp dims by (simp add: mem2d_def)
  have "transpose_words c input width height output =
      for_list [0..<H] (\<lambda>i. for_list [0..<Wt] (\<lambda>j. for_list [0..<A] (\<lambda>k output. wr output (?F i j k) (?V i j k)))) output"
    unfolding transpose_words_def Let_def A_def [symmetric] tiles
  proof (intro for_list_cong)
    fix i j and out :: "32 word list" assume "i \<in> set [0..<H]" "j \<in> set [0..<Wt]"
    then have ij: "i < H" "j < Wt" by auto
    let ?swap = "map (\<lambda>k. input ! (mem2d A i k * Wt + j)) [0..<A]"
    have "for_list [0..<A] (\<lambda>k swap. do { w \<leftarrow> rd input ((i * A + k) * Wt + j); wr swap k w }) (replicate A 0) =
        for_list [0..<A] (\<lambda>k swap. wr swap k (input ! (mem2d A i k * Wt + j))) (replicate A 0)"
      using at [OF ij] by (intro for_list_cong) (simp add: mem2d_def arr_simps)
    moreover have "gather_lanes c ?swap k = Some (?V i j k)" for k
    proof -
      have "gather_lanes c ?swap k = Some (bus_pack (\<lambda>s. bus_lane (?swap ! s) k :: 'a word))"
        unfolding gather_lanes_def by (rule gather_fold) (simp add: A_def arr_simps)
      also have "bus_pack (\<lambda>s. bus_lane (?swap ! s) k :: 'a word) = ?V i j k"
        by (rule bus_pack_cong) (simp add: A_def ACT_PER_BUS_def)
      finally show ?thesis .
    qed
    ultimately show "do {
        swap \<leftarrow> for_list [0..<A] (\<lambda>k swap. do { w \<leftarrow> rd input ((i * A + k) * Wt + j); wr swap k w }) (replicate A 0);
        for_list [0..<A] (\<lambda>k output. do {
          result \<leftarrow> gather_lanes c swap k; wr output ((j * A + k) * H + i) result }) out } =
      for_list [0..<A] (\<lambda>k output. wr output (?F i j k) (?V i j k)) out"
      by (simp add: fill_map mem2d_def)
  qed
  also have "\<dots> = for_list [0..<H * Wt * A]
      (\<lambda>p output. wr output (?F (p div A div Wt) (p div A mod Wt) (p mod A)) (?V (p div A div Wt) (p div A mod Wt) (p mod A))) output"
    by (simp add: for_list_nest)
  finally have loop: "transpose_words c input width height output = \<dots>" .
  have idx: "p div A div Wt < H \<and> p div A mod Wt < Wt \<and> p mod A < A" if "p < H * Wt * A" for p
  proof -
    have "p div A < H * Wt" using that by (simp add: less_mult_imp_div_less)
    moreover from this have "0 < Wt" by (cases Wt) auto
    ultimately show ?thesis using A by (simp add: less_mult_imp_div_less)
  qed
  show ?thesis unfolding loop
  proof (rule fill_loop)
    show "inj_on (\<lambda>p. ?F (p div A div Wt) (p div A mod Wt) (p mod A)) {..<H * Wt * A}"
    proof (rule inj_onI)
      fix p q assume "p \<in> {..<H * Wt * A}" "q \<in> {..<H * Wt * A}"
        "?F (p div A div Wt) (p div A mod Wt) (p mod A) = ?F (q div A div Wt) (q div A mod Wt) (q mod A)"
      with idx [of p] idx [of q] have "p div A = q div A" "p mod A = q mod A"
        by (auto intro: div_mod_eqI)
      then show "p = q" by (rule div_mod_eqI)
    qed
    fix p assume "p < H * Wt * A"
    from idx [OF this] have "?F (p div A div Wt) (p div A mod Wt) (p mod A) < Wt * A * H"
      by (intro mem2d_less) simp_all
    then show "?F (p div A div Wt) (p div A mod Wt) (p mod A) < length output" using out dims by simp
  qed
qed

lemma transpose_words_spec:
  fixes c :: "('a::len, 'w::len) sa_cfg"
  assumes A: "0 < ACT_PER_BUS c" and dims: "width = Wt * ACT_PER_BUS c" "height = H * ACT_PER_BUS c"
    and inp: "height * Wt \<le> length input" and out: "width * H \<le> length output"
  shows "\<exists>ys. transpose_words c input width height output = Some ys \<and> length ys = length output \<and>
    (\<forall>r<width. \<forall>k<height. row_act_at c height ys r k = row_act_at c width input k r) \<and>
    (\<forall>q<length output. width * H \<le> q \<longrightarrow> ys ! q = output ! q)"
proof -
  let ?A = "ACT_PER_BUS c"
  let ?F = "\<lambda>p. mem2d H (mem2d ?A (p div ?A mod Wt) (p mod ?A)) (p div ?A div Wt)"
  obtain ys where run: "transpose_words c input width height output = Some ys"
    and fill: "filled output ?F (\<lambda>p. bus_pack (\<lambda>s. bus_lane (input ! (mem2d ?A (p div ?A div Wt) s * Wt + p div ?A mod Wt))
        (p mod ?A) :: 'a word)) (H * Wt * ?A) ys"
    using transpose_words_run [OF assms] by blast
  have "row_act_at c height ys r k = row_act_at c width input k r" if "r < width" "k < height" for r k
  proof -
    have r: "r div ?A < Wt" "r mod ?A < ?A" and k: "k div ?A < H" "k mod ?A < ?A"
      using that dims A by (simp_all add: less_mult_imp_div_less)
    let ?p = "mem2d ?A (mem2d Wt (k div ?A) (r div ?A)) (r mod ?A)"
    have "?p < H * Wt * ?A" using r k by (intro mem2d_less) simp_all
    from filledD [OF fill this] have "ys ! ?F ?p = bus_pack (\<lambda>s. bus_lane (input ! (mem2d ?A (k div ?A) s * Wt + r div ?A)) (r mod ?A) :: 'a word)"
      using r by simp
    moreover have "?F ?p = r * H + k div ?A" using r by (simp add: mem2d_def)
    ultimately show ?thesis
      using A k(2) dims by (simp add: row_act_at_def bus_lane_pack ACT_PER_BUS_def mem2d_def)
  qed
  moreover have "ys ! q = output ! q" if "q < length output" "width * H \<le> q" for q
  proof -
    have "?F p < width * H" if "p < H * Wt * ?A" for p
    proof -
      have "p div ?A < H * Wt" using that by (simp add: less_mult_imp_div_less)
      moreover from this have "0 < Wt" by (cases Wt) auto
      ultimately show ?thesis
        using A dims by (auto intro!: mem2d_less simp: less_mult_imp_div_less)
    qed
    then have "q \<notin> ?F ` {..<H * Wt * ?A}" using that(2) by (auto simp: not_less [symmetric])
    with that(1) fill show ?thesis by (simp add: filled_def)
  qed
  ultimately show ?thesis using run fill by (auto simp: filled_def)
qed

text \<open>Row-major tensors with the same activations are the same words.\<close>

lemma row_act_eqI:
  fixes c :: "('a::len, 'w::len) sa_cfg"
  assumes "cfg_ok c" "width = Wt * ACT_PER_BUS c" "length xs = height * Wt" "length ys = height * Wt"
    and eq: "\<And>r k. r < height \<Longrightarrow> k < width \<Longrightarrow> row_act_at c width xs r k = row_act_at c width ys r k"
  shows "xs = ys"
proof (rule list_eq_mem2dI [OF assms(3,4)])
  fix r w assume r: "r < height" and w: "w < Wt"
  have A: "0 < ACT_PER_BUS c" "LENGTH('a) * per_bus TYPE('a) = 32"
    using cfg_okD(2,4) [OF assms(1)] by (simp_all add: ACT_PER_BUS_def)
  show "xs ! mem2d Wt r w = ys ! mem2d Wt r w"
  proof (rule bus_word_eqI [OF A(2)])
    fix i assume "i < per_bus TYPE('a)"
    then have i: "i < ACT_PER_BUS c" by (simp add: ACT_PER_BUS_def)
    with w have "mem2d (ACT_PER_BUS c) w i < width" unfolding assms(2) by (intro mem2d_less)
    from eq [OF r this] i A(1)
    show "(bus_lane (xs ! mem2d Wt r w) i :: 'a word) = bus_lane (ys ! mem2d Wt r w) i"
      by (simp add: row_act_at_def assms(2)) (simp add: mem2d_def)
  qed
qed

subsection \<open>Transposition of blocked tensors\<close>

lemma transpose_rearranged_run:
  fixes c :: "('a::len, 'w::len) sa_cfg"
  defines "A \<equiv> ACT_PER_BUS c" and "M \<equiv> MAX_ACT_COL c" and "K \<equiv> kernel_dim c"
  defines "V \<equiv> \<lambda>R i j m b k input. bus_pack (\<lambda>s. bus_lane (input ! ((j * R + i) * (K * M) + (A * k + s) * M + m)) b :: 'a word)"
  assumes ok: "cfg_ok c" and dims: "width = C * K" "height = R * K"
    and inp: "C * M * height \<le> length input" and out: "R * M * width \<le> length output"
  shows "\<exists>ys. transpose_rearranged c input width height output = Some ys \<and>
    filled output (\<lambda>p. p) (\<lambda>p. V R (p div M div A div M div C) (p div M div A div M mod C) (p div M div A mod M)
      (p div M mod A) (p mod M) input) (R * C * M * A * M) ys"
proof -
  have A: "0 < A" "0 < M" "0 < K" and MA: "M * A = K" using ok by (simp_all add: A_def M_def K_def cfg_okD)
  have tiles: "height div K = R" "width div K = C" using A dims by simp_all
  have at: "(j * R + i) * (K * M) + (A * k + s) * M + m < length input"
    if "i < R" "j < C" "m < M" "k < M" "s < A" for i j m k s
  proof -
    have "mem2d M (mem2d (M * A) (mem2d R j i) (mem2d A k s)) m < C * R * (M * A) * M"
      using that by (intro mem2d_less)
    also have "C * R * (M * A) * M \<le> length input" using inp dims MA by (simp add: algebra_simps)
    finally show ?thesis by (simp add: mem2d_def algebra_simps flip: MA)
  qed
  have "transpose_rearranged c input width height output =
      for_list [0..<R] (\<lambda>i. for_list [0..<C] (\<lambda>j. for_list [0..<M] (\<lambda>m. for_list [0..<A] (\<lambda>b. for_list [0..<M] (\<lambda>k output.
        wr output ((i * C + j) * (K * M) + m * A * M + b * M + k) (V R i j m b k input)))))) output"
    unfolding transpose_rearranged_def Let_def A_def [symmetric] M_def [symmetric] K_def [symmetric] tiles
  proof (intro for_list_cong)
    fix i j m b k and out :: "32 word list"
    assume "i \<in> set [0..<R]" "j \<in> set [0..<C]" "m \<in> set [0..<M]" "b \<in> set [0..<A]" "k \<in> set [0..<M]"
    then have get: "rd input ((j * R + i) * (K * M) + (A * k + s) * M + m) =
        Some (input ! ((j * R + i) * (K * M) + (A * k + s) * M + m))" if "s < ACT_PER_BUS c" for s
      using at that by (simp add: arr_simps A_def)
    show "do {
        result \<leftarrow> for_list [0..<A] (\<lambda>s result. do {
          w \<leftarrow> rd input ((j * R + i) * (K * M) + (A * k + s) * M + m);
          Some (result OR push_bit ((A - 1 - s) * LENGTH('a)) (drop_bit ((A - 1 - b) * LENGTH('a)) w AND mask LENGTH('a)))
        }) 0;
        wr out ((i * C + j) * (K * M) + m * A * M + b * M + k) result } =
      wr out ((i * C + j) * (K * M) + m * A * M + b * M + k) (V R i j m b k input)"
      using gather_fold [of c "\<lambda>s. rd input ((j * R + i) * (K * M) + (A * k + s) * M + m)", OF get, where k = b]
      by (simp add: A_def V_def)
  qed
  also have "\<dots> = for_list [0..<R * C * M * A * M] (\<lambda>p output.
      wr output ((p div M div A div M div C * C + p div M div A div M mod C) * (K * M) + p div M div A mod M * A * M +
        p div M mod A * M + p mod M)
       (V R (p div M div A div M div C) (p div M div A div M mod C) (p div M div A mod M) (p div M mod A) (p mod M) input)) output"
    by (simp add: for_list_nest)
  also have "\<dots> = for_list [0..<R * C * M * A * M] (\<lambda>p output. wr output p
       (V R (p div M div A div M div C) (p div M div A div M mod C) (p div M div A mod M) (p div M mod A) (p mod M) input)) output"
  proof -
    have "(q * (K * M) + p div M div A mod M * A * M + p div M mod A * M + p mod M) = p" if "q = p div M div A div M" for p q
    proof -
      have "q * (K * M) + p div M div A mod M * A * M = p div M div A * A * M"
        using div_mult_mod_eq [of "p div M div A" M] by (metis MA add_mult_distrib mult.assoc mult.commute that)
      then show ?thesis by (simp add: add_mult_distrib [symmetric])
    qed
    then show ?thesis by simp
  qed
  finally have loop: "transpose_rearranged c input width height output = \<dots>" .
  have N: "R * C * M * A * M = R * M * width" by (simp add: dims(1) mult.assoc mult.left_commute flip: MA)
  have "R * C * M * A * M \<le> length output" unfolding N by (rule out)
  then show ?thesis unfolding loop by (intro fill_loop) (auto intro: less_le_trans)
qed

lemma transpose_rearranged_spec:
  fixes c :: "('a::len, 'w::len) sa_cfg"
  assumes ok: "cfg_ok c" and dims: "width = C * kernel_dim c" "height = R * kernel_dim c"
    and "C * MAX_ACT_COL c * height \<le> length input" "R * MAX_ACT_COL c * width \<le> length output"
  shows "\<exists>ys. transpose_rearranged c input width height output = Some ys \<and> length ys = length output \<and>
    (\<forall>t<width. \<forall>k<height. act_at c width ys t k = act_at c height input k t)"
proof -
  let ?A = "ACT_PER_BUS c" and ?M = "MAX_ACT_COL c" and ?K = "kernel_dim c"
  have A: "0 < ?A" "0 < ?M" "0 < ?K" and MA: "?M * ?A = ?K" and AK: "?A dvd ?K"
    using ok by (simp_all add: cfg_okD cfg_ok_def)
  obtain ys where run: "transpose_rearranged c input width height output = Some ys"
    and fill: "filled output (\<lambda>p. p) (\<lambda>p. bus_pack (\<lambda>s. bus_lane (input !
        ((p div ?M div ?A div ?M mod C * R + p div ?M div ?A div ?M div C) * (?K * ?M) + (?A * (p mod ?M) + s) * ?M +
          p div ?M div ?A mod ?M)) (p div ?M mod ?A) :: 'a word)) (R * C * ?M * ?A * ?M) ys"
    using transpose_rearranged_run [OF assms] by blast
  have "act_at c width ys t k = act_at c height input k t" if t: "t < width" and k: "k < height" for t k
  proof -
    let ?i = "k div ?K" and ?j = "t div ?K" and ?m = "t mod ?K div ?A" and ?b = "t mod ?A"
      and ?k = "k mod ?K div ?A" and ?s = "k mod ?A"
    have lt: "?i < R" "?j < C" "?m < ?M" "?b < ?A" "?k < ?M" "?s < ?A"
      using t k dims A MA by (simp_all add: less_mult_imp_div_less)
    have modK: "x div ?K * ?K + (x mod ?K div ?A * ?A + x mod ?A) = x" for x
      using AK by (metis div_mult_mod_eq mod_mod_cancel)
    let ?p = "mem2d ?M (mem2d ?A (mem2d ?M (mem2d C ?i ?j) ?m) ?b) ?k"
    have p: "?p = k div ?K * ?M * width + t * ?M + ?k"
    proof -
      have "?p = ?i * C * (?M * ?A) * ?M + (?j * (?M * ?A) + (?m * ?A + ?b)) * ?M + ?k"
        by (simp add: mem2d_def algebra_simps)
      then show ?thesis by (simp add: MA modK dims(1))
    qed
    have q: "(?j * R + ?i) * (?K * ?M) + (?A * ?k + ?s) * ?M + ?m = t div ?K * ?M * height + k * ?M + ?m"
    proof -
      have "(?j * R + ?i) * (?K * ?M) + (?A * ?k + ?s) * ?M + ?m =
          ?j * ?M * (R * ?K) + (?i * ?K + (?k * ?A + ?s)) * ?M + ?m" by (simp add: algebra_simps)
      then show ?thesis by (simp add: modK dims(2))
    qed
    have "?p < R * C * ?M * ?A * ?M" using lt by (intro mem2d_less)
    from filledD [OF fill this] lt
    have "ys ! ?p = bus_pack (\<lambda>s. bus_lane (input ! ((?j * R + ?i) * (?K * ?M) + (?A * ?k + s) * ?M + ?m)) ?b :: 'a word)"
      by simp
    then have "(bus_lane (ys ! ?p) ?s :: 'a word) = bus_lane (input ! ((?j * R + ?i) * (?K * ?M) + (?A * ?k + ?s) * ?M + ?m)) ?b"
      using lt(6) by (simp add: bus_lane_pack ACT_PER_BUS_def)
    then show ?thesis unfolding p q by (simp add: act_at_def)
  qed
  then show ?thesis using run fill by (auto simp: filled_def)
qed

subsection \<open>Gathering the heads\<close>

lemma multihead_transpose_flat:
  "multihead_transpose input seq_len hs num_head output =
     for_list [0..<seq_len * num_head * hs] (\<lambda>p ys. do {
       v \<leftarrow> rd input (p div hs div num_head * hs + p div hs mod num_head * seq_len * hs + p mod hs);
       wr ys p v }) output"
proof -
  have inner: "for_list [0..<hs] (\<lambda>j (output, outPtr, inPtr). do {
         v \<leftarrow> rd input inPtr; output \<leftarrow> wr output outPtr v; Some (output, outPtr + 1, inPtr + 1) }) (out, p, q) =
      do { ys \<leftarrow> for_list [0..<hs] (\<lambda>j ys. do { v \<leftarrow> rd input (q + j); wr ys (p + j) v }) out; Some (ys, p + hs, q + hs) }"
    for out p q
    using strip_ptr [of hs "\<lambda>p q ys. do { v \<leftarrow> rd input q; wr ys p v }" 1 1 out p q] by simp
  let ?q = "\<lambda>m. m div num_head * hs + m mod num_head * seq_len * hs"
  have "multihead_transpose input seq_len hs num_head output = do {
      (output, _) \<leftarrow> for_list [0..<seq_len * num_head] (\<lambda>m (output, p). do {
        ys \<leftarrow> for_list [0..<hs] (\<lambda>j ys. do { v \<leftarrow> rd input (?q m + j); wr ys (p + j) v }) output; Some (ys, p + hs) }) (output, 0);
      Some output }"
    unfolding multihead_transpose_def Let_def for_list_nest inner by simp
  also have "\<dots> = for_list [0..<seq_len * num_head] (\<lambda>m. for_list [0..<hs] (\<lambda>j ys. do {
      v \<leftarrow> rd input (?q m + j); wr ys (m * hs + j) v })) output"
    by (subst for_list_ptr) (simp add: funpow_add)
  also have "\<dots> = for_list [0..<seq_len * num_head * hs] (\<lambda>p ys. do {
      v \<leftarrow> rd input (?q (p div hs) + p mod hs); wr ys (p div hs * hs + p mod hs) v }) output"
    by (rule for_list_nest)
  finally show ?thesis by simp
qed

lemma multihead_transpose_spec:
  assumes "num_head * seq_len * hs \<le> length input" "seq_len * num_head * hs \<le> length output"
  shows "\<exists>ys. multihead_transpose input seq_len hs num_head output = Some ys \<and> length ys = length output \<and>
    (\<forall>i n j. i < seq_len \<longrightarrow> n < num_head \<longrightarrow> j < hs \<longrightarrow>
       ys ! mem2d hs (mem2d num_head i n) j = input ! mem2d hs (mem2d seq_len n i) j) \<and>
    (\<forall>q<length output. seq_len * num_head * hs \<le> q \<longrightarrow> ys ! q = output ! q)"
proof -
  let ?N = "seq_len * num_head * hs"
  let ?g = "\<lambda>p. p div hs div num_head * hs + p div hs mod num_head * seq_len * hs + p mod hs"
  have g: "?g (mem2d hs (mem2d num_head i n) j) = mem2d hs (mem2d seq_len n i) j" if "n < num_head" "j < hs" for i n j
    using that by simp (simp add: mem2d_def algebra_simps)
  have "?g p < length input" if p: "p < ?N" for p
  proof -
    obtain m j where m: "m < seq_len * num_head" "j < hs" "p = mem2d hs m j" by (rule mem2d_exhaust [OF p])
    obtain i n where i: "i < seq_len" "n < num_head" "m = mem2d num_head i n" by (rule mem2d_exhaust [OF m(1)])
    have "mem2d hs (mem2d seq_len n i) j < num_head * seq_len * hs" using m i by (intro mem2d_less)
    with g [OF i(2) m(2)] m(3) i(3) assms(1) show ?thesis by simp
  qed
  then have "multihead_transpose input seq_len hs num_head output =
      for_list [0..<?N] (\<lambda>p ys. wr ys p (input ! ?g p)) output"
    unfolding multihead_transpose_flat by (intro for_list_cong) (simp add: arr_simps)
  then obtain ys where run: "multihead_transpose input seq_len hs num_head output = Some ys"
    and fill: "filled output (\<lambda>p. p) (\<lambda>p. input ! ?g p) ?N ys"
    using fill_loop [of "\<lambda>p. p" ?N "output" "\<lambda>p. input ! ?g p"] assms(2) by auto
  have "ys ! mem2d hs (mem2d num_head i n) j = input ! mem2d hs (mem2d seq_len n i) j"
    if "i < seq_len" "n < num_head" "j < hs" for i n j
    using filledD [OF fill mem2d_less [OF mem2d_less [OF that(1,2)] that(3)]] g [OF that(2,3), of i] by simp
  with run fill show ?thesis by (auto simp: filled_def)
qed

subsection \<open>Row-wise and block-wise kernels\<close>

text \<open>Both conversions move word \<open>i\<close> of row \<open>row\<close> of block column \<open>col\<close> between these two places.\<close>

lemma blocks_flat:
  fixes W n_row n_col :: nat and G :: "nat \<Rightarrow> nat \<Rightarrow> nat \<Rightarrow> 'x list \<Rightarrow> 'x list option"
  shows "do { (xs, _) \<leftarrow> for_list [0..<C] (\<lambda>col (xs, bp). do {
        (xs, bp, rp) \<leftarrow> for_list [0..<n_row] (\<lambda>row (xs, bp, rp). do {
          xs \<leftarrow> for_list [0..<W] (G bp rp) xs; Some (xs, bp + W, rp + n_col) }) (xs, bp, col * W);
        Some (xs, bp) }) (xs, 0);
      Some xs } =
    for_list [0..<C * n_row * W] (\<lambda>p. G (p div W * W) (p div W div n_row * W + p div W mod n_row * n_col) (p mod W)) xs"
proof -
  have "do { (xs, _) \<leftarrow> for_list [0..<C] (\<lambda>col (xs, bp). do {
        (xs, bp, rp) \<leftarrow> for_list [0..<n_row] (\<lambda>row (xs, bp, rp). do {
          xs \<leftarrow> for_list [0..<W] (G bp rp) xs; Some (xs, bp + W, rp + n_col) }) (xs, bp, col * W);
        Some (xs, bp) }) (xs, 0);
      Some xs } =
    do { (xs, _) \<leftarrow> for_list [0..<C] (\<lambda>col (xs, bp). do {
        xs \<leftarrow> for_list [0..<n_row] (\<lambda>row. for_list [0..<W] (G (bp + row * W) (col * W + row * n_col))) xs;
        Some (xs, bp + n_row * W) }) (xs, 0);
      Some xs }"
    by (simp add: strip_ptr)
  also have "\<dots> = for_list [0..<C] (\<lambda>col. for_list [0..<n_row] (\<lambda>row.
      for_list [0..<W] (G ((col * n_row + row) * W) (col * W + row * n_col)))) xs"
    by (subst for_list_ptr) (simp add: funpow_add algebra_simps)
  also have "\<dots> = for_list [0..<C * n_row * W] (\<lambda>p. G ((p div W div n_row * n_row + p div W mod n_row) * W)
      (p div W div n_row * W + p div W mod n_row * n_col) (p mod W)) xs"
    by (simp only: for_list_nest)
  finally show ?thesis by simp
qed

lemma block_places:
  fixes W n_row n_col p :: nat
  assumes "W dvd n_col" "p < n_col div W * n_row * W"
  shows "p div W div n_row * W + p div W mod n_row * n_col + p mod W < n_row * n_col"
proof -
  have W: "0 < W" using assms(2) by (cases W) auto
  have "p div W < n_col div W * n_row" using assms(2) by (simp add: less_mult_imp_div_less)
  moreover from this have "0 < n_row" by (cases n_row) auto
  ultimately have lt: "p div W div n_row < n_col div W" "p div W mod n_row < n_row" "p mod W < W"
    using W by (simp_all add: less_mult_imp_div_less)
  have "mem2d W (p div W div n_row) (p mod W) < n_col div W * W" using lt by (intro mem2d_less)
  then have "mem2d n_col (p div W mod n_row) (mem2d W (p div W div n_row) (p mod W)) < n_row * n_col"
    using lt(2) assms(1) by (intro mem2d_less) simp_all
  then show ?thesis by (simp add: mem2d_def algebra_simps)
qed

text \<open>The place in the row-wise kernel of word \<open>p\<close> of the block-wise kernel.\<close>

definition row_place :: "('a::len, 'w::len) sa_cfg \<Rightarrow> nat \<Rightarrow> nat \<Rightarrow> nat \<Rightarrow> nat" where
  "row_place c n_row n_col p = (let W = MAX_W_COL c in
     p div W div n_row * W + p div W mod n_row * n_col + p mod W)"

lemma row_place_inj:
  assumes "MAX_W_COL c dvd n_col"
  shows "inj_on (row_place c n_row n_col) {..<n_row * n_col}"
proof (rule inj_onI)
  let ?W = "MAX_W_COL c"
  fix p q assume "p \<in> {..<n_row * n_col}" "q \<in> {..<n_row * n_col}"
    and eq: "row_place c n_row n_col p = row_place c n_row n_col q"
  then have pq: "p < n_col div ?W * n_row * ?W" "q < n_col div ?W * n_row * ?W"
    using assms by (simp_all add: algebra_simps)
  then have W: "0 < ?W" and n: "0 < n_row" by (cases ?W; cases n_row; simp)+
  have split: "row_place c n_row n_col p = mem2d n_col (p div ?W mod n_row) (mem2d ?W (p div ?W div n_row) (p mod ?W))"
    "mem2d ?W (p div ?W div n_row) (p mod ?W) < n_col" if "p < n_col div ?W * n_row * ?W" for p
  proof -
    show "row_place c n_row n_col p = mem2d n_col (p div ?W mod n_row) (mem2d ?W (p div ?W div n_row) (p mod ?W))"
      by (simp add: row_place_def Let_def mem2d_def)
    have "p div ?W div n_row < n_col div ?W" using that by (simp add: less_mult_imp_div_less)
    then have "mem2d ?W (p div ?W div n_row) (p mod ?W) < n_col div ?W * ?W" using W by (intro mem2d_less) simp_all
    then show "mem2d ?W (p div ?W div n_row) (p mod ?W) < n_col" using assms by simp
  qed
  have "p div ?W mod n_row = q div ?W mod n_row" "p div ?W div n_row = q div ?W div n_row" "p mod ?W = q mod ?W"
    using eq split [OF pq(1)] split [OF pq(2)] W by simp_all
  then show "p = q" by (blast intro: div_mod_eqI)
qed

lemma blockWise2RowWise_spec:
  assumes "MAX_W_COL c dvd n_col" "n_row * n_col \<le> length blockWise" "n_row * n_col \<le> length rowWise"
  shows "\<exists>ys. blockWise2RowWise c blockWise n_row n_col rowWise = Some ys \<and>
    filled rowWise (row_place c n_row n_col) ((!) blockWise) (n_row * n_col) ys"
proof -
  let ?W = "MAX_W_COL c"
  have N: "n_col div ?W * n_row * ?W = n_row * n_col" using assms(1) by (simp add: algebra_simps)
  have "blockWise2RowWise c blockWise n_row n_col rowWise =
      for_list [0..<n_row * n_col] (\<lambda>p ys. wr ys (row_place c n_row n_col p) (blockWise ! p)) rowWise"
    unfolding blockWise2RowWise_def blocks_flat N
    using assms(2) by (intro for_list_cong) (simp add: arr_simps row_place_def Let_def)
  moreover have "row_place c n_row n_col p < length rowWise" if "p < n_row * n_col" for p
    using block_places [OF assms(1), of p n_row] that assms(3) unfolding N by (simp add: row_place_def Let_def)
  ultimately show ?thesis
    using fill_loop [OF row_place_inj [OF assms(1), of n_row], of rowWise "(!) blockWise"] by simp
qed

lemma rowWise2BlockWise_spec:
  assumes "MAX_W_COL c dvd n_col" "n_row * n_col \<le> length blockWise" "n_row * n_col \<le> length rowWise"
  shows "\<exists>ys. rowWise2BlockWise c rowWise n_row n_col blockWise = Some ys \<and>
    filled blockWise (\<lambda>p. p) (\<lambda>p. rowWise ! row_place c n_row n_col p) (n_row * n_col) ys"
proof -
  let ?W = "MAX_W_COL c"
  have N: "n_col div ?W * n_row * ?W = n_row * n_col" using assms(1) by (simp add: algebra_simps)
  have "row_place c n_row n_col p < length rowWise" if "p < n_row * n_col" for p
    using block_places [OF assms(1), of p n_row] that assms(3) unfolding N by (simp add: row_place_def Let_def)
  then have "rowWise2BlockWise c rowWise n_row n_col blockWise =
      for_list [0..<n_row * n_col] (\<lambda>p ys. wr ys p (rowWise ! row_place c n_row n_col p)) blockWise"
    unfolding rowWise2BlockWise_def blocks_flat N
    by (intro for_list_cong) (simp add: arr_simps row_place_def Let_def)
  then show ?thesis
    using fill_loop [of "\<lambda>p. p" "n_row * n_col" blockWise "\<lambda>p. rowWise ! row_place c n_row n_col p"] assms(2) by simp
qed

subsection \<open>Properties\<close>

text \<open>C24: Transposing a packed row-major tensor exchanges rows and columns of its activations, and transposing it twice
  gives the tensor back, word for word.\<close>

theorem transpose_twice:
  fixes c :: "('a::len, 'w::len) sa_cfg"
  assumes "cfg_ok c" "width = Wt * ACT_PER_BUS c" "height = H * ACT_PER_BUS c"
    and "length input = height * Wt" "length out1 = width * H" "length out2 = height * Wt"
  shows "\<exists>ys. transpose_words c input width height out1 = Some ys \<and>
    (\<forall>r<width. \<forall>k<height. row_act_at c height ys r k = row_act_at c width input k r) \<and>
    transpose_words c ys height width out2 = Some input"
proof -
  have A: "0 < ACT_PER_BUS c" using assms(1) by (simp add: cfg_okD)
  obtain ys where ys: "transpose_words c input width height out1 = Some ys" "length ys = width * H"
    "\<forall>r<width. \<forall>k<height. row_act_at c height ys r k = row_act_at c width input k r"
    using transpose_words_spec [OF A assms(2,3), of input out1] assms(4,5) by auto
  obtain zs where zs: "transpose_words c ys height width out2 = Some zs" "length zs = height * Wt"
    "\<forall>r<height. \<forall>k<width. row_act_at c width zs r k = row_act_at c height ys k r"
    using transpose_words_spec [OF A assms(3,2), of ys out2] assms(6) ys(2) by auto
  have "zs = input"
    using ys(3) zs(3) by (intro row_act_eqI [OF assms(1,2) zs(2) assms(4)]) simp
  with ys zs show ?thesis by blast
qed

theorem transpose_twice_witness:
  "\<exists>ys. transpose_words demo_cfg [1, 2, 3, 4] 4 2 [0, 0, 0, 0] = Some ys \<and>
     (\<forall>r<4. \<forall>k<2. row_act_at demo_cfg 2 ys r k = row_act_at demo_cfg 4 [1, 2, 3, 4] k r) \<and>
     transpose_words demo_cfg ys 2 4 [0, 0, 0, 0] = Some [1, 2, 3, 4]"
  by (rule transpose_twice [where Wt = 2 and H = 1]) (use demo_supported in \<open>simp_all add: gem5_supported_def\<close>)

text \<open>C25: Converting a kernel to blocks and back, or to rows and back, gives it back word for word.\<close>

theorem block_row_roundtrip:
  assumes "MAX_W_COL c dvd n_col" "length xs = n_row * n_col" "length b = n_row * n_col" "length r = n_row * n_col"
  shows "(do { ys \<leftarrow> rowWise2BlockWise c xs n_row n_col b; blockWise2RowWise c ys n_row n_col r }) = Some xs \<and>
    (do { ys \<leftarrow> blockWise2RowWise c xs n_row n_col r; rowWise2BlockWise c ys n_row n_col b }) = Some xs"
proof
  let ?f = "row_place c n_row n_col"
  have bij: "bij_betw ?f {..<n_row * n_col} {..<n_row * n_col}"
  proof (rule bij_betw_imageI [OF row_place_inj [OF assms(1)]])
    have "?f p < n_row * n_col" if "p < n_row * n_col" for p
      using block_places [OF assms(1), of p n_row] that assms(1) by (simp add: row_place_def Let_def algebra_simps)
    then show "?f ` {..<n_row * n_col} = {..<n_row * n_col}"
      by (intro endo_inj_surj [OF _ _ row_place_inj [OF assms(1)]]) auto
  qed
  obtain ys where ys: "rowWise2BlockWise c xs n_row n_col b = Some ys" "filled b (\<lambda>p. p) (\<lambda>p. xs ! ?f p) (n_row * n_col) ys"
    using rowWise2BlockWise_spec [OF assms(1), of n_row b xs] assms(2-4) by auto
  then obtain zs where zs: "blockWise2RowWise c ys n_row n_col r = Some zs" "filled r ?f ((!) ys) (n_row * n_col) zs"
    using blockWise2RowWise_spec [OF assms(1), of n_row ys r] assms(2-4) by (auto simp: filled_def)
  have "zs = xs"
  proof (rule nth_equalityI)
    show "length zs = length xs" using zs(2) assms by (simp add: filled_def)
    fix q assume "q < length zs"
    then obtain p where "p < n_row * n_col" "q = ?f p"
      using zs(2) assms bij_betw_imp_surj_on [OF bij] by (auto simp: filled_def image_iff)
    then show "zs ! q = xs ! q" using filledD [OF zs(2)] filledD [OF ys(2)] by simp
  qed
  with ys zs show "(do { ys \<leftarrow> rowWise2BlockWise c xs n_row n_col b; blockWise2RowWise c ys n_row n_col r }) = Some xs" by simp
  obtain us where us: "blockWise2RowWise c xs n_row n_col r = Some us" "filled r ?f ((!) xs) (n_row * n_col) us"
    using blockWise2RowWise_spec [OF assms(1), of n_row xs r] assms(2-4) by auto
  then obtain vs where vs: "rowWise2BlockWise c us n_row n_col b = Some vs" "filled b (\<lambda>p. p) (\<lambda>p. us ! ?f p) (n_row * n_col) vs"
    using rowWise2BlockWise_spec [OF assms(1), of n_row b us] assms(2-4) by (auto simp: filled_def)
  have "vs = xs"
    using filledD [OF us(2)] filledD [OF vs(2)] vs(2) assms by (intro nth_equalityI) (auto simp: filled_def)
  with us vs show "(do { ys \<leftarrow> blockWise2RowWise c xs n_row n_col r; rowWise2BlockWise c ys n_row n_col b }) = Some xs" by simp
qed

theorem block_row_roundtrip_witness:
  "(do { ys \<leftarrow> rowWise2BlockWise demo_cfg [1, 2, 3, 4] 2 2 [0, 0, 0, 0]; blockWise2RowWise demo_cfg ys 2 2 [0, 0, 0, 0] }) =
     Some [1, 2, 3, 4]"
  by (rule block_row_roundtrip [THEN conjunct1]) simp_all

end
