(* ===== verification/TiC_Rows.thy ===== *)
theory TiC_Rows
  imports TiC_Layout
begin

text \<open>
  Loops that treat the rows of a tensor one after the other, as the normalisation layers do, and the two partitions of
  a tensor into rows: the lines of a row-major tensor and the strided rows of a blocked one. \<open>same_tensor\<close> relates the
  two layouts of one matrix of activations; a layer that computes the same function of the values of a row in visiting
  order keeps it.
\<close>

subsection \<open>Partitions into rows\<close>

definition row_partition :: "nat \<Rightarrow> nat \<Rightarrow> (nat \<Rightarrow> nat list) \<Rightarrow> bool" where
  "row_partition N n R \<longleftrightarrow> (\<forall>i<n. distinct (R i) \<and> set (R i) \<subseteq> {..<N} \<and>
     (\<forall>k<n. \<forall>e \<in> set (R i). e \<in> set (R k) \<longrightarrow> k = i))"

lemma row_partitionD:
  assumes "row_partition N n R" "i < n"
  shows "distinct (R i)" "set (R i) \<subseteq> {..<N}" "k < n \<Longrightarrow> e \<in> set (R i) \<Longrightarrow> e \<in> set (R k) \<Longrightarrow> k = i"
  using assms unfolding row_partition_def by blast+

context element_view
begin

text \<open>
  Row \<open>i\<close> owns the elements \<open>R i\<close>. Its body runs while they still have their original values and replaces exactly them.
\<close>

lemma rows_loop:
  assumes part: "row_partition (length (view m)) n R"
    and body: "\<And>i m1. i < n \<Longrightarrow> length (view m1) = length (view m) \<Longrightarrow> (\<forall>x \<in> set (R i). view m1 ! x = view m ! x) \<Longrightarrow>
      \<exists>m2. body i m1 = Some m2 \<and> length (view m2) = length (view m) \<and>
        (\<forall>e<length (view m). view m2 ! e = (if e \<in> set (R i) then F i e else view m1 ! e))"
  shows "\<exists>m'. for_list [0..<n] body m = Some m' \<and> length (view m') = length (view m) \<and>
    (\<forall>i<n. \<forall>e \<in> set (R i). view m' ! e = F i e) \<and>
    (\<forall>e<length (view m). (\<forall>i<n. e \<notin> set (R i)) \<longrightarrow> view m' ! e = view m ! e)"
proof -
  let ?L = "length (view m)"
  let ?I = "\<lambda>k m'. length (view m') = ?L \<and> (\<forall>i<k. \<forall>e \<in> set (R i). view m' ! e = F i e) \<and>
    (\<forall>e<?L. (\<forall>i<k. e \<notin> set (R i)) \<longrightarrow> view m' ! e = view m ! e)"
  note rows = row_partitionD [OF part]
  have "\<exists>m'. for_list [0..<n] body m = Some m' \<and> ?I n m'"
  proof (rule for_up_rule [where I = ?I])
    fix k m1 assume k: "k < n" and I: "?I k m1"
    have "view m1 ! x = view m ! x" if x: "x \<in> set (R k)" for x
    proof -
      have "x \<notin> set (R i)" if "i < k" for i using rows(3) [OF k, of i x] x that k by auto
      with I rows(2) [OF k] x show ?thesis by blast
    qed
    then obtain m2 where m2: "body k m1 = Some m2" "length (view m2) = ?L"
      "\<forall>e<?L. view m2 ! e = (if e \<in> set (R k) then F k e else view m1 ! e)"
      using body [OF k] I by blast
    have "?I (Suc k) m2"
    proof (intro conjI allI impI ballI)
      fix i e assume i: "i < Suc k" and e: "e \<in> set (R i)"
      then have "i < n" using k by simp
      then have "e < ?L" using rows(2) e by blast
      then show "view m2 ! e = F i e" using m2(3) I i e rows(3) [OF \<open>i < n\<close> k e] by (cases "i = k") auto
    next
      fix e assume "e < ?L" "\<forall>i<Suc k. e \<notin> set (R i)"
      then show "view m2 ! e = view m ! e" using I m2(3) by auto
    qed (rule m2(2))
    with m2(1) show "\<exists>s'. body k m1 = Some s' \<and> ?I (Suc k) s'" by blast
  qed auto
  then show ?thesis .
qed

text \<open>
  Loops with checked arithmetic: the loop is undefined when one of its steps is, otherwise it replaces exactly the elements
  it visits. \<open>those\<close> collects the values of the steps.
\<close>

lemma read_loop:
  assumes "width_ok" "set es \<subseteq> {..<length (view m)}"
  shows "for_list es (\<lambda>e a. do { v \<leftarrow> get m e; g v a }) a = for_list (map ((!) (view m)) es) g a"
  unfolding for_list_map using assms(2) by (intro for_list_cong) (auto simp: get_view [OF assms(1)] arr_simps)

lemma update_loop_checked:
  assumes "width_ok" "distinct es" "set es \<subseteq> {..<length (view m)}"
  shows "case those (map (\<lambda>e. f e (view m ! e)) es) of
      None \<Rightarrow> for_list es (\<lambda>e m. do { v \<leftarrow> get m e; w \<leftarrow> f e v; put m e w }) m = None
    | Some ws \<Rightarrow> \<exists>m'. for_list es (\<lambda>e m. do { v \<leftarrow> get m e; w \<leftarrow> f e v; put m e w }) m = Some m' \<and>
        length (view m') = length (view m) \<and> map ((!) (view m')) es = ws \<and>
        (\<forall>e<length (view m). e \<notin> set es \<longrightarrow> view m' ! e = view m ! e)"
  using assms(2,3)
proof (induction es arbitrary: m)
  case Nil
  then show ?case by simp
next
  case (Cons e es)
  from Cons.prems have e: "e < length (view m)" and es: "e \<notin> set es" "distinct es" by auto
  show ?case
  proof (cases "f e (view m ! e)")
    case None
    then show ?thesis using e by (simp add: get_view [OF assms(1)] arr_simps)
  next
    case (Some w)
    obtain m1 where m1: "put m e w = Some m1" "view m1 = (view m)[e := w]" using put_view [OF assms(1) e] by blast
    have "set es \<subseteq> {..<length (view m1)}" using Cons.prems m1 by auto
    note IH = Cons.IH [OF es(2) this]
    have "map (\<lambda>e. f e (view m1 ! e)) es = map (\<lambda>e. f e (view m ! e)) es"
      using es(1) by (intro map_cong refl) (metis m1(2) nth_list_update_neq)
    note IH = IH [unfolded this]
    have "get m e = Some (view m ! e)" using e by (simp add: get_view [OF assms(1)] arr_simps)
    with IH m1 e es(1) Some show ?thesis
      by (cases "those (map (\<lambda>e. f e (view m ! e)) es)") (auto simp: nth_list_update)
  qed
qed

lemma pass_loop_checked:
  assumes "width_ok" "distinct es" "set es \<subseteq> {..<length (view m)}"
  shows "case do { ws \<leftarrow> those (map (\<lambda>e. f e (view m ! e)) es); b \<leftarrow> for_list ws g a; Some (ws, b) } of
      None \<Rightarrow> for_list es (\<lambda>e (m, a). do { v \<leftarrow> get m e; w \<leftarrow> f e v; m \<leftarrow> put m e w; a \<leftarrow> g w a; Some (m, a) }) (m, a) = None
    | Some (ws, b) \<Rightarrow> \<exists>m'. for_list es (\<lambda>e (m, a). do { v \<leftarrow> get m e; w \<leftarrow> f e v; m \<leftarrow> put m e w; a \<leftarrow> g w a; Some (m, a) }) (m, a) =
          Some (m', b) \<and> length (view m') = length (view m) \<and> map ((!) (view m')) es = ws \<and>
        (\<forall>e<length (view m). e \<notin> set es \<longrightarrow> view m' ! e = view m ! e)"
  using assms(2,3)
proof (induction es arbitrary: m a)
  case Nil
  then show ?case by simp
next
  case (Cons e es)
  from Cons.prems have e: "e < length (view m)" and es: "e \<notin> set es" "distinct es" by auto
  show ?case
  proof (cases "f e (view m ! e)")
    case None
    then show ?thesis using e by (simp add: get_view [OF assms(1)] arr_simps)
  next
    case (Some w)
    obtain m1 where m1: "put m e w = Some m1" "view m1 = (view m)[e := w]" using put_view [OF assms(1) e] by blast
    have "set es \<subseteq> {..<length (view m1)}" using Cons.prems m1 by auto
    note IH = Cons.IH [OF es(2) this]
    have "map (\<lambda>e. f e (view m1 ! e)) es = map (\<lambda>e. f e (view m ! e)) es"
      using es(1) by (intro map_cong refl) (metis m1(2) nth_list_update_neq)
    note IH = IH [unfolded this]
    have get: "get m e = Some (view m ! e)" using e by (simp add: get_view [OF assms(1)] arr_simps)
    show ?thesis
    proof (cases "g w a")
      case None
      then show ?thesis using get Some m1 by (cases "those (map (\<lambda>e. f e (view m ! e)) es)") simp_all
    next
      case (Some b)
      with IH [of b] m1 e es(1) get \<open>f e (view m ! e) = Some w\<close> show ?thesis
        by (cases "those (map (\<lambda>e. f e (view m ! e)) es)") (auto simp: nth_list_update split: Option.bind_splits)
    qed
  qed
qed

text \<open>A loop over rows each of which is replaced by a list of values, or is undefined.\<close>

lemma rows_checked:
  assumes part: "row_partition (length (view m)) n R"
    and body: "\<And>i m1. i < n \<Longrightarrow> length (view m1) = length (view m) \<Longrightarrow> (\<forall>x \<in> set (R i). view m1 ! x = view m ! x) \<Longrightarrow>
      case F i of None \<Rightarrow> body i m1 = None
      | Some ws \<Rightarrow> \<exists>m2. body i m1 = Some m2 \<and> length (view m2) = length (view m) \<and> map ((!) (view m2)) (R i) = ws \<and>
          (\<forall>e<length (view m). e \<notin> set (R i) \<longrightarrow> view m2 ! e = view m1 ! e)"
  shows "case for_list [0..<n] body m of None \<Rightarrow> \<exists>i<n. F i = None
    | Some m' \<Rightarrow> length (view m') = length (view m) \<and> (\<forall>i<n. F i = Some (map ((!) (view m')) (R i)))"
proof -
  let ?L = "length (view m)"
  have "case for_list [0..<k] body m of None \<Rightarrow> \<exists>i<k. F i = None
    | Some m' \<Rightarrow> length (view m') = ?L \<and> (\<forall>i<k. F i = Some (map ((!) (view m')) (R i))) \<and>
        (\<forall>e<?L. (\<forall>i<k. e \<notin> set (R i)) \<longrightarrow> view m' ! e = view m ! e)" if "k \<le> n" for k
    using that
  proof (induction k)
    case 0
    then show ?case by simp
  next
    case (Suc k)
    then have k: "k < n" by simp
    note rows = row_partitionD [OF part]
    show ?case
    proof (cases "for_list [0..<k] body m")
      case None
      then show ?thesis using Suc by (auto simp: for_list_append less_Suc_eq)
    next
      case (Some m1)
      with Suc have I: "length (view m1) = ?L" "\<forall>i<k. F i = Some (map ((!) (view m1)) (R i))"
        "\<forall>e<?L. (\<forall>i<k. e \<notin> set (R i)) \<longrightarrow> view m1 ! e = view m ! e" by simp_all
      have old: "\<forall>x \<in> set (R k). view m1 ! x = view m ! x"
      proof
        fix x assume x: "x \<in> set (R k)"
        have "x \<notin> set (R i)" if "i < k" for i using rows(3) [OF k, of i x] x that k by auto
        with I(3) rows(2) [OF k] x show "view m1 ! x = view m ! x" by blast
      qed
      show ?thesis
      proof (cases "F k")
        case None
        with body [OF k I(1) old] Some show ?thesis by (auto simp: for_list_append less_Suc_eq)
      next
        case ws: (Some ws)
        with body [OF k I(1) old] obtain m2 where m2: "body k m1 = Some m2" "length (view m2) = ?L"
          "map ((!) (view m2)) (R k) = ws" "\<forall>e<?L. e \<notin> set (R k) \<longrightarrow> view m2 ! e = view m1 ! e" by auto
        have "map ((!) (view m2)) (R i) = map ((!) (view m1)) (R i)" if i: "i < k" for i
        proof (intro map_cong refl)
          fix x assume x: "x \<in> set (R i)"
          have "i < n" using i k by simp
          then have "x \<notin> set (R k)" "x < ?L" using rows(3) [OF _ k x] rows(2) x i by auto
          then show "view m2 ! x = view m1 ! x" using m2(4) by blast
        qed
        then show ?thesis using I m2 ws Some by (auto simp: for_list_append less_Suc_eq)
      qed
    qed
  qed
  from this [OF order_refl] show ?thesis by (auto split: option.splits)
qed

text \<open>
  Both versions of the soft-max make two passes over a row: the first applies \<open>f\<close> to every element and accumulates with \<open>g\<close>, the second
  applies \<open>h\<close> of the accumulated value. \<open>P\<close> holds of the values that can be accumulated.
\<close>

lemma two_pass_row:
  assumes "width_ok" "distinct es" "set es \<subseteq> {..<length (view m)}"
    and "P (fold (\<lambda>e. g (view m ! e)) es s0)"
    and second: "\<And>s. P s \<Longrightarrow> second s = (\<lambda>e m. do { v \<leftarrow> get m e; put m e (h s v) })"
  shows "\<exists>m'. (do {
      (m, s) \<leftarrow> for_list es (\<lambda>e (m, s). do { v \<leftarrow> get m e; m \<leftarrow> put m e (f v); Some (m, g v s) }) (m, s0);
      for_list es (second s) m }) = Some m' \<and> length (view m') = length (view m) \<and>
    (\<forall>e<length (view m). view m' ! e =
      (if e \<in> set es then h (fold (\<lambda>e. g (view m ! e)) es s0) (f (view m ! e)) else view m ! e))"
proof -
  let ?s = "fold (\<lambda>e. g (view m ! e)) es s0"
  obtain m1 where m1: "for_list es (\<lambda>e (m, s). do { v \<leftarrow> get m e; m \<leftarrow> put m e (f v); Some (m, g v s) }) (m, s0) = Some (m1, ?s)"
    "length (view m1) = length (view m)"
    "\<forall>e<length (view m). view m1 ! e = (if e \<in> set es then f (view m ! e) else view m ! e)"
    using pass_loop [OF assms(1-3), of f g s0] by (elim exE conjE)
  have "set es \<subseteq> {..<length (view m1)}" using assms(3) by (simp only: m1(2))
  note upd = update_loop [OF assms(1,2) this, of "h ?s", folded second [OF assms(4)]]
  obtain m2 where m2: "for_list es (second ?s) m1 = Some m2"
    "length (view m2) = length (view m1)"
    "\<forall>e<length (view m1). view m2 ! e = (if e \<in> set es then h ?s (view m1 ! e) else view m1 ! e)"
    using upd by (elim exE conjE)
  have "(do { (m, s) \<leftarrow> for_list es (\<lambda>e (m, s). do { v \<leftarrow> get m e; m \<leftarrow> put m e (f v); Some (m, g v s) }) (m, s0);
      for_list es (second s) m }) = Some m2"
    by (simp only: m1(1) m2(1) bind.bind_lunit prod.case)
  moreover have "\<forall>e<length (view m). view m2 ! e = (if e \<in> set es then h ?s (f (view m ! e)) else view m ! e)"
    using m1(2,3) m2(3) by simp
  ultimately show ?thesis using m1(2) m2(2) by (intro exI [of _ m2] conjI) simp_all
qed

lemma two_pass_rows:
  assumes "width_ok" and part: "row_partition (length (view m)) n R"
    and P: "\<And>i. i < n \<Longrightarrow> P (fold g (map ((!) (view m)) (R i)) s0)"
    and second: "\<And>s. P s \<Longrightarrow> second s = (\<lambda>e m. do { v \<leftarrow> get m e; put m e (h s v) })"
  shows "\<exists>m'. for_list [0..<n] (\<lambda>i m. do {
      (m, s) \<leftarrow> for_list (R i) (\<lambda>e (m, s). do { v \<leftarrow> get m e; m \<leftarrow> put m e (f v); Some (m, g v s) }) (m, s0);
      for_list (R i) (second s) m }) m = Some m' \<and> length (view m') = length (view m) \<and>
    (\<forall>i<n. \<forall>e \<in> set (R i). view m' ! e = h (fold g (map ((!) (view m)) (R i)) s0) (f (view m ! e)))"
proof -
  let ?F = "\<lambda>i e. h (fold g (map ((!) (view m)) (R i)) s0) (f (view m ! e))"
  let ?body = "\<lambda>i m. do {
    (m, s) \<leftarrow> for_list (R i) (\<lambda>e (m, s). do { v \<leftarrow> get m e; m \<leftarrow> put m e (f v); Some (m, g v s) }) (m, s0);
    for_list (R i) (second s) m }"
  have "\<exists>m'. for_list [0..<n] ?body m = Some m' \<and> length (view m') = length (view m) \<and>
    (\<forall>i<n. \<forall>e \<in> set (R i). view m' ! e = ?F i e) \<and>
    (\<forall>e<length (view m). (\<forall>i<n. e \<notin> set (R i)) \<longrightarrow> view m' ! e = view m ! e)"
  proof (rule rows_loop [OF part])
    fix i m1 assume i: "i < n" and m1: "length (view m1) = length (view m)" and row: "\<forall>x \<in> set (R i). view m1 ! x = view m ! x"
    have sub: "set (R i) \<subseteq> {..<length (view m1)}" using row_partitionD(2) [OF part i] by (simp only: m1)
    have same: "fold (\<lambda>e. g (view m1 ! e)) (R i) s0 = fold g (map ((!) (view m)) (R i)) s0"
      unfolding fold_map comp_def using row by (intro fold_cong) auto
    have "P (fold (\<lambda>e. g (view m1 ! e)) (R i) s0)" unfolding same by (rule P [OF i])
    note run = two_pass_row [where P = P and f = f and g = g and h = h, OF assms(1) row_partitionD(1) [OF part i] sub this]
    have "\<exists>m2. ?body i m1 = Some m2 \<and> length (view m2) = length (view m1) \<and> (\<forall>e<length (view m1). view m2 ! e =
        (if e \<in> set (R i) then h (fold (\<lambda>e. g (view m1 ! e)) (R i) s0) (f (view m1 ! e)) else view m1 ! e))"
      by (rule run) (rule second)
    then show "\<exists>m2. ?body i m1 = Some m2 \<and> length (view m2) = length (view m) \<and>
      (\<forall>e<length (view m). view m2 ! e = (if e \<in> set (R i) then ?F i e else view m1 ! e))"
      unfolding m1 same using row by (elim exE conjE) (intro exI conjI, assumption, assumption, simp)
  qed
  then show ?thesis by blast
qed

end

subsection \<open>The two layouts\<close>

definition blocked_row :: "('a::len, 'w::len) sa_cfg \<Rightarrow> nat \<Rightarrow> nat \<Rightarrow> nat \<Rightarrow> nat list" where
  "blocked_row c n d = row_elems (kernel_dim c) n (d div kernel_dim c)"

definition plain_row :: "nat \<Rightarrow> nat \<Rightarrow> nat list" where
  "plain_row d i = map (\<lambda>p. mem2d d i p) [0..<d]"

lemma plain_row_simps:
  "distinct (plain_row d i)" "set (plain_row d i) = mem2d d i ` {..<d}" "length (plain_row d i) = d"
  by (auto simp: plain_row_def distinct_map inj_on_def)

lemma for_list_row_elems:
  "for_list [0..<n] (\<lambda>j. for_list [0..<K] (\<lambda>k. f (row_elem K seq_len i j k))) s = for_list (row_elems K seq_len n i) f s"
  by (simp add: for_list_nest row_elems_def for_list_map)

lemma for_list_plain_row:
  "A dvd d \<Longrightarrow> for_list [0..<d] (\<lambda>j. f (i * (d div A) * A + j)) s = for_list (plain_row d i) f s"
  by (simp add: plain_row_def for_list_map mem2d_def mult.assoc)

lemma blocked_rows:
  assumes "kernel_dim c dvd d" "n * d \<le> N"
  shows "row_partition N n (blocked_row c n d)" "length (blocked_row c n d i) = d"
proof -
  have N: "d div kernel_dim c * n * kernel_dim c = n * d" using assms(1) by (simp add: mult.commute mult.left_commute)
  have "set (blocked_row c n d i) \<subseteq> {..<N}" if "i < n" for i
    using row_elems_bound [OF that, of "kernel_dim c" "d div kernel_dim c", unfolded N] assms(2)
    unfolding blocked_row_def by (meson lessThan_subset_iff order_trans)
  then show "row_partition N n (blocked_row c n d)"
    unfolding row_partition_def blocked_row_def using distinct_row_elems row_elems_disjoint by blast
  show "length (blocked_row c n d i) = d" using assms(1) by (simp add: row_elems_def blocked_row_def)
qed

lemma plain_rows:
  assumes "n * d \<le> N"
  shows "row_partition N n (plain_row d)"
proof -
  have "mem2d d i p < N" if "i < n" "p < d" for i p
    using mem2d_less [OF that] assms by simp
  then show ?thesis by (auto simp: row_partition_def plain_row_simps)
qed

text \<open>Position \<open>p\<close> of row \<open>t\<close> in the two layouts, and the activation that lies there.\<close>

lemma mirror_block:
  assumes "A dvd K" "0 < A" "0 < K"
  shows "mirror A j div K = j div K" "mirror A j mod K = mirror A (j mod K)"
proof -
  obtain m where K: "K = A * m" using assms(1) by (elim dvdE)
  have "mirror A j = mem2d K (j div K) (mirror A (j mod K))"
  proof -
    have "j mod K div A = j div A mod m" "j mod K mod A = j mod A"
      unfolding K using assms(2) by (simp_all add: mod_mult2_eq)
    moreover have "j div A * A = j div K * K + j div A mod m * A"
      unfolding K div_mult2_eq by (metis add_mult_distrib div_mult_mod_eq mult.assoc mult.commute)
    ultimately show ?thesis by (simp add: mirror_def mem2d_def)
  qed
  moreover have "mirror A (j mod K) < K" using assms by (intro mirror_less) simp_all
  ultimately show "mirror A j div K = j div K" "mirror A j mod K = mirror A (j mod K)" by simp_all
qed

lemma act_pos_blocked:
  assumes "cfg_ok c"
  shows "act_pos c seq_len t j =
    row_elem (kernel_dim c) seq_len t (mirror (ACT_PER_BUS c) j div kernel_dim c) (mirror (ACT_PER_BUS c) j mod kernel_dim c)"
  using assms by (simp add: act_pos_def row_elem_mem2d mirror_block cfg_okD cfg_ok_def)

lemma row_act_elems:
  fixes c :: "('a::len, 'w::len) sa_cfg"
  assumes "cfg_ok c" "ACT_PER_BUS c dvd width" "t < height" "j < width" "height * (width div ACT_PER_BUS c) \<le> length xs"
  shows "row_act_at c width xs t j = elems xs ! mem2d width t (mirror (ACT_PER_BUS c) j)"
proof -
  let ?A = "ACT_PER_BUS c" and ?W = "width div ACT_PER_BUS c"
  have A: "0 < ?A" using assms(1) by (simp add: cfg_okD)
  have bus: "per_bus TYPE('a) = ?A" by (simp add: ACT_PER_BUS_def)
  have W: "width = ?W * ?A" using assms(2) by simp
  have q: "j div ?A < ?W" using assms(4) A W by (metis less_mult_imp_div_less)
  have r: "?A - j mod ?A - 1 < ?A" using A by simp
  have pos: "mem2d width t (mirror ?A j) = mem2d ?A (mem2d ?W t (j div ?A)) (?A - j mod ?A - 1)"
    by (subst W) (simp add: mirror_def mem2d_def algebra_simps)
  have w: "mem2d ?W t (j div ?A) < length xs" using mem2d_less [OF assms(3) q] assms(5) by simp
  have "(elems xs :: 'a word list) ! mem2d width t (mirror ?A j) = mem_lane (xs ! mem2d ?W t (j div ?A)) (?A - j mod ?A - 1)"
    using mem2d_less [OF w r] r by (simp add: nth_elems bus pos)
  also have "\<dots> = bus_lane (xs ! mem2d ?W t (j div ?A)) (j mod ?A)" using A by (simp add: mem_lane_bus bus)
  finally show ?thesis by (simp add: row_act_at_def mem2d_def)
qed

definition same_tensor :: "('a::len, 'w::len) sa_cfg \<Rightarrow> nat \<Rightarrow> nat \<Rightarrow> 32 word list \<Rightarrow> 32 word list \<Rightarrow> bool" where
  "same_tensor c n d blocked rowmajor \<longleftrightarrow> (\<forall>t<n. \<forall>j<d. act_at c n blocked t j = row_act_at c d rowmajor t j)"

text \<open>A tensor of \<open>n\<close> rows and \<open>d\<close> columns of activations, without padding.\<close>

definition tensor_ok :: "('a::len, 'w::len) sa_cfg \<Rightarrow> nat \<Rightarrow> nat \<Rightarrow> 32 word list \<Rightarrow> bool" where
  "tensor_ok c n d xs \<longleftrightarrow> cfg_ok c \<and> kernel_dim c dvd d \<and> n * d = length xs * ACT_PER_BUS c"

lemma tensor_okD:
  fixes c :: "('a::len, 'w::len) sa_cfg"
  assumes "tensor_ok c n d xs"
  shows "cfg_ok c" "kernel_dim c dvd d" "ACT_PER_BUS c dvd d" "0 < per_bus TYPE('a)" "length (elems xs :: 'a word list) = n * d"
    "d div kernel_dim c * MAX_ACT_COL c * n \<le> length xs" "n * (d div ACT_PER_BUS c) \<le> length xs"
    "length (elems ys :: 'a word list) = length (elems xs :: 'a word list) \<Longrightarrow> length ys = length xs"
    "row_partition (length (elems xs :: 'a word list)) n (blocked_row c n d)"
    "row_partition (length (elems xs :: 'a word list)) n (plain_row d)"
proof -
  let ?K = "kernel_dim c" and ?A = "ACT_PER_BUS c" and ?M = "MAX_ACT_COL c"
  show cfg: "cfg_ok c" and Kd: "?K dvd d" using assms by (simp_all add: tensor_ok_def)
  have len: "n * d = length xs * ?A" using assms by (simp add: tensor_ok_def)
  have A: "0 < ?A" "?A dvd ?K" "?M * ?A = ?K" using cfg by (simp_all add: cfg_okD cfg_ok_def)
  have bus: "per_bus TYPE('a) = ?A" by (simp add: ACT_PER_BUS_def)
  show Ad: "?A dvd d" using A(2) Kd by (rule dvd_trans)
  show "0 < per_bus TYPE('a)" using A(1) by (simp add: bus)
  show L: "length (elems xs :: 'a word list) = n * d" by (simp add: bus len)
  have "d div ?K * ?M * n * ?A = d div ?K * (?M * ?A) * n" by (simp only: ac_simps)
  also have "\<dots> = length xs * ?A" using Kd len by (simp only: A(3)) (simp add: mult.commute)
  finally have "d div ?K * ?M * n * ?A = length xs * ?A" .
  then show "d div ?K * ?M * n \<le> length xs" using A(1) by simp
  have "n * (d div ?A) * ?A = length xs * ?A" using len Ad by (simp add: mult.assoc)
  then show "n * (d div ?A) \<le> length xs" using A(1) by simp
  show "length (elems ys :: 'a word list) = length (elems xs :: 'a word list) \<Longrightarrow> length ys = length xs"
    using A(1) by (simp add: bus)
  show "row_partition (length (elems xs :: 'a word list)) n (blocked_row c n d)"
    unfolding L by (rule blocked_rows [OF Kd le_refl])
  show "row_partition (length (elems xs :: 'a word list)) n (plain_row d)"
    unfolding L by (rule plain_rows [OF le_refl])
qed

lemma tensor_ok_length: "tensor_ok c n d xs \<Longrightarrow> length ys = length xs \<Longrightarrow> tensor_ok c n d ys"
  by (simp add: tensor_ok_def)

lemma blocked_act:
  fixes c :: "('a::len, 'w::len) sa_cfg"
  assumes "tensor_ok c n d xs" "t < n" "j < d"
  shows "act_at c n xs t j = elems xs ! act_pos c n t j" and "act_pos c n t j \<in> set (blocked_row c n d t)"
proof -
  note ok = tensor_okD [OF assms(1)]
  have nK: "d div kernel_dim c * kernel_dim c = d" using ok(2) by simp
  show "act_at c n xs t j = elems xs ! act_pos c n t j"
    using act_at_elems [OF ok(1) assms(2), of j "d div kernel_dim c" xs] ok(6) assms(3) by (simp add: nK)
  show "act_pos c n t j \<in> set (blocked_row c n d t)"
    using act_pos_row [OF ok(1) assms(2), of "d div kernel_dim c"] assms(3) unfolding nK bij_betw_def blocked_row_def by blast
qed

lemma same_tensor_elems:
  fixes c :: "('a::len, 'w::len) sa_cfg"
  assumes "tensor_ok c n d xs" "tensor_ok c n d ys"
  shows "same_tensor c n d xs ys \<longleftrightarrow> (\<forall>t<n. \<forall>p<d. (elems xs :: 'a word list) ! row_elem (kernel_dim c) n t (p div kernel_dim c) (p mod kernel_dim c) =
    elems ys ! mem2d d t p)"
proof -
  let ?K = "kernel_dim c" and ?A = "ACT_PER_BUS c"
  note ok = tensor_okD [OF assms(1)]
  have A: "0 < ?A" using ok(1) by (simp add: cfg_okD)
  have eq: "act_at c n xs t j = row_act_at c d ys t j \<longleftrightarrow>
      (elems xs :: 'a word list) ! row_elem ?K n t (mirror ?A j div ?K) (mirror ?A j mod ?K) = elems ys ! mem2d d t (mirror ?A j)"
    if "t < n" "j < d" for t j
    unfolding blocked_act(1) [OF assms(1) that] row_act_elems [OF ok(1,3) that tensor_okD(7) [OF assms(2)]]
      act_pos_blocked [OF ok(1)] ..
  show ?thesis unfolding same_tensor_def
  proof (intro iffI allI impI)
    fix t p assume "\<forall>t<n. \<forall>j<d. act_at c n xs t j = row_act_at c d ys t j" "t < n" "p < d"
    then show "(elems xs :: 'a word list) ! row_elem ?K n t (p div ?K) (p mod ?K) = elems ys ! mem2d d t p"
      using eq [of t "mirror ?A p"] mirror_less [OF ok(3) A, of p] by (simp add: mirror_mirror [OF A])
  next
    fix t j assume "\<forall>t<n. \<forall>p<d. (elems xs :: 'a word list) ! row_elem ?K n t (p div ?K) (p mod ?K) = elems ys ! mem2d d t p" "t < n" "j < d"
    then show "act_at c n xs t j = row_act_at c d ys t j" using eq mirror_less [OF ok(3) A, of j] by simp
  qed
qed

lemma blocked_row_map:
  "kernel_dim c dvd d \<Longrightarrow>
    blocked_row c n d t = map (\<lambda>p. row_elem (kernel_dim c) n t (p div kernel_dim c) (p mod kernel_dim c)) [0..<d]"
  by (simp add: row_elems_def blocked_row_def)

lemma same_rows:
  fixes c :: "('a::len, 'w::len) sa_cfg"
  assumes "tensor_ok c n d xb" "tensor_ok c n d xr" "same_tensor c n d xb xr" "t < n"
  shows "map ((!) (elems xb :: 'a word list)) (blocked_row c n d t) = map ((!) (elems xr)) (plain_row d t)"
  using assms(3,4)
  by (simp add: blocked_row_map [OF tensor_okD(2) [OF assms(1)]] plain_row_def same_tensor_elems [OF assms(1,2)])

text \<open>A result that is the same function of the values of a row in visiting order is the same tensor in both layouts.\<close>

lemma rows_agree:
  fixes c :: "('a::len, 'w::len) sa_cfg" and H :: "'a word list \<Rightarrow> 'a word \<Rightarrow> 'a word"
  assumes ok: "tensor_ok c n d xb" "tensor_ok c n d xr" "length yb = length xb" "length yr = length xr"
    and same: "same_tensor c n d xb xr"
    and yb: "\<forall>i<n. \<forall>e \<in> set (blocked_row c n d i). elems yb ! e = H (map ((!) (elems xb)) (blocked_row c n d i)) (elems xb ! e)"
    and yr: "\<forall>i<n. \<forall>e \<in> set (plain_row d i). elems yr ! e = H (map ((!) (elems xr)) (plain_row d i)) (elems xr ! e)"
  shows "same_tensor c n d yb yr"
proof -
  let ?e = "\<lambda>t p. row_elem (kernel_dim c) n t (p div kernel_dim c) (p mod kernel_dim c)"
  have "(elems yb :: 'a word list) ! ?e t p = elems yr ! mem2d d t p" if "t < n" "p < d" for t p
  proof -
    have "?e t p \<in> set (blocked_row c n d t)" "mem2d d t p \<in> set (plain_row d t)"
      using that(2) by (auto simp: blocked_row_map [OF tensor_okD(2) [OF ok(1)]] plain_row_simps)
    moreover have "(elems xb :: 'a word list) ! ?e t p = elems xr ! mem2d d t p"
      using same that by (simp add: same_tensor_elems [OF ok(1,2)])
    ultimately show ?thesis using yb yr that same_rows [OF ok(1,2) same that(1)] by simp
  qed
  then show ?thesis
    using same_tensor_elems [OF tensor_ok_length [OF ok(1,3)] tensor_ok_length [OF ok(2,4)]] by blast
qed

text \<open>Sums over a row.\<close>

lemma blocked_row_sum:
  fixes c :: "('a::len, 'w::len) sa_cfg" and h :: "'a word \<Rightarrow> 'z::comm_monoid_add"
  assumes "tensor_ok c n d xs" "t < n"
  shows "fold (\<lambda>v s. s + h v) (map ((!) (elems xs)) (blocked_row c n d t)) s = s + (\<Sum>j<d. h (act_at c n xs t j))"
proof -
  have "d div kernel_dim c * kernel_dim c = d" using tensor_okD(2) [OF assms(1)] by simp
  then show ?thesis
    using row_sum [OF tensor_okD(1) [OF assms(1)] assms(2) tensor_okD(6) [OF assms(1)], of h s]
    by (simp add: fold_map comp_def blocked_row_def)
qed

end
