(* ===== verification/TiC_Softmax.thy ===== *)
theory TiC_Softmax
  imports TiC_Rows "HOL-Library.Signed_Division"
begin

text \<open>
  The soft-max layer, \<^verbatim>\<open>transformer_layers/softmax.cc\<close>. The integer version (\<^verbatim>\<open>ACTIVATION_FP == 0\<close>) replaces each score
  by an entry of a table indexed by its five most significant bits and divides by a scaled row sum; the floating-point
  version does the same with the exponential. Both exist for row-major and for blocked tensors. Float operations are
  the fields of a record of operations on bit patterns.

  A division by zero is \<open>None\<close>. The lemmas give the elements of a row of the result; the properties state them on the
  activations of the layout.
\<close>

subsection \<open>Model of the integer version\<close>

definition lookup :: "'a::len word list" where
  "lookup = [4, 5, 7, 8, 11, 14, 18, 23, 30, 38, 49, 63, 80, 103, 132, 170,
             0, 0, 0, 0, 0, 0, 0, 0, 1, 1, 1, 1, 1, 2, 2, 3]"

text \<open>\<^verbatim>\<open>x / ((sum >> 8) + 1)\<close>: a \<^verbatim>\<open>u_activation_t\<close> of less than 32 bits is promoted to \<^verbatim>\<open>int\<close>, one of 32 bits makes the
  division unsigned.\<close>

definition scale_score :: "32 word \<Rightarrow> 'a::len word \<Rightarrow> 'a word option" where
  "scale_score s v = (let d = signed_drop_bit 8 s + 1 in
     if d = 0 then None
     else if LENGTH('a) < 32 then Some (word_of_int (uint v sdiv sint d))
     else Some (ucast (ucast v div d)))"

definition softmax_first ::
  "('a::len, 'w::len) sa_cfg \<Rightarrow> nat \<Rightarrow> 32 word list \<times> 32 word \<Rightarrow> (32 word list \<times> 32 word) option" where
  "softmax_first c e = (\<lambda>(input, sum). do {
     v \<leftarrow> rd_elem input e;
     l \<leftarrow> rd (lookup :: 'a word list) (unat (drop_bit (LENGTH('a) - 5) (v :: 'a word)));
     input \<leftarrow> wr_elem input e l;
     Some (input, sum + ucast l)
   })"

definition softmax_second ::
  "('a::len, 'w::len) sa_cfg \<Rightarrow> 32 word \<Rightarrow> nat \<Rightarrow> 32 word list \<Rightarrow> 32 word list option" where
  "softmax_second c s e input = do {
     v \<leftarrow> rd_elem input e;
     v' \<leftarrow> scale_score s (v :: 'a word);
     wr_elem input e v'
   }"

definition softmax_compute :: "('a::len, 'w::len) sa_cfg \<Rightarrow> nat \<Rightarrow> 32 word list \<Rightarrow> 32 word list option" where
  "softmax_compute c seq_len =
     for_list [0..<seq_len] (\<lambda>i input. do {
       let input_uptr = i * (seq_len div ACT_PER_BUS c) * ACT_PER_BUS c;
       (input, sum) \<leftarrow> for_list [0..<seq_len] (\<lambda>j. softmax_first c (input_uptr + j)) (input, 0);
       let sum = (if sum = 0 then sum + 1 else sum);
       for_list [0..<seq_len] (\<lambda>j. softmax_second c sum (input_uptr + j)) input
     })"

definition softmax_computeRearranged :: "('a::len, 'w::len) sa_cfg \<Rightarrow> nat \<Rightarrow> 32 word list \<Rightarrow> 32 word list option" where
  "softmax_computeRearranged c seq_len = (let K = kernel_dim c in
     for_list [0..<seq_len] (\<lambda>i input. do {
       (input, sum) \<leftarrow> for_list [0..<seq_len div K] (\<lambda>j. for_list [0..<K] (\<lambda>k.
         softmax_first c (row_elem K seq_len i j k))) (input, 0);
       let sum = (if sum = 0 then sum + 1 else sum);
       for_list [0..<seq_len div K] (\<lambda>j. for_list [0..<K] (\<lambda>k.
         softmax_second c sum (row_elem K seq_len i j k))) input
     }))"

definition post_softmax :: "('a::len, 'w::len) sa_cfg \<Rightarrow> nat \<Rightarrow> nat \<Rightarrow> 32 word list \<Rightarrow> 32 word list option" where
  "post_softmax c seq_len headSize =
     for_list [0..<seq_len * headSize] (\<lambda>i input. do {
       v \<leftarrow> rd_elem input i;
       wr_elem input i (word_of_int (sint (v :: 'a word) sdiv 64) :: 'a word)
     })"

subsection \<open>Model of the floating-point version\<close>

text \<open>The operations of the target on bit patterns of \<^verbatim>\<open>float\<close> and \<^verbatim>\<open>double\<close>. \<open>fp_exp8\<close> is \<^verbatim>\<open>exp(x) / 8\<close> and \<open>dp_square\<close> is
  \<^verbatim>\<open>pow(x, 2.0)\<close>.\<close>

record fp_ops =
  fp_add :: "32 word \<Rightarrow> 32 word \<Rightarrow> 32 word"
  fp_sub :: "32 word \<Rightarrow> 32 word \<Rightarrow> 32 word"
  fp_mul :: "32 word \<Rightarrow> 32 word \<Rightarrow> 32 word"
  fp_div :: "32 word \<Rightarrow> 32 word \<Rightarrow> 32 word"
  fp_sqrt :: "32 word \<Rightarrow> 32 word"
  fp_exp8 :: "32 word \<Rightarrow> 32 word"
  fp_of_int :: "int \<Rightarrow> 32 word"
  fp_to_dp :: "32 word \<Rightarrow> 64 word"
  dp_to_fp :: "64 word \<Rightarrow> 32 word"
  dp_add :: "64 word \<Rightarrow> 64 word \<Rightarrow> 64 word"
  dp_mul :: "64 word \<Rightarrow> 64 word \<Rightarrow> 64 word"
  dp_div :: "64 word \<Rightarrow> 64 word \<Rightarrow> 64 word"
  dp_square :: "64 word \<Rightarrow> 64 word"
  dp_of_int :: "int \<Rightarrow> 64 word"

definition fp_softmax_first ::
  "fp_ops \<Rightarrow> nat \<Rightarrow> 32 word list \<times> 32 word \<Rightarrow> (32 word list \<times> 32 word) option" where
  "fp_softmax_first fp e = (\<lambda>(input, sum). do {
     v \<leftarrow> rd_elem input e;
     let l = fp_exp8 fp v;
     input \<leftarrow> wr_elem input e l;
     Some (input, fp_add fp sum l)
   })"

definition fp_softmax_second :: "fp_ops \<Rightarrow> 32 word \<Rightarrow> nat \<Rightarrow> 32 word list \<Rightarrow> 32 word list option" where
  "fp_softmax_second fp s e input = do {
     v \<leftarrow> rd_elem input e;
     wr_elem input e (fp_div fp v (fp_add fp (fp_div fp s (fp_of_int fp 256)) (fp_of_int fp 1)))
   }"

definition fp_guard :: "fp_ops \<Rightarrow> 32 word \<Rightarrow> 32 word" where
  "fp_guard fp s = (if s = 0 \<or> s = push_bit 31 1 then fp_add fp s (fp_of_int fp 1) else s)"

definition fp_softmax_compute :: "fp_ops \<Rightarrow> (32, 'w::len) sa_cfg \<Rightarrow> nat \<Rightarrow> 32 word list \<Rightarrow> 32 word list option" where
  "fp_softmax_compute fp c seq_len =
     for_list [0..<seq_len] (\<lambda>i input. do {
       let input_uptr = i * (seq_len div ACT_PER_BUS c) * ACT_PER_BUS c;
       (input, sum) \<leftarrow> for_list [0..<seq_len] (\<lambda>j. fp_softmax_first fp (input_uptr + j)) (input, 0);
       let sum = fp_guard fp sum;
       for_list [0..<seq_len] (\<lambda>j. fp_softmax_second fp sum (input_uptr + j)) input
     })"

definition fp_softmax_computeRearranged :: "fp_ops \<Rightarrow> (32, 'w::len) sa_cfg \<Rightarrow> nat \<Rightarrow> 32 word list \<Rightarrow> 32 word list option" where
  "fp_softmax_computeRearranged fp c seq_len = (let K = kernel_dim c in
     for_list [0..<seq_len] (\<lambda>i input. do {
       (input, sum) \<leftarrow> for_list [0..<seq_len div K] (\<lambda>j. for_list [0..<K] (\<lambda>k.
         fp_softmax_first fp (row_elem K seq_len i j k))) (input, 0);
       let sum = fp_guard fp sum;
       for_list [0..<seq_len div K] (\<lambda>j. for_list [0..<K] (\<lambda>k.
         fp_softmax_second fp sum (row_elem K seq_len i j k))) input
     }))"

text \<open>\<^verbatim>\<open>in_aux.fp = *input_ptr\<close> converts the integer that the bit pattern denotes.\<close>

definition fp_post_softmax :: "fp_ops \<Rightarrow> nat \<Rightarrow> nat \<Rightarrow> 32 word list \<Rightarrow> 32 word list option" where
  "fp_post_softmax fp seq_len headSize =
     for_list [0..<seq_len * headSize] (\<lambda>i input. do {
       v \<leftarrow> rd_elem input i;
       wr_elem input i (fp_div fp (fp_of_int fp (sint (v :: 32 word))) (fp_of_int fp 64))
     })"

subsection \<open>The integer version as the two passes\<close>

definition lut :: "'a::len word \<Rightarrow> 'a word" where
  "lut v = lookup ! unat (drop_bit (LENGTH('a) - 5) v)"

lemma lookup_index:
  assumes "5 \<le> LENGTH('a::len)"
  shows "unat (drop_bit (LENGTH('a) - 5) (v :: 'a word)) < 32"
proof -
  have "unat v < 2 ^ LENGTH('a)" by simp
  also have "\<dots> = 2 ^ (LENGTH('a) - 5) * 2 ^ 5" by (metis assms le_add_diff_inverse2 power_add)
  finally have "unat v div 2 ^ (LENGTH('a) - 5) < 32" by (simp add: less_mult_imp_div_less mult.commute)
  then show ?thesis by (subst unat_drop_bit_eq) (simp only: drop_bit_eq_div)
qed

lemma length_lookup [simp]: "length lookup = 32"
  by (simp add: lookup_def)

lemma rd_lookup:
  "5 \<le> LENGTH('a::len) \<Longrightarrow> rd lookup (unat (drop_bit (LENGTH('a) - 5) (v :: 'a word))) = Some (lut v)"
  using lookup_index [of v] by (simp add: lut_def rd_def)

lemma softmax_first_pass:
  "5 \<le> LENGTH('a) \<Longrightarrow> softmax_first (c :: ('a::len, 'w::len) sa_cfg) =
     (\<lambda>e (m, s). do { v \<leftarrow> rd_elem m e; m \<leftarrow> wr_elem m e (lut (v :: 'a word)); Some (m, s + ucast (lut v)) })"
  unfolding softmax_first_def by (simp add: rd_lookup)

text \<open>The sum of a row of up to \<open>2 ^ 23\<close> table entries fits in a signed 32-bit integer.\<close>

definition lookup_values :: "nat list" where
  "lookup_values = [4, 5, 7, 8, 11, 14, 18, 23, 30, 38, 49, 63, 80, 103, 132, 170,
     0, 0, 0, 0, 0, 0, 0, 0, 1, 1, 1, 1, 1, 2, 2, 3]"

lemma lookup_values_le: "n < 32 \<Longrightarrow> lookup_values ! n \<le> 170"
proof -
  assume "n < 32"
  then have "lookup_values ! n \<in> set lookup_values" by (intro nth_mem) (simp add: lookup_values_def)
  moreover have "\<forall>m \<in> set lookup_values. m \<le> 170" by (simp add: lookup_values_def)
  ultimately show ?thesis by blast
qed

lemma unat_lut:
  fixes v :: "'a::len word"
  assumes "8 \<le> LENGTH('a)"
  shows "unat (lut v) = lookup_values ! (unat v div 2 ^ (LENGTH('a) - 5))" and "unat (lut v) \<le> 170"
proof -
  let ?n = "unat (drop_bit (LENGTH('a) - 5) v)"
  have n: "?n < 32" using assms by (intro lookup_index) simp
  have "(2 :: nat) ^ 8 \<le> 2 ^ LENGTH('a)" using assms by (intro power_increasing) simp_all
  with lookup_values_le [OF n] have lt: "lookup_values ! ?n < 2 ^ LENGTH('a)" by simp
  have "lut v = map word_of_nat lookup_values ! ?n"
    by (simp add: lut_def lookup_def lookup_values_def)
  also have "\<dots> = word_of_nat (lookup_values ! ?n)" using n by (intro nth_map) (simp add: lookup_values_def)
  finally have *: "unat (lut v) = lookup_values ! ?n" using lt by (simp add: unat_of_nat)
  then show "unat (lut v) = lookup_values ! (unat v div 2 ^ (LENGTH('a) - 5))"
    by (subst (asm) unat_drop_bit_eq) (simp only: drop_bit_eq_div)
  from * lookup_values_le [OF n] show "unat (lut v) \<le> 170" by simp
qed

definition lut_sum :: "'a::len word list \<Rightarrow> 32 word" where
  "lut_sum vs = fold (\<lambda>v s. s + ucast (lut v)) vs 0"

definition lut_total :: "'a::len word list \<Rightarrow> nat" where
  "lut_total vs = (\<Sum>v \<leftarrow> vs. unat (lut v))"

lemma lut_total_le: "8 \<le> LENGTH('a::len) \<Longrightarrow> lut_total (vs :: 'a word list) \<le> 170 * length vs"
  by (induction vs) (simp_all add: lut_total_def unat_lut(2) add_mono)

lemma lut_sum_total:
  fixes vs :: "'a::len word list"
  assumes "8 \<le> LENGTH('a)" "length vs \<le> 2 ^ 23"
  shows "unat (lut_sum vs) = lut_total vs" "lut_total vs < 2 ^ 31"
proof -
  have "fold (\<lambda>v s. s + ucast (lut v)) vs (word_of_nat n :: 32 word) = word_of_nat (n + lut_total vs)" for n
  proof (induction vs arbitrary: n)
    case (Cons v vs)
    have "word_of_nat n + ucast (lut v) = (word_of_nat (n + unat (lut v)) :: 32 word)"
      by (simp add: unsigned_ucast_eq flip: ucast_eq)
    with Cons show ?case by (simp add: lut_total_def add.assoc del: of_nat_add of_nat_unat)
  qed (simp add: lut_total_def)
  from this [of 0] have "lut_sum vs = word_of_nat (lut_total vs)" by (simp add: lut_sum_def)
  moreover show "lut_total vs < 2 ^ 31" using lut_total_le [OF assms(1), of vs] assms(2) by simp
  ultimately show "unat (lut_sum vs) = lut_total vs" by (simp add: unat_of_nat)
qed

lemma signed_shift_nat:
  assumes "n < 2 ^ 31"
  shows "signed_drop_bit 8 (word_of_nat n :: 32 word) = word_of_nat (n div 256)"
proof -
  have small: "sint (word_of_nat k :: 32 word) = int k" if "k < 2 ^ 31" for k
    using that by (simp add: signed_of_nat signed_take_bit_int_eq_self)
  have "n div 256 < 2 ^ 31" using assms by simp
  with assms have "sint (signed_drop_bit 8 (word_of_nat n :: 32 word)) = sint (word_of_nat (n div 256) :: 32 word)"
    by (simp only: sint_signed_drop_bit_eq small drop_bit_eq_div zdiv_int) simp
  then show ?thesis by (rule signed_word_eqI)
qed

lemma sdiv_nat: "int a sdiv int b = int (a div b)"
  by (cases "a = 0 \<or> b = 0") (auto simp: signed_divide_int_def zdiv_int)

lemma scale_score_div:
  assumes "LENGTH('a::len) \<le> 32" "0 < d" "d < 2 ^ 31" "signed_drop_bit 8 s + 1 = (word_of_nat d :: 32 word)"
  shows "scale_score s (v :: 'a word) = Some (word_of_nat (unat v div d))"
proof -
  have ud: "unat (word_of_nat d :: 32 word) = d" using assms(3) by (simp add: unat_of_nat)
  have sd: "sint (word_of_nat d :: 32 word) = int d"
    using assms(3) by (simp add: signed_of_nat signed_take_bit_int_eq_self)
  have nz: "(word_of_nat d :: 32 word) \<noteq> 0" using ud assms(2) by (metis less_irrefl unat_0)
  have narrow: "uint v sdiv int d = int (unat v div d)"
    by (simp only: uint_nat sdiv_nat)
  have wide: "ucast (ucast v div word_of_nat d :: 32 word) = (word_of_nat (unat v div d) :: 'a word)"
  proof -
    have "unat v < 2 ^ LENGTH('a)" by simp
    also have "\<dots> \<le> 2 ^ 32" using assms(1) by (rule power_increasing) simp
    finally have "unat (ucast v :: 32 word) = unat v" by (simp add: unsigned_ucast_eq take_bit_nat_eq_self)
    then have "unat (ucast v div word_of_nat d :: 32 word) = unat v div d" by (simp only: unat_div_distrib ud)
    moreover have "(ucast (ucast v div word_of_nat d :: 32 word) :: 'a word) =
        word_of_nat (unat (ucast v div word_of_nat d :: 32 word))" by (simp only: of_nat_unat)
    ultimately show ?thesis by (simp only:)
  qed
  show ?thesis
    unfolding scale_score_def assms(4) Let_def sd narrow wide by (simp only: nz if_False of_int_of_nat_eq if_cancel)
qed

definition scaled :: "32 word \<Rightarrow> 'a::len word \<Rightarrow> 'a word" where
  "scaled s v = word_of_nat (unat v div (unat s div 256 + 1))"

lemma scale_score_scaled:
  assumes "LENGTH('a::len) \<le> 32" "unat s < 2 ^ 31"
  shows "scale_score (if s = 0 then s + 1 else s) (v :: 'a word) = Some (scaled s v)"
  unfolding scaled_def
proof (rule scale_score_div [OF assms(1)])
  have one: "signed_drop_bit 8 (1 :: 32 word) = 0" by code_simp
  have "signed_drop_bit 8 s = word_of_nat (unat s div 256)" using signed_shift_nat [OF assms(2)] by simp
  with one show "signed_drop_bit 8 (if s = 0 then s + 1 else s) + 1 = word_of_nat (unat s div 256 + 1)"
    by (cases "s = 0") simp_all
qed (use assms(2) in simp_all)

lemma softmax_second_pass:
  assumes "LENGTH('a::len) \<le> 32" "unat s < 2 ^ 31"
  shows "softmax_second (c :: ('a, 'w::len) sa_cfg) (if s = 0 then s + 1 else s) =
    (\<lambda>e m. do { v \<leftarrow> rd_elem m e; wr_elem m e (scaled s (v :: 'a word)) })"
  unfolding softmax_second_def scale_score_scaled [OF assms] by simp

subsection \<open>Any partition into rows\<close>

definition softmax_rows :: "('a::len, 'w::len) sa_cfg \<Rightarrow> nat \<Rightarrow> (nat \<Rightarrow> nat list) \<Rightarrow> 32 word list \<Rightarrow> 32 word list option" where
  "softmax_rows c n R = for_list [0..<n] (\<lambda>i m. do {
     (m, s) \<leftarrow> for_list (R i) (softmax_first c) (m, 0);
     for_list (R i) (softmax_second c (if s = 0 then s + 1 else s)) m })"

definition softmax_value :: "'a::len word list \<Rightarrow> 'a word \<Rightarrow> 'a word" where
  "softmax_value vs v = scaled (lut_sum vs) (lut v)"

lemma softmax_rows_elems:
  fixes c :: "('a::len, 'w::len) sa_cfg" and xs :: "32 word list"
  assumes "cfg_ok c" "row_partition (length (elems xs :: 'a word list)) n R" "\<And>i. i < n \<Longrightarrow> length (R i) \<le> 2 ^ 23"
  shows "\<exists>ys. softmax_rows c n R xs = Some ys \<and> length (elems ys :: 'a word list) = length (elems xs :: 'a word list) \<and>
    (\<forall>i<n. \<forall>e \<in> set (R i). (elems ys :: 'a word list) ! e = softmax_value (map ((!) (elems xs)) (R i)) (elems xs ! e))"
proof -
  have A: "0 < per_bus TYPE('a)" using cfg_okD(2) [OF assms(1)] by (simp add: ACT_PER_BUS_def)
  have w: "8 \<le> LENGTH('a)" "LENGTH('a) \<le> 32" "5 \<le> LENGTH('a)" using assms(1) by (auto simp: cfg_ok_def)
  have P: "unat (lut_sum (map ((!) (elems xs :: 'a word list)) (R i))) < 2 ^ 31" if "i < n" for i
    using lut_sum_total [OF w(1)] assms(3) [OF that] by (metis length_map)
  show ?thesis
    unfolding softmax_rows_def softmax_first_pass [OF w(3)] softmax_value_def lut_sum_def
    by (rule packed.two_pass_rows [where P = "\<lambda>s. unat s < 2 ^ 31" and g = "\<lambda>v s. s + ucast (lut v)" and h = scaled,
        OF A assms(2) P [unfolded lut_sum_def] softmax_second_pass [OF w(2)]])
qed

lemma unat_softmax_value:
  fixes vs :: "'a::len word list"
  assumes "8 \<le> LENGTH('a)" "length vs \<le> 2 ^ 23"
  shows "unat (softmax_value vs v) = unat (lut v) div (lut_total vs div 256 + 1)"
proof -
  have "unat (word_of_nat (unat u div d) :: 'a word) = unat u div d" for d and u :: "'a word"
    by (simp add: unat_of_nat le_less_trans [OF div_le_dividend])
  then show ?thesis by (simp only: softmax_value_def scaled_def lut_sum_total(1) [OF assms])
qed

definition fp_softmax_rows :: "fp_ops \<Rightarrow> nat \<Rightarrow> (nat \<Rightarrow> nat list) \<Rightarrow> 32 word list \<Rightarrow> 32 word list option" where
  "fp_softmax_rows fp n R = for_list [0..<n] (\<lambda>i m. do {
     (m, s) \<leftarrow> for_list (R i) (fp_softmax_first fp) (m, 0);
     for_list (R i) (fp_softmax_second fp (fp_guard fp s)) m })"

definition fp_scaled :: "fp_ops \<Rightarrow> 32 word \<Rightarrow> 32 word \<Rightarrow> 32 word" where
  "fp_scaled fp s v = fp_div fp v (fp_add fp (fp_div fp (fp_guard fp s) (fp_of_int fp 256)) (fp_of_int fp 1))"

definition fp_softmax_value :: "fp_ops \<Rightarrow> 32 word list \<Rightarrow> 32 word \<Rightarrow> 32 word" where
  "fp_softmax_value fp vs v = fp_scaled fp (fold (\<lambda>v s. fp_add fp s (fp_exp8 fp v)) vs 0) (fp_exp8 fp v)"

lemma fp_softmax_rows_elems:
  assumes "row_partition (length (elems xs :: 32 word list)) n R"
  shows "\<exists>ys. fp_softmax_rows fp n R xs = Some ys \<and> length (elems ys :: 32 word list) = length (elems xs :: 32 word list) \<and>
    (\<forall>i<n. \<forall>e \<in> set (R i). elems ys ! e = fp_softmax_value fp (map ((!) (elems xs)) (R i)) (elems xs ! e))"
proof -
  have first: "fp_softmax_first fp = (\<lambda>e (m, s). do { v \<leftarrow> rd_elem m e; m \<leftarrow> wr_elem m e (fp_exp8 fp v); Some (m, fp_add fp s (fp_exp8 fp v)) })"
    unfolding fp_softmax_first_def Let_def ..
  have second: "fp_softmax_second fp (fp_guard fp s) = (\<lambda>e m. do { v \<leftarrow> rd_elem m e; wr_elem m e (fp_scaled fp s v) })" for s
    unfolding fp_softmax_second_def fp_scaled_def ..
  have w: "0 < per_bus TYPE(32)" by (simp add: per_bus_def BUS_WIDTH_def)
  show ?thesis unfolding fp_softmax_rows_def first fp_softmax_value_def
    by (rule packed.two_pass_rows [where P = "\<lambda>_. True" and g = "\<lambda>v s. fp_add fp s (fp_exp8 fp v)" and h = "fp_scaled fp",
        OF w assms TrueI second])
qed

text \<open>The four versions are these loops on the rows of their layout.\<close>

lemma softmax_as_rows:
  "softmax_computeRearranged c n = softmax_rows c n (blocked_row c n n)"
  "fp_softmax_computeRearranged fp c' n = fp_softmax_rows fp n (blocked_row c' n n)"
  "ACT_PER_BUS c dvd n \<Longrightarrow> softmax_compute c n = softmax_rows c n (plain_row n)"
  "ACT_PER_BUS c' dvd n \<Longrightarrow> fp_softmax_compute fp c' n = fp_softmax_rows fp n (plain_row n)"
proof -
  show "softmax_computeRearranged c n = softmax_rows c n (blocked_row c n n)"
    unfolding softmax_computeRearranged_def softmax_rows_def for_list_row_elems by (simp add: Let_def blocked_row_def)
  show "fp_softmax_computeRearranged fp c' n = fp_softmax_rows fp n (blocked_row c' n n)"
    unfolding fp_softmax_computeRearranged_def fp_softmax_rows_def for_list_row_elems by (simp add: Let_def blocked_row_def)
  show "ACT_PER_BUS c dvd n \<Longrightarrow> softmax_compute c n = softmax_rows c n (plain_row n)"
    unfolding softmax_compute_def softmax_rows_def Let_def by (simp add: for_list_plain_row)
  show "ACT_PER_BUS c' dvd n \<Longrightarrow> fp_softmax_compute fp c' n = fp_softmax_rows fp n (plain_row n)"
    unfolding fp_softmax_compute_def fp_softmax_rows_def Let_def by (simp add: for_list_plain_row)
qed

subsection \<open>Order of the table\<close>

text \<open>The table in the order of the signed scores is increasing.\<close>

lemma lookup_values_mono:
  assumes "a \<le> b" "b < 32"
  shows "lookup_values ! ((16 + a) mod 32) \<le> lookup_values ! ((16 + b) mod 32)"
proof -
  have len: "length lookup_values = 32" by (simp add: lookup_values_def)
  have "rotate 16 lookup_values = drop 16 lookup_values @ take 16 lookup_values" by (simp add: rotate_drop_take len)
  then have "sorted (rotate 16 lookup_values)" by (simp add: lookup_values_def)
  from sorted_nth_mono [OF this, of a b] show ?thesis using assms by (simp add: len nth_rotate)
qed

lemma score_index:
  fixes x :: "'a::len word"
  assumes "8 \<le> LENGTH('a)"
  defines "Q \<equiv> 2 ^ (LENGTH('a) - 5) :: int"
  shows "int (unat x div 2 ^ (LENGTH('a) - 5)) = (16 + (16 + sint x div Q)) mod 32"
    "0 \<le> 16 + sint x div Q" "16 + sint x div Q < 32"
proof -
  have "0 < Q" by (simp add: Q_def)
  have "LENGTH('a) - 5 + 5 = LENGTH('a)" "LENGTH('a) - 5 + 4 = LENGTH('a) - 1" using assms(1) by simp_all
  then have "2 ^ LENGTH('a) = Q * 2 ^ 5" "2 ^ (LENGTH('a) - 1) = Q * 2 ^ 4"
    unfolding Q_def by (simp_all only: power_add [symmetric])
  then have pow: "2 ^ LENGTH('a) = Q * 32" "2 ^ (LENGTH('a) - 1) = 16 * Q" by simp_all
  have "int (unat x div 2 ^ (LENGTH('a) - 5)) = sint x mod (Q * 32) div Q"
    by (simp only: zdiv_int uint_sint [unfolded uint_nat] take_bit_eq_mod pow of_nat_power of_nat_numeral Q_def [symmetric])
  also have "\<dots> = sint x div Q mod 32" using \<open>0 < Q\<close> by (simp add: zmod_zmult2_eq)
  finally show "int (unat x div 2 ^ (LENGTH('a) - 5)) = (16 + (16 + sint x div Q)) mod 32" by simp
  have r: "- (16 * Q) \<le> sint x" "sint x < 16 * Q" using sint_ge [of x] sint_lt [of x] by (simp_all only: pow)
  have "- (16 * Q) div Q = - 16" using \<open>0 < Q\<close> by (simp flip: mult_minus_left)
  with zdiv_mono1 [OF r(1) \<open>0 < Q\<close>] show "0 \<le> 16 + sint x div Q" by simp
  have "sint x div Q * Q \<le> sint x"
    using pos_mod_sign [OF \<open>0 < Q\<close>, of "sint x"] by (simp add: minus_mod_eq_div_mult [symmetric])
  then have "sint x div Q * Q < 16 * Q" using r(2) by simp
  then have "sint x div Q < 16" using \<open>0 < Q\<close> by (simp only: mult_less_cancel_right_pos)
  then show "16 + sint x div Q < 32" by simp
qed

lemma lut_mono:
  fixes v w :: "'a::len word"
  assumes "8 \<le> LENGTH('a)" "sint v \<le> sint w"
  shows "unat (lut v) \<le> unat (lut w)"
proof -
  let ?Q = "2 ^ (LENGTH('a) - 5) :: int"
  define k where "k x = nat (16 + sint x div ?Q)" for x :: "'a word"
  have key: "unat x div 2 ^ (LENGTH('a) - 5) = (16 + k x) mod 32" "k x < 32" for x :: "'a word"
    using score_index [OF assms(1), of x] unfolding k_def by (simp_all add: zmod_int flip: of_nat_eq_iff [where 'a = int])
  have "k v \<le> k w" unfolding k_def using zdiv_mono1 [OF assms(2), of ?Q] by simp
  then show ?thesis unfolding unat_lut(1) [OF assms(1)] key(1) by (rule lookup_values_mono) (rule key(2))
qed

lemma softmax_blocked:
  fixes c :: "('a::len, 'w::len) sa_cfg"
  assumes "tensor_ok c n n xs" "n \<le> 2 ^ 23"
  shows "\<exists>ys. softmax_computeRearranged c n xs = Some ys \<and> length ys = length xs \<and>
    (\<forall>t j. t < n \<longrightarrow> j < n \<longrightarrow> unat (act_at c n ys t j) =
       unat (lut (act_at c n xs t j)) div ((\<Sum>k<n. unat (lut (act_at c n xs t k))) div 256 + 1))"
proof -
  note ok = tensor_okD [OF assms(1)]
  have w: "8 \<le> LENGTH('a)" using ok(1) by (auto simp: cfg_ok_def)
  have len: "length (blocked_row c n n i) = n" for i by (rule blocked_rows(2) [OF ok(2) le_refl])
  have short: "length (blocked_row c n n i) \<le> 2 ^ 23" for i unfolding len by (rule assms(2))
  obtain ys where ys: "softmax_computeRearranged c n xs = Some ys" "length (elems ys :: 'a word list) = length (elems xs :: 'a word list)"
    "\<forall>i<n. \<forall>e \<in> set (blocked_row c n n i). (elems ys :: 'a word list) ! e = softmax_value (map ((!) (elems xs)) (blocked_row c n n i)) (elems xs ! e)"
    unfolding softmax_as_rows using softmax_rows_elems [OF ok(1,9) short] by (elim exE conjE)
  have ly: "length ys = length xs" by (rule ok(8) [OF ys(2)])
  have "unat (act_at c n ys t j) = unat (lut (act_at c n xs t j)) div ((\<Sum>k<n. unat (lut (act_at c n xs t k))) div 256 + 1)"
    if t: "t < n" and j: "j < n" for t j
  proof -
    let ?vs = "map ((!) (elems xs :: 'a word list)) (blocked_row c n n t)"
    have "fold (\<lambda>v s. s + unat (lut v)) vs s = s + lut_total vs" for s and vs :: "'a word list"
      by (induction vs arbitrary: s) (simp_all add: lut_total_def add.assoc)
    then have total: "lut_total ?vs = (\<Sum>k<n. unat (lut (act_at c n xs t k)))"
      using blocked_row_sum [OF assms(1) t, of "\<lambda>v. unat (lut v)" 0] by simp
    have "act_at c n ys t j = softmax_value ?vs (act_at c n xs t j)"
      using ys(3) t blocked_act [OF assms(1) t j] blocked_act(1) [OF tensor_ok_length [OF assms(1) ly] t j] by simp
    then show ?thesis using unat_softmax_value [OF w, of ?vs] short by (simp add: total)
  qed
  with ys(1) ly show ?thesis by blast
qed

text \<open>Dividing a row by more than a 256th of its total leaves at most 255.\<close>

lemma scaled_sum_le:
  fixes f :: "nat \<Rightarrow> nat" and n :: nat
  defines "d \<equiv> (\<Sum>k<n. f k) div 256 + 1"
  shows "(\<Sum>j<n. f j div d) \<le> 255"
proof -
  have "(\<Sum>j<n. f j div d) * d \<le> (\<Sum>j<n. f j)"
    unfolding sum_distrib_right by (intro sum_mono) simp
  also have "\<dots> < d * 256" unfolding d_def by simp
  finally have "(\<Sum>j<n. f j div d) * d < 256 * d" by (simp add: mult.commute)
  then show ?thesis by simp
qed

lemma softmax_agree:
  fixes c :: "('a::len, 'w::len) sa_cfg"
  assumes "tensor_ok c n n xb" "tensor_ok c n n xr" "n \<le> 2 ^ 23" "same_tensor c n n xb xr"
  shows "\<exists>yb yr. softmax_computeRearranged c n xb = Some yb \<and> softmax_compute c n xr = Some yr \<and> same_tensor c n n yb yr"
proof -
  note ok = tensor_okD [OF assms(1)] and ok' = tensor_okD [OF assms(2)]
  have short: "length (blocked_row c n n i) \<le> 2 ^ 23" "length (plain_row n i) \<le> 2 ^ 23" for i
    unfolding blocked_rows(2) [OF ok(2) le_refl] plain_row_simps by (rule assms(3))+
  obtain yb where yb: "softmax_computeRearranged c n xb = Some yb"
    "length (elems yb :: 'a word list) = length (elems xb :: 'a word list)"
    "\<forall>i<n. \<forall>e \<in> set (blocked_row c n n i). (elems yb :: 'a word list) ! e = softmax_value (map ((!) (elems xb)) (blocked_row c n n i)) (elems xb ! e)"
    unfolding softmax_as_rows using softmax_rows_elems [OF ok(1,9) short(1)] by (elim exE conjE)
  obtain yr where yr: "softmax_compute c n xr = Some yr"
    "length (elems yr :: 'a word list) = length (elems xr :: 'a word list)"
    "\<forall>i<n. \<forall>e \<in> set (plain_row n i). (elems yr :: 'a word list) ! e = softmax_value (map ((!) (elems xr)) (plain_row n i)) (elems xr ! e)"
    unfolding softmax_as_rows(3) [OF ok(3)] using softmax_rows_elems [OF ok'(1,10) short(2)] by (elim exE conjE)
  show ?thesis
    by (intro exI conjI) (rule yb(1), rule yr(1), rule rows_agree [OF assms(1,2) ok(8) [OF yb(2)] ok'(8) [OF yr(2)] assms(4) yb(3) yr(3)])
qed

lemma fp_softmax_agree:
  fixes c :: "(32, 'v::len) sa_cfg"
  assumes "tensor_ok c n n xb" "tensor_ok c n n xr" "same_tensor c n n xb xr"
  shows "\<exists>yb yr. fp_softmax_computeRearranged fp c n xb = Some yb \<and> fp_softmax_compute fp c n xr = Some yr \<and> same_tensor c n n yb yr"
proof -
  note ok = tensor_okD [OF assms(1)] and ok' = tensor_okD [OF assms(2)]
  obtain yb where yb: "fp_softmax_computeRearranged fp c n xb = Some yb"
    "length (elems yb :: 32 word list) = length (elems xb :: 32 word list)"
    "\<forall>i<n. \<forall>e \<in> set (blocked_row c n n i). elems yb ! e = fp_softmax_value fp (map ((!) (elems xb)) (blocked_row c n n i)) (elems xb ! e)"
    unfolding softmax_as_rows using fp_softmax_rows_elems [where fp = fp, OF ok(9)] by (elim exE conjE)
  obtain yr where yr: "fp_softmax_compute fp c n xr = Some yr"
    "length (elems yr :: 32 word list) = length (elems xr :: 32 word list)"
    "\<forall>i<n. \<forall>e \<in> set (plain_row n i). elems yr ! e = fp_softmax_value fp (map ((!) (elems xr)) (plain_row n i)) (elems xr ! e)"
    unfolding softmax_as_rows(4) [OF ok(3)] using fp_softmax_rows_elems [where fp = fp, OF ok'(10)] by (elim exE conjE)
  show ?thesis
    by (intro exI conjI) (rule yb(1), rule yr(1), rule rows_agree [OF assms(1,2) ok(8) [OF yb(2)] ok'(8) [OF yr(2)] assms(3) yb(3) yr(3)])
qed

text \<open>The final division of every element by 64, toward zero.\<close>

lemma post_softmax_elems:
  fixes c :: "('a::len, 'w::len) sa_cfg"
  assumes "cfg_ok c" "seq_len * headSize \<le> length (elems xs :: 'a word list)"
  shows "\<exists>ys. post_softmax c seq_len headSize xs = Some ys \<and> length ys = length xs \<and>
    (\<forall>e<length (elems xs :: 'a word list). elems ys ! e =
       (if e < seq_len * headSize then word_of_int (sint ((elems xs :: 'a word list) ! e) sdiv 64) else elems xs ! e :: 'a word))"
proof -
  have A: "0 < per_bus TYPE('a)" using cfg_okD(2) [OF assms(1)] by (simp add: ACT_PER_BUS_def)
  have "set [0..<seq_len * headSize] \<subseteq> {..<length (elems xs :: 'a word list)}"
    using assms(2) by (auto simp del: length_elems)
  from packed.update_loop [OF A distinct_upt this, of "\<lambda>v. word_of_int (sint v sdiv 64)"] A show ?thesis
    unfolding post_softmax_def by auto
qed

subsection \<open>Properties\<close>

text \<open>C19: The integer soft-max of a blocked square tensor returns, and every activation of the result is the table entry of
  its score divided by one more than the row total over 256; the row total is taken over the whole row and does not
  overflow up to \<open>2 ^ 23\<close> columns.\<close>

theorem softmax_blocked_value:
  fixes c :: "('a::len, 'w::len) sa_cfg"
  assumes "tensor_ok c n n xs" "n \<le> 2 ^ 23"
  shows "\<exists>ys. softmax_computeRearranged c n xs = Some ys \<and> length ys = length xs \<and>
    (\<forall>t j. t < n \<longrightarrow> j < n \<longrightarrow> unat (act_at c n ys t j) =
       unat (lut (act_at c n xs t j)) div ((\<Sum>k<n. unat (lut (act_at c n xs t k))) div 256 + 1))"
  by (rule softmax_blocked [OF assms])

theorem softmax_blocked_value_witness:
  "\<exists>ys. softmax_computeRearranged demo_cfg 4 [0x7FFF0000, 0xFFFF4000, 1, 2, 3, 4, 5, 6] = Some ys \<and> length ys = 8"
proof -
  have "\<exists>ys. softmax_computeRearranged demo_cfg 4 [0x7FFF0000, 0xFFFF4000, 1, 2, 3, 4, 5, 6] = Some ys \<and>
      length ys = length [0x7FFF0000, 0xFFFF4000, 1, 2, 3, 4, 5, 6 :: 32 word] \<and>
      (\<forall>t j. t < 4 \<longrightarrow> j < 4 \<longrightarrow> unat (act_at demo_cfg 4 ys t j) =
        unat (lut (act_at demo_cfg 4 [0x7FFF0000, 0xFFFF4000, 1, 2, 3, 4, 5, 6] t j)) div
          ((\<Sum>k<4. unat (lut (act_at demo_cfg 4 [0x7FFF0000, 0xFFFF4000, 1, 2, 3, 4, 5, 6] t k))) div 256 + 1))"
    using demo_supported by (intro softmax_blocked_value) (simp_all add: gem5_supported_def tensor_ok_def)
  then show ?thesis by (elim exE conjE) (intro exI conjI, assumption, simp)
qed

text \<open>C20: Each row of the integer soft-max sums to at most 255, and it keeps the order of the signed scores, up to \<open>2 ^ 23\<close> columns.\<close>

theorem softmax_distribution:
  fixes c :: "('a::len, 'w::len) sa_cfg"
  assumes "tensor_ok c n n xs" "n \<le> 2 ^ 23"
    and "softmax_computeRearranged c n xs = Some ys" "t < n"
  shows "(\<Sum>j<n. unat (act_at c n ys t j)) \<le> 255 \<and>
    (\<forall>j k. j < n \<longrightarrow> k < n \<longrightarrow> sint (act_at c n xs t j) \<le> sint (act_at c n xs t k) \<longrightarrow>
       unat (act_at c n ys t j) \<le> unat (act_at c n ys t k))"
proof
  let ?d = "(\<Sum>k<n. unat (lut (act_at c n xs t k))) div 256 + 1"
  have w: "8 \<le> LENGTH('a)" using tensor_okD(1) [OF assms(1)] by (auto simp: cfg_ok_def)
  have v: "unat (act_at c n ys t j) = unat (lut (act_at c n xs t j)) div ?d" if "j < n" for j
    using softmax_blocked [OF assms(1,2)] assms(3,4) that by auto
  then show "(\<Sum>j<n. unat (act_at c n ys t j)) \<le> 255"
    using scaled_sum_le [of "\<lambda>k. unat (lut (act_at c n xs t k))" n] by simp
  show "\<forall>j k. j < n \<longrightarrow> k < n \<longrightarrow> sint (act_at c n xs t j) \<le> sint (act_at c n xs t k) \<longrightarrow>
      unat (act_at c n ys t j) \<le> unat (act_at c n ys t k)"
    using lut_mono [OF w] by (auto simp: v intro!: div_le_mono)
qed

theorem softmax_distribution_witness:
  "\<exists>ys. softmax_computeRearranged demo_cfg 4 [0x7FFF0000, 0xFFFF4000, 1, 2, 3, 4, 5, 6] = Some ys \<and>
     (\<Sum>j<4. unat (act_at demo_cfg 4 ys 0 j)) \<le> 255"
proof -
  let ?xs = "[0x7FFF0000, 0xFFFF4000, 1, 2, 3, 4, 5, 6] :: 32 word list"
  have dims: "tensor_ok demo_cfg 4 4 ?xs" "(4 :: nat) \<le> 2 ^ 23"
    using demo_supported by (simp_all add: gem5_supported_def tensor_ok_def)
  obtain ys where ys: "softmax_computeRearranged demo_cfg 4 ?xs = Some ys"
    using softmax_blocked [OF dims] by (elim exE conjE)
  moreover have "(\<Sum>j<4. unat (act_at demo_cfg 4 ys 0 j)) \<le> 255"
    by (rule softmax_distribution [OF dims ys, THEN conjunct1]) simp
  ultimately show ?thesis by (intro exI conjI)
qed

text \<open>C21: The row-major and the blocked floating-point soft-max compute the same tensor bit for bit, for any float operations: they visit a row in the same order.\<close>

theorem fp_softmax_layouts_agree:
  fixes c :: "(32, 'v::len) sa_cfg"
  assumes "tensor_ok c n n xb" "tensor_ok c n n xr" "same_tensor c n n xb xr"
  shows "\<exists>yb yr. fp_softmax_computeRearranged fp c n xb = Some yb \<and> fp_softmax_compute fp c n xr = Some yr \<and> same_tensor c n n yb yr"
  using fp_softmax_agree [OF assms] .

definition word_ops :: fp_ops where
  "word_ops = \<lparr>fp_add = (+), fp_sub = (-), fp_mul = (*), fp_div = (div), fp_sqrt = id, fp_exp8 = (\<lambda>x. x + 1), fp_of_int = word_of_int,
     fp_to_dp = ucast, dp_to_fp = ucast, dp_add = (+), dp_mul = (*), dp_div = (div), dp_square = (\<lambda>x. x * x), dp_of_int = word_of_int\<rparr>"

theorem fp_softmax_layouts_agree_witness:
  "\<exists>yb yr. fp_softmax_computeRearranged word_ops (int_cfg 2 :: (32, 32) sa_cfg) 2 [1, 2, 3, 4] = Some yb \<and>
     fp_softmax_compute word_ops (int_cfg 2 :: (32, 32) sa_cfg) 2 [1, 2, 3, 4] = Some yr \<and> same_tensor (int_cfg 2 :: (32, 32) sa_cfg) 2 2 yb yr"
  by (rule fp_softmax_layouts_agree)
    (simp_all add: tensor_ok_def cfg_ok_def int_cfg_def ACT_PER_BUS_def W_PER_BUS_def MAX_ACT_COL_def per_bus_def BUS_WIDTH_def
      CEILING_DIV_def same_tensor_def act_at_def row_act_at_def)

end
