(* ===== verification/TiC_AddNorm.thy ===== *)
theory TiC_AddNorm
  imports TiC_Softmax Complex_Main
begin

text \<open>
  The residual addition and normalisation, \<^verbatim>\<open>transformer_layers/addNorm.cc\<close>, in its integer and floating-point versions
  and for row-major and blocked tensors. The steps of a row (addition, mean, variance, scaling) are shared by the
  two layouts.

  In the integer version the sums, differences and products are those of \<^verbatim>\<open>int\<close>, undefined on overflow (\<open>int_c\<close>), \<^verbatim>\<open>^\<close> is the
  exclusive or of C++, the mean is an unsigned 64-bit division because \<^verbatim>\<open>input_dim_\<close> is a \<^verbatim>\<open>size_t\<close>, and the conversion of the
  square root of a negative variance to an integer is undefined. Everything undefined is \<open>None\<close>.
\<close>

subsection \<open>Model of the integer version\<close>

record AddNormalize =
  an_seq_len :: nat
  an_input_dim :: nat
  an_kernel_dim :: nat
  an_max_col :: nat

definition AddNormalize :: "nat \<Rightarrow> nat \<Rightarrow> nat \<Rightarrow> nat \<Rightarrow> AddNormalize" where
  "AddNormalize seq_len input_dim kernelDim maxCol =
     \<lparr>an_seq_len = seq_len, an_input_dim = input_dim, an_kernel_dim = kernelDim, an_max_col = maxCol\<rparr>"

text \<open>\<^verbatim>\<open>(activation_t) (*output_ptr + *input_ptr)\<close>: the sum is an \<^verbatim>\<open>int\<close>, its conversion keeps the low bits.\<close>

definition add_value :: "'a::len word \<Rightarrow> 'a word \<Rightarrow> 'a word option" where
  "add_value y x = do {
     s \<leftarrow> int_c (sint y + sint x);
     Some (word_of_int s)
   }"

definition add_step ::
  "('a::len, 'w::len) sa_cfg \<Rightarrow> 32 word list \<Rightarrow> nat \<Rightarrow> 32 word list \<times> int \<Rightarrow> (32 word list \<times> int) option" where
  "add_step c input e = (\<lambda>(output, sum). do {
     y \<leftarrow> rd_elem output e;
     x \<leftarrow> rd_elem input e;
     v \<leftarrow> add_value y (x :: 'a word);
     output \<leftarrow> wr_elem output e v;
     sum \<leftarrow> int_c (sum + sint v);
     Some (output, sum)
   })"

text \<open>\<^verbatim>\<open>(int32_t) (sum / input_dim_)\<close>: \<^verbatim>\<open>sum\<close> is converted to \<^verbatim>\<open>size_t\<close>.\<close>

definition int_mean :: "int \<Rightarrow> nat \<Rightarrow> int option" where
  "int_mean s idim = (if (word_of_nat idim :: 64 word) = 0 then None
     else Some (sint (ucast ((word_of_int s :: 64 word) div word_of_nat idim) :: 32 word)))"

definition var_step :: "('a::len, 'w::len) sa_cfg \<Rightarrow> 32 word list \<Rightarrow> int \<Rightarrow> nat \<Rightarrow> int \<Rightarrow> int option" where
  "var_step c output mean e variance = do {
     v \<leftarrow> rd_elem output e;
     d \<leftarrow> int_c (sint (v :: 'a word) - mean);
     int_c (variance + (d XOR 2))
   }"

definition int_variance :: "int \<Rightarrow> nat \<Rightarrow> int option" where
  "int_variance variance idim = (let d = sint (word_of_nat idim :: 32 word) in
     if d = 0 then None else int_c (variance sdiv d))"

text \<open>\<^verbatim>\<open>(int32_t) ((1<<2) / (sqrt(variance) + 1))\<close>: the largest \<open>k\<close> with \<open>k * (sqrt variance + 1) \<le> 4\<close>.\<close>

definition sd_inv :: "int \<Rightarrow> int option" where
  "sd_inv variance = (if variance < 0 then None
     else Some (int (length (filter (\<lambda>k. k * k * variance \<le> (4 - k) * (4 - k)) [1, 2, 3, 4]))))"

definition norm_value :: "('a::len, 'w::len) sa_cfg \<Rightarrow> int \<Rightarrow> int \<Rightarrow> 'a word \<Rightarrow> 'a word option" where
  "norm_value c mean sd v = do {
     d \<leftarrow> int_c (sint v - mean);
     p \<leftarrow> int_c (d * sd);
     Some (word_of_int (p sdiv int (ACT_PER_BUS c)))
   }"

definition norm_step :: "('a::len, 'w::len) sa_cfg \<Rightarrow> int \<Rightarrow> int \<Rightarrow> nat \<Rightarrow> 32 word list \<Rightarrow> 32 word list option" where
  "norm_step c mean sd e output = do {
     v \<leftarrow> rd_elem output e;
     v \<leftarrow> norm_value c mean sd (v :: 'a word);
     wr_elem output e v
   }"

definition addnorm_compute ::
  "('a::len, 'w::len) sa_cfg \<Rightarrow> AddNormalize \<Rightarrow> 32 word list \<Rightarrow> 32 word list \<Rightarrow> 32 word list option" where
  "addnorm_compute c a input = for_list [0..<an_seq_len a] (\<lambda>i output. do {
     let idim = an_input_dim a;
     let ptr = i * (idim div ACT_PER_BUS c) * ACT_PER_BUS c;
     (output, sum) \<leftarrow> for_list [0..<idim] (\<lambda>j. add_step c input (ptr + j)) (output, 0);
     mean \<leftarrow> int_mean sum idim;
     variance \<leftarrow> for_list [0..<idim] (\<lambda>j. var_step c output mean (ptr + j)) 0;
     variance \<leftarrow> int_variance variance idim;
     sd \<leftarrow> sd_inv variance;
     for_list [0..<idim] (\<lambda>j. norm_step c mean sd (ptr + j)) output
   })"

definition addnorm_computeRearranged ::
  "('a::len, 'w::len) sa_cfg \<Rightarrow> AddNormalize \<Rightarrow> 32 word list \<Rightarrow> 32 word list \<Rightarrow> 32 word list option" where
  "addnorm_computeRearranged c a input output = do {
     let idim = an_input_dim a;
     let n = an_seq_len a;
     let K = an_kernel_dim a;
     output \<leftarrow> for_list [0..<n * idim] (\<lambda>e output. do {
       y \<leftarrow> rd_elem output e;
       x \<leftarrow> rd_elem input e;
       v \<leftarrow> add_value y (x :: 'a word);
       wr_elem output e v
     }) output;
     for_list [0..<n] (\<lambda>i output. do {
       sum \<leftarrow> for_list [0..<idim div K] (\<lambda>j. for_list [0..<K] (\<lambda>k sum. do {
         v \<leftarrow> rd_elem output (row_elem K n i j k);
         int_c (sum + sint (v :: 'a word))
       })) 0;
       mean \<leftarrow> int_mean sum idim;
       variance \<leftarrow> for_list [0..<idim div K] (\<lambda>j. for_list [0..<K] (\<lambda>k. var_step c output mean (row_elem K n i j k))) 0;
       variance \<leftarrow> int_variance variance idim;
       sd \<leftarrow> sd_inv variance;
       for_list [0..<idim div K] (\<lambda>j. for_list [0..<K] (\<lambda>k. norm_step c mean sd (row_elem K n i j k))) output
     }) output
   }"

subsection \<open>Model of the floating-point version\<close>

definition fp_mean :: "fp_ops \<Rightarrow> 32 word \<Rightarrow> nat \<Rightarrow> 32 word" where
  "fp_mean fp s idim = fp_div fp s (fp_of_int fp (int idim))"

definition fp_var_step :: "fp_ops \<Rightarrow> 32 word list \<Rightarrow> 32 word \<Rightarrow> nat \<Rightarrow> 32 word \<Rightarrow> 32 word option" where
  "fp_var_step fp output mean e variance = do {
     v \<leftarrow> rd_elem output e;
     Some (dp_to_fp fp (dp_add fp (fp_to_dp fp variance) (dp_square fp (fp_to_dp fp (fp_sub fp v mean)))))
   }"

definition fp_sd_inv :: "fp_ops \<Rightarrow> 32 word \<Rightarrow> nat \<Rightarrow> 64 word" where
  "fp_sd_inv fp variance idim = (let
     variance = fp_div fp variance (fp_of_int fp (sint (word_of_nat idim :: 32 word)));
     sd = fp_sqrt fp variance
   in dp_div fp (dp_of_int fp 1) (fp_to_dp fp (fp_add fp sd (fp_of_int fp 1))))"

definition fp_norm_step ::
  "fp_ops \<Rightarrow> (32, 'w::len) sa_cfg \<Rightarrow> 32 word \<Rightarrow> 64 word \<Rightarrow> nat \<Rightarrow> 32 word list \<Rightarrow> 32 word list option" where
  "fp_norm_step fp c mean sd e output = do {
     v \<leftarrow> rd_elem output e;
     wr_elem output e (dp_to_fp fp (dp_div fp (dp_mul fp (fp_to_dp fp (fp_sub fp v mean)) sd) (dp_of_int fp (int (ACT_PER_BUS c)))))
   }"

text \<open>The row-major version computes the sum \<^verbatim>\<open>out_aux.fp += in_aux.fp\<close> without storing it.\<close>

definition fp_addnorm_compute ::
  "fp_ops \<Rightarrow> (32, 'w::len) sa_cfg \<Rightarrow> AddNormalize \<Rightarrow> 32 word list \<Rightarrow> 32 word list \<Rightarrow> 32 word list option" where
  "fp_addnorm_compute fp c a input = for_list [0..<an_seq_len a] (\<lambda>i output. do {
     let idim = an_input_dim a;
     let ptr = i * (idim div ACT_PER_BUS c) * ACT_PER_BUS c;
     sum \<leftarrow> for_list [0..<idim] (\<lambda>j sum. do {
       x \<leftarrow> rd_elem input (ptr + j);
       y \<leftarrow> rd_elem output (ptr + j);
       Some (fp_add fp sum (fp_add fp y x))
     }) 0;
     let mean = fp_mean fp sum idim;
     variance \<leftarrow> for_list [0..<idim] (\<lambda>j. fp_var_step fp output mean (ptr + j)) 0;
     let sd = fp_sd_inv fp variance idim;
     for_list [0..<idim] (\<lambda>j. fp_norm_step fp c mean sd (ptr + j)) output
   })"

definition fp_addnorm_computeRearranged ::
  "fp_ops \<Rightarrow> (32, 'w::len) sa_cfg \<Rightarrow> AddNormalize \<Rightarrow> 32 word list \<Rightarrow> 32 word list \<Rightarrow> 32 word list option" where
  "fp_addnorm_computeRearranged fp c a input output = do {
     let idim = an_input_dim a;
     let n = an_seq_len a;
     let K = an_kernel_dim a;
     output \<leftarrow> for_list [0..<n * idim] (\<lambda>e output. do {
       x \<leftarrow> rd_elem input e;
       y \<leftarrow> rd_elem output e;
       wr_elem output e (fp_add fp y x)
     }) output;
     for_list [0..<n] (\<lambda>i output. do {
       sum \<leftarrow> for_list [0..<idim div K] (\<lambda>j. for_list [0..<K] (\<lambda>k sum. do {
         v \<leftarrow> rd_elem output (row_elem K n i j k);
         Some (fp_add fp sum v)
       })) 0;
       let mean = fp_mean fp sum idim;
       variance \<leftarrow> for_list [0..<idim div K] (\<lambda>j. for_list [0..<K] (\<lambda>k. fp_var_step fp output mean (row_elem K n i j k))) 0;
       let sd = fp_sd_inv fp variance idim;
       for_list [0..<idim div K] (\<lambda>j. for_list [0..<K] (\<lambda>k. fp_norm_step fp c mean sd (row_elem K n i j k))) output
     }) output
   }"

subsection \<open>One row of the integer version\<close>

text \<open>Mean and scaling factor of a row, from its values in the order the code reads them.\<close>

definition addnorm_stat :: "nat \<Rightarrow> 'a::len word list \<Rightarrow> (int \<times> int) option" where
  "addnorm_stat idim vs = do {
     sum \<leftarrow> for_list vs (\<lambda>v sum. int_c (sum + sint v)) 0;
     mean \<leftarrow> int_mean sum idim;
     variance \<leftarrow> for_list vs (\<lambda>v variance. do { d \<leftarrow> int_c (sint v - mean); int_c (variance + (d XOR 2)) }) 0;
     variance \<leftarrow> int_variance variance idim;
     sd \<leftarrow> sd_inv variance;
     Some (mean, sd)
   }"

definition norm_values :: "('a::len, 'w::len) sa_cfg \<Rightarrow> nat \<Rightarrow> 'a word list \<Rightarrow> 'a word list option" where
  "norm_values c idim vs = do {
     (mean, sd) \<leftarrow> addnorm_stat idim vs;
     those (map (norm_value c mean sd) vs)
   }"

text \<open>What the layer makes of the rows \<open>ys\<close> of its output and \<open>xs\<close> of its input; undefined when a sum, a difference or a product
  overflows, the row has no mean or its variance is negative.\<close>

definition addnorm_row :: "('a::len, 'w::len) sa_cfg \<Rightarrow> nat \<Rightarrow> 'a word list \<Rightarrow> 'a word list \<Rightarrow> 'a word list option" where
  "addnorm_row c idim ys xs = do {
     vs \<leftarrow> those (map2 add_value ys xs);
     norm_values c idim vs
   }"

definition norm_row :: "('a::len, 'w::len) sa_cfg \<Rightarrow> nat \<Rightarrow> nat list \<Rightarrow> int \<Rightarrow> 32 word list \<Rightarrow> 32 word list option" where
  "norm_row c idim es s output = do {
     mean \<leftarrow> int_mean s idim;
     variance \<leftarrow> for_list es (var_step c output mean) 0;
     variance \<leftarrow> int_variance variance idim;
     sd \<leftarrow> sd_inv variance;
     for_list es (norm_step c mean sd) output
   }"

lemma norm_row_run:
  fixes c :: "('a::len, 'w::len) sa_cfg" and m :: "32 word list"
  defines "vs es \<equiv> map ((!) (elems m :: 'a word list)) es"
  assumes A: "0 < per_bus TYPE('a)" and es: "distinct es" "set es \<subseteq> {..<length (elems m :: 'a word list)}"
    and s: "for_list (vs es) (\<lambda>v sum. int_c (sum + sint v)) 0 = Some s"
  shows "case norm_values c idim (vs es) of None \<Rightarrow> norm_row c idim es s m = None
    | Some ws \<Rightarrow> \<exists>m'. norm_row c idim es s m = Some m' \<and> length (elems m' :: 'a word list) = length (elems m :: 'a word list) \<and>
        map ((!) (elems m' :: 'a word list)) es = ws \<and>
        (\<forall>e<length (elems m :: 'a word list). e \<notin> set es \<longrightarrow> (elems m' :: 'a word list) ! e = elems m ! e)"
proof -
  have var: "for_list es (var_step c m mean) 0 =
      for_list (vs es) (\<lambda>v variance. do { d \<leftarrow> int_c (sint v - mean); int_c (variance + (d XOR 2)) }) 0" for mean
    unfolding vs_def var_step_def by (rule packed.read_loop [OF A es(2)])
  have row: "norm_row c idim es s m = addnorm_stat idim (vs es) \<bind> (\<lambda>(mean, sd). for_list es (norm_step c mean sd) m)"
    unfolding norm_row_def addnorm_stat_def s var by (simp split: Option.bind_split)
  show ?thesis
  proof (cases "addnorm_stat idim (vs es)")
    case None
    then show ?thesis by (simp add: row norm_values_def)
  next
    case (Some p)
    obtain mean sd where p: "p = (mean, sd)" by (cases p)
    have "norm_values c idim (vs es) = those (map (\<lambda>e. norm_value c mean sd (elems m ! e)) es)"
      unfolding norm_values_def Some p by (simp add: vs_def comp_def)
    moreover have "norm_row c idim es s m = for_list es (\<lambda>e m. do { v \<leftarrow> rd_elem m e; w \<leftarrow> norm_value c mean sd v; wr_elem m e w }) m"
      by (simp add: row Some p norm_step_def [abs_def])
    ultimately show ?thesis using packed.update_loop_checked [OF A es, of "\<lambda>_. norm_value c mean sd"] by (simp only:)
  qed
qed

subsection \<open>The two layouts\<close>

lemma those_map_Some: "those (map f es) = Some ws \<longleftrightarrow> map f es = map Some ws"
proof (induction es arbitrary: ws)
  case (Cons e es)
  then show ?case by (cases ws) (auto split: option.split)
qed auto

lemma those_None: "those xs = None \<longleftrightarrow> None \<in> set xs"
  by (induction xs) (auto split: option.split)

lemma map2_map: "map2 f (map g es) (map h es) = map (\<lambda>e. f (g e) (h e)) es"
  by (induction es) simp_all

text \<open>What either version returns: nothing if some row is undefined, otherwise the normalised rows.\<close>

definition normalised ::
  "('a::len, 'w::len) sa_cfg \<Rightarrow> nat \<Rightarrow> nat \<Rightarrow> (nat \<Rightarrow> nat list) \<Rightarrow> 32 word list \<Rightarrow> 32 word list \<Rightarrow> 32 word list option \<Rightarrow> bool" where
  "normalised c idim n R inp out r \<longleftrightarrow> (let row = (\<lambda>i. addnorm_row c idim (map ((!) (elems out)) (R i)) (map ((!) (elems inp)) (R i))) in
     case r of None \<Rightarrow> \<exists>i<n. row i = None
     | Some ys \<Rightarrow> length ys = length out \<and> (\<forall>i<n. row i = Some (map ((!) (elems ys)) (R i))))"

lemma addnorm_compute_rows:
  fixes c :: "('a::len, 'w::len) sa_cfg"
  assumes "tensor_ok c n d out" "length inp = length out"
  shows "normalised c d n (plain_row d) inp out (addnorm_compute c (AddNormalize n d K mc) inp out)"
proof -
  note ok = tensor_okD [OF assms(1)]
  let ?R = "plain_row d" and ?x = "\<lambda>e. (elems inp :: 'a word list) ! e" and ?o = "elems out :: 'a word list"
  let ?body = "\<lambda>i output. do {
      (output, sum) \<leftarrow> for_list (?R i) (add_step c inp) (output, 0);
      norm_row c d (?R i) sum output }"
  let ?F = "\<lambda>i. addnorm_row c d (map ((!) ?o) (?R i)) (map ?x (?R i))"
  have run: "addnorm_compute c (AddNormalize n d K mc) inp = for_list [0..<n] ?body"
    unfolding addnorm_compute_def AddNormalize_def norm_row_def Let_def by (simp add: for_list_plain_row [OF ok(3)])
  have "case for_list [0..<n] ?body out of None \<Rightarrow> \<exists>i<n. ?F i = None
    | Some m' \<Rightarrow> length (elems m' :: 'a word list) = length ?o \<and> (\<forall>i<n. ?F i = Some (map ((!) (elems m')) (?R i)))"
  proof (rule packed.rows_checked [OF ok(10)])
    fix i m1 assume i: "i < n" and m1: "length (elems m1 :: 'a word list) = length ?o" "\<forall>x \<in> set (?R i). (elems m1 :: 'a word list) ! x = ?o ! x"
    note R = row_partitionD(1,2) [OF ok(10) i]
    have sub: "set (?R i) \<subseteq> {..<length (elems m1 :: 'a word list)}" unfolding m1(1) by (rule R(2))
    have read: "rd_elem inp e = Some (?x e)" if "e \<in> set (?R i)" for e
      using that R(2) by (auto simp: packed.get_view [OF ok(4)] rd_def assms(2))
    have add: "for_list (?R i) (add_step c inp) st = for_list (?R i) (\<lambda>e (m, a). do {
        v \<leftarrow> rd_elem m e; w \<leftarrow> add_value v (?x e); m \<leftarrow> wr_elem m e w; a \<leftarrow> int_c (a + sint w); Some (m, a) }) st" for st
      by (rule for_list_cong) (simp add: add_step_def read split: prod.split)
    let ?ws = "those (map (\<lambda>e. add_value ((elems m1 :: 'a word list) ! e) (?x e)) (?R i))"
    have F: "?F i = ?ws \<bind> norm_values c d"
      unfolding addnorm_row_def map2_map using m1(2) by (simp cong: map_cong)
    note pass = packed.pass_loop_checked [OF ok(4) R(1) sub, of "\<lambda>e v. add_value v (?x e)" "\<lambda>w a. int_c (a + sint w)" 0]
    show "case ?F i of None \<Rightarrow> ?body i m1 = None
      | Some ws \<Rightarrow> \<exists>m2. ?body i m1 = Some m2 \<and> length (elems m2 :: 'a word list) = length ?o \<and> map ((!) (elems m2)) (?R i) = ws \<and>
          (\<forall>e<length ?o. e \<notin> set (?R i) \<longrightarrow> (elems m2 :: 'a word list) ! e = elems m1 ! e)"
    proof (cases "do { ws \<leftarrow> ?ws; b \<leftarrow> for_list ws (\<lambda>w a. int_c (a + sint w)) 0; Some (ws, b) }")
      case None
      then have "?F i = None"
        unfolding F by (cases ?ws) (auto simp: norm_values_def addnorm_stat_def split: Option.bind_splits)
      then show ?thesis using pass None by (simp add: add)
    next
      case (Some p)
      obtain ws b where p: "p = (ws, b)" by (cases p)
      from pass [unfolded Some p] obtain m2 where m2:
        "for_list (?R i) (add_step c inp) (m1, 0) = Some (m2, b)" "length (elems m2 :: 'a word list) = length (elems m1 :: 'a word list)"
        "map ((!) (elems m2)) (?R i) = ws" "\<forall>e<length (elems m1 :: 'a word list). e \<notin> set (?R i) \<longrightarrow> (elems m2 :: 'a word list) ! e = elems m1 ! e"
        unfolding option.case prod.case add by (elim exE conjE)
      from Some p have ws: "?ws = Some ws" "for_list ws (\<lambda>w a. int_c (a + sint w)) 0 = Some b" by (auto split: Option.bind_splits)
      have sub2: "set (?R i) \<subseteq> {..<length (elems m2 :: 'a word list)}" unfolding m2(2) by (rule sub)
      have body: "?body i m1 = norm_row c d (?R i) b m2" by (simp add: m2(1))
      from norm_row_run [OF ok(4) R(1) sub2, of b c d, unfolded m2(3), OF ws(2)]
      show ?thesis unfolding F ws(1) body m1(1) [symmetric] using m2(2,4)
        by (cases "norm_values c d ws") (simp_all del: length_elems, blast?)
    qed
  qed
  then show ?thesis unfolding run normalised_def Let_def using ok(8) by (auto split: option.splits)
qed

lemma blocked_rows_cover:
  assumes "cfg_ok c" "kernel_dim c dvd d" "e < n * d"
  shows "\<exists>i<n. e \<in> set (blocked_row c n d i)"
proof -
  let ?K = "kernel_dim c"
  have "e < d div ?K * n * ?K" using assms(2,3) by (simp add: mult.commute mult.left_commute)
  then obtain q k where q: "q < d div ?K * n" "k < ?K" "e = mem2d ?K q k" by (rule mem2d_exhaust)
  from q(1) obtain j i where "j < d div ?K" "i < n" "q = mem2d n j i" by (rule mem2d_exhaust)
  with q(2,3) show ?thesis unfolding blocked_row_def set_row_elems by blast
qed

lemma addnorm_computeRearranged_rows:
  fixes c :: "('a::len, 'w::len) sa_cfg"
  assumes "tensor_ok c n d out" "length inp = length out"
  shows "normalised c d n (blocked_row c n d) inp out (addnorm_computeRearranged c (AddNormalize n d (kernel_dim c) mc) inp out)"
proof -
  note ok = tensor_okD [OF assms(1)]
  let ?R = "blocked_row c n d" and ?x = "\<lambda>e. (elems inp :: 'a word list) ! e" and ?o = "elems out :: 'a word list"
  let ?F = "\<lambda>i. addnorm_row c d (map ((!) ?o) (?R i)) (map ?x (?R i))"
  let ?body = "\<lambda>i output. do {
    sum \<leftarrow> for_list (?R i) (\<lambda>e sum. do { v \<leftarrow> rd_elem output e; int_c (sum + sint (v :: 'a word)) }) 0;
    norm_row c d (?R i) sum output }"
  let ?add = "for_list [0..<n * d] (\<lambda>e output. do { y \<leftarrow> rd_elem output e; x \<leftarrow> rd_elem inp e; v \<leftarrow> add_value y (x :: 'a word); wr_elem output e v }) out"
  have run: "addnorm_computeRearranged c (AddNormalize n d (kernel_dim c) mc) inp out = ?add \<bind> for_list [0..<n] ?body"
    unfolding addnorm_computeRearranged_def AddNormalize_def norm_row_def Let_def
    by (simp add: blocked_row_def for_list_row_elems
        for_list_row_elems [where f = "\<lambda>e sum. rd_elem _ e \<bind> (\<lambda>v. int_c (sum + sint (v :: 'a word)))"])
  have add: "?add = for_list [0..<n * d] (\<lambda>e m. do { v \<leftarrow> rd_elem m e; w \<leftarrow> add_value v (?x e); wr_elem m e w }) out"
    using ok(5) assms(2) by (intro for_list_cong) (auto simp: packed.get_view [OF ok(4)] rd_def)
  have all: "set [0..<n * d] \<subseteq> {..<length ?o}" unfolding ok(5) by auto
  note pass = packed.update_loop_checked [OF ok(4) distinct_upt all, of "\<lambda>e v. add_value v (?x e)", folded add]
  let ?ws = "\<lambda>es. those (map (\<lambda>e. add_value (?o ! e) (?x e)) es)"
  have F: "?F i = ?ws (?R i) \<bind> norm_values c d" for i unfolding addnorm_row_def map2_map ..
  show ?thesis
  proof (cases "?ws [0..<n * d]")
    case None
    then obtain e where e: "e < n * d" "add_value (?o ! e) (?x e) = None" by (auto simp: those_None)
    obtain i where "i < n" "e \<in> set (?R i)" using blocked_rows_cover [OF ok(1,2) e(1)] by blast
    with e(2) have "?ws (?R i) = None" by (force simp: those_None)
    with \<open>i < n\<close> have "\<exists>i<n. ?F i = None" unfolding F by auto
    moreover have "?add = None" using pass None by simp
    ultimately show ?thesis unfolding run normalised_def Let_def by simp
  next
    case (Some ws)
    with pass obtain m where m: "?add = Some m" "length (elems m :: 'a word list) = length ?o" "map ((!) (elems m)) [0..<n * d] = ws" by auto
    have vals: "?ws (?R i) = Some (map ((!) (elems m)) (?R i))" if "i < n" for i
    proof -
      have "add_value (?o ! e) (?x e) = Some (elems m ! e)" if "e < n * d" for e
        using Some [unfolded those_map_Some m(3) [symmetric]] that by simp
      then show ?thesis using row_partitionD(2) [OF ok(9) that] unfolding ok(5) those_map_Some by auto
    qed
    have part: "row_partition (length (elems m :: 'a word list)) n ?R" unfolding m(2) by (rule ok(9))
    have "case for_list [0..<n] ?body m of None \<Rightarrow> \<exists>i<n. ?F i = None
      | Some m' \<Rightarrow> length (elems m' :: 'a word list) = length (elems m :: 'a word list) \<and> (\<forall>i<n. ?F i = Some (map ((!) (elems m')) (?R i)))"
    proof (rule packed.rows_checked [OF part])
      fix i m1 assume i: "i < n" and m1: "length (elems m1 :: 'a word list) = length (elems m :: 'a word list)"
        "\<forall>x \<in> set (?R i). (elems m1 :: 'a word list) ! x = elems m ! x"
      have sub: "set (?R i) \<subseteq> {..<length (elems m1 :: 'a word list)}" using row_partitionD(2) [OF part i] unfolding m1(1) .
      have vs: "map ((!) (elems m1 :: 'a word list)) (?R i) = map ((!) (elems m)) (?R i)" using m1(2) by simp
      let ?sum = "for_list (map ((!) (elems m :: 'a word list)) (?R i)) (\<lambda>v sum. int_c (sum + sint v)) 0"
      have body: "?body i m1 = ?sum \<bind> (\<lambda>s. norm_row c d (?R i) s m1)"
        using packed.read_loop [OF ok(4) sub, of "\<lambda>v sum. int_c (sum + sint v)" 0] by (simp add: vs)
      show "case ?F i of None \<Rightarrow> ?body i m1 = None
        | Some ws \<Rightarrow> \<exists>m2. ?body i m1 = Some m2 \<and> length (elems m2 :: 'a word list) = length (elems m :: 'a word list) \<and> map ((!) (elems m2)) (?R i) = ws \<and>
            (\<forall>e<length (elems m :: 'a word list). e \<notin> set (?R i) \<longrightarrow> (elems m2 :: 'a word list) ! e = elems m1 ! e)"
      proof (cases ?sum)
        case None
        then show ?thesis unfolding F vals [OF i] body by (simp add: norm_values_def addnorm_stat_def)
      next
        case (Some s)
        from norm_row_run [OF ok(4) row_partitionD(1) [OF part i] sub, of s c d, unfolded vs, OF Some]
        show ?thesis unfolding F vals [OF i] body Some m1(1) bind.bind_lunit .
      qed
    qed
    then show ?thesis unfolding run normalised_def Let_def m(1) m(2) using ok(8) by (auto split: option.splits)
  qed
qed

subsection \<open>On activations\<close>

text \<open>The activations of a row in the order of memory, in which the lanes of a bus word are mirrored.\<close>

definition read_row :: "('a::len, 'w::len) sa_cfg \<Rightarrow> nat \<Rightarrow> (nat \<Rightarrow> 'a word) \<Rightarrow> 'a word list" where
  "read_row c d x = map (\<lambda>p. x (mirror (ACT_PER_BUS c) p)) [0..<d]"

lemma blocked_read_row:
  fixes c :: "('a::len, 'w::len) sa_cfg"
  assumes "tensor_ok c n d xs" "t < n"
  shows "map ((!) (elems xs)) (blocked_row c n d t) = read_row c d (act_at c n xs t)"
proof -
  note ok = tensor_okD [OF assms(1)]
  have A: "0 < ACT_PER_BUS c" using ok(1) by (simp add: cfg_okD)
  have "act_at c n xs t (mirror (ACT_PER_BUS c) p) = elems xs ! row_elem (kernel_dim c) n t (p div kernel_dim c) (p mod kernel_dim c)"
    if "p < d" for p
    using blocked_act(1) [OF assms mirror_less [OF ok(3) A that]] by (simp add: act_pos_blocked [OF ok(1)] mirror_mirror [OF A])
  then show ?thesis by (simp add: read_row_def blocked_row_map [OF ok(2)])
qed

lemma nth_read_row:
  assumes "cfg_ok c" "ACT_PER_BUS c dvd d" "j < d"
  shows "read_row c d x ! mirror (ACT_PER_BUS c) j = x j"
proof -
  have A: "0 < ACT_PER_BUS c" using assms(1) by (simp add: cfg_okD)
  show ?thesis using mirror_less [OF assms(2) A assms(3)] by (simp add: read_row_def mirror_mirror [OF A])
qed

lemma addnorm_blocked:
  fixes c :: "('a::len, 'w::len) sa_cfg"
  assumes "tensor_ok c n d out" "length inp = length out"
  shows "case addnorm_computeRearranged c (AddNormalize n d (kernel_dim c) mc) inp out of
      None \<Rightarrow> \<exists>t<n. addnorm_row c d (read_row c d (act_at c n out t)) (read_row c d (act_at c n inp t)) = None
    | Some ys \<Rightarrow> length ys = length out \<and> (\<forall>t. t < n \<longrightarrow>
        addnorm_row c d (read_row c d (act_at c n out t)) (read_row c d (act_at c n inp t)) = Some (read_row c d (act_at c n ys t)))"
proof -
  have inp: "tensor_ok c n d inp" by (rule tensor_ok_length [OF assms])
  have "map ((!) (elems ys)) (blocked_row c n d t) = read_row c d (act_at c n ys t)" if "length ys = length out" "t < n" for ys t
    by (rule blocked_read_row [OF tensor_ok_length [OF assms(1) that(1)] that(2)])
  with addnorm_computeRearranged_rows [OF assms, of mc] show ?thesis
    by (auto simp: normalised_def blocked_read_row [OF assms(1)] blocked_read_row [OF inp] split: option.splits)
qed

subsection \<open>Mean, variance and factor\<close>

text \<open>The mean is a quotient of unsigned 64-bit numbers, of which the low 32 bits are kept.\<close>

lemma int_mean_eq:
  assumes "0 < d" "d < 2 ^ 64"
  shows "int_mean s d = Some (signed_take_bit 31 (s mod 2 ^ 64 div int d))"
proof -
  have d: "uint (word_of_nat d :: 64 word) = int d" using assms(2) by (simp add: unsigned_of_nat take_bit_nat_eq_self flip: uint_nat)
  have "(word_of_nat d :: 64 word) \<noteq> 0" using d assms(1) by (metis of_nat_0_less_iff uint_0_eq less_irrefl)
  moreover have "(ucast ((word_of_int s :: 64 word) div word_of_nat d) :: 32 word) = word_of_int (s mod 2 ^ 64 div int d)"
    by (simp add: ucast_eq uint_div_distrib d uint_word_of_int)
  ultimately show ?thesis by (simp add: int_mean_def signed_of_int)
qed

text \<open>For a power of two this is the floor of the mean.\<close>

lemma signed_small: "- (2 ^ 31) \<le> (v :: int) \<Longrightarrow> v < 2 ^ 31 \<Longrightarrow> signed_take_bit 31 v = v"
  by (simp add: signed_take_bit_int_eq_self)

lemma div_small:
  assumes "- (2 ^ 31) \<le> (s :: int)" "s < 2 ^ 31" "0 < d"
  shows "- (2 ^ 31) \<le> s div d" "s div d < 2 ^ 31"
proof -
  have "s div d \<le> (2 ^ 31 - 1) div d" using assms by (intro zdiv_mono1) simp_all
  also have "\<dots> \<le> (2 ^ 31 - 1) div 1" using assms(3) by (intro zdiv_mono2) simp_all
  finally show "s div d < 2 ^ 31" by simp
  have "- (2 ^ 31) \<le> - (2 ^ 31) div d"
  proof -
    have "- (2 ^ 31) * d \<le> - (2 ^ 31)" using assms(3) by simp
    then have "- (2 ^ 31) * d div d \<le> - (2 ^ 31) div d" using assms(3) by (intro zdiv_mono1) simp_all
    moreover have "- (2 ^ 31) * d div d = - (2 ^ 31)" using assms(3) by (intro nonzero_mult_div_cancel_right) simp
    ultimately show ?thesis by (simp only:)
  qed
  also have "\<dots> \<le> s div d" using assms by (intro zdiv_mono1) simp_all
  finally show "- (2 ^ 31) \<le> s div d" .
qed

lemma int_mean_pow2:
  assumes "k \<le> 31" "- (2 ^ 31) \<le> s" "s < 2 ^ 31"
  shows "int_mean s (2 ^ k) = Some (s div 2 ^ k)"
proof -
  have "(2 :: nat) ^ k \<le> 2 ^ 31" using assms(1) by (intro power_increasing) simp_all
  then have "(2 :: nat) ^ k < 2 ^ 64" by simp
  note mean = int_mean_eq [OF _ this, of s]
  have "signed_take_bit 31 (drop_bit k (take_bit 64 s)) = signed_take_bit 31 (drop_bit k s)"
    using assms(1) by (intro bit_eqI) (auto simp: bit_simps min_def)
  then have "signed_take_bit 31 (s mod 2 ^ 64 div 2 ^ k) = signed_take_bit 31 (s div 2 ^ k)"
    by (simp only: drop_bit_eq_div take_bit_eq_mod)
  with mean show ?thesis using signed_small [OF div_small [OF assms(2,3)]] by simp
qed

lemma int_mean_nonneg:
  assumes "0 < d" "d < 2 ^ 64" "0 \<le> s" "s < 2 ^ 31"
  shows "int_mean s d = Some (s div int d)"
proof -
  have "- (2 ^ 31) \<le> s" by (rule order_trans [OF _ assms(3)]) simp
  then show ?thesis
    using int_mean_eq [OF assms(1,2), of s] assms signed_small [OF div_small [of s "int d"]] by (simp add: mod_pos_pos_trivial)
qed

text \<open>For a negative sum the quotient of \<open>2 ^ 64 + s\<close> is taken. Unless the divisor divides \<open>2 ^ 32\<close>, its low 32 bits are further
  than one from the quotient of \<open>s\<close>. The argument holds for every modulus \<open>N\<close> in place of \<open>2 ^ 32\<close>.\<close>

lemma wrapped_quotient:
  fixes N d u :: int
  assumes "0 < d" "2 * d \<le> N" "\<not> d dvd N" "f = (- u) div d" "e \<in> {0, 1}"
  shows "\<not> N dvd (N * N - u) div d - (f + e)"
proof -
  define r where "r = N mod d"
  define B where "B = N * r div d"
  define x where "x = (N * r mod d - u) div d"
  have "0 \<le> r" "r < d" "r \<noteq> 0" unfolding r_def using assms(1,3) by (simp_all add: dvd_eq_mod_eq_0)
  then have r: "1 \<le> r" "r \<le> d - 1" by linarith+
  have "N * N - u = (N * (N div d) + B) * d + (N * r mod d - u)"
  proof -
    have "N * N = N * (N div d * d + r)" by (simp add: r_def)
    also have "\<dots> = N * (N div d) * d + (B * d + N * r mod d)" by (simp add: B_def algebra_simps)
    finally show ?thesis by (simp add: algebra_simps)
  qed
  then have q: "(N * N - u) div d = N * (N div d) + B + x" unfolding x_def using assms(1) by (simp only: div_mult_self3)
  have "f \<le> x" unfolding assms(4) x_def using assms(1) by (intro zdiv_mono1) simp_all
  moreover have "x \<le> f + 1"
  proof -
    have "x \<le> (- u + 1 * d) div d" unfolding x_def using assms(1) pos_mod_bound [OF assms(1), of "N * r"] by (intro zdiv_mono1) (simp_all add: less_imp_le)
    also have "\<dots> = f + 1" unfolding assms(4) using assms(1) by (subst div_mult_self1) simp_all
    finally show ?thesis .
  qed
  ultimately have xf: "- 1 \<le> x - (f + e)" "x - (f + e) \<le> 1" using assms(5) by auto
  have N: "0 < N" using assms(1,2) by simp
  have "N * 1 \<le> N * r" using N by (intro mult_left_mono [OF r(1)]) simp
  then have "2 * d \<le> N * r" using assms(2) by linarith
  then have "2 * d div d \<le> B" unfolding B_def using assms(1) by (intro zdiv_mono1)
  then have B1: "2 \<le> B" using assms(1) by simp
  have "N * r \<le> N * (d - 1)" using N by (intro mult_left_mono [OF r(2)]) simp
  also have "\<dots> \<le> (N - 2) * d" using assms(2) by (simp add: algebra_simps)
  finally have "B \<le> (N - 2) * d div d" unfolding B_def using assms(1) by (intro zdiv_mono1)
  then have B2: "B \<le> N - 2" using assms(1) by simp
  have e: "(N * N - u) div d - (f + e) = N * (N div d) + (B + (x - (f + e)))" unfolding q by simp
  have "\<not> N dvd B + (x - (f + e))" using B1 B2 xf by (intro zdvd_not_zless) linarith+
  then show ?thesis unfolding e by (simp add: dvd_add_right_iff)
qed

lemma int_mean_negative:
  assumes "0 < d" "d \<le> 2 ^ 31" "\<not> int d dvd 2 ^ 32" "- (2 ^ 31) \<le> s" "s < 0"
    and "int_mean s d = Some m" "e \<in> {0, 1}"
  shows "m \<noteq> s div int d + e"
proof
  assume m: "m = s div int d + e"
  have d: "d < 2 ^ 64" using assms(2) by simp
  have s: "s mod 2 ^ 64 = 2 ^ 32 * 2 ^ 32 - - s"
  proof -
    have "s mod 2 ^ 64 = (s + 2 ^ 64) mod 2 ^ 64" by simp
    also have "\<dots> = s + 2 ^ 64" using assms(4,5) by (intro mod_pos_pos_trivial) simp_all
    finally show ?thesis by simp
  qed
  let ?q = "(2 ^ 32 * 2 ^ 32 - - s) div int d"
  have "\<not> 2 ^ 32 dvd ?q - (s div int d + e)"
    using assms(1-3,7) by (intro wrapped_quotient) simp_all
  moreover have "signed_take_bit 31 ?q = s div int d + e"
    using assms(6) unfolding m int_mean_eq [OF assms(1) d] s by simp
  moreover have "take_bit 32 (signed_take_bit 31 ?q) = take_bit 32 ?q" by (rule take_bit_signed_take_bit) simp
  ultimately show False by (simp only: take_bit_eq_mod) (metis mod_eq_dvd_iff)
qed

lemma dvd_pow2: "(d :: nat) dvd 2 ^ n \<Longrightarrow> \<exists>k. d = 2 ^ k"
proof (induction n arbitrary: d)
  case 0
  then show ?case by (intro exI [of _ 0]) simp
next
  case (Suc n)
  show ?case
  proof (cases "even d")
    case True
    then obtain d' where "d = 2 * d'" by (elim evenE)
    with Suc show ?thesis by (metis dvd_times_left_cancel_iff power_Suc zero_less_numeral not_gr_zero)
  next
    case False
    then have "coprime d 2" by simp
    then have "d dvd 2 ^ n" using Suc.prems by (simp add: coprime_dvd_mult_right_iff)
    then show ?thesis by (rule Suc.IH)
  qed
qed

lemma int_mean_correct:
  assumes "0 < d" "d \<le> 2 ^ 31" "- (2 ^ 31) \<le> s" "s < 2 ^ 31"
  shows "\<exists>m. int_mean s d = Some m \<and> (m = s div int d \<longleftrightarrow> 0 \<le> s \<or> (\<exists>k. d = 2 ^ k)) \<and>
    (m = s sdiv int d \<longleftrightarrow> 0 \<le> s \<or> (\<exists>k. d = 2 ^ k) \<and> int d dvd s)"
proof (cases "0 \<le> s")
  case True
  then have "s sdiv int d = s div int d" using assms(1) by (cases "s = 0") (simp_all add: signed_divide_int_def)
  then show ?thesis using True int_mean_nonneg [OF assms(1) _ True assms(4)] assms(2) by simp
next
  case False
  have d: "0 < int d" using assms(1) by simp
  have neg: "s sdiv int d = - (- s div int d)" using False d by (simp add: signed_divide_int_def)
  obtain e where e: "e \<in> {0, 1}" "s sdiv int d = s div int d + e" "e = 0 \<longleftrightarrow> int d dvd s"
    using zdiv_zminus1_eq_if [of "int d" s] d by (cases "s mod int d = 0") (auto simp: neg dvd_eq_mod_eq_0)
  show ?thesis
  proof (cases "\<exists>k. d = 2 ^ k")
    case True
    then obtain k where k: "d = 2 ^ k" by blast
    have "k \<le> 31" using assms(2) unfolding k by (simp only: power_increasing_iff)
    then have "int_mean s d = Some (s div int d)" using int_mean_pow2 [OF _ assms(3,4)] by (simp add: k)
    then show ?thesis using True False e by auto
  next
    case pow: False
    have "\<not> int d dvd 2 ^ 32"
    proof
      assume "int d dvd 2 ^ 32"
      then have "d dvd 2 ^ 32" by (metis int_dvd_int_iff of_nat_numeral of_nat_power)
      then show False using pow dvd_pow2 by blast
    qed
    note wrong = int_mean_negative [OF assms(1,2) this assms(3)]
    have "d < 2 ^ 64" using assms(2) by simp
    from int_mean_eq [OF assms(1) this, of s] obtain m where m: "int_mean s d = Some m" by blast
    with wrong [OF _ m, of 0] wrong [OF _ m, of e] e False pow show ?thesis by auto
  qed
qed

text \<open>The factor is the truncated quotient of the source over the reals.\<close>

lemma factor_floor:
  assumes "0 \<le> (r :: int)"
  shows "int (length (filter (\<lambda>k. k * k * r \<le> (4 - k) * (4 - k)) [1, 2, 3, 4])) = \<lfloor>4 / (sqrt (real_of_int r) + 1)\<rfloor>"
proof -
  let ?v = "real_of_int r"
  have pos: "0 < sqrt ?v + 1" using assms by (intro add_nonneg_pos) simp_all
  have le: "real_of_int k \<le> 4 / (sqrt ?v + 1) \<longleftrightarrow> k * k * r \<le> (4 - k) * (4 - k)" if k: "0 \<le> k" "k \<le> 4" for k
  proof -
    have "real_of_int k \<le> 4 / (sqrt ?v + 1) \<longleftrightarrow> k * sqrt ?v \<le> 4 - k"
      using pos by (simp add: pos_le_divide_eq algebra_simps)
    also have "\<dots> \<longleftrightarrow> sqrt (k * k * ?v) \<le> sqrt ((4 - k) * (4 - k))" using k by (simp add: real_sqrt_mult)
    also have "\<dots> \<longleftrightarrow> k * k * ?v \<le> (4 - k) * (4 - k)" by (rule real_sqrt_le_iff)
    also have "\<dots> \<longleftrightarrow> k * k * r \<le> (4 - k) * (4 - k)" by (subst of_int_le_iff [where 'a = real, symmetric]) simp
    finally show ?thesis .
  qed
  define q where "q = \<lfloor>4 / (sqrt ?v + 1)\<rfloor>"
  have "0 \<le> 4 / (sqrt ?v + 1)" "4 / (sqrt ?v + 1) \<le> 4" using pos assms by (simp_all add: pos_divide_le_eq)
  then have "0 \<le> q" "q \<le> 4" unfolding q_def by linarith+
  then have q: "q \<in> {0, 1, 2, 3, 4}" by auto
  have "filter (\<lambda>k. k * k * r \<le> (4 - k) * (4 - k)) [1, 2, 3, 4] = filter (\<lambda>k. k \<le> q) [1, 2, 3, 4]"
  proof (rule filter_cong [OF refl])
    fix k :: int assume "k \<in> set [1, 2, 3, 4]"
    then have "0 \<le> k" "k \<le> 4" by auto
    then show "k * k * r \<le> (4 - k) * (4 - k) \<longleftrightarrow> k \<le> q" by (simp only: q_def le_floor_iff le)
  qed
  then have "int (length (filter (\<lambda>k. k * k * r \<le> (4 - k) * (4 - k)) [1, 2, 3, 4])) = q" using q by auto
  then show ?thesis by (simp only: q_def)
qed

lemma sd_inv_floor:
  assumes "0 \<le> v"
  shows "sd_inv v = Some \<lfloor>4 / (sqrt (real_of_int v) + 1)\<rfloor>"
  unfolding factor_floor [OF assms, symmetric] sd_inv_def using assms by (intro if_not_P) simp

lemma sd_inv_values:
  "v < 0 \<Longrightarrow> sd_inv v = None" "v = 0 \<Longrightarrow> sd_inv v = Some 4" "v = 1 \<Longrightarrow> sd_inv v = Some 2"
  "2 \<le> v \<Longrightarrow> v \<le> 9 \<Longrightarrow> sd_inv v = Some 1" "10 \<le> v \<Longrightarrow> sd_inv v = Some 0"
  by (simp_all add: sd_inv_def)

text \<open>Sums of small values do not overflow.\<close>

lemma sum_loop_small:
  assumes "\<And>v. v \<in> set vs \<Longrightarrow> \<bar>g v\<bar> \<le> B" "0 \<le> B" "\<bar>s\<bar> + int (length vs) * B < 2 ^ 31"
  shows "for_list vs (\<lambda>v s. int_c (s + g v)) s = Some (s + (\<Sum>v \<leftarrow> vs. g v))"
  using assms
proof (induction vs arbitrary: s)
  case (Cons v vs)
  have v: "\<bar>s + g v\<bar> \<le> \<bar>s\<bar> + B" using Cons.prems(1) [of v] by simp
  have n: "\<bar>s\<bar> + int (length (v # vs)) * B = \<bar>s\<bar> + B + int (length vs) * B" by (simp add: algebra_simps)
  have "\<bar>s + g v\<bar> + int (length vs) * B < 2 ^ 31" using v Cons.prems(3) unfolding n by linarith
  moreover from this have "\<bar>s + g v\<bar> < 2 ^ 31" using Cons.prems(2) mult_nonneg_nonneg [of "int (length vs)" B] by linarith
  ultimately show ?case using Cons by (simp add: int_c_small add.assoc)
qed simp

text \<open>The exclusive or moves a difference by at most two, so the sum that is called variance measures only the rounding
  of the mean: divided by the number of columns it lies between -2 and 2, whatever the spread of the row.\<close>

lemma xor_two: "(x :: int) XOR 2 = (if bit x 1 then x - 2 else x + 2)"
proof -
  have "x XOR 2 = flip_bit 1 x" by (simp add: flip_bit_eq_xor)
  then show ?thesis by (simp add: flip_bit_eq_if unset_bit_eq set_bit_eq)
qed

lemma sdiv_range:
  assumes "0 < (n :: int)" "- 2 * n \<le> w" "w < 3 * n"
  shows "w sdiv n \<in> {-2..2}"
proof (cases "0 \<le> w")
  case True
  then have "w sdiv n = w div n" using assms(1) by (cases "w = 0") (simp_all add: signed_divide_int_def)
  moreover have "0 \<le> w div n" using True assms(1) by (simp add: pos_imp_zdiv_nonneg_iff)
  moreover have "w div n \<le> (3 * n - 1) div n" using assms by (intro zdiv_mono1) simp_all
  moreover have "(3 * n - 1) div n = 2" using assms(1) by (intro int_div_pos_eq [of _ _ _ "n - 1"]) simp_all
  ultimately show ?thesis by simp
next
  case False
  then have "w sdiv n = - ((- w) div n)" using assms(1) by (simp add: signed_divide_int_def)
  moreover have "0 \<le> (- w) div n" using False assms(1) by (simp add: pos_imp_zdiv_nonneg_iff)
  moreover have "(- w) div n \<le> 2 * n div n" using assms by (intro zdiv_mono1) simp_all
  ultimately show ?thesis using assms(1) by simp
qed

lemma sint_small:
  assumes "LENGTH('a::len) \<le> 16"
  shows "\<bar>sint (v :: 'a word)\<bar> \<le> 2 ^ 15"
proof -
  have "(2 :: int) ^ (LENGTH('a) - 1) \<le> 2 ^ 15" using assms by (intro power_increasing) simp_all
  then show ?thesis using sint_ge [of v] sint_lt [of v] by linarith
qed

definition floor_mean :: "int list \<Rightarrow> int" where
  "floor_mean xs = sum_list xs div int (length xs)"

definition xor_variance :: "int list \<Rightarrow> int" where
  "xor_variance xs = (\<Sum>x \<leftarrow> xs. (x - floor_mean xs) XOR 2) sdiv int (length xs)"

lemma xor_variance_range:
  assumes "xs \<noteq> []"
  shows "xor_variance xs \<in> {-2..2}"
proof -
  let ?n = "int (length xs)" and ?m = "floor_mean xs"
  have n: "0 < ?n" using assms by simp
  have const: "(\<Sum>x \<leftarrow> xs. x - ?m + a) = sum_list xs - ?n * ?m + ?n * a" for a
    using sum_list_addf [of "\<lambda>x. x - ?m" "\<lambda>_. a" xs] sum_list_subtractf [of "\<lambda>x. x" "\<lambda>_. ?m" xs] by (simp add: sum_list_triv)
  have "sum_list xs - ?n * ?m = sum_list xs mod ?n" unfolding floor_mean_def by (simp add: minus_mult_div_eq_mod)
  then have rest: "0 \<le> sum_list xs - ?n * ?m" "sum_list xs - ?n * ?m < ?n" using n by simp_all
  have "(\<Sum>x \<leftarrow> xs. x - ?m + - 2) \<le> (\<Sum>x \<leftarrow> xs. (x - ?m) XOR 2)" "(\<Sum>x \<leftarrow> xs. (x - ?m) XOR 2) \<le> (\<Sum>x \<leftarrow> xs. x - ?m + 2)"
    by (intro sum_list_mono; simp add: xor_two)+
  then show ?thesis unfolding xor_variance_def const using rest n by (intro sdiv_range) linarith+
qed

lemma small_mean:
  assumes "\<And>x. x \<in> set xs \<Longrightarrow> \<bar>x\<bar> \<le> B" "xs \<noteq> []"
  shows "\<bar>floor_mean xs\<bar> \<le> B" "\<bar>sum_list xs\<bar> \<le> int (length xs) * B"
proof -
  have n: "0 < int (length xs)" using assms(2) by simp
  have "\<bar>sum_list xs\<bar> \<le> (\<Sum>x \<leftarrow> xs. \<bar>x\<bar>)" by (induction xs) (simp_all add: abs_triangle_ineq [THEN order_trans])
  also have "\<dots> \<le> (\<Sum>x \<leftarrow> xs. B)" by (intro sum_list_mono) (simp add: assms(1))
  finally show T: "\<bar>sum_list xs\<bar> \<le> int (length xs) * B" by (simp add: sum_list_triv)
  then have "int (length xs) * - B \<le> sum_list xs" "sum_list xs \<le> int (length xs) * B" by (simp_all add: abs_le_iff)
  then have "int (length xs) * - B div int (length xs) \<le> floor_mean xs" "floor_mean xs \<le> int (length xs) * B div int (length xs)"
    unfolding floor_mean_def by (intro zdiv_mono1; use n in simp)+
  moreover have "int (length xs) * a div int (length xs) = a" for a using n by simp
  ultimately show "\<bar>floor_mean xs\<bar> \<le> B" by (simp only: abs_le_iff) simp
qed

text \<open>With up to 16-bit activations and up to \<open>2 ^ 13\<close> columns nothing overflows.\<close>

lemma small_stat:
  fixes vs :: "'a::len word list"
  assumes w: "LENGTH('a) \<le> 16" and n: "length vs = 2 ^ k" "k \<le> 13"
  defines "m \<equiv> floor_mean (map sint vs)" and "r \<equiv> xor_variance (map sint vs)"
  shows "addnorm_stat (2 ^ k) vs = (if r < 0 then None else Some (m, if r = 0 then 4 else if r = 1 then 2 else 1))"
proof -
  let ?x = "\<lambda>v. (sint v - m) XOR 2" and ?n = "2 ^ k :: int"
  have pow: "?n \<le> 2 ^ 13" using n(2) by (intro power_increasing) simp_all
  have ne: "map sint vs \<noteq> []" using n(1) by auto
  have small: "\<bar>x\<bar> \<le> 2 ^ 15" if "x \<in> set (map sint vs)" for x using that sint_small [OF w] by auto
  note mean = small_mean [OF small ne]
  have T: "for_list vs (\<lambda>v sum. int_c (sum + sint v)) 0 = Some (sum_list (map sint vs))"
    using sum_loop_small [of vs sint "2 ^ 15" 0] sint_small [OF w] pow by (simp add: n(1))
  have "\<bar>sum_list (map sint vs)\<bar> < 2 ^ 31" using mean(2) pow by (simp add: n(1))
  then have M: "int_mean (sum_list (map sint vs)) (2 ^ k) = Some m"
    using int_mean_pow2 [of k "sum_list (map sint vs)"] n by (simp add: m_def floor_mean_def abs_less_iff)
  have m: "\<bar>m\<bar> \<le> 2 ^ 15" unfolding m_def by (rule mean(1))
  have dev: "\<bar>sint v - m\<bar> \<le> 2 ^ 16" for v :: "'a word" using sint_small [OF w, of v] m by simp
  have "int_c (sint v - m) = Some (sint v - m)" for v :: "'a word" using dev [of v] by (intro int_c_small) simp
  moreover have "\<bar>?x v\<bar> \<le> 2 ^ 17" for v :: "'a word" using dev [of v] unfolding xor_two by (auto simp: abs_le_iff)
  ultimately have W: "for_list vs (\<lambda>v variance. do { d \<leftarrow> int_c (sint v - m); int_c (variance + (d XOR 2)) }) 0 = Some (\<Sum>v \<leftarrow> vs. ?x v)"
    using sum_loop_small [of vs ?x "2 ^ 17" 0] pow by (simp add: n(1))
  have "sint (word_of_nat (2 ^ k) :: 32 word) = ?n"
  proof -
    have "- (2 ^ 31) \<le> ?n" by (rule order_trans [of _ 0]) simp_all
    moreover have "?n < 2 ^ 31" using pow by simp
    ultimately show ?thesis by (subst signed_of_nat) (simp add: signed_take_bit_int_eq_self)
  qed
  moreover have "(\<Sum>v \<leftarrow> vs. ?x v) sdiv ?n = r" unfolding r_def xor_variance_def m_def [symmetric] by (simp add: n(1) comp_def)
  moreover have r: "r \<in> {-2..2}" unfolding r_def by (rule xor_variance_range [OF ne])
  moreover have "int_c r = Some r" using r by (intro int_c_small) auto
  ultimately have V: "int_variance (\<Sum>v \<leftarrow> vs. ?x v) (2 ^ k) = Some r" by (simp add: int_variance_def)
  have "sd_inv r = (if r < 0 then None else Some (if r = 0 then 4 else if r = 1 then 2 else 1))"
    using r sd_inv_values [of r] by auto
  then show ?thesis unfolding addnorm_stat_def T M W V bind.bind_lunit by simp
qed

lemma small_row:
  fixes ys xs :: "'a::len word list" and c :: "('a, 'w::len) sa_cfg"
  assumes w: "LENGTH('a) \<le> 16" and n: "length ys = 2 ^ k" "length xs = 2 ^ k" "k \<le> 13"
  defines "vs \<equiv> map2 (+) ys xs"
  defines "m \<equiv> floor_mean (map sint vs)" and "r \<equiv> xor_variance (map sint vs)"
  shows "addnorm_row c (2 ^ k) ys xs = (if r < 0 then None else
    Some (map (\<lambda>v. word_of_int ((sint v - m) * (if r = 0 then 4 else if r = 1 then 2 else 1) sdiv int (ACT_PER_BUS c))) vs))"
proof -
  have "add_value y x = Some (y + x)" for y x :: "'a word"
  proof -
    have "\<bar>sint y + sint x\<bar> < 2 ^ 31" using sint_small [OF w, of x] sint_small [OF w, of y] by simp
    then show ?thesis by (simp add: add_value_def int_c_small)
  qed
  then have add: "those (map2 add_value ys xs) = Some vs" by (simp add: vs_def those_map_Some split_def)
  have len: "length vs = 2 ^ k" by (simp add: vs_def n)
  have "\<bar>m\<bar> \<le> 2 ^ 15" unfolding m_def using sint_small [OF w] len by (intro small_mean(1)) auto
  then have dev: "\<bar>sint v - m\<bar> \<le> 2 ^ 16" for v :: "'a word" using sint_small [OF w, of v] by simp
  have norm: "norm_value c m f v = Some (word_of_int ((sint v - m) * f sdiv int (ACT_PER_BUS c)))" if "f \<in> {1, 2, 4}" for f and v :: "'a word"
  proof -
    have "\<bar>(sint v - m) * f\<bar> < 2 ^ 31" "\<bar>sint v - m\<bar> < 2 ^ 31" using dev [of v] that by auto
    then show ?thesis by (simp only: norm_value_def int_c_small bind.bind_lunit)
  qed
  let ?f = "if r = 0 then 4 else if r = 1 then 2 else 1 :: int"
  have "those (map (norm_value c m ?f) vs) = Some (map (\<lambda>v. word_of_int ((sint v - m) * ?f sdiv int (ACT_PER_BUS c))) vs)"
    by (subst those_map_Some) (simp add: norm)
  moreover have "addnorm_stat (2 ^ k) vs = (if r < 0 then None else Some (m, ?f))"
    unfolding m_def r_def by (rule small_stat [OF w len n(3)])
  ultimately show ?thesis by (simp only: addnorm_row_def add bind.bind_lunit norm_values_def) (cases "r < 0"; simp only: if_True if_False prod.case bind.bind_lunit bind.bind_lzero)
qed

lemma read_row_sum:
  assumes "cfg_ok c" "ACT_PER_BUS c dvd d"
  shows "(\<Sum>v \<leftarrow> read_row c d x. g v) = (\<Sum>j \<leftarrow> [0..<d]. g (x j) :: int)"
proof -
  have A: "0 < ACT_PER_BUS c" using assms(1) by (simp add: cfg_okD)
  note less = mirror_less [OF assms(2) A]
  have "(\<Sum>p \<in> {0..<d}. g (x (mirror (ACT_PER_BUS c) p))) = (\<Sum>j \<in> {0..<d}. g (x j))"
    by (rule sum.reindex_bij_witness [of _ "mirror (ACT_PER_BUS c)" "mirror (ACT_PER_BUS c)"]) (simp_all add: less mirror_mirror [OF A])
  then show ?thesis by (simp add: read_row_def comp_def interv_sum_list_conv_sum_set_nat)
qed

lemma read_row_stat:
  assumes "cfg_ok c" "ACT_PER_BUS c dvd d"
  shows "floor_mean (map sint (read_row c d x)) = floor_mean (map (\<lambda>j. sint (x j)) [0..<d])"
    and "xor_variance (map sint (read_row c d x)) = xor_variance (map (\<lambda>j. sint (x j)) [0..<d])"
proof -
  have len: "length (read_row c d x) = d" by (simp add: read_row_def)
  show mean: "floor_mean (map sint (read_row c d x)) = floor_mean (map (\<lambda>j. sint (x j)) [0..<d])"
    unfolding floor_mean_def by (simp add: read_row_sum [OF assms] len)
  show "xor_variance (map sint (read_row c d x)) = xor_variance (map (\<lambda>j. sint (x j)) [0..<d])"
    using read_row_sum [OF assms, of "\<lambda>v. (sint v - floor_mean (map (\<lambda>j. sint (x j)) [0..<d])) XOR 2" x]
    unfolding xor_variance_def mean by (simp add: len comp_def)
qed

text \<open>The values that a row has after the residual addition.\<close>

definition residual_values :: "('a::len, 'w::len) sa_cfg \<Rightarrow> nat \<Rightarrow> nat \<Rightarrow> 32 word list \<Rightarrow> 32 word list \<Rightarrow> nat \<Rightarrow> int list" where
  "residual_values c n d inp out t = map (\<lambda>j. sint (act_at c n out t j + act_at c n inp t j)) [0..<d]"

lemma small_blocked_row:
  fixes c :: "('a::len, 'w::len) sa_cfg" and inp out :: "32 word list"
  assumes "tensor_ok c n (2 ^ k) out" "LENGTH('a) \<le> 16" "k \<le> 13"
  defines "xs t \<equiv> residual_values c n (2 ^ k) inp out t"
  shows "addnorm_row c (2 ^ k) (read_row c (2 ^ k) (act_at c n out t)) (read_row c (2 ^ k) (act_at c n inp t)) =
    (if xor_variance (xs t) < 0 then None else Some (read_row c (2 ^ k) (\<lambda>j. word_of_int
       ((sint (act_at c n out t j + act_at c n inp t j) - floor_mean (xs t)) *
        (if xor_variance (xs t) = 0 then 4 else if xor_variance (xs t) = 1 then 2 else 1) sdiv int (ACT_PER_BUS c)))))"
proof -
  note ok = tensor_okD [OF assms(1)]
  let ?z = "\<lambda>j. act_at c n out t j + act_at c n inp t j"
  have add: "map2 (+) (read_row c (2 ^ k) (act_at c n out t)) (read_row c (2 ^ k) (act_at c n inp t)) = read_row c (2 ^ k) ?z"
    by (simp add: read_row_def map2_map)
  note stat = read_row_stat [OF ok(1,3), of ?z, folded residual_values_def]
  have "length (read_row c (2 ^ k) (act_at c n o' t)) = 2 ^ k" for o' by (simp add: read_row_def)
  from small_row [OF assms(2) this this assms(3), of c out inp, unfolded add stat] show ?thesis
    by (simp add: xs_def read_row_def comp_def)
qed

subsection \<open>The floating-point versions\<close>

text \<open>Mean of a list of values, and the scaling of one value by a mean and by the variance of a list.\<close>

definition fp_row_mean :: "fp_ops \<Rightarrow> nat \<Rightarrow> 32 word list \<Rightarrow> 32 word" where
  "fp_row_mean fp d vs = fp_mean fp (fold (\<lambda>v s. fp_add fp s v) vs 0) d"

definition fp_row_norm :: "fp_ops \<Rightarrow> (32, 'w::len) sa_cfg \<Rightarrow> nat \<Rightarrow> 32 word \<Rightarrow> 32 word list \<Rightarrow> 32 word \<Rightarrow> 32 word" where
  "fp_row_norm fp c d mean vs v = (let
     variance = fold (\<lambda>v a. dp_to_fp fp (dp_add fp (fp_to_dp fp a) (dp_square fp (fp_to_dp fp (fp_sub fp v mean))))) vs 0;
     sd = fp_sd_inv fp variance d
   in dp_to_fp fp (dp_div fp (dp_mul fp (fp_to_dp fp (fp_sub fp v mean)) sd) (dp_of_int fp (int (ACT_PER_BUS c)))))"

definition fp_residual :: "fp_ops \<Rightarrow> 32 word list \<Rightarrow> 32 word list \<Rightarrow> nat \<Rightarrow> 32 word" where
  "fp_residual fp inp out e = fp_add fp (elems out ! e) (elems inp ! e)"

lemma fp_norm_row_run:
  fixes c :: "(32, 'w::len) sa_cfg" and m :: "32 word list"
  assumes es: "distinct es" "set es \<subseteq> {..<length (elems m :: 32 word list)}"
  shows "\<exists>m'. (do {
      variance \<leftarrow> for_list es (fp_var_step fp m mean) 0;
      for_list es (fp_norm_step fp c mean (fp_sd_inv fp variance d)) m }) = Some m' \<and>
    length (elems m' :: 32 word list) = length (elems m :: 32 word list) \<and>
    (\<forall>e<length (elems m :: 32 word list). elems m' ! e =
       (if e \<in> set es then fp_row_norm fp c d mean (map ((!) (elems m)) es) (elems m ! e) else elems m ! e))"
proof -
  have A: "0 < per_bus TYPE(32)" by (simp add: per_bus_def BUS_WIDTH_def)
  let ?v = "\<lambda>v a. dp_to_fp fp (dp_add fp (fp_to_dp fp a) (dp_square fp (fp_to_dp fp (fp_sub fp v mean))))"
  have "for_list es (fp_var_step fp m mean) 0 = Some (fold ?v (map ((!) (elems m)) es) 0)"
    using packed.sum_loop [OF A es(2), of ?v 0] unfolding fp_var_step_def by (simp add: fold_map comp_def)
  then show ?thesis
    using packed.update_loop [OF A es, of "fp_row_norm fp c d mean (map ((!) (elems m)) es)"]
    unfolding fp_norm_step_def by (simp only: bind.bind_lunit) (simp only: fp_row_norm_def Let_def)
qed

lemma fp_addnorm_compute_rows:
  fixes c :: "(32, 'w::len) sa_cfg"
  assumes "tensor_ok c n d out" "length inp = length out"
  shows "\<exists>ys. fp_addnorm_compute fp c (AddNormalize n d K mc) inp out = Some ys \<and> length ys = length out \<and>
    (\<forall>i<n. \<forall>e \<in> set (plain_row d i). elems ys ! e =
       fp_row_norm fp c d (fp_row_mean fp d (map (fp_residual fp inp out) (plain_row d i))) (map ((!) (elems out)) (plain_row d i)) (elems out ! e))"
proof -
  note ok = tensor_okD [OF assms(1)]
  let ?R = "plain_row d" and ?x = "\<lambda>e. (elems inp :: 32 word list) ! e"
  let ?sum = "\<lambda>inp output e sum. do { x \<leftarrow> rd_elem inp e; y \<leftarrow> rd_elem output e; Some (fp_add fp sum (fp_add fp y x)) }"
  let ?mean = "\<lambda>i. fp_row_mean fp d (map (fp_residual fp inp out) (?R i))"
  let ?F = "\<lambda>i e. fp_row_norm fp c d (?mean i) (map ((!) (elems out)) (?R i)) (elems out ! e)"
  let ?body = "\<lambda>i output. do {
      sum \<leftarrow> for_list (?R i) (?sum inp output) 0;
      let mean = fp_mean fp sum d;
      variance \<leftarrow> for_list (?R i) (fp_var_step fp output mean) 0;
      for_list (?R i) (fp_norm_step fp c mean (fp_sd_inv fp variance d)) output }"
  have run: "fp_addnorm_compute fp c (AddNormalize n d K mc) inp = for_list [0..<n] ?body"
    unfolding fp_addnorm_compute_def AddNormalize_def Let_def
    by (simp add: for_list_plain_row [OF ok(3)] for_list_plain_row [OF ok(3), where f = "?sum inp _"])
  have "\<exists>ys. for_list [0..<n] ?body out = Some ys \<and> length (elems ys :: 32 word list) = length (elems out :: 32 word list) \<and>
    (\<forall>i<n. \<forall>e \<in> set (?R i). elems ys ! e = ?F i e) \<and>
    (\<forall>e<length (elems out :: 32 word list). (\<forall>i<n. e \<notin> set (?R i)) \<longrightarrow> elems ys ! e = (elems out ! e :: 32 word))"
  proof (rule packed.rows_loop [OF ok(10)])
    fix i m1 assume i: "i < n" and m1: "length (elems m1 :: 32 word list) = length (elems out :: 32 word list)"
      "\<forall>x \<in> set (?R i). (elems m1 :: 32 word list) ! x = elems out ! x"
    note R = row_partitionD(1,2) [OF ok(10) i]
    have vs: "map ((!) (elems m1 :: 32 word list)) (?R i) = map ((!) (elems out)) (?R i)" using m1(2) by simp
    have S: "for_list (?R i) (?sum inp m1) 0 = Some (fold (\<lambda>e s. fp_add fp s (fp_residual fp inp out e)) (?R i) 0)"
      using R(2) m1 assms(2) by (intro for_list_fold) (auto simp: packed.get_view [OF ok(4)] rd_def fp_residual_def)
    have mean: "fp_mean fp (fold (\<lambda>e s. fp_add fp s (fp_residual fp inp out e)) (?R i) 0) d = ?mean i"
      by (simp add: fp_row_mean_def fold_map comp_def)
    have "set (?R i) \<subseteq> {..<length (elems m1 :: 32 word list)}" unfolding m1(1) by (rule R(2))
    from fp_norm_row_run [OF R(1) this, of fp "?mean i" c d]
    obtain m2 where m2: "(do { variance \<leftarrow> for_list (?R i) (fp_var_step fp m1 (?mean i)) 0;
        for_list (?R i) (fp_norm_step fp c (?mean i) (fp_sd_inv fp variance d)) m1 }) = Some m2"
      "length (elems m2 :: 32 word list) = length (elems out :: 32 word list)"
      "\<forall>e<length (elems out :: 32 word list). elems m2 ! e = (if e \<in> set (?R i) then
        fp_row_norm fp c d (?mean i) (map ((!) (elems out)) (?R i)) (elems m1 ! e) else (elems m1 ! e :: 32 word))"
      unfolding m1(1) vs by (elim exE conjE)
    have "?body i m1 = Some m2" unfolding S bind.bind_lunit Let_def mean by (rule m2(1))
    with m2(2,3) m1(2) show "\<exists>m2. ?body i m1 = Some m2 \<and> length (elems m2 :: 32 word list) = length (elems out :: 32 word list) \<and>
      (\<forall>e<length (elems out :: 32 word list). elems m2 ! e = (if e \<in> set (?R i) then ?F i e else (elems m1 ! e :: 32 word)))"
      by (intro exI [of _ m2] conjI) (simp_all del: length_elems)
  qed
  then show ?thesis unfolding run using ok(8) by (elim exE conjE) (intro exI conjI, assumption+)
qed

subsection \<open>Properties\<close>

text \<open>C22: The integer normalisation of a blocked tensor replaces every row by the residual sum, centred on the mean of the
  row and scaled by the factor of the row. It is undefined exactly when it is for some row: when in that row a 32-bit sum,
  difference or product overflows, or there is no mean, or the variance is negative.\<close>

theorem addnorm_blocked_value:
  fixes c :: "('a::len, 'w::len) sa_cfg"
  assumes "tensor_ok c n d out" "length inp = length out"
  shows "case addnorm_computeRearranged c (AddNormalize n d (kernel_dim c) mc) inp out of
      None \<Rightarrow> \<exists>t<n. addnorm_row c d (read_row c d (act_at c n out t)) (read_row c d (act_at c n inp t)) = None
    | Some ys \<Rightarrow> length ys = length out \<and> (\<forall>t. t < n \<longrightarrow>
        addnorm_row c d (read_row c d (act_at c n out t)) (read_row c d (act_at c n inp t)) = Some (read_row c d (act_at c n ys t)))"
  by (rule addnorm_blocked [OF assms])

theorem addnorm_blocked_value_witness:
  "case addnorm_computeRearranged demo_cfg (AddNormalize 4 4 4 2) (replicate 8 0) [1, 2, 3, 4, 5, 6, 7, 8] of
      None \<Rightarrow> \<exists>t<4. addnorm_row demo_cfg 4 (read_row demo_cfg 4 (act_at demo_cfg 4 [1, 2, 3, 4, 5, 6, 7, 8] t))
        (read_row demo_cfg 4 (act_at demo_cfg 4 (replicate 8 0) t)) = None
    | Some ys \<Rightarrow> length ys = 8"
proof -
  have "tensor_ok demo_cfg 4 4 [1, 2, 3, 4, 5, 6, 7, 8]"
    using demo_supported by (simp add: tensor_ok_def gem5_supported_def)
  from addnorm_blocked_value [OF this, of "replicate 8 0" 2] show ?thesis by (auto split: option.splits)
qed

text \<open>The row-major and the blocked integer normalisation agree: on the two layouts of the same tensors both are
  undefined or both return the two layouts of the same tensor.\<close>

lemma addnorm_layouts_agree:
  fixes c :: "('a::len, 'w::len) sa_cfg"
  assumes "tensor_ok c n d ob" "tensor_ok c n d rb" "length ib = length ob" "length ir = length rb"
    and "same_tensor c n d ob rb" "same_tensor c n d ib ir"
  shows "case (addnorm_computeRearranged c (AddNormalize n d (kernel_dim c) mc) ib ob,
      addnorm_compute c (AddNormalize n d (kernel_dim c) mc) ir rb) of
      (None, None) \<Rightarrow> True | (Some yb, Some yr) \<Rightarrow> same_tensor c n d yb yr | _ \<Rightarrow> False"
proof -
  note ok = tensor_ok_length [OF assms(1,3)] tensor_ok_length [OF assms(2,4)]
  note rows = same_rows [OF assms(1,2,5)] same_rows [OF ok assms(6)]
  note rb = addnorm_computeRearranged_rows [OF assms(1,3), of mc] and rr = addnorm_compute_rows [OF assms(2,4), of "kernel_dim c" mc]
  have "same_tensor c n d yb yr"
    if yb: "addnorm_computeRearranged c (AddNormalize n d (kernel_dim c) mc) ib ob = Some yb"
      and yr: "addnorm_compute c (AddNormalize n d (kernel_dim c) mc) ir rb = Some yr" for yb yr
  proof -
    have len: "length yb = length ob" "length yr = length rb" using rb rr yb yr by (simp_all add: normalised_def)
    have "map ((!) (elems yb :: 'a word list)) (blocked_row c n d t) = map ((!) (elems yr)) (plain_row d t)" if "t < n" for t
      using rb rr yb yr rows that by (auto simp: normalised_def)
    then have "\<forall>t<n. \<forall>p<d. (elems yb :: 'a word list) ! row_elem (kernel_dim c) n t (p div kernel_dim c) (p mod kernel_dim c) = elems yr ! mem2d d t p"
      by (simp add: blocked_row_map [OF tensor_okD(2) [OF assms(1)]] plain_row_def)
    then show ?thesis using same_tensor_elems [OF tensor_ok_length [OF assms(1) len(1)] tensor_ok_length [OF assms(2) len(2)]] by blast
  qed
  with rb rr rows show ?thesis by (auto simp: normalised_def split: option.splits)
qed

lemma addnorm_layouts_agree_witness:
  "case (addnorm_computeRearranged demo_cfg (AddNormalize 4 4 4 2) (replicate 8 0) [1, 2, 3, 4, 5, 6, 7, 8],
      addnorm_compute demo_cfg (AddNormalize 4 4 4 2) (replicate 8 0) [1, 2, 3, 4, 5, 6, 7, 8]) of
      (None, None) \<Rightarrow> True | (Some yb, Some yr) \<Rightarrow> same_tensor demo_cfg 4 4 yb yr | _ \<Rightarrow> False"
proof -
  have ok: "tensor_ok demo_cfg 4 4 [1, 2, 3, 4, 5, 6, 7, 8]"
    using demo_supported by (simp add: tensor_ok_def gem5_supported_def)
  have same: "same_tensor demo_cfg 4 4 xs xs" for xs
    by (simp add: same_tensor_def act_at_def row_act_at_def)
  from addnorm_layouts_agree [OF ok ok _ _ same same, of "replicate 8 0" 2] show ?thesis by simp
qed

text \<open>C23: With up to 16-bit activations and a power of two of up to \<open>2 ^ 13\<close> columns the integer normalisation never overflows,
  takes the floor of the mean of a row and computes as variance a number between -2 and 2 whatever the spread of the row, because the
  deviations go through an exclusive or with 2 in place of a square. It is undefined exactly when that number is negative for
  some row; otherwise every element of a row is centred on the mean and scaled by 4, 2 or 1 when the number is 0, 1 or 2.\<close>

theorem addnorm_factor_range:
  fixes c :: "('a::len, 'w::len) sa_cfg"
  assumes "tensor_ok c n (2 ^ k) out" "length inp = length out" "LENGTH('a) \<le> 16" "k \<le> 13"
  shows "case addnorm_computeRearranged c (AddNormalize n (2 ^ k) (kernel_dim c) mc) inp out of
      None \<Rightarrow> \<exists>t<n. xor_variance (residual_values c n (2 ^ k) inp out t) \<in> {-2, -1}
    | Some ys \<Rightarrow> \<forall>t j. t < n \<longrightarrow> j < 2 ^ k \<longrightarrow> (let xs = residual_values c n (2 ^ k) inp out t; r = xor_variance xs in
        r \<in> {0, 1, 2} \<and> act_at c n ys t j =
          word_of_int ((xs ! j - floor_mean xs) * (if r = 0 then 4 else if r = 1 then 2 else 1) sdiv int (ACT_PER_BUS c)))"
proof -
  note ok = tensor_okD [OF assms(1)]
  note spec = addnorm_blocked [OF assms(1,2), of mc, unfolded small_blocked_row [OF assms(1,3,4)]]
  have range: "xor_variance (residual_values c n (2 ^ k) inp out t) \<in> {-2..2}" for t
    by (rule xor_variance_range) (simp add: residual_values_def)
  show ?thesis
  proof (cases "addnorm_computeRearranged c (AddNormalize n (2 ^ k) (kernel_dim c) mc) inp out")
    case None
    with spec obtain t where "t < n" "xor_variance (residual_values c n (2 ^ k) inp out t) < 0" by (auto split: if_splits)
    then have "\<exists>t<n. xor_variance (residual_values c n (2 ^ k) inp out t) \<in> {-2, -1}" using range [of t] by (intro exI [of _ t]) auto
    then show ?thesis using None by simp
  next
    case (Some ys)
    have "let xs = residual_values c n (2 ^ k) inp out t; r = xor_variance xs in
        r \<in> {0, 1, 2} \<and> act_at c n ys t j =
          word_of_int ((xs ! j - floor_mean xs) * (if r = 0 then 4 else if r = 1 then 2 else 1) sdiv int (ACT_PER_BUS c))"
      if t: "t < n" and j: "j < 2 ^ k" for t j
    proof -
      let ?xs = "residual_values c n (2 ^ k) inp out t"
      let ?f = "\<lambda>j. word_of_int ((sint (act_at c n out t j + act_at c n inp t j) - floor_mean ?xs) *
        (if xor_variance ?xs = 0 then 4 else if xor_variance ?xs = 1 then 2 else 1) sdiv int (ACT_PER_BUS c)) :: 'a word"
      have r: "\<not> xor_variance ?xs < 0" "read_row c (2 ^ k) ?f = read_row c (2 ^ k) (act_at c n ys t)"
        using spec t unfolding Some by (auto split: if_splits)
      have "act_at c n ys t j = ?f j" using nth_read_row [OF ok(1,3) j, of ?f] nth_read_row [OF ok(1,3) j, of "act_at c n ys t"] r(2) by simp
      moreover have "sint (act_at c n out t j + act_at c n inp t j) = ?xs ! j" using j by (simp add: residual_values_def)
      moreover have "xor_variance ?xs \<in> {0, 1, 2}" using r(1) range [of t] by auto
      ultimately show ?thesis by (simp only: Let_def simp_thms)
    qed
    then show ?thesis using Some by simp
  qed
qed

theorem addnorm_factor_range_witness:
  "case addnorm_computeRearranged demo_cfg (AddNormalize 4 4 4 2) (replicate 8 0) [1, 2, 3, 4, 5, 6, 7, 8] of
      None \<Rightarrow> \<exists>t<4. xor_variance (residual_values demo_cfg 4 4 (replicate 8 0) [1, 2, 3, 4, 5, 6, 7, 8] t) \<in> {-2, -1}
    | Some ys \<Rightarrow> xor_variance (residual_values demo_cfg 4 4 (replicate 8 0) [1, 2, 3, 4, 5, 6, 7, 8] 0) \<in> {0, 1, 2}"
proof -
  have "tensor_ok demo_cfg 4 (2 ^ 2) [1, 2, 3, 4, 5, 6, 7, 8]"
    using demo_supported by (simp add: tensor_ok_def gem5_supported_def)
  from addnorm_factor_range [OF this, of "replicate 8 0" 2] show ?thesis
    by (auto simp: Let_def split: option.splits dest!: spec [of _ "0 :: nat"])
qed

text \<open>C29: For a row of \<open>d\<close> columns with sum \<open>s\<close>, \<open>1 \<le> d \<le> 2 ^ 31\<close> and \<open>s\<close> any 32-bit integer, the computed mean is the floor of
  \<open>s / d\<close> exactly when the sum is not negative or \<open>d\<close> is a power of two, and the quotient truncated towards zero exactly when the
  sum is not negative or \<open>d\<close> is a power of two that divides it: \<^verbatim>\<open>sum / input_dim_\<close> is an unsigned division. So the mean
  of every negative row is neither for every other number of columns.\<close>

theorem addnorm_mean_correct:
  assumes "0 < d" "d \<le> 2 ^ 31" "- (2 ^ 31) \<le> s" "s < 2 ^ 31"
  shows "\<exists>m. int_mean s d = Some m \<and> (m = s div int d \<longleftrightarrow> 0 \<le> s \<or> (\<exists>k. d = 2 ^ k)) \<and>
    (m = s sdiv int d \<longleftrightarrow> 0 \<le> s \<or> (\<exists>k. d = 2 ^ k) \<and> int d dvd s)"
  by (rule int_mean_correct [OF assms])

theorem addnorm_mean_correct_witness: "int_mean (- 3) 3 = Some 1431655764 \<and> (1431655764 :: int) \<noteq> - 3 div 3 \<and> \<not> (\<exists>k. 3 = (2 :: nat) ^ k)"
proof -
  have mean: "int_mean (- 3) 3 = Some 1431655764" by code_simp
  with addnorm_mean_correct [of 3 "- 3"] show ?thesis by auto
qed

text \<open>The row-major floating-point version never stores the residual sum: every element of its result is the scaled
  element of the output tensor as it was, only the mean is taken of the sums.\<close>

lemma fp_addnorm_drops_residual:
  fixes c :: "(32, 'w::len) sa_cfg"
  assumes "tensor_ok c n d out" "length inp = length out"
  shows "\<exists>ys. fp_addnorm_compute fp c (AddNormalize n d K mc) inp out = Some ys \<and> length ys = length out \<and>
    (\<forall>i e. i < n \<longrightarrow> e \<in> set (plain_row d i) \<longrightarrow> elems ys ! e =
       fp_row_norm fp c d (fp_row_mean fp d (map (fp_residual fp inp out) (plain_row d i))) (map ((!) (elems out)) (plain_row d i)) (elems out ! e))"
  using fp_addnorm_compute_rows [OF assms, of fp K mc]
  by (elim exE conjE) (intro exI conjI allI impI, assumption, assumption, blast)

lemma fp_addnorm_drops_residual_witness:
  "\<exists>ys. fp_addnorm_compute word_ops (int_cfg 2 :: (32, 32) sa_cfg) (AddNormalize 2 2 2 2) [1, 2, 3, 4] [5, 6, 7, 8] = Some ys \<and> length ys = 4"
proof -
  have "tensor_ok (int_cfg 2 :: (32, 32) sa_cfg) 2 2 [5, 6, 7, 8]"
    by (simp add: tensor_ok_def cfg_ok_def int_cfg_def ACT_PER_BUS_def W_PER_BUS_def per_bus_def BUS_WIDTH_def)
  from fp_addnorm_drops_residual [OF this, of "[1, 2, 3, 4]" word_ops 2 2] show ?thesis by auto
qed

end
