(* ===== verification/TiC_Dense.thy ===== *)
theory TiC_Dense
  imports TiC_Matmul TiC_AddNorm
begin

text \<open>
  The dense layer, \<^verbatim>\<open>transformer_layers/dense.cc\<close>: a weight matrix in one of the storage formats, its index arrays, and an
  optional bias. A null or unset array pointer is the empty list, so that reading through it is \<open>None\<close>. The pointers
  \<^verbatim>\<open>values_\<close> into the kernel are offsets.

  \<^verbatim>\<open>layer_ops\<close> collects what \<^verbatim>\<open>ACTIVATION_FP\<close> switches in the layers: the addition of a bias, the two parts of the soft-max
  and the normalisation.
\<close>

subsection \<open>Model\<close>

record layer_ops =
  lo_bias :: "32 word \<Rightarrow> 32 word \<Rightarrow> 32 word"
  lo_softmax :: "nat \<Rightarrow> 32 word list \<Rightarrow> 32 word list option"
  lo_post :: "nat \<Rightarrow> nat \<Rightarrow> 32 word list \<Rightarrow> 32 word list option"
  lo_addnorm :: "AddNormalize \<Rightarrow> 32 word list \<Rightarrow> 32 word list \<Rightarrow> 32 word list option"

definition int_layers :: "('a::len, 'w::len) sa_cfg \<Rightarrow> layer_ops" where
  "int_layers c = \<lparr>lo_bias = (+), lo_softmax = softmax_computeRearranged c, lo_post = post_softmax c,
     lo_addnorm = addnorm_computeRearranged c\<rparr>"

definition fp_layers :: "fp_ops \<Rightarrow> (32, 'w::len) sa_cfg \<Rightarrow> layer_ops" where
  "fp_layers fp c = \<lparr>lo_bias = (\<lambda>v b. fp_add fp v (fp_of_int fp (uint b))),
     lo_softmax = fp_softmax_computeRearranged fp c, lo_post = fp_post_softmax fp,
     lo_addnorm = fp_addnorm_computeRearranged fp c\<rparr>"

record Dense =
  dn_input_size :: nat
  dn_output_size :: nat
  dn_weight :: "32 word list"
  dn_flag :: "32 word list"
  dn_bias :: "32 word list option"
  dn_col_ptr :: "nat list"
  dn_row_ptr :: "nat list"
  dn_values :: "nat list"
  dn_hidden_flag :: "32 word list"
  dn_format :: Format
  dn_multiplier :: multiplier

definition Dense_base :: "nat \<Rightarrow> nat \<Rightarrow> nat \<Rightarrow> 32 word list \<Rightarrow> Format \<Rightarrow> Dense" where
  "Dense_base seq_len isize osize weightDense format =
     \<lparr>dn_input_size = isize, dn_output_size = osize, dn_weight = weightDense, dn_flag = [], dn_bias = None,
      dn_col_ptr = [], dn_row_ptr = [], dn_values = [], dn_hidden_flag = [], dn_format = format,
      dn_multiplier = SparseMatrixMultiplier isize osize seq_len format\<rparr>"

definition Dense_packed ::
  "nat \<Rightarrow> nat \<Rightarrow> nat \<Rightarrow> 32 word list \<Rightarrow> 32 word list \<Rightarrow> 32 word list \<Rightarrow> Format \<Rightarrow> Dense" where
  "Dense_packed seq_len isize osize weightDense flagDense hidden_flag format =
     (Dense_base seq_len isize osize weightDense format)\<lparr>dn_flag := flagDense, dn_hidden_flag := hidden_flag\<rparr>"

definition Dense_indexed ::
  "nat \<Rightarrow> nat \<Rightarrow> nat \<Rightarrow> 32 word list \<Rightarrow> nat list \<Rightarrow> nat list \<Rightarrow> nat list \<Rightarrow> Format \<Rightarrow> Dense" where
  "Dense_indexed seq_len isize osize weightDense col_ptr row_ptr vals format =
     (Dense_base seq_len isize osize weightDense format)
       \<lparr>dn_col_ptr := col_ptr, dn_row_ptr := row_ptr, dn_values := vals\<rparr>"

definition multiplyweight ::
  "('a::len, 'w::len) sa_cfg \<Rightarrow> 's smm_ops \<Rightarrow> Dense \<Rightarrow> 32 word list \<Rightarrow> 's \<times> 32 word list \<Rightarrow> ('s \<times> 32 word list) option" where
  "multiplyweight c ops d input st =
     (if dn_format d = WITH_FLAG \<or> dn_format d = DYNAMIC \<or> dn_format d = NON_PRUNED then
        compute_packed c ops (dn_multiplier d) input (dn_flag d) [] (dn_weight d) st
      else if dn_format d = HIDDEN_KEY then
        compute_packed c ops (dn_multiplier d) input (dn_hidden_flag d) [] (dn_weight d) st
      else if dn_format d = META_DATA then
        compute_packed c ops (dn_multiplier d) input (dn_flag d) (dn_hidden_flag d) (dn_weight d) st
      else if dn_format d = CSC \<or> dn_format d = CSR then
        compute_indexed c ops (dn_multiplier d) input (dn_col_ptr d) (dn_row_ptr d) (dn_weight d) (dn_values d) st
      else if dn_format d = INTERLEAVED then
        compute_packed c ops (dn_multiplier d) input [] [] (dn_weight d) st
      else None)"

definition addbias :: "layer_ops \<Rightarrow> Dense \<Rightarrow> nat \<Rightarrow> 32 word list \<Rightarrow> 32 word list \<Rightarrow> 32 word list option" where
  "addbias lo d seq_len bias =
     for_list [0..<seq_len] (\<lambda>idx. for_list [0..<dn_output_size d] (\<lambda>feature_idx output. do {
       v \<leftarrow> rd output (idx * dn_output_size d + feature_idx);
       b \<leftarrow> rd bias feature_idx;
       wr output (idx * dn_output_size d + feature_idx) (lo_bias lo v b)
     }))"

definition dense_compute ::
  "('a::len, 'w::len) sa_cfg \<Rightarrow> 's smm_ops \<Rightarrow> layer_ops \<Rightarrow> Dense \<Rightarrow> nat \<Rightarrow> 32 word list
     \<Rightarrow> 's \<times> 32 word list \<Rightarrow> ('s \<times> 32 word list) option" where
  "dense_compute c ops lo d seq_len input st = do {
     (s, output) \<leftarrow> multiplyweight c ops d input st;
     case dn_bias d of
       None \<Rightarrow> Some (s, output)
     | Some bias \<Rightarrow> do {
         output \<leftarrow> addbias lo d seq_len bias output;
         Some (s, output)
       }
   }"

subsection \<open>A layer that stores a dense kernel\<close>

text \<open>The layer has no bias and holds \<open>krn\<close> in its format, as the writers of \<^verbatim>\<open>sparse_rep.cc\<close> produce it, where the reader
  finds it again: the flags of \<^verbatim>\<open>WITH_FLAG\<close> mark exactly the zero tiles, the key of \<^verbatim>\<open>HIDDEN_KEY\<close> starts no non-zero tile, the arrays
  of the compressed and two-level formats are large enough, and for \<^verbatim>\<open>INTERLEAVED\<close> a block column has at least 32 tiles and the blocks fit
  the buffer.\<close>

definition stores_kernel :: "('a::len, 'w::len) sa_cfg \<Rightarrow> Dense \<Rightarrow> 32 word list \<Rightarrow> bool" where
  "stores_kernel c d krn \<longleftrightarrow> (let m = dn_multiplier d; R = row_in_w c m; C = col_in_w c m; nr = dn_input_size d;
       nc = dn_output_size d div W_PER_BUS c in
     mult_format m = dn_format d \<and> dims_ok c m nr nc \<and> kernel_ok c m krn \<and> dn_bias d = None \<and>
     (case dn_format d of
        NON_PRUNED \<Rightarrow> dn_weight d = krn
      | DYNAMIC \<Rightarrow> dn_weight d = krn
      | WITH_FLAG \<Rightarrow> remove_zero_tiles c krn nr nc = Some (dn_weight d) \<and> C * R \<le> 32 * length (dn_flag d) \<and>
          (\<forall>n<C * R. bit (dn_flag d ! (n div 32)) (31 - n mod 32) \<longleftrightarrow> \<not> tile_nonzero c krn n)
      | HIDDEN_KEY \<Rightarrow> (\<exists>key. dn_hidden_flag d = [key] \<and> interleave_hidden_flag_zero_free c krn nr nc key = Some (dn_weight d) \<and>
          (\<forall>n<C * R. tile_nonzero c krn n \<longrightarrow> krn ! (n * tile_words c) \<noteq> key))
      | META_DATA \<Rightarrow> (\<exists>m1 m2. C \<le> length m1 \<and> C * R \<le> length m2 \<and>
          dense2metaData c krn nr nc m1 m2 = Some (dn_weight d, dn_flag d, dn_hidden_flag d))
      | CSR \<Rightarrow> dn_weight d = krn \<and> (\<exists>ptr ind vals nnz. R < length ptr \<and> R * C \<le> length ind \<and> R * C \<le> length vals \<and>
          dense2csr c krn nr nc ind ptr vals = Some (dn_col_ptr d, dn_row_ptr d, dn_values d, nnz))
      | CSC \<Rightarrow> dn_weight d = krn \<and> (\<exists>ptr ind vals nnz. C < length ptr \<and> R * C \<le> length ind \<and> R * C \<le> length vals \<and>
          dense2csc c krn nr nc ptr ind vals = Some (dn_col_ptr d, dn_row_ptr d, dn_values d, nnz))
      | INTERLEAVED \<Rightarrow> dense2interleavedMetaData c krn nr nc = Some (dn_weight d) \<and> 32 \<le> R \<and>
          new_kernel_size c nr nc < 2 ^ 32 \<and> seg_off (packed_seg c m krn) C \<le> new_kernel_size c nr nc))"

context systolic_driver
begin

lemma dense_layer_product:
  assumes "supported" "int_arith c" "ready s" "stores_kernel c d krn" "shapes_ok c (dn_multiplier d) input (length output)"
  shows "\<exists>s' output'. dense_compute c ops lo d seq_len input (s, output) = Some (s', output') \<and> ready s' \<and>
    is_product c (dn_multiplier d) input krn output output'"
proof -
  let ?m = "dn_multiplier d"
  have st: "mult_format ?m = dn_format d" "dims_ok c ?m (dn_input_size d) (dn_output_size d div W_PER_BUS c)" "kernel_ok c ?m krn" "dn_bias d = None"
    using assms(4) by (simp_all add: stores_kernel_def Let_def)
  have pruned: "is_product c ?m input krn output (sched_result c ?m input (pruned_sched c ?m krn) output)"
    by (rule sched_is_product [OF supported_ok [OF assms(1)] assms(2) st(3) assms(5)])
  have "\<exists>s' output'. multiplyweight c ops d input (s, output) = Some (s', output') \<and> ready s' \<and>
    is_product c ?m input krn output output'"
  proof (cases "dn_format d")
    case CSR
    then obtain ptr ind vals nnz where enc: "row_in_w c ?m < length ptr" "row_in_w c ?m * col_in_w c ?m \<le> length ind"
      "row_in_w c ?m * col_in_w c ?m \<le> length vals" "dn_weight d = krn"
      "dense2csr c krn (dn_input_size d) (dn_output_size d div W_PER_BUS c) ind ptr vals = Some (dn_col_ptr d, dn_row_ptr d, dn_values d, nnz)"
      using assms(4) by (auto simp: stores_kernel_def Let_def)
    from csr_csc_result [OF assms(1,3) st(2,3) assms(5) _ enc(2,3), of ptr "Some (dn_col_ptr d, dn_row_ptr d, dn_values d, nnz)"] enc CSR st(1)
    show ?thesis using pruned by (auto simp: multiplyweight_def)
  next
    case CSC
    then obtain ptr ind vals nnz where enc: "col_in_w c ?m < length ptr" "row_in_w c ?m * col_in_w c ?m \<le> length ind"
      "row_in_w c ?m * col_in_w c ?m \<le> length vals" "dn_weight d = krn"
      "dense2csc c krn (dn_input_size d) (dn_output_size d div W_PER_BUS c) ptr ind vals = Some (dn_col_ptr d, dn_row_ptr d, dn_values d, nnz)"
      using assms(4) by (auto simp: stores_kernel_def Let_def)
    from csr_csc_result [OF assms(1,3) st(2,3) assms(5) _ enc(2,3), of ptr "Some (dn_col_ptr d, dn_row_ptr d, dn_values d, nnz)"] enc CSC st(1)
    show ?thesis using pruned by (auto simp: multiplyweight_def)
  next
    case WITH_FLAG
    with flag_result [OF assms(1,3) st(2,3) assms(5), of "dn_flag d" "[]"] assms(4) st(1)
    show ?thesis using pruned by (auto simp: multiplyweight_def stores_kernel_def Let_def)
  next
    case HIDDEN_KEY
    then obtain key where key: "dn_hidden_flag d = [key]"
      "interleave_hidden_flag_zero_free c krn (dn_input_size d) (dn_output_size d div W_PER_BUS c) key = Some (dn_weight d)"
      "\<And>n. n < col_in_w c ?m * row_in_w c ?m \<Longrightarrow> tile_nonzero c krn n \<Longrightarrow> krn ! (n * tile_words c) \<noteq> key"
      using assms(4) by (auto simp: stores_kernel_def Let_def)
    from hidden_result [OF assms(1,3) st(2,3) assms(5) _ key(3), of "[]"] key HIDDEN_KEY st(1)
    show ?thesis using pruned by (auto simp: multiplyweight_def)
  next
    case META_DATA
    then obtain m1 m2 where enc: "col_in_w c ?m \<le> length m1" "col_in_w c ?m * row_in_w c ?m \<le> length m2"
      "dense2metaData c krn (dn_input_size d) (dn_output_size d div W_PER_BUS c) m1 m2 = Some (dn_weight d, dn_flag d, dn_hidden_flag d)"
      using assms(4) by (auto simp: stores_kernel_def Let_def)
    from metadata_result [OF assms(1,3) st(2,3) assms(5) _ enc(1,2)] enc(3) META_DATA st(1)
    show ?thesis using pruned by (auto simp: multiplyweight_def)
  next
    case INTERLEAVED
    then have enc: "dense2interleavedMetaData c krn (dn_input_size d) (dn_output_size d div W_PER_BUS c) = Some (dn_weight d)"
      "seg_off (packed_seg c ?m krn) (col_in_w c ?m) \<le> new_kernel_size c (dn_input_size d) (dn_output_size d div W_PER_BUS c)"
      "new_kernel_size c (dn_input_size d) (dn_output_size d div W_PER_BUS c) < 2 ^ 32" "32 \<le> row_in_w c ?m"
      using assms(4) by (auto simp: stores_kernel_def Let_def)
    from interleaved_result [OF assms(1,3) st(2,3) assms(5) _ enc(2-4), of "[]" "[]"] enc(1) INTERLEAVED st(1)
    show ?thesis using pruned by (auto simp: multiplyweight_def)
  next
    case DYNAMIC
    with dense_formats_product [OF assms(1-3) st(3) assms(5), of "dn_flag d" "[]"] assms(4) st(1)
    show ?thesis by (auto simp: multiplyweight_def stores_kernel_def Let_def)
  next
    case NON_PRUNED
    with dense_formats_product [OF assms(1-3) st(3) assms(5), of "dn_flag d" "[]"] assms(4) st(1)
    show ?thesis by (auto simp: multiplyweight_def stores_kernel_def Let_def)
  qed
  then show ?thesis using st(4) by (auto simp: dense_compute_def)
qed

end

subsection \<open>Activations as weights\<close>

text \<open>When activations and weights have the same width, a blocked activation tensor is a dense kernel of the same matrix.\<close>

lemma weight_at_act:
  fixes c :: "('a::len, 'a) sa_cfg"
  shows "weight_at c R krn k j = act_at c (R * kernel_dim c) krn k j"
proof -
  have same: "W_PER_BUS c = ACT_PER_BUS c" "MAX_W_COL c = MAX_ACT_COL c"
    by (simp_all add: W_PER_BUS_def ACT_PER_BUS_def MAX_W_COL_def MAX_ACT_COL_def)
  let ?K = "kernel_dim c" and ?M = "MAX_ACT_COL c"
  have "k div ?K * ?K + k mod ?K = k" by simp
  then have "k div ?K * (?K * ?M) + k mod ?K * ?M = k * ?M" by (metis add_mult_distrib mult.assoc)
  then have "mem2d R (j div ?K) (k div ?K) * (?K * ?M) + k mod ?K * ?M = j div ?K * ?M * (R * ?K) + k * ?M"
    by (simp add: mem2d_def add_mult_distrib mult.assoc)
  then show ?thesis by (simp add: weight_at_def act_at_def same tile_words_def)
qed

subsection \<open>Properties\<close>

text \<open>C18: A dense layer without bias that holds a kernel as the writer of its format produces it adds the matrix product of its
  input and the dense kernel to its output on the simulated accelerator, with integer arithmetic. The sparse formats have the conditions
  of \<open>stores_kernel\<close>: large enough arrays for the compressed and two-level formats, flags that mark exactly the zero
  tiles, a key that starts no non-zero tile, and for interleaved metadata at least 32 tiles in a block column and blocks that fit the
  buffer of the writer.\<close>

theorem gem5_dense_layer:
  assumes "gem5_supported c" "int_arith c" "on_tile (tile_wf c) s" "stores_kernel c d krn"
    and "shapes_ok c (dn_multiplier d) input (length output)"
  shows "\<exists>s' output'. dense_compute c (gem5_ops c th) lo d seq_len input (s, output) = Some (s', output') \<and>
    on_tile (tile_wf c) s' \<and> is_product c (dn_multiplier d) input krn output output'"
  by (rule gem5.dense_layer_product [OF assms])

definition demo_dense :: Dense where
  "demo_dense = Dense_packed 1 4 4 [1, 2, 3, 4] [] [] NON_PRUNED"

lemma demo_dense_simps [simp]:
  "dn_multiplier demo_dense = demo_mult NON_PRUNED" "stores_kernel demo_cfg demo_dense [1, 2, 3, 4]"
proof -
  show m: "dn_multiplier demo_dense = demo_mult NON_PRUNED"
    by (simp add: demo_dense_def Dense_packed_def Dense_base_def demo_mult_def)
  show "stores_kernel demo_cfg demo_dense [1, 2, 3, 4]"
    unfolding stores_kernel_def m Let_def by (simp add: demo_dense_def Dense_packed_def Dense_base_def)
qed

theorem gem5_dense_layer_witness:
  "\<exists>s' output'. dense_compute demo_cfg (gem5_ops demo_cfg 0) (int_layers demo_cfg) demo_dense 1 [5, 6] (demo_dev, [0, 0]) =
     Some (s', output') \<and> on_tile (tile_wf demo_cfg) s' \<and>
     is_product demo_cfg (demo_mult NON_PRUNED) [5, 6] [1, 2, 3, 4] [0, 0] output'"
  using gem5_dense_layer [OF demo_supported demo_int demo_ready demo_dense_simps(2), of "[5, 6]" "[0, 0]"] by simp

end
