(* ===== verification/TiC_Attention.thy ===== *)
theory TiC_Attention
  imports TiC_Dense
begin

text \<open>
  One attention head, \<^verbatim>\<open>transformer_layers/selfattention.cc\<close>: the projections to queries, keys and values, the blocked
  transposition of the keys, the scores, the soft-max and the weighted values. The buffers of the head are part of its
  state: they are allocated once, with zeros, and every call adds to what they hold.

  The second operand of the two inner products is an activation tensor handed over as a weight kernel, which is the same
  matrix only when activations and weights have the same width; the lemmas are about that case.
\<close>

subsection \<open>Model\<close>

record SingleHeadSelfAttn =
  pre_seq_len :: nat
  head_hidden_size :: nat
  sa_input_dim :: nat
  sa_hidden_flag :: "32 word list"
  query_layer_out :: "32 word list"
  key_layer_out :: "32 word list"
  key_transposed_layer_out :: "32 word list"
  value_layer_out :: "32 word list"
  attention_scores :: "32 word list"
  query_layer :: Dense
  key_layer :: Dense
  value_layer :: Dense
  multiplier_QKT :: multiplier
  multiplier_att_v :: multiplier

definition SingleHeadSelfAttn ::
  "('a::len, 'w::len) sa_cfg \<Rightarrow> nat \<Rightarrow> nat \<Rightarrow> nat \<Rightarrow> 32 word list \<Rightarrow> Dense \<Rightarrow> Dense \<Rightarrow> Dense \<Rightarrow> SingleHeadSelfAttn" where
  "SingleHeadSelfAttn c n idim h hidden_flag q k v = (let sz = n * h div ACT_PER_BUS c in
     \<lparr>pre_seq_len = n, head_hidden_size = h, sa_input_dim = idim, sa_hidden_flag = hidden_flag,
      query_layer_out = replicate sz 0, key_layer_out = replicate sz 0, key_transposed_layer_out = replicate sz 0,
      value_layer_out = replicate sz 0, attention_scores = replicate (n * n div ACT_PER_BUS c) 0,
      query_layer = q, key_layer = k, value_layer = v,
      multiplier_QKT = SparseMatrixMultiplier h n n NON_PRUNED, multiplier_att_v = SparseMatrixMultiplier n h n NON_PRUNED\<rparr>)"

definition SelfAttn_packed ::
  "('a::len, 'w::len) sa_cfg \<Rightarrow> nat \<Rightarrow> nat \<Rightarrow> nat \<Rightarrow> 32 word list list \<Rightarrow> 32 word list list \<Rightarrow> 32 word list \<Rightarrow> Format
     \<Rightarrow> SingleHeadSelfAttn option" where
  "SelfAttn_packed c n idim h weightVector flagVector hidden_flag format = do {
     w0 \<leftarrow> rd weightVector 0; f0 \<leftarrow> rd flagVector 0;
     w1 \<leftarrow> rd weightVector 1; f1 \<leftarrow> rd flagVector 1;
     w2 \<leftarrow> rd weightVector 2; f2 \<leftarrow> rd flagVector 2;
     Some (SingleHeadSelfAttn c n idim h hidden_flag (Dense_packed n idim h w0 f0 hidden_flag format)
       (Dense_packed n idim h w1 f1 hidden_flag format) (Dense_packed n idim h w2 f2 hidden_flag format))
   }"

definition SelfAttn_indexed ::
  "('a::len, 'w::len) sa_cfg \<Rightarrow> nat \<Rightarrow> nat \<Rightarrow> nat \<Rightarrow> 32 word list list \<Rightarrow> nat list list \<Rightarrow> nat list list \<Rightarrow> nat list list
     \<Rightarrow> Format \<Rightarrow> SingleHeadSelfAttn option" where
  "SelfAttn_indexed c n idim h weightVector col_ptr row_ptr vals format = do {
     w0 \<leftarrow> rd weightVector 0; c0 \<leftarrow> rd col_ptr 0; r0 \<leftarrow> rd row_ptr 0; v0 \<leftarrow> rd vals 0;
     w1 \<leftarrow> rd weightVector 1; c1 \<leftarrow> rd col_ptr 1; r1 \<leftarrow> rd row_ptr 1; v1 \<leftarrow> rd vals 1;
     w2 \<leftarrow> rd weightVector 2; c2 \<leftarrow> rd col_ptr 2; r2 \<leftarrow> rd row_ptr 2; v2 \<leftarrow> rd vals 2;
     Some (SingleHeadSelfAttn c n idim h [] (Dense_indexed n idim h w0 c0 r0 v0 format)
       (Dense_indexed n idim h w1 c1 r1 v1 format) (Dense_indexed n idim h w2 c2 r2 v2 format))
   }"

definition selfattn_compute ::
  "('a::len, 'w::len) sa_cfg \<Rightarrow> 's smm_ops \<Rightarrow> layer_ops \<Rightarrow> nat \<Rightarrow> 32 word list \<Rightarrow> 's \<times> SingleHeadSelfAttn \<times> 32 word list
     \<Rightarrow> ('s \<times> SingleHeadSelfAttn \<times> 32 word list) option" where
  "selfattn_compute c ops lo seq_len input = (\<lambda>(s, a, output). do {
     (s, q) \<leftarrow> dense_compute c ops lo (query_layer a) seq_len input (s, query_layer_out a);
     (s, k) \<leftarrow> dense_compute c ops lo (key_layer a) seq_len input (s, key_layer_out a);
     (s, v) \<leftarrow> dense_compute c ops lo (value_layer a) seq_len input (s, value_layer_out a);
     kt \<leftarrow> transpose_rearranged c k (head_hidden_size a) (pre_seq_len a) (key_transposed_layer_out a);
     (s, scores) \<leftarrow> compute_packed c ops (multiplier_QKT a) q [] [] kt (s, attention_scores a);
     scores \<leftarrow> lo_softmax lo seq_len scores;
     (s, output) \<leftarrow> compute_packed c ops (multiplier_att_v a) scores [] [] v (s, output);
     output \<leftarrow> lo_post lo seq_len (head_hidden_size a) output;
     Some (s, a\<lparr>query_layer_out := q, key_layer_out := k, key_transposed_layer_out := kt, value_layer_out := v,
       attention_scores := scores\<rparr>, output)
   })"

subsection \<open>The specification\<close>

type_synonym 'a matrix = "nat \<Rightarrow> nat \<Rightarrow> 'a word"

definition mat_mul :: "nat \<Rightarrow> 'a::len matrix \<Rightarrow> 'a matrix \<Rightarrow> 'a matrix" where
  "mat_mul d A B = (\<lambda>t j. \<Sum>k<d. A t k * B k j)"

definition mat_add :: "'a::len matrix \<Rightarrow> 'a matrix \<Rightarrow> 'a matrix" where
  "mat_add A B = (\<lambda>t j. A t j + B t j)"

definition mat_transpose :: "'a::len matrix \<Rightarrow> 'a matrix" where
  "mat_transpose A = (\<lambda>t j. A j t)"

definition mat_softmax :: "nat \<Rightarrow> 'a::len matrix \<Rightarrow> 'a matrix" where
  "mat_softmax n S = (\<lambda>t u. word_of_nat (unat (lut (S t u)) div ((\<Sum>v<n. unat (lut (S t v))) div 256 + 1)))"

definition mat_post :: "'a::len matrix \<Rightarrow> 'a matrix" where
  "mat_post A = (\<lambda>t j. word_of_int (sint (A t j) sdiv 64))"

text \<open>Attention of \<open>n\<close> positions with \<open>d\<close> features and a head of size \<open>h\<close>.\<close>

definition attention :: "nat \<Rightarrow> nat \<Rightarrow> nat \<Rightarrow> 'a::len matrix \<Rightarrow> 'a matrix \<Rightarrow> 'a matrix \<Rightarrow> 'a matrix \<Rightarrow> 'a matrix" where
  "attention n d h X Wq Wk Wv =
     mat_post (mat_mul n (mat_softmax n (mat_mul h (mat_mul d X Wq) (mat_transpose (mat_mul d X Wk)))) (mat_mul d X Wv))"

text \<open>A tensor that holds a matrix, in an array that may be longer.\<close>

definition holds :: "('a::len, 'w::len) sa_cfg \<Rightarrow> nat \<Rightarrow> nat \<Rightarrow> 32 word list \<Rightarrow> 'a matrix \<Rightarrow> bool" where
  "holds c n d xs A \<longleftrightarrow> cfg_ok c \<and> kernel_dim c dvd d \<and> n * d \<le> length xs * ACT_PER_BUS c \<and>
     (\<forall>t j. t < n \<longrightarrow> j < d \<longrightarrow> act_at c n xs t j = A t j)"

lemma holdsD:
  assumes "holds c n d xs A"
  shows "cfg_ok c" "kernel_dim c dvd d" "n * d \<le> length xs * ACT_PER_BUS c" "t < n \<Longrightarrow> j < d \<Longrightarrow> act_at c n xs t j = A t j"
    "d div kernel_dim c * MAX_ACT_COL c * n \<le> length xs"
proof -
  show "cfg_ok c" "kernel_dim c dvd d" "n * d \<le> length xs * ACT_PER_BUS c" "t < n \<Longrightarrow> j < d \<Longrightarrow> act_at c n xs t j = A t j"
    using assms by (simp_all add: holds_def)
  then have A: "0 < ACT_PER_BUS c" "MAX_ACT_COL c * ACT_PER_BUS c = kernel_dim c" by (simp_all add: cfg_okD)
  have "d div kernel_dim c * MAX_ACT_COL c * n * ACT_PER_BUS c = d div kernel_dim c * (MAX_ACT_COL c * ACT_PER_BUS c) * n" by (simp only: ac_simps)
  also have "\<dots> = n * d" using \<open>kernel_dim c dvd d\<close> by (simp only: A(2)) (simp add: mult.commute)
  also have "\<dots> \<le> length xs * ACT_PER_BUS c" by fact
  finally show "d div kernel_dim c * MAX_ACT_COL c * n \<le> length xs" using A(1) by simp
qed

lemma holds_tensor: "tensor_ok c n d xs \<Longrightarrow> holds c n d xs (act_at c n xs)"
  by (simp add: holds_def tensor_ok_def)

subsection \<open>One multiplication\<close>

lemma product_holds:
  fixes c :: "('a::len, 'a) sa_cfg"
  assumes "is_product c (SparseMatrixMultiplier d h n f) input krn out out'" "holds c n d input X" "holds c n h out Z"
    and "\<And>k j. k < d \<Longrightarrow> j < h \<Longrightarrow> weight_at c (d div kernel_dim c) krn k j = W k j"
  shows "holds c n h out' (mat_add Z (mat_mul d X W))" "length out' = length out"
    "p < length out \<Longrightarrow> h div kernel_dim c * MAX_ACT_COL c * n \<le> p \<Longrightarrow> out' ! p = out ! p"
proof -
  note X = holdsD [OF assms(2)] and Z = holdsD [OF assms(3)]
  have dims: "row_in_w c (SparseMatrixMultiplier d h n f) * kernel_dim c = d" "col_in_w c (SparseMatrixMultiplier d h n f) * kernel_dim c = h"
    using X(2) Z(2) by (simp_all add: row_in_w_def col_in_w_def SparseMatrixMultiplier_def)
  have P: "length out' = length out" "\<forall>t<n. \<forall>j<h. act_at c n out' t j = act_at c n out t j +
      (\<Sum>k<d. act_at c n input t k * scast (weight_at c (row_in_w c (SparseMatrixMultiplier d h n f)) krn k j))"
    "\<forall>p. h div kernel_dim c * MAX_ACT_COL c * n \<le> p \<longrightarrow> p < length out \<longrightarrow> out' ! p = out ! p"
    using assms(1) unfolding is_product_def dims by (simp_all add: SparseMatrixMultiplier_def col_in_w_def)
  have "row_in_w c (SparseMatrixMultiplier d h n f) = d div kernel_dim c" by (simp add: row_in_w_def SparseMatrixMultiplier_def)
  with P(2) have "act_at c n out' t j = mat_add Z (mat_mul d X W) t j" if "t < n" "j < h" for t j
    using that X(4) Z(4) assms(4) by (simp add: mat_add_def mat_mul_def)
  with Z(1-3) P(1) show "holds c n h out' (mat_add Z (mat_mul d X W))" by (simp add: holds_def)
  show "length out' = length out" "p < length out \<Longrightarrow> h div kernel_dim c * MAX_ACT_COL c * n \<le> p \<Longrightarrow> out' ! p = out ! p"
    using P(1,3) by simp_all
qed

subsection \<open>Soft-max and final division\<close>

lemma softmax_holds:
  fixes c :: "('a::len, 'w::len) sa_cfg"
  assumes "tensor_ok c n n xs" "n \<le> 2 ^ 23" "holds c n n xs S"
  shows "\<exists>ys. softmax_computeRearranged c n xs = Some ys \<and> length ys = length xs \<and> holds c n n ys (mat_softmax n S)"
proof -
  obtain ys where ys: "softmax_computeRearranged c n xs = Some ys" "length ys = length xs"
    "\<forall>t j. t < n \<longrightarrow> j < n \<longrightarrow> unat (act_at c n ys t j) =
       unat (lut (act_at c n xs t j)) div ((\<Sum>k<n. unat (lut (act_at c n xs t k))) div 256 + 1)"
    using softmax_blocked [OF assms(1,2)] by (elim exE conjE)
  have "act_at c n ys t j = mat_softmax n S t j" if "t < n" "j < n" for t j
  proof -
    have "(\<Sum>k<n. unat (lut (act_at c n xs t k))) = (\<Sum>k<n. unat (lut (S t k)))"
      using holdsD(4) [OF assms(3) that(1)] by simp
    then have "unat (act_at c n ys t j) = unat (lut (S t j)) div ((\<Sum>k<n. unat (lut (S t k))) div 256 + 1)"
      using ys(3) that holdsD(4) [OF assms(3)] by simp
    then have "word_of_nat (unat (act_at c n ys t j)) = mat_softmax n S t j" unfolding mat_softmax_def by (simp only:)
    then show ?thesis by simp
  qed
  with ys(1,2) holdsD(1-3) [OF assms(3)] show ?thesis by (auto simp: holds_def)
qed

lemma word_elems_eqI:
  assumes "LENGTH('b::len) * per_bus TYPE('b) = 32" "p < length xs" "length ys = length xs"
    and "\<And>i. i < per_bus TYPE('b) \<Longrightarrow> (elems xs :: 'b word list) ! mem2d (per_bus TYPE('b)) p i = elems ys ! mem2d (per_bus TYPE('b)) p i"
  shows "xs ! p = ys ! p"
proof (rule bus_word_eqI [OF assms(1)])
  let ?A = "per_bus TYPE('b)"
  fix i assume i: "i < ?A"
  let ?l = "?A - i - 1"
  have l: "?l < ?A" using i by simp
  have "(elems xs :: 'b word list) ! mem2d ?A p ?l = elems ys ! mem2d ?A p ?l" by (rule assms(4) [OF l])
  with mem2d_less [OF assms(2) l] l i assms(3) show "(bus_lane (xs ! p) i :: 'b word) = bus_lane (ys ! p) i"
    by (simp add: nth_elems mem_lane_bus)
qed

lemma post_holds:
  fixes c :: "('a::len, 'w::len) sa_cfg"
  assumes "holds c n h xs Z"
  shows "\<exists>ys. post_softmax c n h xs = Some ys \<and> length ys = length xs \<and> holds c n h ys (mat_post Z) \<and>
    (\<forall>p<length xs. h div kernel_dim c * MAX_ACT_COL c * n \<le> p \<longrightarrow> ys ! p = xs ! p)"
proof -
  note Z = holdsD [OF assms]
  let ?A = "ACT_PER_BUS c" and ?K = "kernel_dim c" and ?M = "MAX_ACT_COL c"
  have bus: "per_bus TYPE('a) = ?A" by (simp add: ACT_PER_BUS_def)
  have A: "0 < ?A" "?M * ?A = ?K" "LENGTH('a) * ?A = 32" using Z(1) by (simp_all add: cfg_okD)
  have words: "h div ?K * ?M * n * ?A = n * h"
  proof -
    have "h div ?K * ?M * n * ?A = h div ?K * (?M * ?A) * n" by (simp only: ac_simps)
    then show ?thesis using Z(2) by (simp only: A(2)) (simp add: mult.commute)
  qed
  obtain ys where ys: "post_softmax c n h xs = Some ys" "length ys = length xs"
    "\<forall>e<length (elems xs :: 'a word list). elems ys ! e =
       (if e < n * h then word_of_int (sint ((elems xs :: 'a word list) ! e) sdiv 64) else elems xs ! e :: 'a word)"
    using post_softmax_elems [OF Z(1), of n h xs] Z(3) by (auto simp: bus)
  have len: "length (elems xs :: 'a word list) = length xs * ?A" by (simp add: bus)
  have "act_at c n ys t j = mat_post Z t j" if "t < n" "j < h" for t j
  proof -
    have j: "j < h div ?K * ?K" using that(2) Z(2) by simp
    have "act_pos c n t j \<in> set (row_elems ?K n (h div ?K) t)"
      using act_pos_row [OF Z(1) that(1), of "h div ?K"] j unfolding bij_betw_def by blast
    then have "act_pos c n t j < h div ?K * n * ?K" using row_elems_bound [OF that(1)] by blast
    also have "\<dots> = n * h" using Z(2) by (simp add: mult.commute mult.left_commute)
    finally have e: "act_pos c n t j < n * h" .
    have at: "act_at c n zs t j = elems zs ! act_pos c n t j" if "length zs = length xs" for zs
      using Z(5) that by (intro act_at_elems [OF Z(1) \<open>t < n\<close> j]) simp
    have "elems xs ! act_pos c n t j = Z t j" using Z(4) [OF that] by (simp only: at [OF refl])
    moreover have "act_pos c n t j < length (elems xs :: 'a word list)" using e Z(3) unfolding len by simp
    ultimately show ?thesis using ys(3) e unfolding at [OF ys(2)] mat_post_def by simp
  qed
  moreover have "ys ! p = xs ! p" if "p < length xs" "h div ?K * ?M * n \<le> p" for p
  proof (rule sym, rule word_elems_eqI [where ?'b = 'a])
    fix i assume i: "i < per_bus TYPE('a)"
    have "n * h \<le> mem2d ?A p i" using that(2) by (simp add: mem2d_def flip: words) (metis mult_le_mono1 trans_le_add1)
    moreover have "mem2d ?A p i < length xs * ?A" using that(1) i unfolding bus by (rule mem2d_less)
    ultimately show "(elems xs :: 'a word list) ! mem2d (per_bus TYPE('a)) p i = elems ys ! mem2d (per_bus TYPE('a)) p i"
      using ys(3) by (simp add: bus)
  qed (use that A ys(2) in \<open>simp_all add: bus\<close>)
  ultimately show ?thesis using ys(1,2) Z(1-3) by (auto simp: holds_def)
qed

subsection \<open>A head on any accelerator\<close>

text \<open>A layer between \<open>d\<close> and \<open>h\<close> features that stores the matrix \<open>W\<close>.\<close>

definition layer_holds :: "('a::len, 'a) sa_cfg \<Rightarrow> nat \<Rightarrow> nat \<Rightarrow> nat \<Rightarrow> Dense \<Rightarrow> 'a matrix \<Rightarrow> bool" where
  "layer_holds c d h n l W \<longleftrightarrow> dn_multiplier l = SparseMatrixMultiplier d h n (dn_format l) \<and> kernel_dim c dvd d \<and>
     (\<exists>krn. stores_kernel c l krn \<and> (\<forall>k j. k < d \<longrightarrow> j < h \<longrightarrow> weight_at c (d div kernel_dim c) krn k j = W k j))"

text \<open>The dimensions and buffers of a head, and the matrices its buffers hold.\<close>

definition head_ok :: "('a::len, 'a) sa_cfg \<Rightarrow> nat \<Rightarrow> nat \<Rightarrow> nat \<Rightarrow> SingleHeadSelfAttn \<Rightarrow> bool" where
  "head_ok c n d h a \<longleftrightarrow> pre_seq_len a = n \<and> head_hidden_size a = h \<and> n \<le> 2 ^ 23 \<and> kernel_dim c dvd n \<and>
     tensor_ok c n h (query_layer_out a) \<and> tensor_ok c n h (key_layer_out a) \<and> tensor_ok c n h (value_layer_out a) \<and>
     tensor_ok c h n (key_transposed_layer_out a) \<and> tensor_ok c n n (attention_scores a) \<and>
     multiplier_QKT a = SparseMatrixMultiplier h n n NON_PRUNED \<and> multiplier_att_v a = SparseMatrixMultiplier n h n NON_PRUNED"

locale uniform_driver = systolic_driver c ops supported ready loading running
  for c :: "('a::len, 'a) sa_cfg" and ops :: "'s smm_ops" and supported :: bool and ready :: "'s \<Rightarrow> bool"
    and loading :: "(nat \<Rightarrow> 32 word) \<Rightarrow> nat \<Rightarrow> 's \<Rightarrow> bool"
    and running :: "(nat \<Rightarrow> 32 word) \<Rightarrow> (nat \<Rightarrow> 32 word) \<Rightarrow> nat \<Rightarrow> 's \<Rightarrow> bool"
begin

lemma layer_step:
  assumes "supported" "int_arith c" "ready s" "layer_holds c d h n l W" "holds c n d input X" "holds c n h out Z"
  shows "\<exists>s' out'. dense_compute c ops lo l seq_len input (s, out) = Some (s', out') \<and> ready s' \<and>
    holds c n h out' (mat_add Z (mat_mul d X W)) \<and> length out' = length out \<and>
    (\<forall>p<length out. h div kernel_dim c * MAX_ACT_COL c * n \<le> p \<longrightarrow> out' ! p = out ! p)"
proof -
  let ?m = "SparseMatrixMultiplier d h n (dn_format l)"
  obtain krn where l: "dn_multiplier l = ?m" "stores_kernel c l krn"
    "\<And>k j. k < d \<Longrightarrow> j < h \<Longrightarrow> weight_at c (d div kernel_dim c) krn k j = W k j"
    using assms(4) unfolding layer_holds_def by blast
  have "shapes_ok c ?m input (length out)"
    using holdsD(5) [OF assms(5)] holdsD(5) [OF assms(6)]
    by (simp add: shapes_ok_def row_in_w_def col_in_w_def SparseMatrixMultiplier_def)
  then obtain s' out' where run: "dense_compute c ops lo l seq_len input (s, out) = Some (s', out')" "ready s'" "is_product c ?m input krn out out'"
    using dense_layer_product [OF assms(1-3) l(2), of input out lo seq_len] unfolding l(1) by blast
  show ?thesis using run(1,2) product_holds [OF run(3) assms(5,6) l(3)] by blast
qed

lemma inner_step:
  assumes "supported" "int_arith c" "ready s" "holds c n d input X" "holds c d h krn B" "holds c n h out Z"
  shows "\<exists>s' out'. compute_packed c ops (SparseMatrixMultiplier d h n NON_PRUNED) input [] [] krn (s, out) = Some (s', out') \<and>
    ready s' \<and> holds c n h out' (mat_add Z (mat_mul d X B)) \<and> length out' = length out \<and>
    (\<forall>p<length out. h div kernel_dim c * MAX_ACT_COL c * n \<le> p \<longrightarrow> out' ! p = out ! p)"
proof -
  let ?m = "SparseMatrixMultiplier d h n NON_PRUNED"
  note X = holdsD [OF assms(4)] and B = holdsD [OF assms(5)] and Z = holdsD [OF assms(6)]
  have d: "d div kernel_dim c * kernel_dim c = d" using X(2) by simp
  have same: "MAX_W_COL c = MAX_ACT_COL c" by (simp add: W_PER_BUS_def ACT_PER_BUS_def MAX_W_COL_def MAX_ACT_COL_def)
  have m: "row_in_w c ?m = d div kernel_dim c" "col_in_w c ?m = h div kernel_dim c" "mult_seq_len ?m = n" "mult_format ?m = NON_PRUNED"
    by (simp_all add: row_in_w_def col_in_w_def SparseMatrixMultiplier_def)
  have "h div kernel_dim c * (d div kernel_dim c) * tile_words c = h div kernel_dim c * MAX_ACT_COL c * (d div kernel_dim c * kernel_dim c)"
    by (simp add: tile_words_def same)
  then have "kernel_ok c ?m krn" using B(5) by (simp only: kernel_ok_def m d)
  moreover have "shapes_ok c ?m input (length out)" using X(5) Z(5) by (simp add: shapes_ok_def m)
  ultimately obtain s' out' where run: "compute_packed c ops ?m input [] [] krn (s, out) = Some (s', out')" "ready s'"
    "is_product c ?m input krn out out'"
    using dense_formats_product [OF assms(1-3), of ?m krn input out "[]" "[]"] m(4) by blast
  have "weight_at c (d div kernel_dim c) krn k j = B k j" if "k < d" "j < h" for k j
    using B(4) [OF that] by (simp add: weight_at_act d)
  with run(1,2) product_holds [OF run(3) assms(4,6)] show ?thesis by blast
qed

text \<open>
  A call of a head adds the projections of its input to its buffers, and to the output the attention of what the
  buffers then hold.
\<close>

lemma head_step:
  assumes "supported" "int_arith c" "ready s" and a: "head_ok c n d h a"
    and layers: "layer_holds c d h n (query_layer a) Wq" "layer_holds c d h n (key_layer a) Wk" "layer_holds c d h n (value_layer a) Wv"
    and "holds c n d input X" "holds c n h out Z"
    and bufs: "holds c n h (query_layer_out a) Q0" "holds c n h (key_layer_out a) K0" "holds c n h (value_layer_out a) V0"
      "holds c n n (attention_scores a) S0"
  defines "Q \<equiv> mat_add Q0 (mat_mul d X Wq)" and "Km \<equiv> mat_add K0 (mat_mul d X Wk)" and "V \<equiv> mat_add V0 (mat_mul d X Wv)"
  defines "P \<equiv> mat_softmax n (mat_add S0 (mat_mul h Q (mat_transpose Km)))"
  shows "\<exists>s' a' out'. selfattn_compute c ops (int_layers c) n input (s, a, out) = Some (s', a', out') \<and> ready s' \<and>
    head_ok c n d h a' \<and> query_layer a' = query_layer a \<and> key_layer a' = key_layer a \<and> value_layer a' = value_layer a \<and>
    holds c n h (query_layer_out a') Q \<and> holds c n h (key_layer_out a') Km \<and> holds c n h (value_layer_out a') V \<and>
    holds c n n (attention_scores a') P \<and> length out' = length out \<and>
    holds c n h out' (mat_post (mat_add Z (mat_mul n P V))) \<and>
    (\<forall>p<length out. h div kernel_dim c * MAX_ACT_COL c * n \<le> p \<longrightarrow> out' ! p = out ! p)"
proof -
  let ?lo = "int_layers c"
  have dims: "pre_seq_len a = n" "head_hidden_size a = h" "n \<le> 2 ^ 23" "kernel_dim c dvd n" "multiplier_QKT a = SparseMatrixMultiplier h n n NON_PRUNED"
    "multiplier_att_v a = SparseMatrixMultiplier n h n NON_PRUNED" using a by (simp_all add: head_ok_def)
  obtain s1 q where q: "dense_compute c ops ?lo (query_layer a) n input (s, query_layer_out a) = Some (s1, q)" "ready s1"
    "holds c n h q Q" "length q = length (query_layer_out a)"
    using layer_step [OF assms(1-3) layers(1) assms(8) bufs(1)] unfolding Q_def by blast
  obtain s2 k where k: "dense_compute c ops ?lo (key_layer a) n input (s1, key_layer_out a) = Some (s2, k)" "ready s2"
    "holds c n h k Km" "length k = length (key_layer_out a)"
    using layer_step [OF assms(1,2) q(2) layers(2) assms(8) bufs(2)] unfolding Km_def by blast
  obtain s3 v where v: "dense_compute c ops ?lo (value_layer a) n input (s2, value_layer_out a) = Some (s3, v)" "ready s3"
    "holds c n h v V" "length v = length (value_layer_out a)"
    using layer_step [OF assms(1,2) k(2) layers(3) assms(8) bufs(3)] unfolding V_def by blast
  note kD = holdsD [OF k(3)]
  have okT: "tensor_ok c h n (key_transposed_layer_out a)" using a by (simp add: head_ok_def)
  have "\<exists>ys. transpose_rearranged c k h n (key_transposed_layer_out a) = Some ys \<and> length ys = length (key_transposed_layer_out a) \<and>
      (\<forall>t<h. \<forall>u<n. act_at c h ys t u = act_at c n k u t)"
    using kD(2,5) dims(4) tensor_okD(6) [OF okT] by (intro transpose_rearranged_spec [OF kD(1), where C = "h div kernel_dim c" and R = "n div kernel_dim c"]) simp_all
  then obtain kt where kt: "transpose_rearranged c k h n (key_transposed_layer_out a) = Some kt" "length kt = length (key_transposed_layer_out a)"
    "\<forall>t<h. \<forall>u<n. act_at c h kt t u = act_at c n k u t" by blast
  have okT': "tensor_ok c h n kt" by (rule tensor_ok_length [OF okT kt(2)])
  then have ktm: "holds c h n kt (mat_transpose Km)"
    using kt(3) kD(4) by (simp add: holds_def tensor_ok_def mat_transpose_def)
  obtain s4 sc where sc: "compute_packed c ops (SparseMatrixMultiplier h n n NON_PRUNED) q [] [] kt (s3, attention_scores a) = Some (s4, sc)" "ready s4"
    "holds c n n sc (mat_add S0 (mat_mul h Q (mat_transpose Km)))" "length sc = length (attention_scores a)"
    using inner_step [OF assms(1,2) v(2) q(3) ktm bufs(4)] by blast
  have "tensor_ok c n n (attention_scores a)" using a by (simp add: head_ok_def)
  then have okS: "tensor_ok c n n sc" using sc(4) by (rule tensor_ok_length)
  obtain p where p: "softmax_computeRearranged c n sc = Some p" "length p = length sc" "holds c n n p P"
    using softmax_holds [OF okS dims(3) sc(3)] unfolding P_def by blast
  obtain s5 o1 where o1: "compute_packed c ops (SparseMatrixMultiplier n h n NON_PRUNED) p [] [] v (s4, out) = Some (s5, o1)" "ready s5"
    "holds c n h o1 (mat_add Z (mat_mul n P V))" "length o1 = length out"
    "\<forall>x<length out. h div kernel_dim c * MAX_ACT_COL c * n \<le> x \<longrightarrow> o1 ! x = out ! x"
    using inner_step [OF assms(1,2) sc(2) p(3) v(3) assms(9)] by blast
  obtain o2 where o2: "post_softmax c n h o1 = Some o2" "length o2 = length o1" "holds c n h o2 (mat_post (mat_add Z (mat_mul n P V)))"
    "\<forall>x<length o1. h div kernel_dim c * MAX_ACT_COL c * n \<le> x \<longrightarrow> o2 ! x = o1 ! x"
    using post_holds [OF o1(3)] by blast
  let ?a = "a\<lparr>query_layer_out := q, key_layer_out := k, key_transposed_layer_out := kt, value_layer_out := v, attention_scores := p\<rparr>"
  have "selfattn_compute c ops ?lo n input (s, a, out) = Some (s5, ?a, o2)"
    using q(1) k(1) v(1) kt(1) sc(1) p(1) o1(1) o2(1) dims by (simp add: selfattn_compute_def int_layers_def)
  moreover have "head_ok c n d h ?a"
    using a q(4) k(4) v(4) okT' sc(4) p(2) by (auto simp: head_ok_def tensor_ok_def)
  ultimately show ?thesis using o1 o2 q(3) k(3) v(3) p(3)
    by (intro exI [of _ s5] exI [of _ ?a] exI [of _ o2]) simp
qed

end

interpretation uniform_gem5: uniform_driver c "gem5_ops c th" "gem5_supported c" "on_tile (tile_wf c)"
  "\<lambda>vals k. on_tile (loaded c vals k)" "\<lambda>vals u n. on_tile (tile_run c vals u n)"
  for c :: "('a::len, 'a) sa_cfg" and th
  by unfold_locales

interpretation uniform_develop: uniform_driver c "develop_ops c" "develop_supported c" "on_first (tile_wf c)"
  "\<lambda>vals k. on_first (loaded c vals k)" "\<lambda>vals u n. on_first (tile_run c vals u n)"
  for c :: "('a::len, 'a) sa_cfg"
  by unfold_locales

subsection \<open>A fresh head\<close>

lemma zero_tensor:
  fixes c :: "('a::len, 'w::len) sa_cfg"
  assumes "cfg_ok c" "kernel_dim c dvd d"
  shows "tensor_ok c n d (replicate (n * d div ACT_PER_BUS c) 0)" "holds c n d (replicate (n * d div ACT_PER_BUS c) 0) (\<lambda>t j. 0)"
proof -
  let ?z = "replicate (n * d div ACT_PER_BUS c) 0 :: 32 word list"
  have A: "ACT_PER_BUS c dvd d" using assms by (auto simp: cfg_ok_def intro: dvd_trans)
  then show ok: "tensor_ok c n d ?z" using assms by (simp add: tensor_ok_def)
  have "act_at c n ?z t j = 0" if "t < n" "j < d" for t j
  proof -
    have "act_pos c n t j < length (elems ?z :: 'a word list)"
      using blocked_act(2) [OF ok that] row_partitionD(2) [OF tensor_okD(9) [OF ok] that(1)] by blast
    moreover have "(elems ?z :: 'a word list) ! e = 0" if "e < length (elems ?z :: 'a word list)" for e
      using that tensor_okD(4) [OF ok] by (simp add: nth_elems mem_lane_def less_mult_imp_div_less)
    ultimately show ?thesis by (simp only: blocked_act(1) [OF ok that])
  qed
  then show "holds c n d ?z (\<lambda>t j. 0)" using ok by (simp add: holds_def tensor_ok_def)
qed

lemma fresh_head:
  fixes c :: "('a::len, 'a) sa_cfg"
  assumes "cfg_ok c" "kernel_dim c dvd n" "kernel_dim c dvd h" "n \<le> 2 ^ 23" "a = SingleHeadSelfAttn c n d h hf q k v"
  shows "head_ok c n d h a" "holds c n h (query_layer_out a) (\<lambda>t j. 0)" "holds c n h (key_layer_out a) (\<lambda>t j. 0)"
    "holds c n h (value_layer_out a) (\<lambda>t j. 0)" "holds c n n (attention_scores a) (\<lambda>t j. 0)"
    "query_layer a = q" "key_layer a = k" "value_layer a = v"
  using zero_tensor [OF assms(1,3), of n] zero_tensor [OF assms(1,2), of n] zero_tensor(1) [OF assms(1,2), of h] assms(2,4)
  by (simp_all add: assms(5) SingleHeadSelfAttn_def Let_def head_ok_def mult.commute)

lemma mat_add_zero [simp]: "mat_add (\<lambda>t j. 0) A = A"
  by (simp add: mat_add_def)

subsection \<open>Properties\<close>

text \<open>C13: A new head on the simulated accelerator, with integer arithmetic and activations as wide as weights, implements
  attention: from an output area of zeros it writes the matrix of the specification, and nothing behind it. The dimensions are
  multiples of the array size, with at most \<open>2 ^ 23\<close> rows. The projections have no bias and are stored without pruning, or in one of
  the six sparse formats as its writer produces it under the conditions of \<open>stores_kernel\<close>: large enough arrays for the
  compressed and two-level formats, flags that mark exactly the zero tiles, a key that starts no non-zero tile, and for interleaved
  metadata at least 32 tiles in a block column and blocks that fit the buffer of the writer.\<close>

theorem gem5_attention:
  fixes c :: "('a::len, 'a) sa_cfg"
  assumes "gem5_supported c" "int_arith c" "on_tile (tile_wf c) s" "kernel_dim c dvd n" "kernel_dim c dvd h" "n \<le> 2 ^ 23"
    and "layer_holds c d h n q Wq" "layer_holds c d h n k Wk" "layer_holds c d h n v Wv"
    and "holds c n d input X" "holds c n h out (\<lambda>t j. 0)"
  shows "\<exists>s' a' out'. selfattn_compute c (gem5_ops c th) (int_layers c) n input (s, SingleHeadSelfAttn c n d h hf q k v, out) =
      Some (s', a', out') \<and> on_tile (tile_wf c) s' \<and> length out' = length out \<and>
    holds c n h out' (attention n d h X Wq Wk Wv) \<and>
    (\<forall>p. p < length out \<longrightarrow> h div kernel_dim c * MAX_ACT_COL c * n \<le> p \<longrightarrow> out' ! p = out ! p)"
proof -
  have ok: "cfg_ok c" using assms(1) by (simp add: gem5_supported_def)
  note fresh = fresh_head [OF ok assms(4-6) refl, of d hf q k v]
  have "\<exists>s' a' out'. selfattn_compute c (gem5_ops c th) (int_layers c) n input (s, SingleHeadSelfAttn c n d h hf q k v, out) =
      Some (s', a', out') \<and> on_tile (tile_wf c) s' \<and> length out' = length out \<and>
    holds c n h out' (mat_post (mat_add (\<lambda>t j. 0) (mat_mul n (mat_softmax n (mat_add (\<lambda>t j. 0)
      (mat_mul h (mat_add (\<lambda>t j. 0) (mat_mul d X Wq)) (mat_transpose (mat_add (\<lambda>t j. 0) (mat_mul d X Wk)))))) (mat_add (\<lambda>t j. 0) (mat_mul d X Wv))))) \<and>
    (\<forall>p<length out. h div kernel_dim c * MAX_ACT_COL c * n \<le> p \<longrightarrow> out' ! p = out ! p)"
    using uniform_gem5.head_step [OF assms(1-3) fresh(1) _ _ _ assms(10,11) fresh(2-5), unfolded fresh(6-8), OF assms(7-9), of th] by blast
  then show ?thesis unfolding mat_add_zero attention_def .
qed

definition uni_cfg :: "(16, 16) sa_cfg" where
  "uni_cfg = int_cfg 2"

definition uni_dense :: "32 word list \<Rightarrow> Dense" where
  "uni_dense w = Dense_packed 2 2 2 w [] [] NON_PRUNED"

lemma uni_simps [simp]:
  "kernel_dim uni_cfg = 2" "ACT_PER_BUS uni_cfg = 2" "W_PER_BUS uni_cfg = 2" "MAX_ACT_COL uni_cfg = 1" "MAX_W_COL uni_cfg = 1"
  "gem5_supported uni_cfg" "int_arith uni_cfg"
  by (simp_all add: uni_cfg_def int_cfg_def ACT_PER_BUS_def W_PER_BUS_def MAX_ACT_COL_def MAX_W_COL_def per_bus_def
      BUS_WIDTH_def CEILING_DIV_def gem5_supported_def cfg_ok_def int_arith_def)

lemma uni_layer: "length w = 2 \<Longrightarrow> layer_holds uni_cfg 2 2 2 (uni_dense w) (weight_at uni_cfg 1 w)"
  by (auto simp: layer_holds_def uni_dense_def Dense_packed_def Dense_base_def stores_kernel_def Let_def dims_ok_def
      SparseMatrixMultiplier_def kernel_ok_def row_in_w_def col_in_w_def tile_words_def)

lemma uni_dims: "kernel_dim uni_cfg dvd 2" "(2 :: nat) \<le> 2 ^ 23"
  by simp_all

lemma uni_holds: "holds uni_cfg 2 2 [x, y] (act_at uni_cfg 2 [x, y])"
  using uni_simps(6) by (simp add: holds_def gem5_supported_def)

lemma uni_zero: "holds uni_cfg 2 2 [0, 0] (\<lambda>t j. 0)"
proof -
  have "2 * 2 div ACT_PER_BUS uni_cfg = Suc (Suc 0)" by simp
  then have "replicate (2 * 2 div ACT_PER_BUS uni_cfg) 0 = [0, 0 :: 32 word]" by (simp only: replicate.simps)
  then show ?thesis using zero_tensor(2) [of uni_cfg 2 2] uni_simps(6) by (simp add: gem5_supported_def)
qed

lemma uni_ready: "on_tile (tile_wf uni_cfg) ((\<lambda>_. 0), smm_create uni_cfg 0 0 1)"
  by (simp add: on_tile_def smm_create_def get_tile_def rdi_def rd_def SATile_wf)

theorem gem5_attention_witness:
  "\<exists>s' a' out'. selfattn_compute uni_cfg (gem5_ops uni_cfg 0) (int_layers uni_cfg) 2 [1, 2]
     (((\<lambda>_. 0), smm_create uni_cfg 0 0 1), SingleHeadSelfAttn uni_cfg 2 2 2 [] (uni_dense [1, 2]) (uni_dense [3, 4]) (uni_dense [5, 6]), [0, 0]) =
       Some (s', a', out') \<and> holds uni_cfg 2 2 out' (attention 2 2 2 (act_at uni_cfg 2 [1, 2])
         (weight_at uni_cfg 1 [1, 2]) (weight_at uni_cfg 1 [3, 4]) (weight_at uni_cfg 1 [5, 6]))"
proof -
  have "layer_holds uni_cfg 2 2 2 (uni_dense [x, y]) (weight_at uni_cfg 1 [x, y])" for x y by (rule uni_layer) simp
  note layers = this [of 1 2] this [of 3 4] this [of 5 6]
  from gem5_attention [OF uni_simps(6,7) uni_ready uni_dims(1) uni_dims(1,2) layers uni_holds [of 1 2] uni_zero, of 0 "[]"]
  show ?thesis by (elim exE conjE) (intro exI conjI)
qed

text \<open>C28: A head keeps its buffers: a second call with the same input doubles the queries and keys and adds the new scores to
  the probabilities of the first call, so it does not compute the attention of its input.\<close>

theorem attention_second_call:
  fixes c :: "('a::len, 'a) sa_cfg"
  assumes "gem5_supported c" "int_arith c" "on_tile (tile_wf c) s" "kernel_dim c dvd n" "kernel_dim c dvd h" "n \<le> 2 ^ 23"
    and "layer_holds c d h n q Wq" "layer_holds c d h n k Wk" "layer_holds c d h n v Wv"
    and "holds c n d input X" "holds c n h out Z" "holds c n h out2 Z2"
    and "Q = mat_mul d X Wq" "Km = mat_mul d X Wk" "P = mat_softmax n (mat_mul h Q (mat_transpose Km))"
  shows "\<exists>s1 a1 o1 s2 a2 o2. selfattn_compute c (gem5_ops c th) (int_layers c) n input (s, SingleHeadSelfAttn c n d h hf q k v, out) = Some (s1, a1, o1) \<and>
    holds c n n (attention_scores a1) P \<and>
    selfattn_compute c (gem5_ops c th) (int_layers c) n input (s1, a1, out2) = Some (s2, a2, o2) \<and>
    holds c n h (query_layer_out a2) (mat_add Q Q) \<and> holds c n h (key_layer_out a2) (mat_add Km Km) \<and>
    holds c n n (attention_scores a2) (mat_softmax n (mat_add P (mat_mul h (mat_add Q Q) (mat_transpose (mat_add Km Km)))))"
proof -
  have ok: "cfg_ok c" using assms(1) by (simp add: gem5_supported_def)
  note fresh = fresh_head [OF ok assms(4-6) refl, of d hf q k v]
  let ?V = "mat_mul d X Wv"
  obtain s1 a1 o1 where 1: "selfattn_compute c (gem5_ops c th) (int_layers c) n input (s, SingleHeadSelfAttn c n d h hf q k v, out) = Some (s1, a1, o1)"
    "on_tile (tile_wf c) s1" "head_ok c n d h a1" "query_layer a1 = q" "key_layer a1 = k" "value_layer a1 = v"
    "holds c n h (query_layer_out a1) Q" "holds c n h (key_layer_out a1) Km" "holds c n h (value_layer_out a1) ?V" "holds c n n (attention_scores a1) P"
    using uniform_gem5.head_step [OF assms(1-3) fresh(1) _ _ _ assms(10,11) fresh(2-5), unfolded fresh(6-8), OF assms(7-9), of th]
    unfolding mat_add_zero assms(13-15) by blast
  show ?thesis
    using 1(1,10) uniform_gem5.head_step [OF assms(1,2) 1(2,3) _ _ _ assms(10,12) 1(7-10), unfolded 1(4-6), OF assms(7-9), of th]
    unfolding assms(13,14) [symmetric] by blast
qed

theorem attention_second_call_witness:
  "\<exists>s1 a1 o1 s2 a2 o2. selfattn_compute uni_cfg (gem5_ops uni_cfg 0) (int_layers uni_cfg) 2 [1, 2]
      (((\<lambda>_. 0), smm_create uni_cfg 0 0 1), SingleHeadSelfAttn uni_cfg 2 2 2 [] (uni_dense [1, 2]) (uni_dense [3, 4]) (uni_dense [5, 6]), [0, 0]) =
        Some (s1, a1, o1) \<and>
    selfattn_compute uni_cfg (gem5_ops uni_cfg 0) (int_layers uni_cfg) 2 [1, 2] (s1, a1, [0, 0]) = Some (s2, a2, o2) \<and>
    holds uni_cfg 2 2 (query_layer_out a2) (mat_add (mat_mul 2 (act_at uni_cfg 2 [1, 2]) (weight_at uni_cfg 1 [1, 2]))
      (mat_mul 2 (act_at uni_cfg 2 [1, 2]) (weight_at uni_cfg 1 [1, 2])))"
proof -
  have "layer_holds uni_cfg 2 2 2 (uni_dense [x, y]) (weight_at uni_cfg 1 [x, y])" for x y by (rule uni_layer) simp
  note layers = this [of 1 2] this [of 3 4] this [of 5 6]
  from attention_second_call [OF uni_simps(6,7) uni_ready uni_dims(1) uni_dims(1,2) layers uni_holds [of 1 2] uni_zero uni_zero refl refl refl, of 0 "[]"]
  show ?thesis by (elim exE conjE) (intro exI conjI)
qed

end
