(* ===== verification/TiC_Block.thy ===== *)
theory TiC_Block
  imports TiC_Attention
begin

text \<open>
  One transformer block, \<^verbatim>\<open>transformer_layers/transformerBlock.cc\<close>: the attention heads write side by side into one tensor,
  which is condensed, added to the input and normalised, and passed through two more layers with a second normalisation.
  The array \<^verbatim>\<open>selfatten\<close> has sixteen entries, an unset one being \<open>None\<close>; a pointer into the middle of a tensor is the rest of
  the list from that word on. The tensors are distinct arrays, as the caller allocates them.
\<close>

subsection \<open>Model\<close>

record TransformerBlock =
  tb_num_heads :: nat
  tb_head_hidden_size :: nat
  tb_input_dim :: nat
  tb_ff_size :: nat
  selfatten :: "SingleHeadSelfAttn option list"
  addNorm :: AddNormalize
  condense :: Dense
  feedForward0 :: Dense
  feedForward1 :: Dense

definition TransformerBlock ::
  "('a::len, 'w::len) sa_cfg \<Rightarrow> nat \<Rightarrow> nat \<Rightarrow> nat \<Rightarrow> nat \<Rightarrow> nat \<Rightarrow> SingleHeadSelfAttn option list \<Rightarrow> Dense \<Rightarrow> Dense \<Rightarrow> Dense
     \<Rightarrow> TransformerBlock" where
  "TransformerBlock c n idim h num_heads ff heads cond ff0 ff1 =
     \<lparr>tb_num_heads = num_heads, tb_head_hidden_size = h, tb_input_dim = idim, tb_ff_size = ff, selfatten = heads,
      addNorm = AddNormalize n idim (kernel_dim c) (MAX_ACT_COL c), condense = cond, feedForward0 = ff0, feedForward1 = ff1\<rparr>"

definition TransformerBlock_packed ::
  "('a::len, 'w::len) sa_cfg \<Rightarrow> nat \<Rightarrow> nat \<Rightarrow> nat \<Rightarrow> nat \<Rightarrow> nat \<Rightarrow> 32 word list list \<Rightarrow> 32 word list list \<Rightarrow> 32 word list
     \<Rightarrow> Format \<Rightarrow> Format \<Rightarrow> Format \<Rightarrow> Format \<Rightarrow> TransformerBlock option" where
  "TransformerBlock_packed c n idim h num_heads ff weightVector flagVector hidden_flag fQVK fCondense fFF0 fFF1 = do {
     heads \<leftarrow> for_list [0..<num_heads] (\<lambda>i heads. do {
       a \<leftarrow> SelfAttn_packed c n idim h (drop (i * 3) weightVector) (drop (i * 3) flagVector) hidden_flag fQVK;
       wr heads i (Some a)
     }) (replicate 16 None);
     wc \<leftarrow> rd weightVector (num_heads * 3); fc \<leftarrow> rd flagVector (num_heads * 3);
     w0 \<leftarrow> rd weightVector (num_heads * 3 + 1); f0 \<leftarrow> rd flagVector (num_heads * 3 + 1);
     w1 \<leftarrow> rd weightVector (num_heads * 3 + 2); f1 \<leftarrow> rd flagVector (num_heads * 3 + 2);
     Some (TransformerBlock c n idim h num_heads ff heads (Dense_packed n (num_heads * h) idim wc fc hidden_flag fCondense)
       (Dense_packed n idim ff w0 f0 hidden_flag fFF0) (Dense_packed n ff idim w1 f1 hidden_flag fFF1))
   }"

definition TransformerBlock_indexed ::
  "('a::len, 'w::len) sa_cfg \<Rightarrow> nat \<Rightarrow> nat \<Rightarrow> nat \<Rightarrow> nat \<Rightarrow> nat \<Rightarrow> 32 word list list \<Rightarrow> nat list list \<Rightarrow> nat list list
     \<Rightarrow> nat list list \<Rightarrow> Format \<Rightarrow> TransformerBlock option" where
  "TransformerBlock_indexed c n idim h num_heads ff weightVector col_ptr row_ptr vals format = do {
     heads \<leftarrow> for_list [0..<num_heads] (\<lambda>i heads. do {
       a \<leftarrow> SelfAttn_indexed c n idim h (drop (i * 3) weightVector) (drop (i * 3) col_ptr) (drop (i * 3) row_ptr) (drop (i * 3) vals) format;
       wr heads i (Some a)
     }) (replicate 16 None);
     wc \<leftarrow> rd weightVector (num_heads * 3); cc \<leftarrow> rd col_ptr (num_heads * 3);
     rc \<leftarrow> rd row_ptr (num_heads * 3); vc \<leftarrow> rd vals (num_heads * 3);
     w0 \<leftarrow> rd weightVector (num_heads * 3 + 1); c0 \<leftarrow> rd col_ptr (num_heads * 3 + 1);
     r0 \<leftarrow> rd row_ptr (num_heads * 3 + 1); v0 \<leftarrow> rd vals (num_heads * 3 + 1);
     w1 \<leftarrow> rd weightVector (num_heads * 3 + 2); c1 \<leftarrow> rd col_ptr (num_heads * 3 + 2);
     r1 \<leftarrow> rd row_ptr (num_heads * 3 + 2); v1 \<leftarrow> rd vals (num_heads * 3 + 2);
     Some (TransformerBlock c n idim h num_heads ff heads (Dense_indexed n (num_heads * h) idim wc cc rc vc format)
       (Dense_indexed n idim ff w0 c0 r0 v0 format) (Dense_indexed n ff idim w1 c1 r1 v1 format))
   }"

text \<open>The call of head \<open>i\<close> in the loop of \<^verbatim>\<open>compute\<close>: it writes from word \<open>off\<close> on.\<close>

definition head_compute ::
  "('a::len, 'w::len) sa_cfg \<Rightarrow> 's smm_ops \<Rightarrow> layer_ops \<Rightarrow> nat \<Rightarrow> 32 word list \<Rightarrow> nat \<Rightarrow> nat
     \<Rightarrow> 's \<times> SingleHeadSelfAttn option list \<times> 32 word list \<Rightarrow> ('s \<times> SingleHeadSelfAttn option list \<times> 32 word list) option" where
  "head_compute c ops lo seq_len input off i = (\<lambda>(s, heads, multihead_out). do {
     p \<leftarrow> rd heads i;
     a \<leftarrow> p;
     assert_c (off \<le> length multihead_out);
     (s, a, out) \<leftarrow> selfattn_compute c ops lo seq_len input (s, a, drop off multihead_out);
     heads \<leftarrow> wr heads i (Some a);
     Some (s, heads, take off multihead_out @ out)
   })"

record block_buffers =
  bb_output :: "32 word list"
  bb_multihead_out :: "32 word list"
  bb_condense_out :: "32 word list"
  bb_intermediateFF :: "32 word list"

definition block_compute ::
  "('a::len, 'w::len) sa_cfg \<Rightarrow> 's smm_ops \<Rightarrow> layer_ops \<Rightarrow> nat \<Rightarrow> 32 word list \<Rightarrow> 's \<times> TransformerBlock \<times> block_buffers
     \<Rightarrow> ('s \<times> TransformerBlock \<times> block_buffers) option" where
  "block_compute c ops lo seq_len input = (\<lambda>(s, b, buf). do {
     (s, heads, multihead_out) \<leftarrow> for_list [0..<tb_num_heads b]
       (\<lambda>i. head_compute c ops lo seq_len input (i * (seq_len * tb_head_hidden_size b div 4)) i) (s, selfatten b, bb_multihead_out buf);
     (s, condense_out) \<leftarrow> dense_compute c ops lo (condense b) seq_len multihead_out (s, bb_condense_out buf);
     condense_out \<leftarrow> lo_addnorm lo (addNorm b) input condense_out;
     (s, intermediateFF) \<leftarrow> dense_compute c ops lo (feedForward0 b) seq_len condense_out (s, bb_intermediateFF buf);
     (s, out) \<leftarrow> dense_compute c ops lo (feedForward1 b) seq_len intermediateFF (s, bb_output buf);
     out \<leftarrow> lo_addnorm lo (addNorm b) condense_out out;
     Some (s, b\<lparr>selfatten := heads\<rparr>, \<lparr>bb_output = out, bb_multihead_out = multihead_out, bb_condense_out = condense_out,
       bb_intermediateFF = intermediateFF\<rparr>)
   })"

text \<open>The tensors of a block as the caller allocates them.\<close>

definition zero_buffers :: "('a::len, 'w::len) sa_cfg \<Rightarrow> nat \<Rightarrow> nat \<Rightarrow> nat \<Rightarrow> nat \<Rightarrow> nat \<Rightarrow> block_buffers" where
  "zero_buffers c n d h nh ff = \<lparr>bb_output = replicate (n * d div ACT_PER_BUS c) 0,
     bb_multihead_out = replicate (n * nh * h div ACT_PER_BUS c) 0, bb_condense_out = replicate (n * d div ACT_PER_BUS c) 0,
     bb_intermediateFF = replicate (n * ff div ACT_PER_BUS c) 0\<rparr>"

subsection \<open>The specification\<close>

text \<open>Residual addition and row normalisation of matrices, undefined when it is for some row.\<close>

definition mat_addnorm :: "('a::len, 'w::len) sa_cfg \<Rightarrow> nat \<Rightarrow> nat \<Rightarrow> 'a matrix \<Rightarrow> 'a matrix \<Rightarrow> 'a matrix option" where
  "mat_addnorm c n d X Y = (let row = (\<lambda>t. addnorm_row c d (read_row c d (Y t)) (read_row c d (X t))) in
     if \<exists>t\<in>{..<n}. row t = None then None else Some (\<lambda>t j. the (row t) ! mirror (ACT_PER_BUS c) j))"

text \<open>Head \<open>i\<close> fills the columns from \<open>i * h\<close> on.\<close>

definition mat_heads :: "nat \<Rightarrow> (nat \<Rightarrow> 'a::len matrix) \<Rightarrow> 'a matrix" where
  "mat_heads h H = (\<lambda>t j. H (j div h) t (j mod h))"

text \<open>The block with the kernels \<open>W\<close>: three per head, then the condensing layer and the two of the feed-forward network.\<close>

definition transformer_block ::
  "('a::len, 'w::len) sa_cfg \<Rightarrow> nat \<Rightarrow> nat \<Rightarrow> nat \<Rightarrow> nat \<Rightarrow> nat \<Rightarrow> 'a matrix \<Rightarrow> (nat \<Rightarrow> 'a matrix) \<Rightarrow> 'a matrix option" where
  "transformer_block c n d h nh ff X W = do {
     let M = mat_heads h (\<lambda>i. attention n d h X (W (i * 3)) (W (i * 3 + 1)) (W (i * 3 + 2)));
     A \<leftarrow> mat_addnorm c n d X (mat_mul (nh * h) M (W (nh * 3)));
     mat_addnorm c n d A (mat_mul ff (mat_mul d A (W (nh * 3 + 1))) (W (nh * 3 + 2)))
   }"

lemma addnorm_holds:
  fixes c :: "('a::len, 'w::len) sa_cfg"
  assumes "tensor_ok c n d out" "length inp = length out" "holds c n d inp X" "holds c n d out Y"
  shows "case mat_addnorm c n d X Y of
      None \<Rightarrow> addnorm_computeRearranged c (AddNormalize n d (kernel_dim c) mc) inp out = None
    | Some Z \<Rightarrow> \<exists>ys. addnorm_computeRearranged c (AddNormalize n d (kernel_dim c) mc) inp out = Some ys \<and> length ys = length out \<and> holds c n d ys Z"
proof -
  let ?row = "\<lambda>t. addnorm_row c d (read_row c d (Y t)) (read_row c d (X t))"
  note ok = tensor_okD [OF assms(1)]
  have A: "0 < ACT_PER_BUS c" using ok(1) by (simp add: cfg_okD)
  have "read_row c d (act_at c n xs t) = read_row c d (M t)" if "holds c n d xs M" "t < n" for xs t M
    using holdsD(4) [OF that] mirror_less [OF ok(3) A] by (simp add: read_row_def)
  note rows = this [OF assms(3)] this [OF assms(4)]
  note spec = addnorm_blocked [OF assms(1,2), of mc]
  show ?thesis
  proof (cases "addnorm_computeRearranged c (AddNormalize n d (kernel_dim c) mc) inp out")
    case None
    then obtain t where "t < n" "?row t = None" using spec rows by auto
    then have "\<exists>t\<in>{..<n}. ?row t = None" by blast
    then have "mat_addnorm c n d X Y = None" by (simp only: mat_addnorm_def Let_def if_True)
    then show ?thesis using None by simp
  next
    case (Some ys)
    then have ys: "length ys = length out" "\<And>t. t < n \<Longrightarrow> ?row t = Some (read_row c d (act_at c n ys t))"
      using spec rows by auto
    define Z where "Z = (\<lambda>t j. the (?row t) ! mirror (ACT_PER_BUS c) j)"
    have "mat_addnorm c n d X Y = Some Z" using ys(2) by (auto simp: mat_addnorm_def Let_def Z_def)
    moreover have "act_at c n ys t j = Z t j" if "t < n" "j < d" for t j
      using ys(2) [OF that(1)] nth_read_row [OF ok(1,3) that(2)] by (simp add: Z_def)
    then have "holds c n d ys Z" using holdsD(1-3) [OF assms(4)] ys(1) by (simp add: holds_def)
    ultimately show ?thesis using Some ys(1) by simp
  qed
qed

subsection \<open>The constructor\<close>

definition packed_head ::
  "('a::len, 'w::len) sa_cfg \<Rightarrow> nat \<Rightarrow> nat \<Rightarrow> nat \<Rightarrow> 32 word list list \<Rightarrow> 32 word list list \<Rightarrow> 32 word list \<Rightarrow> Format \<Rightarrow> nat \<Rightarrow> SingleHeadSelfAttn" where
  "packed_head c n d h wv fv hf f i = (let l = (\<lambda>k. Dense_packed n d h (wv ! k) (fv ! k) hf f) in
     SingleHeadSelfAttn c n d h hf (l (i * 3)) (l (i * 3 + 1)) (l (i * 3 + 2)))"

lemma packed_heads_run:
  assumes "nh * 3 \<le> length wv" "nh * 3 \<le> length fv"
  shows "for_list [0..<nh] (\<lambda>i heads. do {
       a \<leftarrow> SelfAttn_packed c n d h (drop (i * 3) wv) (drop (i * 3) fv) hf f;
       wr heads i (Some a)
     }) (replicate 16 None) =
     (if nh \<le> 16 then Some (map (\<lambda>i. Some (packed_head c n d h wv fv hf f i)) [0..<nh] @ replicate (16 - nh) None) else None)"
  using assms
proof (induction nh)
  case 0
  then show ?case by simp
next
  case (Suc nh)
  have head: "SelfAttn_packed c n d h (drop (nh * 3) wv) (drop (nh * 3) fv) hf f = Some (packed_head c n d h wv fv hf f nh)"
    using Suc.prems by (auto simp: SelfAttn_packed_def packed_head_def rd_def Let_def)
  have upd: "replicate (16 - nh) None = None # replicate (16 - Suc nh) (None :: SingleHeadSelfAttn option)" if "nh < 16"
    using that by (simp add: Suc_diff_Suc flip: replicate_Suc)
  show ?case using Suc by (simp add: for_list_append head) (auto simp: wr_def list_update_append upd)
qed

lemma packed_block:
  assumes "nh \<le> 16" "nh * 3 + 3 \<le> length wv" "nh * 3 + 3 \<le> length fv"
  shows "TransformerBlock_packed c n d h nh ff wv fv hf fQ fC f0 f1 = Some (TransformerBlock c n d h nh ff
      (map (\<lambda>i. Some (packed_head c n d h wv fv hf fQ i)) [0..<nh] @ replicate (16 - nh) None)
      (Dense_packed n (nh * h) d (wv ! (nh * 3)) (fv ! (nh * 3)) hf fC)
      (Dense_packed n d ff (wv ! (nh * 3 + 1)) (fv ! (nh * 3 + 1)) hf f0) (Dense_packed n ff d (wv ! (nh * 3 + 2)) (fv ! (nh * 3 + 2)) hf f1))"
  using assms by (simp add: TransformerBlock_packed_def packed_heads_run rd_def)

subsection \<open>Heads side by side\<close>

lemma act_at_drop:
  fixes c :: "('a::len, 'w::len) sa_cfg"
  assumes "cfg_ok c" "kernel_dim c dvd h" "i * (h div kernel_dim c * MAX_ACT_COL c * n) \<le> length xs"
  shows "act_at c n (drop (i * (h div kernel_dim c * MAX_ACT_COL c * n)) xs) t j = act_at c n xs t (i * h + j)"
proof -
  let ?K = "kernel_dim c" and ?b = "h div kernel_dim c"
  have K: "0 < ?K" "ACT_PER_BUS c dvd ?K" using assms(1) by (simp_all add: cfg_ok_def)
  have h: "h = ?b * ?K" using assms(2) by simp
  have e: "i * h + j = j + (i * ?b) * ?K" by (subst h) (simp add: ac_simps)
  have "(i * h + j) div ?K = i * ?b + j div ?K" "(i * h + j) mod ?K = j mod ?K" unfolding e using K(1) by simp_all
  moreover have "(i * h + j) mod ACT_PER_BUS c = j mod ACT_PER_BUS c"
    using dvd_trans [OF K(2) assms(2)] by (metis dvd_mult mod_add_left_eq add_0 dvd_imp_mod_0)
  ultimately show ?thesis using assms(3) by (simp add: act_at_def algebra_simps)
qed

lemma act_at_prefix:
  fixes c :: "('a::len, 'w::len) sa_cfg"
  assumes "cfg_ok c" "t < n" "j < b * kernel_dim c" "b * MAX_ACT_COL c * n \<le> m" "m \<le> length xs" "take m ys = take m xs" "m \<le> length ys"
  shows "act_at c n ys t j = act_at c n xs t j"
proof -
  let ?K = "kernel_dim c" and ?A = "ACT_PER_BUS c" and ?M = "MAX_ACT_COL c"
  let ?w = "j div ?K * ?M * n + t * ?M + j mod ?K div ?A"
  have A: "0 < ?A" "0 < ?K" "?M * ?A = ?K" using assms(1) by (simp_all add: cfg_okD cfg_ok_def)
  have "j mod ?K div ?A < ?M" using A by (simp add: less_mult_imp_div_less)
  moreover have "mem2d n (j div ?K) t < b * n" using assms(2,3) by (intro mem2d_less) (simp_all add: less_mult_imp_div_less)
  ultimately have "mem2d ?M (mem2d n (j div ?K) t) (j mod ?K div ?A) < b * n * ?M" by (rule mem2d_less [rotated])
  then have "?w < m" using assms(4) by (simp add: mem2d_def algebra_simps)
  then have "ys ! ?w = xs ! ?w" using assms(5-7) by (metis nth_take)
  then show ?thesis by (simp only: act_at_def)
qed

lemma holds_zeros:
  fixes c :: "('a::len, 'w::len) sa_cfg"
  assumes "cfg_ok c" "kernel_dim c dvd d" "n * d \<le> length xs * ACT_PER_BUS c" "\<And>p. p < length xs \<Longrightarrow> xs ! p = 0"
  shows "holds c n d xs (\<lambda>t j. 0)"
proof -
  let ?z = "replicate (n * d div ACT_PER_BUS c) 0 :: 32 word list" and ?m = "d div kernel_dim c * MAX_ACT_COL c * n"
  note z = holdsD [OF zero_tensor(2) [OF assms(1,2), of n]]
  have A: "0 < ACT_PER_BUS c" using assms(1) by (simp add: cfg_okD)
  have m: "?m \<le> length ?z" using z(5) .
  have "n * d div ACT_PER_BUS c \<le> length xs" using assms(3) A by (metis div_le_mono nonzero_mult_div_cancel_right not_gr0)
  with m have m': "?m \<le> length xs" by simp
  have "take ?m xs = take ?m ?z" using m m' assms(4) by (intro nth_equalityI) simp_all
  then have "act_at c n xs t j = (0 :: 'a word)" if "t < n" "j < d" for t j
    using act_at_prefix [OF assms(1) that(1) _ order_refl m _ m', of j] that z(4) [OF that] assms(2) by simp
  then show ?thesis using assms by (simp add: holds_def)
qed

subsection \<open>A block on any accelerator\<close>

context uniform_driver
begin

lemma fresh_attention:
  assumes "supported" "int_arith c" "ready s" "kernel_dim c dvd n" "kernel_dim c dvd h" "n \<le> 2 ^ 23"
    and "layer_holds c d h n q Wq" "layer_holds c d h n k Wk" "layer_holds c d h n v Wv"
    and "holds c n d input X" "holds c n h out (\<lambda>t j. 0)"
  shows "\<exists>s' a' out'. selfattn_compute c ops (int_layers c) n input (s, SingleHeadSelfAttn c n d h hf q k v, out) = Some (s', a', out') \<and>
    ready s' \<and> length out' = length out \<and> holds c n h out' (attention n d h X Wq Wk Wv) \<and>
    (\<forall>p<length out. h div kernel_dim c * MAX_ACT_COL c * n \<le> p \<longrightarrow> out' ! p = out ! p)"
proof -
  note fresh = fresh_head [OF supported_ok [OF assms(1)] assms(4-6) refl, of d hf q k v]
  from head_step [OF assms(1-3) fresh(1) _ _ _ assms(10,11) fresh(2-5), unfolded fresh(6-8), OF assms(7-9)]
  show ?thesis unfolding mat_add_zero attention_def by blast
qed

lemma heads_run:
  assumes ctx: "supported" "int_arith c" and "ready s" and dims: "kernel_dim c dvd n" "kernel_dim c dvd h" "n \<le> 2 ^ 23" and bus: "ACT_PER_BUS c = 4"
    and layers: "\<And>i. i < nh \<Longrightarrow> layer_holds c d h n (q i) (Wq i)" "\<And>i. i < nh \<Longrightarrow> layer_holds c d h n (k i) (Wk i)" "\<And>i. i < nh \<Longrightarrow> layer_holds c d h n (v i) (Wv i)"
    and input: "holds c n d input X" and hs: "nh \<le> length hs" "\<And>i. i < nh \<Longrightarrow> hs ! i = Some (SingleHeadSelfAttn c n d h hf (q i) (k i) (v i))"
    and mo: "n * (nh * h) \<le> length mo * 4" "\<And>p. p < length mo \<Longrightarrow> mo ! p = 0"
  shows "\<exists>s' hs' mo'. for_list [0..<nh] (\<lambda>i. head_compute c ops (int_layers c) n input (i * (n * h div 4)) i) (s, hs, mo) = Some (s', hs', mo') \<and>
    ready s' \<and> length mo' = length mo \<and> holds c n (nh * h) mo' (mat_heads h (\<lambda>i. attention n d h X (Wq i) (Wk i) (Wv i)))"
proof -
  let ?w = "h div kernel_dim c * MAX_ACT_COL c * n" and ?H = "mat_heads h (\<lambda>i. attention n d h X (Wq i) (Wk i) (Wv i))"
  note cfg = supported_ok [OF ctx(1)]
  have w: "n * h = ?w * 4"
  proof -
    have "?w * 4 = h div kernel_dim c * (MAX_ACT_COL c * ACT_PER_BUS c) * n" by (simp only: bus ac_simps)
    also have "\<dots> = n * h" using dims(2) cfg by (simp add: cfg_okD)
    finally show ?thesis ..
  qed
  have off: "n * h div 4 = ?w" unfolding w by (rule nonzero_mult_div_cancel_right) simp
  have "nh * (n * h) \<le> length mo * 4" using mo(1) by (simp only: ac_simps)
  then have room: "nh * ?w \<le> length mo" unfolding w mult.assoc [symmetric] by (rule mult_le_cancel2 [THEN iffD1, rule_format]) simp
  define I where "I = (\<lambda>i (s, hs', mo'). ready s \<and> length hs' = length hs \<and> (\<forall>j. i \<le> j \<longrightarrow> j < nh \<longrightarrow> hs' ! j = hs ! j) \<and> length mo' = length mo \<and>
    (\<forall>t<n. \<forall>j<i * h. act_at c n mo' t j = ?H t j) \<and> (\<forall>p<length mo. i * ?w \<le> p \<longrightarrow> mo' ! p = (0 :: 32 word)))"
  have "\<exists>r. for_list [0..<nh] (\<lambda>i. head_compute c ops (int_layers c) n input (i * ?w) i) (s, hs, mo) = Some r \<and> I nh r"
  proof (rule for_up_rule)
    show "I 0 (s, hs, mo)" using assms(3) mo(2) by (simp add: I_def)
  next
    fix i r assume i: "0 \<le> i" "i < nh" and "I i r"
    obtain s1 hs1 m1 where r: "r = (s1, hs1, m1)" by (cases r)
    have I: "ready s1" "length hs1 = length hs" "\<And>j. i \<le> j \<Longrightarrow> j < nh \<Longrightarrow> hs1 ! j = hs ! j" "length m1 = length mo"
      "\<And>t j. t < n \<Longrightarrow> j < i * h \<Longrightarrow> act_at c n m1 t j = ?H t j" "\<And>p. p < length mo \<Longrightarrow> i * ?w \<le> p \<Longrightarrow> m1 ! p = 0"
      using \<open>I i r\<close> by (simp_all add: I_def r)
    have "Suc i * ?w \<le> nh * ?w" using i(2) by (intro mult_le_mono1) simp
    then have le: "i * ?w + ?w \<le> length mo" using room by simp
    have "?w * 4 \<le> (length mo - i * ?w) * 4" using le by (intro mult_le_mono1) simp
    then have "n * h \<le> length (drop (i * ?w) m1) * ACT_PER_BUS c" unfolding w [symmetric] by (simp only: bus length_drop I(4))
    then have "holds c n h (drop (i * ?w) m1) (\<lambda>t j. 0)"
      using le I(4,6) by (intro holds_zeros cfg dims(2)) simp_all
    then obtain s2 a2 out where run: "selfattn_compute c ops (int_layers c) n input (s1, SingleHeadSelfAttn c n d h hf (q i) (k i) (v i), drop (i * ?w) m1) = Some (s2, a2, out)"
      "ready s2" "length out = length (drop (i * ?w) m1)" "holds c n h out (attention n d h X (Wq i) (Wk i) (Wv i))"
      "\<And>p. p < length (drop (i * ?w) m1) \<Longrightarrow> ?w \<le> p \<Longrightarrow> out ! p = drop (i * ?w) m1 ! p"
      using fresh_attention [OF ctx I(1) dims layers(1) [OF i(2)] layers(2) [OF i(2)] layers(3) [OF i(2)] input] by blast
    let ?m = "take (i * ?w) m1 @ out"
    have len: "length ?m = length mo" using run(3) le I(4) by simp
    have "head_compute c ops (int_layers c) n input (i * ?w) i r = Some (s2, hs1[i := Some a2], ?m)"
      using I(2) I(3) [of i] i hs(1) hs(2) [OF i(2)] le I(4) run(1) by (simp add: head_compute_def r arr_simps)
    moreover have "act_at c n ?m t j = ?H t j" if "t < n" "j < Suc i * h" for t j
    proof (cases "j < i * h")
      case True
      have "take (i * ?w) ?m = take (i * ?w) m1" using le I(4) by simp
      moreover have "i * (h div kernel_dim c) * MAX_ACT_COL c * n \<le> i * ?w" by (simp only: ac_simps order_refl)
      moreover have "j < i * (h div kernel_dim c) * kernel_dim c" using True dims(2) by (simp add: mult.assoc)
      ultimately have "act_at c n ?m t j = act_at c n m1 t j"
        using le I(4) len by (intro act_at_prefix [OF cfg that(1), where m = "i * ?w" and b = "i * (h div kernel_dim c)"]) linarith+
      then show ?thesis using I(5) [OF that(1) True] by simp
    next
      case False
      define jj where "jj = j - i * h"
      have jj: "j = i * h + jj" "jj < h" using False that(2) by (simp_all add: jj_def)
      have "act_at c n ?m t j = act_at c n (drop (i * ?w) ?m) t jj"
        unfolding jj(1) using le len by (intro act_at_drop [OF cfg dims(2), symmetric]) simp
      also have "drop (i * ?w) ?m = out" using le I(4) by simp
      also have "act_at c n out t jj = ?H t j" using holdsD(4) [OF run(4) that(1) jj(2)] jj by (simp add: mat_heads_def)
      finally show ?thesis .
    qed
    moreover have "?m ! p = 0" if "p < length mo" "Suc i * ?w \<le> p" for p
      using run(5) [of "p - i * ?w"] that le I(4) I(6) [of p] by (simp add: nth_append)
    ultimately show "\<exists>r'. head_compute c ops (int_layers c) n input (i * ?w) i r = Some r' \<and> I (Suc i) r'"
      using run(2) I(2,3) len by (auto simp: I_def)
  qed simp
  then obtain s' hs' mo' where r: "for_list [0..<nh] (\<lambda>i. head_compute c ops (int_layers c) n input (i * ?w) i) (s, hs, mo) = Some (s', hs', mo')"
    "I nh (s', hs', mo')" by auto
  moreover have "holds c n (nh * h) mo' ?H" using r(2) mo(1) dims(2) cfg by (auto simp: holds_def I_def bus)
  ultimately show ?thesis unfolding off by (auto simp: I_def)
qed

lemma block_run:
  assumes ctx: "supported" "int_arith c" and "ready s" and dims: "kernel_dim c dvd n" "kernel_dim c dvd h" "n \<le> 2 ^ 23" and bus: "ACT_PER_BUS c = 4"
    and layers: "\<And>i. i < nh \<Longrightarrow> layer_holds c d h n (q i) (W (i * 3))" "\<And>i. i < nh \<Longrightarrow> layer_holds c d h n (k i) (W (i * 3 + 1))"
      "\<And>i. i < nh \<Longrightarrow> layer_holds c d h n (v i) (W (i * 3 + 2))"
      "layer_holds c (nh * h) d n cond (W (nh * 3))" "layer_holds c d ff n l0 (W (nh * 3 + 1))" "layer_holds c ff d n l1 (W (nh * 3 + 2))"
    and input: "tensor_ok c n d input" "holds c n d input X"
    and hs: "nh \<le> length hs" "\<And>i. i < nh \<Longrightarrow> hs ! i = Some (SingleHeadSelfAttn c n d h hf (q i) (k i) (v i))"
  defines "b \<equiv> TransformerBlock c n d h nh ff hs cond l0 l1"
  shows "case transformer_block c n d h nh ff X W of
      None \<Rightarrow> block_compute c ops (int_layers c) n input (s, b, zero_buffers c n d h nh ff) = None
    | Some Y \<Rightarrow> \<exists>s' b' buf. block_compute c ops (int_layers c) n input (s, b, zero_buffers c n d h nh ff) = Some (s', b', buf) \<and> ready s' \<and>
        length (bb_output buf) = n * d div 4 \<and> holds c n d (bb_output buf) Y"
proof -
  let ?lo = "int_layers c" and ?z = "zero_buffers c n d h nh ff" and ?an = "AddNormalize n d (kernel_dim c) (MAX_ACT_COL c)"
  note cfg = supported_ok [OF ctx(1)]
  define M where "M = mat_heads h (\<lambda>i. attention n d h X (W (i * 3)) (W (i * 3 + 1)) (W (i * 3 + 2)))"
  have d: "kernel_dim c dvd d" "kernel_dim c dvd ff" using input(1) layers(6) by (simp_all add: tensor_ok_def layer_holds_def)
  have zeros: "holds c n d (replicate (n * d div 4) 0) (\<lambda>t j. 0)" "holds c n ff (replicate (n * ff div 4) 0) (\<lambda>t j. 0)" "tensor_ok c n d (replicate (n * d div 4) 0)"
    using zero_tensor [OF cfg d(1), of n] zero_tensor [OF cfg d(2), of n] by (simp_all add: bus)
  have "n * (nh * h) = n * nh * h div 4 * 4"
    using tensor_ok_def [of c n "nh * h"] zero_tensor(1) [OF cfg, of "nh * h" n] dims(2) by (simp add: bus mult.assoc)
  then have "n * (nh * h) \<le> length (bb_multihead_out ?z) * 4" by (simp add: zero_buffers_def bus)
  from heads_run [OF ctx assms(3) dims bus layers(1-3) input(2) hs this]
  obtain s1 hs1 mo where heads: "for_list [0..<nh] (\<lambda>i. head_compute c ops ?lo n input (i * (n * h div 4)) i) (s, hs, bb_multihead_out ?z) = Some (s1, hs1, mo)"
    "ready s1" "holds c n (nh * h) mo M" unfolding M_def by (auto simp: zero_buffers_def)
  obtain s2 co where co: "dense_compute c ops ?lo cond n mo (s1, bb_condense_out ?z) = Some (s2, co)" "ready s2"
    "holds c n d co (mat_mul (nh * h) M (W (nh * 3)))" "length co = n * d div 4"
    using layer_step [OF ctx heads(2) layers(4) heads(3) zeros(1), of ?lo n] by (auto simp: zero_buffers_def bus)
  have co_ok: "tensor_ok c n d co" by (rule tensor_ok_length [OF zeros(3)]) (simp add: co(4))
  have len: "length input = n * d div 4" using input(1) by (simp add: tensor_ok_def bus)
  note an1 = addnorm_holds [OF co_ok _ input(2) co(3), of "MAX_ACT_COL c"]
  have run: "block_compute c ops ?lo n input (s, b, ?z) = do {
      A \<leftarrow> addnorm_computeRearranged c ?an input co;
      (s3, ff0) \<leftarrow> dense_compute c ops ?lo l0 n A (s2, bb_intermediateFF ?z);
      (s4, out) \<leftarrow> dense_compute c ops ?lo l1 n ff0 (s3, bb_output ?z);
      out \<leftarrow> addnorm_computeRearranged c ?an A out;
      Some (s4, b\<lparr>selfatten := hs1\<rparr>, \<lparr>bb_output = out, bb_multihead_out = mo, bb_condense_out = A, bb_intermediateFF = ff0\<rparr>) }"
    using heads(1) co(1) by (simp add: block_compute_def b_def TransformerBlock_def int_layers_def)
  show ?thesis
  proof (cases "mat_addnorm c n d X (mat_mul (nh * h) M (W (nh * 3)))")
    case None
    then show ?thesis using an1 len co(4) unfolding run by (simp add: transformer_block_def M_def)
  next
    case (Some A)
    then obtain xa where xa: "addnorm_computeRearranged c ?an input co = Some xa" "length xa = n * d div 4" "holds c n d xa A"
      using an1 len co(4) by auto
    obtain s3 f where f: "dense_compute c ops ?lo l0 n xa (s2, bb_intermediateFF ?z) = Some (s3, f)" "ready s3" "holds c n ff f (mat_mul d A (W (nh * 3 + 1)))"
      using layer_step [OF ctx co(2) layers(5) xa(3) zeros(2), of ?lo n] by (auto simp: zero_buffers_def bus)
    obtain s4 y where y: "dense_compute c ops ?lo l1 n f (s3, bb_output ?z) = Some (s4, y)" "ready s4"
      "holds c n d y (mat_mul ff (mat_mul d A (W (nh * 3 + 1))) (W (nh * 3 + 2)))" "length y = n * d div 4"
      using layer_step [OF ctx f(2) layers(6) f(3) zeros(1), of ?lo n] by (auto simp: zero_buffers_def bus)
    have y_ok: "tensor_ok c n d y" by (rule tensor_ok_length [OF zeros(3)]) (simp add: y(4))
    have "transformer_block c n d h nh ff X W = mat_addnorm c n d A (mat_mul ff (mat_mul d A (W (nh * 3 + 1))) (W (nh * 3 + 2)))"
      using Some by (simp add: transformer_block_def M_def)
    with addnorm_holds [OF y_ok _ xa(3) y(3), of "MAX_ACT_COL c"] xa(2) y(2,4)
    show ?thesis unfolding run by (auto simp: xa(1) f(1) y(1) split: option.splits)
  qed
qed

end

end
