(* ===== verification/TiC_Inference.thy ===== *)
theory TiC_Inference
  imports TiC_Block
begin

text \<open>
  The program, \<^verbatim>\<open>transformer.cc\<close> and \<^verbatim>\<open>transformer.h\<close>: the three model sizes, the filling of input and kernels with random words,
  the conversion of the kernels, and one block over them per run. The words that \<^verbatim>\<open>rand()\<close> returns are the argument \<open>rnd\<close>,
  counted by \<open>k\<close>; the build without \<^verbatim>\<open>RELOAD_WEIGHT\<close> is modelled. \<open>Exit\<close> is a call of \<^verbatim>\<open>exit\<close>. Output to the console, the calls
  of \<^verbatim>\<open>m5\<close> and the functions with an empty body have no effect here.
\<close>

subsection \<open>Model\<close>

datatype 'r outcome = Exit nat | Done 'r

definition on_done :: "'r outcome option \<Rightarrow> ('r \<Rightarrow> 'q outcome option) \<Rightarrow> 'q outcome option" where
  "on_done r f = do { x \<leftarrow> r; case x of Exit n \<Rightarrow> Some (Exit n) | Done y \<Rightarrow> f y }"

record model_dims =
  D_Q :: nat
  D_SEQ :: nat
  D_MODEL :: nat
  NUM_HEAD :: nat
  D_FF :: nat

definition libritrans :: model_dims where
  "libritrans = \<lparr>D_Q = 64, D_SEQ = 128, D_MODEL = 256, NUM_HEAD = 4, D_FF = 2048\<rparr>"

definition librispeech :: model_dims where
  "librispeech = \<lparr>D_Q = 128, D_SEQ = 128, D_MODEL = 512, NUM_HEAD = 4, D_FF = 2048\<rparr>"

definition test_model :: model_dims where
  "test_model = \<lparr>D_Q = 32, D_SEQ = 32, D_MODEL = 64, NUM_HEAD = 2, D_FF = 64\<rparr>"

definition fill_kernel :: "(nat \<Rightarrow> 32 word) \<Rightarrow> nat \<Rightarrow> 32 word list \<times> nat \<Rightarrow> (32 word list \<times> nat) option" where
  "fill_kernel rnd sz = for_list [0..<sz] (\<lambda>i (tensor, k). do {
     tensor \<leftarrow> wr tensor i (rnd k);
     Some (tensor, k + 1)
   })"

text \<open>The function ignores the sparsity and leaves the flags as they are.\<close>

definition fill_sparse_weight ::
  "(nat \<Rightarrow> 32 word) \<Rightarrow> 32 word list \<Rightarrow> 32 word list \<Rightarrow> nat \<Rightarrow> nat \<Rightarrow> int \<Rightarrow> nat \<Rightarrow> (32 word list \<times> 32 word list \<times> nat) option" where
  "fill_sparse_weight rnd krn flag d_model d_q_bus sparsity k = do {
     (krn, k) \<leftarrow> fill_kernel rnd (d_model * d_q_bus) (krn, k);
     Some (krn, flag, k)
   }"

record sparsity =
  sp_QVK :: int
  sp_Condense :: int
  sp_FF0 :: int
  sp_FF1 :: int

record formats =
  sf_QVK :: Format
  sf_Condense :: Format
  sf_FF0 :: Format
  sf_FF1 :: Format

text \<open>The kernels and flags: three of each per head, then those of the other three layers.\<close>

definition head_weights ::
  "('a::len, 'w::len) sa_cfg \<Rightarrow> model_dims \<Rightarrow> (nat \<Rightarrow> 32 word) \<Rightarrow> int \<Rightarrow> nat \<Rightarrow> 32 word list list \<times> 32 word list list \<times> nat
     \<Rightarrow> (32 word list list \<times> 32 word list list \<times> nat) option" where
  "head_weights c md rnd sparsityQVK n = (\<lambda>(weightVec, flagVec, k). do {
     let krn = replicate (D_Q md * D_MODEL md div W_PER_BUS c) 0;
     let flag = replicate (D_Q md * D_MODEL md div (32 * kernel_dim c * MAX_W_COL c)) 0;
     (query_kernel, query_flag, k) \<leftarrow> fill_sparse_weight rnd krn flag (D_MODEL md) (D_Q md div W_PER_BUS c) sparsityQVK k;
     (key_kernel, key_flag, k) \<leftarrow> fill_sparse_weight rnd krn flag (D_MODEL md) (D_Q md div W_PER_BUS c) sparsityQVK k;
     (value_kernel, value_flag, k) \<leftarrow> fill_sparse_weight rnd krn flag (D_MODEL md) (D_Q md div W_PER_BUS c) sparsityQVK k;
     weightVec \<leftarrow> wr weightVec (n * 3) query_kernel;
     flagVec \<leftarrow> wr flagVec (n * 3) query_flag;
     weightVec \<leftarrow> wr weightVec (n * 3 + 1) key_kernel;
     flagVec \<leftarrow> wr flagVec (n * 3 + 1) key_flag;
     weightVec \<leftarrow> wr weightVec (n * 3 + 2) value_kernel;
     flagVec \<leftarrow> wr flagVec (n * 3 + 2) value_flag;
     Some (weightVec, flagVec, k)
   })"

definition make_weights ::
  "('a::len, 'w::len) sa_cfg \<Rightarrow> model_dims \<Rightarrow> (nat \<Rightarrow> 32 word) \<Rightarrow> sparsity \<Rightarrow> nat \<Rightarrow> (32 word list list \<times> 32 word list list \<times> nat) option" where
  "make_weights c md rnd sp k = do {
     let N = 3 * NUM_HEAD md + 3;
     let flags = (\<lambda>n. replicate (n div (32 * kernel_dim c * MAX_W_COL c)) 0);
     (weightVec, flagVec, k) \<leftarrow> for_list [0..<NUM_HEAD md] (head_weights c md rnd (sp_QVK sp)) (replicate N [], replicate N [], k);
     (condense_kernel, condense_flag, k) \<leftarrow> fill_sparse_weight rnd (replicate (NUM_HEAD md * D_Q md * D_MODEL md div W_PER_BUS c) 0)
       (flags (NUM_HEAD md * D_Q md * D_MODEL md)) (D_MODEL md) (NUM_HEAD md * D_Q md div W_PER_BUS c) (sp_Condense sp) k;
     (ff0_kernel, ff0_flag, k) \<leftarrow> fill_sparse_weight rnd (replicate (D_MODEL md * D_FF md div W_PER_BUS c) 0)
       (flags (D_MODEL md * D_FF md)) (D_MODEL md) (D_FF md div W_PER_BUS c) (sp_FF0 sp) k;
     (ff1_kernel, ff1_flag, k) \<leftarrow> fill_sparse_weight rnd (replicate (D_FF md * D_MODEL md div W_PER_BUS c) 0)
       (flags (D_MODEL md * D_FF md)) (D_FF md) (D_MODEL md div W_PER_BUS c) (sp_FF1 sp) k;
     weightVec \<leftarrow> wr weightVec (NUM_HEAD md * 3) condense_kernel;
     flagVec \<leftarrow> wr flagVec (NUM_HEAD md * 3) condense_flag;
     weightVec \<leftarrow> wr weightVec (NUM_HEAD md * 3 + 1) ff0_kernel;
     flagVec \<leftarrow> wr flagVec (NUM_HEAD md * 3 + 1) ff0_flag;
     weightVec \<leftarrow> wr weightVec (NUM_HEAD md * 3 + 2) ff1_kernel;
     flagVec \<leftarrow> wr flagVec (NUM_HEAD md * 3 + 2) ff1_flag;
     Some (weightVec, flagVec, k)
   }"

text \<open>The conversion of one kernel, and of a group of kernels that share a format: \<^verbatim>\<open>exit(1)\<close> unless the format is one of two.\<close>

definition convert_kernel :: "('a::len, 'w::len) sa_cfg \<Rightarrow> nat \<Rightarrow> nat \<Rightarrow> nat \<Rightarrow> 32 word list list \<Rightarrow> 32 word list list option" where
  "convert_kernel c n_row n_col i weightVec = do {
     krn \<leftarrow> rd weightVec i;
     krn \<leftarrow> dense2interleavedMetaData c krn n_row n_col;
     wr weightVec i krn
   }"

definition convert_group ::
  "('a::len, 'w::len) sa_cfg \<Rightarrow> Format \<Rightarrow> nat list \<Rightarrow> nat \<Rightarrow> nat \<Rightarrow> 32 word list list \<Rightarrow> 32 word list list outcome option" where
  "convert_group c format is n_row n_col weightVec =
     (if format = INTERLEAVED then do {
        weightVec \<leftarrow> for_list is (convert_kernel c n_row n_col) weightVec;
        Some (Done weightVec)
      }
      else if format \<noteq> NON_PRUNED then Some (Exit 1)
      else Some (Done weightVec))"

definition inference ::
  "('a::len, 'w::len) sa_cfg \<Rightarrow> 's smm_ops \<Rightarrow> layer_ops \<Rightarrow> model_dims \<Rightarrow> (nat \<Rightarrow> 32 word) \<Rightarrow> sparsity \<Rightarrow> formats \<Rightarrow> 's \<times> nat
     \<Rightarrow> ('s \<times> nat \<times> block_buffers) outcome option" where
  "inference c ops lo md rnd sp fm = (\<lambda>(s, k). do {
     let hidden_flag = [0xAAAAAAAA];
     let sz = D_SEQ md * D_MODEL md div ACT_PER_BUS c;
     (tensor_in, k) \<leftarrow> fill_kernel rnd sz (replicate sz 0, k);
     (weightVec, flagVec, k) \<leftarrow> make_weights c md rnd sp k;
     on_done (convert_group c (sf_QVK fm) [0..<NUM_HEAD md * 3] (D_MODEL md) (D_Q md div W_PER_BUS c) weightVec) (\<lambda>weightVec.
     on_done (convert_group c (sf_Condense fm) [NUM_HEAD md * 3] (NUM_HEAD md * D_Q md) (D_MODEL md div W_PER_BUS c) weightVec) (\<lambda>weightVec.
     on_done (convert_group c (sf_FF0 fm) [NUM_HEAD md * 3 + 1] (D_MODEL md) (D_FF md div W_PER_BUS c) weightVec) (\<lambda>weightVec.
     on_done (convert_group c (sf_FF1 fm) [NUM_HEAD md * 3 + 2] (D_FF md) (D_MODEL md div W_PER_BUS c) weightVec) (\<lambda>weightVec. do {
       b \<leftarrow> TransformerBlock_packed c (D_SEQ md) (D_MODEL md) (D_Q md) (NUM_HEAD md) (D_FF md) weightVec flagVec hidden_flag
         (sf_QVK fm) (sf_Condense fm) (sf_FF0 fm) (sf_FF1 fm);
       (s, b, buf) \<leftarrow> block_compute c ops lo (D_SEQ md) tensor_in
         (s, b, zero_buffers c (D_SEQ md) (D_MODEL md) (D_Q md) (NUM_HEAD md) (D_FF md));
       Some (Done (s, k, buf))
     }))))
   })"

text \<open>\<^verbatim>\<open>atoi\<close>: white space, a sign and decimal digits; a number that is not an \<^verbatim>\<open>int\<close> is undefined.\<close>

definition is_space :: "char \<Rightarrow> bool" where
  "is_space ch \<longleftrightarrow> ch = CHR 0x20 \<or> (9 \<le> (of_char ch :: nat) \<and> (of_char ch :: nat) \<le> 13)"

definition is_digit :: "char \<Rightarrow> bool" where
  "is_digit ch \<longleftrightarrow> 48 \<le> (of_char ch :: nat) \<and> (of_char ch :: nat) \<le> 57"

fun digits_value :: "int \<Rightarrow> string \<Rightarrow> int" where
  "digits_value v [] = v"
| "digits_value v (ch # s) = (if is_digit ch then digits_value (10 * v + (of_char ch - 48)) s else v)"

fun skip_space :: "string \<Rightarrow> string" where
  "skip_space [] = []"
| "skip_space (ch # s) = (if is_space ch then skip_space s else ch # s)"

definition atoi :: "string \<Rightarrow> int option" where
  "atoi s = (let t = skip_space s;
     v = (case t of CHR ''-'' # u \<Rightarrow> - digits_value 0 u | CHR ''+'' # u \<Rightarrow> digits_value 0 u | _ \<Rightarrow> digits_value 0 t)
     in if - (2 ^ 31) \<le> v \<and> v < 2 ^ 31 then Some v else None)"

definition read_sparsity :: "string list \<Rightarrow> nat \<Rightarrow> sparsity option" where
  "read_sparsity sparsities i = do {
     a0 \<leftarrow> rd sparsities (4 * i); qvk \<leftarrow> atoi a0;
     a1 \<leftarrow> rd sparsities (4 * i + 1); cond \<leftarrow> atoi a1;
     a2 \<leftarrow> rd sparsities (4 * i + 2); ff0 \<leftarrow> atoi a2;
     a3 \<leftarrow> rd sparsities (4 * i + 3); ff1 \<leftarrow> atoi a3;
     Some \<lparr>sp_QVK = qvk, sp_Condense = cond, sp_FF0 = ff0, sp_FF1 = ff1\<rparr>
   }"

definition choose_formats :: "sparsity \<Rightarrow> formats" where
  "choose_formats sp = (let f = (\<lambda>v. if v = 0 then NON_PRUNED else INTERLEAVED) in
     \<lparr>sf_QVK = f (sp_QVK sp), sf_Condense = f (sp_Condense sp), sf_FF0 = f (sp_FF0 sp), sf_FF1 = f (sp_FF1 sp)\<rparr>)"

definition main_run ::
  "('a::len, 'w::len) sa_cfg \<Rightarrow> 's smm_ops \<Rightarrow> ('s \<Rightarrow> ('s \<times> 64 word) option) \<Rightarrow> layer_ops \<Rightarrow> model_dims \<Rightarrow> (nat \<Rightarrow> 32 word)
     \<Rightarrow> string list \<Rightarrow> nat \<Rightarrow> 's \<times> nat \<times> block_buffers list \<Rightarrow> ('s \<times> nat \<times> block_buffers list) outcome option" where
  "main_run c ops read_flag lo md rnd sparsities i = (\<lambda>(s, k, outs). do {
     sp \<leftarrow> read_sparsity sparsities i;
     (s, hw) \<leftarrow> read_flag s;
     if hw \<noteq> word_of_nat (kernel_dim c) then Some (Exit 1)
     else on_done (inference c ops lo md rnd sp (choose_formats sp) (s, k)) (\<lambda>(s, k, buf). Some (Done (s, k, outs @ [buf])))
   })"

definition main ::
  "('a::len, 'w::len) sa_cfg \<Rightarrow> 's smm_ops \<Rightarrow> ('s \<Rightarrow> ('s \<times> 64 word) option) \<Rightarrow> layer_ops \<Rightarrow> model_dims \<Rightarrow> (nat \<Rightarrow> 32 word)
     \<Rightarrow> string list \<Rightarrow> 's \<Rightarrow> ('s \<times> nat \<times> block_buffers list) outcome option" where
  "main c ops read_flag lo md rnd args s =
     (if length args mod 4 \<noteq> 0 \<or> args = [] then Some (Exit 1)
      else for_list [0..<length args div 4] (\<lambda>i r. on_done (Some r) (main_run c ops read_flag lo md rnd args i)) (Done (s, 0, [])))"

subsection \<open>The kernels are the random words in order\<close>

lemma fill_kernel_run:
  assumes "sz \<le> length xs"
  shows "fill_kernel rnd sz (xs, k) = Some (map (\<lambda>i. rnd (k + i)) [0..<sz] @ drop sz xs, k + sz)"
  using assms
proof (induction sz)
  case 0
  then show ?case by (simp add: fill_kernel_def)
next
  case (Suc sz)
  then have "fill_kernel rnd (Suc sz) (xs, k) = do { (t, k) \<leftarrow> fill_kernel rnd sz (xs, k); t \<leftarrow> wr t sz (rnd k); Some (t, k + 1) }"
    by (simp add: fill_kernel_def for_list_append split: option.splits)
  with Suc show ?case by (simp add: wr_def list_update_append flip: Cons_nth_drop_Suc)
qed

lemma fill_sparse_weight_run:
  "L = d_model * d_q_bus \<Longrightarrow> fill_sparse_weight rnd (replicate L 0) flag d_model d_q_bus sp k =
     Some (map (\<lambda>i. rnd (k + i)) [0..<L], flag, k + L)"
  by (simp add: fill_sparse_weight_def fill_kernel_run)

definition kernel_size :: "('a::len, 'w::len) sa_cfg \<Rightarrow> model_dims \<Rightarrow> nat \<Rightarrow> nat" where
  "kernel_size c md i =
     (if i < NUM_HEAD md * 3 then D_Q md * D_MODEL md div W_PER_BUS c
      else if i = NUM_HEAD md * 3 then NUM_HEAD md * D_Q md * D_MODEL md div W_PER_BUS c
      else if i = NUM_HEAD md * 3 + 1 then D_MODEL md * D_FF md div W_PER_BUS c
      else D_FF md * D_MODEL md div W_PER_BUS c)"

definition kernel_start :: "('a::len, 'w::len) sa_cfg \<Rightarrow> model_dims \<Rightarrow> nat \<Rightarrow> nat" where
  "kernel_start c md i = (\<Sum>j<i. kernel_size c md j)"

definition random_kernel :: "('a::len, 'w::len) sa_cfg \<Rightarrow> model_dims \<Rightarrow> (nat \<Rightarrow> 32 word) \<Rightarrow> nat \<Rightarrow> nat \<Rightarrow> 32 word list" where
  "random_kernel c md rnd k i = map (\<lambda>j. rnd (k + kernel_start c md i + j)) [0..<kernel_size c md i]"

lemma length_random_kernel [simp]: "length (random_kernel c md rnd k i) = kernel_size c md i"
  by (simp add: random_kernel_def)

lemma kernel_start_Suc: "kernel_start c md (Suc i) = kernel_start c md i + kernel_size c md i"
  by (simp add: kernel_start_def)

text \<open>Filling the entries of an array in order.\<close>

definition filled :: "(nat \<Rightarrow> 'x list) \<Rightarrow> nat \<Rightarrow> nat \<Rightarrow> 'x list list \<Rightarrow> bool" where
  "filled f N n xs \<longleftrightarrow> xs = map f [0..<n] @ replicate (N - n) []"

lemma filled_wr: "filled f N n xs \<Longrightarrow> n < N \<Longrightarrow> y = f n \<Longrightarrow> \<exists>ys. wr xs n y = Some ys \<and> filled f N (Suc n) ys"
proof -
  assume xs: "filled f N n xs" and n: "n < N" and y: "y = f n"
  have "replicate (N - n) [] = [] # replicate (N - Suc n) ([] :: 'a list)" using n by (simp add: Suc_diff_Suc flip: replicate_Suc)
  then show ?thesis using xs n y by (simp add: filled_def wr_def list_update_append)
qed

lemma kernel_words:
  fixes c :: "('a::len, 'w::len) sa_cfg"
  assumes "W_PER_BUS c dvd D_Q md" "W_PER_BUS c dvd D_FF md" "W_PER_BUS c dvd D_MODEL md"
  shows "D_Q md * D_MODEL md div W_PER_BUS c = D_MODEL md * (D_Q md div W_PER_BUS c)"
    "NUM_HEAD md * D_Q md * D_MODEL md div W_PER_BUS c = D_MODEL md * (NUM_HEAD md * D_Q md div W_PER_BUS c)"
    "D_MODEL md * D_FF md div W_PER_BUS c = D_MODEL md * (D_FF md div W_PER_BUS c)"
    "D_FF md * D_MODEL md div W_PER_BUS c = D_FF md * (D_MODEL md div W_PER_BUS c)"
  using assms by (auto simp: div_mult_swap mult.commute mult.left_commute)

lemma head_weights_run:
  fixes c :: "('a::len, 'w::len) sa_cfg"
  assumes "W_PER_BUS c dvd D_Q md" "W_PER_BUS c dvd D_FF md" "W_PER_BUS c dvd D_MODEL md"
  defines "N \<equiv> 3 * NUM_HEAD md + 3"
  shows "\<exists>wv fv. for_list [0..<NUM_HEAD md] (head_weights c md rnd sp) (replicate N [], replicate N [], k) =
      Some (wv, fv, k + kernel_start c md (NUM_HEAD md * 3)) \<and> filled (random_kernel c md rnd k) N (NUM_HEAD md * 3) wv \<and> length fv = N"
proof -
  let ?rk = "random_kernel c md rnd k"
  define I where "I = (\<lambda>n (wv, fv :: 32 word list list, k'). filled ?rk N (n * 3) wv \<and> length fv = N \<and> k' = k + kernel_start c md (n * 3))"
  note sizes = kernel_words [OF assms(1-3)]
  have "\<exists>r. for_list [0..<NUM_HEAD md] (head_weights c md rnd sp) (replicate N [], replicate N [], k) = Some r \<and> I (NUM_HEAD md) r"
  proof (rule for_up_rule)
    show "I 0 (replicate N [], replicate N [], k)" by (simp add: I_def filled_def kernel_start_def)
  next
    fix n r assume n: "0 \<le> n" "n < NUM_HEAD md" and "I n r"
    then obtain wv fv where r: "r = (wv, fv, k + kernel_start c md (n * 3))" "filled ?rk N (n * 3) wv" "length fv = N" by (cases r) (auto simp: I_def)
    have size: "kernel_size c md (n * 3) = D_Q md * D_MODEL md div W_PER_BUS c" "kernel_size c md (n * 3 + 1) = D_Q md * D_MODEL md div W_PER_BUS c"
      "kernel_size c md (n * 3 + 2) = D_Q md * D_MODEL md div W_PER_BUS c" using n(2) by (simp_all add: kernel_size_def)
    define K where "K = D_Q md * D_MODEL md div W_PER_BUS c"
    define k0 where "k0 = k + kernel_start c md (n * 3)"
    have rk: "?rk (n * 3) = map (\<lambda>i. rnd (k0 + i)) [0..<K]" "?rk (n * 3 + 1) = map (\<lambda>i. rnd (k0 + K + i)) [0..<K]"
      "?rk (n * 3 + 2) = map (\<lambda>i. rnd (k0 + K + K + i)) [0..<K]"
      using size by (simp_all add: random_kernel_def k0_def kernel_start_Suc K_def add.assoc)
    obtain w1 where w1: "wr wv (n * 3) (map (\<lambda>i. rnd (k0 + i)) [0..<K]) = Some w1" "filled ?rk N (n * 3 + 1) w1"
      using filled_wr [OF r(2) _ rk(1) [symmetric]] n by (auto simp: N_def)
    obtain w2 where w2: "wr w1 (n * 3 + 1) (map (\<lambda>i. rnd (k0 + K + i)) [0..<K]) = Some w2" "filled ?rk N (n * 3 + 2) w2"
      using filled_wr [OF w1(2) _ rk(2) [symmetric]] n by (auto simp: N_def)
    obtain w3 where w3: "wr w2 (n * 3 + 2) (map (\<lambda>i. rnd (k0 + K + K + i)) [0..<K]) = Some w3" "filled ?rk N (Suc n * 3) w3"
      using filled_wr [OF w2(2) _ rk(3) [symmetric]] n by (auto simp: N_def eval_nat_numeral)
    have end_k: "k0 + K + K + K = k + kernel_start c md (Suc n * 3)"
      using size by (simp add: k0_def K_def eval_nat_numeral kernel_start_Suc)
    have "\<exists>fv'. head_weights c md rnd sp n r = Some (w3, fv', k0 + K + K + K) \<and> length fv' = N"
      using n w1(1) w2(1) w3(1) r(3) sizes(1) N_def
      by (simp add: head_weights_def r(1) k0_def [symmetric] K_def [symmetric] fill_sparse_weight_run Let_def) (simp add: wr_def)
    then show "\<exists>r'. head_weights c md rnd sp n r = Some r' \<and> I (Suc n) r'" using w3(2) end_k by (auto simp: I_def)
  qed simp
  then show ?thesis by (auto simp: I_def)
qed

lemma make_weights_run:
  fixes c :: "('a::len, 'w::len) sa_cfg"
  assumes "W_PER_BUS c dvd D_Q md" "W_PER_BUS c dvd D_FF md" "W_PER_BUS c dvd D_MODEL md"
  shows "\<exists>fv. make_weights c md rnd sp k = Some (map (random_kernel c md rnd k) [0..<3 * NUM_HEAD md + 3], fv, k + kernel_start c md (3 * NUM_HEAD md + 3)) \<and>
    length fv = 3 * NUM_HEAD md + 3"
proof -
  let ?N = "3 * NUM_HEAD md + 3" and ?rk = "random_kernel c md rnd k" and ?H = "NUM_HEAD md * 3"
  obtain wv fv where heads: "for_list [0..<NUM_HEAD md] (head_weights c md rnd (sp_QVK sp)) (replicate ?N [], replicate ?N [], k) =
      Some (wv, fv, k + kernel_start c md ?H)" "filled ?rk ?N ?H wv" "length fv = ?N" using head_weights_run [OF assms] by blast
  define k0 where "k0 = k + kernel_start c md ?H"
  define K0 K1 K2 where "K0 = NUM_HEAD md * D_Q md * D_MODEL md div W_PER_BUS c" and "K1 = D_MODEL md * D_FF md div W_PER_BUS c" and "K2 = D_FF md * D_MODEL md div W_PER_BUS c"
  have size: "kernel_size c md ?H = K0" "kernel_size c md (?H + 1) = K1" "kernel_size c md (?H + 2) = K2"
    by (simp_all add: kernel_size_def K0_def K1_def K2_def)
  have rk: "?rk ?H = map (\<lambda>i. rnd (k0 + i)) [0..<K0]" "?rk (?H + 1) = map (\<lambda>i. rnd (k0 + K0 + i)) [0..<K1]"
    "?rk (?H + 2) = map (\<lambda>i. rnd (k0 + K0 + K1 + i)) [0..<K2]"
    using size by (simp_all add: random_kernel_def k0_def kernel_start_Suc add.assoc)
  obtain w1 where w1: "wr wv ?H (map (\<lambda>i. rnd (k0 + i)) [0..<K0]) = Some w1" "filled ?rk ?N (?H + 1) w1"
    using filled_wr [OF heads(2) _ rk(1) [symmetric]] by auto
  obtain w2 where w2: "wr w1 (?H + 1) (map (\<lambda>i. rnd (k0 + K0 + i)) [0..<K1]) = Some w2" "filled ?rk ?N (?H + 2) w2"
    using filled_wr [OF w1(2) _ rk(2) [symmetric]] by auto
  obtain w3 where w3: "wr w2 (?H + 2) (map (\<lambda>i. rnd (k0 + K0 + K1 + i)) [0..<K2]) = Some w3" "filled ?rk ?N ?N w3"
    using filled_wr [OF w2(2) _ rk(3) [symmetric]] by (auto simp: eval_nat_numeral mult.commute)
  have end_k: "k0 + K0 + K1 + K2 = k + kernel_start c md ?N"
    using size by (simp add: k0_def eval_nat_numeral kernel_start_Suc mult.commute)
  have "\<exists>fv'. make_weights c md rnd sp k = Some (w3, fv', k0 + K0 + K1 + K2) \<and> length fv' = ?N"
    using heads(1,3) w1(1) w2(1) w3(1) kernel_words [OF assms]
    by (simp add: make_weights_def k0_def [symmetric] K0_def [symmetric] K1_def [symmetric] K2_def [symmetric] fill_sparse_weight_run Let_def) (simp add: wr_def)
  then show ?thesis using w3(2) end_k by (auto simp: filled_def)
qed

subsection \<open>A run on any accelerator\<close>

lemma packed_layer:
  fixes c :: "('a::len, 'a) sa_cfg"
  assumes "cfg_ok c" "kernel_dim c dvd d" "kernel_dim c dvd h" "length w = d * h div W_PER_BUS c"
  shows "layer_holds c d h n (Dense_packed n d h w f hf NON_PRUNED) (weight_at c (d div kernel_dim c) w)"
proof -
  let ?K = "kernel_dim c" and ?W = "W_PER_BUS c"
  have W: "?W dvd h" "0 < ?W" "MAX_W_COL c * ?W = ?K" using assms(1,3) by (auto simp: cfg_okD cfg_ok_def intro: dvd_trans)
  have "h div ?K * (d div ?K) * (?K * MAX_W_COL c) * ?W = h div ?K * (d div ?K * ?K) * (MAX_W_COL c * ?W)" by (simp only: ac_simps)
  also have "\<dots> = d * h" using assms(2,3) by (simp add: W(3) mult.commute)
  finally have "h div ?K * (d div ?K) * (?K * MAX_W_COL c) = length w" using W(2) by (metis assms(4) nonzero_mult_div_cancel_right not_gr0)
  then show ?thesis using assms(2) W(1)
    by (auto simp: layer_holds_def Dense_packed_def Dense_base_def stores_kernel_def Let_def dims_ok_def
        SparseMatrixMultiplier_def kernel_ok_def row_in_w_def col_in_w_def tile_words_def)
qed

text \<open>The matrices of the kernels, and the specification of a run.\<close>

definition kernel_rows :: "model_dims \<Rightarrow> nat \<Rightarrow> nat" where
  "kernel_rows md i = (if i = NUM_HEAD md * 3 then NUM_HEAD md * D_Q md else if i = NUM_HEAD md * 3 + 2 then D_FF md else D_MODEL md)"

definition inference_spec :: "('a::len, 'a) sa_cfg \<Rightarrow> model_dims \<Rightarrow> (nat \<Rightarrow> 32 word) \<Rightarrow> nat \<Rightarrow> 'a matrix option" where
  "inference_spec c md rnd k = (let sz = D_SEQ md * D_MODEL md div ACT_PER_BUS c in
     transformer_block c (D_SEQ md) (D_MODEL md) (D_Q md) (NUM_HEAD md) (D_FF md)
       (act_at c (D_SEQ md) (map (\<lambda>i. rnd (k + i)) [0..<sz]))
       (\<lambda>i. weight_at c (kernel_rows md i div kernel_dim c) (random_kernel c md rnd (k + sz) i)))"

text \<open>The number of calls of \<^verbatim>\<open>rand\<close> in a run.\<close>

definition run_words :: "('a::len, 'w::len) sa_cfg \<Rightarrow> model_dims \<Rightarrow> nat" where
  "run_words c md = D_SEQ md * D_MODEL md div ACT_PER_BUS c + kernel_start c md (3 * NUM_HEAD md + 3)"

definition dense_formats :: formats where
  "dense_formats = \<lparr>sf_QVK = NON_PRUNED, sf_Condense = NON_PRUNED, sf_FF0 = NON_PRUNED, sf_FF1 = NON_PRUNED\<rparr>"

definition dims_fit :: "('a::len, 'w::len) sa_cfg \<Rightarrow> model_dims \<Rightarrow> bool" where
  "dims_fit c md \<longleftrightarrow> kernel_dim c dvd D_SEQ md \<and> kernel_dim c dvd D_Q md \<and> kernel_dim c dvd D_MODEL md \<and> kernel_dim c dvd D_FF md \<and>
     D_SEQ md \<le> 2 ^ 23 \<and> NUM_HEAD md \<le> 16"

context uniform_driver
begin

lemma inference_run:
  assumes "supported" "int_arith c" "ready s" "ACT_PER_BUS c = 4" "dims_fit c md"
  shows "case inference_spec c md rnd k of
      None \<Rightarrow> inference c ops (int_layers c) md rnd sp dense_formats (s, k) = None
    | Some Y \<Rightarrow> \<exists>s' buf. inference c ops (int_layers c) md rnd sp dense_formats (s, k) = Some (Done (s', k + run_words c md, buf)) \<and> ready s' \<and>
        holds c (D_SEQ md) (D_MODEL md) (bb_output buf) Y"
proof -
  note cfg = supported_ok [OF assms(1)]
  have K: "kernel_dim c dvd D_SEQ md" "kernel_dim c dvd D_Q md" "kernel_dim c dvd D_MODEL md" "kernel_dim c dvd D_FF md" "D_SEQ md \<le> 2 ^ 23" "NUM_HEAD md \<le> 16"
    using assms(5) by (simp_all add: dims_fit_def)
  have W: "W_PER_BUS c dvd kernel_dim c" using cfg by (simp add: cfg_ok_def)
  define sz where "sz = D_SEQ md * D_MODEL md div ACT_PER_BUS c"
  define input where "input = map (\<lambda>i. rnd (k + i)) [0..<sz]"
  define wv where "wv = map (random_kernel c md rnd (k + sz)) [0..<3 * NUM_HEAD md + 3]"
  define W where "W = (\<lambda>i. weight_at c (kernel_rows md i div kernel_dim c) (random_kernel c md rnd (k + sz) i))"
  obtain fv where fv: "make_weights c md rnd sp (k + sz) = Some (wv, fv, k + sz + kernel_start c md (3 * NUM_HEAD md + 3))" "length fv = 3 * NUM_HEAD md + 3"
    using make_weights_run [OF dvd_trans [OF W K(2)] dvd_trans [OF W K(4)] dvd_trans [OF W K(3)], of rnd sp "k + sz"] unfolding wv_def by blast
  define b where "b = TransformerBlock c (D_SEQ md) (D_MODEL md) (D_Q md) (NUM_HEAD md) (D_FF md)
      (map (\<lambda>i. Some (packed_head c (D_SEQ md) (D_MODEL md) (D_Q md) wv fv [0xAAAAAAAA] NON_PRUNED i)) [0..<NUM_HEAD md] @ replicate (16 - NUM_HEAD md) None)
      (Dense_packed (D_SEQ md) (NUM_HEAD md * D_Q md) (D_MODEL md) (wv ! (NUM_HEAD md * 3)) (fv ! (NUM_HEAD md * 3)) [0xAAAAAAAA] NON_PRUNED)
      (Dense_packed (D_SEQ md) (D_MODEL md) (D_FF md) (wv ! (NUM_HEAD md * 3 + 1)) (fv ! (NUM_HEAD md * 3 + 1)) [0xAAAAAAAA] NON_PRUNED)
      (Dense_packed (D_SEQ md) (D_FF md) (D_MODEL md) (wv ! (NUM_HEAD md * 3 + 2)) (fv ! (NUM_HEAD md * 3 + 2)) [0xAAAAAAAA] NON_PRUNED)"
  have run: "inference c ops (int_layers c) md rnd sp dense_formats (s, k) = do {
      (s, b', buf) \<leftarrow> block_compute c ops (int_layers c) (D_SEQ md) input (s, b, zero_buffers c (D_SEQ md) (D_MODEL md) (D_Q md) (NUM_HEAD md) (D_FF md));
      Some (Done (s, k + sz + kernel_start c md (3 * NUM_HEAD md + 3), buf)) }"
    using K(6) fv packed_block [of "NUM_HEAD md" wv fv c "D_SEQ md" "D_MODEL md" "D_Q md" "D_FF md" "[0xAAAAAAAA]" NON_PRUNED NON_PRUNED NON_PRUNED NON_PRUNED]
    by (simp add: inference_def sz_def [symmetric] fill_kernel_run input_def [symmetric] dense_formats_def convert_group_def on_done_def b_def wv_def)
  have layer: "layer_holds c d h (D_SEQ md) (Dense_packed (D_SEQ md) d h (wv ! i) f hf NON_PRUNED) (W i)"
    if "i < 3 * NUM_HEAD md + 3" "kernel_dim c dvd d" "kernel_dim c dvd h" "kernel_size c md i = d * h div W_PER_BUS c" "kernel_rows md i = d" for i d h f hf
    using packed_layer [OF cfg that(2,3), of "wv ! i" "D_SEQ md" f hf] that by (simp add: wv_def W_def)
  have heads: "layer_holds c (D_MODEL md) (D_Q md) (D_SEQ md) (Dense_packed (D_SEQ md) (D_MODEL md) (D_Q md) (wv ! i) f hf NON_PRUNED) (W i)"
    if "i < NUM_HEAD md * 3" for i f hf
    using that K(2,3) by (intro layer) (simp_all add: kernel_size_def kernel_rows_def mult.commute)
  have sz: "sz * ACT_PER_BUS c = D_SEQ md * D_MODEL md"
    using zero_tensor(1) [OF cfg K(3), of "D_SEQ md"] by (simp add: sz_def tensor_ok_def)
  have input: "tensor_ok c (D_SEQ md) (D_MODEL md) input" using sz cfg K(3) by (simp add: tensor_ok_def input_def)
  have spec: "inference_spec c md rnd k = transformer_block c (D_SEQ md) (D_MODEL md) (D_Q md) (NUM_HEAD md) (D_FF md) (act_at c (D_SEQ md) input) W"
    by (simp add: inference_spec_def sz_def input_def W_def Let_def)
  have "case transformer_block c (D_SEQ md) (D_MODEL md) (D_Q md) (NUM_HEAD md) (D_FF md) (act_at c (D_SEQ md) input) W of
      None \<Rightarrow> block_compute c ops (int_layers c) (D_SEQ md) input (s, b, zero_buffers c (D_SEQ md) (D_MODEL md) (D_Q md) (NUM_HEAD md) (D_FF md)) = None
    | Some Y \<Rightarrow> \<exists>s' b' buf. block_compute c ops (int_layers c) (D_SEQ md) input (s, b, zero_buffers c (D_SEQ md) (D_MODEL md) (D_Q md) (NUM_HEAD md) (D_FF md)) =
        Some (s', b', buf) \<and> ready s' \<and> length (bb_output buf) = D_SEQ md * D_MODEL md div 4 \<and> holds c (D_SEQ md) (D_MODEL md) (bb_output buf) Y"
    unfolding b_def
  proof (rule block_run [OF assms(1-3) K(1,2,5) assms(4) heads heads heads _ _ _ input holds_tensor [OF input]])
    show "layer_holds c (NUM_HEAD md * D_Q md) (D_MODEL md) (D_SEQ md)
      (Dense_packed (D_SEQ md) (NUM_HEAD md * D_Q md) (D_MODEL md) (wv ! (NUM_HEAD md * 3)) (fv ! (NUM_HEAD md * 3)) [0xAAAAAAAA] NON_PRUNED) (W (NUM_HEAD md * 3))"
      using K(2,3) by (intro layer) (simp_all add: kernel_size_def kernel_rows_def)
    show "layer_holds c (D_MODEL md) (D_FF md) (D_SEQ md)
      (Dense_packed (D_SEQ md) (D_MODEL md) (D_FF md) (wv ! (NUM_HEAD md * 3 + 1)) (fv ! (NUM_HEAD md * 3 + 1)) [0xAAAAAAAA] NON_PRUNED) (W (NUM_HEAD md * 3 + 1))"
      using K(3,4) by (intro layer) (simp_all add: kernel_size_def kernel_rows_def)
    show "layer_holds c (D_FF md) (D_MODEL md) (D_SEQ md)
      (Dense_packed (D_SEQ md) (D_FF md) (D_MODEL md) (wv ! (NUM_HEAD md * 3 + 2)) (fv ! (NUM_HEAD md * 3 + 2)) [0xAAAAAAAA] NON_PRUNED) (W (NUM_HEAD md * 3 + 2))"
      using K(3,4) by (intro layer) (simp_all add: kernel_size_def kernel_rows_def)
  qed (simp_all add: nth_append packed_head_def Let_def)
  then show ?thesis unfolding spec run by (auto simp: run_words_def sz_def split: option.splits)
qed

end

subsection \<open>The main program\<close>

definition no_exit :: "'r outcome option \<Rightarrow> bool" where
  "no_exit r \<longleftrightarrow> (\<forall>n. r \<noteq> Some (Exit n))"

lemma no_exit_intros:
  "no_exit (Some (Done x))" "(\<And>x. no_exit (f x)) \<Longrightarrow> no_exit (Option.bind m f)"
  "no_exit r \<Longrightarrow> (\<And>x. no_exit (g x)) \<Longrightarrow> no_exit (on_done r g)" "(\<And>x y. no_exit (h x y)) \<Longrightarrow> no_exit (case p of (x, y) \<Rightarrow> h x y)"
  by (auto simp: no_exit_def on_done_def Option.bind_eq_Some_conv split: outcome.splits prod.splits)

lemma no_exit_convert: "f = NON_PRUNED \<or> f = INTERLEAVED \<Longrightarrow> no_exit (convert_group c f is nr nc wv)"
  by (auto simp: no_exit_def convert_group_def Option.bind_eq_Some_conv)

lemma no_exit_inference: "no_exit (inference c ops lo md rnd sp (choose_formats sp) (s, k))"
proof -
  have "sf_QVK (choose_formats sp) = NON_PRUNED \<or> sf_QVK (choose_formats sp) = INTERLEAVED"
    "sf_Condense (choose_formats sp) = NON_PRUNED \<or> sf_Condense (choose_formats sp) = INTERLEAVED"
    "sf_FF0 (choose_formats sp) = NON_PRUNED \<or> sf_FF0 (choose_formats sp) = INTERLEAVED"
    "sf_FF1 (choose_formats sp) = NON_PRUNED \<or> sf_FF1 (choose_formats sp) = INTERLEAVED"
    by (simp_all add: choose_formats_def)
  then show ?thesis unfolding inference_def Let_def prod.case by (intro no_exit_intros no_exit_convert)
qed

lemma no_exit_loop: "(\<And>i x. no_exit (f i x)) \<Longrightarrow> no_exit (for_list is (\<lambda>i r. on_done (Some r) (f i)) (Done x))"
proof (induction "is" arbitrary: x)
  case Nil
  then show ?case by (simp add: no_exit_intros)
next
  case (Cons i "is")
  show ?case
  proof (cases "f i x")
    case None
    then show ?thesis by (simp add: on_done_def no_exit_def)
  next
    case (Some r)
    moreover obtain y where "r = Done y" using Cons.prems [of i x] Some by (cases r) (auto simp: no_exit_def)
    ultimately show ?thesis using Cons by (simp add: on_done_def)
  qed
qed

lemma no_exit_main_run:
  assumes "\<And>s s' hw. read_flag s = Some (s', hw) \<Longrightarrow> hw = word_of_nat (kernel_dim c)"
  shows "no_exit (main_run c ops read_flag lo md rnd args i x)"
proof -
  obtain s k outs where x: "x = (s, k, outs)" by (cases x)
  have run: "no_exit (on_done (inference c ops lo md rnd sp (choose_formats sp) (s', k)) (\<lambda>(s, k, buf). Some (Done (s, k, outs @ [buf]))))" for sp s'
    by (intro no_exit_intros no_exit_inference)
  show ?thesis
    by (cases "read_flag s") (use run assms [of s] in \<open>auto simp: main_run_def x intro!: no_exit_intros, simp_all add: no_exit_def\<close>)
qed

context uniform_driver
begin

lemma main_loop:
  assumes "supported" "int_arith c" "ready s" "ACT_PER_BUS c = 4" "dims_fit c md" "k \<le> r"
    and flag: "\<And>s. ready s \<Longrightarrow> \<exists>s'. read_flag s = Some (s', word_of_nat (kernel_dim c)) \<and> ready s'"
  shows "case for_list [0..<k] (\<lambda>i x. on_done (Some x) (main_run c ops read_flag (int_layers c) md rnd (replicate (4 * r) ''0'') i)) (Done (s, 0, [])) of
      None \<Rightarrow> \<exists>i<k. inference_spec c md rnd (i * run_words c md) = None
    | Some (Exit e) \<Rightarrow> False
    | Some (Done (s', w, outs)) \<Rightarrow> ready s' \<and> w = k * run_words c md \<and> length outs = k \<and>
        (\<forall>i<k. \<exists>Y. inference_spec c md rnd (i * run_words c md) = Some Y \<and> holds c (D_SEQ md) (D_MODEL md) (bb_output (outs ! i)) Y)"
  using assms(6)
proof (induction k)
  case 0
  then show ?case using assms(3) by simp
next
  case (Suc k)
  let ?args = "replicate (4 * r) ''0''" and ?sp = "\<lparr>sp_QVK = 0, sp_Condense = 0, sp_FF0 = 0, sp_FF1 = 0\<rparr>"
  let ?f = "\<lambda>i x. on_done (Some x) (main_run c ops read_flag (int_layers c) md rnd ?args i)" and ?w = "k * run_words c md"
  have IH: "case for_list [0..<k] ?f (Done (s, 0, [])) of
      None \<Rightarrow> \<exists>i<k. inference_spec c md rnd (i * run_words c md) = None
    | Some (Exit e) \<Rightarrow> False
    | Some (Done (s', w, outs)) \<Rightarrow> ready s' \<and> w = ?w \<and> length outs = k \<and>
        (\<forall>i<k. \<exists>Y. inference_spec c md rnd (i * run_words c md) = Some Y \<and> holds c (D_SEQ md) (D_MODEL md) (bb_output (outs ! i)) Y)"
    using Suc by simp
  show ?case
  proof (cases "for_list [0..<k] ?f (Done (s, 0, []))")
    case None
    with IH show ?thesis by (auto simp: for_list_append less_Suc_eq)
  next
    case (Some x)
    with IH obtain s1 outs where x: "x = Done (s1, ?w, outs)" "ready s1" "length outs = k"
      "\<forall>i<k. \<exists>Y. inference_spec c md rnd (i * run_words c md) = Some Y \<and> holds c (D_SEQ md) (D_MODEL md) (bb_output (outs ! i)) Y"
      by (cases x) auto
    obtain s2 where s2: "read_flag s1 = Some (s2, word_of_nat (kernel_dim c))" "ready s2" using flag [OF x(2)] by blast
    have atoi: "atoi ''0'' = Some 0" by (simp add: atoi_def is_space_def is_digit_def)
    have "read_sparsity ?args k = Some ?sp" using Suc.prems by (simp add: read_sparsity_def rd_def atoi)
    moreover have "choose_formats ?sp = dense_formats" by (simp add: choose_formats_def dense_formats_def)
    ultimately have step: "?f k x = on_done (inference c ops (int_layers c) md rnd ?sp dense_formats (s2, ?w)) (\<lambda>(s, w, buf). Some (Done (s, w, outs @ [buf])))"
      using s2(1) by (simp add: on_done_def main_run_def x(1))
    note run = inference_run [OF assms(1,2) s2(2) assms(4,5), where rnd = rnd and k = ?w and sp = ?sp]
    show ?thesis
    proof (cases "inference_spec c md rnd ?w")
      case None
      with run have "inference c ops (int_layers c) md rnd ?sp dense_formats (s2, ?w) = None" by simp
      then have "?f k x = None" unfolding step by (simp add: on_done_def)
      then show ?thesis using None Some by (auto simp: for_list_append)
    next
      case (Some Y)
      with run obtain s3 buf where "inference c ops (int_layers c) md rnd ?sp dense_formats (s2, ?w) = Some (Done (s3, ?w + run_words c md, buf))"
        "ready s3" "holds c (D_SEQ md) (D_MODEL md) (bb_output buf) Y" by auto
      moreover from this(1) have "?f k x = Some (Done (s3, ?w + run_words c md, outs @ [buf]))" unfolding step by (simp add: on_done_def)
      ultimately show ?thesis using x(3,4) Some \<open>for_list [0..<k] ?f (Done (s, 0, [])) = Some x\<close>
        by (auto simp: for_list_append nth_append less_Suc_eq)
    qed
  qed
qed

end

subsection \<open>Properties\<close>

text \<open>C2: A run of the program on the simulated accelerator, with 8-bit integers and dense kernels, computes the transformer
  block of the random input and kernels: every head, the condensing layer, both normalisations and the feed-forward
  network, or is undefined when the specification is.\<close>

theorem gem5_inference:
  fixes c :: "('a::len, 'a) sa_cfg"
  assumes "gem5_supported c" "int_arith c" "on_tile (tile_wf c) s" "ACT_PER_BUS c = 4" "dims_fit c md"
  shows "case inference_spec c md rnd k of
      None \<Rightarrow> inference c (gem5_ops c th) (int_layers c) md rnd sp dense_formats (s, k) = None
    | Some Y \<Rightarrow> \<exists>s' buf. inference c (gem5_ops c th) (int_layers c) md rnd sp dense_formats (s, k) = Some (Done (s', k + run_words c md, buf)) \<and>
        on_tile (tile_wf c) s' \<and> holds c (D_SEQ md) (D_MODEL md) (bb_output buf) Y"
  by (rule uniform_gem5.inference_run [OF assms])

definition byte_cfg :: "(8, 8) sa_cfg" where
  "byte_cfg = int_cfg 4"

definition tiny_model :: model_dims where
  "tiny_model = \<lparr>D_Q = 4, D_SEQ = 4, D_MODEL = 4, NUM_HEAD = 1, D_FF = 4\<rparr>"

lemma byte_simps [simp]:
  "kernel_dim byte_cfg = 4" "ACT_PER_BUS byte_cfg = 4" "W_PER_BUS byte_cfg = 4" "MAX_ACT_COL byte_cfg = 1" "MAX_W_COL byte_cfg = 1"
  "gem5_supported byte_cfg" "int_arith byte_cfg" "dims_fit byte_cfg tiny_model"
  by (simp_all add: byte_cfg_def int_cfg_def ACT_PER_BUS_def W_PER_BUS_def MAX_ACT_COL_def MAX_W_COL_def per_bus_def
      BUS_WIDTH_def CEILING_DIV_def gem5_supported_def cfg_ok_def int_arith_def dims_fit_def tiny_model_def)

lemma byte_ready: "on_tile (tile_wf byte_cfg) ((\<lambda>_. 0), smm_create byte_cfg 0 0 1)"
  by (simp add: on_tile_def smm_create_def get_tile_def rdi_def rd_def SATile_wf)

text \<open>With zeros everywhere the specification is defined.\<close>

definition zero_on :: "nat \<Rightarrow> nat \<Rightarrow> 'a::len matrix \<Rightarrow> bool" where
  "zero_on n m A \<longleftrightarrow> (\<forall>t<n. \<forall>j<m. A t j = 0)"

lemma zero_on_mul: "zero_on d m B \<Longrightarrow> zero_on n m (mat_mul d A B)"
  by (simp add: zero_on_def mat_mul_def)

lemma zero_addnorm:
  assumes "zero_on 4 4 X" "zero_on 4 4 Y"
  shows "\<exists>Z. mat_addnorm byte_cfg 4 4 X Y = Some Z \<and> zero_on 4 4 Z"
proof -
  have "[0..<4] = [0, 1, 2, 3 :: nat]" by (simp add: upt_rec)
  then have zero: "read_row byte_cfg 4 (M t) = [0, 0, 0, 0]" if "zero_on 4 4 M" "t < 4" for M :: "8 matrix" and t
    using that by (simp add: zero_on_def read_row_def mirror_def mem2d_def)
  let ?row = "\<lambda>t. addnorm_row byte_cfg 4 (read_row byte_cfg 4 (Y t)) (read_row byte_cfg 4 (X t))"
  have "addnorm_stat 4 [0, 0, 0, 0 :: 8 word] = Some (0, 1)" by code_simp
  then have row: "?row t = Some [0, 0, 0, 0]" if "t < 4" for t
    by (simp add: zero [OF assms(1) that] zero [OF assms(2) that] addnorm_row_def add_value_def norm_values_def norm_value_def int_c_def)
  have "mat_addnorm byte_cfg 4 4 X Y = Some (\<lambda>t j. the (?row t) ! mirror 4 j)"
    using row by (simp add: mat_addnorm_def Let_def)
  moreover have "[0, 0, 0, 0] ! mirror 4 j = (0 :: 8 word)" if "j < 4" for j
  proof -
    have "mirror 4 j < 4" using that by (intro mirror_less) simp_all
    then show ?thesis by (simp add: nth_Cons' )
  qed
  then have "zero_on 4 4 (\<lambda>t j. the (?row t) ! mirror 4 j)" using row by (simp add: zero_on_def)
  ultimately show ?thesis by blast
qed

lemma tiny_spec: "\<exists>Y. inference_spec byte_cfg tiny_model (\<lambda>_. 0) k = Some Y"
proof -
  have cfg: "cfg_ok byte_cfg" using byte_simps(6) by (simp add: gem5_supported_def)
  have act: "zero_on 4 4 (act_at byte_cfg 4 xs)" if "length xs = 4" "\<And>p. p < 4 \<Longrightarrow> xs ! p = 0" for xs
    using holds_zeros [OF cfg, of 4 4 xs] that by (simp add: zero_on_def holds_def)
  have rows: "kernel_rows tiny_model i div 4 = 1" "kernel_size byte_cfg tiny_model i = 4" for i
    by (simp_all add: kernel_rows_def tiny_model_def kernel_size_def)
  have W: "zero_on 4 4 (weight_at byte_cfg (kernel_rows tiny_model i div kernel_dim byte_cfg) (random_kernel byte_cfg tiny_model (\<lambda>_. 0) k' i))" for i k'
    using act [of "random_kernel byte_cfg tiny_model (\<lambda>_. 0) k' i"] by (simp add: zero_on_def weight_at_act rows) (simp add: random_kernel_def rows)
  have X: "zero_on 4 4 (act_at byte_cfg 4 (map (\<lambda>i. 0) [0..<4]))" by (rule act) simp_all
  define V where "V = (\<lambda>i. weight_at byte_cfg (kernel_rows tiny_model i div kernel_dim byte_cfg) (random_kernel byte_cfg tiny_model (\<lambda>_. 0) (k + 4) i))"
  have "inference_spec byte_cfg tiny_model (\<lambda>_. 0) k = transformer_block byte_cfg 4 4 4 1 4 (act_at byte_cfg 4 (map (\<lambda>i. 0) [0..<4])) V"
    unfolding inference_spec_def V_def by (simp add: tiny_model_def)
  moreover have "\<exists>Y. transformer_block byte_cfg 4 4 4 1 4 X V = Some Y" if z: "zero_on 4 4 X" for X
  proof -
    have V: "zero_on 4 4 (V i)" for i unfolding V_def by (rule W)
    obtain A where A: "mat_addnorm byte_cfg 4 4 X (mat_mul (1 * 4) (mat_heads 4 (\<lambda>i. attention 4 4 4 X (V (i * 3)) (V (i * 3 + 1)) (V (i * 3 + 2)))) (V (1 * 3))) = Some A" "zero_on 4 4 A"
      using zero_addnorm [OF z zero_on_mul [OF V]] unfolding mult_1 by blast
    moreover obtain B where "mat_addnorm byte_cfg 4 4 A (mat_mul 4 (mat_mul 4 A (V (1 * 3 + 1))) (V (1 * 3 + 2))) = Some B"
      using zero_addnorm [OF A(2)] zero_on_mul [OF V] by blast
    ultimately show ?thesis by (simp only: transformer_block_def Let_def Option.bind.simps) simp
  qed
  ultimately show ?thesis using X by simp
qed

theorem gem5_inference_witness:
  "\<exists>s' buf. inference byte_cfg (gem5_ops byte_cfg 0) (int_layers byte_cfg) tiny_model (\<lambda>_. 0) \<lparr>sp_QVK = 0, sp_Condense = 0, sp_FF0 = 0, sp_FF1 = 0\<rparr>
     dense_formats (((\<lambda>_. 0), smm_create byte_cfg 0 0 1), 0) = Some (Done (s', run_words byte_cfg tiny_model, buf))"
proof -
  obtain Y where "inference_spec byte_cfg tiny_model (\<lambda>_. 0) 0 = Some Y" using tiny_spec by blast
  with gem5_inference [OF byte_simps(6,7) byte_ready byte_simps(2,8), where rnd = "\<lambda>_. 0" and k = 0 and th = 0
      and sp = "\<lparr>sp_QVK = 0, sp_Condense = 0, sp_FF0 = 0, sp_FF1 = 0\<rparr>"]
  show ?thesis by auto
qed

text \<open>C15: Built for the array size of the simulated accelerator it runs on, the program calls \<^verbatim>\<open>exit\<close> exactly when the
  number of its arguments is not a positive multiple of four: its other checks, of the array size and of the four formats,
  never fail.\<close>

theorem gem5_main_exit:
  assumes "kernel_dim c < 2 ^ 32"
  shows "main c ops (smmReadFlag c th 0 0) lo md rnd args s = Some (Exit n) \<longleftrightarrow> n = 1 \<and> (length args mod 4 \<noteq> 0 \<or> args = [])"
proof -
  have "no_exit (for_list [0..<length args div 4] (\<lambda>i r. on_done (Some r) (main_run c ops (smmReadFlag c th 0 0) lo md rnd args i)) (Done (s, 0, [])))"
    using smmReadFlag_value [OF _ assms] by (intro no_exit_loop no_exit_main_run) blast
  then show ?thesis by (auto simp: main_def no_exit_def)
qed

theorem gem5_main_exit_witness: "main byte_cfg (gem5_ops byte_cfg 0) (smmReadFlag byte_cfg 0 0 0) (int_layers byte_cfg) tiny_model (\<lambda>_. 0) [''0''] ((\<lambda>_. 0), smm_create byte_cfg 0 0 1) = Some (Exit 1)"
  using gem5_main_exit [of byte_cfg] by simp

text \<open>C14: Called with zeros as arguments, four for each of \<open>r\<close> runs, the program on the simulated accelerator completes all its
  runs, and the output of each is the transformer block of the random words drawn for it, unless the block of some run is undefined, when
  the program is. The activations and weights are 8-bit integers, the dimensions multiples of the array size, with at most
  \<open>2 ^ 23\<close> rows and sixteen heads.\<close>

theorem gem5_main_completes:
  fixes c :: "('a::len, 'a) sa_cfg"
  assumes "gem5_supported c" "int_arith c" "on_tile (tile_wf c) s" "ACT_PER_BUS c = 4" "dims_fit c md" "r \<noteq> 0"
  shows "case main c (gem5_ops c th) (smmReadFlag c th 0 0) (int_layers c) md rnd (replicate (4 * r) ''0'') s of
      None \<Rightarrow> \<exists>i<r. inference_spec c md rnd (i * run_words c md) = None
    | Some (Exit e) \<Rightarrow> False
    | Some (Done (s', w, outs)) \<Rightarrow> w = r * run_words c md \<and> length outs = r \<and>
        (\<forall>i. i < r \<longrightarrow> (\<exists>Y. inference_spec c md rnd (i * run_words c md) = Some Y \<and> holds c (D_SEQ md) (D_MODEL md) (bb_output (outs ! i)) Y))"
proof -
  have "kernel_dim c \<le> kernel_dim c * kernel_dim c" by (rule le_square)
  also have "\<dots> < 2 ^ 31" using assms(1) by (simp add: gem5_supported_def)
  finally have K: "kernel_dim c < 2 ^ 32" by simp
  have flag: "\<exists>s'. smmReadFlag c th 0 0 s = Some (s', word_of_nat (kernel_dim c)) \<and> on_tile (tile_wf c) s'" if "on_tile (tile_wf c) s" for s
  proof -
    obtain x d where s: "s = (x, d)" by (cases s)
    from smmReadFlag_run [OF K, of th x d] that show ?thesis by (auto simp: s on_tile_def)
  qed
  have main: "main c ops fl lo md rnd (replicate (4 * r) ''0'') s =
      for_list [0..<r] (\<lambda>i x. on_done (Some x) (main_run c ops fl lo md rnd (replicate (4 * r) ''0'') i)) (Done (s, 0, []))" for ops fl lo
    using assms(6) by (simp add: main_def)
  show ?thesis
    using uniform_gem5.main_loop [where k = r and r = r and rnd = rnd and th = th and read_flag = "smmReadFlag c th 0 0", OF assms(1-5) order_refl flag]
    unfolding main
    by (auto split: option.splits outcome.splits)
qed

theorem gem5_main_completes_witness:
  "\<exists>s' outs. main byte_cfg (gem5_ops byte_cfg 0) (smmReadFlag byte_cfg 0 0 0) (int_layers byte_cfg) tiny_model (\<lambda>_. 0) (replicate 8 ''0'')
     ((\<lambda>_. 0), smm_create byte_cfg 0 0 1) = Some (Done (s', 2 * run_words byte_cfg tiny_model, outs)) \<and> length outs = 2"
proof -
  have spec: "inference_spec byte_cfg tiny_model (\<lambda>_. 0) k = None \<longleftrightarrow> False" for k using tiny_spec [of k] by auto
  from gem5_main_completes [OF byte_simps(6,7) byte_ready byte_simps(2,8), where r = 2 and th = 0 and rnd = "\<lambda>_. 0"] show ?thesis
    by (auto simp: spec split: option.splits outcome.splits)
qed

end
