(* ===== verification/TiC_Mult_Test.thy ===== *)
theory TiC_Mult_Test
  imports TiC_Develop TiC_Product
begin

text \<open>
  The test program \<^verbatim>\<open>mat_mult_test.cpp\<close>: it multiplies two matrices in software and on the accelerator and compares the
  packed results. Its driver counts columns in activations where \<^verbatim>\<open>processMultiplication\<close> counts them in bus words, and it
  stops when the output is full instead of after a fixed number of calls: that loop is a \<open>partial_function\<close>, which returns
  only if the loop ends.

  A matrix of the program is a list of rows. What \<^verbatim>\<open>ACTIVATION_FP\<close> and \<^verbatim>\<open>WEIGHT_FP\<close> select is a record of the conversions of a
  number to a weight and to an activation, and of the reference multiplication. Printing is left out.
\<close>

subsection \<open>Model\<close>

definition rd2 :: "'x list list \<Rightarrow> nat \<Rightarrow> nat \<Rightarrow> 'x option" where
  "rd2 mat i j = do { row \<leftarrow> rd mat i; rd row j }"

definition wr2 :: "'x list list \<Rightarrow> nat \<Rightarrow> nat \<Rightarrow> 'x \<Rightarrow> 'x list list option" where
  "wr2 mat i j v = do { row \<leftarrow> rd mat i; row \<leftarrow> wr row j v; wr mat i row }"

text \<open>An element is converted to 64 bits, masked and shifted into the current word; a shift by 32 or more is undefined.\<close>

definition compress_element ::
  "'b::len word list list \<Rightarrow> nat \<Rightarrow> nat \<Rightarrow> nat \<Rightarrow> nat \<Rightarrow> 32 word list \<times> 32 word \<times> nat \<Rightarrow> (32 word list \<times> 32 word \<times> nat) option" where
  "compress_element mat element_per_word element_bits r cc = (\<lambda>(res, currentEl, currentByteIdx). do {
     x \<leftarrow> rd2 mat r cc;
     let sub_element = (ucast ((scast x :: 64 word) AND mask element_bits) :: 32 word);
     let shift = element_bits * (element_per_word - currentByteIdx - 1);
     assert_c (shift < 32);
     let currentEl = currentEl OR push_bit shift sub_element;
     let currentByteIdx = currentByteIdx + 1;
     Some (if currentByteIdx = element_per_word then (res @ [currentEl], 0, 0) else (res, currentEl, currentByteIdx))
   })"

definition row_compress_matrix :: "nat \<Rightarrow> nat \<Rightarrow> 'b::len word list list \<Rightarrow> nat \<Rightarrow> nat \<Rightarrow> 32 word list option" where
  "row_compress_matrix NR NC mat element_per_word element_bits = do {
     (res, currentEl, currentByteIdx) \<leftarrow>
       for_list [0..<NR] (\<lambda>r. for_list [0..<NC] (compress_element mat element_per_word element_bits r)) ([], 0, 0);
     Some (if currentByteIdx \<noteq> 0 then res @ [currentEl] else res)
   }"

definition matrix_multiply_int ::
  "nat \<Rightarrow> nat \<Rightarrow> nat \<Rightarrow> 'a::len word list list \<Rightarrow> 'w::len word list list \<Rightarrow> 'a word list list \<Rightarrow> 'a word list list option" where
  "matrix_multiply_int M N P lhs rhs =
     for_list [0..<M] (\<lambda>i. for_list [0..<P] (\<lambda>j out. do {
       out \<leftarrow> wr2 out i j 0;
       for_list [0..<N] (\<lambda>k out. do {
         l \<leftarrow> rd2 lhs i k;
         r \<leftarrow> rd2 rhs k j;
         p \<leftarrow> int_c (sint l * sint r);
         x \<leftarrow> rd2 out i j;
         v \<leftarrow> int_c (sint x + p);
         wr2 out i j (word_of_int v)
       }) out
     }))"

text \<open>With floating-point activations the sum is kept in a local variable; \<open>fmac\<close> adds the product of its last two arguments to the first.\<close>

definition matrix_multiply_fp ::
  "('a::len word \<Rightarrow> 'a word \<Rightarrow> 'w::len word \<Rightarrow> 'a word) \<Rightarrow> nat \<Rightarrow> nat \<Rightarrow> nat \<Rightarrow> 'a word list list \<Rightarrow> 'w word list list \<Rightarrow> 'a word list list
     \<Rightarrow> 'a word list list option" where
  "matrix_multiply_fp fmac M N P lhs rhs =
     for_list [0..<M] (\<lambda>i. for_list [0..<P] (\<lambda>j out. do {
       out_act \<leftarrow> for_list [0..<N] (\<lambda>k out_act. do {
         lhs_act \<leftarrow> rd2 lhs i k;
         r \<leftarrow> rd2 rhs k j;
         Some (fmac out_act lhs_act r)
       }) 0;
       wr2 out i j out_act
     }))"

definition should_stream_systolic_array :: "('a::len, 'w::len) sa_cfg \<Rightarrow> nat \<Rightarrow> bool" where
  "should_stream_systolic_array c idx =
     fold (\<lambda>delta res. if (idx + delta) mod kernel_dim c = kernel_dim c - 1 then True else res) [0..<ACT_PER_BUS c] False"

text \<open>One word in and, once the array has been streamed often enough, one word out: the body of both streaming loops.\<close>

definition stream_word ::
  "('a::len, 'w::len) sa_cfg \<Rightarrow> 's smm_ops \<Rightarrow> nat \<Rightarrow> nat \<Rightarrow> 32 word \<Rightarrow> 's \<times> 32 word list \<times> nat \<times> nat \<Rightarrow> ('s \<times> 32 word list \<times> nat \<times> nat) option" where
  "stream_word c ops out_size idx inputWord = (\<lambda>(s, out, outPtr, num_streams). do {
     let col = idx mod kernel_dim c;
     (s, res, num_streams) \<leftarrow>
       (if should_stream_systolic_array c idx
        then do { (s, res) \<leftarrow> op_stream ops col inputWord 0 s; Some (s, res, num_streams + 1) }
        else do { (s, res) \<leftarrow> op_queue ops col inputWord 0 s; Some (s, res, num_streams) });
     if 2 * kernel_dim c - 1 \<le> num_streams then do {
       assert_c (outPtr < out_size);
       out \<leftarrow> wr out outPtr (ucast res);
       Some (s, out, outPtr + 1, num_streams)
     } else Some (s, out, outPtr, num_streams)
   })"

partial_function (option) stream_out ::
  "('a::len, 'w::len) sa_cfg \<Rightarrow> 's smm_ops \<Rightarrow> nat \<Rightarrow> nat \<Rightarrow> 's \<times> 32 word list \<times> nat \<times> nat \<Rightarrow> ('s \<times> 32 word list \<times> nat \<times> nat) option" where
  "stream_out c ops out_size idx st =
     (if fst (snd (snd st)) < out_size
      then Option.bind (stream_word c ops out_size idx 0 st) (stream_out c ops out_size (idx + ACT_PER_BUS c))
      else Some st)"

definition systolic_array_matrix_multiply ::
  "('a::len, 'w::len) sa_cfg \<Rightarrow> 's smm_ops \<Rightarrow> 32 word list \<Rightarrow> 32 word list \<Rightarrow> nat \<Rightarrow> nat \<Rightarrow> nat \<Rightarrow> nat \<Rightarrow> nat \<Rightarrow> 's \<times> 32 word list
     \<Rightarrow> ('s \<times> 32 word list) option" where
  "systolic_array_matrix_multiply c ops lhs rhs M N P lhs_size out_size = (\<lambda>(s, out). do {
     assert_c (N = kernel_dim c);
     assert_c (P = kernel_dim c);
     s \<leftarrow> for_list [0..<CEILING_DIV (N * P) (W_PER_BUS c)] (\<lambda>i s. do {
       w \<leftarrow> rd rhs i;
       (s, _) \<leftarrow> op_param ops (i * W_PER_BUS c) w 0 s;
       Some s
     }) s;
     assert_c (4 \<le> kernel_dim c);
     st \<leftarrow> for_list [0..<CEILING_DIV (M * kernel_dim c) (ACT_PER_BUS c)] (\<lambda>n st. do {
       assert_c (n < lhs_size);
       inputWord \<leftarrow> rd lhs n;
       stream_word c ops out_size (n * ACT_PER_BUS c) inputWord st
     }) (s, out, 0, 0);
     (s, out, _, _) \<leftarrow> stream_out c ops out_size (CEILING_DIV (M * kernel_dim c) (ACT_PER_BUS c) * ACT_PER_BUS c) st;
     Some (s, out)
   })"

definition fill_matrix :: "nat \<Rightarrow> nat \<Rightarrow> (nat \<Rightarrow> 'b) \<Rightarrow> (nat \<Rightarrow> nat \<Rightarrow> nat) \<Rightarrow> 'b list list \<Rightarrow> 'b list list option" where
  "fill_matrix NR NC conv f = for_list [0..<NR] (\<lambda>r. for_list [0..<NC] (\<lambda>cc mat. wr2 mat r cc (conv (f r cc))))"

record (overloaded) ('a, 'w) test_arith =
  to_weight :: "nat \<Rightarrow> 'w word"
  to_act :: "nat \<Rightarrow> 'a word"
  matrix_multiply :: "nat \<Rightarrow> nat \<Rightarrow> nat \<Rightarrow> 'a word list list \<Rightarrow> 'w word list list \<Rightarrow> 'a word list list \<Rightarrow> 'a word list list option"

definition int_test :: "('a::len, 'w::len) test_arith" where
  "int_test = \<lparr>to_weight = word_of_nat, to_act = word_of_nat, matrix_multiply = matrix_multiply_int\<rparr>"

definition fp_test :: "(32 word \<Rightarrow> 32 word \<Rightarrow> 32 word) \<Rightarrow> (32 word \<Rightarrow> 32 word \<Rightarrow> 32 word) \<Rightarrow> (int \<Rightarrow> 32 word) \<Rightarrow> (32, 32) test_arith" where
  "fp_test fmul fadd itof = \<lparr>to_weight = (\<lambda>n. itof (int n)), to_act = (\<lambda>n. itof (int n)),
     matrix_multiply = matrix_multiply_fp (\<lambda>acc x w. fadd acc (fmul x w))\<rparr>"

definition fp_int_test :: "(32 word \<Rightarrow> 32 word \<Rightarrow> 32 word) \<Rightarrow> (32 word \<Rightarrow> 32 word \<Rightarrow> 32 word) \<Rightarrow> (int \<Rightarrow> 32 word) \<Rightarrow> (32, 'w::len) test_arith" where
  "fp_int_test fmul fadd itof = \<lparr>to_weight = word_of_nat, to_act = (\<lambda>n. itof (int n)),
     matrix_multiply = matrix_multiply_fp (\<lambda>acc x w. fadd acc (fmul x (itof (sint w))))\<rparr>"

text \<open>The local arrays start with any contents: \<open>w0\<close> and \<open>a0\<close> fill them.\<close>

definition test_systolic_array_matrix_multiply ::
  "('a::len, 'w::len) sa_cfg \<Rightarrow> 's smm_ops \<Rightarrow> ('a, 'w) test_arith \<Rightarrow> 'w word \<Rightarrow> 'a word \<Rightarrow> nat \<Rightarrow> 's \<Rightarrow> ('s \<times> bool) option" where
  "test_systolic_array_matrix_multiply c ops ta w0 a0 RES_NUM_ROWS s = (let SA_SIZE = kernel_dim c in do {
     rhs_weights \<leftarrow> fill_matrix SA_SIZE SA_SIZE (to_weight ta) (\<lambda>r cc. cc + r * SA_SIZE) (replicate SA_SIZE (replicate SA_SIZE w0));
     lhs_mult \<leftarrow> fill_matrix RES_NUM_ROWS SA_SIZE (to_act ta) (\<lambda>r cc. 10 * r + cc) (replicate RES_NUM_ROWS (replicate SA_SIZE a0));
     compressed_weights \<leftarrow> row_compress_matrix SA_SIZE SA_SIZE rhs_weights (W_PER_BUS c) LENGTH('w);
     compressed_lhs_mult \<leftarrow> row_compress_matrix RES_NUM_ROWS SA_SIZE lhs_mult (ACT_PER_BUS c) LENGTH('a);
     res \<leftarrow> matrix_multiply ta RES_NUM_ROWS SA_SIZE SA_SIZE lhs_mult rhs_weights (replicate RES_NUM_ROWS (replicate SA_SIZE 0));
     compressed_result \<leftarrow> row_compress_matrix RES_NUM_ROWS SA_SIZE res (ACT_PER_BUS c) LENGTH('a);
     let res_systolic_array = replicate (CEILING_DIV (RES_NUM_ROWS * SA_SIZE) (ACT_PER_BUS c)) 0;
     (s, res_systolic_array) \<leftarrow> systolic_array_matrix_multiply c ops compressed_lhs_mult compressed_weights
       RES_NUM_ROWS SA_SIZE SA_SIZE (length compressed_lhs_mult) (length res_systolic_array) (s, res_systolic_array);
     resultMatchesBaseline \<leftarrow> for_brk [0..<length compressed_result] (\<lambda>ok. \<not> ok) (\<lambda>i ok. do {
       x \<leftarrow> rd res_systolic_array i;
       Some (if x \<noteq> compressed_result ! i then False else ok)
     }) True;
     Some (s, resultMatchesBaseline)
   })"

definition mult_test_main ::
  "('a::len, 'w::len) sa_cfg \<Rightarrow> 's smm_ops \<Rightarrow> ('s \<Rightarrow> ('s \<times> 64 word) option) \<Rightarrow> ('a, 'w) test_arith \<Rightarrow> 'w word \<Rightarrow> 'a word \<Rightarrow> 's \<Rightarrow> ('s \<times> bool) option" where
  "mult_test_main c ops read_flag ta w0 a0 s = do {
     (s, hw) \<leftarrow> read_flag s;
     assert_c (word_of_nat (kernel_dim c) = hw);
     (s, b) \<leftarrow> test_systolic_array_matrix_multiply c ops ta w0 a0 5 s;
     Some (s, True \<and> b)
   }"

subsection \<open>Matrices as lists of rows\<close>

definition mat_of :: "nat \<Rightarrow> nat \<Rightarrow> (nat \<Rightarrow> nat \<Rightarrow> 'x) \<Rightarrow> 'x list list" where
  "mat_of NR NC F = map (\<lambda>r. map (F r) [0..<NC]) [0..<NR]"

lemma mat_of_cong: "(\<And>r k. r < NR \<Longrightarrow> k < NC \<Longrightarrow> F r k = G r k) \<Longrightarrow> mat_of NR NC F = mat_of NR NC G"
  by (simp add: mat_of_def)

lemma mat_of_const: "replicate NR (replicate NC x) = mat_of NR NC (\<lambda>_ _. x)"
  by (simp add: mat_of_def map_replicate_const)

lemma rd2_mat_of [simp]: "i < NR \<Longrightarrow> j < NC \<Longrightarrow> rd2 (mat_of NR NC F) i j = Some (F i j)"
  by (simp add: rd2_def rd_def mat_of_def)

definition upd2 :: "(nat \<Rightarrow> nat \<Rightarrow> 'x) \<Rightarrow> nat \<Rightarrow> nat \<Rightarrow> 'x \<Rightarrow> nat \<Rightarrow> nat \<Rightarrow> 'x" where
  "upd2 F i j v r k = (if r = i \<and> k = j then v else F r k)"

lemma upd2_simps [simp]: "upd2 F i j v i j = v" "upd2 (upd2 F i j v) i j w = upd2 F i j w"
  by (simp_all add: upd2_def fun_eq_iff)

lemma wr2_mat_of [simp]:
  assumes "i < NR" "j < NC"
  shows "wr2 (mat_of NR NC F) i j v = Some (mat_of NR NC (upd2 F i j v))"
proof -
  have "(map (F i) [0..<NC])[j := v] = map (upd2 F i j v i) [0..<NC]"
    using assms(2) by (intro nth_equalityI) (auto simp: nth_list_update upd2_def)
  moreover have "(mat_of NR NC F)[i := map (upd2 F i j v i) [0..<NC]] = mat_of NR NC (upd2 F i j v)"
    using assms(1) by (intro nth_equalityI) (auto simp: mat_of_def nth_list_update upd2_def)
  ultimately show ?thesis using assms by (simp add: wr2_def rd_def wr_def) (simp add: mat_of_def)
qed

text \<open>Two nested loops whose body writes one value into the entry they are at.\<close>

lemma matrix_loop:
  assumes step: "\<And>r k F. r < NR \<Longrightarrow> k < NC \<Longrightarrow> step r k (mat_of NR NC F) = Option.bind (G r k) (wr2 (mat_of NR NC F) r k)"
  shows "for_list [0..<NR] (\<lambda>r. for_list [0..<NC] (step r)) (mat_of NR NC F0) =
    (if \<forall>r<NR. \<forall>k<NC. G r k \<noteq> None then Some (mat_of NR NC (\<lambda>r k. the (G r k))) else None)"
proof -
  let ?all = "\<lambda>n. \<forall>p<n. G (p div NC) (p mod NC) \<noteq> None"
  let ?F = "\<lambda>n r k. if mem2d NC r k < n then the (G r k) else F0 r k"
  have "for_list [0..<n] (\<lambda>p. step (p div NC) (p mod NC)) (mat_of NR NC F0) = (if ?all n then Some (mat_of NR NC (?F n)) else None)"
    if "n \<le> NR * NC" for n
    using that
  proof (induction n)
    case 0
    then show ?case by simp
  next
    case (Suc n)
    then obtain r k where n: "n = mem2d NC r k" "r < NR" "k < NC" by (metis Suc_le_lessD mem2d_exhaust)
    have "mat_of NR NC (upd2 (?F n) r k v) = mat_of NR NC (?F (Suc n))" if "G r k = Some v" for v
      using that n by (intro mat_of_cong) (auto simp: less_Suc_eq upd2_def)
    then show ?case
      using Suc step [OF n(2,3), of "?F n"] n(2,3) by (auto simp: for_list_append n(1) All_less_Suc)
  qed
  from this [of "NR * NC"] have "for_list [0..<NR] (\<lambda>r. for_list [0..<NC] (step r)) (mat_of NR NC F0) =
      (if ?all (NR * NC) then Some (mat_of NR NC (?F (NR * NC))) else None)" by (simp add: for_list_nest)
  moreover have "?all (NR * NC) \<longleftrightarrow> (\<forall>r<NR. \<forall>k<NC. G r k \<noteq> None)"
    by (metis mem2d_exhaust mem2d_less mem2d_div mem2d_mod)
  moreover have "mat_of NR NC (?F (NR * NC)) = mat_of NR NC (\<lambda>r k. the (G r k))" by (rule mat_of_cong) (simp add: mem2d_less)
  ultimately show ?thesis by simp
qed

lemma fill_matrix_run: "fill_matrix NR NC conv f (mat_of NR NC F0) = Some (mat_of NR NC (\<lambda>r k. conv (f r k)))"
  using matrix_loop [of NR NC "\<lambda>r k mat. wr2 mat r k (conv (f r k))" "\<lambda>r k. Some (conv (f r k))" F0]
  by (simp add: fill_matrix_def)

subsection \<open>Packing\<close>

definition packed_word :: "nat \<Rightarrow> (nat \<Rightarrow> nat \<Rightarrow> 'b::len word) \<Rightarrow> nat \<Rightarrow> 32 word" where
  "packed_word NC F p = bus_pack (\<lambda>i. F ((p * per_bus TYPE('b) + i) div NC) ((p * per_bus TYPE('b) + i) mod NC))"

lemma packed_lane:
  fixes F :: "nat \<Rightarrow> nat \<Rightarrow> 'b::len word"
  assumes "0 < per_bus TYPE('b)"
  shows "bus_lane (packed_word NC F (n div per_bus TYPE('b))) (n mod per_bus TYPE('b)) = F (n div NC) (n mod NC)"
  using assms by (simp add: packed_word_def bus_lane_pack)

lemma mask_element:
  assumes "LENGTH('b::len) \<le> 32"
  shows "(ucast ((scast (x :: 'b word) :: 64 word) AND mask LENGTH('b)) :: 32 word) = ucast x"
proof (rule bit_word_eqI)
  fix n :: nat assume "n < LENGTH(32)"
  then show "bit (ucast ((scast x :: 64 word) AND mask LENGTH('b)) :: 32 word) n = bit (ucast x :: 32 word) n"
    using assms by (cases "n < LENGTH('b)")
      (auto simp: bit_ucast_iff bit_and_iff bit_mask_iff bit_signed_iff min_absorb2 dest: bit_imp_le_length)
qed

text \<open>The word being filled: the first \<open>m\<close> elements of those that start at \<open>b\<close>.\<close>

definition part_word :: "(nat \<Rightarrow> 'b::len word) \<Rightarrow> nat \<Rightarrow> nat \<Rightarrow> 32 word" where
  "part_word f b m = fold (\<lambda>i w. w OR push_bit (LENGTH('b) * (per_bus TYPE('b) - i - 1)) (ucast (f (b + i)))) [0..<m] 0"

lemma part_word_simps:
  "part_word f b 0 = 0"
  "part_word f b (Suc m) = part_word f b m OR push_bit (LENGTH('b) * (per_bus TYPE('b) - m - 1)) (ucast (f (b + m) :: 'b::len word))"
  by (simp_all add: part_word_def)

lemma packed_part:
  fixes F :: "nat \<Rightarrow> nat \<Rightarrow> 'b::len word"
  shows "packed_word NC F p = part_word (\<lambda>n. F (n div NC) (n mod NC)) (p * per_bus TYPE('b)) (per_bus TYPE('b))"
  by (simp add: packed_word_def bus_pack_def part_word_def)

definition compress_state :: "nat \<Rightarrow> (nat \<Rightarrow> nat \<Rightarrow> 'b::len word) \<Rightarrow> nat \<Rightarrow> nat \<Rightarrow> 32 word list \<times> 32 word \<times> nat" where
  "compress_state NC F q m = (map (packed_word NC F) [0..<q], part_word (\<lambda>n. F (n div NC) (n mod NC)) (q * per_bus TYPE('b)) m, m)"

lemma compress_step:
  fixes F :: "nat \<Rightarrow> nat \<Rightarrow> 'b::len word"
  defines "E \<equiv> per_bus TYPE('b)"
  assumes width: "LENGTH('b) = 8 \<or> LENGTH('b) = 16 \<or> LENGTH('b) = 32" and m: "m < E" and n: "q * E + m = mem2d NC r k" "r < NR" "k < NC"
  shows "compress_element (mat_of NR NC F) E LENGTH('b) r k (compress_state NC F q m) =
    Some (if Suc m = E then compress_state NC F (Suc q) 0 else compress_state NC F q (Suc m))"
proof -
  have "LENGTH('b) * (E - m - 1) < LENGTH('b) * E" using m by (intro mult_strict_left_mono) auto
  then have shift: "LENGTH('b) * (E - m - 1) < 32" using per_bus_cases(2) [OF width] by (simp add: E_def)
  have "LENGTH('b) \<le> 32" using width by auto
  note masked = mask_element [OF this, of "F r k"]
  let ?f = "\<lambda>n. F (n div NC) (n mod NC)"
  have elem: "?f (q * E + m) = F r k" using n by simp
  have full: "part_word ?f (q * E) (Suc m) = packed_word NC F q" if "Suc m = E" using that by (simp add: packed_part E_def)
  let ?w = "part_word ?f (q * E) m OR push_bit (LENGTH('b) * (E - Suc m)) (ucast ((scast (F r k) :: 64 word) AND mask LENGTH('b)))"
  have run: "compress_element (mat_of NR NC F) E LENGTH('b) r k (compress_state NC F q m) =
      Some (if Suc m = E then (map (packed_word NC F) [0..<q] @ [?w], 0, 0) else (map (packed_word NC F) [0..<q], ?w, Suc m))"
    using n(2,3) shift by (simp add: compress_element_def compress_state_def Let_def split del: if_split flip: E_def)
  have w: "?w = part_word ?f (q * E) (Suc m)" unfolding masked part_word_simps(2) elem by (simp add: E_def)
  show ?thesis using full unfolding run w by (simp add: compress_state_def part_word_simps(1) flip: E_def)
qed

lemma row_compress_run:
  fixes F :: "nat \<Rightarrow> nat \<Rightarrow> 'b::len word"
  defines "E \<equiv> per_bus TYPE('b)"
  assumes width: "LENGTH('b) = 8 \<or> LENGTH('b) = 16 \<or> LENGTH('b) = 32" and div: "E dvd NR * NC"
  shows "row_compress_matrix NR NC (mat_of NR NC F) E LENGTH('b) = Some (map (packed_word NC F) [0..<NR * NC div E])"
proof -
  have E: "0 < E" using per_bus_cases(1) [OF width] by (simp add: E_def)
  let ?I = "\<lambda>n st. st = compress_state NC F (n div E) (n mod E)"
  have "\<exists>st. for_list [0..<NR * NC] (\<lambda>n. compress_element (mat_of NR NC F) E LENGTH('b) (n div NC) (n mod NC)) ([], 0, 0) = Some st \<and> ?I (NR * NC) st"
  proof (rule for_up_rule)
    show "([], 0, 0) = compress_state NC F (0 div E) (0 mod E)" by (simp add: compress_state_def part_word_simps)
  next
    fix n st assume "n < NR * NC" and st: "st = compress_state NC F (n div E) (n mod E)"
    from this(1) obtain r k where n: "n = mem2d NC r k" "r < NR" "k < NC" by (rule mem2d_exhaust)
    have m: "n mod E < E" using E by simp
    have "n div E * E + n mod E = mem2d NC r k" using n(1) by simp
    then have "compress_element (mat_of NR NC F) E LENGTH('b) r k st =
        Some (if Suc (n mod E) = E then compress_state NC F (Suc (n div E)) 0 else compress_state NC F (n div E) (Suc (n mod E)))"
      unfolding st using m unfolding E_def by (intro compress_step [OF width] n(2,3))
    also have "\<dots> = Some (compress_state NC F (Suc n div E) (Suc n mod E))" by (simp add: div_Suc mod_Suc)
    finally show "\<exists>st'. compress_element (mat_of NR NC F) E LENGTH('b) (n div NC) (n mod NC) st = Some st' \<and> ?I (Suc n) st'"
      using n by simp
  qed simp
  then show ?thesis using div by (simp add: row_compress_matrix_def for_list_nest compress_state_def)
qed

subsection \<open>The reference multiplication\<close>

definition int_dot :: "nat \<Rightarrow> (nat \<Rightarrow> 'a::len word) \<Rightarrow> (nat \<Rightarrow> 'w::len word) \<Rightarrow> 'a word option" where
  "int_dot N x w = for_list [0..<N] (\<lambda>k a. do { p \<leftarrow> int_c (sint (x k) * sint (w k)); v \<leftarrow> int_c (sint a + p); Some (word_of_int v) }) 0"

lemma int_dot_value: "int_dot N x w = Some a \<Longrightarrow> a = (\<Sum>k<N. x k * scast (w k))"
proof (induction N arbitrary: a)
  case 0
  then show ?case by (simp add: int_dot_def)
next
  case (Suc N)
  have "int_dot (Suc N) x w = do { a \<leftarrow> int_dot N x w; p \<leftarrow> int_c (sint (x N) * sint (w N)); v \<leftarrow> int_c (sint a + p); Some (word_of_int v) }"
    by (simp add: int_dot_def for_list_append for_list_one)
  with Suc.prems obtain b p v where b: "int_dot N x w = Some b" "int_c (sint (x N) * sint (w N)) = Some p"
      "int_c (sint b + p) = Some v" "a = word_of_int v"
    by (auto simp: bind_eq_Some_conv)
  have "a = b + x N * scast (w N)" unfolding b(4) int_c_Some [OF b(3)] int_c_Some [OF b(2)] by simp
  with Suc.IH [OF b(1)] show ?case by simp
qed

lemma dot_in_entry:
  assumes "i < NR" "j < NC"
    and "\<And>k a F. k \<in> set ks \<Longrightarrow> step k (mat_of NR NC (upd2 F i j a)) = Option.bind (g k a) (wr2 (mat_of NR NC (upd2 F i j a)) i j)"
  shows "for_list ks step (mat_of NR NC (upd2 F i j a)) = Option.bind (for_list ks g a) (wr2 (mat_of NR NC F) i j)"
  using assms(3)
proof (induction ks arbitrary: a)
  case Nil
  then show ?case using assms(1,2) by simp
next
  case (Cons k ks)
  show ?case
  proof (cases "g k a")
    case (Some b)
    then show ?thesis using Cons.IH [of b] Cons.prems assms(1,2) by simp
  qed (use Cons.prems in simp)
qed

lemma matrix_multiply_int_run:
  fixes X :: "nat \<Rightarrow> nat \<Rightarrow> 'a::len word"
  shows "matrix_multiply_int M N P (mat_of M N X) (mat_of N P W) (mat_of M P F0) =
    (if \<forall>i<M. \<forall>j<P. int_dot N (X i) (\<lambda>k. W k j) \<noteq> None
     then Some (mat_of M P (\<lambda>i j. \<Sum>k<N. X i k * scast (W k j))) else None)"
proof -
  let ?G = "\<lambda>i j. int_dot N (X i) (\<lambda>k. W k j)"
  define step :: "nat \<Rightarrow> nat \<Rightarrow> nat \<Rightarrow> 'a word list list \<Rightarrow> 'a word list list option"
    where "step = (\<lambda>i j k out. do { l \<leftarrow> rd2 (mat_of M N X) i k; r \<leftarrow> rd2 (mat_of N P W) k j;
      p \<leftarrow> int_c (sint l * sint r); x \<leftarrow> rd2 out i j; v \<leftarrow> int_c (sint x + p); wr2 out i j (word_of_int v) })"
  have "Option.bind (wr2 (mat_of M P F) i j 0) (for_list [0..<N] (step i j)) = Option.bind (?G i j) (wr2 (mat_of M P F) i j)"
    if "i < M" "j < P" for i j and F :: "nat \<Rightarrow> nat \<Rightarrow> 'a word"
  proof -
    have "for_list [0..<N] (step i j) (mat_of M P (upd2 F i j 0)) = Option.bind (?G i j) (wr2 (mat_of M P F) i j)"
      unfolding int_dot_def using that by (intro dot_in_entry) (simp_all add: step_def)
    then show ?thesis using that by simp
  qed
  from matrix_loop [of M P _ ?G, OF this, of F0]
  have "matrix_multiply_int M N P (mat_of M N X) (mat_of N P W) (mat_of M P F0) =
      (if \<forall>i<M. \<forall>j<P. ?G i j \<noteq> None then Some (mat_of M P (\<lambda>i j. the (?G i j))) else None)"
    by (simp add: matrix_multiply_int_def step_def)
  moreover have "mat_of M P (\<lambda>i j. the (?G i j)) = mat_of M P (\<lambda>i j. \<Sum>k<N. X i k * scast (W k j))" if "\<forall>i<M. \<forall>j<P. ?G i j \<noteq> None"
    using that int_dot_value by (intro mat_of_cong) fastforce
  ultimately show ?thesis by simp
qed

lemma matrix_multiply_fp_run:
  "matrix_multiply_fp fmac M N P (mat_of M N X) (mat_of N P W) (mat_of M P F0) =
    Some (mat_of M P (\<lambda>i j. fold (\<lambda>k a. fmac a (X i k) (W k j)) [0..<N] 0))"
proof -
  let ?S = "\<lambda>i j. fold (\<lambda>k a. fmac a (X i k) (W k j)) [0..<N] 0"
  have "for_list [0..<N] (\<lambda>k a. do { l \<leftarrow> rd2 (mat_of M N X) i k; r \<leftarrow> rd2 (mat_of N P W) k j; Some (fmac a l r) }) 0 = Some (?S i j)"
    if "i < M" "j < P" for i j
    using that by (intro for_list_fold) simp
  then show ?thesis
    unfolding matrix_multiply_fp_def by (subst matrix_loop [where G = "\<lambda>i j. Some (?S i j)"]) simp_all
qed

lemma col_sum_cong: "(\<And>i. i < n \<Longrightarrow> x i = x' i) \<Longrightarrow> (\<And>i. i < n \<Longrightarrow> w i = w' i) \<Longrightarrow> col_sum c x w n = col_sum c x' w' n"
  by (induction n) simp_all

subsection \<open>The driver of the test\<close>

lemma should_stream_eq:
  assumes "cfg_ok c"
  shows "should_stream_systolic_array c (n * ACT_PER_BUS c) \<longleftrightarrow> n mod MAX_ACT_COL c = MAX_ACT_COL c - 1"
proof -
  let ?A = "ACT_PER_BUS c" and ?M = "MAX_ACT_COL c"
  note K = cfg_okD(6) [OF assms] and A = cfg_okD(2) [OF assms] and M = cfg_okD(8) [OF assms]
  have fold: "fold (\<lambda>d res. if P d then True else res) ds b \<longleftrightarrow> b \<or> (\<exists>d \<in> set ds. P d)" for P and ds :: "nat list" and b
    by (induction ds arbitrary: b) auto
  have col: "(n * ?A + d) mod kernel_dim c = mem2d ?A (n mod ?M) d" if "d < ?A" for d
    using that by (simp add: mem2d_def mod_mult2_eq mult.commute flip: K)
  have "mem2d ?A (?M - 1) (?A - 1) = ?M * ?A - 1"
    using A M by (cases "?M") (auto simp: mem2d_def)
  then have last: "kernel_dim c - 1 = mem2d ?A (?M - 1) (?A - 1)" by (simp add: K)
  have "mem2d ?A (n mod ?M) d = mem2d ?A (?M - 1) (?A - 1) \<longleftrightarrow> n mod ?M = ?M - 1 \<and> d = ?A - 1" if "d < ?A" for d
    using that by (intro mem2d_inject) simp_all
  then have "(\<exists>d \<in> set [0..<?A]. (n * ?A + d) mod kernel_dim c = kernel_dim c - 1) \<longleftrightarrow> n mod ?M = ?M - 1"
    using A col unfolding last by auto
  then show ?thesis unfolding should_stream_systolic_array_def fold by simp
qed

lemma streams_latency:
  assumes "cfg_ok c"
  shows "2 * kernel_dim c - 1 \<le> Suc n div MAX_ACT_COL c \<longleftrightarrow> latency c \<le> n"
proof -
  have "0 < MAX_ACT_COL c * (2 * kernel_dim c - 1)" using cfg_okD(1,8) [OF assms] by simp
  then show ?thesis
    using cfg_okD(8) [OF assms] by (simp add: less_eq_div_iff_mult_less_eq latency_def mult.commute) linarith
qed

text \<open>The words the accelerator returns for packed matrices are the packed product.\<close>

lemma matrix_words:
  fixes c :: "('a::len, 'w::len) sa_cfg"
  assumes "cfg_ok c"
  shows "kernel_dim c * kernel_dim c = W_PER_BUS c * (kernel_dim c * MAX_W_COL c)" "M * kernel_dim c = ACT_PER_BUS c * (M * MAX_ACT_COL c)"
    "CEILING_DIV (kernel_dim c * kernel_dim c) (W_PER_BUS c) = kernel_dim c * MAX_W_COL c" "CEILING_DIV (M * kernel_dim c) (ACT_PER_BUS c) = M * MAX_ACT_COL c"
    "kernel_dim c * kernel_dim c div W_PER_BUS c = kernel_dim c * MAX_W_COL c" "M * kernel_dim c div ACT_PER_BUS c = M * MAX_ACT_COL c"
proof -
  show size: "kernel_dim c * kernel_dim c = W_PER_BUS c * (kernel_dim c * MAX_W_COL c)" "M * kernel_dim c = ACT_PER_BUS c * (M * MAX_ACT_COL c)"
    using cfg_okD(6,7) [OF assms] by (metis mult.assoc mult.commute)+
  show "CEILING_DIV (kernel_dim c * kernel_dim c) (W_PER_BUS c) = kernel_dim c * MAX_W_COL c"
    using cfg_okD(3) [OF assms] unfolding size(1) by (simp add: CEILING_DIV_dvd)
  show "CEILING_DIV (M * kernel_dim c) (ACT_PER_BUS c) = M * MAX_ACT_COL c"
    using cfg_okD(2) [OF assms] unfolding size(2) by (simp add: CEILING_DIV_dvd)
  show "kernel_dim c * kernel_dim c div W_PER_BUS c = kernel_dim c * MAX_W_COL c"
    using cfg_okD(3) [OF assms] unfolding size(1) by simp
  show "M * kernel_dim c div ACT_PER_BUS c = M * MAX_ACT_COL c"
    using cfg_okD(2) [OF assms] unfolding size(2) by simp
qed

lemma packed_act:
  fixes X :: "nat \<Rightarrow> nat \<Rightarrow> 'a::len word" and c :: "('a, 'w::len) sa_cfg"
  assumes ok: "cfg_ok c" and t: "t < rows" and e: "e < kernel_dim c"
    and u: "\<And>n. n < rows * MAX_ACT_COL c \<Longrightarrow> u n = packed_word (kernel_dim c) X n"
  shows "row_act c u t e = X t e"
proof -
  let ?A = "ACT_PER_BUS c" and ?K = "kernel_dim c"
  have K: "t * ?K + e = t * MAX_ACT_COL c * ?A + e" using cfg_okD(6) [OF ok] by (simp add: mult.assoc)
  have split: "t * MAX_ACT_COL c + e div ?A = (t * ?K + e) div ?A" "e mod ?A = (t * ?K + e) mod ?A"
    unfolding K using cfg_okD(2) [OF ok] by simp_all
  have "e div ?A < MAX_ACT_COL c" using e cfg_okD(6) [OF ok] by (simp add: less_mult_imp_div_less)
  then have "t * MAX_ACT_COL c + e div ?A < rows * MAX_ACT_COL c" using mem2d_less [OF t] by (simp add: mem2d_def)
  then have "row_act c u t e = bus_lane (packed_word ?K X ((t * ?K + e) div ?A)) ((t * ?K + e) mod ?A)"
    unfolding row_act_def by (simp add: u) (simp only: split)
  also have "\<dots> = X t e" using cfg_okD(2) [OF ok] e by (simp add: ACT_PER_BUS_def packed_lane)
  finally show ?thesis .
qed

lemma packed_weight:
  fixes W :: "nat \<Rightarrow> nat \<Rightarrow> 'w::len word" and c :: "('a::len, 'w) sa_cfg"
  assumes ok: "cfg_ok c" and ij: "i < kernel_dim c" "j < kernel_dim c"
    and v: "\<And>n. n < kernel_dim c * MAX_W_COL c \<Longrightarrow> v n = packed_word (kernel_dim c) W n"
  shows "tile_weights c v ! mem2d (kernel_dim c) i j = W i j"
proof -
  let ?p = "mem2d (kernel_dim c) i j"
  have p: "?p < kernel_dim c * kernel_dim c" by (rule mem2d_less [OF ij])
  then have "?p div W_PER_BUS c < kernel_dim c * MAX_W_COL c"
    unfolding matrix_words(1) [OF ok] by (simp add: less_mult_imp_div_less mult.commute)
  then have "tile_weights c v ! ?p = bus_lane (packed_word (kernel_dim c) W (?p div W_PER_BUS c)) (?p mod W_PER_BUS c)"
    using p by (simp add: tile_weights_def v)
  also have "\<dots> = W i j" using cfg_okD(3) [OF ok] ij by (simp add: W_PER_BUS_def packed_lane)
  finally show ?thesis .
qed

lemma packed_product:
  fixes X :: "nat \<Rightarrow> nat \<Rightarrow> 'a::len word" and c :: "('a, 'w::len) sa_cfg"
  assumes ok: "cfg_ok c" and p: "p < rows * MAX_ACT_COL c"
    and u: "\<And>n. n < rows * MAX_ACT_COL c \<Longrightarrow> u n = packed_word (kernel_dim c) X n"
    and v: "\<And>n. n < kernel_dim c * MAX_W_COL c \<Longrightarrow> v n = packed_word (kernel_dim c) W n"
  shows "run_result c v u p = packed_word (kernel_dim c) (\<lambda>i j. ucast (col_sum c (X i) (\<lambda>k. W k j) (kernel_dim c)) :: 'a word) p"
proof -
  let ?A = "ACT_PER_BUS c" and ?K = "kernel_dim c" and ?t = "p div MAX_ACT_COL c" and ?q = "p mod MAX_ACT_COL c"
  have t: "?t < rows" using p by (simp add: less_mult_imp_div_less)
  have q: "?q < MAX_ACT_COL c" using cfg_okD(8) [OF ok] by simp
  show ?thesis
    unfolding run_result_def sa_result_def packed_word_def
  proof (rule bus_pack_cong)
    fix i assume i: "i < per_bus TYPE('a)"
    have j: "?q * ?A + i < ?K" using mem2d_less [OF q, of i ?A] i by (simp add: mem2d_def ACT_PER_BUS_def flip: cfg_okD(6) [OF ok])
    have "p * ?A + i = (?t * MAX_ACT_COL c + ?q) * ?A + i" by simp
    also have "\<dots> = mem2d ?K ?t (?q * ?A + i)" by (simp only: mem2d_def add_mult_distrib mult.assoc cfg_okD(6) [OF ok] add.assoc)
    finally have "p * per_bus TYPE('a) + i = mem2d ?K ?t (?q * ?A + i)" by (simp only: ACT_PER_BUS_def)
    then have pos: "(p * per_bus TYPE('a) + i) div ?K = ?t" "(p * per_bus TYPE('a) + i) mod ?K = ?q * ?A + i" using j by simp_all
    show "tile_dot c (tile_weights c v) (row_act c u ?t) (?q * ?A + i) =
        ucast (col_sum c (X ((p * per_bus TYPE('a) + i) div ?K)) (\<lambda>k. W k ((p * per_bus TYPE('a) + i) mod ?K)) ?K)"
      unfolding pos tile_dot_def
      by (intro arg_cong [where f = ucast] col_sum_cong packed_act [OF ok t _ u] packed_weight [OF ok _ j v])
  qed
qed

text \<open>The operations with the column counted in bus words: the contract of the accelerator holds of them.\<close>

definition element_ops :: "('a::len, 'w::len) sa_cfg \<Rightarrow> 's smm_ops \<Rightarrow> 's smm_ops" where
  "element_ops c ops = ops\<lparr>op_queue := \<lambda>q. op_queue ops (q * ACT_PER_BUS c), op_stream := \<lambda>q. op_stream ops (q * ACT_PER_BUS c)\<rparr>"

lemma element_ops_simps [simp]:
  "op_param (element_ops c ops) = op_param ops"
  "op_queue (element_ops c ops) q = op_queue ops (q * ACT_PER_BUS c)"
  "op_stream (element_ops c ops) q = op_stream ops (q * ACT_PER_BUS c)"
  by (simp_all add: element_ops_def)

locale element_driver = systolic_driver c "element_ops c ops" supported ready loading running
  for c :: "('a::len, 'w::len) sa_cfg" and ops :: "'s smm_ops" and supported ready loading running
begin

text \<open>The state of both streaming loops after \<open>n\<close> words.\<close>

definition streamed :: "(nat \<Rightarrow> 32 word) \<Rightarrow> (nat \<Rightarrow> 32 word) \<Rightarrow> 32 word list \<Rightarrow> nat \<Rightarrow> 's \<times> 32 word list \<times> nat \<times> nat \<Rightarrow> bool" where
  "streamed vals u out n st \<longleftrightarrow> running vals u n (fst st) \<and>
     snd st = (overlay (map (run_result c vals u) [0..<n - latency c]) out, n - latency c, n div MAX_ACT_COL c)"

lemma stream_word_spec:
  assumes sup: supported and st: "streamed vals u out n st" and v: "v = u n"
    and room: "latency c \<le> n \<longrightarrow> n - latency c < out_size" "out_size \<le> length out"
  shows "\<exists>st'. stream_word c ops out_size (n * ACT_PER_BUS c) v st = Some st' \<and> streamed vals u out (Suc n) st'"
proof -
  let ?M = "MAX_ACT_COL c" and ?R = "run_result c vals u"
  have ok: "cfg_ok c" by (rule supported_ok [OF sup])
  note lat = streams_latency [OF ok, unfolded One_nat_def]
  obtain s where st': "st = (s, overlay (map ?R [0..<n - latency c]) out, n - latency c, n div ?M)" and run: "running vals u n s"
    using st by (cases st) (auto simp: streamed_def)
  have col: "n * ACT_PER_BUS c mod kernel_dim c = n mod ?M * ACT_PER_BUS c"
    by (simp only: cfg_okD(6) [OF ok, symmetric] mult_mod_left)
  have "\<exists>s' r. (if should_stream_systolic_array c (n * ACT_PER_BUS c)
        then do { (s, res) \<leftarrow> op_stream ops (n mod ?M * ACT_PER_BUS c) v 0 s; Some (s, res, n div ?M + 1) }
        else do { (s, res) \<leftarrow> op_queue ops (n mod ?M * ACT_PER_BUS c) v 0 s; Some (s, res, n div ?M) }) = Some (s', r, Suc n div ?M) \<and>
      running vals u (Suc n) s' \<and> (latency c \<le> n \<longrightarrow> ucast r = ?R (n - latency c))"
  proof (cases "n mod ?M = ?M - 1")
    case True
    then have "Suc n div ?M = n div ?M + 1" using cfg_okD(8) [OF ok] by (simp add: div_Suc mod_Suc)
    with stream_step [OF sup run True] True show ?thesis by (auto simp: should_stream_eq [OF ok] v)
  next
    case False
    then have "Suc n div ?M = n div ?M" using cfg_okD(8) [OF ok] by (auto simp: div_Suc mod_Suc)
    with queue_step [OF sup run False] False show ?thesis by (auto simp: should_stream_eq [OF ok] v)
  qed
  then obtain s' r where call: "(if should_stream_systolic_array c (n * ACT_PER_BUS c)
        then do { (s, res) \<leftarrow> op_stream ops (n mod ?M * ACT_PER_BUS c) v 0 s; Some (s, res, n div ?M + 1) }
        else do { (s, res) \<leftarrow> op_queue ops (n mod ?M * ACT_PER_BUS c) v 0 s; Some (s, res, n div ?M) }) = Some (s', r, Suc n div ?M)"
      and run': "running vals u (Suc n) s'" and r: "latency c \<le> n \<longrightarrow> ucast r = ?R (n - latency c)" by blast
  show ?thesis
  proof (cases "latency c \<le> n")
    case True
    then have "Suc n - latency c = Suc (n - latency c)" by (rule Suc_diff_le)
    moreover have "wr (overlay (map ?R [0..<n - latency c]) out) (n - latency c) (?R (n - latency c)) =
        Some (overlay (map ?R [0..<Suc (n - latency c)]) out)"
      using wr_overlay [of "map ?R [0..<n - latency c]" out] room True by simp
    ultimately show ?thesis
      using True room run' r unfolding stream_word_def st' prod.case Let_def col call
      by (simp add: lat streamed_def)
  next
    case False
    then show ?thesis
      using run' unfolding stream_word_def st' prod.case Let_def col call by (simp add: lat streamed_def)
  qed
qed

lemma stream_out_spec:
  assumes sup: supported and st: "streamed vals u out n st" and n: "n - latency c \<le> out_size" "out_size \<le> length out"
    and u: "\<And>k. n \<le> k \<Longrightarrow> u k = 0"
  shows "\<exists>s' m. stream_out c ops out_size (n * ACT_PER_BUS c) st = Some (s', overlay (map (run_result c vals u) [0..<out_size]) out, out_size, m) \<and> ready s'"
  using st n(1) u
proof (induction "out_size + latency c - n" arbitrary: n st rule: less_induct)
  case less
  obtain s where st: "st = (s, overlay (map (run_result c vals u) [0..<n - latency c]) out, n - latency c, n div MAX_ACT_COL c)"
    and run: "running vals u n s" using less.prems(1) by (cases st) (auto simp: streamed_def)
  show ?case
  proof (cases "n - latency c < out_size")
    case True
    then obtain st' where st': "stream_word c ops out_size (n * ACT_PER_BUS c) 0 st = Some st'" "streamed vals u out (Suc n) st'"
      using stream_word_spec [OF sup less.prems(1) _ _ n(2), of 0] less.prems(3) by auto
    have "stream_out c ops out_size (n * ACT_PER_BUS c) st = stream_out c ops out_size (Suc n * ACT_PER_BUS c) st'"
      using True st'(1) by (subst stream_out.simps) (simp add: st add.commute)
    moreover have "out_size + latency c - Suc n < out_size + latency c - n" "Suc n - latency c \<le> out_size" using True by auto
    ultimately show ?thesis using less.hyps [OF _ st'(2)] less.prems(3) by simp
  next
    case False
    with less.prems(2) have "n - latency c = out_size" by simp
    then show ?thesis using run_ready [OF run] by (subst stream_out.simps) (simp add: st)
  qed
qed

lemma multiply_spec:
  assumes sup: supported and "ready s" and K: "4 \<le> kernel_dim c"
    and len: "kernel_dim c * MAX_W_COL c \<le> length rhs" "M * MAX_ACT_COL c \<le> lhs_size" "lhs_size \<le> length lhs"
    and out: "M * MAX_ACT_COL c \<le> out_size + latency c" "out_size \<le> length out"
  defines "u \<equiv> \<lambda>n. if n < M * MAX_ACT_COL c then lhs ! n else 0"
  shows "\<exists>s'. systolic_array_matrix_multiply c ops lhs rhs M (kernel_dim c) (kernel_dim c) lhs_size out_size (s, out) =
    Some (s', overlay (map (run_result c ((!) rhs) u) [0..<out_size]) out) \<and> ready s'"
proof -
  let ?K = "kernel_dim c" and ?N = "M * MAX_ACT_COL c" and ?A = "ACT_PER_BUS c"
  have ok: "cfg_ok c" by (rule supported_ok [OF sup])
  note words = matrix_words(3,4) [OF ok]
  obtain s1 where s1: "load_tile c ops rhs 0 s = Some s1" "running ((!) rhs) u 0 s1"
    using load_tile_spec [OF sup assms(2), of 0 rhs u] len(1) by (auto simp: load_tile_def)
  have "\<exists>st. for_list [0..<?N] (\<lambda>n st. do { assert_c (n < lhs_size); w \<leftarrow> rd lhs n; stream_word c ops out_size (n * ?A) w st }) (s1, out, 0, 0) = Some st \<and>
      streamed ((!) rhs) u out ?N st"
  proof (rule for_up_rule)
    show "streamed ((!) rhs) u out 0 (s1, out, 0, 0)" using s1(2) by (simp add: streamed_def)
  next
    fix n st assume n: "n < ?N" and st: "streamed ((!) rhs) u out n st"
    then have "n < lhs_size" "rd lhs n = Some (u n)" using len by (simp_all add: rd_def u_def)
    moreover have "latency c \<le> n \<longrightarrow> n - latency c < out_size" using n out(1) by linarith
    ultimately show "\<exists>st'. do { assert_c (n < lhs_size); w \<leftarrow> rd lhs n; stream_word c ops out_size (n * ?A) w st } = Some st' \<and> streamed ((!) rhs) u out (Suc n) st'"
      using stream_word_spec [OF sup st refl _ out(2)] by simp
  qed simp
  then obtain st where st: "for_list [0..<?N] (\<lambda>n st. do { assert_c (n < lhs_size); w \<leftarrow> rd lhs n; stream_word c ops out_size (n * ?A) w st }) (s1, out, 0, 0) = Some st"
      "streamed ((!) rhs) u out ?N st" by blast
  have "?N - latency c \<le> out_size" using out(1) by linarith
  from stream_out_spec [OF sup st(2) this out(2)] obtain s' m where
    "stream_out c ops out_size (?N * ?A) st = Some (s', overlay (map (run_result c ((!) rhs) u) [0..<out_size]) out, out_size, m)" "ready s'"
    by (auto simp: u_def)
  then show ?thesis
    using s1(1) st(1) K unfolding systolic_array_matrix_multiply_def words load_tile_def by simp
qed

lemma test_passes:
  fixes ta :: "('a, 'w) test_arith"
  assumes sup: supported and "ready s" and K: "4 \<le> kernel_dim c"
  defines "X \<equiv> \<lambda>r k. to_act ta (10 * r + k)" and "W \<equiv> \<lambda>r k. to_weight ta (k + r * kernel_dim c)"
  assumes ref: "matrix_multiply ta rows (kernel_dim c) (kernel_dim c) (mat_of rows (kernel_dim c) X) (mat_of (kernel_dim c) (kernel_dim c) W)
      (mat_of rows (kernel_dim c) (\<lambda>_ _. 0)) = Some (mat_of rows (kernel_dim c) (\<lambda>i j. ucast (col_sum c (X i) (\<lambda>k. W k j) (kernel_dim c))))"
  shows "\<exists>s'. test_systolic_array_matrix_multiply c ops ta w0 a0 rows s = Some (s', True) \<and> ready s'"
proof -
  let ?K = "kernel_dim c" and ?N = "rows * MAX_ACT_COL c" and ?S = "\<lambda>i j. ucast (col_sum c (X i) (\<lambda>k. W k j) (kernel_dim c)) :: 'a word"
  let ?cl = "map (packed_word ?K X) [0..<?N]" and ?cw = "map (packed_word ?K W) [0..<?K * MAX_W_COL c]"
  have ok: "cfg_ok c" by (rule supported_ok [OF sup])
  note size = matrix_words [OF ok]
  have widths: "LENGTH('a) = 8 \<or> LENGTH('a) = 16 \<or> LENGTH('a) = 32" "LENGTH('w) = 8 \<or> LENGTH('w) = 16 \<or> LENGTH('w) = 32"
    using ok by (simp_all add: cfg_ok_def)
  have pack_act: "row_compress_matrix rows ?K (mat_of rows ?K F) (ACT_PER_BUS c) LENGTH('a) = Some (map (packed_word ?K F) [0..<?N])"
    for F :: "nat \<Rightarrow> nat \<Rightarrow> 'a word"
  proof -
    have "per_bus TYPE('a) dvd rows * ?K" unfolding size(2) by (simp add: ACT_PER_BUS_def)
    from row_compress_run [OF widths(1) this, of F] show ?thesis by (simp add: size(6) flip: ACT_PER_BUS_def [of c])
  qed
  have pack_w: "row_compress_matrix ?K ?K (mat_of ?K ?K W) (W_PER_BUS c) LENGTH('w) = Some ?cw"
  proof -
    have "per_bus TYPE('w) dvd ?K * ?K" unfolding size(1) by (simp add: W_PER_BUS_def)
    from row_compress_run [OF widths(2) this, of W] show ?thesis by (simp add: size(5) flip: W_PER_BUS_def [of c])
  qed
  let ?u = "\<lambda>n. if n < ?N then ?cl ! n else 0"
  from multiply_spec [OF sup assms(2) K, of ?cw rows ?N ?cl ?N "replicate ?N 0"] obtain s' where run:
    "systolic_array_matrix_multiply c ops ?cl ?cw rows ?K ?K ?N ?N (s, replicate ?N 0) =
      Some (s', overlay (map (run_result c ((!) ?cw) ?u) [0..<?N]) (replicate ?N 0))" "ready s'" by auto
  have "map (run_result c ((!) ?cw) ?u) [0..<?N] = map (packed_word ?K ?S) [0..<?N]"
    using packed_product [OF ok, of _ rows ?u X "(!) ?cw" W] by simp
  then have out: "overlay (map (run_result c ((!) ?cw) ?u) [0..<?N]) (replicate ?N 0) = map (packed_word ?K ?S) [0..<?N]"
    by (simp only: overlay_def) simp
  have fill: "fill_matrix ?K ?K (to_weight ta) (\<lambda>r k. k + r * ?K) (replicate ?K (replicate ?K w0)) = Some (mat_of ?K ?K W)"
    "fill_matrix rows ?K (to_act ta) (\<lambda>r k. 10 * r + k) (replicate rows (replicate ?K a0)) = Some (mat_of rows ?K X)"
    by (simp_all only: mat_of_const fill_matrix_run X_def W_def)
  have cmp: "for_brk [0..<length ys] (\<lambda>b. \<not> b) (\<lambda>i b. do { x \<leftarrow> rd ys i; Some (if x \<noteq> ys ! i then False else b) }) True = Some True" for ys :: "32 word list"
    by (subst for_brk_all [where Q = "\<lambda>_. True"]) (simp_all add: rd_def)
  show ?thesis
    using run(2) cmp [of "map (packed_word ?K ?S) [0..<?N]"]
    unfolding test_systolic_array_matrix_multiply_def Let_def fill
    by (simp add: mat_of_const pack_act pack_w ref size(4) run(1) out)
qed

end

text \<open>The emulation counts in activations, so it fits the driver for every size.\<close>

interpretation test_develop: element_driver c "develop_ops c" "develop_sized c" "on_first (tile_wf c)"
  "\<lambda>vals k. on_first (loaded c vals k)" "\<lambda>vals u n. on_first (tile_run c vals u n)"
  for c :: "('a::len, 'w::len) sa_cfg"
  by (unfold_locales, unfold element_ops_simps)
    (blast intro: develop_sized_ok develop_ready develop_load develop_start develop_queue develop_stream)+

text \<open>The simulated device counts in bus words: the driver fits it where only column zero is queued or the two counts are equal.\<close>

definition gem5_elements :: "('a::len, 'w::len) sa_cfg \<Rightarrow> bool" where
  "gem5_elements c \<longleftrightarrow> gem5_supported c \<and> (ACT_PER_BUS c = 1 \<or> MAX_ACT_COL c \<le> 2)"

lemma gem5_stream_index: "op_stream (gem5_ops c th) i = op_stream (gem5_ops c th) j"
  by (simp add: gem5_ops_def)

lemma gem5_queue_index:
  assumes "gem5_elements c" "q < MAX_ACT_COL c" "q \<noteq> MAX_ACT_COL c - 1"
  shows "q * ACT_PER_BUS c = q"
  using assms by (cases "q = 0") (auto simp: gem5_elements_def)

interpretation test_gem5: element_driver c "gem5_ops c th" "gem5_elements c" "on_tile (tile_wf c)"
  "\<lambda>vals k. on_tile (loaded c vals k)" "\<lambda>vals u n. on_tile (tile_run c vals u n)"
  for c :: "('a::len, 'w::len) sa_cfg" and th
proof
  fix vals u n s assume sup: "gem5_elements c" and run: "on_tile (tile_run c vals u n) s"
  have g: "gem5_supported c" using sup by (simp add: gem5_elements_def)
  have lt: "n mod MAX_ACT_COL c < MAX_ACT_COL c" using cfg_okD(8) [OF gem5.supported_ok [OF g]] by simp
  show "\<exists>s' r. op_queue (element_ops c (gem5_ops c th)) (n mod MAX_ACT_COL c) (u n) 0 s = Some (s', r) \<and>
      on_tile (tile_run c vals u (Suc n)) s' \<and> (latency c \<le> n \<longrightarrow> ucast r = run_result c vals u (n - latency c))"
    if n: "n mod MAX_ACT_COL c \<noteq> MAX_ACT_COL c - 1"
    unfolding element_ops_simps gem5_queue_index [OF sup lt n] by (rule gem5.queue_step [OF g run n])
  show "\<exists>s' r. op_stream (element_ops c (gem5_ops c th)) (n mod MAX_ACT_COL c) (u n) 0 s = Some (s', r) \<and>
      on_tile (tile_run c vals u (Suc n)) s' \<and> (latency c \<le> n \<longrightarrow> ucast r = run_result c vals u (n - latency c))"
    if n: "n mod MAX_ACT_COL c = MAX_ACT_COL c - 1"
    unfolding element_ops_simps gem5_stream_index [of c th "n mod MAX_ACT_COL c * ACT_PER_BUS c" "n mod MAX_ACT_COL c"]
    by (rule gem5.stream_step [OF g run n])
qed (unfold element_ops_simps gem5_elements_def,
  (blast intro: gem5.supported_ok gem5.load_start gem5.load_step gem5.load_done gem5.run_ready)+)

subsection \<open>Results\<close>

text \<open>C16: The loop of the test driver that flushes the array ends: on the emulation, for every array size that is a
  multiple of four, as it asserts, and any arithmetic, multiplying packed matrices returns, and the output is the packed product.\<close>

theorem test_multiply_ends:
  fixes c :: "('a::len, 'w::len) sa_cfg" and X :: "nat \<Rightarrow> nat \<Rightarrow> 'a word" and W :: "nat \<Rightarrow> nat \<Rightarrow> 'w word" and M :: nat
  assumes sized: "develop_sized c" and wf: "on_first (tile_wf c) s"
  defines "lhs \<equiv> map (packed_word (kernel_dim c) X) [0..<M * MAX_ACT_COL c]"
    and "rhs \<equiv> map (packed_word (kernel_dim c) W) [0..<kernel_dim c * MAX_W_COL c]"
  assumes out: "length out = M * MAX_ACT_COL c"
  shows "\<exists>s'. systolic_array_matrix_multiply c (develop_ops c) lhs rhs M (kernel_dim c) (kernel_dim c) (length lhs) (length out) (s, out) =
      Some (s', map (packed_word (kernel_dim c) (\<lambda>i j. ucast (col_sum c (X i) (\<lambda>k. W k j) (kernel_dim c)) :: 'a word)) [0..<M * MAX_ACT_COL c]) \<and>
    on_first (tile_wf c) s'"
proof -
  let ?N = "M * MAX_ACT_COL c" and ?u = "\<lambda>n. if n < M * MAX_ACT_COL c then lhs ! n else 0"
  have ok: "cfg_ok c" using sized by (rule develop_sized_ok(1))
  have "4 \<le> kernel_dim c" using sized cfg_okD(1) [OF ok] by (auto simp: develop_sized_def dest: dvd_imp_le)
  from test_develop.multiply_spec [OF sized wf this, of rhs M "length lhs" lhs "length out" out]
  have "\<exists>s'. systolic_array_matrix_multiply c (develop_ops c) lhs rhs M (kernel_dim c) (kernel_dim c) (length lhs) (length out) (s, out) =
      Some (s', overlay (map (run_result c ((!) rhs) ?u) [0..<?N]) out) \<and> on_first (tile_wf c) s'"
    by (simp add: lhs_def rhs_def out)
  moreover have "overlay (map (run_result c ((!) rhs) ?u) [0..<?N]) out =
      map (packed_word (kernel_dim c) (\<lambda>i j. ucast (col_sum c (X i) (\<lambda>k. W k j) (kernel_dim c)) :: 'a word)) [0..<?N]"
    using packed_product [OF ok, of _ M ?u X "(!) rhs" W] by (simp add: overlay_def out lhs_def rhs_def)
  ultimately show ?thesis by simp
qed

text \<open>No \<^verbatim>\<open>int\<close> overflows in the reference multiplication of the matrices of the test.\<close>

lemma int_dot_small:
  assumes "\<And>k. k < N \<Longrightarrow> \<bar>sint (x k) * sint (w k)\<bar> \<le> B" and "int N * B < 2 ^ 31" and "0 \<le> B"
  shows "\<exists>a. int_dot N x w = Some a \<and> \<bar>sint a\<bar> \<le> int N * B"
  using assms(1,2)
proof (induction N)
  case 0
  then show ?case by (simp add: int_dot_def)
next
  case (Suc N)
  have step: "int_dot (Suc N) x w = do { a \<leftarrow> int_dot N x w; p \<leftarrow> int_c (sint (x N) * sint (w N)); v \<leftarrow> int_c (sint a + p); Some (word_of_int v) }"
    by (simp add: int_dot_def for_list_append for_list_one)
  define L p where "L = int N * B" and "p = sint (x N) * sint (w N)"
  have SN: "int (Suc N) * B = L + B" by (simp add: L_def distrib_right)
  have L: "0 \<le> L" "L + B < 2 ^ 31" using assms(3) Suc.prems(2) unfolding SN by (simp_all add: L_def)
  then have "L < 2 ^ 31" using assms(3) by linarith
  then obtain a where a: "int_dot N x w = Some a" "\<bar>sint a\<bar> \<le> L" using Suc.IH Suc.prems(1) by (auto simp: L_def)
  have p: "\<bar>p\<bar> \<le> B" using Suc.prems(1) by (simp add: p_def)
  then have sum: "\<bar>sint a + p\<bar> \<le> L + B" using a(2) by linarith
  have "\<bar>p\<bar> < 2 ^ 31" "\<bar>sint a + p\<bar> < 2 ^ 31" using p sum L by linarith+
  then have run: "int_dot (Suc N) x w = Some (word_of_int (sint a + p))"
    unfolding step a(1) p_def [symmetric] by (simp only: Option.bind.simps int_c_small)
  have "\<bar>sint (word_of_int (sint a + p) :: 'a word)\<bar> \<le> L + B" using abs_sint_le sum by (rule order_trans)
  then show ?case unfolding run SN by blast
qed

lemma test_product_small:
  assumes "i < 5" "j < K" "k < K" "K \<le> (128::nat)"
  shows "\<bar>sint (word_of_nat (10 * i + k) :: 'a::len word) * sint (word_of_nat (j + k * K) :: 'w::len word)\<bar> \<le> int 168 * int 16384"
  unfolding abs_mult
proof (intro mult_mono abs_sint_nat_le)
  show "10 * i + k \<le> 168" using assms by simp
  have "mem2d K k j < K * K" by (rule mem2d_less [OF assms(3,2)])
  also have "K * K \<le> 128 * 128" by (rule mult_le_mono [OF assms(4,4)])
  finally show "j + k * K \<le> 16384" by (simp add: mem2d_def)
qed simp_all

lemma int_reference:
  fixes c :: "('a::len, 'w::len) sa_cfg"
  assumes "cfg_ok c" "mac c = mac_int" "kernel_dim c \<le> 128"
  defines "X \<equiv> \<lambda>r k. word_of_nat (10 * r + k) :: 'a word" and "W \<equiv> \<lambda>r k. word_of_nat (k + r * kernel_dim c) :: 'w word"
  shows "matrix_multiply_int 5 (kernel_dim c) (kernel_dim c) (mat_of 5 (kernel_dim c) X) (mat_of (kernel_dim c) (kernel_dim c) W) (mat_of 5 (kernel_dim c) F0) =
    Some (mat_of 5 (kernel_dim c) (\<lambda>i j. ucast (col_sum c (X i) (\<lambda>k. W k j) (kernel_dim c))))"
proof -
  have small: "int (kernel_dim c) * (int 168 * int 16384) < 2 ^ 31" using assms(3) by simp
  have "int_dot (kernel_dim c) (X i) (\<lambda>k. W k j) \<noteq> None" if "i < 5" "j < kernel_dim c" for i j
    using int_dot_small [OF test_product_small [OF that _ assms(3)] small] unfolding X_def W_def by fastforce
  moreover have "LENGTH('a) \<le> 32" using assms(1) by (auto simp: cfg_ok_def)
  ultimately show ?thesis using assms(2) by (simp add: matrix_multiply_int_run col_sum_int)
qed

text \<open>C17: The test program passes: with integers and an array of up to 128 rows, on the emulation of every size that
  is a multiple of four and on the simulated accelerator where the columns its driver queues have the same number in activations and in bus words.\<close>

theorem mult_test_passes:
  fixes c :: "('a::len, 'w::len) sa_cfg"
  assumes "mac c = mac_int" "4 \<le> kernel_dim c" "kernel_dim c \<le> 128"
  shows "(gem5_elements c \<and> on_tile (tile_wf c) s \<longrightarrow>
      (\<exists>s'. mult_test_main c (gem5_ops c th) (smmReadFlag c th 0 0) int_test w0 a0 s = Some (s', True))) \<and>
    (develop_sized c \<and> on_first (tile_wf c) ts \<longrightarrow>
      (\<exists>ts'. mult_test_main c (develop_ops c) (develop_readFlag c 0 0) int_test w0 a0 ts = Some (ts', True)))"
proof (intro conjI impI; elim conjE)
  assume g: "gem5_elements c" and s: "on_tile (tile_wf c) s"
  then obtain x d t where st: "s = (x, d)" "get_tile d 0 = Some t" "tile_wf c t" by (elim on_tileE)
  have ok: "cfg_ok c" using test_gem5.supported_ok [OF g] .
  obtain x' where flag: "smmReadFlag c th 0 0 s = Some ((x', d), word_of_nat (kernel_dim c))"
    using smmReadFlag_run [of c th x d] assms(3) by (auto simp: st)
  have "on_tile (tile_wf c) (x', d)" using st by (simp add: on_tile_def)
  from test_gem5.test_passes [OF g this assms(2), of int_test 5 th w0 a0] int_reference [OF ok assms(1,3)] flag
  show "\<exists>s'. mult_test_main c (gem5_ops c th) (smmReadFlag c th 0 0) int_test w0 a0 s = Some (s', True)"
    by (auto simp: mult_test_main_def int_test_def)
next
  assume d: "develop_sized c" and ts: "on_first (tile_wf c) ts"
  have "(ucast (word_of_nat (kernel_dim c) :: 32 word) :: 64 word) = word_of_nat (kernel_dim c)"
    using assms(3) by (simp add: unsigned_ucast_eq unsigned_of_nat take_bit_nat_eq_self unsigned_word_eqI [where ?'a = nat])
  then have flag: "develop_readFlag c 0 0 ts = Some (ts, word_of_nat (kernel_dim c))"
    using ts by (simp add: develop_readFlag_def dev_readFlag_def on_first_def rd_def)
  from test_develop.test_passes [OF d ts assms(2), of int_test 5 w0 a0] int_reference [OF develop_sized_ok(1) [OF d] assms(1,3)] flag
  show "\<exists>ts'. mult_test_main c (develop_ops c) (develop_readFlag c 0 0) int_test w0 a0 ts = Some (ts', True)"
    by (auto simp: mult_test_main_def int_test_def)
qed

definition wide_test_cfg :: "(8, 8) sa_cfg" where
  "wide_test_cfg = int_cfg 12"

definition word_test_cfg :: "(32, 8) sa_cfg" where
  "word_test_cfg = int_cfg 4"

lemma test_cfg_simps [simp]:
  "kernel_dim wide_test_cfg = 12" "ACT_PER_BUS wide_test_cfg = 4" "W_PER_BUS wide_test_cfg = 4" "MAX_ACT_COL wide_test_cfg = 3" "MAX_W_COL wide_test_cfg = 3"
  "kernel_dim word_test_cfg = 4" "ACT_PER_BUS word_test_cfg = 1" "W_PER_BUS word_test_cfg = 4" "MAX_ACT_COL word_test_cfg = 4" "MAX_W_COL word_test_cfg = 1"
  "mac word_test_cfg = mac_int"
  by (simp_all add: wide_test_cfg_def word_test_cfg_def int_cfg_def ACT_PER_BUS_def W_PER_BUS_def MAX_ACT_COL_def MAX_W_COL_def per_bus_def
      BUS_WIDTH_def CEILING_DIV_def)

lemma test_cfg_supported:
  "develop_sized wide_test_cfg" "gem5_supported wide_test_cfg" "develop_sized word_test_cfg" "gem5_elements word_test_cfg"
  by (simp_all add: develop_sized_def gem5_elements_def gem5_supported_def cfg_ok_def)

lemma test_ready: "on_first (tile_wf c) (smmList c)" "on_tile (tile_wf c) ((\<lambda>_. 0), smm_create c 0 0 1)"
  by (simp_all add: on_first_def smmList_def SATile_wf on_tile_def smm_create_def get_tile_def rdi_def rd_def)

theorem test_multiply_ends_witness:
  "\<exists>s' out'. systolic_array_matrix_multiply wide_test_cfg (develop_ops wide_test_cfg) (map (packed_word 12 (\<lambda>i j. word_of_nat (i + j) :: 8 word)) [0..<6])
     (map (packed_word 12 (\<lambda>i j. word_of_nat (i * j) :: 8 word)) [0..<36]) 2 12 12 6 6 (smmList wide_test_cfg, replicate 6 0) = Some (s', out')"
  using test_multiply_ends [OF test_cfg_supported(1) test_ready(1), where out = "replicate 6 0" and M = 2 and X = "\<lambda>i j. word_of_nat (i + j)"
      and W = "\<lambda>i j. word_of_nat (i * j)"]
  by auto

theorem mult_test_passes_witness:
  "(\<exists>s'. mult_test_main word_test_cfg (gem5_ops word_test_cfg 0) (smmReadFlag word_test_cfg 0 0 0) int_test 0 0
      ((\<lambda>_. 0), smm_create word_test_cfg 0 0 1) = Some (s', True)) \<and>
   (\<exists>ts'. mult_test_main word_test_cfg (develop_ops word_test_cfg) (develop_readFlag word_test_cfg 0 0) int_test 0 0
      (smmList word_test_cfg) = Some (ts', True))"
  using mult_test_passes [of word_test_cfg "((\<lambda>_. 0), smm_create word_test_cfg 0 0 1)" 0 0 0 "smmList word_test_cfg"] test_cfg_supported(3,4) test_ready [of word_test_cfg]
  by simp

text \<open>The driver passes a column in activations to the device, which multiplies it again.\<close>

lemma tile_store_outside:
  assumes "length iw = kernel_dim c * kernel_dim c" "1 < ACT_PER_BUS c" "1 < kernel_dim c" "kernel_dim c \<le> col * ACT_PER_BUS c"
  shows "tile_store c col val iw = None"
proof (rule ccontr)
  let ?K = "kernel_dim c" and ?A = "ACT_PER_BUS c"
  assume "tile_store c col val iw \<noteq> None"
  then obtain iw' where run: "for_list [0..<?A] (\<lambda>i iw. wri iw (int (col * ?A + i) * int ?K + (int ?K - int (col * ?A + i) - 1)) (bus_lane val i)) iw = Some iw'"
    by (auto simp: tile_store_def Let_def)
  have "length iw' = ?K * ?K \<and> ?A \<noteq> ?A"
  proof (rule for_up_partial [OF run, where I = "\<lambda>i iw. length iw = ?K * ?K \<and> i \<noteq> ?A"])
    fix i iw iw' assume i: "i < ?A" and len: "length iw = ?K * ?K \<and> i \<noteq> ?A"
      and step: "wri iw (int (col * ?A + i) * int ?K + (int ?K - int (col * ?A + i) - 1)) (bus_lane val i) = Some iw'"
    define r where "r = int (col * ?A + i)"
    have "Suc i \<noteq> ?A"
    proof
      assume "Suc i = ?A"
      then have "int ?K + 1 \<le> r" using assms(2,4) unfolding r_def by linarith
      then have "(int ?K + 1) * (int ?K - 1) \<le> r * (int ?K - 1)" using assms(3) by (intro mult_right_mono) auto
      then have "int ?K * int ?K \<le> r * int ?K + (int ?K - r - 1)" using assms(3) by (simp add: algebra_simps)
      then show False using step len unfolding r_def [symmetric] by (auto simp: wri_def wr_def nat_less_iff split: if_splits)
    qed
    moreover have "length iw' = length iw" using step by (auto simp: wri_def wr_def split: if_splits)
    ultimately show "length iw' = ?K * ?K \<and> Suc i \<noteq> ?A" using len by simp
  qed (use assms in auto)
  then show False by simp
qed

definition waiting_ok :: "('a::len, 'w::len) sa_cfg \<Rightarrow> regs \<times> ('a, 'w) smm_dev \<Rightarrow> bool" where
  "waiting_ok c = on_tile (\<lambda>t. length (inWaitingMemory t) = kernel_dim c * kernel_dim c)"

lemma tile_store_length: "tile_store c col val iw = Some iw' \<Longrightarrow> length iw' = length iw"
  unfolding tile_store_def Let_def
  by (erule for_up_partial [where I = "\<lambda>_ x. length x = length iw"]) (auto simp: wri_def wr_def split: if_splits)

lemma gem5_param_waiting:
  assumes "idx < 2 ^ 31" "waiting_ok c s" "op_param (gem5_ops c th) idx v 0 s = Some (s', r)"
  shows "waiting_ok c s'"
proof -
  obtain x d t where s: "s = (x, d)" "get_tile d 0 = Some t" "length (inWaitingMemory t) = kernel_dim c * kernel_dim c"
    using assms(2) unfolding waiting_ok_def by (elim on_tileE)
  from assms(3) smmParamWrite_eq [OF assms(1) s(2), of c th v x] obtain t' where
    "tile_loadWeights c idx v t = Some t'" and s': "s' = (x(9 := word_of_nat idx, 7 := ucast v, 8 := 0, 10 := of_bool (non_zero_tile t')), set_tile d 0 t')"
    by (auto simp: s(1) split: option.splits)
  then have "length (inWaitingMemory t') = kernel_dim c * kernel_dim c"
    using s(3) by (auto simp: tile_loadWeights_def split: Option.bind_splits)
  then show ?thesis unfolding waiting_ok_def s' by (rule on_tile_set [OF s(2)])
qed

lemma gem5_load_waiting:
  assumes "gem5_supported c" "waiting_ok c s"
    and "for_list [0..<kernel_dim c * MAX_W_COL c] (\<lambda>i s. do { w \<leftarrow> rd rhs i; (s, _) \<leftarrow> op_param (gem5_ops c th) (i * W_PER_BUS c) w 0 s; Some s }) s = Some s'"
  shows "waiting_ok c s'"
proof (rule for_up_partial [OF assms(3), where I = "\<lambda>_. waiting_ok c"])
  fix i s s' assume i: "i < kernel_dim c * MAX_W_COL c" and s: "waiting_ok c s"
    and "do { w \<leftarrow> rd rhs i; (s, _) \<leftarrow> op_param (gem5_ops c th) (i * W_PER_BUS c) w 0 s; Some s } = Some s'"
  then obtain w r where "op_param (gem5_ops c th) (i * W_PER_BUS c) w 0 s = Some (s', r)" by (auto split: Option.bind_splits)
  with small_indices(1) [OF assms(1) i] s show "waiting_ok c s'" by (rule gem5_param_waiting)
qed (use assms(2) in auto)

lemma gem5_queue_waiting:
  assumes "idx < 2 ^ 31" "waiting_ok c s" "op_queue (gem5_ops c th) idx v 0 s = Some (s', r)"
  shows "waiting_ok c s' \<and> (1 < ACT_PER_BUS c \<and> 1 < kernel_dim c \<longrightarrow> idx * ACT_PER_BUS c < kernel_dim c)"
proof -
  obtain x d t where s: "s = (x, d)" "get_tile d 0 = Some t" "length (inWaitingMemory t) = kernel_dim c * kernel_dim c"
    using assms(2) unfolding waiting_ok_def by (elim on_tileE)
  from assms(3) smmQueue_eq [OF assms(1) s(2), of c th v x] obtain t' r' where
    q: "tile_inputQueue c idx v t = Some (t', r')" and s': "s' = (x(9 := word_of_nat idx, 7 := ucast v, 8 := 0, 10 := ucast r'), set_tile d 0 t')"
    by (auto simp: s(1) split: option.splits)
  then obtain iw where iw: "tile_store c idx v (inWaitingMemory t) = Some iw" "inWaitingMemory t' = iw"
    by (auto simp: tile_inputQueue_def split: Option.bind_splits)
  then have "length (inWaitingMemory t') = kernel_dim c * kernel_dim c" using s(3) tile_store_length by metis
  then have "waiting_ok c s'" unfolding waiting_ok_def s' by (rule on_tile_set [OF s(2)])
  moreover have "idx * ACT_PER_BUS c < kernel_dim c" if "1 < ACT_PER_BUS c" "1 < kernel_dim c"
    using tile_store_outside [OF s(3) that, of idx v] iw(1) by (cases "kernel_dim c \<le> idx * ACT_PER_BUS c") auto
  ultimately show ?thesis by blast
qed

text \<open>C31: On the simulated accelerator the test driver is undefined when a row of the array takes three or more bus words of
  four activations, or four or more of two: it writes a column behind the memory of the waiting inputs.\<close>

theorem gem5_test_undefined:
  assumes sup: "gem5_supported c" and wf: "on_tile (tile_wf c) s" and rows: "0 < M"
    and A: "1 < ACT_PER_BUS c" "MAX_ACT_COL c \<le> (MAX_ACT_COL c - 2) * ACT_PER_BUS c"
  shows "systolic_array_matrix_multiply c (gem5_ops c th) lhs rhs M (kernel_dim c) (kernel_dim c) lhs_size out_size (s, out) = None"
proof (rule ccontr)
  let ?K = "kernel_dim c" and ?A = "ACT_PER_BUS c" and ?X = "MAX_ACT_COL c"
  let ?load = "\<lambda>i s. do { w \<leftarrow> rd rhs i; (s, _) \<leftarrow> op_param (gem5_ops c th) (i * W_PER_BUS c) w 0 s; Some s }"
  let ?feed = "\<lambda>n st. do { assert_c (n < lhs_size); w \<leftarrow> rd lhs n; stream_word c (gem5_ops c th) out_size (n * ?A) w st }"
  have ok: "cfg_ok c" using sup by (simp add: gem5_supported_def)
  have X: "2 < ?X" using A(2) cfg_okD(8) [OF ok] by (cases "?X \<le> 2") auto
  have "?X * 1 < ?X * ?A" using A(1) X by (intro mult_less_mono2) auto
  then have K: "1 < ?K" "?K \<le> (?X - 2) * ?A * ?A" using A X mult_le_mono1 [OF A(2), of ?A] by (simp_all add: cfg_okD(6) [OF ok])
  assume "systolic_array_matrix_multiply c (gem5_ops c th) lhs rhs M ?K ?K lhs_size out_size (s, out) \<noteq> None"
  then obtain s1 st where load: "for_list [0..<?K * MAX_W_COL c] ?load s = Some s1" and feed: "for_list [0..<M * ?X] ?feed (s1, out, 0, 0) = Some st"
    by (auto simp: systolic_array_matrix_multiply_def matrix_words(3,4) [OF ok] split: Option.bind_splits)
  have "waiting_ok c s" using wf by (elim on_tileE) (simp add: waiting_ok_def on_tile_def tile_wf_def Let_def)
  then have "waiting_ok c s1" by (rule gem5_load_waiting [OF sup _ load])
  moreover have "?X - 1 \<le> M * ?X" using rows by (cases M) auto
  then have "[0..<M * ?X] = [0..<?X - 1] @ [?X - 1..<M * ?X]" using upt_add_eq_append [of 0 "?X - 1" "M * ?X - (?X - 1)"] by simp
  then obtain st' where feed': "for_list [0..<?X - 1] ?feed (s1, out, 0, 0) = Some st'" using feed by (auto simp: for_list_append split: Option.bind_splits)
  ultimately have "waiting_ok c (fst st') \<and> ?X - 1 < ?X - 1"
  proof (intro for_up_partial [OF feed', where I = "\<lambda>n st. waiting_ok c (fst st) \<and> n < ?X - 1"])
    fix n st st' assume n: "n < ?X - 1" and I: "waiting_ok c (fst st) \<and> n < ?X - 1" and step: "?feed n st = Some st'"
    obtain s out' p ns where st: "st = (s, out', p, ns)" by (cases st)
    have "n mod ?X = n" using n by simp
    then have col: "n * ?A mod ?K = n * ?A" and queue: "\<not> should_stream_systolic_array c (n * ?A)"
      using n by (simp_all only: should_stream_eq [OF ok] cfg_okD(6) [OF ok, symmetric] mult_mod_left) simp
    from step obtain w s' r where q: "op_queue (gem5_ops c th) (n * ?A) w 0 s = Some (s', r)" "fst st' = s'"
      by (auto simp: st stream_word_def queue col Let_def split: Option.bind_splits if_splits)
    have "n * ?A < ?K" using n cfg_okD(2) [OF ok] by (simp flip: cfg_okD(6) [OF ok])
    also have "?K \<le> ?K * ?K" by (rule le_square)
    also have "\<dots> < 2 ^ 31" using sup by (simp add: gem5_supported_def)
    finally have "n * ?A < 2 ^ 31" .
    from gem5_queue_waiting [OF this _ q(1)] I K A(1) have "waiting_ok c s'" "n * ?A * ?A < ?K" by (simp_all add: st)
    moreover from this(2) K(2) have "n \<noteq> ?X - 2" by auto
    ultimately show "waiting_ok c (fst st') \<and> Suc n < ?X - 1" using n q(2) by simp
  qed (use X in auto)
  then show False by simp
qed

theorem gem5_test_undefined_witness:
  "systolic_array_matrix_multiply wide_test_cfg (gem5_ops wide_test_cfg 0) (replicate 15 0) (replicate 36 0) 5 12 12 15 15
     (((\<lambda>_. 0), smm_create wide_test_cfg 0 0 1), replicate 15 0) = None"
  using gem5_test_undefined [OF test_cfg_supported(2) test_ready(2), of 5] by simp

end
