(* ===== verification/TiC_FP_Words.thy ===== *)
theory TiC_FP_Words
  imports TiC_Prelude
begin

text \<open>
  The integer groundwork of gem5's floating-point library, \<^verbatim>\<open>src/arch/arm/insts/fplib.cc\<close>, which executes the scalar
  floating-point instructions of the simulated processor: shifts that are defined for every amount, 128-bit
  arithmetic on pairs of 64-bit words, normalisation, and packing of sign, exponent and mantissa.

  A C \<^verbatim>\<open>int\<close> that is 0 or 1 is a \<open>bool\<close>, an exponent is an \<open>int\<close> (no operation leaves the range of the C type), and a shift
  amount is a \<open>nat\<close>. Output parameters are returned, a pair \<open>(x0, x1)\<close> being a 128-bit number with \<open>x0\<close> its low half. Division
  is checked: dividing by zero is \<open>None\<close>.
\<close>

subsection \<open>Shifts\<close>

definition lsl16 :: "16 word \<Rightarrow> nat \<Rightarrow> 16 word" where
  "lsl16 x shift = (if shift < 16 then push_bit shift x else 0)"

definition lsr16 :: "16 word \<Rightarrow> nat \<Rightarrow> 16 word" where
  "lsr16 x shift = (if shift < 16 then drop_bit shift x else 0)"

definition lsl32 :: "32 word \<Rightarrow> nat \<Rightarrow> 32 word" where
  "lsl32 x shift = (if shift < 32 then push_bit shift x else 0)"

definition lsr32 :: "32 word \<Rightarrow> nat \<Rightarrow> 32 word" where
  "lsr32 x shift = (if shift < 32 then drop_bit shift x else 0)"

definition lsl64 :: "64 word \<Rightarrow> nat \<Rightarrow> 64 word" where
  "lsl64 x shift = (if shift < 64 then push_bit shift x else 0)"

definition lsr64 :: "64 word \<Rightarrow> nat \<Rightarrow> 64 word" where
  "lsr64 x shift = (if shift < 64 then drop_bit shift x else 0)"

definition lsl128 :: "64 word \<Rightarrow> 64 word \<Rightarrow> nat \<Rightarrow> 64 word \<times> 64 word" where
  "lsl128 x0 x1 shift =
     (if shift = 0 then (x0, x1)
      else if shift < 64 then (push_bit shift x0, push_bit shift x1 OR drop_bit (64 - shift) x0)
      else if shift < 128 then (0, push_bit (shift - 64) x0)
      else (0, 0))"

definition lsr128 :: "64 word \<Rightarrow> 64 word \<Rightarrow> nat \<Rightarrow> 64 word \<times> 64 word" where
  "lsr128 x0 x1 shift =
     (if shift = 0 then (x0, x1)
      else if shift < 64 then (drop_bit shift x0 OR push_bit (64 - shift) x1, drop_bit shift x1)
      else if shift < 128 then (drop_bit (shift - 64) x1, 0)
      else (0, 0))"

subsection \<open>128-bit arithmetic\<close>

definition mul62x62 :: "64 word \<Rightarrow> 64 word \<Rightarrow> 64 word \<times> 64 word" where
  "mul62x62 a b = (let
     mask = push_bit 31 1 - 1;
     a0 = a AND mask;
     a1 = drop_bit 31 a AND mask;
     b0 = b AND mask;
     b1 = drop_bit 31 b AND mask;
     p0 = a0 * b0;
     p2 = a1 * b1;
     p1 = (a0 + a1) * (b0 + b1) - p0 - p2;
     s0 = p0;
     s1 = drop_bit 31 s0 + p1;
     s2 = drop_bit 31 s1 + p2
     in ((s0 AND mask) OR push_bit 31 (s1 AND mask) OR push_bit 62 s2, drop_bit 2 s2))"

definition mul64x32 :: "64 word \<Rightarrow> 32 word \<Rightarrow> 64 word \<times> 64 word" where
  "mul64x32 a b = (let
     t0 = ucast (ucast a :: 32 word) * ucast b;
     t1 = drop_bit 32 t0 + drop_bit 32 a * ucast b
     in (push_bit 32 t1 OR ucast (ucast t0 :: 32 word), drop_bit 32 t1))"

definition add128 :: "64 word \<Rightarrow> 64 word \<Rightarrow> 64 word \<Rightarrow> 64 word \<Rightarrow> 64 word \<times> 64 word" where
  "add128 a0 a1 b0 b1 = (let x0 = a0 + b0 in (x0, a1 + b1 + of_bool (x0 < a0)))"

definition sub128 :: "64 word \<Rightarrow> 64 word \<Rightarrow> 64 word \<Rightarrow> 64 word \<Rightarrow> 64 word \<times> 64 word" where
  "sub128 a0 a1 b0 b1 = (let x0 = a0 - b0 in (x0, a1 - b1 - of_bool (x0 > a0)))"

definition cmp128 :: "64 word \<Rightarrow> 64 word \<Rightarrow> 64 word \<Rightarrow> 64 word \<Rightarrow> int" where
  "cmp128 a0 a1 b0 b1 = (if a1 < b1 then - 1 else if a1 > b1 then 1 else if a0 < b0 then - 1 else if a0 > b0 then 1 else 0)"

definition div_c :: "'a::len word \<Rightarrow> 'a word \<Rightarrow> 'a word option" where
  "div_c a b = (if b = 0 then None else Some (a div b))"

subsection \<open>Normalisation\<close>

text \<open>The loop \<^verbatim>\<open>for (shift = N; shift; shift >>= 1)\<close> of the three normalisations.\<close>

function normalise_loop :: "nat \<Rightarrow> 'a::len word \<times> int \<Rightarrow> 'a word \<times> int" where
  "normalise_loop shift (mnt, ex) =
     (if shift = 0 then (mnt, ex)
      else if drop_bit (LENGTH('a) - shift) mnt = 0 then normalise_loop (shift div 2) (push_bit shift mnt, ex - int shift)
      else normalise_loop (shift div 2) (mnt, ex))"
  by pat_completeness auto

termination normalise_loop
  by (relation "measure fst") auto

declare normalise_loop.simps [simp del]

definition fp16_normalise :: "16 word \<Rightarrow> int \<Rightarrow> 16 word \<times> int" where
  "fp16_normalise mnt ex = (if mnt = 0 then (0, ex) else normalise_loop 8 (mnt, ex))"

definition fp32_normalise :: "32 word \<Rightarrow> int \<Rightarrow> 32 word \<times> int" where
  "fp32_normalise mnt ex = (if mnt = 0 then (0, ex) else normalise_loop 16 (mnt, ex))"

definition fp64_normalise :: "64 word \<Rightarrow> int \<Rightarrow> 64 word \<times> int" where
  "fp64_normalise mnt ex = (if mnt = 0 then (0, ex) else normalise_loop 32 (mnt, ex))"

function normalise128_loop :: "nat \<Rightarrow> 64 word \<times> 64 word \<times> int \<Rightarrow> 64 word \<times> 64 word \<times> int" where
  "normalise128_loop shift (x0, x1, ex) =
     (if shift = 0 then (x0, x1, ex)
      else if drop_bit (64 - shift) x1 = 0 then
        normalise128_loop (shift div 2) (push_bit shift x0, push_bit shift x1 OR drop_bit (64 - shift) x0, ex - int shift)
      else normalise128_loop (shift div 2) (x0, x1, ex))"
  by pat_completeness auto

termination normalise128_loop
  by (relation "measure fst") auto

declare normalise128_loop.simps [simp del]

definition fp128_normalise :: "64 word \<Rightarrow> 64 word \<Rightarrow> int \<Rightarrow> 64 word \<times> 64 word \<times> int" where
  "fp128_normalise x0 x1 ex =
     (if x0 = 0 \<and> x1 = 0 then (x0, x1, ex)
      else if x1 = 0 then normalise128_loop 32 (0, x0, ex - 64)
      else normalise128_loop 32 (x0, x1, ex))"

subsection \<open>Packing and special values\<close>

definition fp16_pack :: "16 word \<Rightarrow> 16 word \<Rightarrow> 16 word \<Rightarrow> 16 word" where
  "fp16_pack sn ex mnt = push_bit 15 sn OR push_bit 10 ex OR (mnt AND (push_bit 10 1 - 1))"

definition fp32_pack :: "32 word \<Rightarrow> 32 word \<Rightarrow> 32 word \<Rightarrow> 32 word" where
  "fp32_pack sn ex mnt = push_bit 31 sn OR push_bit 23 ex OR (mnt AND (push_bit 23 1 - 1))"

definition fp64_pack :: "64 word \<Rightarrow> 64 word \<Rightarrow> 64 word \<Rightarrow> 64 word" where
  "fp64_pack sn ex mnt = push_bit 63 sn OR push_bit 52 ex OR (mnt AND (push_bit 52 1 - 1))"

definition fp16_zero :: "bool \<Rightarrow> 16 word" where
  "fp16_zero sn = fp16_pack (of_bool sn) 0 0"

definition fp32_zero :: "bool \<Rightarrow> 32 word" where
  "fp32_zero sn = fp32_pack (of_bool sn) 0 0"

definition fp64_zero :: "bool \<Rightarrow> 64 word" where
  "fp64_zero sn = fp64_pack (of_bool sn) 0 0"

definition fp16_max_normal :: "bool \<Rightarrow> 16 word" where
  "fp16_max_normal sn = fp16_pack (of_bool sn) 30 (- 1)"

definition fp32_max_normal :: "bool \<Rightarrow> 32 word" where
  "fp32_max_normal sn = fp32_pack (of_bool sn) 254 (- 1)"

definition fp64_max_normal :: "bool \<Rightarrow> 64 word" where
  "fp64_max_normal sn = fp64_pack (of_bool sn) 2046 (- 1)"

definition fp16_infinity :: "bool \<Rightarrow> 16 word" where
  "fp16_infinity sn = fp16_pack (of_bool sn) 31 0"

definition fp32_infinity :: "bool \<Rightarrow> 32 word" where
  "fp32_infinity sn = fp32_pack (of_bool sn) 255 0"

definition fp64_infinity :: "bool \<Rightarrow> 64 word" where
  "fp64_infinity sn = fp64_pack (of_bool sn) 2047 0"

definition fp16_defaultNaN :: "16 word" where
  "fp16_defaultNaN = fp16_pack 0 31 (push_bit 9 1)"

definition fp32_defaultNaN :: "32 word" where
  "fp32_defaultNaN = fp32_pack 0 255 (push_bit 22 1)"

definition fp64_defaultNaN :: "64 word" where
  "fp64_defaultNaN = fp64_pack 0 2047 (push_bit 51 1)"

end
