(* ===== verification/TiC_FP_Core.thy ===== *)
theory TiC_FP_Core
  imports TiC_FP_Words
begin

text \<open>
  The operations of gem5's \<^verbatim>\<open>fplib.cc\<close> on bit patterns: unpacking, propagation of NaNs, rounding, comparison, addition,
  multiplication, fused multiply-add, division and square root, in single and double precision, and the conversion
  between integers and floats they share.

  \<^verbatim>\<open>mode\<close> holds the rounding mode in its two low bits, flush-to-zero, default-NaN and alternative half-precision; \<^verbatim>\<open>flags\<close>
  collects the exceptions and is threaded through as the last argument and last result. A failing \<^verbatim>\<open>assert\<close> is \<open>None\<close>.
\<close>

subsection \<open>Modes and exceptions\<close>

abbreviation "FPLIB_RN \<equiv> 0 :: 32 word"
abbreviation "FPLIB_RP \<equiv> 1 :: 32 word"
abbreviation "FPLIB_RM \<equiv> 2 :: 32 word"
abbreviation "FPLIB_RZ \<equiv> 3 :: 32 word"
abbreviation "FPLIB_FZ \<equiv> 4 :: 32 word"
abbreviation "FPLIB_DN \<equiv> 8 :: 32 word"
abbreviation "FPLIB_AHP \<equiv> 16 :: 32 word"
abbreviation "FPLIB_IDC \<equiv> 128 :: 32 word"
abbreviation "FPLIB_IXC \<equiv> 16 :: 32 word"
abbreviation "FPLIB_UFC \<equiv> 8 :: 32 word"
abbreviation "FPLIB_OFC \<equiv> 4 :: 32 word"
abbreviation "FPLIB_DZC \<equiv> 2 :: 32 word"
abbreviation "FPLIB_IOC \<equiv> 1 :: 32 word"
abbreviation "FPRounding_TIEEVEN \<equiv> 0 :: 32 word"
abbreviation "FPRounding_POSINF \<equiv> 1 :: 32 word"
abbreviation "FPRounding_NEGINF \<equiv> 2 :: 32 word"
abbreviation "FPRounding_ZERO \<equiv> 3 :: 32 word"
abbreviation "FPRounding_TIEAWAY \<equiv> 4 :: 32 word"
abbreviation "FPRounding_ODD \<equiv> 5 :: 32 word"

subsection \<open>Unpacking\<close>

definition fp16_unpack :: "16 word \<Rightarrow> 32 word \<Rightarrow> 32 word \<Rightarrow> bool \<times> int \<times> 16 word \<times> 32 word" where
  "fp16_unpack x mode flags = (let
     sn = drop_bit 15 x \<noteq> 0;
     ex = uint (drop_bit 10 x AND 31);
     mnt = x AND (push_bit 10 1 - 1)
     in if ex \<noteq> 0 then (sn, ex, mnt OR push_bit 10 1, flags) else (sn, ex + 1, mnt, flags))"

definition fp32_unpack :: "32 word \<Rightarrow> 32 word \<Rightarrow> 32 word \<Rightarrow> bool \<times> int \<times> 32 word \<times> 32 word" where
  "fp32_unpack x mode flags = (let
     sn = drop_bit 31 x \<noteq> 0;
     ex = uint (drop_bit 23 x AND 255);
     mnt = x AND (push_bit 23 1 - 1)
     in if ex \<noteq> 0 then (sn, ex, mnt OR push_bit 23 1, flags)
        else if mode AND FPLIB_FZ \<noteq> 0 \<and> mnt \<noteq> 0 then (sn, ex + 1, 0, flags OR FPLIB_IDC)
        else (sn, ex + 1, mnt, flags))"

definition fp64_unpack :: "64 word \<Rightarrow> 32 word \<Rightarrow> 32 word \<Rightarrow> bool \<times> int \<times> 64 word \<times> 32 word" where
  "fp64_unpack x mode flags = (let
     sn = drop_bit 63 x \<noteq> 0;
     ex = uint (drop_bit 52 x AND 2047);
     mnt = x AND (push_bit 52 1 - 1)
     in if ex \<noteq> 0 then (sn, ex, mnt OR push_bit 52 1, flags)
        else if mode AND FPLIB_FZ \<noteq> 0 \<and> mnt \<noteq> 0 then (sn, ex + 1, 0, flags OR FPLIB_IDC)
        else (sn, ex + 1, mnt, flags))"

subsection \<open>NaNs\<close>

definition fp32_process_NaN :: "32 word \<Rightarrow> 32 word \<Rightarrow> 32 word \<Rightarrow> 32 word \<times> 32 word" where
  "fp32_process_NaN a mode flags = (let
     (a, flags) = (if drop_bit 22 a AND 1 = 0 then (a OR push_bit 22 1, flags OR FPLIB_IOC) else (a, flags))
     in (if mode AND FPLIB_DN \<noteq> 0 then fp32_defaultNaN else a, flags))"

definition fp64_process_NaN :: "64 word \<Rightarrow> 32 word \<Rightarrow> 32 word \<Rightarrow> 64 word \<times> 32 word" where
  "fp64_process_NaN a mode flags = (let
     (a, flags) = (if drop_bit 51 a AND 1 = 0 then (a OR push_bit 51 1, flags OR FPLIB_IOC) else (a, flags))
     in (if mode AND FPLIB_DN \<noteq> 0 then fp64_defaultNaN else a, flags))"

definition fp32_process_NaNs :: "32 word \<Rightarrow> 32 word \<Rightarrow> 32 word \<Rightarrow> 32 word \<Rightarrow> 32 word \<times> 32 word" where
  "fp32_process_NaNs a b mode flags = (let
     a_exp = drop_bit 23 a AND 255;
     a_mnt = a AND (push_bit 23 1 - 1);
     b_exp = drop_bit 23 b AND 255;
     b_mnt = b AND (push_bit 23 1 - 1)
     in if a_exp = 255 \<and> a_mnt \<noteq> 0 \<and> drop_bit 22 a_mnt AND 1 = 0 then fp32_process_NaN a mode flags
        else if b_exp = 255 \<and> b_mnt \<noteq> 0 \<and> drop_bit 22 b_mnt AND 1 = 0 then fp32_process_NaN b mode flags
        else if a_exp = 255 \<and> a_mnt \<noteq> 0 then fp32_process_NaN a mode flags
        else if b_exp = 255 \<and> b_mnt \<noteq> 0 then fp32_process_NaN b mode flags
        else (0, flags))"

definition fp64_process_NaNs :: "64 word \<Rightarrow> 64 word \<Rightarrow> 32 word \<Rightarrow> 32 word \<Rightarrow> 64 word \<times> 32 word" where
  "fp64_process_NaNs a b mode flags = (let
     a_exp = drop_bit 52 a AND 2047;
     a_mnt = a AND (push_bit 52 1 - 1);
     b_exp = drop_bit 52 b AND 2047;
     b_mnt = b AND (push_bit 52 1 - 1)
     in if a_exp = 2047 \<and> a_mnt \<noteq> 0 \<and> drop_bit 51 a_mnt AND 1 = 0 then fp64_process_NaN a mode flags
        else if b_exp = 2047 \<and> b_mnt \<noteq> 0 \<and> drop_bit 51 b_mnt AND 1 = 0 then fp64_process_NaN b mode flags
        else if a_exp = 2047 \<and> a_mnt \<noteq> 0 then fp64_process_NaN a mode flags
        else if b_exp = 2047 \<and> b_mnt \<noteq> 0 then fp64_process_NaN b mode flags
        else (0, flags))"

definition fp32_process_NaNs3 :: "32 word \<Rightarrow> 32 word \<Rightarrow> 32 word \<Rightarrow> 32 word \<Rightarrow> 32 word \<Rightarrow> 32 word \<times> 32 word" where
  "fp32_process_NaNs3 a b c mode flags = (let
     a_exp = drop_bit 23 a AND 255;
     a_mnt = a AND (push_bit 23 1 - 1);
     b_exp = drop_bit 23 b AND 255;
     b_mnt = b AND (push_bit 23 1 - 1);
     c_exp = drop_bit 23 c AND 255;
     c_mnt = c AND (push_bit 23 1 - 1)
     in if a_exp = 255 \<and> a_mnt \<noteq> 0 \<and> drop_bit 22 a_mnt AND 1 = 0 then fp32_process_NaN a mode flags
        else if b_exp = 255 \<and> b_mnt \<noteq> 0 \<and> drop_bit 22 b_mnt AND 1 = 0 then fp32_process_NaN b mode flags
        else if c_exp = 255 \<and> c_mnt \<noteq> 0 \<and> drop_bit 22 c_mnt AND 1 = 0 then fp32_process_NaN c mode flags
        else if a_exp = 255 \<and> a_mnt \<noteq> 0 then fp32_process_NaN a mode flags
        else if b_exp = 255 \<and> b_mnt \<noteq> 0 then fp32_process_NaN b mode flags
        else if c_exp = 255 \<and> c_mnt \<noteq> 0 then fp32_process_NaN c mode flags
        else (0, flags))"

definition fp64_process_NaNs3 :: "64 word \<Rightarrow> 64 word \<Rightarrow> 64 word \<Rightarrow> 32 word \<Rightarrow> 32 word \<Rightarrow> 64 word \<times> 32 word" where
  "fp64_process_NaNs3 a b c mode flags = (let
     a_exp = drop_bit 52 a AND 2047;
     a_mnt = a AND (push_bit 52 1 - 1);
     b_exp = drop_bit 52 b AND 2047;
     b_mnt = b AND (push_bit 52 1 - 1);
     c_exp = drop_bit 52 c AND 2047;
     c_mnt = c AND (push_bit 52 1 - 1)
     in if a_exp = 2047 \<and> a_mnt \<noteq> 0 \<and> drop_bit 51 a_mnt AND 1 = 0 then fp64_process_NaN a mode flags
        else if b_exp = 2047 \<and> b_mnt \<noteq> 0 \<and> drop_bit 51 b_mnt AND 1 = 0 then fp64_process_NaN b mode flags
        else if c_exp = 2047 \<and> c_mnt \<noteq> 0 \<and> drop_bit 51 c_mnt AND 1 = 0 then fp64_process_NaN c mode flags
        else if a_exp = 2047 \<and> a_mnt \<noteq> 0 then fp64_process_NaN a mode flags
        else if b_exp = 2047 \<and> b_mnt \<noteq> 0 then fp64_process_NaN b mode flags
        else if c_exp = 2047 \<and> c_mnt \<noteq> 0 then fp64_process_NaN c mode flags
        else (0, flags))"

subsection \<open>Rounding\<close>

text \<open>The conditions of the rounding functions: whether to round up, and whether an overflow gives infinity.\<close>

definition round_up :: "32 word \<Rightarrow> bool \<Rightarrow> 'a::len word \<Rightarrow> 'a word \<Rightarrow> bool" where
  "round_up rm sn error int_mant \<longleftrightarrow>
     (rm = FPLIB_RN \<and> (error = 3 \<or> error = 2 \<and> int_mant AND 1 \<noteq> 0)) \<or>
     (((rm = FPLIB_RP \<and> \<not> sn) \<or> (rm = FPLIB_RM \<and> sn)) \<and> error \<noteq> 0)"

definition overflow_to_inf :: "32 word \<Rightarrow> bool \<Rightarrow> bool" where
  "overflow_to_inf rm sn \<longleftrightarrow> rm = FPLIB_RN \<or> (rm = FPLIB_RP \<and> \<not> sn) \<or> (rm = FPLIB_RM \<and> sn)"

definition fp16_round_rm :: "bool \<Rightarrow> int \<Rightarrow> 16 word \<Rightarrow> 32 word \<Rightarrow> 32 word \<Rightarrow> 32 word \<Rightarrow> (16 word \<times> 32 word) option" where
  "fp16_round_rm sn ex mnt rm mode flags = do {
     assert_c (rm \<noteq> FPRounding_TIEAWAY);
     let mnt = push_bit 12 1 OR drop_bit 4 mnt OR of_bool (mnt AND 31 \<noteq> 0);
     let (biased_exp, int_mant, error) =
       (if ex > 0 then (ex, drop_bit 2 mnt, mnt AND 3)
        else (0, lsr16 mnt (nat (3 - ex)),
          (lsr16 mnt (nat (1 - ex)) AND 3) OR of_bool (mnt AND (lsl16 1 (nat (1 - ex)) - 1) \<noteq> 0)));
     let flags = (if biased_exp = 0 \<and> error \<noteq> 0 then flags OR FPLIB_UFC else flags);
     let (biased_exp, int_mant) =
       (if round_up rm sn error int_mant then (let
          int_mant = int_mant + 1;
          biased_exp = (if int_mant = push_bit 10 1 then 1 else biased_exp)
          in if int_mant = push_bit 11 1 then (biased_exp + 1, drop_bit 1 int_mant) else (biased_exp, int_mant))
        else (biased_exp, int_mant));
     let int_mant = (if error \<noteq> 0 \<and> rm = FPRounding_ODD then int_mant OR 1 else int_mant);
     if mode AND FPLIB_AHP = 0 \<and> biased_exp \<ge> 31 then
       Some (if overflow_to_inf rm sn then fp16_infinity sn else fp16_max_normal sn, flags OR FPLIB_OFC OR FPLIB_IXC)
     else if mode AND FPLIB_AHP \<noteq> 0 \<and> biased_exp \<ge> 32 then Some (fp16_pack (of_bool sn) 31 (- 1), flags OR FPLIB_IOC)
     else Some (fp16_pack (of_bool sn) (word_of_int biased_exp) int_mant, if error \<noteq> 0 then flags OR FPLIB_IXC else flags)
   }"

definition fp32_round_rm :: "bool \<Rightarrow> int \<Rightarrow> 32 word \<Rightarrow> 32 word \<Rightarrow> 32 word \<Rightarrow> 32 word \<Rightarrow> (32 word \<times> 32 word) option" where
  "fp32_round_rm sn ex mnt rm mode flags = do {
     assert_c (rm \<noteq> FPRounding_TIEAWAY);
     if mode AND FPLIB_FZ \<noteq> 0 \<and> ex < 1 then Some (fp32_zero sn, flags OR FPLIB_UFC)
     else do {
       let mnt = push_bit 25 1 OR drop_bit 7 mnt OR of_bool (mnt AND 255 \<noteq> 0);
       let (biased_exp, int_mant, error) =
         (if ex > 0 then (ex, drop_bit 2 mnt, mnt AND 3)
          else (0, lsr32 mnt (nat (3 - ex)),
            (lsr32 mnt (nat (1 - ex)) AND 3) OR of_bool (mnt AND (lsl32 1 (nat (1 - ex)) - 1) \<noteq> 0)));
       let flags = (if biased_exp = 0 \<and> error \<noteq> 0 then flags OR FPLIB_UFC else flags);
       let (biased_exp, int_mant) =
         (if round_up rm sn error int_mant then (let
            int_mant = int_mant + 1;
            biased_exp = (if int_mant = push_bit 23 1 then 1 else biased_exp)
            in if int_mant = push_bit 24 1 then (biased_exp + 1, drop_bit 1 int_mant) else (biased_exp, int_mant))
          else (biased_exp, int_mant));
       let int_mant = (if error \<noteq> 0 \<and> rm = FPRounding_ODD then int_mant OR 1 else int_mant);
       if biased_exp \<ge> 255 then
         Some (if overflow_to_inf rm sn then fp32_infinity sn else fp32_max_normal sn, flags OR FPLIB_OFC OR FPLIB_IXC)
       else Some (fp32_pack (of_bool sn) (word_of_int biased_exp) int_mant, if error \<noteq> 0 then flags OR FPLIB_IXC else flags)
     }
   }"

definition fp32_round :: "bool \<Rightarrow> int \<Rightarrow> 32 word \<Rightarrow> 32 word \<Rightarrow> 32 word \<Rightarrow> (32 word \<times> 32 word) option" where
  "fp32_round sn ex mnt mode flags = fp32_round_rm sn ex mnt (mode AND 3) mode flags"

definition fp64_round_rm :: "bool \<Rightarrow> int \<Rightarrow> 64 word \<Rightarrow> 32 word \<Rightarrow> 32 word \<Rightarrow> 32 word \<Rightarrow> (64 word \<times> 32 word) option" where
  "fp64_round_rm sn ex mnt rm mode flags = do {
     assert_c (rm \<noteq> FPRounding_TIEAWAY);
     if mode AND FPLIB_FZ \<noteq> 0 \<and> ex < 1 then Some (fp64_zero sn, flags OR FPLIB_UFC)
     else do {
       let mnt = push_bit 54 1 OR drop_bit 10 mnt OR of_bool (mnt AND 0x3ff \<noteq> 0);
       let (biased_exp, int_mant, error) =
         (if ex > 0 then (ex, drop_bit 2 mnt, mnt AND 3)
          else (0, lsr64 mnt (nat (3 - ex)),
            (lsr64 mnt (nat (1 - ex)) AND 3) OR of_bool (mnt AND (lsl64 1 (nat (1 - ex)) - 1) \<noteq> 0)));
       let flags = (if biased_exp = 0 \<and> error \<noteq> 0 then flags OR FPLIB_UFC else flags);
       let (biased_exp, int_mant) =
         (if round_up rm sn error int_mant then (let
            int_mant = int_mant + 1;
            biased_exp = (if int_mant = push_bit 52 1 then 1 else biased_exp)
            in if int_mant = push_bit 53 1 then (biased_exp + 1, drop_bit 1 int_mant) else (biased_exp, int_mant))
          else (biased_exp, int_mant));
       let int_mant = (if error \<noteq> 0 \<and> rm = FPRounding_ODD then int_mant OR 1 else int_mant);
       if biased_exp \<ge> 2047 then
         Some (if overflow_to_inf rm sn then fp64_infinity sn else fp64_max_normal sn, flags OR FPLIB_OFC OR FPLIB_IXC)
       else Some (fp64_pack (of_bool sn) (word_of_int biased_exp) int_mant, if error \<noteq> 0 then flags OR FPLIB_IXC else flags)
     }
   }"

definition fp64_round :: "bool \<Rightarrow> int \<Rightarrow> 64 word \<Rightarrow> 32 word \<Rightarrow> 32 word \<Rightarrow> (64 word \<times> 32 word) option" where
  "fp64_round sn ex mnt mode flags = fp64_round_rm sn ex mnt (mode AND 3) mode flags"

subsection \<open>Comparison\<close>

definition fp32_compare_eq :: "32 word \<Rightarrow> 32 word \<Rightarrow> 32 word \<Rightarrow> 32 word \<Rightarrow> bool \<times> 32 word" where
  "fp32_compare_eq a b mode flags = (let
     (a_sgn, a_exp, a_mnt, flags) = fp32_unpack a mode flags;
     (b_sgn, b_exp, b_mnt, flags) = fp32_unpack b mode flags
     in if a_exp = 255 \<and> push_bit 9 a_mnt \<noteq> 0 \<or> b_exp = 255 \<and> push_bit 9 b_mnt \<noteq> 0 then
          (False, if a_exp = 255 \<and> push_bit 9 a_mnt \<noteq> 0 \<and> drop_bit 22 a AND 1 = 0 \<or>
                     b_exp = 255 \<and> push_bit 9 b_mnt \<noteq> 0 \<and> drop_bit 22 b AND 1 = 0 then flags OR FPLIB_IOC else flags)
        else (a = b \<or> a_mnt = 0 \<and> b_mnt = 0, flags))"

definition fp32_compare_ge :: "32 word \<Rightarrow> 32 word \<Rightarrow> 32 word \<Rightarrow> 32 word \<Rightarrow> bool \<times> 32 word" where
  "fp32_compare_ge a b mode flags = (let
     (a_sgn, a_exp, a_mnt, flags) = fp32_unpack a mode flags;
     (b_sgn, b_exp, b_mnt, flags) = fp32_unpack b mode flags
     in if a_exp = 255 \<and> push_bit 9 a_mnt \<noteq> 0 \<or> b_exp = 255 \<and> push_bit 9 b_mnt \<noteq> 0 then (False, flags OR FPLIB_IOC)
        else if a_mnt = 0 \<and> b_mnt = 0 then (True, flags)
        else if a_sgn \<noteq> b_sgn then (b_sgn, flags)
        else if a_exp \<noteq> b_exp then (a_sgn \<noteq> (a_exp > b_exp), flags)
        else if a_mnt \<noteq> b_mnt then (a_sgn \<noteq> (a_mnt > b_mnt), flags)
        else (True, flags))"

definition fp32_compare_gt :: "32 word \<Rightarrow> 32 word \<Rightarrow> 32 word \<Rightarrow> 32 word \<Rightarrow> bool \<times> 32 word" where
  "fp32_compare_gt a b mode flags = (let
     (a_sgn, a_exp, a_mnt, flags) = fp32_unpack a mode flags;
     (b_sgn, b_exp, b_mnt, flags) = fp32_unpack b mode flags
     in if a_exp = 255 \<and> push_bit 9 a_mnt \<noteq> 0 \<or> b_exp = 255 \<and> push_bit 9 b_mnt \<noteq> 0 then (False, flags OR FPLIB_IOC)
        else if a_mnt = 0 \<and> b_mnt = 0 then (False, flags)
        else if a_sgn \<noteq> b_sgn then (b_sgn, flags)
        else if a_exp \<noteq> b_exp then (a_sgn \<noteq> (a_exp > b_exp), flags)
        else if a_mnt \<noteq> b_mnt then (a_sgn \<noteq> (a_mnt > b_mnt), flags)
        else (False, flags))"

definition fp64_compare_eq :: "64 word \<Rightarrow> 64 word \<Rightarrow> 32 word \<Rightarrow> 32 word \<Rightarrow> bool \<times> 32 word" where
  "fp64_compare_eq a b mode flags = (let
     (a_sgn, a_exp, a_mnt, flags) = fp64_unpack a mode flags;
     (b_sgn, b_exp, b_mnt, flags) = fp64_unpack b mode flags
     in if a_exp = 2047 \<and> push_bit 12 a_mnt \<noteq> 0 \<or> b_exp = 2047 \<and> push_bit 12 b_mnt \<noteq> 0 then
          (False, if a_exp = 2047 \<and> push_bit 12 a_mnt \<noteq> 0 \<and> drop_bit 51 a AND 1 = 0 \<or>
                     b_exp = 2047 \<and> push_bit 12 b_mnt \<noteq> 0 \<and> drop_bit 51 b AND 1 = 0 then flags OR FPLIB_IOC else flags)
        else (a = b \<or> a_mnt = 0 \<and> b_mnt = 0, flags))"

definition fp64_compare_ge :: "64 word \<Rightarrow> 64 word \<Rightarrow> 32 word \<Rightarrow> 32 word \<Rightarrow> bool \<times> 32 word" where
  "fp64_compare_ge a b mode flags = (let
     (a_sgn, a_exp, a_mnt, flags) = fp64_unpack a mode flags;
     (b_sgn, b_exp, b_mnt, flags) = fp64_unpack b mode flags
     in if a_exp = 2047 \<and> push_bit 12 a_mnt \<noteq> 0 \<or> b_exp = 2047 \<and> push_bit 12 b_mnt \<noteq> 0 then (False, flags OR FPLIB_IOC)
        else if a_mnt = 0 \<and> b_mnt = 0 then (True, flags)
        else if a_sgn \<noteq> b_sgn then (b_sgn, flags)
        else if a_exp \<noteq> b_exp then (a_sgn \<noteq> (a_exp > b_exp), flags)
        else if a_mnt \<noteq> b_mnt then (a_sgn \<noteq> (a_mnt > b_mnt), flags)
        else (True, flags))"

definition fp64_compare_gt :: "64 word \<Rightarrow> 64 word \<Rightarrow> 32 word \<Rightarrow> 32 word \<Rightarrow> bool \<times> 32 word" where
  "fp64_compare_gt a b mode flags = (let
     (a_sgn, a_exp, a_mnt, flags) = fp64_unpack a mode flags;
     (b_sgn, b_exp, b_mnt, flags) = fp64_unpack b mode flags
     in if a_exp = 2047 \<and> push_bit 12 a_mnt \<noteq> 0 \<or> b_exp = 2047 \<and> push_bit 12 b_mnt \<noteq> 0 then (False, flags OR FPLIB_IOC)
        else if a_mnt = 0 \<and> b_mnt = 0 then (False, flags)
        else if a_sgn \<noteq> b_sgn then (b_sgn, flags)
        else if a_exp \<noteq> b_exp then (a_sgn \<noteq> (a_exp > b_exp), flags)
        else if a_mnt \<noteq> b_mnt then (a_sgn \<noteq> (a_mnt > b_mnt), flags)
        else (False, flags))"

subsection \<open>Addition and multiplication\<close>

text \<open>The aligning shift of the additions, which keeps in the lowest bit whether a one was shifted out.\<close>

definition align32 :: "32 word \<Rightarrow> nat \<Rightarrow> 32 word" where
  "align32 mnt d = lsr32 mnt d OR of_bool (mnt AND (lsl32 1 d - 1) \<noteq> 0)"

definition align64 :: "64 word \<Rightarrow> nat \<Rightarrow> 64 word" where
  "align64 mnt d = lsr64 mnt d OR of_bool (mnt AND (lsl64 1 d - 1) \<noteq> 0)"

definition fp32_add :: "32 word \<Rightarrow> 32 word \<Rightarrow> bool \<Rightarrow> 32 word \<Rightarrow> 32 word \<Rightarrow> (32 word \<times> 32 word) option" where
  "fp32_add a b neg mode flags = (let
     (a_sgn, a_exp, a_mnt, flags) = fp32_unpack a mode flags;
     (b_sgn, b_exp, b_mnt, flags) = fp32_unpack b mode flags;
     (x, flags) = fp32_process_NaNs a b mode flags
     in if x \<noteq> 0 then Some (x, flags)
     else let b_sgn = (b_sgn \<noteq> neg)
     in if a_exp = 255 \<and> b_exp = 255 \<and> a_sgn \<noteq> b_sgn then Some (fp32_defaultNaN, flags OR FPLIB_IOC)
     else if a_exp = 255 then Some (fp32_infinity a_sgn, flags)
     else if b_exp = 255 then Some (fp32_infinity b_sgn, flags)
     else if a_mnt = 0 \<and> b_mnt = 0 \<and> a_sgn = b_sgn then Some (fp32_zero a_sgn, flags)
     else let
       a_mnt = push_bit 3 a_mnt;
       b_mnt = push_bit 3 b_mnt;
       (a_mnt, b_mnt, x_exp) =
         (if a_exp \<ge> b_exp then (a_mnt, align32 b_mnt (nat (a_exp - b_exp)), a_exp)
          else (align32 a_mnt (nat (b_exp - a_exp)), b_mnt, b_exp));
       (x_sgn, x_mnt) =
         (if a_sgn = b_sgn then (a_sgn, a_mnt + b_mnt)
          else if a_mnt \<ge> b_mnt then (a_sgn, a_mnt - b_mnt)
          else (\<not> a_sgn, b_mnt - a_mnt))
       in if x_mnt = 0 then Some (fp32_zero (mode AND 3 = 2), flags)
          else let (x_mnt, x_exp) = fp32_normalise x_mnt x_exp
            in fp32_round x_sgn (x_exp + 5) (push_bit 1 x_mnt) mode flags)"

definition fp64_add :: "64 word \<Rightarrow> 64 word \<Rightarrow> bool \<Rightarrow> 32 word \<Rightarrow> 32 word \<Rightarrow> (64 word \<times> 32 word) option" where
  "fp64_add a b neg mode flags = (let
     (a_sgn, a_exp, a_mnt, flags) = fp64_unpack a mode flags;
     (b_sgn, b_exp, b_mnt, flags) = fp64_unpack b mode flags;
     (x, flags) = fp64_process_NaNs a b mode flags
     in if x \<noteq> 0 then Some (x, flags)
     else let b_sgn = (b_sgn \<noteq> neg)
     in if a_exp = 2047 \<and> b_exp = 2047 \<and> a_sgn \<noteq> b_sgn then Some (fp64_defaultNaN, flags OR FPLIB_IOC)
     else if a_exp = 2047 then Some (fp64_infinity a_sgn, flags)
     else if b_exp = 2047 then Some (fp64_infinity b_sgn, flags)
     else if a_mnt = 0 \<and> b_mnt = 0 \<and> a_sgn = b_sgn then Some (fp64_zero a_sgn, flags)
     else let
       a_mnt = push_bit 3 a_mnt;
       b_mnt = push_bit 3 b_mnt;
       (a_mnt, b_mnt, x_exp) =
         (if a_exp \<ge> b_exp then (a_mnt, align64 b_mnt (nat (a_exp - b_exp)), a_exp)
          else (align64 a_mnt (nat (b_exp - a_exp)), b_mnt, b_exp));
       (x_sgn, x_mnt) =
         (if a_sgn = b_sgn then (a_sgn, a_mnt + b_mnt)
          else if a_mnt \<ge> b_mnt then (a_sgn, a_mnt - b_mnt)
          else (\<not> a_sgn, b_mnt - a_mnt))
       in if x_mnt = 0 then Some (fp64_zero (mode AND 3 = 2), flags)
          else let (x_mnt, x_exp) = fp64_normalise x_mnt x_exp
            in fp64_round x_sgn (x_exp + 8) (push_bit 1 x_mnt) mode flags)"

definition fp32_mul :: "32 word \<Rightarrow> 32 word \<Rightarrow> 32 word \<Rightarrow> 32 word \<Rightarrow> (32 word \<times> 32 word) option" where
  "fp32_mul a b mode flags = (let
     (a_sgn, a_exp, a_mnt, flags) = fp32_unpack a mode flags;
     (b_sgn, b_exp, b_mnt, flags) = fp32_unpack b mode flags;
     (x, flags) = fp32_process_NaNs a b mode flags
     in if x \<noteq> 0 then Some (x, flags)
     else if a_exp = 255 \<and> b_mnt = 0 \<or> b_exp = 255 \<and> a_mnt = 0 then Some (fp32_defaultNaN, flags OR FPLIB_IOC)
     else if a_exp = 255 \<or> b_exp = 255 then Some (fp32_infinity (a_sgn \<noteq> b_sgn), flags)
     else if a_mnt = 0 \<or> b_mnt = 0 then Some (fp32_zero (a_sgn \<noteq> b_sgn), flags)
     else let
       x_exp = a_exp + b_exp - 110;
       x_mnt = ucast a_mnt * ucast b_mnt;
       (x_mnt, x_exp) = fp64_normalise x_mnt x_exp;
       x_mnt = lsr64 x_mnt 31 OR of_bool (lsl64 x_mnt 33 \<noteq> 0)
       in fp32_round (a_sgn \<noteq> b_sgn) x_exp (ucast x_mnt) mode flags)"

definition fp64_mul :: "64 word \<Rightarrow> 64 word \<Rightarrow> 32 word \<Rightarrow> 32 word \<Rightarrow> (64 word \<times> 32 word) option" where
  "fp64_mul a b mode flags = (let
     (a_sgn, a_exp, a_mnt, flags) = fp64_unpack a mode flags;
     (b_sgn, b_exp, b_mnt, flags) = fp64_unpack b mode flags;
     (x, flags) = fp64_process_NaNs a b mode flags
     in if x \<noteq> 0 then Some (x, flags)
     else if a_exp = 2047 \<and> b_mnt = 0 \<or> b_exp = 2047 \<and> a_mnt = 0 then Some (fp64_defaultNaN, flags OR FPLIB_IOC)
     else if a_exp = 2047 \<or> b_exp = 2047 then Some (fp64_infinity (a_sgn \<noteq> b_sgn), flags)
     else if a_mnt = 0 \<or> b_mnt = 0 then Some (fp64_zero (a_sgn \<noteq> b_sgn), flags)
     else let
       x_exp = a_exp + b_exp - 1000;
       (x0_mnt, x1_mnt) = mul62x62 a_mnt b_mnt;
       (x0_mnt, x1_mnt, x_exp) = fp128_normalise x0_mnt x1_mnt x_exp;
       x0_mnt = push_bit 1 x1_mnt OR of_bool (x0_mnt \<noteq> 0)
       in fp64_round (a_sgn \<noteq> b_sgn) x_exp x0_mnt mode flags)"

definition fp32_muladd ::
  "32 word \<Rightarrow> 32 word \<Rightarrow> 32 word \<Rightarrow> int \<Rightarrow> 32 word \<Rightarrow> 32 word \<Rightarrow> (32 word \<times> 32 word) option" where
  "fp32_muladd a b c scale mode flags = (let
     (a_sgn, a_exp, a_mnt, flags) = fp32_unpack a mode flags;
     (b_sgn, b_exp, b_mnt, flags) = fp32_unpack b mode flags;
     (c_sgn, c_exp, c_mnt, flags) = fp32_unpack c mode flags;
     (x, flags) = fp32_process_NaNs3 a b c mode flags;
     (x, flags) =
       (if a_exp = 255 \<and> drop_bit 22 a_mnt AND 1 \<noteq> 0 \<and>
           (b_mnt = 0 \<and> c_exp = 255 \<and> push_bit 9 c_mnt = 0 \<or> c_mnt = 0 \<and> b_exp = 255 \<and> push_bit 9 b_mnt = 0)
        then (fp32_defaultNaN, flags OR FPLIB_IOC) else (x, flags))
     in if x \<noteq> 0 then Some (x, flags)
     else if b_exp = 255 \<and> c_mnt = 0 \<or> c_exp = 255 \<and> b_mnt = 0 \<or>
             a_exp = 255 \<and> (b_exp = 255 \<or> c_exp = 255) \<and> a_sgn \<noteq> (b_sgn \<noteq> c_sgn)
       then Some (fp32_defaultNaN, flags OR FPLIB_IOC)
     else if a_exp = 255 then Some (fp32_infinity a_sgn, flags)
     else if b_exp = 255 \<or> c_exp = 255 then Some (fp32_infinity (b_sgn \<noteq> c_sgn), flags)
     else if a_mnt = 0 \<and> (b_mnt = 0 \<or> c_mnt = 0) \<and> a_sgn = (b_sgn \<noteq> c_sgn) then Some (fp32_zero a_sgn, flags)
     else let
       x_exp = a_exp + 13;
       x_mnt = push_bit 27 (ucast a_mnt :: 64 word);
       y_sgn = (b_sgn \<noteq> c_sgn);
       y_mnt = push_bit 3 (ucast b_mnt * ucast c_mnt);
       y_exp = (if y_mnt = 0 then x_exp else b_exp + c_exp - 113);
       (x_mnt, y_mnt, x_exp) =
         (if x_exp \<ge> y_exp then (x_mnt, align64 y_mnt (nat (x_exp - y_exp)), x_exp)
          else (align64 x_mnt (nat (y_exp - x_exp)), y_mnt, y_exp));
       (x_sgn, x_mnt) =
         (if a_sgn = y_sgn then (a_sgn, x_mnt + y_mnt)
          else if x_mnt \<ge> y_mnt then (a_sgn, x_mnt - y_mnt)
          else (\<not> a_sgn, y_mnt - x_mnt))
       in if x_mnt = 0 then Some (fp32_zero (mode AND 3 = 2), flags)
          else let
            (x_mnt, x_exp) = fp64_normalise x_mnt x_exp;
            x_mnt = drop_bit 31 x_mnt OR of_bool ((ucast (push_bit 1 x_mnt) :: 32 word) \<noteq> 0)
            in fp32_round x_sgn (x_exp + scale) (ucast x_mnt) mode flags)"

text \<open>The aligning shift of a 128-bit mantissa.\<close>

definition align128 :: "64 word \<Rightarrow> 64 word \<Rightarrow> nat \<Rightarrow> 64 word \<times> 64 word" where
  "align128 y0 y1 d = (let
     (t0, t1) = lsl128 y0 y1 (if d < 128 then 128 - d else 0);
     (y0, y1) = lsr128 y0 y1 d
     in (y0 OR of_bool (t0 OR t1 \<noteq> 0), y1))"

definition fp64_muladd ::
  "64 word \<Rightarrow> 64 word \<Rightarrow> 64 word \<Rightarrow> int \<Rightarrow> 32 word \<Rightarrow> 32 word \<Rightarrow> (64 word \<times> 32 word) option" where
  "fp64_muladd a b c scale mode flags = (let
     (a_sgn, a_exp, a_mnt, flags) = fp64_unpack a mode flags;
     (b_sgn, b_exp, b_mnt, flags) = fp64_unpack b mode flags;
     (c_sgn, c_exp, c_mnt, flags) = fp64_unpack c mode flags;
     (x, flags) = fp64_process_NaNs3 a b c mode flags;
     (x, flags) =
       (if a_exp = 2047 \<and> drop_bit 51 a_mnt AND 1 \<noteq> 0 \<and>
           (b_mnt = 0 \<and> c_exp = 2047 \<and> push_bit 12 c_mnt = 0 \<or> c_mnt = 0 \<and> b_exp = 2047 \<and> push_bit 12 b_mnt = 0)
        then (fp64_defaultNaN, flags OR FPLIB_IOC) else (x, flags))
     in if x \<noteq> 0 then Some (x, flags)
     else if b_exp = 2047 \<and> c_mnt = 0 \<or> c_exp = 2047 \<and> b_mnt = 0 \<or>
             a_exp = 2047 \<and> (b_exp = 2047 \<or> c_exp = 2047) \<and> a_sgn \<noteq> (b_sgn \<noteq> c_sgn)
       then Some (fp64_defaultNaN, flags OR FPLIB_IOC)
     else if a_exp = 2047 then Some (fp64_infinity a_sgn, flags)
     else if b_exp = 2047 \<or> c_exp = 2047 then Some (fp64_infinity (b_sgn \<noteq> c_sgn), flags)
     else if a_mnt = 0 \<and> (b_mnt = 0 \<or> c_mnt = 0) \<and> a_sgn = (b_sgn \<noteq> c_sgn) then Some (fp64_zero a_sgn, flags)
     else let
       x_exp = a_exp + 11;
       y_sgn = (b_sgn \<noteq> c_sgn);
       (y0_mnt, y1_mnt) = mul62x62 b_mnt (push_bit 3 c_mnt);
       y_exp = (if y0_mnt = 0 \<and> y1_mnt = 0 then x_exp else b_exp + c_exp - 1003);
       (x0_mnt, x1_mnt, y0_mnt, y1_mnt, x_exp) =
         (if x_exp \<ge> y_exp then (let (y0, y1) = align128 y0_mnt y1_mnt (nat (x_exp - y_exp)) in (0, a_mnt, y0, y1, x_exp))
          else (let (x0, x1) = align128 0 a_mnt (nat (y_exp - x_exp)) in (x0, x1, y0_mnt, y1_mnt, y_exp)));
       (x_sgn, x0_mnt, x1_mnt) =
         (if a_sgn = y_sgn then (a_sgn, add128 x0_mnt x1_mnt y0_mnt y1_mnt)
          else if cmp128 x0_mnt x1_mnt y0_mnt y1_mnt \<ge> 0 then (a_sgn, sub128 x0_mnt x1_mnt y0_mnt y1_mnt)
          else (\<not> a_sgn, sub128 y0_mnt y1_mnt x0_mnt x1_mnt))
       in if x0_mnt = 0 \<and> x1_mnt = 0 then Some (fp64_zero (mode AND 3 = 2), flags)
          else let
            (x0_mnt, x1_mnt, x_exp) = fp128_normalise x0_mnt x1_mnt x_exp;
            x0_mnt = push_bit 1 x1_mnt OR of_bool (x0_mnt \<noteq> 0)
            in fp64_round x_sgn (x_exp + scale) x0_mnt mode flags)"

subsection \<open>Division and square root\<close>

definition fp32_div :: "32 word \<Rightarrow> 32 word \<Rightarrow> 32 word \<Rightarrow> 32 word \<Rightarrow> (32 word \<times> 32 word) option" where
  "fp32_div a b mode flags = (let
     (a_sgn, a_exp, a_mnt, flags) = fp32_unpack a mode flags;
     (b_sgn, b_exp, b_mnt, flags) = fp32_unpack b mode flags;
     (x, flags) = fp32_process_NaNs a b mode flags
     in if x \<noteq> 0 then Some (x, flags)
     else if a_exp = 255 \<and> b_exp = 255 \<or> a_mnt = 0 \<and> b_mnt = 0 then Some (fp32_defaultNaN, flags OR FPLIB_IOC)
     else if a_exp = 255 \<or> b_mnt = 0 then
       Some (fp32_infinity (a_sgn \<noteq> b_sgn), if a_exp \<noteq> 255 then flags OR FPLIB_DZC else flags)
     else if a_mnt = 0 \<or> b_exp = 255 then Some (fp32_zero (a_sgn \<noteq> b_sgn), flags)
     else do {
       let (a_mnt, a_exp) = fp32_normalise a_mnt a_exp;
       let x_exp = a_exp - b_exp + 172;
       let n = push_bit 18 (ucast a_mnt :: 64 word);
       x_mnt \<leftarrow> div_c n (ucast b_mnt);
       let x_mnt = x_mnt OR of_bool (x_mnt * ucast b_mnt \<noteq> n);
       let (x_mnt, x_exp) = fp64_normalise x_mnt x_exp;
       let x_mnt = drop_bit 31 x_mnt OR of_bool ((ucast (push_bit 1 x_mnt) :: 32 word) \<noteq> 0);
       fp32_round (a_sgn \<noteq> b_sgn) x_exp (ucast x_mnt) mode flags
     })"

definition fp64_div :: "64 word \<Rightarrow> 64 word \<Rightarrow> 32 word \<Rightarrow> 32 word \<Rightarrow> (64 word \<times> 32 word) option" where
  "fp64_div a b mode flags = (let
     (a_sgn, a_exp, a_mnt, flags) = fp64_unpack a mode flags;
     (b_sgn, b_exp, b_mnt, flags) = fp64_unpack b mode flags;
     (x, flags) = fp64_process_NaNs a b mode flags
     in if x \<noteq> 0 then Some (x, flags)
     else if a_exp = 2047 \<and> b_exp = 2047 \<or> a_mnt = 0 \<and> b_mnt = 0 then Some (fp64_defaultNaN, flags OR FPLIB_IOC)
     else if a_exp = 2047 \<or> b_mnt = 0 then
       Some (fp64_infinity (a_sgn \<noteq> b_sgn), if a_exp \<noteq> 2047 then flags OR FPLIB_DZC else flags)
     else if a_mnt = 0 \<or> b_exp = 2047 then Some (fp64_zero (a_sgn \<noteq> b_sgn), flags)
     else do {
       let (a_mnt, a_exp) = fp64_normalise a_mnt a_exp;
       let (b_mnt, b_exp) = fp64_normalise b_mnt b_exp;
       x_mnt \<leftarrow> div_c (- 1) (drop_bit 31 b_mnt);
       let (x0_mnt, x1_mnt) = mul64x32 b_mnt (ucast x_mnt);
       let (x0_mnt, x1_mnt) = sub128 0 (push_bit 32 1) x0_mnt x1_mnt;
       let (x0_mnt, x1_mnt) = lsr128 x0_mnt x1_mnt 32;
       let (x0_mnt, x1_mnt) = mul64x32 x0_mnt (ucast x_mnt);
       let (x0_mnt, x1_mnt) = lsr128 x0_mnt x1_mnt 33;
       let x_exp = a_exp - b_exp + 1031;
       let (x0_mnt, x1_mnt) = mul62x62 x0_mnt (drop_bit 2 a_mnt);
       let (x0_mnt, x1_mnt) = lsr128 x0_mnt x1_mnt 4;
       let x_mnt = x1_mnt;
       let (x0_mnt, x1_mnt) = mul62x62 (drop_bit 2 b_mnt) (x_mnt + 1);
       let c = cmp128 x0_mnt x1_mnt 0 (drop_bit 11 a_mnt);
       let x_mnt = (if c \<le> 0 then x_mnt + 1 else x_mnt);
       let (x_mnt, x_exp) = fp64_normalise x_mnt x_exp;
       fp64_round (a_sgn \<noteq> b_sgn) x_exp (push_bit 1 x_mnt OR of_bool (c \<noteq> 0)) mode flags
     })"

definition fp32_sqrt :: "32 word \<Rightarrow> 32 word \<Rightarrow> 32 word \<Rightarrow> (32 word \<times> 32 word) option" where
  "fp32_sqrt a mode flags = (let
     (a_sgn, a_exp, a_mnt, flags) = fp32_unpack a mode flags
     in if a_exp = 255 \<and> push_bit 9 a_mnt \<noteq> 0 then Some (fp32_process_NaN a mode flags)
     else if a_mnt = 0 then Some (fp32_zero a_sgn, flags)
     else if a_exp = 255 \<and> \<not> a_sgn then Some (fp32_infinity a_sgn, flags)
     else if a_sgn then Some (fp32_defaultNaN, flags OR FPLIB_IOC)
     else do {
       let (a_mnt, a_exp) = fp32_normalise a_mnt a_exp;
       let (a_mnt, a_exp) = (if even a_exp then (drop_bit 1 a_mnt, a_exp + 1) else (a_mnt, a_exp));
       let x = drop_bit 2 a_mnt + drop_bit 3 a_mnt + push_bit 28 5;
       q \<leftarrow> div_c a_mnt (drop_bit 15 x);
       let x = push_bit 15 (q + drop_bit 16 x);
       q \<leftarrow> div_c a_mnt (drop_bit 15 x);
       let x = push_bit 15 (q + drop_bit 16 x);
       q \<leftarrow> div_c (push_bit 32 (ucast a_mnt :: 64 word)) (ucast x);
       let x = (ucast (drop_bit 2 q + ucast (drop_bit 1 x)) :: 32 word);
       let x_exp = (a_exp + 147) div 2;
       let x_mnt = drop_bit 6 (x - push_bit 5 1) + 1;
       let t1 = (ucast x_mnt * ucast x_mnt :: 64 word);
       let t0 = (push_bit 19 (ucast a_mnt) :: 64 word);
       let x_mnt = (if t1 > t0 then x_mnt - 1 else x_mnt);
       let (x_mnt, x_exp) = fp32_normalise x_mnt x_exp;
       fp32_round False x_exp (push_bit 1 x_mnt OR of_bool (t1 \<noteq> t0)) mode flags
     })"

definition fp64_sqrt :: "64 word \<Rightarrow> 32 word \<Rightarrow> 32 word \<Rightarrow> (64 word \<times> 32 word) option" where
  "fp64_sqrt a mode flags = (let
     (a_sgn, a_exp, a_mnt, flags) = fp64_unpack a mode flags
     in if a_exp = 2047 \<and> push_bit 12 a_mnt \<noteq> 0 then Some (fp64_process_NaN a mode flags)
     else if a_mnt = 0 then Some (fp64_zero a_sgn, flags)
     else if a_exp = 2047 \<and> \<not> a_sgn then Some (fp64_infinity a_sgn, flags)
     else if a_sgn then Some (fp64_defaultNaN, flags OR FPLIB_IOC)
     else do {
       let (a_mnt, a_exp) = fp64_normalise a_mnt a_exp;
       let (a_mnt, a_exp) = (if odd a_exp then (drop_bit 1 a_mnt, a_exp + 1) else (a_mnt, a_exp));
       let x = (ucast (drop_bit 34 a_mnt + drop_bit 35 a_mnt + push_bit 28 5) :: 32 word);
       q \<leftarrow> div_c (drop_bit 32 a_mnt) (ucast (drop_bit 15 x));
       let x = (ucast (push_bit 15 (q + ucast (drop_bit 16 x))) :: 32 word);
       q \<leftarrow> div_c (drop_bit 32 a_mnt) (ucast (drop_bit 15 x));
       let x = (ucast (push_bit 15 (q + ucast (drop_bit 16 x))) :: 32 word);
       q \<leftarrow> div_c a_mnt (ucast x);
       let x = (ucast (drop_bit 2 q + ucast (drop_bit 1 x)) :: 32 word);
       r \<leftarrow> div_c (push_bit 62 1) (ucast x :: 64 word);
       let (x0, x1) = mul64x32 (push_bit 1 (- ucast x * r)) (ucast r);
       let (x0, x1) = lsr128 x0 x1 31;
       let (x0, x1) = mul62x62 (drop_bit 10 a_mnt) (drop_bit 2 x0);
       let (x0, x1) = lsl128 x0 x1 5;
       let (x0, x1) = lsr128 x0 x1 56;
       let x0 = push_bit 31 (ucast x) + drop_bit 1 x0;
       let x_exp = (a_exp + 1053) div 2;
       let x_mnt = drop_bit 9 (x0 - push_bit 8 1) + 1;
       let (x0, x1) = mul62x62 x_mnt x_mnt;
       let (x0, x1) = lsl128 x0 x1 19;
       let c = cmp128 x0 x1 0 a_mnt;
       let x_mnt = (if c > 0 then x_mnt - 1 else x_mnt);
       let (x_mnt, x_exp) = fp64_normalise x_mnt x_exp;
       fp64_round False x_exp (push_bit 1 x_mnt OR of_bool (c \<noteq> 0)) mode flags
     })"

subsection \<open>Integers to floats\<close>

definition fp32_cvtf :: "64 word \<Rightarrow> int \<Rightarrow> bool \<Rightarrow> 32 word \<Rightarrow> 32 word \<Rightarrow> (32 word \<times> 32 word) option" where
  "fp32_cvtf a fbits u mode flags = (let
     x_sgn = (\<not> u \<and> drop_bit 63 a \<noteq> 0);
     x_exp = 190 - fbits;
     x_mnt = (if x_sgn then - a else a)
     in if x_mnt = 0 then Some (fp32_zero False, flags)
     else let
       (x_mnt, x_exp) = fp64_normalise x_mnt x_exp;
       x_mnt = drop_bit 31 x_mnt OR of_bool ((ucast (push_bit 1 x_mnt) :: 32 word) \<noteq> 0)
       in fp32_round x_sgn x_exp (ucast x_mnt) mode flags)"

definition fp64_cvtf :: "64 word \<Rightarrow> int \<Rightarrow> bool \<Rightarrow> 32 word \<Rightarrow> 32 word \<Rightarrow> (64 word \<times> 32 word) option" where
  "fp64_cvtf a fbits u mode flags = (let
     x_sgn = (\<not> u \<and> drop_bit 63 a \<noteq> 0);
     x_exp = 1024 + 62 - fbits;
     x_mnt = (if x_sgn then - a else a)
     in if x_mnt = 0 then Some (fp64_zero False, flags)
     else let (x_mnt, x_exp) = fp64_normalise x_mnt x_exp
       in fp64_round x_sgn x_exp (push_bit 1 x_mnt) mode flags)"

end
