(* ===== verification/TiC_FP_Spec.thy ===== *)
theory TiC_FP_Spec
  imports TiC_FP_Core Complex_Main
begin

text \<open>
  What correct rounding means, independent of any word length. A magnitude \<open>y\<close> is measured in units of the least
  subnormal number of the format; \<open>P\<close> is the number of fraction bits and \<open>E\<close> the exponent field of infinity, so that the bit
  pattern of a non-negative number with exponent field at least one below and significand \<open>n\<close> is \<open>(e - 1) * 2 ^ P + n\<close>.

  The code carries a number as an integer whose lowest bit is set when a non-zero part was shifted out. The predicate
  \<open>sticky\<close> relates such an integer to the real number it stands for, and \<open>jam\<close> is the shift that keeps this relation.
\<close>

subsection \<open>Shifting with a sticky bit\<close>

definition jam :: "nat \<Rightarrow> nat \<Rightarrow> nat" where
  "jam M d = (M div 2 ^ d) OR of_bool (M mod 2 ^ d \<noteq> 0)"

definition sticky :: "nat \<Rightarrow> real \<Rightarrow> bool" where
  "sticky M v \<longleftrightarrow> v = real M \<or> odd M \<and> real M - 1 < v \<and> v < real M + 1"

lemma jam_eq: "jam M d = M div 2 ^ d + of_bool (M mod 2 ^ d \<noteq> 0 \<and> even (M div 2 ^ d))"
  by (auto simp: jam_def or_one_eq [where ?'a = nat, unfolded One_nat_def])

lemma jam_0 [simp]: "jam M 0 = M"
  by (simp add: jam_eq)

lemma sticky_exact: "sticky M (real M)"
  by (simp add: sticky_def)

lemma sticky_jam:
  assumes "sticky M v"
  shows "sticky (jam M d) (v / 2 ^ d)"
proof (cases "d = 0")
  case True
  then show ?thesis using assms by simp
next
  case False
  let ?k = "M div 2 ^ d" and ?r = "M mod 2 ^ d"
  have "real (?k * 2 ^ d + ?r) = real M" by (simp only: div_mult_mod_eq)
  then have M: "real M = real ?k * 2 ^ d + real ?r" by (simp only: of_nat_add of_nat_mult of_nat_power of_nat_numeral)
  show ?thesis
  proof (cases "?r = 0")
    case True
    then have "2 ^ d dvd M" by (simp only: dvd_eq_mod_eq_0)
    moreover have "2 dvd (2 ^ d :: nat)" using False by simp
    ultimately have "even M" by (rule dvd_trans [rotated])
    then have "v = real M" using assms by (auto simp: sticky_def)
    then show ?thesis using True M by (simp add: jam_eq sticky_def)
  next
    case r: False
    have "1 \<le> ?r" "?r + 1 \<le> 2 ^ d" using r by (simp_all add: Suc_le_eq)
    then have "real 1 \<le> real ?r" "real (?r + 1) \<le> real (2 ^ d)" by (simp_all only: of_nat_le_iff)
    then have "real ?k * 2 ^ d < v" "v < (real ?k + 1) * 2 ^ d"
      using assms M by (auto simp: sticky_def algebra_simps)
    then have "real ?k < v / 2 ^ d" "v / 2 ^ d < real ?k + 1" by (simp_all add: field_simps)
    then show ?thesis using r by (auto simp: jam_eq sticky_def)
  qed
qed

lemma jam_jam: "jam (jam M a) b = jam M (a + b)"
proof (cases "b = 0")
  case False
  let ?k = "M div 2 ^ a" and ?r = "M mod 2 ^ a"
  let ?s = "of_bool (?r \<noteq> 0 \<and> even ?k) :: nat"
  let ?k2 = "?k div 2 ^ b" and ?r2 = "?k mod 2 ^ b"
  have par: "even ?r2 = even ?k" using False by (simp add: dvd_mod_iff)
  have lt: "?r2 < 2 ^ b" by simp
  have ne: "?r2 + 1 \<noteq> 2 ^ b" if "even ?k"
  proof
    assume "?r2 + 1 = 2 ^ b"
    moreover have "even (2 ^ b :: nat)" using False by simp
    ultimately have "even (?r2 + 1)" by (simp only:)
    with that par show False by simp
  qed
  have less: "?r2 + ?s < 2 ^ b"
  proof (cases "even ?k \<and> ?r \<noteq> 0")
    case True
    then have "?s = 1" "?r2 + 1 \<noteq> 2 ^ b" using ne by simp_all
    then show ?thesis using lt by linarith
  next
    case False
    then have "?s = 0" by (auto simp: of_bool_def)
    then show ?thesis using lt by (simp only: add_0_right)
  qed
  have "?k = ?r2 + ?k2 * 2 ^ b" by (rule mod_div_mult_eq [symmetric])
  then have eq: "?k + ?s = (?r2 + ?s) + ?k2 * 2 ^ b" by linarith
  have k1: "(?k + ?s) div 2 ^ b = ?k2" unfolding eq using div_mult_self1 [of "2 ^ b" "?r2 + ?s" ?k2] div_less [OF less] by (simp only: power_not_zero) simp
  have k2: "(?k + ?s) mod 2 ^ b = ?r2 + ?s" unfolding eq mod_mult_self1 by (rule mod_less [OF less])
  have M: "M div 2 ^ (a + b) = ?k2" "M mod 2 ^ (a + b) = 2 ^ a * ?r2 + ?r"
    by (simp_all add: power_add div_mult2_eq mod_mult2_eq)
  have st: "(?r2 + ?s \<noteq> 0) = (2 ^ a * ?r2 + ?r \<noteq> 0)"
  proof (cases "even ?k")
    case False
    then have "?r2 \<noteq> 0" using par by (auto dest: odd_pos)
    then show ?thesis by simp
  qed simp
  show ?thesis unfolding jam_eq [of "jam M a" b] jam_eq [of M "a + b"] unfolding jam_eq [of M a] k1 k2 M st ..
qed simp

lemma jam_scale: "s \<le> d \<Longrightarrow> jam (M * 2 ^ s) d = jam M (d - s)"
proof -
  assume "s \<le> d"
  then have d: "2 ^ d = 2 ^ (d - s) * (2 ^ s :: nat)" by (simp flip: power_add)
  have "M * 2 ^ s div 2 ^ d = M div 2 ^ (d - s)" "M * 2 ^ s mod 2 ^ d = M mod 2 ^ (d - s) * 2 ^ s" unfolding d
    by (simp_all only: div_mult_mult2 mod_mult_mult2) (simp_all add: div_mult_mult2)
  then show ?thesis by (simp add: jam_eq)
qed

lemma jam_bounds: "a * 2 ^ d \<le> M \<Longrightarrow> a \<le> jam M d" "M < b * 2 ^ d \<Longrightarrow> even b \<Longrightarrow> jam M d < b"
proof -
  assume "a * 2 ^ d \<le> M"
  then show "a \<le> jam M d" by (simp add: jam_eq less_eq_div_iff_mult_less_eq trans_le_add1)
next
  assume "M < b * 2 ^ d" "even b"
  then have "M div 2 ^ d < b" by (simp add: div_less_iff_less_mult)
  moreover have "Suc (M div 2 ^ d) \<noteq> b" if "even (M div 2 ^ d)" using that \<open>even b\<close> by auto
  ultimately show "jam M d < b" unfolding jam_eq by (cases "M mod 2 ^ d \<noteq> 0 \<and> even (M div 2 ^ d)") (simp_all add: Suc_lessI)
qed

subsection \<open>Correct rounding\<close>

text \<open>A non-negative real rounded to an integer, \<open>sn\<close> being the sign of the number it is the magnitude of.\<close>

definition round_int :: "32 word \<Rightarrow> bool \<Rightarrow> real \<Rightarrow> nat" where
  "round_int rm sn v = (let n = nat \<lfloor>v\<rfloor>; r = v - real n in n + of_bool (
     rm = FPLIB_RN \<and> (1 / 2 < r \<or> r = 1 / 2 \<and> odd n) \<or>
     (rm = FPLIB_RP \<and> \<not> sn \<or> rm = FPLIB_RM \<and> sn) \<and> r \<noteq> 0 \<or>
     rm = FPRounding_ODD \<and> r \<noteq> 0 \<and> even n))"

text \<open>The exponent field that a magnitude of normal size gets; 1 below.\<close>

definition ieee_exp :: "nat \<Rightarrow> real \<Rightarrow> nat" where
  "ieee_exp P y = (LEAST e. 1 \<le> e \<and> y < 2 ^ (e + P))"

definition ieee_bits :: "nat \<Rightarrow> 32 word \<Rightarrow> bool \<Rightarrow> real \<Rightarrow> nat" where
  "ieee_bits P rm sn y = (let e = ieee_exp P y in (e - 1) * 2 ^ P + round_int rm sn (y / 2 ^ (e - 1)))"

definition ieee_round :: "nat \<Rightarrow> nat \<Rightarrow> 32 word \<Rightarrow> bool \<Rightarrow> real \<Rightarrow> nat" where
  "ieee_round P E rm sn y =
     (if E * 2 ^ P \<le> ieee_bits P rm sn y then (if overflow_to_inf rm sn then E * 2 ^ P else E * 2 ^ P - 1)
      else ieee_bits P rm sn y)"

text \<open>The exceptions: overflow, inexact result, and underflow of an inexact result below the normal numbers.\<close>

definition ieee_flags :: "nat \<Rightarrow> nat \<Rightarrow> 32 word \<Rightarrow> bool \<Rightarrow> real \<Rightarrow> 32 word" where
  "ieee_flags P E rm sn y = (let
     exact = (y / 2 ^ (ieee_exp P y - 1) \<in> \<nat>);
     under = (if y < 2 ^ P \<and> \<not> exact then FPLIB_UFC else 0)
     in if E * 2 ^ P \<le> ieee_bits P rm sn y then FPLIB_OFC OR FPLIB_IXC
        else if exact then 0 else under OR FPLIB_IXC)"

lemma ieee_exp_eq:
  assumes "1 \<le> e" "y < 2 ^ (e + P)" "e = 1 \<or> 2 ^ (e - 1 + P) \<le> y"
  shows "ieee_exp P y = e"
  unfolding ieee_exp_def
proof (rule Least_equality)
  show "1 \<le> e \<and> y < 2 ^ (e + P)" using assms by simp
next
  fix e' assume e': "1 \<le> e' \<and> y < 2 ^ (e' + P)"
  show "e \<le> e'"
  proof (rule ccontr)
    assume "\<not> e \<le> e'"
    then have "e' + P \<le> e - 1 + P" "e \<noteq> 1" using e' by auto
    then have "(2::real) ^ (e' + P) \<le> 2 ^ (e - 1 + P)" by (intro power_increasing) simp_all
    with e' assms(3) \<open>e \<noteq> 1\<close> show False by linarith
  qed
qed

text \<open>The decision of the code, from the two bits behind the integer.\<close>

definition round_inc :: "32 word \<Rightarrow> bool \<Rightarrow> nat \<Rightarrow> nat \<Rightarrow> bool" where
  "round_inc rm sn err n \<longleftrightarrow>
     rm = FPLIB_RN \<and> (err = 3 \<or> err = 2 \<and> odd n) \<or>
     (rm = FPLIB_RP \<and> \<not> sn \<or> rm = FPLIB_RM \<and> sn) \<and> err \<noteq> 0 \<or>
     rm = FPRounding_ODD \<and> err \<noteq> 0 \<and> even n"

lemma sticky_quarter:
  assumes "sticky M v"
  obtains (exact) "M mod 4 = 0" "v / 4 = real (M div 4)"
  | (low) "M mod 4 = 1" "real (M div 4) < v / 4" "v / 4 < real (M div 4) + 1 / 2"
  | (half) "M mod 4 = 2" "v / 4 = real (M div 4) + 1 / 2"
  | (high) "M mod 4 = 3" "real (M div 4) + 1 / 2 < v / 4" "v / 4 < real (M div 4) + 1"
proof -
  have "real (4 * (M div 4) + M mod 4) = real M" by (simp only: mult_div_mod_eq)
  then have M: "real M = 4 * real (M div 4) + real (M mod 4)" by (simp only: of_nat_add of_nat_mult of_nat_numeral)
  have "M mod 4 < 4" by simp
  then consider "M mod 4 = 0" | "M mod 4 = 1" | "M mod 4 = 2" | "M mod 4 = 3" by linarith
  then show thesis
  proof cases
    case 1
    then have "even M" by presburger
    then show thesis using 1 M assms by (intro exact) (auto simp: sticky_def)
  next
    case 2
    then show thesis using M assms by (intro low) (auto simp: sticky_def)
  next
    case 3
    then have "even M" by presburger
    then show thesis using 3 M assms by (intro half) (auto simp: sticky_def)
  next
    case 4
    then show thesis using M assms by (intro high) (auto simp: sticky_def)
  qed
qed

lemma floor_between: "real n \<le> v \<Longrightarrow> v < real n + 1 \<Longrightarrow> nat \<lfloor>v\<rfloor> = n"
  using floor_unique [of "int n" v] by simp

lemma round_int_sticky:
  assumes "sticky M v"
  shows "round_int rm sn (v / 4) = M div 4 + of_bool (round_inc rm sn (M mod 4) (M div 4))"
    and "v / 4 \<in> \<nat> \<longleftrightarrow> M mod 4 = 0"
proof -
  define n e where "n = M div 4" and "e = M mod 4"
  define w where "w = v / 4"
  consider "e = 0" "w = real n" | "e = 1" "real n < w" "w < real n + 1 / 2" | "e = 2" "w = real n + 1 / 2"
    | "e = 3" "real n + 1 / 2 < w" "w < real n + 1"
    using sticky_quarter [OF assms] unfolding n_def e_def w_def by metis
  note cases = this
  have floor: "nat \<lfloor>w\<rfloor> = n" by (rule cases; intro floor_between; simp)
  have "(1 / 2 < w - real n) = (e = 3)" by (rule cases) simp_all
  moreover have "(w - real n = 1 / 2) = (e = 2)" by (rule cases) simp_all
  moreover have "(w - real n \<noteq> 0) = (e \<noteq> 0)" by (rule cases) simp_all
  ultimately show "round_int rm sn (v / 4) = M div 4 + of_bool (round_inc rm sn (M mod 4) (M div 4))"
    unfolding n_def [symmetric] e_def [symmetric] w_def [symmetric] round_int_def Let_def floor round_inc_def by (simp only:)
  have ni: "w \<notin> \<nat>" if "real n < w" "w < real n + 1"
  proof
    assume "w \<in> \<nat>"
    then obtain k where "w = real k" by (auto simp: Nats_def)
    with that have "real n < real k" "real k < real (n + 1)" by simp_all
    then show False by (simp only: of_nat_less_iff)
  qed
  have "w \<in> \<nat> \<longleftrightarrow> e = 0" by (rule cases; use ni in simp)
  then show "v / 4 \<in> \<nat> \<longleftrightarrow> M mod 4 = 0" by (simp only: e_def w_def)
qed

subsection \<open>Rounding a normalised mantissa\<close>

lemma powi_nat: "(2::real) powi (k - int n) = 2 powi k / 2 ^ n" "(2::real) powi (k + int n) = 2 powi k * 2 ^ n" "(2::real) powi int n = 2 ^ n"
  by (simp_all add: power_int_diff power_int_add)

lemma sticky_bounds:
  assumes "sticky M v" "even a" "even b" "a \<le> M" "M < b"
  shows "real a \<le> v" "v < real b"
proof -
  have "real a \<le> v \<and> v < real b"
  proof (cases "odd M")
    case True
    then have "a + 1 \<le> M" "M + 1 \<le> b" using assms(2-5) by (auto simp: le_less Suc_le_eq)
    then have "real (a + 1) \<le> real M" "real (M + 1) \<le> real b" by (simp_all only: of_nat_le_iff)
    then show ?thesis using assms(1) unfolding sticky_def by auto
  next
    case False
    then show ?thesis using assms(1,4,5) by (simp add: sticky_def)
  qed
  then show "real a \<le> v" "v < real b" by simp_all
qed

text \<open>The integer that the rounding functions split into a significand and two more bits.\<close>

definition rounding_bits :: "nat \<Rightarrow> int \<Rightarrow> nat \<Rightarrow> nat" where
  "rounding_bits J ex M = (if ex > 0 then jam M J else jam (jam M J) (nat (1 - ex)))"

lemma rounding_bits_spec:
  fixes v :: real
  assumes "2 ^ (P + J + 2) \<le> M" "M < 2 ^ (P + J + 3)" "sticky (jam M J) (v / 2 ^ J)"
    and y: "y = v * 2 powi (ex - 3 - int J)" and B: "B = rounding_bits J ex M"
  shows "ieee_exp P y = nat (max ex 1)"
    and "round_int rm sn (y / 2 ^ (nat (max ex 1) - 1)) = B div 4 + of_bool (round_inc rm sn (B mod 4) (B div 4))"
    and "y / 2 ^ (nat (max ex 1) - 1) \<in> \<nat> \<longleftrightarrow> B mod 4 = 0"
    and "y < 2 ^ P \<longleftrightarrow> ex \<le> 0"
proof -
  define w where "w = v / 2 ^ J"
  have "2 ^ (P + 2) * 2 ^ J \<le> M" "M < 2 ^ (P + 3) * 2 ^ J" using assms(1,2) by (simp_all add: power_add mult_ac)
  then have "2 ^ (P + 2) \<le> jam M J" "jam M J < 2 ^ (P + 3)" by (simp_all add: jam_bounds)
  then have w: "2 ^ (P + 2) \<le> w" "w < 2 ^ (P + 3)"
    using sticky_bounds [OF assms(3), of "2 ^ (P + 2)" "2 ^ (P + 3)"] by (simp_all add: w_def)
  have v: "v = w * 2 ^ J" by (simp add: w_def)
  have y_w: "y = w / 4 * 2 powi (ex - 1)"
  proof -
    have "(2::real) powi (ex - 3 - int J) * 2 ^ J = 2 powi (ex - 3)" by (simp flip: power_int_of_nat add: power_int_add [symmetric])
    moreover have "(2::real) powi (ex - 3) = 2 powi (ex - 1) / 4" by (simp add: power_int_diff)
    ultimately show ?thesis unfolding y v by (metis mult.assoc mult.commute times_divide_eq_right times_divide_eq_left)
  qed
  have "ieee_exp P y = nat (max ex 1) \<and> (\<exists>z. sticky B z \<and> y / 2 ^ (nat (max ex 1) - 1) = z / 4) \<and> (y < 2 ^ P \<longleftrightarrow> ex \<le> 0)"
  proof (cases "ex > 0")
    case True
    define k where "k = nat (ex - 1)"
    have k: "nat (max ex 1) = Suc k" "(2::real) powi (ex - 1) = 2 ^ k" using True by (simp_all add: k_def power_int_def)
    have y_k: "y = w / 4 * 2 ^ k" unfolding y_w k(2) ..
    have "2 ^ P * 2 ^ k \<le> y" "y < 2 ^ (P + 1) * 2 ^ k" using w unfolding y_k by (intro mult_right_mono mult_strict_right_mono; simp add: power_add)+
    then have y: "2 ^ (k + P) \<le> y" "y < 2 ^ (Suc k + P)" by (simp_all add: power_add mult_ac)
    moreover have "(2::real) ^ P \<le> 2 ^ (k + P)" by (intro power_increasing) simp_all
    ultimately have "y < 2 ^ P \<longleftrightarrow> ex \<le> 0" using True by linarith
    moreover have "ieee_exp P y = Suc k" using y by (intro ieee_exp_eq) simp_all
    moreover have "sticky B w" using assms(3) True by (simp add: B rounding_bits_def w_def)
    moreover have "y / 2 ^ (Suc k - 1) = w / 4" unfolding y_k by simp
    ultimately show ?thesis unfolding k(1) by (intro conjI exI [of _ w])
  next
    case False
    define d where "d = nat (1 - ex)"
    have d: "nat (max ex 1) = 1" "(2::real) powi (ex - 1) = 1 / 2 ^ d" "1 \<le> d"
      using False by (auto simp: d_def power_int_def field_simps)
    have y_d: "y = w / 2 ^ d / 4" unfolding y_w d(2) by simp
    have "(2::real) ^ 1 \<le> 2 ^ d" using d(3) by (intro power_increasing) simp_all
    then have "(2::real) ^ 1 * 2 ^ (P + 2) \<le> 2 ^ d * 2 ^ (P + 2)" by (rule mult_right_mono) simp
    moreover have "(2::real) ^ 1 * 2 ^ (P + 2) = 2 ^ (P + 3)" by (simp add: power_add)
    ultimately have "w < 2 ^ d * 2 ^ (P + 2)" using w(2) by linarith
    then have y: "y < 2 ^ P" unfolding y_d by (simp add: field_simps power_add)
    have "(2::real) ^ P \<le> 2 ^ (1 + P)" by (intro power_increasing) simp_all
    with y have "y < 2 ^ (1 + P)" by linarith
    then have "ieee_exp P y = 1" by (intro ieee_exp_eq) simp_all
    moreover have "sticky B (w / 2 ^ d)" using sticky_jam [OF assms(3), of d] False by (simp add: B rounding_bits_def w_def d_def)
    moreover have "y / 2 ^ (1 - 1) = w / 2 ^ d / 4" unfolding y_d by simp
    moreover have "ex \<le> 0" using False by simp
    ultimately show ?thesis unfolding d(1) using y by (intro conjI exI [of _ "w / 2 ^ d"] iffI)
  qed
  then obtain z where z: "ieee_exp P y = nat (max ex 1)" "sticky B z" "y / 2 ^ (nat (max ex 1) - 1) = z / 4" "y < 2 ^ P \<longleftrightarrow> ex \<le> 0"
    by (elim conjE exE)
  show "ieee_exp P y = nat (max ex 1)" "y < 2 ^ P \<longleftrightarrow> ex \<le> 0" using z by simp_all
  show "round_int rm sn (y / 2 ^ (nat (max ex 1) - 1)) = B div 4 + of_bool (round_inc rm sn (B mod 4) (B div 4))"
    "y / 2 ^ (nat (max ex 1) - 1) \<in> \<nat> \<longleftrightarrow> B mod 4 = 0"
    unfolding z(3) by (rule round_int_sticky [OF z(2)])+
qed

end
