(* ===== verification/TiC_FP_Format.thy ===== *)
theory TiC_FP_Format
  imports TiC_FP_Spec
begin

text \<open>
  Packing and rounding of one binary format. The locale collects how the code of a precision is written, with the number \<open>P\<close>
  of fraction bits and \<open>J\<close> of exponent bits less one as parameters; single and double precision interpret it, so that every
  lemma below holds for the functions of both.
\<close>

subsection \<open>Words and numbers\<close>

lemma lsr_eq: "lsr16 x n = drop_bit n x" "lsr32 y n = drop_bit n y" "lsr64 z n = drop_bit n z"
  by (auto simp: lsr16_def lsr32_def lsr64_def bit_drop_bit_eq dest: bit_imp_le_length intro!: bit_word_eqI)

lemma lsl_eq: "lsl16 x n = push_bit n x" "lsl32 y n = push_bit n y" "lsl64 z n = push_bit n z"
  by (auto simp: lsl16_def lsl32_def lsl64_def bit_push_bit_iff intro!: bit_word_eqI)

lemma bit_nat_le: "bit (k::nat) i \<Longrightarrow> 2 ^ i \<le> k"
  by (metis bit_iff_odd div_less even_zero not_le)

lemma bit_nat_less: "bit (k::nat) i \<Longrightarrow> k < 2 ^ n \<Longrightarrow> i < n"
  using bit_nat_le [of k i] by (metis le_less_trans nat_power_less_imp_less numeral_2_eq_2 zero_less_Suc)

lemma unat_drop [simp]: "unat (drop_bit n (w :: 'a::len word)) = unat w div 2 ^ n"
  unfolding drop_bit_eq_div [symmetric, where ?'a = nat]
  by (rule bit_eqI) (auto simp: bit_unsigned_iff bit_drop_bit_eq dest: bit_imp_le_length)

lemma unat_and_mask: "unat (w AND mask n) = unat (w :: 'a::len word) mod 2 ^ n"
  by (simp only: take_bit_eq_mask [symmetric] unsigned_take_bit_eq take_bit_eq_mod [where ?'a = nat])

lemma unat_or_disjoint:
  fixes a b :: "'a::len word"
  assumes "\<And>i. \<not> bit a i \<or> \<not> bit b i"
  shows "unat (a OR b) = unat a + unat b"
  by (subst disjunctive_add) (use assms in \<open>auto simp: unsigned_or_eq bit_unsigned_iff\<close>)

lemma unat_push_small:
  assumes "unat (w :: 'a::len word) * 2 ^ n < 2 ^ LENGTH('a)"
  shows "unat (push_bit n w) = unat w * 2 ^ n"
  using assms by (simp only: unsigned_push_bit_eq push_bit_eq_mult [where ?'a = nat] take_bit_nat_eq_self)

lemma unat_or_bool: "unat (w OR of_bool b) = unat (w :: 'a::len word) + of_bool (b \<and> even (unat w))"
  by (cases b) (auto simp: unsigned_or_eq or_one_eq [where ?'a = nat, unfolded One_nat_def])

lemma bit_word_of_nat: "bit (word_of_nat k :: 'a::len word) i \<longleftrightarrow> i < LENGTH('a) \<and> bit k i"
proof -
  have "bit (word_of_nat k :: 'a word) i \<longleftrightarrow> bit (unat (word_of_nat k :: 'a word)) i" by (auto simp: bit_unsigned_iff)
  then show ?thesis by (simp add: unsigned_of_nat bit_take_bit_iff)
qed

lemma bit_word_less: "bit (w :: 'a::len word) i \<Longrightarrow> unat w < 2 ^ n \<Longrightarrow> i < n"
  by (rule bit_nat_less [of "unat w"]) (auto simp: bit_unsigned_iff)

lemma unat_inj_iff: "(a :: 'a::len word) = b \<longleftrightarrow> unat a = unat b"
  by (auto intro: unsigned_word_eqI)

lemma mult_le_add_iff: "u < (p::nat) \<Longrightarrow> E * p \<le> b * p + u \<longleftrightarrow> E \<le> b"
proof
  assume u: "u < p" and "E * p \<le> b * p + u"
  moreover have "(b + 1) * p = b * p + p" by simp
  ultimately have "E * p < (b + 1) * p" by linarith
  then have "E < b + 1" by (rule mult_less_cancel2 [THEN iffD1, THEN conjunct2])
  then show "E \<le> b" by simp
qed (simp add: trans_le_add1)

lemma jam_div_4: "jam M d div 4 = M div 2 ^ (d + 2)"
proof -
  have "(k + of_bool (b \<and> even k)) div 4 = k div 4" for k :: nat and b
  proof (cases "b \<and> even k")
    case True
    then have "even k" by simp
    then have "(k + 1) div 4 = k div 4" by presburger
    with True show ?thesis by simp
  qed auto
  then have "jam M d div 4 = M div 2 ^ d div 4" by (simp add: jam_eq)
  then show ?thesis by (simp add: power_add div_mult2_eq [symmetric] mult.commute)
qed

subsection \<open>A format\<close>

locale fp_format =
  fixes P J :: nat and round_mask :: "'w::len word"
    and pack :: "'w word \<Rightarrow> 'w word \<Rightarrow> 'w word \<Rightarrow> 'w word"
    and zero infinity max_normal :: "bool \<Rightarrow> 'w word"
    and round_rm :: "bool \<Rightarrow> int \<Rightarrow> 'w word \<Rightarrow> 32 word \<Rightarrow> 32 word \<Rightarrow> 32 word \<Rightarrow> ('w word \<times> 32 word) option"
  assumes width: "LENGTH('w) = P + J + 2" and sizes: "3 \<le> J" "J \<le> P"
    and round_mask: "round_mask = mask J \<or> round_mask = mask (J + 1)"
    and pack_eq: "pack s e m = push_bit (LENGTH('w) - 1) s OR push_bit P e OR (m AND mask P)"
    and zero_eq: "zero sn = pack (of_bool sn) 0 0"
    and infinity_eq: "infinity sn = pack (of_bool sn) (word_of_nat (2 ^ (J + 1) - 1)) 0"
    and max_normal_eq: "max_normal sn = pack (of_bool sn) (word_of_nat (2 ^ (J + 1) - 2)) (- 1)"
    and round_eq: "round_rm sn ex mnt rm mode flags = do {
      assert_c (rm \<noteq> FPRounding_TIEAWAY);
      if mode AND FPLIB_FZ \<noteq> 0 \<and> ex < 1 then Some (zero sn, flags OR FPLIB_UFC)
      else do {
        let mnt = push_bit (P + 2) 1 OR drop_bit J mnt OR of_bool (mnt AND round_mask \<noteq> 0);
        let (biased_exp, int_mant, error) =
          (if ex > 0 then (ex, drop_bit 2 mnt, mnt AND 3)
           else (0, drop_bit (nat (3 - ex)) mnt,
             (drop_bit (nat (1 - ex)) mnt AND 3) OR of_bool (mnt AND (push_bit (nat (1 - ex)) 1 - 1) \<noteq> 0)));
        let flags = (if biased_exp = 0 \<and> error \<noteq> 0 then flags OR FPLIB_UFC else flags);
        let (biased_exp, int_mant) =
          (if round_up rm sn error int_mant then (let
             int_mant = int_mant + 1;
             biased_exp = (if int_mant = push_bit P 1 then 1 else biased_exp)
             in if int_mant = push_bit (P + 1) 1 then (biased_exp + 1, drop_bit 1 int_mant) else (biased_exp, int_mant))
           else (biased_exp, int_mant));
        let int_mant = (if error \<noteq> 0 \<and> rm = FPRounding_ODD then int_mant OR 1 else int_mant);
        if biased_exp \<ge> 2 ^ (J + 1) - 1 then
          Some (if overflow_to_inf rm sn then infinity sn else max_normal sn, flags OR FPLIB_OFC OR FPLIB_IXC)
        else Some (pack (of_bool sn) (word_of_int biased_exp) int_mant, if error \<noteq> 0 then flags OR FPLIB_IXC else flags)
      }
    }"
begin

lemma pow_le: "i \<le> P + J + 1 \<Longrightarrow> unat (push_bit i (1 :: 'w word)) = 2 ^ i"
  by (subst unat_push_small) (simp_all add: width power_strict_increasing flip: power_Suc)

lemma unat_pack:
  assumes "e < 2 ^ (J + 1)"
  shows "unat (pack (of_bool sn) (word_of_nat e) m) = of_bool sn * 2 ^ (P + J + 1) + e * 2 ^ P + unat m mod 2 ^ P"
proof -
  have W: "LENGTH('w) - 1 = P + J + 1" using width by simp
  have e: "bit (word_of_nat e :: 'w word) i \<Longrightarrow> i < J + 1" for i
    using bit_nat_less [OF _ assms] by (simp add: bit_word_of_nat)
  have 1: "\<not> bit (push_bit (LENGTH('w) - 1) (of_bool sn) :: 'w word) i \<or> \<not> bit (push_bit P (word_of_nat e :: 'w word)) i" for i
    unfolding W by (auto simp: bit_push_bit_iff dest!: e)
  have 2: "\<not> bit (push_bit (LENGTH('w) - 1) (of_bool sn) OR push_bit P (word_of_nat e :: 'w word)) i \<or> \<not> bit (m AND mask P) i" for i
    unfolding W by (auto simp: bit_push_bit_iff bit_or_iff bit_and_iff bit_mask_iff)
  have "e * 2 ^ P < 2 ^ (J + 1) * 2 ^ P" using assms by simp
  also have "\<dots> \<le> 2 ^ LENGTH('w)" by (simp add: width power_add mult_ac)
  finally have e2: "e * 2 ^ P < 2 ^ LENGTH('w)" .
  have "e \<le> e * 2 ^ P" by simp
  with e2 have "e < 2 ^ LENGTH('w)" by linarith
  then have e3: "unat (word_of_nat e :: 'w word) = e" by (simp add: unat_of_nat take_bit_nat_eq_self)
  have "unat (push_bit (LENGTH('w) - 1) (of_bool sn) :: 'w word) = of_bool sn * 2 ^ (LENGTH('w) - 1)"
    using pow_le [of "LENGTH('w) - 1"] W by (cases sn) simp_all
  moreover have "unat (push_bit P (word_of_nat e :: 'w word)) = e * 2 ^ P" using e2 by (subst unat_push_small) (simp_all add: e3)
  ultimately have "unat (pack (of_bool sn) (word_of_nat e) m) = of_bool sn * 2 ^ (LENGTH('w) - 1) + e * 2 ^ P + unat m mod 2 ^ P"
    unfolding pack_eq or.assoc [symmetric] by (simp only: unat_or_disjoint [OF 1] unat_or_disjoint [OF 2] unat_and_mask)
  then show ?thesis unfolding W .
qed

text \<open>The significand and the two bits behind it, as the code computes them.\<close>

lemma sticky_mantissa:
  fixes mnt :: "'w word"
  defines "m1 \<equiv> push_bit (P + 2) 1 OR drop_bit J mnt OR of_bool (mnt AND round_mask \<noteq> 0)"
  shows "unat m1 = jam (2 ^ LENGTH('w) + unat mnt) J" and "2 ^ (P + 2) \<le> unat m1" "unat m1 < 2 ^ (P + 3)"
proof -
  have W: "(2::nat) ^ LENGTH('w) = 2 ^ (P + 2) * 2 ^ J" by (simp add: width power_add)
  have "unat mnt < 2 ^ LENGTH('w)" by (rule unsigned_less)
  then have d: "unat mnt div 2 ^ J < 2 ^ (P + 2)" unfolding W by (simp add: less_mult_imp_div_less)
  have "bit (push_bit (P + 2) (1 :: 'w word)) i \<Longrightarrow> P + 2 \<le> i" for i by (simp only: bit_push_bit_iff)
  then have dis: "\<not> bit (push_bit (P + 2) 1 :: 'w word) i \<or> \<not> bit (drop_bit J mnt) i" for i
    using bit_word_less [of "drop_bit J mnt" i "P + 2"] d unfolding unat_drop by (meson not_le)
  have "unat (push_bit (P + 2) 1 OR drop_bit J mnt) = 2 ^ (P + 2) + unat mnt div 2 ^ J"
    unfolding unat_or_disjoint [OF dis] using pow_le [of "P + 2"] sizes by simp
  also have "\<dots> = (2 ^ LENGTH('w) + unat mnt) div 2 ^ J" unfolding W by simp
  finally have q: "unat (push_bit (P + 2) 1 OR drop_bit J mnt) = (2 ^ LENGTH('w) + unat mnt) div 2 ^ J" .
  have r: "(2 ^ LENGTH('w) + unat mnt) mod 2 ^ J = unat mnt mod 2 ^ J" unfolding W by simp
  let ?k = "unat mnt div 2 ^ J"
  have nz: "(mnt AND mask n \<noteq> 0) = (unat mnt mod 2 ^ n \<noteq> 0)" for n
    unfolding unat_and_mask [symmetric] by (simp only: unsigned_eq_0_iff)
  have "unat mnt mod 2 ^ (J + 1) \<noteq> 0 \<and> even ?k \<longleftrightarrow> unat mnt mod 2 ^ J \<noteq> 0 \<and> even ?k"
    by (auto simp: mod_mult2_eq mult.commute [of 2] even_iff_mod_2_eq_zero)
  then have st: "mnt AND round_mask \<noteq> 0 \<and> even ?k \<longleftrightarrow> unat mnt mod 2 ^ J \<noteq> 0 \<and> even ?k"
    using round_mask by (elim disjE) (simp_all only: nz)
  have ev: "even (2 ^ (P + 2) + ?k) = even ?k" by simp
  show m1: "unat m1 = jam (2 ^ LENGTH('w) + unat mnt) J"
    unfolding m1_def or.assoc [symmetric] unat_or_bool q jam_eq r using st ev by (simp add: W)
  have "unat mnt < 2 ^ (P + 2) * 2 ^ J" using unsigned_less [of mnt, where ?'a = nat] unfolding W .
  moreover have "(2::nat) ^ (P + 3) * 2 ^ J = 2 * (2 ^ (P + 2) * 2 ^ J)" by (simp add: power_add)
  ultimately show "2 ^ (P + 2) \<le> unat m1" "unat m1 < 2 ^ (P + 3)" unfolding m1 W by (intro jam_bounds; simp add: mult_ac)+
qed

text \<open>The two parts the code splits this mantissa into.\<close>

lemma split_mantissa:
  fixes m1 :: "'w word" and M :: nat and ex :: int
  assumes "unat m1 = jam M J"
  defines "B \<equiv> rounding_bits J ex M"
  shows "unat (if ex > 0 then drop_bit 2 m1 else drop_bit (nat (3 - ex)) m1) = B div 4"
    and "unat (if ex > 0 then m1 AND 3 else (drop_bit (nat (1 - ex)) m1 AND 3) OR of_bool (m1 AND (push_bit (nat (1 - ex)) 1 - 1) \<noteq> 0)) = B mod 4"
proof -
  have and3: "w AND 3 = w AND mask 2" for w :: "'w word" by (simp add: mask_eq_exp_minus_1)
  have m: "push_bit n 1 - 1 = (mask n :: 'w word)" for n by (simp add: mask_eq_exp_minus_1)
  let ?d = "nat (1 - ex)"
  have d: "nat (3 - ex) = ?d + 2" if "ex \<le> 0" using that by simp
  show "unat (if ex > 0 then drop_bit 2 m1 else drop_bit (nat (3 - ex)) m1) = B div 4"
    using assms(1) by (simp add: B_def rounding_bits_def jam_div_4 d)
  have nz: "(m1 AND mask n \<noteq> 0) = (unat m1 mod 2 ^ n \<noteq> 0)" for n
    unfolding unat_and_mask [symmetric] by (simp only: unsigned_eq_0_iff)
  have "((k mod 4) + of_bool (b \<and> even (k mod 4))) = (k + of_bool (b \<and> even k)) mod 4" for k :: nat and b
  proof (cases "b \<and> even k")
    case True
    then have "even k" by simp
    then have "k mod 4 + 1 = (k + 1) mod 4" "even (k mod 4)" by presburger+
    with True show ?thesis by simp
  next
    case False
    moreover have "even (k mod 4) = even k" by presburger
    ultimately show ?thesis by auto
  qed
  then show "unat (if ex > 0 then m1 AND 3 else (drop_bit ?d m1 AND 3) OR of_bool (m1 AND (push_bit ?d 1 - 1) \<noteq> 0)) = B mod 4"
    using assms(1) by (simp add: B_def rounding_bits_def unat_or_bool and3 unat_and_mask m nz del: push_bit_of_1) (simp add: jam_eq)
qed

lemma round_up_nat:
  fixes im err :: "'w word"
  assumes "unat im = q" "unat err = r"
  shows "round_inc rm sn r q \<longleftrightarrow> round_up rm sn err im \<or> rm = FPRounding_ODD \<and> err \<noteq> 0 \<and> even q"
    and "err \<noteq> 0 \<longleftrightarrow> r \<noteq> 0" and "round_up rm sn err im \<Longrightarrow> rm \<noteq> FPRounding_ODD"
proof -
  have "(4::nat) \<le> 2 ^ LENGTH('w)" "LENGTH('w) \<noteq> Suc 0" by (simp_all add: width)
  then have lit: "unat (3 :: 'w word) = 3" "unat (2 :: 'w word) = 2" by (simp_all add: unsigned_numeral take_bit_nat_eq_self_iff)
  have "err = 3 \<longleftrightarrow> r = 3" "err = 2 \<longleftrightarrow> r = 2" using assms(2) lit by (metis unat_inj_iff)+
  moreover show e: "err \<noteq> 0 \<longleftrightarrow> r \<noteq> 0" using assms(2) unat_inj_iff [of err 0] by simp
  moreover have "unat (im AND 1) = q mod 2" using unat_and_mask [of im 1] assms(1) by simp
  then have "im AND 1 \<noteq> 0 \<longleftrightarrow> odd q" unfolding unat_inj_iff [of "im AND 1" 0] by (simp add: even_iff_mod_2_eq_zero)
  ultimately show "round_inc rm sn r q \<longleftrightarrow> round_up rm sn err im \<or> rm = FPRounding_ODD \<and> err \<noteq> 0 \<and> even q"
    by (auto simp: round_inc_def round_up_def)
  show "round_up rm sn err im \<Longrightarrow> rm \<noteq> FPRounding_ODD" by (auto simp: round_up_def)
qed

lemma rounded_parts:
  fixes im err :: "'w word" and ex :: int
  assumes q: "unat im = q" and r: "unat err = r"
    and range: "ex > 0 \<Longrightarrow> 2 ^ P \<le> q \<and> q < 2 ^ (P + 1)" "ex \<le> 0 \<Longrightarrow> q < 2 ^ P"
  defines "b0 \<equiv> if ex > 0 then ex else 0" and "k \<equiv> nat (max ex 1) - 1"
  shows "\<exists>b i. (if round_up rm sn err im then (let
             int_mant = im + 1;
             biased_exp = (if int_mant = push_bit P 1 then 1 else b0)
             in if int_mant = push_bit (P + 1) 1 then (biased_exp + 1, drop_bit 1 int_mant) else (biased_exp, int_mant))
           else (b0, im)) = (int b, i) \<and>
       k * 2 ^ P + (q + of_bool (round_inc rm sn r q)) =
         b * 2 ^ P + unat (if err \<noteq> 0 \<and> rm = FPRounding_ODD then i OR 1 else i) mod 2 ^ P"
proof -
  note inc = round_up_nat(1,3) [OF q r, of rm sn]
  have ex: "ex > 0 \<Longrightarrow> b0 = int (k + 1)" "ex \<le> 0 \<Longrightarrow> b0 = int 0 \<and> k = 0" by (auto simp: b0_def k_def)
  have small: "k * 2 ^ P + n = nat b0 * 2 ^ P + n mod 2 ^ P" if n: "ex > 0 \<Longrightarrow> 2 ^ P \<le> n \<and> n < 2 ^ (P + 1)" "ex \<le> 0 \<Longrightarrow> n < 2 ^ P" for n
  proof (cases "ex > 0")
    case True
    then have "2 ^ P \<le> n" "n - 2 ^ P < 2 ^ P" using n(1) by auto
    then have "n mod 2 ^ P = n - 2 ^ P" by (simp add: le_mod_geq)
    moreover have "nat b0 = k + 1" unfolding ex(1) [OF True] by (rule nat_int)
    ultimately show ?thesis using \<open>2 ^ P \<le> n\<close> by (simp add: algebra_simps)
  next
    case False
    then show ?thesis using ex(2) n(2) by simp
  qed
  have b0: "b0 = int (nat b0)" by (simp add: b0_def)
  consider (up) "round_up rm sn err im" | (odd) "\<not> round_up rm sn err im" "err \<noteq> 0" "rm = FPRounding_ODD"
    | (down) "\<not> round_up rm sn err im" "\<not> (err \<noteq> 0 \<and> rm = FPRounding_ODD)" by blast
  then show ?thesis
  proof cases
    case down
    then have "\<not> round_inc rm sn r q" using inc(1) by blast
    then have "k * 2 ^ P + (q + of_bool (round_inc rm sn r q)) = nat b0 * 2 ^ P + unat im mod 2 ^ P" using small [OF range] q by simp
    with down b0 show ?thesis by (intro exI [of _ "nat b0"] exI [of _ im]) (simp only: if_False simp_thms)
  next
    case odd
    then have inc': "round_inc rm sn r q = even q" using inc(1) by blast
    have i: "unat (im OR 1) = q + of_bool (even q)" using unat_or_bool [of im True] q by simp
    have "q + of_bool (even q) < b" if "q < b" "even b" for b :: nat
      using that by (cases "even q") (simp_all, presburger)
    moreover have "ex \<le> 0 \<Longrightarrow> 0 < P" using sizes by simp
    ultimately have "k * 2 ^ P + (q + of_bool (even q)) = nat b0 * 2 ^ P + (q + of_bool (even q)) mod 2 ^ P"
      using range sizes by (intro small) (auto simp: trans_le_add1)
    with odd b0 inc' show ?thesis by (intro exI [of _ "nat b0"] exI [of _ im]) (simp only: if_False if_True simp_thms i)
  next
    case up
    then have inc': "round_inc rm sn r q" "rm \<noteq> FPRounding_ODD" using inc by blast+
    have "q < 2 ^ (P + 1)" using range by (cases "ex > 0") (auto intro: less_trans)
    moreover have "(2::nat) ^ (P + 1) < 2 ^ LENGTH('w)" unfolding width by (intro power_strict_increasing) simp_all
    ultimately have i: "unat (im + 1) = q + 1" using q by (subst unat_add_lem [THEN iffD1]) simp_all
    have eq: "im + 1 = push_bit n 1 \<longleftrightarrow> q + 1 = 2 ^ n" if "n \<le> P + 1" for n
      using pow_le [of n] that i by (metis le_trans add_le_mono1 le_add1 unat_inj_iff)
    note e = eq [of P, simplified] eq [of "P + 1", OF order_refl]
    have P: "(2::nat) ^ P < 2 ^ (P + 1)" by simp
    let ?r = "let int_mant = im + 1; biased_exp = (if int_mant = push_bit P 1 then 1 else b0)
      in if int_mant = push_bit (P + 1) 1 then (biased_exp + 1, drop_bit 1 int_mant) else (biased_exp, int_mant)"
    have "\<exists>b i. ?r = (int b, i) \<and> k * 2 ^ P + (q + 1) = b * 2 ^ P + unat i mod 2 ^ P"
    proof -
      consider (carry) "q + 1 = 2 ^ (P + 1)" | (normal) "q + 1 = 2 ^ P" | (plain) "q + 1 \<noteq> 2 ^ (P + 1)" "q + 1 \<noteq> 2 ^ P" by blast
      then show ?thesis
      proof cases
        case carry
        then have pos: "ex > 0" using range(2) by (rule_tac ccontr) simp
        have "im + 1 \<noteq> push_bit P 1" using carry P e(1) by simp
        moreover have "im + 1 = push_bit (P + 1) 1" using carry e(2) by blast
        ultimately have "?r = (b0 + 1, drop_bit 1 (im + 1))" by (simp only: Let_def if_True if_False simp_thms)
        moreover have "unat (drop_bit 1 (im + 1)) = 2 ^ P" unfolding unat_drop i carry by simp
        ultimately show ?thesis using carry ex(1) [OF pos] by (intro exI [of _ "k + 2"] exI [of _ "drop_bit 1 (im + 1)"]) simp
      next
        case normal
        then have neg: "ex \<le> 0" using range(1) by (rule_tac ccontr) auto
        have "im + 1 \<noteq> push_bit (P + 1) 1" using normal P e(2) by simp
        moreover have "im + 1 = push_bit P 1" using normal e(1) by simp
        ultimately have "?r = (1, im + 1)" by (simp only: Let_def if_True if_False simp_thms)
        then show ?thesis using normal i ex(2) [OF neg] by (intro exI [of _ 1] exI [of _ "im + 1"]) simp
      next
        case plain
        then have "k * 2 ^ P + (q + 1) = nat b0 * 2 ^ P + (q + 1) mod 2 ^ P" using range by (intro small) auto
        moreover have "im + 1 \<noteq> push_bit P 1" "im + 1 \<noteq> push_bit (P + 1) 1" using plain e by simp_all
        then have "?r = (b0, im + 1)" by (simp only: Let_def if_False simp_thms)
        ultimately show ?thesis using b0 i by (intro exI [of _ "nat b0"] exI [of _ "im + 1"]) simp
      qed
    qed
    with up inc' show ?thesis by (simp only: if_True if_False simp_thms of_bool_eq)
  qed
qed

text \<open>Infinity and the greatest finite number by their bit patterns.\<close>

lemma unat_specials:
  "unat (zero sn) = of_bool sn * 2 ^ (P + J + 1)"
  "unat (infinity sn) = of_bool sn * 2 ^ (P + J + 1) + (2 ^ (J + 1) - 1) * 2 ^ P"
  "unat (max_normal sn) = of_bool sn * 2 ^ (P + J + 1) + ((2 ^ (J + 1) - 1) * 2 ^ P - 1)"
proof -
  show "unat (zero sn) = of_bool sn * 2 ^ (P + J + 1)" unfolding zero_eq using unat_pack [of 0 sn 0] by simp
  show "unat (infinity sn) = of_bool sn * 2 ^ (P + J + 1) + (2 ^ (J + 1) - 1) * 2 ^ P" unfolding infinity_eq using unat_pack [of "2 ^ (J + 1) - 1" sn 0] by simp
  have "unat (- 1 :: 'w word) = 2 ^ LENGTH('w) - 1" by (simp add: unsigned_minus_1_eq_mask mask_eq_exp_minus_1)
  also have "\<dots> = (2 ^ (J + 2) - 1) * 2 ^ P + (2 ^ P - 1)" by (simp add: width power_add algebra_simps)
  finally have "unat (- 1 :: 'w word) mod 2 ^ P = 2 ^ P - 1" by (simp only: mod_mult_self3) simp
  then have "unat (max_normal sn) = of_bool sn * 2 ^ (P + J + 1) + (2 ^ (J + 1) - 2) * 2 ^ P + (2 ^ P - 1)"
    unfolding max_normal_eq using unat_pack [of "2 ^ (J + 1) - 2" sn "- 1"] by simp
  moreover have "(2 ^ (J + 1) - 2) * 2 ^ P + (2 ^ P - 1) = (2 ^ (J + 1) - 1) * 2 ^ P - (1::nat)"
  proof -
    have "(2::nat) \<le> 2 ^ (J + 1)" by simp
    then obtain c where c: "(2::nat) ^ (J + 1) = 2 + c" by (rule le_Suc_ex [THEN exE]) blast
    have "c * 2 ^ P + (2 ^ P - 1) = (c + 1) * 2 ^ P - (1::nat)" by simp
    then show ?thesis unfolding c by simp
  qed
  ultimately show "unat (max_normal sn) = of_bool sn * 2 ^ (P + J + 1) + ((2 ^ (J + 1) - 1) * 2 ^ P - 1)" by linarith
qed

lemma round_nat:
  fixes mnt :: "'w word" and ex :: int
  assumes "rm \<noteq> FPRounding_TIEAWAY" "mode AND FPLIB_FZ = 0 \<or> ex \<ge> 1"
    and B: "B = rounding_bits J ex (2 ^ LENGTH('w) + unat mnt)"
    and bits: "bits = (nat (max ex 1) - 1) * 2 ^ P + (B div 4 + of_bool (round_inc rm sn (B mod 4) (B div 4)))"
  shows "\<exists>x. round_rm sn ex mnt rm mode flags = Some (x,
      if (2 ^ (J + 1) - 1) * 2 ^ P \<le> bits then flags OR FPLIB_OFC OR FPLIB_IXC
      else if B mod 4 = 0 then flags else if ex \<le> 0 then (flags OR FPLIB_UFC) OR FPLIB_IXC else flags OR FPLIB_IXC) \<and>
    unat x = of_bool sn * 2 ^ (P + J + 1) +
      (if (2 ^ (J + 1) - 1) * 2 ^ P \<le> bits then if overflow_to_inf rm sn then (2 ^ (J + 1) - 1) * 2 ^ P else (2 ^ (J + 1) - 1) * 2 ^ P - 1
       else bits)"
proof -
  define m1 where "m1 = push_bit (P + 2) 1 OR drop_bit J mnt OR of_bool (mnt AND round_mask \<noteq> 0)"
  note m1 = sticky_mantissa [of mnt, folded m1_def]
  define im where "im = (if ex > 0 then drop_bit 2 m1 else drop_bit (nat (3 - ex)) m1)"
  define err where "err = (if ex > 0 then m1 AND 3 else (drop_bit (nat (1 - ex)) m1 AND 3) OR of_bool (m1 AND (push_bit (nat (1 - ex)) 1 - 1) \<noteq> 0))"
  have im: "unat im = B div 4" and err: "unat err = B mod 4"
    unfolding im_def err_def B by (rule split_mantissa [OF m1(1)])+
  have r: "err \<noteq> 0 \<longleftrightarrow> B mod 4 \<noteq> 0" using round_up_nat(2) [OF im err] .
  define b0 where "b0 = (if ex > 0 then ex else 0)"
  have tuple: "(if ex > 0 then (ex, drop_bit 2 m1, m1 AND 3)
           else (0, drop_bit (nat (3 - ex)) m1,
             (drop_bit (nat (1 - ex)) m1 AND 3) OR of_bool (m1 AND (push_bit (nat (1 - ex)) 1 - 1) \<noteq> 0))) = (b0, im, err)"
    by (simp only: b0_def im_def err_def split: if_split) simp
  have range: "ex > 0 \<Longrightarrow> 2 ^ P \<le> B div 4 \<and> B div 4 < 2 ^ (P + 1)" "ex \<le> 0 \<Longrightarrow> B div 4 < 2 ^ P"
  proof -
    have m: "2 ^ P * 4 \<le> unat m1" "unat m1 < 2 ^ P * 8" using m1(2,3) by (simp_all add: power_add)
    show "2 ^ P \<le> B div 4 \<and> B div 4 < 2 ^ (P + 1)" if "ex > 0"
      using that m unfolding im [symmetric] im_def by (simp add: less_eq_div_iff_mult_less_eq div_less_iff_less_mult)
    show "B div 4 < 2 ^ P" if "ex \<le> 0"
    proof -
      have "(8::nat) = 2 ^ 3" by simp
      also have "\<dots> \<le> 2 ^ nat (3 - ex)" using that by (intro power_increasing) simp_all
      finally have "2 ^ P * 8 \<le> 2 ^ P * (2::nat) ^ nat (3 - ex)" by simp
      with m(2) have "unat m1 < 2 ^ P * 2 ^ nat (3 - ex)" by linarith
      then show ?thesis using that unfolding im [symmetric] im_def by (simp add: div_less_iff_less_mult)
    qed
  qed
  obtain b i where bi: "(if round_up rm sn err im then (let
             int_mant = im + 1;
             biased_exp = (if int_mant = push_bit P 1 then 1 else b0)
             in if int_mant = push_bit (P + 1) 1 then (biased_exp + 1, drop_bit 1 int_mant) else (biased_exp, int_mant))
           else (b0, im)) = (int b, i)" "bits = b * 2 ^ P + unat (if err \<noteq> 0 \<and> rm = FPRounding_ODD then i OR 1 else i) mod 2 ^ P"
    using rounded_parts [OF im err range, where rm = rm and sn = sn] unfolding bits b0_def by blast
  define i' where "i' = (if err \<noteq> 0 \<and> rm = FPRounding_ODD then i OR 1 else i)"
  define fl where "fl = (if b0 = 0 \<and> err \<noteq> 0 then flags OR FPLIB_UFC else flags)"
  have run: "round_rm sn ex mnt rm mode flags = (if int b \<ge> 2 ^ (J + 1) - 1 then
          Some (if overflow_to_inf rm sn then infinity sn else max_normal sn, fl OR FPLIB_OFC OR FPLIB_IXC)
        else Some (pack (of_bool sn) (word_of_int (int b)) i', if err \<noteq> 0 then fl OR FPLIB_IXC else fl))"
  proof -
    have "\<not> (mode AND FPLIB_FZ \<noteq> 0 \<and> ex < 1)" using assms(2) by auto
    then show ?thesis unfolding round_eq assert_c_def using assms(1)
      by (simp only: Let_def m1_def [symmetric] if_True if_False simp_thms Option.bind.simps)
        (simp only: tuple prod.case bi(1) [unfolded Let_def] i'_def fl_def)
  qed
  let ?E = "2 ^ (J + 1) - 1 :: nat"
  have E: "int ?E = 2 ^ (J + 1) - 1" by (simp add: of_nat_diff)
  have u: "unat i' mod 2 ^ P < 2 ^ P" by simp
  have bits': "bits = b * 2 ^ P + unat i' mod 2 ^ P" using bi(2) by (simp only: i'_def)
  have over: "?E * 2 ^ P \<le> bits \<longleftrightarrow> ?E \<le> b"
    unfolding bits' by (rule mult_le_add_iff [OF u])
  have b0: "b0 = 0 \<longleftrightarrow> ex \<le> 0" by (auto simp: b0_def)
  have tiny: "\<not> ?E * 2 ^ P \<le> bits" if "ex \<le> 0"
  proof -
    have "bits \<le> 2 ^ P" using that range(2) unfolding bits by (simp add: Suc_leI)
    moreover have "(2::nat) ^ 3 \<le> 2 ^ (J + 1)" using sizes by (intro power_increasing) simp_all
    then have "2 * 2 ^ P \<le> ?E * 2 ^ P" by (intro mult_right_mono) simp_all
    moreover have "(0::nat) < 2 ^ P" by simp
    ultimately show ?thesis by linarith
  qed
  show ?thesis
  proof (cases "?E \<le> b")
    case True
    then have "int b \<ge> 2 ^ (J + 1) - 1" unfolding E [symmetric] by (simp only: of_nat_le_iff)
    moreover have "fl = flags" using True tiny over b0 by (auto simp: fl_def)
    ultimately show ?thesis unfolding run using True over by (auto simp: unat_specials)
  next
    case False
    then have nb: "\<not> int b \<ge> 2 ^ (J + 1) - 1" "b < 2 ^ (J + 1)" using E by linarith+
    have "unat (pack (of_bool sn) (word_of_int (int b)) i') = of_bool sn * 2 ^ (P + J + 1) + bits"
      using unat_pack [OF nb(2), of sn i'] by (simp add: bits')
    then show ?thesis unfolding run using False over nb(1) r b0 by (auto simp: fl_def)
  qed
qed

text \<open>The rounding of the code is correct rounding of the number the mantissa stands for.\<close>

lemma round_correct:
  fixes mnt :: "'w word" and v :: real
  defines "E \<equiv> 2 ^ (J + 1) - 1"
  assumes "rm \<noteq> FPRounding_TIEAWAY" "mode AND FPLIB_FZ = 0 \<or> ex \<ge> 1"
    and "sticky (jam (2 ^ LENGTH('w) + unat mnt) J) (v / 2 ^ J)" "y = v * 2 powi (ex - 3 - int J)"
  shows "\<exists>x. round_rm sn ex mnt rm mode flags = Some (x, flags OR ieee_flags P E rm sn y) \<and>
    unat x = of_bool sn * 2 ^ (P + J + 1) + ieee_round P E rm sn y"
proof -
  let ?M = "2 ^ LENGTH('w) + unat mnt"
  define B where "B = rounding_bits J ex ?M"
  have "unat mnt < 2 ^ LENGTH('w)" by (rule unsigned_less)
  moreover have "(2::nat) ^ (P + J + 3) = 2 * 2 ^ (P + J + 2)" by (simp add: numeral_3_eq_3)
  ultimately have "2 ^ (P + J + 2) \<le> ?M" "?M < 2 ^ (P + J + 3)" unfolding width by linarith+
  note spec = rounding_bits_spec [OF this assms(4,5) B_def]
  have bits: "ieee_bits P rm sn y = (nat (max ex 1) - 1) * 2 ^ P + (B div 4 + of_bool (round_inc rm sn (B mod 4) (B div 4)))"
    unfolding ieee_bits_def Let_def spec(1) spec(2) ..
  have exact: "y / 2 ^ (ieee_exp P y - 1) \<in> \<nat> \<longleftrightarrow> B mod 4 = 0" unfolding spec(1) by (rule spec(3))
  have "flags OR ieee_flags P E rm sn y = (if E * 2 ^ P \<le> ieee_bits P rm sn y then flags OR FPLIB_OFC OR FPLIB_IXC
      else if B mod 4 = 0 then flags else if ex \<le> 0 then (flags OR FPLIB_UFC) OR FPLIB_IXC else flags OR FPLIB_IXC)"
    unfolding ieee_flags_def Let_def exact spec(4) by (simp add: or.assoc)
  then show ?thesis
    using round_nat [OF assms(2,3) B_def bits, of flags] unfolding ieee_round_def E_def by simp
qed

end

lemmas format_defs = fp32_pack_def fp32_zero_def fp32_infinity_def fp32_max_normal_def
  fp64_pack_def fp64_zero_def fp64_infinity_def fp64_max_normal_def

lemma format_nums: "(23::nat) + 2 = 25" "(23::nat) + 1 = 24" "(2::int) ^ (7 + 1) - 1 = 255"
  "(52::nat) + 2 = 54" "(52::nat) + 1 = 53" "(2::int) ^ (10 + 1) - 1 = 2047"
  by simp_all

interpretation single: fp_format 23 7 255 fp32_pack fp32_zero fp32_infinity fp32_max_normal fp32_round_rm
  apply unfold_locales
  apply (simp_all only: fp32_round_rm_def lsr_eq lsl_eq format_nums)
  apply (simp_all add: format_defs mask_eq_exp_minus_1)
  done

interpretation double: fp_format 52 10 "0x3ff" fp64_pack fp64_zero fp64_infinity fp64_max_normal fp64_round_rm
  apply unfold_locales
  apply (simp_all only: fp64_round_rm_def lsr_eq lsl_eq format_nums)
  apply (simp_all add: format_defs mask_eq_exp_minus_1)
  done

end
