(* ===== verification/TiC_FP_Arith.thy ===== *)
theory TiC_FP_Arith
  imports TiC_FP_Format
begin

text \<open>
  Addition and subtraction of finite numbers are correctly rounded. The magnitude of a finite number is a natural number of
  units of the least subnormal number, so sums are exact integers. The locale for the operands is shared with the other operations.
\<close>

subsection \<open>Normalisation\<close>

lemma normalise_step:
  fixes mnt :: "'a::len word"
  assumes "0 < s" "2 * s \<le> LENGTH('a)" "2 ^ (LENGTH('a) - 2 * s) \<le> unat mnt"
  shows "\<exists>t mnt'. normalise_loop s (mnt, ex) = normalise_loop (s div 2) (mnt', ex - int t) \<and>
    unat mnt' = unat mnt * 2 ^ t \<and> 2 ^ (LENGTH('a) - s) \<le> unat mnt'"
proof (cases "unat mnt < 2 ^ (LENGTH('a) - s)")
  case True
  then have "drop_bit (LENGTH('a) - s) mnt = 0" by (simp add: unat_inj_iff)
  then have step: "normalise_loop s (mnt, ex) = normalise_loop (s div 2) (push_bit s mnt, ex - int s)"
    using assms(1) by (simp add: normalise_loop.simps [of s])
  have "unat mnt * 2 ^ s < 2 ^ (LENGTH('a) - s) * 2 ^ s" using True by simp
  then have m: "unat (push_bit s mnt) = unat mnt * 2 ^ s" using assms(2) by (intro unat_push_small) (simp flip: power_add)
  have "2 ^ (LENGTH('a) - 2 * s) * 2 ^ s \<le> unat mnt * 2 ^ s" using assms(3) by simp
  moreover have "LENGTH('a) - 2 * s + s = LENGTH('a) - s" using assms(2) by simp
  ultimately have "2 ^ (LENGTH('a) - s) \<le> unat (push_bit s mnt)" unfolding m by (simp flip: power_add)
  with step m show ?thesis by blast
next
  case False
  then have "drop_bit (LENGTH('a) - s) mnt \<noteq> 0" by (simp add: unat_inj_iff div_greater_zero_iff)
  then have "normalise_loop s (mnt, ex) = normalise_loop (s div 2) (mnt, ex - int 0)"
    using assms(1) by (simp add: normalise_loop.simps [of s])
  with False show ?thesis by (intro exI [of _ 0] exI [of _ mnt]) simp
qed

lemma normalise_loop_spec:
  fixes mnt :: "'a::len word"
  assumes "2 ^ Suc n \<le> LENGTH('a)" "2 ^ (LENGTH('a) - 2 ^ Suc n) \<le> unat mnt"
  shows "\<exists>s mnt'. normalise_loop (2 ^ n) (mnt, ex) = (mnt', ex - int s) \<and> unat mnt' = unat mnt * 2 ^ s \<and> 2 ^ (LENGTH('a) - 1) \<le> unat mnt'"
  using assms
proof (induction n arbitrary: mnt ex)
  case 0
  then show ?case using normalise_step [of 1 mnt ex] by (simp add: normalise_loop.simps [of 0])
next
  case (Suc n)
  obtain t mnt' where t: "normalise_loop (2 ^ Suc n) (mnt, ex) = normalise_loop (2 ^ Suc n div 2) (mnt', ex - int t)"
    "unat mnt' = unat mnt * 2 ^ t" "2 ^ (LENGTH('a) - 2 ^ Suc n) \<le> unat mnt'"
    using normalise_step [of "2 ^ Suc n" mnt ex] Suc.prems by auto
  moreover have "2 ^ Suc n \<le> LENGTH('a)" using Suc.prems(1) by simp
  ultimately obtain s mnt'' where "normalise_loop (2 ^ n) (mnt', ex - int t) = (mnt'', ex - int t - int s)"
    "unat mnt'' = unat mnt' * 2 ^ s" "2 ^ (LENGTH('a) - 1) \<le> unat mnt''"
    using Suc.IH [of mnt' "ex - int t"] by blast
  with t show ?case by (intro exI [of _ "t + s"] exI [of _ mnt'']) (simp add: power_add)
qed

lemma fp_normalise_spec:
  "mnt \<noteq> 0 \<Longrightarrow> \<exists>s mnt'. fp16_normalise mnt ex = (mnt', ex - int s) \<and> unat mnt' = unat mnt * 2 ^ s \<and> 2 ^ 15 \<le> unat mnt'"
  "mnt32 \<noteq> 0 \<Longrightarrow> \<exists>s mnt'. fp32_normalise mnt32 ex = (mnt', ex - int s) \<and> unat mnt' = unat mnt32 * 2 ^ s \<and> 2 ^ 31 \<le> unat mnt'"
  "mnt64 \<noteq> 0 \<Longrightarrow> \<exists>s mnt'. fp64_normalise mnt64 ex = (mnt', ex - int s) \<and> unat mnt' = unat mnt64 * 2 ^ s \<and> 2 ^ 63 \<le> unat mnt'"
proof -
  have pos: "Suc 0 \<le> unat w" if "w \<noteq> 0" for w :: "'a::len word" using that by (simp add: unat_inj_iff Suc_le_eq)
  show "mnt \<noteq> 0 \<Longrightarrow> \<exists>s mnt'. fp16_normalise mnt ex = (mnt', ex - int s) \<and> unat mnt' = unat mnt * 2 ^ s \<and> 2 ^ 15 \<le> unat mnt'"
    using normalise_loop_spec [of 3 mnt ex] by (simp add: fp16_normalise_def pos)
  show "mnt32 \<noteq> 0 \<Longrightarrow> \<exists>s mnt'. fp32_normalise mnt32 ex = (mnt', ex - int s) \<and> unat mnt' = unat mnt32 * 2 ^ s \<and> 2 ^ 31 \<le> unat mnt'"
    using normalise_loop_spec [of 4 mnt32 ex] by (simp add: fp32_normalise_def pos)
  show "mnt64 \<noteq> 0 \<Longrightarrow> \<exists>s mnt'. fp64_normalise mnt64 ex = (mnt', ex - int s) \<and> unat mnt' = unat mnt64 * 2 ^ s \<and> 2 ^ 63 \<le> unat mnt'"
    using normalise_loop_spec [of 5 mnt64 ex] by (simp add: fp64_normalise_def pos)
qed

subsection \<open>Sums of aligned mantissas\<close>

text \<open>One of the two operands of an addition is not shifted, so it is exact and, with its three zero bits, even.\<close>

lemma sticky_sum:
  assumes "sticky a va" "sticky b vb" "even a \<and> va = real a \<or> even b \<and> vb = real b"
  shows "sticky (a + b) (va + vb)" and "b \<le> a \<Longrightarrow> sticky (a - b) (va - vb)" and "a \<le> b \<Longrightarrow> sticky (b - a) (vb - va)"
  using assms by (auto simp: sticky_def of_nat_diff)

lemma sticky_zero: "sticky 0 v \<Longrightarrow> v = 0"
  by (simp add: sticky_def)

lemma sticky_pos: "sticky M v \<Longrightarrow> 0 < M \<Longrightarrow> 0 < v"
  by (auto simp: sticky_def elim: oddE)

lemma jam_exact: "2 ^ d dvd M \<Longrightarrow> real (jam M d) = real M / 2 ^ d"
  by (auto simp: jam_eq dvd_eq_mod_eq_0 real_of_nat_div)

text \<open>A sum with a sticky bit that is shifted left by less than the rounding shift stays sticky.\<close>

lemma sticky_scaled:
  assumes "sticky X v" "v = real X \<or> s \<le> J"
  shows "sticky (jam (X * 2 ^ s) J) (v * 2 ^ s / 2 ^ J)"
proof (cases "v = real X")
  case True
  then show ?thesis using sticky_jam [OF sticky_exact, of "X * 2 ^ s" J] by simp
next
  case False
  then have s: "s \<le> J" using assms(2) by simp
  have "v * 2 ^ s / 2 ^ J = v / 2 ^ (J - s)" using s by (simp add: power_diff)
  with sticky_jam [OF assms(1), of "J - s"] show ?thesis by (simp add: jam_scale [OF s])
qed

subsection \<open>Finite numbers\<close>

definition fp_exp :: "nat \<Rightarrow> nat \<Rightarrow> 'w::len word \<Rightarrow> nat" where
  "fp_exp P J x = unat x div 2 ^ P mod 2 ^ (J + 1)"

definition fp_frac :: "nat \<Rightarrow> 'w::len word \<Rightarrow> nat" where
  "fp_frac P x = unat x mod 2 ^ P"

definition fp_neg :: "'w::len word \<Rightarrow> bool" where
  "fp_neg x = bit x (LENGTH('w) - 1)"

definition fp_finite :: "nat \<Rightarrow> nat \<Rightarrow> 'w::len word \<Rightarrow> bool" where
  "fp_finite P J x \<longleftrightarrow> fp_exp P J x \<noteq> 2 ^ (J + 1) - 1"

text \<open>The magnitude in units of the least subnormal number.\<close>

definition fp_mag :: "nat \<Rightarrow> nat \<Rightarrow> 'w::len word \<Rightarrow> nat" where
  "fp_mag P J x = (if fp_exp P J x = 0 then fp_frac P x else (2 ^ P + fp_frac P x) * 2 ^ (fp_exp P J x - 1))"

locale fp_arith = fp_format P J round_mask pack zero infinity max_normal round_rm
  for P J :: nat and round_mask :: "'w::len word" and pack and zero infinity max_normal and round_rm +
  fixes unpack :: "'w word \<Rightarrow> 32 word \<Rightarrow> 32 word \<Rightarrow> bool \<times> int \<times> 'w word \<times> 32 word"
    and process_NaNs :: "'w word \<Rightarrow> 'w word \<Rightarrow> 32 word \<Rightarrow> 32 word \<Rightarrow> 'w word \<times> 32 word"
  assumes unpack_eq: "unpack x mode flags = (let
       sn = drop_bit (P + J + 1) x \<noteq> 0;
       ex = uint (drop_bit P x AND mask (J + 1));
       mnt = x AND mask P
       in if ex \<noteq> 0 then (sn, ex, mnt OR push_bit P 1, flags)
          else if mode AND FPLIB_FZ \<noteq> 0 \<and> mnt \<noteq> 0 then (sn, ex + 1, 0, flags OR FPLIB_IDC)
          else (sn, ex + 1, mnt, flags))"
    and no_NaNs: "fp_finite P J a \<Longrightarrow> fp_finite P J b \<Longrightarrow> process_NaNs a b mode flags = (0, flags)"
begin

lemma E_pos: "0 < (2::nat) ^ (J + 1) - 1"
proof -
  have "(1::nat) < 2 ^ (J + 1)" by (rule one_less_power) simp_all
  then show ?thesis by linarith
qed

lemma exponent_not_max: "e < 2 ^ (J + 1) - 1 \<Longrightarrow> int e \<noteq> 2 ^ (J + 1) - 1"
proof -
  have "int (2 ^ (J + 1) - 1) = 2 ^ (J + 1) - 1" by (simp add: of_nat_diff)
  then show "e < 2 ^ (J + 1) - 1 \<Longrightarrow> int e \<noteq> 2 ^ (J + 1) - 1" by linarith
qed

lemma unpack_finite:
  assumes "mode AND FPLIB_FZ = 0" "fp_finite P J x"
  shows "\<exists>e m. unpack x mode flags = (fp_neg x, int e, m, flags) \<and> 1 \<le> e \<and> e < 2 ^ (J + 1) - 1 \<and>
    unat m < 2 ^ (P + 1) \<and> (1 < e \<longrightarrow> 2 ^ P \<le> unat m) \<and> fp_mag P J x = unat m * 2 ^ (e - 1)"
proof -
  have sn: "drop_bit (P + J + 1) x \<noteq> 0 \<longleftrightarrow> fp_neg x"
  proof -
    have "unat x < 2 ^ LENGTH('w)" by (rule unsigned_less)
    then have "unat x div 2 ^ (P + J + 1) < 2" by (simp add: width div_less_iff_less_mult)
    then have "unat x div 2 ^ (P + J + 1) \<noteq> 0 \<longleftrightarrow> odd (unat x div 2 ^ (P + J + 1))" by (auto simp: less_2_cases_iff)
    then have "drop_bit (P + J + 1) x \<noteq> 0 \<longleftrightarrow> bit (unat x) (P + J + 1)" unfolding unat_inj_iff unat_drop by (simp only: bit_iff_odd unsigned_0)
    then show ?thesis by (simp add: fp_neg_def width bit_unsigned_iff)
  qed
  have ex: "uint (drop_bit P x AND mask (J + 1)) = int (fp_exp P J x)"
    unfolding fp_exp_def unat_drop [symmetric] unat_and_mask [symmetric] by (rule of_nat_unat [symmetric])
  have m: "unat (x AND mask P) = fp_frac P x" by (simp only: fp_frac_def unat_and_mask)
  have frac: "fp_frac P x < 2 ^ P" by (simp add: fp_frac_def)
  have "fp_exp P J x < 2 ^ (J + 1)" by (simp add: fp_exp_def)
  then have e: "fp_exp P J x < 2 ^ (J + 1) - 1" using assms(2) unfolding fp_finite_def by linarith
  have one: "1 < (2::nat) ^ (J + 1) - 1" using sizes power_increasing [of 2 "J + 1" "2::nat"] by simp
  show ?thesis
  proof (cases "fp_exp P J x = 0")
    case True
    then have "unpack x mode flags = (fp_neg x, int 1, x AND mask P, flags)"
      unfolding unpack_eq Let_def sn ex using assms(1) by simp
    with True m frac one show ?thesis by (intro exI [of _ 1] exI [of _ "x AND mask P"]) (simp add: fp_mag_def)
  next
    case False
    have "\<not> bit (x AND mask P) i \<or> \<not> bit (push_bit P (1 :: 'w word)) i" for i by (auto simp only: bit_and_iff bit_mask_iff bit_push_bit_iff)
    from unat_or_disjoint [OF this] have m': "unat (x AND mask P OR push_bit P 1) = 2 ^ P + fp_frac P x" using m pow_le [of P] by simp
    have "unpack x mode flags = (fp_neg x, int (fp_exp P J x), x AND mask P OR push_bit P 1, flags)"
      unfolding unpack_eq Let_def sn ex using False by simp
    with False m' frac e show ?thesis
      by (intro exI [of _ "fp_exp P J x"] exI [of _ "x AND mask P OR push_bit P 1"]) (simp add: fp_mag_def del: push_bit_of_1)
  qed
qed

end

subsection \<open>Addition\<close>

lemma and_3_not_tieaway: "mode AND 3 \<noteq> (FPRounding_TIEAWAY :: 32 word)"
proof
  assume "mode AND 3 = FPRounding_TIEAWAY"
  then have "bit (mode AND 3) 2 = bit FPRounding_TIEAWAY 2" by simp
  then show False by (simp add: bit_and_iff)
qed

text \<open>The sign of a sum: that of a non-zero sum, else the common sign, else negative only when rounding down.\<close>

definition sum_sign :: "bool \<Rightarrow> bool \<Rightarrow> 32 word \<Rightarrow> int \<Rightarrow> bool" where
  "sum_sign sa sb rm S = (if S = 0 then if sa = sb then sa else rm = FPLIB_RM else S < 0)"

definition signed_mag :: "bool \<Rightarrow> nat \<Rightarrow> int" where
  "signed_mag sn n = (if sn then - int n else int n)"

lemma signed_sum:
  "sa = sb \<Longrightarrow> A + B \<noteq> 0 \<Longrightarrow> nat \<bar>signed_mag sa A + signed_mag sb B\<bar> = A + B \<and> sum_sign sa sb rm (signed_mag sa A + signed_mag sb B) = sa"
  "sa \<noteq> sb \<Longrightarrow> B < A \<Longrightarrow> nat \<bar>signed_mag sa A + signed_mag sb B\<bar> = A - B \<and> sum_sign sa sb rm (signed_mag sa A + signed_mag sb B) = sa"
  "sa \<noteq> sb \<Longrightarrow> A < B \<Longrightarrow> nat \<bar>signed_mag sa A + signed_mag sb B\<bar> = B - A \<and> sum_sign sa sb rm (signed_mag sa A + signed_mag sb B) = (\<not> sa)"
  "sa \<noteq> sb \<Longrightarrow> A = B \<Longrightarrow> nat \<bar>signed_mag sa A + signed_mag sb B\<bar> = 0 \<and> sum_sign sa sb rm (signed_mag sa A + signed_mag sb B) = (rm = FPLIB_RM)"
  by (cases sa; cases sb; auto simp: signed_mag_def sum_sign_def)+

lemma ieee_zero: "0 < E \<Longrightarrow> ieee_round P E rm sn 0 = 0" "0 < E \<Longrightarrow> ieee_flags P E rm sn 0 = 0"
proof -
  have e: "ieee_exp P 0 = 1" by (rule ieee_exp_eq) simp_all
  then have b: "ieee_bits P rm sn 0 = 0" by (simp add: ieee_bits_def round_int_def Let_def)
  show "0 < E \<Longrightarrow> ieee_round P E rm sn 0 = 0" "0 < E \<Longrightarrow> ieee_flags P E rm sn 0 = 0"
    by (simp_all add: ieee_round_def ieee_flags_def b e)
qed

lemma align_exact_or_small:
  assumes "Bm < 2 ^ (P + 1)" "0 < d \<Longrightarrow> 2 ^ P \<le> Am" "0 < P"
  shows "real (jam (8 * Bm) d) = real (8 * Bm) / 2 ^ d \<or> jam (8 * Bm) d + 2 ^ (P + 2) \<le> 8 * Am"
proof (cases "d \<le> 3")
  case True
  then have "2 ^ d dvd 8 * Bm" using le_imp_power_dvd [of d 3 "2::nat"] by simp
  then have "real (jam (8 * Bm) d) = real (8 * Bm) / 2 ^ d" by (rule jam_exact)
  then show ?thesis ..
next
  case False
  have "8 * Bm < 2 ^ P * 2 ^ 4" using assms(1) by simp
  also have "(2::nat) ^ P * 2 ^ 4 \<le> 2 ^ P * 2 ^ d" using False by (intro mult_left_mono power_increasing) simp_all
  finally have "jam (8 * Bm) d < 2 ^ P" using assms(3) by (intro jam_bounds) simp_all
  moreover have "2 ^ P \<le> Am" using assms(2) False by simp
  ultimately show ?thesis by (simp add: power_add)
qed

locale fp_add = fp_arith P J round_mask pack zero infinity max_normal round_rm unpack process_NaNs
  for P J :: nat and round_mask :: "'w::len word" and pack and zero infinity max_normal and round_rm and unpack and process_NaNs +
  fixes normalise :: "'w word \<Rightarrow> int \<Rightarrow> 'w word \<times> int" and align :: "'w word \<Rightarrow> nat \<Rightarrow> 'w word" and defaultNaN :: "'w word"
    and add :: "'w word \<Rightarrow> 'w word \<Rightarrow> bool \<Rightarrow> 32 word \<Rightarrow> 32 word \<Rightarrow> ('w word \<times> 32 word) option"
  assumes normalise: "mnt \<noteq> 0 \<Longrightarrow> \<exists>s mnt'. normalise mnt ex = (mnt', ex - int s) \<and> unat mnt' = unat mnt * 2 ^ s \<and> 2 ^ (P + J + 1) \<le> unat mnt'"
    and align: "unat (align mnt d) = jam (unat mnt) d"
    and add_eq: "add a b neg mode flags = (let
     (a_sgn, a_exp, a_mnt, flags) = unpack a mode flags;
     (b_sgn, b_exp, b_mnt, flags) = unpack b mode flags;
     (x, flags) = process_NaNs a b mode flags
     in if x \<noteq> 0 then Some (x, flags)
     else let b_sgn = (b_sgn \<noteq> neg)
     in if a_exp = 2 ^ (J + 1) - 1 \<and> b_exp = 2 ^ (J + 1) - 1 \<and> a_sgn \<noteq> b_sgn then Some (defaultNaN, flags OR FPLIB_IOC)
     else if a_exp = 2 ^ (J + 1) - 1 then Some (infinity a_sgn, flags)
     else if b_exp = 2 ^ (J + 1) - 1 then Some (infinity b_sgn, flags)
     else if a_mnt = 0 \<and> b_mnt = 0 \<and> a_sgn = b_sgn then Some (zero a_sgn, flags)
     else let
       a_mnt = push_bit 3 a_mnt;
       b_mnt = push_bit 3 b_mnt;
       (a_mnt, b_mnt, x_exp) =
         (if a_exp \<ge> b_exp then (a_mnt, align b_mnt (nat (a_exp - b_exp)), a_exp)
          else (align a_mnt (nat (b_exp - a_exp)), b_mnt, b_exp));
       (x_sgn, x_mnt) =
         (if a_sgn = b_sgn then (a_sgn, a_mnt + b_mnt)
          else if a_mnt \<ge> b_mnt then (a_sgn, a_mnt - b_mnt)
          else (\<not> a_sgn, b_mnt - a_mnt))
       in if x_mnt = 0 then Some (zero (mode AND 3 = 2), flags)
          else let (x_mnt, x_exp) = normalise x_mnt x_exp
            in round_rm x_sgn (x_exp + int (J - 2)) (push_bit 1 x_mnt) (mode AND 3) mode flags)"
begin

text \<open>A sum of aligned mantissas is rounded correctly once it is normalised.\<close>

lemma round_sum:
  fixes X :: "'w word" and v :: real
  assumes "sticky (unat X) v" "X \<noteq> 0" "mode AND FPLIB_FZ = 0" "v = real (unat X) \<or> 2 ^ (P + 2) \<le> unat X" "y = v * 2 powi (ex - 4)"
  shows "\<exists>x. (let (x_mnt, x_exp) = normalise X ex in round_rm sn (x_exp + int (J - 2)) (push_bit 1 x_mnt) (mode AND 3) mode flags) =
      Some (x, flags OR ieee_flags P (2 ^ (J + 1) - 1) (mode AND 3) sn y) \<and>
    unat x = of_bool sn * 2 ^ (P + J + 1) + ieee_round P (2 ^ (J + 1) - 1) (mode AND 3) sn y"
proof -
  obtain s m where s: "normalise X ex = (m, ex - int s)" "unat m = unat X * 2 ^ s" "2 ^ (P + J + 1) \<le> unat m"
    using normalise [OF assms(2)] by blast
  have m: "unat m < 2 ^ (P + J + 2)" using unsigned_less [of m, where ?'a = nat] by (simp only: width)
  have "unat (push_bit 1 m) = 2 * unat m - 2 ^ LENGTH('w)"
  proof -
    have "unat (push_bit 1 m) = (2 * unat m) mod 2 ^ LENGTH('w)"
      by (simp only: unsigned_push_bit_eq push_bit_eq_mult [where ?'a = nat] take_bit_eq_mod [where ?'a = nat]) (simp add: mult.commute)
    also have "\<dots> = 2 * unat m - 2 ^ LENGTH('w)" using s(3) m by (simp add: width le_mod_geq)
    finally show ?thesis .
  qed
  then have M: "2 ^ LENGTH('w) + unat (push_bit 1 m) = unat X * 2 ^ (s + 1)" using s(2,3) by (simp add: width)
  have "s + 1 \<le> J" if "2 ^ (P + 2) \<le> unat X"
  proof -
    have "2 ^ (P + 2) * 2 ^ s \<le> unat X * 2 ^ s" using that by simp
    also have "\<dots> < 2 ^ (P + J + 2)" using m s(2) by simp
    finally have "(2::nat) ^ (P + 2 + s) < 2 ^ (P + J + 2)" by (simp add: power_add)
    then have "P + 2 + s < P + J + 2" by (rule power_less_imp_less_exp [rotated]) simp
    then show ?thesis by simp
  qed
  then have st: "sticky (jam (2 ^ LENGTH('w) + unat (push_bit 1 m)) J) (v * 2 ^ (s + 1) / 2 ^ J)"
    unfolding M using assms(1,4) by (intro sticky_scaled) auto
  have y: "y = v * 2 ^ (s + 1) * 2 powi (ex - int s + int (J - 2) - 3 - int J)"
  proof -
    have "ex - int s + int (J - 2) - 3 - int J = (ex - 4) - int (s + 1)" using sizes by simp
    then have "(2::real) powi (ex - int s + int (J - 2) - 3 - int J) = 2 powi (ex - 4) / 2 ^ (s + 1)" by (simp only: powi_nat(1))
    then show ?thesis by (simp add: assms(5))
  qed
  show ?thesis unfolding s(1) Let_def prod.case by (rule round_correct [OF and_3_not_tieaway disjI1 [OF assms(3)] st y])
qed

lemma add_tail:
  fixes a' b' :: "'w word" and va vb :: real and ex :: int
  defines "E \<equiv> 2 ^ (J + 1) - 1"
  assumes st: "sticky (unat a') va" "sticky (unat b') vb" "even (unat a') \<and> va = real (unat a') \<or> even (unat b') \<and> vb = real (unat b')"
    and small: "unat a' + unat b' < 2 ^ LENGTH('w)" and mode: "mode AND FPLIB_FZ = 0"
    and big: "va = real (unat a') \<and> vb = real (unat b') \<or> unat a' + 2 ^ (P + 2) \<le> unat b' \<or> unat b' + 2 ^ (P + 2) \<le> unat a'"
    and A: "real A = va * 2 powi (ex - 4)" and B: "real B = vb * 2 powi (ex - 4)" and nz: "sa = sb \<Longrightarrow> A + B \<noteq> 0"
  defines "S \<equiv> signed_mag sa A + signed_mag sb B"
  defines "sn \<equiv> sum_sign sa sb (mode AND 3) S"
  shows "\<exists>x. (let (x_sgn, x_mnt) =
         (if sa = sb then (sa, a' + b') else if a' \<ge> b' then (sa, a' - b') else (\<not> sa, b' - a'))
       in if x_mnt = 0 then Some (zero (mode AND 3 = 2), flags)
          else let (x_mnt, x_exp) = normalise x_mnt ex
            in round_rm x_sgn (x_exp + int (J - 2)) (push_bit 1 x_mnt) (mode AND 3) mode flags) =
      Some (x, flags OR ieee_flags P E (mode AND 3) sn (real (nat \<bar>S\<bar>))) \<and>
    unat x = of_bool sn * 2 ^ (P + J + 1) + ieee_round P E (mode AND 3) sn (real (nat \<bar>S\<bar>))"
proof -
  note sums = sticky_sum [OF st]
  have p: "0 < (2::real) powi (ex - 4)" by simp
  have z: "unat w = 0 \<longleftrightarrow> w = 0" for w :: "'w word" by (simp add: unat_inj_iff)
  consider (plus) "sa = sb" | (left) "sa \<noteq> sb" "b' \<le> a'" "a' \<noteq> b'" | (right) "sa \<noteq> sb" "\<not> b' \<le> a'" | (zero) "sa \<noteq> sb" "a' = b'" by blast
  then show ?thesis
  proof cases
    case plus
    have X: "unat (a' + b') = unat a' + unat b'" using small by (simp add: unat_add_lem [THEN iffD1])
    have v: "real (A + B) = (va + vb) * 2 powi (ex - 4)" using A B by (simp add: algebra_simps)
    have "a' + b' \<noteq> 0"
    proof
      assume "a' + b' = 0"
      then have "unat a' + unat b' = 0" using X by (simp only: unsigned_0)
      then have "va + vb = 0" using sums(1) by (intro sticky_zero) simp
      then have "real (A + B) = 0" by (simp only: v mult_zero_left)
      then show False using nz [OF plus] by simp
    qed
    moreover note round_sum [of "a' + b'" "va + vb" mode "real (A + B)" ex sa flags, unfolded X]
    moreover have "va + vb = real (unat a' + unat b') \<or> 2 ^ (P + 2) \<le> unat a' + unat b'" using big by auto
    ultimately show ?thesis using plus v sums(1) mode signed_sum(1) [OF plus nz [OF plus], of "mode AND 3"] unfolding S_def sn_def E_def by simp
  next
    case left
    then have le: "unat b' \<le> unat a'" "unat a' \<noteq> unat b'" by (simp_all add: word_le_nat_alt unat_inj_iff)
    have X: "unat (a' - b') = unat a' - unat b'" using left(2) by (rule unat_sub)
    have "0 < va - vb" using sticky_pos [OF sums(2)] le by simp
    then have "vb * 2 powi (ex - 4) < va * 2 powi (ex - 4)" using p by simp
    then have less: "B < A" unfolding A [symmetric] B [symmetric] by (simp only: of_nat_less_iff)
    then have v: "real (A - B) = (va - vb) * 2 powi (ex - 4)" using A B by (simp add: of_nat_diff algebra_simps)
    have "va - vb = real (unat a' - unat b') \<or> 2 ^ (P + 2) \<le> unat a' - unat b'" using big le by (auto simp: of_nat_diff)
    with round_sum [of "a' - b'" "va - vb" mode "real (A - B)" ex sa flags, unfolded X] left v sums(2) [OF le(1)] mode
      signed_sum(2) [OF left(1) less, of "mode AND 3"]
    show ?thesis unfolding S_def sn_def E_def by simp
  next
    case right
    then have le: "unat a' \<le> unat b'" "unat a' \<noteq> unat b'" "a' \<le> b'" "b' \<noteq> a'" by (auto simp: word_le_nat_alt)
    have X: "unat (b' - a') = unat b' - unat a'" using le(3) by (rule unat_sub)
    have "0 < vb - va" using sticky_pos [OF sums(3)] le by simp
    then have "va * 2 powi (ex - 4) < vb * 2 powi (ex - 4)" using p by simp
    then have less: "A < B" unfolding A [symmetric] B [symmetric] by (simp only: of_nat_less_iff)
    then have v: "real (B - A) = (vb - va) * 2 powi (ex - 4)" using A B by (simp add: of_nat_diff algebra_simps)
    have "vb - va = real (unat b' - unat a') \<or> 2 ^ (P + 2) \<le> unat b' - unat a'" using big le by (auto simp: of_nat_diff)
    with round_sum [of "b' - a'" "vb - va" mode "real (B - A)" ex "\<not> sa" flags, unfolded X] right le(4) v sums(3) [OF le(1)] mode
      signed_sum(3) [OF right(1) less, of "mode AND 3"]
    show ?thesis unfolding S_def sn_def E_def by simp
  next
    case zero
    then have "va = vb" using sums(2) sticky_zero by fastforce
    then have "A = B" using A B by simp
    moreover have "0 < E" unfolding E_def by (rule E_pos)
    ultimately show ?thesis using zero signed_sum(4) [OF zero(1), of A B "mode AND 3"] unfolding S_def sn_def
      by (simp add: ieee_zero unat_specials sum_sign_def)
  qed
qed

lemma push_3: "unat m < 2 ^ (P + 1) \<Longrightarrow> unat (push_bit 3 (m :: 'w word)) = 8 * unat m"
proof -
  assume "unat m < 2 ^ (P + 1)"
  then have "unat m * 2 ^ 3 < 2 ^ (P + 1) * 2 ^ 3" by simp
  also have "\<dots> \<le> 2 ^ LENGTH('w)" unfolding width power_add [symmetric] using sizes by (intro power_increasing) simp_all
  finally show ?thesis by (subst unat_push_small) simp_all
qed

lemma add_correct:
  fixes a b :: "'w word" and neg :: bool and mode flags :: "32 word"
  defines "E \<equiv> 2 ^ (J + 1) - 1"
  assumes "fp_finite P J a" "fp_finite P J b" "mode AND FPLIB_FZ = 0"
  defines "sa \<equiv> fp_neg a" and "sb \<equiv> fp_neg b \<noteq> neg"
  defines "S \<equiv> signed_mag sa (fp_mag P J a) + signed_mag sb (fp_mag P J b)"
  defines "sn \<equiv> sum_sign sa sb (mode AND 3) S"
  shows "\<exists>x. add a b neg mode flags = Some (x, flags OR ieee_flags P E (mode AND 3) sn (real (nat \<bar>S\<bar>))) \<and>
    unat x = of_bool sn * 2 ^ (P + J + 1) + ieee_round P E (mode AND 3) sn (real (nat \<bar>S\<bar>))"
proof -
  obtain ea am where a: "unpack a mode flags = (fp_neg a, int ea, am, flags)" "1 \<le> ea" "ea < 2 ^ (J + 1) - 1" "unat am < 2 ^ (P + 1)"
    "1 < ea \<longrightarrow> 2 ^ P \<le> unat am" "fp_mag P J a = unat am * 2 ^ (ea - 1)" using unpack_finite [OF assms(4,2), of flags] by blast
  obtain eb bm where b: "unpack b mode flags = (fp_neg b, int eb, bm, flags)" "1 \<le> eb" "eb < 2 ^ (J + 1) - 1" "unat bm < 2 ^ (P + 1)"
    "1 < eb \<longrightarrow> 2 ^ P \<le> unat bm" "fp_mag P J b = unat bm * 2 ^ (eb - 1)" using unpack_finite [OF assms(4,3), of flags] by blast
  have E: "int ea \<noteq> 2 ^ (J + 1) - 1" "int eb \<noteq> 2 ^ (J + 1) - 1"
    by (rule exponent_not_max [OF a(3)], rule exponent_not_max [OF b(3)])
  have zeros: "am = 0 \<longleftrightarrow> fp_mag P J a = 0" "bm = 0 \<longleftrightarrow> fp_mag P J b = 0" using a(6) b(6) by (auto simp: unat_inj_iff)
  note ab = push_3 [OF a(4)] push_3 [OF b(4)]
  show ?thesis
  proof (cases "am = 0 \<and> bm = 0 \<and> sa = sb")
    case True
    then have "add a b neg mode flags = Some (zero sa, flags)"
      unfolding add_eq using a(1) b(1) no_NaNs [OF assms(2,3)] E by (simp add: sa_def sb_def)
    moreover have "S = 0" "sn = sa" using True zeros by (simp_all add: S_def sn_def signed_mag_def sum_sign_def)
    moreover have "0 < E" unfolding E_def by (rule E_pos)
    ultimately show ?thesis by (simp add: ieee_zero unat_specials)
  next
    case False
    define ex where "ex = max ea eb"
    define a' where "a' = (if ea \<ge> eb then push_bit 3 am else align (push_bit 3 am) (eb - ea))"
    define b' where "b' = (if ea \<ge> eb then align (push_bit 3 bm) (ea - eb) else push_bit 3 bm)"
    define va where "va = real (8 * unat am) / 2 ^ (ex - ea)"
    define vb where "vb = real (8 * unat bm) / 2 ^ (ex - eb)"
    have ua: "unat a' = jam (8 * unat am) (ex - ea)" and ub: "unat b' = jam (8 * unat bm) (ex - eb)"
      unfolding a'_def b'_def ex_def by (auto simp: align ab max_def)
    have st: "sticky (unat a') va" "sticky (unat b') vb" unfolding ua ub va_def vb_def by (rule sticky_jam [OF sticky_exact])+
    have exact: "even (unat a') \<and> va = real (unat a') \<or> even (unat b') \<and> vb = real (unat b')"
      unfolding ua ub va_def vb_def ex_def by (cases "ea \<ge> eb") (auto simp: max_def)
    have big: "va = real (unat a') \<and> vb = real (unat b') \<or> unat a' + 2 ^ (P + 2) \<le> unat b' \<or> unat b' + 2 ^ (P + 2) \<le> unat a'"
    proof (cases "ea \<ge> eb")
      case True
      then have "ex - ea = 0" "ex - eb = ea - eb" "0 < ea - eb \<Longrightarrow> 2 ^ P \<le> unat am" using a(5) b(2) by (simp_all add: ex_def)
      with align_exact_or_small [OF b(4), of "ea - eb" "unat am"] sizes show ?thesis unfolding ua ub va_def vb_def by auto
    next
      case False
      then have "ex - eb = 0" "ex - ea = eb - ea" "0 < eb - ea \<Longrightarrow> 2 ^ P \<le> unat bm" using b(5) a(2) by (simp_all add: ex_def)
      with align_exact_or_small [OF a(4), of "eb - ea" "unat bm"] sizes show ?thesis unfolding ua ub va_def vb_def by auto
    qed
    have small: "unat a' + unat b' < 2 ^ LENGTH('w)"
    proof -
      have "jam (8 * m) d < 2 ^ (P + 4)" if "m < 2 ^ (P + 1)" for m d
      proof (rule jam_bounds(2))
        have "8 * m < 2 ^ (P + 4) * 1" using that by (simp add: power_add)
        also have "\<dots> \<le> 2 ^ (P + 4) * 2 ^ d" by (intro mult_left_mono) simp_all
        finally show "8 * m < 2 ^ (P + 4) * 2 ^ d" .
      qed simp
      then have "unat a' < 2 ^ (P + 4)" "unat b' < 2 ^ (P + 4)" unfolding ua ub using a(4) b(4) by blast+
      moreover have "(2::nat) ^ (P + 5) \<le> 2 ^ LENGTH('w)" unfolding width using sizes by (intro power_increasing) simp_all
      moreover have "(2::nat) ^ (P + 5) = 2 ^ (P + 4) + 2 ^ (P + 4)" by (simp add: power_add)
      ultimately show ?thesis by linarith
    qed
    have mags: "real (fp_mag P J a) = va * 2 powi (int ex - 4)" "real (fp_mag P J b) = vb * 2 powi (int ex - 4)"
    proof -
      have "real (m * 2 ^ (e - 1)) = real (8 * m) / 2 ^ (ex - e) * 2 powi (int ex - 4)" if "1 \<le> e" "e \<le> ex" for m e
      proof -
        have "int ex - 4 = int (e - 1) + int (ex - e) - int 3" using that by simp
        then have pw: "(2::real) powi (int ex - 4) = 2 ^ (e - 1) * 2 ^ (ex - e) / 2 ^ 3" by (simp only: powi_nat)
        show ?thesis unfolding pw by simp
      qed
      then show "real (fp_mag P J a) = va * 2 powi (int ex - 4)" "real (fp_mag P J b) = vb * 2 powi (int ex - 4)"
        unfolding a(6) b(6) va_def vb_def using a(2) b(2) by (simp_all only: ex_def max.cobounded1 max.cobounded2)
    qed
    have nz: "sa = sb \<Longrightarrow> fp_mag P J a + fp_mag P J b \<noteq> 0" using False zeros by simp
    have run: "add a b neg mode flags = (let (x_sgn, x_mnt) =
         (if sa = sb then (sa, a' + b') else if a' \<ge> b' then (sa, a' - b') else (\<not> sa, b' - a'))
       in if x_mnt = 0 then Some (zero (mode AND 3 = 2), flags)
          else let (x_mnt, x_exp) = normalise x_mnt (int ex)
            in round_rm x_sgn (x_exp + int (J - 2)) (push_bit 1 x_mnt) (mode AND 3) mode flags)"
    proof -
      have pick: "(if int ea \<ge> int eb then (push_bit 3 am, align (push_bit 3 bm) (nat (int ea - int eb)), int ea)
          else (align (push_bit 3 am) (nat (int eb - int ea)), push_bit 3 bm, int eb)) = (a', b', int ex)"
        by (auto simp: a'_def b'_def ex_def max_def nat_minus_as_int)
      have "\<not> (am = 0 \<and> bm = 0 \<and> fp_neg a = (fp_neg b \<noteq> neg))" using False unfolding sa_def sb_def .
      with E show ?thesis
        unfolding add_eq a(1) b(1) Let_def prod.case no_NaNs [OF assms(2,3)] sa_def sb_def
        by (simp only: simp_thms if_False prod.case pick)
    qed
    show ?thesis unfolding run S_def sn_def E_def by (rule add_tail [OF st exact small assms(4) big mags nz])
  qed
qed

end

subsection \<open>Single and double precision\<close>

lemma align_jam: "unat (align32 m d) = jam (unat m) d" "unat (align64 m' d) = jam (unat m') d"
proof -
  have "unat (drop_bit d w OR of_bool (w AND (push_bit d 1 - 1) \<noteq> 0)) = jam (unat w) d" for w :: "'a::len word"
  proof -
    have "push_bit d 1 - 1 = (mask d :: 'a word)" by (simp add: mask_eq_exp_minus_1)
    moreover have "(w AND mask d \<noteq> 0) = (unat w mod 2 ^ d \<noteq> 0)" unfolding unat_and_mask [symmetric] by (simp only: unsigned_eq_0_iff)
    ultimately show ?thesis by (simp only: unat_or_bool unat_drop jam_eq)
  qed
  then show "unat (align32 m d) = jam (unat m) d" "unat (align64 m' d) = jam (unat m') d"
    by (simp_all only: align32_def align64_def lsr_eq lsl_eq)
qed

lemma format_masks:
  "(mask (7 + 1) :: 32 word) = 255" "(mask 23 :: 32 word) = push_bit 23 1 - 1" "(23::nat) + 7 + 1 = 31" "int (7 - 2) = 5"
  "(mask (10 + 1) :: 64 word) = 2047" "(mask 52 :: 64 word) = push_bit 52 1 - 1" "(52::nat) + 10 + 1 = 63" "int (10 - 2) = 8"
  by (simp_all add: mask_eq_exp_minus_1)

lemma finite_field:
  "drop_bit 23 (x :: 32 word) AND 255 = 255 \<longleftrightarrow> \<not> fp_finite 23 7 x"
  "drop_bit 52 (z :: 64 word) AND 2047 = 2047 \<longleftrightarrow> \<not> fp_finite 52 10 z"
proof -
  have "unat (drop_bit 23 x AND 255) = fp_exp 23 7 x" unfolding format_masks(1) [symmetric] by (simp only: unat_and_mask unat_drop fp_exp_def)
  then show "drop_bit 23 x AND 255 = 255 \<longleftrightarrow> \<not> fp_finite 23 7 x" by (simp add: unat_inj_iff fp_finite_def)
  have "unat (drop_bit 52 z AND 2047) = fp_exp 52 10 z" unfolding format_masks(5) [symmetric] by (simp only: unat_and_mask unat_drop fp_exp_def)
  then show "drop_bit 52 z AND 2047 = 2047 \<longleftrightarrow> \<not> fp_finite 52 10 z" by (simp add: unat_inj_iff fp_finite_def)
qed

interpretation single: fp_arith 23 7 255 fp32_pack fp32_zero fp32_infinity fp32_max_normal fp32_round_rm fp32_unpack fp32_process_NaNs
proof unfold_locales
  show "fp_finite 23 7 a \<Longrightarrow> fp_finite 23 7 b \<Longrightarrow> fp32_process_NaNs a b mode flags = (0, flags)" for a b :: "32 word" and mode flags
    by (simp add: fp32_process_NaNs_def finite_field Let_def)
qed (simp only: fp32_unpack_def format_masks)

interpretation single: fp_add 23 7 255 fp32_pack fp32_zero fp32_infinity fp32_max_normal fp32_round_rm fp32_unpack fp32_process_NaNs
  fp32_normalise align32 fp32_defaultNaN fp32_add
  by unfold_locales (use fp_normalise_spec(2) in \<open>simp_all only: align_jam fp32_add_def fp32_round_def format_masks format_nums\<close>)

interpretation double: fp_arith 52 10 "0x3ff" fp64_pack fp64_zero fp64_infinity fp64_max_normal fp64_round_rm fp64_unpack fp64_process_NaNs
proof unfold_locales
  show "fp_finite 52 10 a \<Longrightarrow> fp_finite 52 10 b \<Longrightarrow> fp64_process_NaNs a b mode flags = (0, flags)" for a b :: "64 word" and mode flags
    by (simp add: fp64_process_NaNs_def finite_field Let_def)
qed (simp only: fp64_unpack_def format_masks)

interpretation double: fp_add 52 10 "0x3ff" fp64_pack fp64_zero fp64_infinity fp64_max_normal fp64_round_rm fp64_unpack fp64_process_NaNs
  fp64_normalise align64 fp64_defaultNaN fp64_add
  by unfold_locales (use fp_normalise_spec(3) in \<open>simp_all only: align_jam fp64_add_def fp64_round_def format_masks format_nums\<close>)

end
