(* ===== verification/TiC_FP_Wide.thy ===== *)
theory TiC_FP_Wide
  imports TiC_FP_Arith
begin

text \<open>
  The 128-bit arithmetic of \<^verbatim>\<open>fplib.cc\<close> on pairs of 64-bit words, against the natural number a pair stands for.
\<close>

definition val128 :: "64 word \<times> 64 word \<Rightarrow> nat" where
  "val128 x = unat (fst x) + 2 ^ 64 * unat (snd x)"

lemma val128_less: "val128 x < 2 ^ 128"
proof -
  have "unat (fst x) < 2 ^ 64" "unat (snd x) < 2 ^ 64" using unsigned_less [of "fst x", where ?'a = nat] unsigned_less [of "snd x", where ?'a = nat] by simp_all
  then show ?thesis by (simp add: val128_def)
qed

lemma unat_or_split:
  fixes a b :: "'a::len word"
  assumes "unat a = k * 2 ^ n" "unat b < 2 ^ n"
  shows "unat (a OR b) = unat a + unat b"
proof (rule unat_or_disjoint)
  fix i
  show "\<not> bit a i \<or> \<not> bit b i"
  proof (cases "i < n")
    case True
    have "\<not> bit (unat a) i" unfolding assms(1) push_bit_eq_mult [symmetric] using True by (simp add: bit_push_bit_iff_nat)
    then show ?thesis by (simp add: bit_unsigned_iff)
  next
    case False
    then show ?thesis using bit_word_less [OF _ assms(2), of i] by blast
  qed
qed

lemma unat_push_mod: "unat (push_bit n (w :: 'a::len word)) = (unat w * 2 ^ n) mod 2 ^ LENGTH('a)"
  by (simp only: unsigned_push_bit_eq push_bit_eq_mult [where ?'a = nat] take_bit_eq_mod [where ?'a = nat])

lemma mod_unique: "x + k * m = y \<Longrightarrow> x < m \<Longrightarrow> y mod m = (x::nat)"
  by (metis mod_less mod_mult_self1)

lemma mod_scale: "(b * 2 ^ s) mod 2 ^ (t + s) = (b mod 2 ^ t) * (2::nat) ^ s"
  by (simp add: power_add mult_mod_left)

lemma lsl128_val: "val128 (lsl128 x0 x1 s) = (val128 (x0, x1) * 2 ^ s) mod 2 ^ 128"
proof -
  define a b where "a = unat x0" and "b = unat x1"
  have ab: "a < 2 ^ 64" "b < 2 ^ 64" using unsigned_less [of x0, where ?'a = nat] unsigned_less [of x1, where ?'a = nat] by (simp_all add: a_def b_def)
  consider (zero) "s = 0" | (low) "0 < s" "s < 64" | (high) "64 \<le> s" "s < 128" | (over) "128 \<le> s" by linarith
  then show ?thesis
  proof cases
    case zero
    then show ?thesis using val128_less [of "(x0, x1)"] by (simp add: lsl128_def)
  next
    case low
    define t where "t = 64 - s"
    have ts: "t + s = 64" using low by (simp add: t_def)
    have p: "(2::nat) ^ 64 = 2 ^ t * 2 ^ s" by (simp add: ts flip: power_add)
    have p2: "(2::nat) ^ 128 = 2 ^ 64 * 2 ^ 64" by simp
    have lo: "unat (push_bit s x0) = (a mod 2 ^ t) * 2 ^ s" and hi: "unat (push_bit s x1) = (b mod 2 ^ t) * 2 ^ s"
      using mod_scale [of a s t] mod_scale [of b s t] by (simp_all add: unat_push_mod ts a_def b_def)
    have "a div 2 ^ t < 2 ^ s" using ab(1) unfolding p by (simp add: div_less_iff_less_mult mult.commute)
    then have "unat (push_bit s x1 OR drop_bit t x0) = (b mod 2 ^ t) * 2 ^ s + a div 2 ^ t"
      using unat_or_split [OF hi, of "drop_bit t x0"] by (simp add: hi a_def)
    then have v: "val128 (lsl128 x0 x1 s) = (a mod 2 ^ t) * 2 ^ s + 2 ^ 64 * ((b mod 2 ^ t) * 2 ^ s + a div 2 ^ t)"
      using low by (simp add: lsl128_def val128_def lo t_def)
    have "(a mod 2 ^ t) * 2 ^ s + 2 ^ t * 2 ^ s * ((b mod 2 ^ t) * 2 ^ s + a div 2 ^ t) + (b div 2 ^ t) * (2 ^ t * 2 ^ s * (2 ^ t * 2 ^ s))
        = 2 ^ s * (a div 2 ^ t * 2 ^ t + a mod 2 ^ t) + 2 ^ t * 2 ^ s * 2 ^ s * (b div 2 ^ t * 2 ^ t + b mod 2 ^ t)" by algebra
    also have "\<dots> = (a + 2 ^ t * 2 ^ s * b) * 2 ^ s" unfolding div_mult_mod_eq by algebra
    finally have "val128 (lsl128 x0 x1 s) + (b div 2 ^ t) * 2 ^ 128 = val128 (x0, x1) * 2 ^ s"
      unfolding v unfolding val128_def fst_conv snd_conv a_def [symmetric] b_def [symmetric] p2 p .
    then show ?thesis by (rule mod_unique [OF _ val128_less, symmetric])
  next
    case high
    define t where "t = s - 64"
    have s: "s = t + 64" using high by (simp add: t_def)
    have u: "unat (push_bit t x0) = (a * 2 ^ t) mod 2 ^ 64" by (simp add: unat_push_mod a_def)
    have "val128 (lsl128 x0 x1 s) = ((a * 2 ^ t) * 2 ^ 64) mod 2 ^ (64 + 64)"
      using high unfolding mod_scale by (simp add: lsl128_def val128_def t_def [symmetric] u)
    also have "\<dots> = ((a * 2 ^ t) * 2 ^ 64 + (b * 2 ^ t) * 2 ^ 128) mod 2 ^ 128" by simp
    also have "(a * 2 ^ t) * 2 ^ 64 + (b * 2 ^ t) * 2 ^ 128 = val128 (x0, x1) * 2 ^ s"
      by (simp add: val128_def a_def b_def s power_add algebra_simps)
    finally show ?thesis .
  next
    case over
    have "val128 (x0, x1) * 2 ^ s = (val128 (x0, x1) * 2 ^ (s - 128)) * 2 ^ 128"
      using over by (metis le_add_diff_inverse2 mult.assoc power_add)
    then have "(val128 (x0, x1) * 2 ^ s) mod 2 ^ 128 = 0" by (simp only: mod_mult_self2_is_0)
    moreover have "val128 (lsl128 x0 x1 s) = 0" using over by (simp add: lsl128_def val128_def)
    ultimately show ?thesis by (simp only:)
  qed
qed

lemma lsr128_val: "val128 (lsr128 x0 x1 s) = val128 (x0, x1) div 2 ^ s"
proof -
  define a b where "a = unat x0" and "b = unat x1"
  have ab: "a < 2 ^ 64" "b < 2 ^ 64" using unsigned_less [of x0, where ?'a = nat] unsigned_less [of x1, where ?'a = nat] by (simp_all add: a_def b_def)
  consider (zero) "s = 0" | (low) "0 < s" "s < 64" | (high) "64 \<le> s" "s < 128" | (over) "128 \<le> s" by linarith
  then show ?thesis
  proof cases
    case zero
    then show ?thesis by (simp add: lsr128_def)
  next
    case low
    define t where "t = 64 - s"
    have ts: "s + t = 64" using low by (simp add: t_def)
    have p: "(2::nat) ^ 64 = 2 ^ s * 2 ^ t" by (simp add: ts flip: power_add)
    have lo: "unat (push_bit t x1) = (b mod 2 ^ s) * 2 ^ t"
      using mod_scale [of b t s] by (simp add: unat_push_mod ts b_def)
    have "a div 2 ^ s < 2 ^ t" using ab(1) unfolding p by (simp add: div_less_iff_less_mult mult.commute)
    then have "unat (push_bit t x1 OR drop_bit s x0) = (b mod 2 ^ s) * 2 ^ t + a div 2 ^ s"
      using unat_or_split [OF lo, of "drop_bit s x0"] by (simp add: lo a_def)
    then have "unat (drop_bit s x0 OR push_bit t x1) = (b mod 2 ^ s) * 2 ^ t + a div 2 ^ s"
      by (simp add: or.commute)
    then have "val128 (lsr128 x0 x1 s) = (b mod 2 ^ s) * 2 ^ t + a div 2 ^ s + 2 ^ s * 2 ^ t * (b div 2 ^ s)"
      using low by (simp add: lsr128_def val128_def t_def [symmetric] b_def ts flip: power_add)
    also have "\<dots> = a div 2 ^ s + 2 ^ t * (b div 2 ^ s * 2 ^ s + b mod 2 ^ s)" by algebra
    also have "\<dots> = (a + 2 ^ s * (2 ^ t * b)) div 2 ^ s" unfolding div_mult_mod_eq by simp
    also have "a + 2 ^ s * (2 ^ t * b) = val128 (x0, x1)" by (simp add: val128_def a_def b_def ts flip: power_add mult.assoc)
    finally show ?thesis .
  next
    case high
    define t where "t = s - 64"
    have s: "s = 64 + t" using high by (simp add: t_def)
    have "val128 (x0, x1) div 2 ^ 64 = b" using ab by (simp add: val128_def a_def b_def)
    then have "val128 (x0, x1) div 2 ^ s = b div 2 ^ t" unfolding s power_add by (simp only: div_mult2_eq)
    then show ?thesis using high by (simp add: lsr128_def val128_def t_def [symmetric] b_def)
  next
    case over
    have "(2::nat) ^ 128 \<le> 2 ^ s" using over by (rule power_increasing) simp
    then have "val128 (x0, x1) div 2 ^ s = 0" using val128_less [of "(x0, x1)"] by simp
    then show ?thesis using over by (simp add: lsr128_def val128_def)
  qed
qed

subsection \<open>The product of two 62-bit numbers\<close>

lemma split_digits:
  fixes a :: nat
  assumes "a < 2 ^ 62"
  shows "a = a mod 2 ^ 31 + 2 ^ 31 * (a div 2 ^ 31)" "a mod 2 ^ 31 < 2 ^ 31" "a div 2 ^ 31 < 2 ^ 31" "a div 2 ^ 31 mod 2 ^ 31 = a div 2 ^ 31"
  using assms by simp_all

lemma combine_digits:
  fixes x y z :: "64 word"
  shows "val128 ((x AND mask 31) OR push_bit 31 (y AND mask 31) OR push_bit 62 z, drop_bit 2 z) = unat x mod 2 ^ 31 + 2 ^ 31 * (unat y mod 2 ^ 31) + 2 ^ 62 * unat z"
proof -
  have ux: "unat (x AND mask 31) = unat x mod 2 ^ 31" by (rule unat_and_mask)
  have "unat (y AND mask 31) * 2 ^ 31 < 2 ^ 31 * 2 ^ 31" by (simp only: unat_and_mask mult_less_cancel2) simp
  then have uy: "unat (push_bit 31 (y AND mask 31)) = (unat y mod 2 ^ 31) * 2 ^ 31"
    by (subst unat_push_small) (simp_all add: unat_and_mask)
  have uz: "unat (push_bit 62 z) = (unat z mod 2 ^ 2) * 2 ^ 62" using mod_scale [of "unat z" 62 2] by (simp add: unat_push_mod)
  have "(unat y mod 2 ^ 31) * 2 ^ 31 < 2 ^ 31 * (2::nat) ^ 31" by (simp only: mult_less_cancel2) simp
  then have lt: "unat (push_bit 31 (y AND mask 31)) < 2 ^ 62" unfolding uy by simp
  have zy: "unat (push_bit 62 z OR push_bit 31 (y AND mask 31)) = (unat z mod 2 ^ 2 * 2 ^ 31 + unat y mod 2 ^ 31) * 2 ^ 31"
    unfolding unat_or_split [OF uz lt] unfolding uy uz by simp
  have "unat (x AND mask 31) < 2 ^ 31" unfolding ux by simp
  note unat_or_split [OF zy this]
  then have "unat ((x AND mask 31) OR push_bit 31 (y AND mask 31) OR push_bit 62 z) = (unat z mod 2 ^ 2 * 2 ^ 31 + unat y mod 2 ^ 31) * 2 ^ 31 + unat x mod 2 ^ 31"
    unfolding zy ux by (simp only: or.commute or.assoc or.left_commute)
  moreover have "(c * 2 ^ 31 + y') * 2 ^ 31 + x' + 2 ^ 64 * d = x' + 2 ^ 31 * y' + 2 ^ 62 * (c + 2 ^ 2 * d)" for c d x' y' :: nat by simp
  ultimately show ?thesis unfolding val128_def fst_conv snd_conv unat_drop by (simp only: mod_mult_div_eq)
qed

lemma mul62x62_val:
  assumes "unat a < 2 ^ 62" "unat b < 2 ^ 62"
  shows "val128 (mul62x62 a b) = unat a * unat b"
proof -
  have mask: "push_bit 31 1 - 1 = (mask 31 :: 64 word)" by (simp add: mask_eq_exp_minus_1)
  define a0 a1 b0 b1 where "a0 = a AND mask 31" and "a1 = drop_bit 31 a AND mask 31" and "b0 = b AND mask 31" and "b1 = drop_bit 31 b AND mask 31"
  define A0 A1 B0 B1 where "A0 = unat a mod 2 ^ 31" and "A1 = unat a div 2 ^ 31" and "B0 = unat b mod 2 ^ 31" and "B1 = unat b div 2 ^ 31"
  have ua: "unat a0 = A0" "unat a1 = A1" unfolding a0_def a1_def A0_def A1_def unat_and_mask unat_drop by (rule refl, rule split_digits(4) [OF assms(1)])
  have ub: "unat b0 = B0" "unat b1 = B1" unfolding b0_def b1_def B0_def B1_def unat_and_mask unat_drop by (rule refl, rule split_digits(4) [OF assms(2)])
  have lt: "A0 < 2 ^ 31" "A1 < 2 ^ 31" "B0 < 2 ^ 31" "B1 < 2 ^ 31"
    unfolding A0_def A1_def B0_def B1_def by (rule split_digits [OF assms(1)] split_digits [OF assms(2)])+
  have a: "unat a = A0 + 2 ^ 31 * A1" and b: "unat b = B0 + 2 ^ 31 * B1"
    unfolding A0_def A1_def B0_def B1_def by (rule split_digits(1) [OF assms(1)], rule split_digits(1) [OF assms(2)])
  have prod: "x * y < 2 ^ 62" if "x < 2 ^ 31" "y < 2 ^ 31" for x y :: nat
    using mult_strict_mono' [OF that] by simp
  have word: "unat (x * y) = unat x * unat y" if "unat x * unat y < 2 ^ 64" for x y :: "64 word"
    using that unat_mult_lem [of x y] by simp
  have plus: "unat (x + y) = unat x + unat y" if "unat x + unat y < 2 ^ 64" for x y :: "64 word"
    using that unat_add_lem [of x y] by simp
  define p0 p2 p1 where "p0 = a0 * b0" and "p2 = a1 * b1" and "p1 = (a0 + a1) * (b0 + b1) - p0 - p2"
  define s1 where "s1 = drop_bit 31 p0 + p1"
  define s2 where "s2 = drop_bit 31 s1 + p2"
  note lt' = prod [OF lt(1) lt(3)] prod [OF lt(2) lt(4)] prod [OF lt(1) lt(4)] prod [OF lt(2) lt(3)]
  have p0: "unat p0 = A0 * B0" and p2: "unat p2 = A1 * B1" using lt'(1,2) by (simp_all add: p0_def p2_def word ua ub)
  have sums: "unat (a0 + a1) = A0 + A1" "unat (b0 + b1) = B0 + B1" using lt by (simp_all add: plus ua ub)
  have expand: "(A0 + A1) * (B0 + B1) = A0 * B0 + A1 * B1 + (A0 * B1 + A1 * B0)" by algebra
  have big: "unat ((a0 + a1) * (b0 + b1)) = A0 * B0 + A1 * B1 + (A0 * B1 + A1 * B0)"
    using lt' unfolding expand [symmetric] by (subst word) (simp_all add: sums, simp add: expand)
  then have d1: "unat ((a0 + a1) * (b0 + b1) - p0) = A1 * B1 + (A0 * B1 + A1 * B0)"
    by (subst unat_sub) (simp_all add: word_le_nat_alt p0)
  have p1: "unat p1 = A0 * B1 + A1 * B0"
    unfolding p1_def by (subst unat_sub) (simp_all add: word_le_nat_alt d1 p2)
  define Q0 where "Q0 = A0 * B0 div 2 ^ 31"
  have "Q0 < 2 ^ 31" using lt'(1) by (simp add: Q0_def div_less_iff_less_mult)
  then have s1: "unat s1 = Q0 + (A0 * B1 + A1 * B0)"
    unfolding s1_def Q0_def using lt' by (subst plus) (simp_all add: p0 p1)
  define Q1 where "Q1 = unat s1 div 2 ^ 31"
  have "unat s1 < 2 ^ 64" using unsigned_less [of s1, where ?'a = nat] by simp
  then have "Q1 < 2 ^ 33" by (simp add: Q1_def div_less_iff_less_mult)
  then have s2: "unat s2 = Q1 + A1 * B1"
    unfolding s2_def Q1_def using lt' by (subst plus) (simp_all add: p2)
  have c0: "A0 * B0 = A0 * B0 mod 2 ^ 31 + 2 ^ 31 * Q0" unfolding Q0_def by (rule mod_mult_div_eq [symmetric])
  have c1: "Q0 + (A0 * B1 + A1 * B0) = unat s1 mod 2 ^ 31 + 2 ^ 31 * Q1" unfolding Q1_def s1 [symmetric] by (rule mod_mult_div_eq [symmetric])
  have carry: "r0 + 2 ^ 31 * r1 + 2 ^ 62 * (q1 + c) = r + 2 ^ 31 * m + 2 ^ 62 * c" if "r = r0 + 2 ^ 31 * q0" "q0 + m = r1 + 2 ^ 31 * q1"
    for r0 r1 q0 q1 r m c :: nat using that by simp
  have "mul62x62 a b = ((p0 AND mask 31) OR push_bit 31 (s1 AND mask 31) OR push_bit 62 s2, drop_bit 2 s2)"
    unfolding mul62x62_def mask Let_def a0_def [symmetric] a1_def [symmetric] b0_def [symmetric] b1_def [symmetric] p0_def [symmetric] p2_def [symmetric]
      p1_def [symmetric] s1_def [symmetric] s2_def [symmetric] ..
  then have "val128 (mul62x62 a b) = A0 * B0 + 2 ^ 31 * (A0 * B1 + A1 * B0) + 2 ^ 62 * (A1 * B1)"
    by (simp only: combine_digits p0 s2 carry [OF c0 c1])
  also have "\<dots> = (A0 + 2 ^ 31 * A1) * (B0 + 2 ^ 31 * B1)" by (simp add: algebra_simps)
  finally show ?thesis unfolding a b .
qed

subsection \<open>Normalisation of a pair\<close>

lemma normalise128_step:
  assumes "0 < s" "s \<le> 32" "2 ^ (128 - 2 * s) \<le> val128 (x0, x1)"
  shows "\<exists>t y0 y1. normalise128_loop s (x0, x1, ex) = normalise128_loop (s div 2) (y0, y1, ex - int t) \<and>
    val128 (y0, y1) = val128 (x0, x1) * 2 ^ t \<and> 2 ^ (128 - s) \<le> val128 (y0, y1)"
proof -
  have top: "drop_bit (64 - s) x1 = 0 \<longleftrightarrow> val128 (x0, x1) < 2 ^ (128 - s)"
  proof -
    have "128 - s = 64 + (64 - s)" using assms(2) by simp
    then have "val128 (x0, x1) div 2 ^ (128 - s) = val128 (x0, x1) div 2 ^ 64 div 2 ^ (64 - s)" by (simp only: power_add div_mult2_eq)
    also have "val128 (x0, x1) div 2 ^ 64 = unat x1" using unsigned_less [of x0, where ?'a = nat] by (simp add: val128_def)
    finally have "unat (drop_bit (64 - s) x1) = val128 (x0, x1) div 2 ^ (128 - s)" by (simp only: unat_drop)
    then show ?thesis by (simp add: unat_inj_iff div_eq_0_iff)
  qed
  show ?thesis
  proof (cases "val128 (x0, x1) < 2 ^ (128 - s)")
    case True
    have shift: "lsl128 x0 x1 s = (push_bit s x0, push_bit s x1 OR drop_bit (64 - s) x0)" using assms(1,2) by (simp add: lsl128_def)
    have "normalise128_loop s (x0, x1, ex) = normalise128_loop (s div 2) (push_bit s x0, push_bit s x1 OR drop_bit (64 - s) x0, ex - int s)"
      using assms(1) top True by (simp add: normalise128_loop.simps [of s])
    moreover have "val128 (x0, x1) * 2 ^ s < 2 ^ (128 - s) * 2 ^ s" using True by simp
    then have "val128 (x0, x1) * 2 ^ s < 2 ^ 128" using assms(2) by (simp flip: power_add)
    then have v: "val128 (push_bit s x0, push_bit s x1 OR drop_bit (64 - s) x0) = val128 (x0, x1) * 2 ^ s"
      unfolding shift [symmetric] lsl128_val by (rule mod_less)
    moreover have "2 ^ (128 - 2 * s) * 2 ^ s \<le> val128 (x0, x1) * 2 ^ s" using assms(3) by simp
    moreover have "128 - 2 * s + s = 128 - s" using assms(2) by simp
    ultimately show ?thesis
      by (intro exI [of _ s] exI [of _ "push_bit s x0"] exI [of _ "push_bit s x1 OR drop_bit (64 - s) x0"]) (simp flip: power_add)
  next
    case False
    then have "normalise128_loop s (x0, x1, ex) = normalise128_loop (s div 2) (x0, x1, ex - int 0)"
      using assms(1) top by (simp add: normalise128_loop.simps [of s])
    with False show ?thesis by (intro exI [of _ 0] exI [of _ x0] exI [of _ x1]) simp
  qed
qed

lemma normalise128_loop_spec:
  assumes "n \<le> 5" "2 ^ (128 - 2 ^ Suc n) \<le> val128 (x0, x1)"
  shows "\<exists>s y0 y1. normalise128_loop (2 ^ n) (x0, x1, ex) = (y0, y1, ex - int s) \<and> val128 (y0, y1) = val128 (x0, x1) * 2 ^ s \<and> 2 ^ 127 \<le> val128 (y0, y1)"
  using assms
proof (induction n arbitrary: x0 x1 ex)
  case 0
  then show ?case using normalise128_step [of 1 x0 x1 ex] by (simp add: normalise128_loop.simps [of 0])
next
  case (Suc n)
  have "(2::nat) ^ Suc n \<le> 2 ^ 5" using Suc.prems(1) by (intro power_increasing) simp_all
  then obtain t y0 y1 where t: "normalise128_loop (2 ^ Suc n) (x0, x1, ex) = normalise128_loop (2 ^ Suc n div 2) (y0, y1, ex - int t)"
    "val128 (y0, y1) = val128 (x0, x1) * 2 ^ t" "2 ^ (128 - 2 ^ Suc n) \<le> val128 (y0, y1)"
    using normalise128_step [of "2 ^ Suc n" x0 x1 ex] Suc.prems by auto
  moreover obtain s z0 z1 where "normalise128_loop (2 ^ n) (y0, y1, ex - int t) = (z0, z1, ex - int t - int s)"
    "val128 (z0, z1) = val128 (y0, y1) * 2 ^ s" "2 ^ 127 \<le> val128 (z0, z1)"
    using Suc.IH [of y0 y1 "ex - int t"] Suc.prems(1) t(3) by auto
  ultimately show ?case by (intro exI [of _ "t + s"] exI [of _ z0] exI [of _ z1]) (simp add: power_add)
qed

lemma fp128_normalise_spec:
  assumes "val128 (x0, x1) \<noteq> 0"
  shows "\<exists>s y0 y1. fp128_normalise x0 x1 ex = (y0, y1, ex - int s) \<and> val128 (y0, y1) = val128 (x0, x1) * 2 ^ s \<and> 2 ^ 127 \<le> val128 (y0, y1)"
proof (cases "x1 = 0")
  case True
  then have nz: "x0 \<noteq> 0" using assms by (auto simp: val128_def)
  then have "(2::nat) ^ (128 - 2 ^ Suc 5) \<le> val128 (0, x0)" by (simp add: val128_def unat_inj_iff Suc_le_eq)
  then obtain s y0 y1 where "normalise128_loop (2 ^ 5) (0, x0, ex - 64) = (y0, y1, ex - 64 - int s)"
    "val128 (y0, y1) = val128 (0, x0) * 2 ^ s" "2 ^ 127 \<le> val128 (y0, y1)"
    using normalise128_loop_spec [of 5 0 x0 "ex - 64"] by auto
  with True nz show ?thesis
    by (intro exI [of _ "64 + s"] exI [of _ y0] exI [of _ y1]) (simp add: fp128_normalise_def val128_def power_add)
next
  case False
  then have "(2::nat) ^ (128 - 2 ^ Suc 5) \<le> val128 (x0, x1)" by (simp add: val128_def unat_inj_iff Suc_le_eq)
  with normalise128_loop_spec [of 5 x0 x1 ex] False show ?thesis by (simp add: fp128_normalise_def)
qed

end
