(* ===== verification/TiC_FP_Mul.thy ===== *)
theory TiC_FP_Mul
  imports TiC_FP_Wide
begin

text \<open>
  Multiplication of finite numbers is correctly rounded. The two precisions compute the exact product in a word of
  twice the length, the double one as a pair, and keep a sticky bit; the locale asks for no more than that.
\<close>

subsection \<open>Multiplication\<close>

locale fp_mul = fp_arith P J round_mask pack zero infinity max_normal round_rm unpack process_NaNs
  for P J :: nat and round_mask :: "'w::len word" and pack and zero infinity max_normal and round_rm and unpack and process_NaNs +
  fixes C :: nat and product :: "'w word \<Rightarrow> 'w word \<Rightarrow> int \<Rightarrow> 'w word \<times> int" and defaultNaN :: "'w word"
    and mul :: "'w word \<Rightarrow> 'w word \<Rightarrow> 32 word \<Rightarrow> 32 word \<Rightarrow> ('w word \<times> 32 word) option"
  assumes bias: "C + LENGTH('w) + J = 2 ^ J + P - 2"
    and product: "a \<noteq> 0 \<Longrightarrow> b \<noteq> 0 \<Longrightarrow> unat a < 2 ^ (P + 1) \<Longrightarrow> unat b < 2 ^ (P + 1) \<Longrightarrow>
      \<exists>s m. product a b ex = (m, ex - int s) \<and> sticky (2 ^ LENGTH('w) + unat m) (real (unat a * unat b) * 2 ^ s / 2 ^ (LENGTH('w) - 1))"
    and mul_eq: "mul a b mode flags = (let
     (a_sgn, a_exp, a_mnt, flags) = unpack a mode flags;
     (b_sgn, b_exp, b_mnt, flags) = unpack b mode flags;
     (x, flags) = process_NaNs a b mode flags
     in if x \<noteq> 0 then Some (x, flags)
     else if a_exp = 2 ^ (J + 1) - 1 \<and> b_mnt = 0 \<or> b_exp = 2 ^ (J + 1) - 1 \<and> a_mnt = 0 then Some (defaultNaN, flags OR FPLIB_IOC)
     else if a_exp = 2 ^ (J + 1) - 1 \<or> b_exp = 2 ^ (J + 1) - 1 then Some (infinity (a_sgn \<noteq> b_sgn), flags)
     else if a_mnt = 0 \<or> b_mnt = 0 then Some (zero (a_sgn \<noteq> b_sgn), flags)
     else let (x_mnt, x_exp) = product a_mnt b_mnt (a_exp + b_exp - int C)
       in round_rm (a_sgn \<noteq> b_sgn) x_exp x_mnt (mode AND 3) mode flags)"
begin

lemma mul_correct:
  fixes a b :: "'w word" and mode flags :: "32 word"
  defines "E \<equiv> 2 ^ (J + 1) - 1"
  assumes "fp_finite P J a" "fp_finite P J b" "mode AND FPLIB_FZ = 0"
  defines "sn \<equiv> fp_neg a \<noteq> fp_neg b" and "y \<equiv> real (fp_mag P J a * fp_mag P J b) / 2 ^ (2 ^ J + P - 2)"
  shows "\<exists>x. mul a b mode flags = Some (x, flags OR ieee_flags P E (mode AND 3) sn y) \<and>
    unat x = of_bool sn * 2 ^ (P + J + 1) + ieee_round P E (mode AND 3) sn y"
proof -
  obtain ea am where a: "unpack a mode flags = (fp_neg a, int ea, am, flags)" "1 \<le> ea" "ea < 2 ^ (J + 1) - 1" "unat am < 2 ^ (P + 1)"
    "1 < ea \<longrightarrow> 2 ^ P \<le> unat am" "fp_mag P J a = unat am * 2 ^ (ea - 1)" using unpack_finite [OF assms(4,2), of flags] by blast
  obtain eb bm where b: "unpack b mode flags = (fp_neg b, int eb, bm, flags)" "1 \<le> eb" "eb < 2 ^ (J + 1) - 1" "unat bm < 2 ^ (P + 1)"
    "1 < eb \<longrightarrow> 2 ^ P \<le> unat bm" "fp_mag P J b = unat bm * 2 ^ (eb - 1)" using unpack_finite [OF assms(4,3), of flags] by blast
  have E: "int ea \<noteq> 2 ^ (J + 1) - 1" "int eb \<noteq> 2 ^ (J + 1) - 1"
    by (rule exponent_not_max [OF a(3)], rule exponent_not_max [OF b(3)])
  have run: "mul a b mode flags = (if am = 0 \<or> bm = 0 then Some (zero sn, flags)
     else let (x_mnt, x_exp) = product am bm (int ea + int eb - int C) in round_rm sn x_exp x_mnt (mode AND 3) mode flags)"
    unfolding mul_eq a(1) b(1) Let_def prod.case no_NaNs [OF assms(2,3)] sn_def using E by (simp only: simp_thms if_False)
  show ?thesis
  proof (cases "am = 0 \<or> bm = 0")
    case True
    then have "y = 0" using a(6) b(6) by (auto simp: y_def)
    moreover have "0 < E" unfolding E_def by (rule E_pos)
    ultimately show ?thesis using True by (simp add: run ieee_zero unat_specials)
  next
    case False
    then obtain s m where m: "product am bm (int ea + int eb - int C) = (m, int ea + int eb - int C - int s)"
      "sticky (2 ^ LENGTH('w) + unat m) (real (unat am * unat bm) * 2 ^ s / 2 ^ (LENGTH('w) - 1))"
      using product [of am bm "int ea + int eb - int C"] a(4) b(4) by blast
    define v where "v = real (unat am * unat bm) * 2 ^ s / 2 ^ (LENGTH('w) - 1)"
    have y: "y = v * 2 powi (int ea + int eb - int C - int s - 3 - int J)"
    proof -
      have "int ea + int eb - int C - int s - 3 - int J = int (ea - 1) + int (eb - 1) + int (LENGTH('w) - 1) - int s - int (C + LENGTH('w) + J)"
        using a(2) b(2) by (simp add: of_nat_diff width)
      then have "(2::real) powi (int ea + int eb - int C - int s - 3 - int J) =
          2 ^ (ea - 1) * 2 ^ (eb - 1) * 2 ^ (LENGTH('w) - 1) / 2 ^ s / 2 ^ (C + LENGTH('w) + J)" by (simp only: powi_nat)
      then show ?thesis unfolding y_def v_def a(6) b(6) bias by (simp add: field_simps)
    qed
    have "sticky (jam (2 ^ LENGTH('w) + unat m) J) (v / 2 ^ J)" using m(2) unfolding v_def by (rule sticky_jam)
    from round_correct [OF and_3_not_tieaway disjI1 [OF assms(4)] this y]
    show ?thesis unfolding run m(1) Let_def prod.case E_def using False by (simp only: if_False)
  qed
qed

end

text \<open>The exact products.\<close>

lemma sticky_real_div: "sticky (jam N d) (real N / 2 ^ d)"
  by (rule sticky_jam [OF sticky_exact])

lemma unat_up: "unat (ucast (w :: 32 word) :: 64 word) = unat w"
  using unsigned_less [of w, where ?'a = nat] by (simp add: unsigned_ucast_eq take_bit_nat_eq_self_iff)

lemma product32:
  fixes a b :: "32 word"
  assumes "a \<noteq> 0" "b \<noteq> 0" "unat a < 2 ^ (23 + 1)" "unat b < 2 ^ (23 + 1)"
  shows "\<exists>s (m :: 32 word). (let (x_mnt, x_exp) = fp64_normalise (ucast a * ucast b) ex;
       x_mnt = lsr64 x_mnt 31 OR of_bool (lsl64 x_mnt 33 \<noteq> 0) in (ucast x_mnt, x_exp)) = (m, ex - int s) \<and>
    sticky (2 ^ LENGTH(32) + unat m) (real (unat a * unat b) * 2 ^ s / 2 ^ (LENGTH(32) - 1))"
proof -
  have "unat a * unat b < 2 ^ (23 + 1) * 2 ^ (23 + 1)" using assms(3,4) by (intro mult_strict_mono') simp_all
  then have x: "unat (ucast a * ucast b :: 64 word) = unat a * unat b"
    using unat_mult_lem [of "ucast a :: 64 word" "ucast b"] by (simp add: unat_up)
  moreover have "unat a * unat b \<noteq> 0" using assms(1,2) by (simp add: unat_inj_iff)
  ultimately have "ucast a * ucast b \<noteq> (0 :: 64 word)" by (auto simp: unat_inj_iff)
  then obtain s N where s: "fp64_normalise (ucast a * ucast b) ex = (N, ex - int s)" "unat N = unat a * unat b * 2 ^ s" "2 ^ 63 \<le> unat N"
    using fp_normalise_spec(3) [of "ucast a * ucast b" ex] x by metis
  define m where "m = drop_bit 31 N OR of_bool (push_bit 33 N \<noteq> 0)"
  have "unat (push_bit 33 N) = (unat N mod 2 ^ 31) * 2 ^ 33" using mod_scale [of "unat N" 33 31] by (simp add: unat_push_mod)
  then have nz: "push_bit 33 N \<noteq> 0 \<longleftrightarrow> unat N mod 2 ^ 31 \<noteq> 0" by (simp add: unat_inj_iff)
  have m: "unat m = jam (unat N) 31" unfolding m_def unat_or_bool nz jam_eq by (simp only: unat_drop)
  have "unat N < 2 ^ 64" using unsigned_less [of N, where ?'a = nat] by simp
  then have "2 ^ 32 \<le> unat m" "unat m < 2 ^ 33" unfolding m using s(3) by (intro jam_bounds; simp)+
  then have eq: "2 ^ LENGTH(32) + unat (ucast m :: 32 word) = jam (unat N) 31" by (simp add: unsigned_ucast_eq take_bit_eq_mod le_mod_geq m)
  have "sticky (2 ^ LENGTH(32) + unat (ucast m :: 32 word)) (real (unat a * unat b) * 2 ^ s / 2 ^ (LENGTH(32) - 1))"
    unfolding eq using sticky_real_div [of "unat N" 31] unfolding s(2) by simp
  then show ?thesis unfolding s(1) Let_def prod.case lsr_eq lsl_eq m_def [symmetric] by blast
qed

lemma product64:
  fixes a b :: "64 word"
  assumes "a \<noteq> 0" "b \<noteq> 0" "unat a < 2 ^ (52 + 1)" "unat b < 2 ^ (52 + 1)"
  shows "\<exists>s m. (let (x0_mnt, x1_mnt) = mul62x62 a b;
       (x0_mnt, x1_mnt, x_exp) = fp128_normalise x0_mnt x1_mnt ex in (push_bit 1 x1_mnt OR of_bool (x0_mnt \<noteq> 0), x_exp)) = (m, ex - int s) \<and>
    sticky (2 ^ LENGTH(64) + unat m) (real (unat a * unat b) * 2 ^ s / 2 ^ (LENGTH(64) - 1))"
proof -
  obtain x0 x1 where x: "mul62x62 a b = (x0, x1)" by (cases "mul62x62 a b")
  have v: "val128 (x0, x1) = unat a * unat b" using mul62x62_val [of a b] assms(3,4) by (simp add: x)
  moreover have "unat a * unat b \<noteq> 0" using assms(1,2) by (simp add: unat_inj_iff)
  ultimately obtain s y0 y1 where s: "fp128_normalise x0 x1 ex = (y0, y1, ex - int s)"
    "val128 (y0, y1) = unat a * unat b * 2 ^ s" "2 ^ 127 \<le> val128 (y0, y1)" using fp128_normalise_spec [of x0 x1 ex] by metis
  have y0: "unat y0 < 2 ^ 64" and y1: "unat y1 < 2 ^ 64" using unsigned_less [of y0, where ?'a = nat] unsigned_less [of y1, where ?'a = nat] by simp_all
  then have "2 ^ 63 \<le> unat y1" using s(3) by (simp add: val128_def)
  then have "unat (push_bit 1 y1) = 2 * unat y1 - 2 ^ 64" using y1 unfolding unat_push_mod by (simp add: le_mod_geq)
  then have m: "2 ^ 64 + unat (push_bit 1 y1 OR of_bool (y0 \<noteq> 0)) = 2 * unat y1 + of_bool (unat y0 \<noteq> 0)"
    using \<open>2 ^ 63 \<le> unat y1\<close> unfolding unat_or_bool unat_inj_iff [of y0 0] by simp
  have "real (unat y0) < 2 ^ 64" using y0 by (metis of_nat_less_iff of_nat_numeral of_nat_power)
  moreover have "real (val128 (y0, y1)) / 2 ^ 63 = 2 * real (unat y1) + real (unat y0) / 2 ^ 63" by (simp add: val128_def field_simps del: of_nat_unat)
  ultimately have "sticky (2 * unat y1 + of_bool (unat y0 \<noteq> 0)) (real (val128 (y0, y1)) / 2 ^ 63)" by (auto simp: sticky_def simp del: of_nat_unat)
  then show ?thesis unfolding x Let_def prod.case s(1) using m
    by (intro exI [of _ s] exI [of _ "push_bit 1 y1 OR of_bool (y0 \<noteq> 0)"]) (simp add: s(2))
qed

interpretation single: fp_mul 23 7 255 fp32_pack fp32_zero fp32_infinity fp32_max_normal fp32_round_rm fp32_unpack fp32_process_NaNs
  110 "\<lambda>a b ex. let (x_mnt, x_exp) = fp64_normalise (ucast a * ucast b) ex;
       x_mnt = lsr64 x_mnt 31 OR of_bool (lsl64 x_mnt 33 \<noteq> 0) in (ucast x_mnt, x_exp)" fp32_defaultNaN fp32_mul
proof unfold_locales
  show "fp32_mul a b mode flags = (let
     (a_sgn, a_exp, a_mnt, flags) = fp32_unpack a mode flags;
     (b_sgn, b_exp, b_mnt, flags) = fp32_unpack b mode flags;
     (x, flags) = fp32_process_NaNs a b mode flags
     in if x \<noteq> 0 then Some (x, flags)
     else if a_exp = 2 ^ (7 + 1) - 1 \<and> b_mnt = 0 \<or> b_exp = 2 ^ (7 + 1) - 1 \<and> a_mnt = 0 then Some (fp32_defaultNaN, flags OR FPLIB_IOC)
     else if a_exp = 2 ^ (7 + 1) - 1 \<or> b_exp = 2 ^ (7 + 1) - 1 then Some (fp32_infinity (a_sgn \<noteq> b_sgn), flags)
     else if a_mnt = 0 \<or> b_mnt = 0 then Some (fp32_zero (a_sgn \<noteq> b_sgn), flags)
     else let (x_mnt, x_exp) = (let (x_mnt, x_exp) = fp64_normalise (ucast a_mnt * ucast b_mnt) (a_exp + b_exp - int 110);
           x_mnt = lsr64 x_mnt 31 OR of_bool (lsl64 x_mnt 33 \<noteq> 0) in (ucast x_mnt, x_exp))
       in fp32_round_rm (a_sgn \<noteq> b_sgn) x_exp x_mnt (mode AND 3) mode flags)" for a b mode flags
    unfolding fp32_mul_def fp32_round_def Let_def format_nums by (simp only: prod.case_distrib split_beta fst_conv snd_conv of_nat_numeral)
qed (simp, rule product32)

interpretation double: fp_mul 52 10 "0x3ff" fp64_pack fp64_zero fp64_infinity fp64_max_normal fp64_round_rm fp64_unpack fp64_process_NaNs
  1000 "\<lambda>a b ex. let (x0_mnt, x1_mnt) = mul62x62 a b;
       (x0_mnt, x1_mnt, x_exp) = fp128_normalise x0_mnt x1_mnt ex in (push_bit 1 x1_mnt OR of_bool (x0_mnt \<noteq> 0), x_exp)" fp64_defaultNaN fp64_mul
proof unfold_locales
  show "fp64_mul a b mode flags = (let
     (a_sgn, a_exp, a_mnt, flags) = fp64_unpack a mode flags;
     (b_sgn, b_exp, b_mnt, flags) = fp64_unpack b mode flags;
     (x, flags) = fp64_process_NaNs a b mode flags
     in if x \<noteq> 0 then Some (x, flags)
     else if a_exp = 2 ^ (10 + 1) - 1 \<and> b_mnt = 0 \<or> b_exp = 2 ^ (10 + 1) - 1 \<and> a_mnt = 0 then Some (fp64_defaultNaN, flags OR FPLIB_IOC)
     else if a_exp = 2 ^ (10 + 1) - 1 \<or> b_exp = 2 ^ (10 + 1) - 1 then Some (fp64_infinity (a_sgn \<noteq> b_sgn), flags)
     else if a_mnt = 0 \<or> b_mnt = 0 then Some (fp64_zero (a_sgn \<noteq> b_sgn), flags)
     else let (x_mnt, x_exp) = (let (x0_mnt, x1_mnt) = mul62x62 a_mnt b_mnt;
       (x0_mnt, x1_mnt, x_exp) = fp128_normalise x0_mnt x1_mnt (a_exp + b_exp - int 1000) in (push_bit 1 x1_mnt OR of_bool (x0_mnt \<noteq> 0), x_exp))
       in fp64_round_rm (a_sgn \<noteq> b_sgn) x_exp x_mnt (mode AND 3) mode flags)" for a b mode flags
    unfolding fp64_mul_def fp64_round_def Let_def format_nums by (simp only: prod.case_distrib split_beta fst_conv snd_conv of_nat_numeral)
qed (simp, rule product64)

end
