(* ===== verification/TiC_FP_Div.thy ===== *)
theory TiC_FP_Div
  imports TiC_FP_Mul
begin

text \<open>
  Division of finite numbers is correctly rounded. In single precision the quotient and its sticky bit come from one integer
  division. In double precision the reciprocal of the divisor is one Newton step from a 32-bit estimate; the quotient obtained
  with it is never above the exact one and less than two units below it, so that one comparison fixes the last bit.
\<close>

subsection \<open>Pairs of words\<close>

lemma word_less_nat: "unat (w :: 'a::len word) < 2 ^ LENGTH('a)"
  by (rule unsigned_less)

lemma unat_down: "unat (ucast (w :: 64 word) :: 32 word) = unat w mod 2 ^ 32"
  by (simp add: unsigned_ucast_eq take_bit_eq_mod)

lemma mul64x32_val: "val128 (mul64x32 a b) = unat a * unat b"
proof -
  define lo hi k where "lo = unat a mod 2 ^ 32" and "hi = unat a div 2 ^ 32" and "k = unat b"
  have a: "unat a = lo + 2 ^ 32 * hi" by (simp add: lo_def hi_def)
  have "unat a < 2 ^ 32 * 2 ^ 32" using word_less_nat [of a] by simp
  then have hi: "hi < 2 ^ 32" unfolding hi_def by (rule less_mult_imp_div_less)
  have lo: "lo < 2 ^ 32" by (simp add: lo_def)
  have k: "k < 2 ^ 32" using word_less_nat [of b] by (simp add: k_def)
  define t0 :: "64 word" where "t0 = ucast (ucast a :: 32 word) * ucast b"
  define t1 where "t1 = drop_bit 32 t0 + drop_bit 32 a * ucast b"
  have "x * k \<le> (2 ^ 32 - 1) * (2 ^ 32 - 1)" if "x < 2 ^ 32" for x by (rule mult_mono) (use that k in simp_all)
  note small = this [OF lo] this [OF hi]
  have t0: "unat t0 = lo * k"
    using small(1) unat_mult_lem [of "ucast (ucast a :: 32 word) :: 64 word" "ucast b"] by (simp add: t0_def unat_up unat_down lo_def k_def)
  have p: "unat (drop_bit 32 a * ucast b) = hi * k"
    using small(2) unat_mult_lem [of "drop_bit 32 a :: 64 word" "ucast b"] by (simp add: unat_up hi_def k_def)
  have "lo * k div 2 ^ 32 < 2 ^ 32" using small(1) by (intro less_mult_imp_div_less) simp
  then have t1: "unat t1 = lo * k div 2 ^ 32 + hi * k"
    using small(2) unat_add_lem [of "drop_bit 32 t0" "drop_bit 32 a * ucast b"] by (simp add: t1_def t0 p)
  have push: "unat (push_bit 32 t1) = unat t1 mod 2 ^ 32 * 2 ^ 32" using mod_scale [of "unat t1" 32 32] by (simp add: unat_push_mod)
  have low: "unat (ucast (ucast t0 :: 32 word) :: 64 word) = lo * k mod 2 ^ 32" by (simp add: unat_up unat_down t0)
  have "unat (push_bit 32 t1 OR ucast (ucast t0 :: 32 word)) = unat t1 mod 2 ^ 32 * 2 ^ 32 + lo * k mod 2 ^ 32"
    using unat_or_split [OF push, of "ucast (ucast t0 :: 32 word)"] by (simp add: low push)
  moreover have regroup: "r * 2 ^ 32 + l + 2 ^ 64 * q = 2 ^ 32 * (r + 2 ^ 32 * q) + (l::nat)" for r l q by simp
  ultimately have "val128 (mul64x32 a b) = unat t1 mod 2 ^ 32 * 2 ^ 32 + lo * k mod 2 ^ 32 + 2 ^ 64 * (unat t1 div 2 ^ 32)"
    unfolding mul64x32_def Let_def t0_def [symmetric] t1_def [symmetric] val128_def by simp
  also have "\<dots> = 2 ^ 32 * (unat t1 mod 2 ^ 32 + 2 ^ 32 * (unat t1 div 2 ^ 32)) + lo * k mod 2 ^ 32"
    by (rule regroup)
  also have "unat t1 mod 2 ^ 32 + 2 ^ 32 * (unat t1 div 2 ^ 32) = unat t1" by (rule mod_mult_div_eq)
  also have "2 ^ 32 * unat t1 + lo * k mod 2 ^ 32 = (2 ^ 32 * (lo * k div 2 ^ 32) + lo * k mod 2 ^ 32) + 2 ^ 32 * hi * k" unfolding t1 by (simp add: algebra_simps)
  also have "2 ^ 32 * (lo * k div 2 ^ 32) + lo * k mod 2 ^ 32 = lo * k" by (rule mult_div_mod_eq)
  also have "lo * k + 2 ^ 32 * hi * k = unat a * unat b" unfolding a k_def by (simp add: algebra_simps)
  finally show ?thesis .
qed

lemma unat_diff_wrap: "unat (x - y) = (if unat y \<le> unat x then unat x - unat y else 2 ^ 64 + unat x - unat (y :: 64 word))"
  using unat_sub_if' [of x y] word_less_nat [of y] by (auto simp: word_size)

lemma sub128_val:
  assumes "val128 (b0, b1) \<le> val128 (a0, a1)"
  shows "val128 (sub128 a0 a1 b0 b1) = val128 (a0, a1) - val128 (b0, b1)"
proof -
  have w: "unat a0 < 2 ^ 64" "unat b0 < 2 ^ 64" "unat a1 < 2 ^ 64" "unat b1 < 2 ^ 64" using word_less_nat [of a0] word_less_nat [of b0] word_less_nat [of a1] word_less_nat [of b1] by simp_all
  show ?thesis
  proof (cases "unat b0 \<le> unat a0")
    case True
    then have "unat (a0 - b0) = unat a0 - unat b0" by (simp add: unat_diff_wrap)
    moreover have "unat b1 \<le> unat a1" using assms True w by (simp add: val128_def)
    moreover have "unat (a1 - b1) = unat a1 - unat b1" using \<open>unat b1 \<le> unat a1\<close> by (simp add: unat_diff_wrap)
    moreover obtain d where "unat a1 = unat b1 + d" using \<open>unat b1 \<le> unat a1\<close> by (metis le_iff_add)
    ultimately show ?thesis using True by (simp add: sub128_def val128_def Let_def word_less_nat_alt)
  next
    case False
    then have 0: "unat (a0 - b0) = 2 ^ 64 + unat a0 - unat b0" by (simp add: unat_diff_wrap)
    have lt: "unat b1 < unat a1" using assms False w by (simp add: val128_def)
    then have "unat (a1 - b1) = unat a1 - unat b1" by (simp add: unat_diff_wrap)
    then have 1: "unat (a1 - b1 - 1) = unat a1 - unat b1 - 1" using lt by (simp add: unat_diff_wrap)
    have "a0 < a0 - b0" using 0 False w by (simp add: word_less_nat_alt)
    then show ?thesis using 0 1 lt False w by (simp add: sub128_def val128_def Let_def)
  qed
qed

lemma cmp128_val:
  "cmp128 a0 a1 b0 b1 = (if val128 (a0, a1) < val128 (b0, b1) then - 1 else if val128 (a0, a1) = val128 (b0, b1) then 0 else 1)"
  using word_less_nat [of a0] word_less_nat [of b0] word_less_nat [of a1] word_less_nat [of b1]
  by (simp add: cmp128_def val128_def word_less_nat_alt)

subsection \<open>Division\<close>

locale fp_div = fp_arith P J round_mask pack zero infinity max_normal round_rm unpack process_NaNs
  for P J :: nat and round_mask :: "'w::len word" and pack and zero infinity max_normal and round_rm and unpack and process_NaNs +
  fixes quotient :: "'w word \<Rightarrow> 'w word \<Rightarrow> int \<Rightarrow> int \<Rightarrow> ('w word \<times> int) option" and defaultNaN :: "'w word"
    and divide :: "'w word \<Rightarrow> 'w word \<Rightarrow> 32 word \<Rightarrow> 32 word \<Rightarrow> ('w word \<times> 32 word) option"
  assumes quotient: "a \<noteq> 0 \<Longrightarrow> b \<noteq> 0 \<Longrightarrow> unat a < 2 ^ (P + 1) \<Longrightarrow> unat b < 2 ^ (P + 1) \<Longrightarrow>
      \<exists>m t. quotient a b ea eb = Some (m, ea - eb + t) \<and>
        sticky (jam (2 ^ LENGTH('w) + unat m) J) (real (unat a) / real (unat b) * 2 powi (2 ^ J + int P + 1 + int J - t) / 2 ^ J)"
    and divide_eq: "divide a b mode flags = (let
     (a_sgn, a_exp, a_mnt, flags) = unpack a mode flags;
     (b_sgn, b_exp, b_mnt, flags) = unpack b mode flags;
     (x, flags) = process_NaNs a b mode flags
     in if x \<noteq> 0 then Some (x, flags)
     else if a_exp = 2 ^ (J + 1) - 1 \<and> b_exp = 2 ^ (J + 1) - 1 \<or> a_mnt = 0 \<and> b_mnt = 0 then Some (defaultNaN, flags OR FPLIB_IOC)
     else if a_exp = 2 ^ (J + 1) - 1 \<or> b_mnt = 0 then
       Some (infinity (a_sgn \<noteq> b_sgn), if a_exp \<noteq> 2 ^ (J + 1) - 1 then flags OR FPLIB_DZC else flags)
     else if a_mnt = 0 \<or> b_exp = 2 ^ (J + 1) - 1 then Some (zero (a_sgn \<noteq> b_sgn), flags)
     else do {
       (x_mnt, x_exp) \<leftarrow> quotient a_mnt b_mnt a_exp b_exp;
       round_rm (a_sgn \<noteq> b_sgn) x_exp x_mnt (mode AND 3) mode flags
     })"
begin

lemma divide_run:
  assumes "fp_finite P J a" "fp_finite P J b" "mode AND FPLIB_FZ = 0"
  shows "\<exists>ea am eb bm. 1 \<le> ea \<and> 1 \<le> eb \<and> unat am < 2 ^ (P + 1) \<and> unat bm < 2 ^ (P + 1) \<and>
    fp_mag P J a = unat am * 2 ^ (ea - 1) \<and> fp_mag P J b = unat bm * 2 ^ (eb - 1) \<and>
    divide a b mode flags = (if am = 0 \<and> bm = 0 then Some (defaultNaN, flags OR FPLIB_IOC)
     else if bm = 0 then Some (infinity (fp_neg a \<noteq> fp_neg b), flags OR FPLIB_DZC)
     else if am = 0 then Some (zero (fp_neg a \<noteq> fp_neg b), flags)
     else do {
       (x_mnt, x_exp) \<leftarrow> quotient am bm (int ea) (int eb);
       round_rm (fp_neg a \<noteq> fp_neg b) x_exp x_mnt (mode AND 3) mode flags
     })"
proof -
  obtain ea am where a: "unpack a mode flags = (fp_neg a, int ea, am, flags)" "1 \<le> ea" "ea < 2 ^ (J + 1) - 1" "unat am < 2 ^ (P + 1)"
    "fp_mag P J a = unat am * 2 ^ (ea - 1)" using unpack_finite [OF assms(3,1), of flags] by blast
  obtain eb bm where b: "unpack b mode flags = (fp_neg b, int eb, bm, flags)" "1 \<le> eb" "eb < 2 ^ (J + 1) - 1" "unat bm < 2 ^ (P + 1)"
    "fp_mag P J b = unat bm * 2 ^ (eb - 1)" using unpack_finite [OF assms(3,2), of flags] by blast
  have E: "int ea \<noteq> 2 ^ (J + 1) - 1" "int eb \<noteq> 2 ^ (J + 1) - 1"
    by (rule exponent_not_max [OF a(3)], rule exponent_not_max [OF b(3)])
  show ?thesis
    by (rule exI [of _ ea], rule exI [of _ am], rule exI [of _ eb], rule exI [of _ bm],
      unfold divide_eq a(1) b(1) Let_def prod.case no_NaNs [OF assms(1,2)])
     (use a(2,4,5) b(2,4,5) E in \<open>simp only: simp_thms if_True if_False\<close>)
qed

lemma divide_zero:
  assumes "fp_finite P J a" "fp_finite P J b" "mode AND FPLIB_FZ = 0" "fp_mag P J b = 0"
  shows "divide a b mode flags = Some (if fp_mag P J a = 0 then (defaultNaN, flags OR FPLIB_IOC)
    else (infinity (fp_neg a \<noteq> fp_neg b), flags OR FPLIB_DZC))"
  using divide_run [OF assms(1-3), of flags] assms(4) by (auto simp: unat_inj_iff)

lemma divide_correct:
  fixes a b :: "'w word" and mode flags :: "32 word"
  defines "E \<equiv> 2 ^ (J + 1) - 1"
  assumes "fp_finite P J a" "fp_finite P J b" "mode AND FPLIB_FZ = 0" "fp_mag P J b \<noteq> 0"
  defines "sn \<equiv> fp_neg a \<noteq> fp_neg b" and "y \<equiv> real (fp_mag P J a) / real (fp_mag P J b) * 2 ^ (2 ^ J + P - 2)"
  shows "\<exists>x. divide a b mode flags = Some (x, flags OR ieee_flags P E (mode AND 3) sn y) \<and>
    unat x = of_bool sn * 2 ^ (P + J + 1) + ieee_round P E (mode AND 3) sn y"
proof -
  obtain ea am eb bm where r: "1 \<le> ea" "1 \<le> eb" "unat am < 2 ^ (P + 1)" "unat bm < 2 ^ (P + 1)"
      "fp_mag P J a = unat am * 2 ^ (ea - 1)" "fp_mag P J b = unat bm * 2 ^ (eb - 1)"
    and run: "divide a b mode flags = (if am = 0 \<and> bm = 0 then Some (defaultNaN, flags OR FPLIB_IOC)
     else if bm = 0 then Some (infinity sn, flags OR FPLIB_DZC)
     else if am = 0 then Some (zero sn, flags)
     else do { (x_mnt, x_exp) \<leftarrow> quotient am bm (int ea) (int eb); round_rm sn x_exp x_mnt (mode AND 3) mode flags })"
    using divide_run [OF assms(2-4), of flags] unfolding sn_def by blast
  have bm: "bm \<noteq> 0" using r(6) assms(5) by (auto simp: unat_inj_iff)
  show ?thesis
  proof (cases "am = 0")
    case True
    then have "y = 0" using r(5) by (simp add: y_def)
    moreover have "0 < E" unfolding E_def by (rule E_pos)
    ultimately show ?thesis using True bm by (simp add: run ieee_zero unat_specials)
  next
    case False
    then obtain m t where m: "quotient am bm (int ea) (int eb) = Some (m, int ea - int eb + t)"
      "sticky (jam (2 ^ LENGTH('w) + unat m) J) (real (unat am) / real (unat bm) * 2 powi (2 ^ J + int P + 1 + int J - t) / 2 ^ J)"
      using quotient [OF False bm r(3,4), of "int ea" "int eb"] by blast
    define v where "v = real (unat am) / real (unat bm) * 2 powi (2 ^ J + int P + 1 + int J - t)"
    have y: "y = v * 2 powi (int ea - int eb + t - 3 - int J)"
    proof -
      have "2 powi (2 ^ J + int P + 1 + int J - t) * (2::real) powi (int ea - int eb + t - 3 - int J) = 2 powi (int (ea - 1) - int (eb - 1) + int (2 ^ J + P - 2))"
      proof -
        have "int (2 ^ J + P - 2) = 2 ^ J + int P - 2" using sizes by (subst of_nat_diff) (simp_all add: add_increasing)
        then have "2 ^ J + int P + 1 + int J - t + (int ea - int eb + t - 3 - int J) = int (ea - 1) - int (eb - 1) + int (2 ^ J + P - 2)"
          using r(1,2) by (simp add: of_nat_diff)
        moreover have "(2::real) powi i * 2 powi j = 2 powi (i + j)" for i j by (simp add: power_int_add)
        ultimately show ?thesis by (simp only:)
      qed
      also have "\<dots> = 2 ^ (ea - 1) / 2 ^ (eb - 1) * 2 ^ (2 ^ J + P - 2)" by (simp only: powi_nat)
      finally show ?thesis unfolding y_def v_def r(5,6) by (simp add: mult.assoc)
    qed
    from round_correct [OF and_3_not_tieaway disjI1 [OF assms(4)] m(2) [folded v_def] y]
    show ?thesis unfolding run m(1) E_def using False bm by (simp only: bind.bind_lunit prod.case if_False simp_thms)
  qed
qed

end

subsection \<open>Single precision\<close>

text \<open>The quotient with a sticky bit.\<close>

lemma sticky_quotient:
  fixes n b :: nat
  assumes "0 < b"
  shows "sticky (n div b + of_bool (n mod b \<noteq> 0 \<and> even (n div b))) (real n / real b)"
proof -
  have "real (b * q + r) / real b = real q + real r / real b" for q r using assms by (simp add: field_simps)
  from this [of "n div b" "n mod b"] have "real n / real b = real (n div b) + real (n mod b) / real b" by (simp only: mult_div_mod_eq)
  moreover have "0 < n mod b \<Longrightarrow> 0 < real (n mod b) / real b" "real (n mod b) / real b < 1" using assms by simp_all
  ultimately show ?thesis unfolding sticky_def by (cases "n mod b = 0") auto
qed

text \<open>The upper 33 bits of a normalised number with a sticky bit, without the leading one.\<close>

definition narrow32 :: "64 word \<Rightarrow> 32 word" where
  "narrow32 N = ucast (drop_bit 31 N OR of_bool ((ucast (push_bit 1 N) :: 32 word) \<noteq> 0))"

lemma narrow32_val:
  assumes "2 ^ 63 \<le> unat N"
  shows "2 ^ LENGTH(32) + unat (narrow32 N) = jam (unat N) 31"
proof -
  define m where "m = drop_bit 31 N OR of_bool ((ucast (push_bit 1 N) :: 32 word) \<noteq> 0)"
  have "unat (push_bit 1 N) mod 2 ^ 32 = unat N * 2 mod 2 ^ 64 mod 2 ^ 32" by (simp only: unat_push_mod) simp
  also have "\<dots> = (unat N mod 2 ^ 31) * 2" using mod_scale [of "unat N" 1 31] by (simp add: mod_mod_cancel)
  finally have "unat (ucast (push_bit 1 N) :: 32 word) = (unat N mod 2 ^ 31) * 2" by (simp only: unat_down)
  then have nz: "(ucast (push_bit 1 N) :: 32 word) \<noteq> 0 \<longleftrightarrow> unat N mod 2 ^ 31 \<noteq> 0" by (simp add: unat_inj_iff)
  have m: "unat m = jam (unat N) 31" unfolding m_def unat_or_bool nz jam_eq by (simp only: unat_drop)
  have "unat N < 2 ^ 64" using word_less_nat [of N] by simp
  then have "2 ^ 32 \<le> unat m" "unat m < 2 ^ 33" unfolding m using assms by (intro jam_bounds; simp)+
  then show ?thesis unfolding narrow32_def m_def [symmetric] by (simp add: unsigned_ucast_eq take_bit_eq_mod le_mod_geq m)
qed

definition quotient32 :: "32 word \<Rightarrow> 32 word \<Rightarrow> int \<Rightarrow> int \<Rightarrow> (32 word \<times> int) option" where
  "quotient32 a_mnt b_mnt a_exp b_exp = do {
     let (a_mnt, a_exp) = fp32_normalise a_mnt a_exp;
     let n = push_bit 18 (ucast a_mnt :: 64 word);
     x_mnt \<leftarrow> div_c n (ucast b_mnt);
     let (x_mnt, x_exp) = fp64_normalise (x_mnt OR of_bool (x_mnt * ucast b_mnt \<noteq> n)) (a_exp - b_exp + 172);
     Some (narrow32 x_mnt, x_exp)
   }"

lemma quotient32_word:
  fixes n b :: "64 word"
  assumes "b \<noteq> 0"
  shows "unat ((n div b) OR of_bool (n div b * b \<noteq> n)) = unat n div unat b + of_bool (unat n mod unat b \<noteq> 0 \<and> even (unat n div unat b))"
proof -
  have "unat n div unat b * unat b < 2 ^ LENGTH(64)" by (rule le_less_trans [OF div_times_less_eq_dividend word_less_nat])
  then have "unat (n div b * b) = unat n div unat b * unat b"
    using unat_mult_lem [of "n div b" b] by (simp add: unat_div)
  moreover have "unat n div unat b * unat b = unat n \<longleftrightarrow> unat n mod unat b = 0" by (metis dvd_div_mult_self dvd_triv_right mod_eq_0_iff_dvd)
  ultimately show ?thesis by (simp only: unat_or_bool unat_inj_iff [of "n div b * b"] unat_div)
qed

lemma quotient32_spec:
  fixes a b :: "32 word"
  assumes "a \<noteq> 0" "b \<noteq> 0" "unat a < 2 ^ (23 + 1)" "unat b < 2 ^ (23 + 1)"
  shows "\<exists>m t. quotient32 a b ea eb = Some (m, ea - eb + t) \<and>
    sticky (jam (2 ^ LENGTH(32) + unat m) 7) (real (unat a) / real (unat b) * 2 powi (2 ^ 7 + int 23 + 1 + int 7 - t) / 2 ^ 7)"
proof -
  obtain sa a' where a: "fp32_normalise a ea = (a', ea - int sa)" "unat a' = unat a * 2 ^ sa" "2 ^ 31 \<le> unat a'"
    using fp_normalise_spec(2) [OF assms(1), of ea] by blast
  define n b' where "n = push_bit 18 (ucast a' :: 64 word)" and "b' = (ucast b :: 64 word)"
  have n: "unat n = unat a' * 2 ^ 18" unfolding n_def
    using unat_push_small [of "ucast a' :: 64 word" 18] word_less_nat [of a'] by (simp add: unat_up)
  have b': "unat b' = unat b" by (simp add: b'_def unat_up)
  have b0: "0 < unat b" using assms(2) by (simp add: unat_inj_iff)
  then have bn: "b' \<noteq> 0" using b' by (auto simp: unat_inj_iff)
  define q where "q = (n div b') OR of_bool (n div b' * b' \<noteq> n)"
  have q: "sticky (unat q) (real (unat n) / real (unat b))" unfolding q_def quotient32_word [OF bn] b' by (rule sticky_quotient [OF b0])
  have "2 ^ 25 * unat b \<le> 2 ^ 25 * 2 ^ 24" using assms(4) by simp
  also have "\<dots> \<le> unat n" using a(3) by (simp add: n)
  finally have "2 ^ 25 \<le> unat n div unat b" using b0 by (simp add: less_eq_div_iff_mult_less_eq)
  then have big: "2 ^ 25 \<le> unat q" unfolding q_def quotient32_word [OF bn] b' by simp
  then have "q \<noteq> 0" by (auto simp: unat_inj_iff)
  then obtain s N where s: "fp64_normalise q (ea - int sa - eb + 172) = (N, ea - int sa - eb + 172 - int s)" "unat N = unat q * 2 ^ s" "2 ^ 63 \<le> unat N"
    using fp_normalise_spec(3) by metis
  have "s \<le> 38"
  proof (rule ccontr)
    assume "\<not> s \<le> 38"
    then have "2 ^ 25 * 2 ^ 39 \<le> unat q * 2 ^ s" using big by (intro mult_mono power_increasing) simp_all
    then show False using word_less_nat [of N] by (simp add: s(2))
  qed
  then have jam: "jam (2 ^ LENGTH(32) + unat (narrow32 N)) 7 = jam (unat q) (38 - s)"
    unfolding narrow32_val [OF s(3)] jam_jam s(2) by (simp add: jam_scale)
  have "real (unat n) / real (unat b) / 2 ^ (38 - s) = real (unat a) / real (unat b) * (2 ^ sa * 2 ^ 18 / 2 ^ (38 - s))"
    by (simp add: n a(2))
  also have "2 ^ sa * 2 ^ 18 / (2::real) ^ (38 - s) = 2 powi (int sa + int 18 - int (38 - s))" by (simp only: powi_nat)
  also have "int sa + int 18 - int (38 - s) = 2 ^ 7 + int 23 + 1 + int 7 - (172 - int sa - int s) - int 7" using \<open>s \<le> 38\<close> by (simp add: of_nat_diff)
  also have "(2::real) powi \<dots> = 2 powi (2 ^ 7 + int 23 + 1 + int 7 - (172 - int sa - int s)) / 2 ^ 7" by (simp only: powi_nat)
  finally have v: "real (unat n) / real (unat b) / 2 ^ (38 - s) = real (unat a) / real (unat b) * 2 powi (2 ^ 7 + int 23 + 1 + int 7 - (172 - int sa - int s)) / 2 ^ 7" by simp
  have "quotient32 a b ea eb = Some (narrow32 N, ea - eb + (172 - int sa - int s))"
    unfolding quotient32_def a(1) Let_def prod.case n_def [symmetric] b'_def [symmetric] div_c_def
    using bn s(1) by (simp add: q_def)
  then show ?thesis using sticky_jam [OF q, of "38 - s"] unfolding v jam [symmetric] by blast
qed

subsection \<open>Double precision: the reciprocal\<close>

definition reciprocal64 :: "64 word \<Rightarrow> 64 word option" where
  "reciprocal64 b_mnt = do {
     x_mnt \<leftarrow> div_c (- 1) (drop_bit 31 b_mnt);
     let (x0_mnt, x1_mnt) = mul64x32 b_mnt (ucast x_mnt);
     let (x0_mnt, x1_mnt) = sub128 0 (push_bit 32 1) x0_mnt x1_mnt;
     let (x0_mnt, x1_mnt) = lsr128 x0_mnt x1_mnt 32;
     let (x0_mnt, x1_mnt) = mul64x32 x0_mnt (ucast x_mnt);
     let (x0_mnt, x1_mnt) = lsr128 x0_mnt x1_mnt 33;
     Some x0_mnt
   }"

lemma dvd_two_power: "X dvd (2::nat) ^ n \<Longrightarrow> \<exists>i. X = 2 ^ i"
proof (induction n arbitrary: X)
  case 0
  then show ?case by (auto intro: exI [of _ 0])
next
  case (Suc n)
  show ?case
  proof (cases "even X")
    case True
    then obtain Y where Y: "X = 2 * Y" by blast
    with Suc.prems have "Y dvd 2 ^ n" by simp
    from Suc.IH [OF this] obtain i where "Y = 2 ^ i" by blast
    then show ?thesis using Y by (intro exI [of _ "Suc i"]) simp
  next
    case False
    then have "coprime X 2" by simp
    with Suc.prems have "X dvd 2 ^ n" by (simp add: coprime_dvd_mult_right_iff)
    then show ?thesis by (rule Suc.IH)
  qed
qed

text \<open>The estimate \<open>X\<close> of \<open>2 ^ 95 / B\<close>, and its error.\<close>

lemma estimate_error:
  fixes B X :: nat
  assumes "2 ^ 63 \<le> B" "B < 2 ^ 64" and X: "X = (2 ^ 64 - 1) div (B div 2 ^ 31)"
  shows "0 < X" "X < 2 ^ 32" "\<bar>2 ^ 95 - int (B * X)\<bar> \<le> 2 ^ 64" "B * X \<noteq> 2 ^ 95"
proof -
  define D \<rho> \<sigma> where "D = B div 2 ^ 31" and "\<rho> = B mod 2 ^ 31" and "\<sigma> = (2 ^ 64 - 1) mod D"
  have B: "B = 2 ^ 31 * D + \<rho>" unfolding D_def \<rho>_def by (rule mult_div_mod_eq [symmetric])
  have D: "2 ^ 32 \<le> D" "D < 2 ^ 33" using assms(1,2) unfolding D_def by (simp_all add: less_eq_div_iff_mult_less_eq div_less_iff_less_mult)
  have N: "X * D + \<sigma> = 2 ^ 64 - 1" unfolding X \<sigma>_def D_def [symmetric] by (rule div_mult_mod_eq)
  have \<sigma>: "\<sigma> < D" using D(1) unfolding \<sigma>_def by (intro mod_less_divisor) simp
  have "(2 ^ 64 - 1) div D \<le> (2 ^ 64 - 1) div 2 ^ 32" by (rule div_le_mono2 [OF _ D(1)]) simp
  then show X32: "X < 2 ^ 32" unfolding X D_def [symmetric] by simp
  show "0 < X" using N \<sigma> D by (cases "X = 0") simp_all
  have "int (B * X) = 2 ^ 31 * int (X * D) + int (\<rho> * X)" unfolding B by (simp add: algebra_simps)
  moreover have "int (X * D) = 2 ^ 64 - 1 - int \<sigma>" using arg_cong [OF N, of int] by simp
  ultimately have err: "2 ^ 95 - int (B * X) = 2 ^ 31 * (1 + int \<sigma>) - int (\<rho> * X)" by simp
  have "\<rho> * X \<le> 2 ^ 31 * 2 ^ 32" using X32 unfolding \<rho>_def by (intro mult_mono) (simp_all add: less_imp_le)
  then have "int (\<rho> * X) \<le> int (2 ^ 63)" by (intro of_nat_mono) simp
  then have "0 \<le> int (\<rho> * X)" "int (\<rho> * X) \<le> 2 ^ 63" by (simp_all only: of_nat_0_le_iff of_nat_power of_nat_numeral)
  moreover have "0 \<le> int \<sigma>" "1 + int \<sigma> \<le> 2 ^ 33" using \<sigma> D(2) by simp_all
  moreover have "\<bar>2 ^ 31 * (1 + j) - g\<bar> \<le> 2 ^ 64" if "0 \<le> g" "g \<le> 2 ^ 63" "0 \<le> j" "1 + j \<le> 2 ^ 33" for g j :: int using that by simp
  ultimately show "\<bar>2 ^ 95 - int (B * X)\<bar> \<le> 2 ^ 64" unfolding err by blast
  show "B * X \<noteq> 2 ^ 95"
  proof
    assume eq: "B * X = 2 ^ 95"
    then have "X dvd 2 ^ 95" by (metis dvd_triv_right)
    then obtain i where i: "X = 2 ^ i" using dvd_two_power by blast
    have "i < 32" using X32 unfolding i by (rule power_less_imp_less_exp [rotated]) simp
    then have "X \<le> 2 ^ 31" unfolding i by (intro power_increasing) simp_all
    then have "B * X < 2 ^ 64 * 2 ^ 31" using assms(2) \<open>0 < X\<close> by (intro mult_less_le_imp_less) simp_all
    then show False unfolding eq by simp
  qed
qed

text \<open>One Newton step in integers stays below the reciprocal and comes within three units of it.\<close>

lemma newton_step:
  fixes B X r e :: nat
  assumes B: "2 ^ 63 \<le> B" and X: "X < 2 ^ 32" and err: "\<bar>2 ^ 95 - int (B * X)\<bar> \<le> 2 ^ 64" "B * X \<noteq> 2 ^ 95"
    and e: "e = (2 ^ 96 - B * X) div 2 ^ 32" and r: "r = e * X div 2 ^ 33" and "B * X \<le> 2 ^ 96"
  shows "r * B < 2 ^ 125" "2 ^ 125 < (r + 3) * B"
proof -
  define d where "d = 2 ^ 95 - int (B * X)"
  have p: "int B * int X = 2 ^ 95 - d" by (simp add: d_def)
  have quot: "2 ^ k * (m div 2 ^ k) \<le> m" "m < 2 ^ k + 2 ^ k * (m div 2 ^ k)" for m k :: nat
    by (rule times_div_less_eq_dividend, rule dividend_less_times_div) simp
  have e1: "2 ^ 32 * int e \<le> 2 ^ 95 + d" "2 ^ 95 + d < 2 ^ 32 * int e + 2 ^ 32"
  proof -
    have "int (2 ^ 96 - B * X) = 2 ^ 95 + d" using of_nat_diff [OF assms(7), where ?'a = int] by (simp add: d_def)
    moreover have "int (2 ^ 32 * e) \<le> int (2 ^ 96 - B * X)" "int (2 ^ 96 - B * X) < int (2 ^ 32 + 2 ^ 32 * e)"
      using quot [where k = 32 and m = "2 ^ 96 - B * X", folded e] by (simp_all only: of_nat_le_iff of_nat_less_iff)
    ultimately show "2 ^ 32 * int e \<le> 2 ^ 95 + d" "2 ^ 95 + d < 2 ^ 32 * int e + 2 ^ 32" by simp_all
  qed
  have r1: "2 ^ 33 * int r \<le> int e * int X" "int e * int X < 2 ^ 33 * int r + 2 ^ 33"
    using quot [where k = 33 and m = "e * X", folded r] by (simp_all flip: of_nat_mult)
  have sq: "(2 ^ 95 + d) * (int X * int B) = 2 ^ 190 - d * d" unfolding mult.commute [of "int X"] p by (simp add: algebra_simps)
  have d: "0 < d * d" "d * d \<le> 2 ^ 64 * 2 ^ 64"
  proof -
    have "d \<noteq> 0" using err(2) unfolding d_def by (metis eq_iff_diff_eq_0 of_nat_eq_iff of_nat_numeral of_nat_power)
    then show "0 < d * d" by (auto simp: zero_less_mult_iff)
    have "\<bar>d\<bar> * \<bar>d\<bar> \<le> 2 ^ 64 * 2 ^ 64" using err(1) unfolding d_def by (intro mult_mono) simp_all
    then show "d * d \<le> 2 ^ 64 * 2 ^ 64" by simp
  qed
  have up: "2 ^ 65 * (int r * int B) \<le> 2 ^ 32 * int e * (int X * int B)" "2 ^ 32 * int e * (int X * int B) \<le> 2 ^ 65 * (int r * int B) + 2 ^ 65 * int B"
    using mult_right_mono [OF r1(1), of "2 ^ 32 * int B"] mult_right_mono [OF less_imp_le [OF r1(2)], of "2 ^ 32 * int B"] by (simp_all add: algebra_simps)
  have "2 ^ 32 * int e * (int X * int B) \<le> (2 ^ 95 + d) * (int X * int B)" by (rule mult_right_mono [OF e1(1)]) simp
  from order_trans [OF up(1) this] have "2 ^ 65 * (int r * int B) \<le> 2 ^ 190 - d * d" unfolding sq .
  moreover have "z < 2 ^ 125" if "2 ^ 65 * z \<le> 2 ^ 190 - w" "0 < w" for z w :: int using that by simp
  ultimately have "int r * int B < 2 ^ 125" using d(1) by blast
  then have "int (r * B) < int (2 ^ 125)" by simp
  then show "r * B < 2 ^ 125" by (simp only: of_nat_less_iff)
  have "(2 ^ 95 + d) * (int X * int B) \<le> (2 ^ 32 * int e + 2 ^ 32) * (int X * int B)" by (rule mult_right_mono [OF less_imp_le [OF e1(2)]]) simp
  then have "2 ^ 190 - d * d \<le> 2 ^ 32 * int e * (int X * int B) + 2 ^ 32 * (int X * int B)" unfolding sq unfolding distrib_right .
  moreover have "int X * int B \<le> 2 ^ 32 * int B" using X by (intro mult_right_mono) simp_all
  moreover have "2 ^ 63 \<le> int B" using of_nat_mono [OF B, where ?'a = int] by simp
  moreover have "2 ^ 125 < z + 3 * b" if "2 ^ 190 - w \<le> g + 2 ^ 32 * h" "h \<le> 2 ^ 32 * b" "2 ^ 63 \<le> b" "w \<le> 2 ^ 64 * 2 ^ 64"
    "g \<le> 2 ^ 65 * z + 2 ^ 65 * b" for w g h b z :: int using that by simp
  ultimately have "2 ^ 125 < int r * int B + 3 * int B" using d(2) up(2) by blast
  then have "int (2 ^ 125) < int ((r + 3) * B)" by (simp add: algebra_simps)
  then show "2 ^ 125 < (r + 3) * B" by (simp only: of_nat_less_iff)
qed

lemma low_word: "val128 (x0, x1) < 2 ^ 64 \<Longrightarrow> unat x0 = val128 (x0, x1)"
  by (simp add: val128_def)

lemma high_word: "unat x1 = val128 (x0, x1) div 2 ^ 64"
  using word_less_nat [of x0] by (simp add: val128_def)

lemma reciprocal64_spec:
  assumes "2 ^ 63 \<le> unat b"
  shows "\<exists>r. reciprocal64 b = Some r \<and> unat r * unat b < 2 ^ 125 \<and> 2 ^ 125 < (unat r + 3) * unat b"
proof -
  define B X where "B = unat b" and "X = (2 ^ 64 - 1) div (B div 2 ^ 31)"
  have B: "2 ^ 63 \<le> B" "B < 2 ^ 64" using assms word_less_nat [of b] by (simp_all add: B_def)
  note X = estimate_error [OF B X_def]
  have "B div 2 ^ 31 \<noteq> 0" using B(1) by simp
  then have nz: "drop_bit 31 b \<noteq> 0" by (simp add: unat_inj_iff B_def)
  define x where "x = (ucast ((- 1 :: 64 word) div drop_bit 31 b) :: 32 word)"
  have "unat (- 1 :: 64 word) = 2 ^ 64 - 1" by (simp add: unsigned_minus_1_eq_mask mask_eq_exp_minus_1)
  then have "unat x = X mod 2 ^ 32" by (simp only: x_def unat_down unat_div unat_drop X_def B_def)
  then have x: "unat x = X" using X(2) by simp
  obtain p0 p1 where p: "mul64x32 b x = (p0, p1)" "val128 (p0, p1) = B * X" using mul64x32_val [of b x] x unfolding B_def by (metis prod.exhaust)
  have one: "val128 (0, push_bit 32 1) = 2 ^ 96" by (simp add: val128_def)
  have "B * X < 2 ^ 64 * 2 ^ 32" using B(2) X(1,2) by (intro mult_strict_mono) simp_all
  then have le: "B * X \<le> 2 ^ 96" by simp
  obtain d0 d1 where d: "sub128 0 (push_bit 32 1) p0 p1 = (d0, d1)" "val128 (d0, d1) = 2 ^ 96 - B * X"
    using sub128_val [of p0 p1 0 "push_bit 32 1"] unfolding p(2) one by (metis le prod.exhaust)
  define e where "e = (2 ^ 96 - B * X) div 2 ^ 32"
  obtain e0 e1 where e: "lsr128 d0 d1 32 = (e0, e1)" "val128 (e0, e1) = e" using lsr128_val [of d0 d1 32] unfolding d(2) e_def by (metis prod.exhaust)
  have "0 < B * X" using B(1) X(1) by simp
  then have "e < 2 ^ 64" unfolding e_def by (intro less_mult_imp_div_less) simp
  then have e0: "unat e0 = e" using low_word [of e0 e1] e(2) by simp
  obtain f0 f1 where f: "mul64x32 e0 x = (f0, f1)" "val128 (f0, f1) = e * X" using mul64x32_val [of e0 x] x e0 by (metis prod.exhaust)
  define r where "r = e * X div 2 ^ 33"
  obtain r0 r1 where r: "lsr128 f0 f1 33 = (r0, r1)" "val128 (r0, r1) = r" using lsr128_val [of f0 f1 33] unfolding f(2) r_def by (metis prod.exhaust)
  have "e * X < 2 ^ 64 * 2 ^ 32" using \<open>e < 2 ^ 64\<close> X(2) by (intro mult_strict_mono') simp_all
  then have "r < 2 ^ 64" unfolding r_def by (intro less_mult_imp_div_less) simp
  then have r0: "unat r0 = r" using low_word [of r0 r1] r(2) by simp
  have "reciprocal64 b = Some r0"
    unfolding reciprocal64_def div_c_def if_not_P [OF nz] bind.bind_lunit x_def [symmetric] p(1) d(1) e(1) f(1) r(1) Let_def prod.case ..
  then show ?thesis using newton_step [OF B(1) X(2-4) e_def r_def le] by (simp add: r0 B_def)
qed

subsection \<open>Double precision: the quotient\<close>

definition quotient64 :: "64 word \<Rightarrow> 64 word \<Rightarrow> int \<Rightarrow> int \<Rightarrow> (64 word \<times> int) option" where
  "quotient64 a_mnt b_mnt a_exp b_exp = do {
     let (a_mnt, a_exp) = fp64_normalise a_mnt a_exp;
     let (b_mnt, b_exp) = fp64_normalise b_mnt b_exp;
     x0_mnt \<leftarrow> reciprocal64 b_mnt;
     let (x0_mnt, x1_mnt) = mul62x62 x0_mnt (drop_bit 2 a_mnt);
     let (x0_mnt, x1_mnt) = lsr128 x0_mnt x1_mnt 4;
     let x_mnt = x1_mnt;
     let (x0_mnt, x1_mnt) = mul62x62 (drop_bit 2 b_mnt) (x_mnt + 1);
     let c = cmp128 x0_mnt x1_mnt 0 (drop_bit 11 a_mnt);
     let x_mnt = (if c \<le> 0 then x_mnt + 1 else x_mnt);
     let (x_mnt, x_exp) = fp64_normalise x_mnt (a_exp - b_exp + 1031);
     Some (push_bit 1 x_mnt OR of_bool (c \<noteq> 0), x_exp)
   }"

lemma normalised_low_bits:
  assumes "unat a' = unat a * 2 ^ s" "2 ^ 63 \<le> unat a'" "unat (a :: 64 word) < 2 ^ 53"
  shows "2 ^ 11 dvd unat a'"
proof -
  have "11 \<le> s"
  proof (rule ccontr)
    assume "\<not> 11 \<le> s"
    then have "unat a * 2 ^ s < 2 ^ 53 * 2 ^ 10" using assms(3) by (intro mult_less_le_imp_less power_increasing) simp_all
    then show False using assms(1,2) by simp
  qed
  then show ?thesis unfolding assms(1) by (intro dvd_mult le_imp_power_dvd)
qed

lemma quotient_bounds:
  fixes r B C q :: nat
  assumes "r * B < 2 ^ 125" "2 ^ 125 < (r + 3) * B" "0 < C" "C < 2 ^ 62" and q: "q = r * C div 2 ^ 68"
  shows "q * B < 2 ^ 57 * C" "2 ^ 57 * C < (q + 2) * B"
proof -
  have "2 ^ 68 * q \<le> r * C" "r * C \<le> 2 ^ 68 + 2 ^ 68 * q"
    unfolding q by (rule times_div_less_eq_dividend, rule less_imp_le, rule dividend_less_times_div) simp
  then have q1: "2 ^ 68 * q * B \<le> r * C * B" "r * C * B \<le> (2 ^ 68 + 2 ^ 68 * q) * B" by (simp_all only: mult_right_mono)
  have up: "r * B * C < 2 ^ 125 * C" "2 ^ 125 * C < (r + 3) * B * C" using assms(1-3) by simp_all
  have B: "0 < B" using assms(2) by (cases B) simp_all
  have "2 ^ 68 * (q * B) \<le> r * B * C" using q1(1) by (simp only: mult_ac)
  from le_less_trans [OF this up(1)] show "q * B < 2 ^ 57 * C" by (simp add: mult.commute)
  have "C * B \<le> 2 ^ 62 * B" using assms(4) by simp
  moreover have "2 ^ 125 * C < r * C * B + 3 * (C * B)" using up(2) by (simp only: distrib_left distrib_right mult_ac)
  moreover have "r * C * B \<le> 2 ^ 68 * B + 2 ^ 68 * (q * B)" using q1(2) by (simp only: distrib_right mult.assoc)
  moreover have "2 ^ 57 * c < z + 2 * b" if "h \<le> 2 ^ 62 * b" "2 ^ 125 * c < g + 3 * h" "g \<le> 2 ^ 68 * b + 2 ^ 68 * z" "0 < b" for c g h b z :: nat
    using that by simp
  ultimately have "2 ^ 57 * C < q * B + 2 * B" using B by blast
  then show "2 ^ 57 * C < (q + 2) * B" by (simp only: distrib_right)
qed

text \<open>The last comparison makes the quotient exact: it is the integer quotient, and \<open>c\<close> tells whether there is a remainder.\<close>

lemma last_step:
  fixes N B q :: nat
  assumes "q * B < N" "N < (q + 2) * B"
  shows "(if (q + 1) * B \<le> N then q + 1 else q) = N div B" "(q + 1) * B = N \<longleftrightarrow> N mod B = 0"
proof -
  have B: "0 < B" using assms by (cases B) simp_all
  have div: "N div B = k" if "k * B \<le> N" "N < (k + 1) * B" for k
    using that B by (intro div_nat_eqI) (simp_all add: mult.commute)
  show k: "(if (q + 1) * B \<le> N then q + 1 else q) = N div B"
    using div [of q] div [of "q + 1"] assms by simp
  show "(q + 1) * B = N \<longleftrightarrow> N mod B = 0"
  proof
    assume "N mod B = 0"
    then have "N = N div B * B" by auto
    then show "(q + 1) * B = N" using k assms(1) by (cases "(q + 1) * B \<le> N") simp_all
  qed auto
qed

lemma jam_sticky_bit: "0 < t \<Longrightarrow> jam (x * 2 ^ t + of_bool k) t = x + of_bool (k \<and> even x)"
proof -
  assume "0 < t"
  then have "(1::nat) < 2 ^ t" by (simp only: one_less_power)
  then have k: "of_bool k < (2::nat) ^ t" by (cases k) simp_all
  have "(x * 2 ^ t + of_bool k) div 2 ^ t = x" by (rule div_nat_eqI) (use k in simp_all)
  moreover have "(x * 2 ^ t + of_bool k) mod 2 ^ t = of_bool k" unfolding mod_mult_self3 by (rule mod_less [OF k])
  ultimately show ?thesis by (simp only: jam_eq) simp
qed

lemma exact_quotient64:
  assumes "2 ^ 63 \<le> unat a" "2 ^ 63 \<le> unat b" "2 ^ 11 dvd unat a" "2 ^ 11 dvd unat b"
  shows "\<exists>r x0 x1 q0 q y0 y1. reciprocal64 b = Some r \<and> mul62x62 r (drop_bit 2 a) = (x0, x1) \<and> lsr128 x0 x1 4 = (q0, q) \<and>
    mul62x62 (drop_bit 2 b) (q + 1) = (y0, y1) \<and>
    unat (if cmp128 y0 y1 0 (drop_bit 11 a) \<le> 0 then q + 1 else q) = 2 ^ 55 * unat a div unat b \<and>
    (cmp128 y0 y1 0 (drop_bit 11 a) = 0 \<longleftrightarrow> 2 ^ 55 * unat a mod unat b = 0)"
proof -
  define A B C where "A = unat a" and "B = unat b" and "C = A div 4"
  have w: "A < 2 ^ 64" "B < 2 ^ 64" using word_less_nat [of a] word_less_nat [of b] by (simp_all add: A_def B_def)
  have dvd: "4 dvd A" "4 dvd B" using assms(3,4) unfolding A_def B_def by (auto elim!: dvd_trans [rotated])
  have C: "A = 4 * C" "0 < C" "C < 2 ^ 62" using dvd w(1) assms(1) by (auto simp: C_def A_def)
  obtain r where r: "reciprocal64 b = Some r" "unat r * B < 2 ^ 125" "2 ^ 125 < (unat r + 3) * B"
    using reciprocal64_spec [OF assms(2)] unfolding B_def by blast
  have "unat r * 2 ^ 63 \<le> unat r * B" using assms(2) by (simp add: B_def)
  also note r(2)
  finally have r62: "unat r < 2 ^ 62" by simp
  obtain x0 x1 where x: "mul62x62 r (drop_bit 2 a) = (x0, x1)" "val128 (x0, x1) = unat r * C"
    using mul62x62_val [of r "drop_bit 2 a"] r62 C(3) by (cases "mul62x62 r (drop_bit 2 a)") (simp add: C_def A_def)
  obtain q0 q where q: "lsr128 x0 x1 4 = (q0, q)" "val128 (q0, q) = unat r * C div 2 ^ 4"
    using lsr128_val [of x0 x1 4] unfolding x(2) by (cases "lsr128 x0 x1 4") simp
  have q_eq: "unat q = unat r * C div 2 ^ 68" unfolding high_word [of q q0] q(2) by (simp add: div_mult2_eq [symmetric])
  note qb = quotient_bounds [OF r(2,3) C(2,3) q_eq]
  have "unat q * 2 ^ 63 \<le> unat q * B" using assms(2) by (simp add: B_def)
  also note qb(1)
  finally have q56: "unat q < 2 ^ 56" using C(3) by simp
  then have q1: "unat (q + 1) = unat q + 1" using unat_add_lem [of q 1] by simp
  obtain y0 y1 where y: "mul62x62 (drop_bit 2 b) (q + 1) = (y0, y1)" "val128 (y0, y1) = B div 4 * (unat q + 1)"
    using mul62x62_val [of "drop_bit 2 b" "q + 1"] q56 w(2) by (cases "mul62x62 (drop_bit 2 b) (q + 1)") (simp add: B_def q1)
  have "4 * (B div 4 * (unat q + 1)) = (unat q + 1) * B" using dvd(2) by auto
  moreover have "4 * val128 (0, drop_bit 11 a) = 2 ^ 57 * C" 
  proof -
    obtain k where "A = 2 ^ 11 * k" using assms(3) unfolding A_def by blast
    then show ?thesis unfolding val128_def C_def by (simp flip: A_def)
  qed
  moreover have "m \<le> n \<longleftrightarrow> i \<le> j" "m = n \<longleftrightarrow> i = j" if "4 * m = i" "4 * n = j" for m n i j :: nat using that by auto
  ultimately have c: "val128 (y0, y1) \<le> val128 (0, drop_bit 11 a) \<longleftrightarrow> (unat q + 1) * B \<le> 2 ^ 57 * C"
    "val128 (y0, y1) = val128 (0, drop_bit 11 a) \<longleftrightarrow> (unat q + 1) * B = 2 ^ 57 * C" unfolding y(2) by blast+
  have N: "2 ^ 57 * C = 2 ^ 55 * unat a" unfolding A_def [symmetric] C(1) by simp
  have cmp: "cmp128 y0 y1 0 (drop_bit 11 a) \<le> 0 \<longleftrightarrow> (unat q + 1) * B \<le> 2 ^ 57 * C" "cmp128 y0 y1 0 (drop_bit 11 a) = 0 \<longleftrightarrow> (unat q + 1) * B = 2 ^ 57 * C"
    unfolding cmp128_val c [symmetric] by auto
  note last = last_step [OF qb]
  have "unat (if cmp128 y0 y1 0 (drop_bit 11 a) \<le> 0 then q + 1 else q) = 2 ^ 55 * unat a div unat b"
    unfolding cmp(1) if_distrib [of unat] q1 last(1) unfolding N B_def ..
  moreover have "cmp128 y0 y1 0 (drop_bit 11 a) = 0 \<longleftrightarrow> 2 ^ 55 * unat a mod unat b = 0" unfolding cmp(2) last(2) unfolding N B_def ..
  ultimately show ?thesis using r(1) x(1) q(1) y(1) by (intro exI conjI)
qed

lemma normalised_quotient:
  fixes x :: "64 word" and n d :: nat
  assumes x: "unat x = n div d" "2 ^ 54 \<le> unat x" and "0 < d"
  shows "\<exists>s N. fp64_normalise x ex = (N, ex - int s) \<and> s \<le> 9 \<and>
    sticky (jam (2 ^ LENGTH(64) + unat (push_bit 1 N OR of_bool (n mod d \<noteq> 0))) 10) (real n / real d / 2 ^ (9 - s))"
proof -
  have "x \<noteq> 0" using x(2) by (auto simp: unat_inj_iff)
  then obtain s N where s: "fp64_normalise x ex = (N, ex - int s)" "unat N = unat x * 2 ^ s" "2 ^ 63 \<le> unat N"
    using fp_normalise_spec(3) [of x ex] by blast
  have "s \<le> 9"
  proof (rule ccontr)
    assume "\<not> s \<le> 9"
    then have "2 ^ 54 * 2 ^ 10 \<le> unat x * 2 ^ s" using x(2) by (intro mult_mono power_increasing) simp_all
    then show False using word_less_nat [of N] by (simp add: s(2))
  qed
  then have t: "0 < s + 1" "s + 1 + (9 - s) = 10" by simp_all
  have split: "jam M 10 = jam (jam M (s + 1)) (9 - s)" for M unfolding jam_jam t(2) ..
  have "unat (push_bit 1 N) = 2 * unat N - 2 ^ 64" using s(3) word_less_nat [of N] unfolding unat_push_mod by (simp add: le_mod_geq)
  then have "2 ^ LENGTH(64) + unat (push_bit 1 N OR of_bool (n mod d \<noteq> 0)) = unat x * 2 ^ (s + 1) + of_bool (n mod d \<noteq> 0)"
    using s(3) unfolding unat_or_bool by (simp add: s(2))
  then have "jam (2 ^ LENGTH(64) + unat (push_bit 1 N OR of_bool (n mod d \<noteq> 0))) 10 = jam (n div d + of_bool (n mod d \<noteq> 0 \<and> even (n div d))) (9 - s)"
    by (simp only: split jam_sticky_bit [OF t(1)] x(1))
  then show ?thesis using s(1) \<open>s \<le> 9\<close> sticky_jam [OF sticky_quotient [OF assms(3), of n], of "9 - s"] by auto
qed

lemma quotient64_spec:
  fixes a b :: "64 word"
  assumes "a \<noteq> 0" "b \<noteq> 0" "unat a < 2 ^ (52 + 1)" "unat b < 2 ^ (52 + 1)"
  shows "\<exists>m t. quotient64 a b ea eb = Some (m, ea - eb + t) \<and>
    sticky (jam (2 ^ LENGTH(64) + unat m) 10) (real (unat a) / real (unat b) * 2 powi (2 ^ 10 + int 52 + 1 + int 10 - t) / 2 ^ 10)"
proof -
  obtain sa a' where a: "fp64_normalise a ea = (a', ea - int sa)" "unat a' = unat a * 2 ^ sa" "2 ^ 63 \<le> unat a'"
    using fp_normalise_spec(3) [OF assms(1), of ea] by blast
  obtain sb b' where b: "fp64_normalise b eb = (b', eb - int sb)" "unat b' = unat b * 2 ^ sb" "2 ^ 63 \<le> unat b'"
    using fp_normalise_spec(3) [OF assms(2), of eb] by blast
  have low: "2 ^ 11 dvd unat a'" "2 ^ 11 dvd unat b'"
    using normalised_low_bits [OF a(2,3)] normalised_low_bits [OF b(2,3)] assms(3,4) by simp_all
  define n where "n = 2 ^ 55 * unat a'"
  obtain r x0 x1 q0 q y0 y1 where x: "reciprocal64 b' = Some r" "mul62x62 r (drop_bit 2 a') = (x0, x1)" "lsr128 x0 x1 4 = (q0, q)"
      "mul62x62 (drop_bit 2 b') (q + 1) = (y0, y1)"
    and qx: "unat (if cmp128 y0 y1 0 (drop_bit 11 a') \<le> 0 then q + 1 else q) = n div unat b'"
    and c: "cmp128 y0 y1 0 (drop_bit 11 a') = 0 \<longleftrightarrow> n mod unat b' = 0"
    using exact_quotient64 [OF a(3) b(3) low, folded n_def] by (elim exE conjE) (rule that)
  have b0: "0 < unat b'" using b(3) by simp
  have "2 ^ 54 * unat b' \<le> n" using word_less_nat [of b'] a(3) by (simp add: n_def)
  then have "2 ^ 54 \<le> n div unat b'" using b0 by (simp add: less_eq_div_iff_mult_less_eq)
  define ex where "ex = ea - int sa - (eb - int sb) + 1031"
  obtain s N where s: "fp64_normalise (if cmp128 y0 y1 0 (drop_bit 11 a') \<le> 0 then q + 1 else q) ex = (N, ex - int s)" "s \<le> 9"
    and st: "sticky (jam (2 ^ LENGTH(64) + unat (push_bit 1 N OR of_bool (n mod unat b' \<noteq> 0))) 10) (real n / real (unat b') / 2 ^ (9 - s))"
    using normalised_quotient [OF qx _ b0, of ex] \<open>2 ^ 54 \<le> n div unat b'\<close> unfolding qx by blast
  have "real n / real (unat b') / 2 ^ (9 - s) = real (unat a) / real (unat b) * (2 ^ 55 * 2 ^ sa / 2 ^ sb / 2 ^ (9 - s))"
    by (simp add: n_def a(2) b(2) field_simps)
  also have "2 ^ 55 * 2 ^ sa / 2 ^ sb / (2::real) ^ (9 - s) = 2 powi (int 55 + int sa - int sb - int (9 - s))" by (simp only: powi_nat)
  also have "int 55 + int sa - int sb - int (9 - s) = 2 ^ 10 + int 52 + 1 + int 10 - (1031 - int sa + int sb - int s) - int 10" using \<open>s \<le> 9\<close> by (simp add: of_nat_diff)
  also have "(2::real) powi \<dots> = 2 powi (2 ^ 10 + int 52 + 1 + int 10 - (1031 - int sa + int sb - int s)) / 2 ^ 10" by (simp only: powi_nat)
  finally have v: "real n / real (unat b') / 2 ^ (9 - s) =
    real (unat a) / real (unat b) * 2 powi (2 ^ 10 + int 52 + 1 + int 10 - (1031 - int sa + int sb - int s)) / 2 ^ 10" by simp
  have "quotient64 a b ea eb = Some (push_bit 1 N OR of_bool (n mod unat b' \<noteq> 0), ex - int s)"
    unfolding quotient64_def a(1) b(1) x Let_def prod.case bind.bind_lunit ex_def [symmetric] s(1) c ..
  moreover have "ex - int s = ea - eb + (1031 - int sa + int sb - int s)" by (simp add: ex_def)
  ultimately show ?thesis using st unfolding v by auto
qed

interpretation single: fp_div 23 7 255 fp32_pack fp32_zero fp32_infinity fp32_max_normal fp32_round_rm fp32_unpack fp32_process_NaNs
  quotient32 fp32_defaultNaN fp32_div
proof unfold_locales
  show "fp32_div a b mode flags = (let
     (a_sgn, a_exp, a_mnt, flags) = fp32_unpack a mode flags;
     (b_sgn, b_exp, b_mnt, flags) = fp32_unpack b mode flags;
     (x, flags) = fp32_process_NaNs a b mode flags
     in if x \<noteq> 0 then Some (x, flags)
     else if a_exp = 2 ^ (7 + 1) - 1 \<and> b_exp = 2 ^ (7 + 1) - 1 \<or> a_mnt = 0 \<and> b_mnt = 0 then Some (fp32_defaultNaN, flags OR FPLIB_IOC)
     else if a_exp = 2 ^ (7 + 1) - 1 \<or> b_mnt = 0 then
       Some (fp32_infinity (a_sgn \<noteq> b_sgn), if a_exp \<noteq> 2 ^ (7 + 1) - 1 then flags OR FPLIB_DZC else flags)
     else if a_mnt = 0 \<or> b_exp = 2 ^ (7 + 1) - 1 then Some (fp32_zero (a_sgn \<noteq> b_sgn), flags)
     else do {
       (x_mnt, x_exp) \<leftarrow> quotient32 a_mnt b_mnt a_exp b_exp;
       fp32_round_rm (a_sgn \<noteq> b_sgn) x_exp x_mnt (mode AND 3) mode flags
     })" for a b mode flags
    unfolding fp32_div_def quotient32_def narrow32_def fp32_round_def Let_def format_nums bind_assoc bind.bind_lunit
    by (simp only: prod.case_distrib split_beta fst_conv snd_conv bind.bind_lunit bind_assoc)
qed (rule quotient32_spec)

interpretation double: fp_div 52 10 "0x3ff" fp64_pack fp64_zero fp64_infinity fp64_max_normal fp64_round_rm fp64_unpack fp64_process_NaNs
  quotient64 fp64_defaultNaN fp64_div
proof unfold_locales
  show "fp64_div a b mode flags = (let
     (a_sgn, a_exp, a_mnt, flags) = fp64_unpack a mode flags;
     (b_sgn, b_exp, b_mnt, flags) = fp64_unpack b mode flags;
     (x, flags) = fp64_process_NaNs a b mode flags
     in if x \<noteq> 0 then Some (x, flags)
     else if a_exp = 2 ^ (10 + 1) - 1 \<and> b_exp = 2 ^ (10 + 1) - 1 \<or> a_mnt = 0 \<and> b_mnt = 0 then Some (fp64_defaultNaN, flags OR FPLIB_IOC)
     else if a_exp = 2 ^ (10 + 1) - 1 \<or> b_mnt = 0 then
       Some (fp64_infinity (a_sgn \<noteq> b_sgn), if a_exp \<noteq> 2 ^ (10 + 1) - 1 then flags OR FPLIB_DZC else flags)
     else if a_mnt = 0 \<or> b_exp = 2 ^ (10 + 1) - 1 then Some (fp64_zero (a_sgn \<noteq> b_sgn), flags)
     else do {
       (x_mnt, x_exp) \<leftarrow> quotient64 a_mnt b_mnt a_exp b_exp;
       fp64_round_rm (a_sgn \<noteq> b_sgn) x_exp x_mnt (mode AND 3) mode flags
     })" for a b mode flags
    unfolding fp64_div_def quotient64_def reciprocal64_def fp64_round_def Let_def format_nums bind_assoc bind.bind_lunit
    by (simp only: prod.case_distrib split_beta fst_conv snd_conv bind.bind_lunit bind_assoc)
qed (rule quotient64_spec)

end
