(* ===== verification/TiC_FP_Convert.thy ===== *)
theory TiC_FP_Convert
  imports TiC_FP_Div
begin

text \<open>
  Conversion of 64-bit fixed-point numbers, signed or unsigned, to both precisions is correctly rounded.
\<close>

text \<open>The integer that a word stands for, as the conversion reads it.\<close>

definition fixed_int :: "bool \<Rightarrow> 64 word \<Rightarrow> int" where
  "fixed_int u a = (if u then uint a else sint a)"

lemma sint_bounds: "- (2 ^ 63) \<le> sint (a :: 64 word)" "sint a < 2 ^ 63"
  using sint_ge [of a] sint_lt [of a] by simp_all

lemma int_unat: "int (unat (a :: 64 word)) = (if sint a < 0 then sint a + 2 ^ 64 else sint a)"
proof -
  have "int (unat a) = sint a mod 2 ^ 64" by (simp add: uint_sint [of a] take_bit_eq_mod)
  moreover have "k mod 2 ^ 64 = (if k < 0 then k + 2 ^ 64 else k)" if "- (2 ^ 63) \<le> k" "k < 2 ^ 63" for k :: int
    using that mod_pos_pos_trivial [of "k + 2 ^ 64" "2 ^ 64"] by simp
  ultimately show ?thesis using sint_bounds [of a] by simp
qed

lemma fixed_magnitude:
  fixes a :: "64 word" and u :: bool
  defines "k \<equiv> fixed_int u a"
  shows "(\<not> u \<and> drop_bit 63 a \<noteq> 0) = (k < 0)" "unat (if k < 0 then - a else a) = nat \<bar>k\<bar>"
proof -
  have "drop_bit 63 a \<noteq> 0 \<longleftrightarrow> 2 ^ 63 \<le> unat a" by (simp add: unat_inj_iff div_eq_0_iff not_less)
  also have "\<dots> \<longleftrightarrow> int (2 ^ 63) \<le> int (unat a)" by (simp only: of_nat_le_iff)
  also have "\<dots> \<longleftrightarrow> sint a < 0" unfolding int_unat using sint_bounds [of a] by simp
  finally show s: "(\<not> u \<and> drop_bit 63 a \<noteq> 0) = (k < 0)" by (simp add: k_def fixed_int_def)
  show "unat (if k < 0 then - a else a) = nat \<bar>k\<bar>"
  proof (cases "k < 0")
    case True
    then have u: "\<not> u" "k = sint a" by (auto simp: k_def fixed_int_def split: if_splits)
    then have "int (unat a) = k + 2 ^ 64" using True int_unat [of a] by simp
    moreover have "0 < k + 2 ^ 64" using sint_bounds(1) [of a] u(2) by simp
    moreover from calculation have "0 < int (unat a)" by (simp only:)
    moreover from this have "unat (0 - a) = 2 ^ 64 - unat a" by (simp only: unat_diff_wrap of_nat_0_less_iff) simp
    moreover have "2 ^ 64 - n = nat \<bar>k\<bar>" if "int n = k + 2 ^ 64" for n using that True by (simp add: nat_eq_iff of_nat_diff)
    ultimately show ?thesis using True by (simp only: if_True diff_0)
  next
    case False
    then have "int (unat a) = k" using int_unat [of a] by (cases u) (simp_all add: k_def fixed_int_def)
    then have "unat a = nat k" by (metis nat_int)
    then show ?thesis using False by simp
  qed
qed

lemma cvtf_sticky32:
  assumes "a \<noteq> 0"
  shows "\<exists>s m. (let (x_mnt, x_exp) = fp64_normalise a ex in (narrow32 x_mnt, x_exp)) = (m, ex - int s) \<and>
    sticky (jam (2 ^ LENGTH(32) + unat m) 7) (real (unat a) * 2 ^ s / 2 ^ 31 / 2 ^ 7)"
proof -
  obtain s N where s: "fp64_normalise a ex = (N, ex - int s)" "unat N = unat a * 2 ^ s" "2 ^ 63 \<le> unat N"
    using fp_normalise_spec(3) [OF assms, of ex] by blast
  have "sticky (jam (jam (unat N) 31) 7) (real (unat N) / 2 ^ 31 / 2 ^ 7)" by (intro sticky_jam sticky_exact)
  then show ?thesis unfolding s(1) narrow32_val [OF s(3), symmetric] by (auto simp: s(2))
qed

lemma cvtf_sticky64:
  assumes "a \<noteq> 0"
  shows "\<exists>s m. (let (x_mnt, x_exp) = fp64_normalise a ex in (push_bit 1 x_mnt, x_exp)) = (m, ex - int s) \<and>
    sticky (jam (2 ^ LENGTH(64) + unat m) 10) (real (unat a) * 2 ^ s * 2 / 2 ^ 10)"
proof -
  obtain s N where s: "fp64_normalise a ex = (N, ex - int s)" "unat N = unat a * 2 ^ s" "2 ^ 63 \<le> unat N"
    using fp_normalise_spec(3) [OF assms, of ex] by blast
  have "2 ^ LENGTH(64) + unat (push_bit 1 N) = unat N * 2" using s(3) word_less_nat [of N] unfolding unat_push_mod by (simp add: le_mod_geq)
  moreover have "sticky (jam (unat N * 2) 10) (real (unat N * 2) / 2 ^ 10)" by (rule sticky_real_div)
  ultimately show ?thesis unfolding s(1) by (auto simp: s(2))
qed

lemma cvtf32_correct:
  fixes a :: "64 word" and u :: bool and fbits :: int
  assumes "mode AND FPLIB_FZ = 0"
  defines "k \<equiv> fixed_int u a" and "y \<equiv> real_of_int \<bar>fixed_int u a\<bar> * 2 powi (149 - fbits)"
  shows "\<exists>x. fp32_cvtf a fbits u mode flags = Some (x, flags OR ieee_flags 23 (2 ^ (7 + 1) - 1) (mode AND 3) (k < 0) y) \<and>
    unat x = of_bool (k < 0) * 2 ^ (23 + 7 + 1) + ieee_round 23 (2 ^ (7 + 1) - 1) (mode AND 3) (k < 0) y"
proof -
  define b where "b = (if k < 0 then - a else a)"
  have b: "unat b = nat \<bar>k\<bar>" and sn: "(\<not> u \<and> drop_bit 63 a \<noteq> 0) = (k < 0)" unfolding b_def k_def by (rule fixed_magnitude)+
  have run: "fp32_cvtf a fbits u mode flags = (if b = 0 then Some (fp32_zero False, flags)
    else let (x_mnt, x_exp) = (let (x_mnt, x_exp) = fp64_normalise b (190 - fbits) in (narrow32 x_mnt, x_exp))
      in fp32_round_rm (k < 0) x_exp x_mnt (mode AND 3) mode flags)"
    unfolding fp32_cvtf_def sn Let_def b_def [symmetric] fp32_round_def narrow32_def by (simp only: split_beta fst_conv snd_conv)
  show ?thesis
  proof (cases "b = 0")
    case True
    then have "k = 0" using b by simp
    then show ?thesis using True by (simp add: run y_def flip: k_def) (simp add: ieee_zero single.unat_specials)
  next
    case False
    then obtain s m where m: "(let (x_mnt, x_exp) = fp64_normalise b (190 - fbits) in (narrow32 x_mnt, x_exp)) = (m, 190 - fbits - int s)"
      "sticky (jam (2 ^ LENGTH(32) + unat m) 7) (real (unat b) * 2 ^ s / 2 ^ 31 / 2 ^ 7)" using cvtf_sticky32 [of b "190 - fbits"] by blast
    have "190 - fbits - int s - 3 - int 7 = 149 - fbits + int 31 - int s" by simp
    also have "(2::real) powi \<dots> = 2 powi (149 - fbits) * 2 ^ 31 / 2 ^ s" by (simp only: powi_nat)
    finally have "y = real (unat b) * 2 ^ s / 2 ^ 31 * 2 powi (190 - fbits - int s - 3 - int 7)"
      unfolding y_def b k_def [symmetric] by simp
    from single.round_correct [OF and_3_not_tieaway disjI1 [OF assms(1)] m(2) this]
    show ?thesis unfolding run unfolding m(1) unfolding Let_def prod.case using False by (simp only: if_False)
  qed
qed

lemma cvtf64_correct:
  fixes a :: "64 word" and u :: bool and fbits :: int
  assumes "mode AND FPLIB_FZ = 0"
  defines "k \<equiv> fixed_int u a" and "y \<equiv> real_of_int \<bar>fixed_int u a\<bar> * 2 powi (1074 - fbits)"
  shows "\<exists>x. fp64_cvtf a fbits u mode flags = Some (x, flags OR ieee_flags 52 (2 ^ (10 + 1) - 1) (mode AND 3) (k < 0) y) \<and>
    unat x = of_bool (k < 0) * 2 ^ (52 + 10 + 1) + ieee_round 52 (2 ^ (10 + 1) - 1) (mode AND 3) (k < 0) y"
proof -
  define b where "b = (if k < 0 then - a else a)"
  have b: "unat b = nat \<bar>k\<bar>" and sn: "(\<not> u \<and> drop_bit 63 a \<noteq> 0) = (k < 0)" unfolding b_def k_def by (rule fixed_magnitude)+
  have run: "fp64_cvtf a fbits u mode flags = (if b = 0 then Some (fp64_zero False, flags)
    else let (x_mnt, x_exp) = (let (x_mnt, x_exp) = fp64_normalise b (1024 + 62 - fbits) in (push_bit 1 x_mnt, x_exp))
      in fp64_round_rm (k < 0) x_exp x_mnt (mode AND 3) mode flags)"
    unfolding fp64_cvtf_def sn Let_def b_def [symmetric] fp64_round_def by (simp only: split_beta fst_conv snd_conv)
  show ?thesis
  proof (cases "b = 0")
    case True
    then have "k = 0" using b by simp
    then show ?thesis using True by (simp add: run y_def flip: k_def) (simp add: ieee_zero double.unat_specials)
  next
    case False
    then obtain s m where m: "(let (x_mnt, x_exp) = fp64_normalise b (1024 + 62 - fbits) in (push_bit 1 x_mnt, x_exp)) = (m, 1024 + 62 - fbits - int s)"
      "sticky (jam (2 ^ LENGTH(64) + unat m) 10) (real (unat b) * 2 ^ s * 2 / 2 ^ 10)" using cvtf_sticky64 [of b "1024 + 62 - fbits"] by blast
    have "1024 + 62 - fbits - int s - 3 - int 10 = 1074 - fbits - int 1 - int s" by simp
    also have "(2::real) powi \<dots> = 2 powi (1074 - fbits) / 2 ^ 1 / 2 ^ s" by (simp only: powi_nat)
    finally have "y = real (unat b) * 2 ^ s * 2 * 2 powi (1024 + 62 - fbits - int s - 3 - int 10)"
      unfolding y_def b k_def [symmetric] by simp
    from double.round_correct [OF and_3_not_tieaway disjI1 [OF assms(1)] m(2) this]
    show ?thesis unfolding run unfolding m(1) unfolding Let_def prod.case using False by (simp only: if_False)
  qed
qed

end
