(* ===== verification/TiC_FP_Root.thy ===== *)
theory TiC_FP_Root
  imports TiC_FP_Convert
begin

text \<open>
  The arithmetic of the square roots, on natural and real numbers: the line and the Newton steps that both precisions share, with
  their errors, and the comparison of a square that fixes the last place of the result.
\<close>

subsection \<open>Newton's method\<close>

definition newton :: "real \<Rightarrow> real \<Rightarrow> real" where
  "newton s x = s * s / (2 * x) + x / 2"

lemma newton_gap: "0 < x \<Longrightarrow> newton s x - s = (x - s) * (x - s) / (2 * x)"
  by (simp add: newton_def field_simps)

lemma newton_bounds:
  assumes "0 < l" "l \<le> x" "\<bar>x - s\<bar> \<le> d"
  shows "s \<le> newton s x" "newton s x \<le> s + d * d / (2 * l)"
proof -
  have x: "0 < x" using assms by linarith
  have sq: "(x - s) * (x - s) = \<bar>x - s\<bar> * \<bar>x - s\<bar>" by simp
  have "0 \<le> (x - s) * (x - s) / (2 * x)" using x by simp
  then show "s \<le> newton s x" using newton_gap [OF x, of s] by linarith
  have "(x - s) * (x - s) / (2 * x) \<le> d * d / (2 * l)" unfolding sq using assms by (intro frac_le mult_mono) simp_all
  then show "newton s x \<le> s + d * d / (2 * l)" using newton_gap [OF x, of s] by linarith
qed

subsection \<open>The estimate of 32 bits\<close>

definition root_seed :: "nat \<Rightarrow> nat" where
  "root_seed A = A div 4 + A div 8 + 5 * 2 ^ 28"

definition root_step :: "nat \<Rightarrow> nat \<Rightarrow> nat" where
  "root_step A x = (A div (x div 2 ^ 15) + x div 2 ^ 16) * 2 ^ 15"

definition root_third :: "nat \<Rightarrow> nat \<Rightarrow> nat" where
  "root_third a x = a div x div 4 + x div 2"

lemma real_div_floor: "0 < n \<Longrightarrow> real (m div n) \<le> real m / real n" "0 < n \<Longrightarrow> real m / real n < real (m div n) + 1"
proof -
  assume "0 < n"
  have "real (n * (m div n)) \<le> real m" by (simp only: of_nat_le_iff times_div_less_eq_dividend)
  then show "real (m div n) \<le> real m / real n" using \<open>0 < n\<close> by (simp add: le_divide_eq mult.commute)
  have "m < n + n * (m div n)" using \<open>0 < n\<close> by (rule dividend_less_times_div)
  then have "real m < real (n + n * (m div n))" by (simp only: of_nat_less_iff)
  then have "real m < (real (m div n) + 1) * real n" by (simp add: algebra_simps)
  then show "real m / real n < real (m div n) + 1" using \<open>0 < n\<close> by (simp add: divide_less_eq)
qed

lemma root_step_bounds:
  assumes "5 * 2 ^ 28 \<le> x" "A < 2 ^ 32"
  shows "real A * 2 ^ 30 / real x + real x / 2 - 2 ^ 16 \<le> real (root_step A x)"
    and "real (root_step A x) \<le> real A * 2 ^ 30 / real x + real x / 2 + 3 * 2 ^ 15"
proof -
  define y q z where "y = x div 2 ^ 15" and "q = A div y" and "z = x div 2 ^ 16"
  define X where "X = real x"
  have X: "5 * 2 ^ 28 \<le> X" using assms(1) unfolding X_def by (metis of_nat_le_iff of_nat_mult of_nat_numeral of_nat_power)
  have y: "real y \<le> X / 2 ^ 15" "X / 2 ^ 15 < real y + 1" using real_div_floor [of "2 ^ 15" x] by (simp_all add: y_def X_def)
  have z: "real z \<le> X / 2 ^ 16" "X / 2 ^ 16 < real z + 1" using real_div_floor [of "2 ^ 16" x] by (simp_all add: z_def X_def)
  have y0: "5 * 2 ^ 13 - 1 < real y" "0 < real y" using X y(2) by simp_all
  have q: "real q \<le> real A / real y" "real A / real y < real q + 1" using real_div_floor [of y A] y0(2) by (simp_all add: q_def)
  have step: "real (root_step A x) = (real q + real z) * 2 ^ 15" by (simp add: root_step_def q_def y_def z_def)
  have A: "real A < 2 ^ 32" using assms(2) by (metis of_nat_less_iff of_nat_numeral of_nat_power)
  have "real A / (X / 2 ^ 15) \<le> real A / real y" using y(1) y0(2) X by (intro divide_left_mono) simp_all
  then have lo: "real A * 2 ^ 15 / X \<le> real q + 1" using q(2) by simp
  have g: "real A * 2 ^ 30 / X = real A * 2 ^ 15 / X * 2 ^ 15" by simp
  have "real A * 2 ^ 30 / X \<le> (real q + 1) * 2 ^ 15" unfolding g by (rule mult_right_mono [OF lo]) simp
  then show "real A * 2 ^ 30 / real x + real x / 2 - 2 ^ 16 \<le> real (root_step A x)"
    unfolding step X_def [symmetric] using z(2) by simp
  have "real A / real y - real A / (X / 2 ^ 15) \<le> 3"
  proof -
    have "real A / real y - real A / (X / 2 ^ 15) = real A * (X / 2 ^ 15 - real y) / (real y * (X / 2 ^ 15))" using y0(2) X by (simp add: field_simps)
    also have "\<dots> \<le> 2 ^ 32 * 1 / ((5 * 2 ^ 13 - 1) * (5 * 2 ^ 13))" using A y y0 X by (intro frac_le mult_mono) simp_all
    also have "\<dots> \<le> 3" by simp
    finally show ?thesis .
  qed
  then have hi: "real q \<le> real A * 2 ^ 15 / X + 3" using q(1) by simp
  have "real q * 2 ^ 15 \<le> real A * 2 ^ 30 / X + 3 * 2 ^ 15" using mult_right_mono [OF hi, of "2 ^ 15"] unfolding g distrib_right by simp
  then show "real (root_step A x) \<le> real A * 2 ^ 30 / real x + real x / 2 + 3 * 2 ^ 15"
    unfolding step X_def [symmetric] using z(1) by simp
qed

lemma newton_scale: "0 < k \<Longrightarrow> newton (k * s) (k * x) = k * newton s x"
  by (simp add: newton_def field_simps)

lemma root_step_newton:
  fixes a x :: nat and s :: real
  assumes "s * s = real a / 2" "5 * 2 ^ 28 \<le> x" "a < 2 ^ 64"
  shows "newton s (real x) - (2 ^ 16 + 1) \<le> real (root_step (a div 2 ^ 32) x)" "real (root_step (a div 2 ^ 32) x) \<le> newton s (real x) + 3 * 2 ^ 15"
proof -
  define A where "A = a div 2 ^ 32"
  have "A < 2 ^ 32" unfolding A_def using assms(3) by (intro less_mult_imp_div_less) simp
  note b = root_step_bounds [OF assms(2) this]
  have A: "real A * 2 ^ 30 \<le> real a / 4" "real a / 4 < real A * 2 ^ 30 + 2 ^ 30" using real_div_floor [of "2 ^ 32" a] by (simp_all add: A_def)
  have x: "2 ^ 30 \<le> real x" using of_nat_mono [OF assms(2), where ?'a = real] by simp
  have "real A * 2 ^ 30 / real x \<le> real a / 4 / real x" using A(1) x by (intro divide_right_mono) simp_all
  moreover have "real a / 4 / real x \<le> (real A * 2 ^ 30 + 2 ^ 30) / real x" using A(2) x by (intro divide_right_mono) simp_all
  moreover have "(real A * 2 ^ 30 + 2 ^ 30) / real x \<le> real A * 2 ^ 30 / real x + 1" using x by (simp add: add_divide_distrib)
  moreover have "newton s (real x) = real a / 4 / real x + real x / 2" by (simp add: newton_def assms(1))
  ultimately show "newton s (real x) - (2 ^ 16 + 1) \<le> real (root_step (a div 2 ^ 32) x)" "real (root_step (a div 2 ^ 32) x) \<le> newton s (real x) + 3 * 2 ^ 15"
    using b unfolding A_def by linarith+
qed

lemma root_seed_bounds:
  fixes a :: nat and s :: real
  assumes "s * s = real a / 2"
  shows "3 / 16 * (s * s) / 2 ^ 30 + 5 * 2 ^ 28 - 3 \<le> real (root_seed (a div 2 ^ 32))" "real (root_seed (a div 2 ^ 32)) \<le> 3 / 16 * (s * s) / 2 ^ 30 + 5 * 2 ^ 28"
proof -
  define A where "A = a div 2 ^ 32"
  have "real A \<le> s * s / 2 ^ 31" "s * s / 2 ^ 31 < real A + 1" using real_div_floor [of "2 ^ 32" a] by (simp_all add: A_def assms)
  moreover have "real (A div 4) \<le> real A / 4" "real A / 4 < real (A div 4) + 1" "real (A div 8) \<le> real A / 8" "real A / 8 < real (A div 8) + 1"
    using real_div_floor [of 4 A] real_div_floor [of 8 A] by simp_all
  moreover have "real (root_seed A) = real (A div 4) + real (A div 8) + 5 * 2 ^ 28" by (simp add: root_seed_def)
  ultimately show "3 / 16 * (s * s) / 2 ^ 30 + 5 * 2 ^ 28 - 3 \<le> real (root_seed (a div 2 ^ 32))" "real (root_seed (a div 2 ^ 32)) \<le> 3 / 16 * (s * s) / 2 ^ 30 + 5 * 2 ^ 28"
    unfolding A_def [symmetric] by simp_all
qed

text \<open>The line is within 0.211 of the root in units of \<open>2 ^ 30\<close>.\<close>

lemma line_bounds:
  fixes t :: real
  assumes "14142 / 10000 \<le> t" "t \<le> 28285 / 10000"
  shows "3 / 16 * (t * t) + 5 / 4 - t \<le> 2108 / 10000" "- (2108 / 10000) \<le> 3 / 16 * (t * t) + 5 / 4 - t" "16249 / 10000 \<le> 3 / 16 * (t * t) + 5 / 4"
proof -
  have "14142 / 10000 * (14142 / 10000) \<le> t * t" using assms by (intro mult_mono) simp_all
  then show "16249 / 10000 \<le> 3 / 16 * (t * t) + 5 / 4" by simp
  have "0 \<le> (t - 14142 / 10000) * (16 / 3 - 14142 / 10000 - t)" using assms by (intro mult_nonneg_nonneg) simp_all
  moreover have "(t - c) * (d - c - t) = d * t - t * t - d * c + c * c" for c d :: real by (simp add: algebra_simps)
  ultimately show "3 / 16 * (t * t) + 5 / 4 - t \<le> 2108 / 10000" by (simp only:)
  have "0 \<le> (t - 8 / 3) * (t - 8 / 3)" by simp
  moreover have "(t - c) * (t - c) = t * t - 2 * c * t + c * c" for c :: real by (simp add: algebra_simps)
  ultimately show "- (2108 / 10000) \<le> 3 / 16 * (t * t) + 5 / 4 - t" by (simp only:)
qed

lemma root_step_scaled:
  fixes a x :: nat and t d l :: real
  assumes t: "t * t = real a / 2 ^ 61" and "a < 2 ^ 64" "5 / 4 \<le> l" "l \<le> real x / 2 ^ 30" "\<bar>real x / 2 ^ 30 - t\<bar> \<le> d"
  shows "t - 1 / 10000 \<le> real (root_step (a div 2 ^ 32) x) / 2 ^ 30"
    and "real (root_step (a div 2 ^ 32) x) / 2 ^ 30 \<le> t + d * d / (2 * l) + 92 / 1000000"
proof -
  have "real (5 * 2 ^ 28) \<le> real x" using assms(3,4) by simp
  then have x: "5 * 2 ^ 28 \<le> x" by (simp only: of_nat_le_iff)
  have s: "(2 ^ 30 * t) * (2 ^ 30 * t) = real a / 2" using t by (simp add: algebra_simps)
  have n: "newton (2 ^ 30 * t) (real x) = 2 ^ 30 * newton t (real x / 2 ^ 30)" using newton_scale [of "2 ^ 30" t "real x / 2 ^ 30"] by simp
  have "0 < l" using assms(3) by simp
  note g = newton_bounds [OF this assms(4,5)]
  show "t - 1 / 10000 \<le> real (root_step (a div 2 ^ 32) x) / 2 ^ 30" using root_step_newton(1) [OF s x assms(2)] g(1) unfolding n by simp
  show "real (root_step (a div 2 ^ 32) x) / 2 ^ 30 \<le> t + d * d / (2 * l) + 92 / 1000000" using root_step_newton(2) [OF s x assms(2)] g(2) unfolding n by simp
qed

lemma root_third_newton:
  fixes a x :: nat and s :: real
  assumes "s * s = real a / 2" "0 < x"
  shows "newton s (real x) - 2 \<le> real (root_third a x)" "real (root_third a x) \<le> newton s (real x)"
proof -
  have "newton s (real x) = real a / real x / 4 + real x / 2" by (simp add: newton_def assms(1))
  then show "newton s (real x) - 2 \<le> real (root_third a x)" "real (root_third a x) \<le> newton s (real x)"
    using real_div_floor [OF assms(2), of a] real_div_floor [of 4 "a div x"] real_div_floor [of 2 x] by (simp_all add: root_third_def)
qed

definition root_two_steps :: "nat \<Rightarrow> nat" where
  "root_two_steps A = root_step A (root_step A (root_seed A))"

lemma root_range:
  fixes a :: nat and t :: real
  assumes "2 ^ 62 \<le> a" "a < 2 ^ 64" "t = sqrt (real a / 2) / 2 ^ 30"
  shows "t * t = real a / 2 ^ 61" "14142 / 10000 \<le> t" "t \<le> 28285 / 10000"
proof -
  have "t * t = sqrt (real a / 2) * sqrt (real a / 2) / 2 ^ 60" unfolding assms(3) by simp
  then show t: "t * t = real a / 2 ^ 61" by simp
  have "2 ^ 62 \<le> real a" "real a < 2 ^ 64" using assms(1,2) by (metis of_nat_le_iff of_nat_numeral of_nat_power, metis of_nat_less_iff of_nat_numeral of_nat_power)
  then have tt: "2 \<le> t * t" "t * t < 8" unfolding t by simp_all
  have "0 \<le> t" unfolding assms(3) by simp
  then show "14142 / 10000 \<le> t" "t \<le> 28285 / 10000"
    using tt mult_strict_mono [of t "14142 / 10000" t "14142 / 10000"] mult_strict_mono [of "28285 / 10000" t "28285 / 10000" t]
    by (force simp: not_le [symmetric])+
qed

lemma abs_close: "t - c \<le> X \<Longrightarrow> X \<le> t + d \<Longrightarrow> c \<le> d \<Longrightarrow> \<bar>X - t\<bar> \<le> (d::real)"
  by linarith

lemma root_seed_scaled:
  fixes a :: nat and t :: real
  assumes t: "t * t = real a / 2 ^ 61" "14142 / 10000 \<le> t" "t \<le> 28285 / 10000"
  shows "16248 / 10000 \<le> real (root_seed (a div 2 ^ 32)) / 2 ^ 30" "\<bar>real (root_seed (a div 2 ^ 32)) / 2 ^ 30 - t\<bar> \<le> 2109 / 10000"
proof -
  have "(2 ^ 30 * t) * (2 ^ 30 * t) = real a / 2" using t(1) by (simp add: algebra_simps)
  from root_seed_bounds [OF this] have x: "3 / 16 * (t * t) + 5 / 4 - 3 / 2 ^ 30 \<le> real (root_seed (a div 2 ^ 32)) / 2 ^ 30"
    "real (root_seed (a div 2 ^ 32)) / 2 ^ 30 \<le> 3 / 16 * (t * t) + 5 / 4" by (simp_all add: field_simps)
  then show "16248 / 10000 \<le> real (root_seed (a div 2 ^ 32)) / 2 ^ 30" using line_bounds(3) [OF t(2,3)] by simp
  have "f - 3 / 2 ^ 30 \<le> X \<Longrightarrow> X \<le> f \<Longrightarrow> f - t \<le> 2108 / 10000 \<Longrightarrow> - (2108 / 10000) \<le> f - t \<Longrightarrow> \<bar>X - t\<bar> \<le> 2109 / 10000" for f X :: real
    by (rule abs_close [where c = "2109 / 10000"]) simp_all
  from this [OF x line_bounds(1,2) [OF t(2,3)]] show "\<bar>real (root_seed (a div 2 ^ 32)) / 2 ^ 30 - t\<bar> \<le> 2109 / 10000" .
qed

lemma root_estimate:
  fixes a :: nat and s :: real
  assumes "2 ^ 62 \<le> a" "a < 2 ^ 64" "s = sqrt (real a / 2)"
  defines "A \<equiv> a div 2 ^ 32"
  shows "5 * 2 ^ 28 \<le> real (root_seed A)" "real (root_seed A) < 2 ^ 32"
    and "5 * 2 ^ 28 \<le> real (root_step A (root_seed A))" "real (root_step A (root_seed A)) < 2 ^ 32"
    and "5 * 2 ^ 28 \<le> real (root_two_steps A)" "real (root_two_steps A) < 2 ^ 32"
    and "s - 2 \<le> real (root_third a (root_two_steps A))" "real (root_third a (root_two_steps A)) \<le> s + 10"
proof -
  define t where "t = s / 2 ^ 30"
  have s: "s = 2 ^ 30 * t" by (simp add: t_def)
  note t = root_range [OF assms(1,2), of t, unfolded t_def assms(3), OF refl, folded assms(3), folded t_def]
  note x0 = root_seed_scaled [OF t, folded A_def]
  have x1: "t - 1 / 10000 \<le> real (root_step A (root_seed A)) / 2 ^ 30" "real (root_step A (root_seed A)) / 2 ^ 30 \<le> t + 1379 / 100000"
    using root_step_scaled [OF t(1) assms(2) _ x0 [unfolded A_def]] unfolding A_def by simp_all
  have d1: "\<bar>real (root_step A (root_seed A)) / 2 ^ 30 - t\<bar> \<le> 1379 / 100000" by (rule abs_close [OF x1]) simp
  have l1: "14141 / 10000 \<le> real (root_step A (root_seed A)) / 2 ^ 30" using x1(1) t(2) by simp
  have x2: "t - 1 / 10000 \<le> real (root_two_steps A) / 2 ^ 30" "real (root_two_steps A) / 2 ^ 30 \<le> t + 16 / 100000"
    using root_step_scaled [OF t(1) assms(2) _ l1 [unfolded A_def] d1 [unfolded A_def]] unfolding A_def root_two_steps_def by simp_all
  have d2: "\<bar>real (root_two_steps A) / 2 ^ 30 - t\<bar> \<le> 16 / 100000" by (rule abs_close [OF x2]) simp
  have l2: "14141 / 10000 \<le> real (root_two_steps A) / 2 ^ 30" using x2(1) t(2) by simp
  show "5 * 2 ^ 28 \<le> real (root_seed A)" "real (root_seed A) < 2 ^ 32"
    "5 * 2 ^ 28 \<le> real (root_step A (root_seed A))" "real (root_step A (root_seed A)) < 2 ^ 32"
    "5 * 2 ^ 28 \<le> real (root_two_steps A)" "real (root_two_steps A) < 2 ^ 32"
    using x0(1) abs_le_D1 [OF x0(2)] x1 l1 x2 l2 t(3) by simp_all
  have pos: "0 < root_two_steps A" using l2 by (cases "root_two_steps A") simp_all
  have "s * s = real a / 2" unfolding assms(3) by simp
  note g = root_third_newton [OF this pos] newton_bounds [OF _ l2 d2]
  have n: "newton s (real (root_two_steps A)) = 2 ^ 30 * newton t (real (root_two_steps A) / 2 ^ 30)"
    using newton_scale [of "2 ^ 30" t "real (root_two_steps A) / 2 ^ 30"] unfolding s by simp
  show "s - 2 \<le> real (root_third a (root_two_steps A))" "real (root_third a (root_two_steps A)) \<le> s + 10"
    using g unfolding n unfolding s by simp_all
qed

lemma root_below: "a < 2 ^ 64 \<Longrightarrow> sqrt (real a / 2) < 3 * 2 ^ 30"
proof -
  assume "a < 2 ^ 64"
  then have "real a < real (2 ^ 64)" by (simp only: of_nat_less_iff)
  then have "real a / 2 < (3 * 2 ^ 30) * (3 * 2 ^ 30)" by simp
  then have "sqrt (real a / 2) < sqrt ((3 * 2 ^ 30) * (3 * 2 ^ 30))" by (simp only: real_sqrt_less_iff)
  then show ?thesis by simp
qed

subsection \<open>The last place\<close>

lemma less_root: "0 \<le> u \<Longrightarrow> u < sqrt (real n) \<Longrightarrow> u * u < real n" "sqrt (real n) < u \<Longrightarrow> real n < u * u"
proof -
  have r: "real n = sqrt (real n) * sqrt (real n)" by simp
  show "0 \<le> u \<Longrightarrow> u < sqrt (real n) \<Longrightarrow> u * u < real n" by (subst r) (rule mult_strict_mono', simp_all)
  show "sqrt (real n) < u \<Longrightarrow> real n < u * u" by (subst r) (rule mult_strict_mono', simp_all)
qed

lemma last_place:
  fixes h x n m :: nat
  assumes "0 < h" "h \<le> x" and close: "\<bar>real x - 2 * real h * sqrt (real n)\<bar> < real h" and m: "m = (x - h) div (2 * h) + 1"
  shows "(m - 1) * (m - 1) < n" "n < (m + 1) * (m + 1)"
proof -
  define u where "u = real (x - h) / real (2 * h)"
  have "real (m - 1) \<le> u" "u < real (m - 1) + 1" using real_div_floor [of "2 * h" "x - h"] assms(1) unfolding u_def m by simp_all
  moreover have "u * (2 * real h) = real x - real h" using assms(1,2) by (simp add: u_def of_nat_diff)
  then have "u * (2 * real h) < 2 * real h * sqrt (real n)" "2 * real h * sqrt (real n) < u * (2 * real h) + 2 * real h" using close by linarith+
  then have "u * (2 * real h) < sqrt (real n) * (2 * real h)" "sqrt (real n) * (2 * real h) < (u + 1) * (2 * real h)"
    by (simp_all only: mult.commute [of "sqrt (real n)"] distrib_right mult_1)
  then have "u < sqrt (real n)" "sqrt (real n) - 1 < u" using assms(1) by simp_all
  ultimately have b: "real (m - 1) < sqrt (real n)" "sqrt (real n) < real (m + 1)" by (simp_all add: m)
  have "real ((m - 1) * (m - 1)) < real n" unfolding of_nat_mult by (rule less_root(1) [OF _ b(1)]) simp
  then show "(m - 1) * (m - 1) < n" by (simp only: of_nat_less_iff)
  have "real n < real ((m + 1) * (m + 1))" unfolding of_nat_mult by (rule less_root(2) [OF b(2)])
  then show "n < (m + 1) * (m + 1)" by (simp only: of_nat_less_iff)
qed

text \<open>The square decides between \<open>m\<close> and its predecessor; the result is the integer root, and it is exact when the square is.\<close>

lemma corrected_root:
  fixes m n R :: nat
  assumes "(m - 1) * (m - 1) < n" "n < (m + 1) * (m + 1)" "0 < m" and R: "R = (if n < m * m then m - 1 else m)"
  shows "R * R \<le> n" "n < (R + 1) * (R + 1)" "m * m = n \<longleftrightarrow> R * R = n"
proof -
  consider "n < m * m" "R = m - 1" | "m * m \<le> n" "R = m" using R by (cases "n < m * m") simp_all
  then show "R * R \<le> n" "n < (R + 1) * (R + 1)" "m * m = n \<longleftrightarrow> R * R = n" using assms(1-3) by (cases; simp)+
qed

lemma bits_sticky:
  assumes "if k then real R < v \<and> v < real R + 1 else v = real R" "0 < t" "t \<le> J + 1"
  shows "sticky (jam (R * 2 ^ t + of_bool k) J) (v * 2 ^ t / 2 ^ J)"
proof (cases "t = J + 1")
  case True
  have 2: "R * 2 ^ t + of_bool k = (2 * R) * 2 ^ J + of_bool k" unfolding True by simp
  show ?thesis
  proof (cases "J = 0")
    case True
    then show ?thesis using assms(1) \<open>t = J + 1\<close> by (cases k) (simp_all add: sticky_def)
  next
    case False
    then have "jam (R * 2 ^ t + of_bool k) J = 2 * R + of_bool k" unfolding 2 by (subst jam_sticky_bit) simp_all
    moreover have "v * 2 ^ t / 2 ^ J = 2 * v" unfolding True by simp
    ultimately show ?thesis using assms(1) by (cases k) (simp_all add: sticky_def)
  qed
next
  case False
  then have t: "t + (J - t) = J" using assms(3) by simp
  have "jam (R * 2 ^ t + of_bool k) J = jam (R + of_bool (k \<and> even R)) (J - t)"
    using jam_jam [of "R * 2 ^ t + of_bool k" t "J - t"] unfolding t jam_sticky_bit [OF assms(2)] by simp
  moreover have "sticky (R + of_bool (k \<and> even R)) v" using assms(1) by (cases k; cases "even R") (simp_all add: sticky_def)
  moreover have "v * 2 ^ t / 2 ^ J = v / 2 ^ (J - t)" by (subst t [symmetric]) (simp add: power_add)
  ultimately show ?thesis using sticky_jam by simp
qed

lemma root_sticky:
  assumes "R * R \<le> n" "n < (R + 1) * (R + 1)" "0 < t" "t \<le> J + 1"
  shows "sticky (jam (R * 2 ^ t + of_bool (R * R \<noteq> n)) J) (sqrt (real n) * 2 ^ t / 2 ^ J)"
proof (rule bits_sticky [OF _ assms(3,4)])
  have "real R \<le> sqrt (real n)" using assms(1) by (intro real_le_rsqrt) (simp add: power2_eq_square flip: of_nat_mult)
  moreover have "real n < (real (R + 1))\<^sup>2" using assms(2) by (simp only: power2_eq_square of_nat_mult [symmetric] of_nat_less_iff)
  then have "sqrt (real n) < real (R + 1)" by (rule real_less_lsqrt [rotated]) simp
  moreover have "sqrt (real n) = real R \<longleftrightarrow> R * R = n"
    by (metis abs_of_nat of_nat_eq_iff of_nat_mult real_sqrt_mult_self real_sqrt_abs2 of_nat_0_le_iff)
  ultimately show "if R * R \<noteq> n then real R < sqrt (real n) \<and> sqrt (real n) < real R + 1 else sqrt (real n) = real R" by auto
qed

lemma unat_push_top:
  fixes N :: "'a::len word"
  assumes "2 ^ (LENGTH('a) - 1) \<le> unat N" "1 < LENGTH('a)"
  shows "2 ^ LENGTH('a) + unat (push_bit 1 N OR of_bool k) = unat N * 2 + of_bool k"
proof -
  have L: "(2::nat) ^ LENGTH('a) = 2 ^ (LENGTH('a) - 1) * 2" using assms(2) by (simp flip: power_Suc2)
  then have "unat (push_bit 1 N) = unat N * 2 - 2 ^ LENGTH('a)" using assms(1) word_less_nat [of N] unfolding unat_push_mod by (simp add: le_mod_geq)
  moreover have "even ((2::nat) ^ LENGTH('a))" using assms(2) by simp
  ultimately show ?thesis using assms(1) L unfolding unat_or_bool by simp
qed

end
