(* ===== verification/TiC_FP_Sqrt.thy ===== *)
theory TiC_FP_Sqrt
  imports TiC_FP_Root
begin

text \<open>
  The square root of a finite number is correctly rounded. Both precisions start with a line, two Newton steps on 17 bits and one
  on 32 bits; double precision adds a step that multiplies with a reciprocal. The estimate is within half a unit of the last
  place of the result, and one comparison of a square fixes that place.
\<close>

subsection \<open>Square roots\<close>

locale fp_sqrt = fp_arith P J round_mask pack zero infinity max_normal round_rm unpack process_NaNs
  for P J :: nat and round_mask :: "'w::len word" and pack and zero infinity max_normal and round_rm and unpack and process_NaNs +
  fixes root :: "'w word \<Rightarrow> int \<Rightarrow> ('w word \<times> int) option" and defaultNaN :: "'w word" and process_NaN :: "'w word \<Rightarrow> 32 word \<Rightarrow> 32 word \<Rightarrow> 'w word \<times> 32 word"
    and square_root :: "'w word \<Rightarrow> 32 word \<Rightarrow> 32 word \<Rightarrow> ('w word \<times> 32 word) option"
  assumes root: "a \<noteq> 0 \<Longrightarrow> unat a < 2 ^ (P + 1) \<Longrightarrow> \<exists>m ex. root a e = Some (m, ex) \<and>
      sticky (jam (2 ^ LENGTH('w) + unat m) J) (sqrt (real (unat a) * 2 powi (e + 2 ^ J + int P - 3)) * 2 powi (3 + int J - ex) / 2 ^ J)"
    and square_root_eq: "square_root a mode flags = (let
     (a_sgn, a_exp, a_mnt, flags) = unpack a mode flags
     in if a_exp = 2 ^ (J + 1) - 1 \<and> push_bit (J + 2) a_mnt \<noteq> 0 then Some (process_NaN a mode flags)
     else if a_mnt = 0 then Some (zero a_sgn, flags)
     else if a_exp = 2 ^ (J + 1) - 1 \<and> \<not> a_sgn then Some (infinity a_sgn, flags)
     else if a_sgn then Some (defaultNaN, flags OR FPLIB_IOC)
     else do {
       (x_mnt, x_exp) \<leftarrow> root a_mnt a_exp;
       round_rm False x_exp x_mnt (mode AND 3) mode flags
     })"
begin

lemma square_root_run:
  assumes "fp_finite P J a" "mode AND FPLIB_FZ = 0"
  shows "\<exists>e m. 1 \<le> e \<and> unat m < 2 ^ (P + 1) \<and> fp_mag P J a = unat m * 2 ^ (e - 1) \<and>
    square_root a mode flags = (if m = 0 then Some (zero (fp_neg a), flags)
     else if fp_neg a then Some (defaultNaN, flags OR FPLIB_IOC)
     else do { (x_mnt, x_exp) \<leftarrow> root m (int e); round_rm False x_exp x_mnt (mode AND 3) mode flags })"
proof -
  obtain e m where a: "unpack a mode flags = (fp_neg a, int e, m, flags)" "1 \<le> e" "e < 2 ^ (J + 1) - 1" "unat m < 2 ^ (P + 1)"
    "fp_mag P J a = unat m * 2 ^ (e - 1)" using unpack_finite [OF assms(2,1), of flags] by blast
  have E: "int e \<noteq> 2 ^ (J + 1) - 1" by (rule exponent_not_max [OF a(3)])
  show ?thesis
    by (rule exI [of _ e], rule exI [of _ m], unfold square_root_eq a(1) Let_def prod.case)
     (use a(2,4,5) E in \<open>simp only: simp_thms if_True if_False\<close>)
qed

lemma square_root_special:
  assumes "fp_finite P J a" "mode AND FPLIB_FZ = 0" "fp_mag P J a = 0 \<or> fp_neg a"
  shows "square_root a mode flags = Some (if fp_mag P J a = 0 then (zero (fp_neg a), flags) else (defaultNaN, flags OR FPLIB_IOC))"
  using square_root_run [OF assms(1,2), of flags] assms(3) by (auto simp: unat_inj_iff)

lemma square_root_correct:
  fixes a :: "'w word" and mode flags :: "32 word"
  defines "E \<equiv> 2 ^ (J + 1) - 1"
  assumes "fp_finite P J a" "mode AND FPLIB_FZ = 0" "fp_mag P J a \<noteq> 0" "\<not> fp_neg a"
  defines "y \<equiv> sqrt (real (fp_mag P J a) * 2 ^ (2 ^ J + P - 2))"
  shows "\<exists>x. square_root a mode flags = Some (x, flags OR ieee_flags P E (mode AND 3) False y) \<and> unat x = ieee_round P E (mode AND 3) False y"
proof -
  obtain e am where r: "1 \<le> e" "unat am < 2 ^ (P + 1)" "fp_mag P J a = unat am * 2 ^ (e - 1)"
    and run: "square_root a mode flags = (if am = 0 then Some (zero (fp_neg a), flags)
     else if fp_neg a then Some (defaultNaN, flags OR FPLIB_IOC)
     else do { (x_mnt, x_exp) \<leftarrow> root am (int e); round_rm False x_exp x_mnt (mode AND 3) mode flags })"
    using square_root_run [OF assms(2,3), of flags] by blast
  have am: "am \<noteq> 0" using r(3) assms(4) by auto
  obtain m ex where m: "root am (int e) = Some (m, ex)"
    "sticky (jam (2 ^ LENGTH('w) + unat m) J) (sqrt (real (unat am) * 2 powi (int e + 2 ^ J + int P - 3)) * 2 powi (3 + int J - ex) / 2 ^ J)"
    using root [OF am r(2), of "int e"] by blast
  have "int (2 ^ J + P - 2) = 2 ^ J + int P - 2" using sizes by (subst of_nat_diff) (simp_all add: add_increasing)
  then have "int e + 2 ^ J + int P - 3 = int (e - 1) + int (2 ^ J + P - 2)" using r(1) by (simp add: of_nat_diff)
  then have y: "sqrt (real (unat am) * 2 powi (int e + 2 ^ J + int P - 3)) = y" unfolding y_def r(3) by (simp only: powi_nat) (simp add: mult.assoc)
  have "2 powi (3 + int J - ex) * (2::real) powi (ex - 3 - int J) = 2 powi 0" by (subst power_int_add [symmetric]) simp_all
  then have "y = y * 2 powi (3 + int J - ex) * 2 powi (ex - 3 - int J)" by (simp add: mult.assoc)
  from round_correct [OF and_3_not_tieaway disjI1 [OF assms(3)] m(2) [unfolded y] this, of False mode flags]
  show ?thesis unfolding run m(1) E_def using am assms(5) by (simp only: bind.bind_lunit prod.case if_False of_bool_eq mult_zero_left add_0)
qed

end

subsection \<open>An exponent of the right parity\<close>

lemma sqrt_powi: "sqrt (h * 2 powi (2 * c)) = sqrt h * 2 powi c"
proof -
  have "(2::real) powi (2 * c) = 2 powi c * 2 powi c" using power_int_add [of "2::real" c c] by simp
  then show ?thesis by (simp add: real_sqrt_mult)
qed

lemma parity:
  fixes N :: "'a::len word" and e :: int
  assumes "2 ^ Suc k \<le> unat N" "2 ^ Suc d dvd unat N"
  shows "\<exists>a' e'. (if even e = p then (drop_bit 1 N, e + 1) else (N, e)) = (a', e') \<and> even e' \<noteq> p \<and> 2 ^ k \<le> unat a' \<and> 2 ^ d dvd unat a' \<and>
    real (unat a') * 2 powi e' = real (unat N) * 2 powi e"
proof (cases "even e = p")
  case True
  obtain r where r: "unat N = 2 ^ Suc d * r" using assms(2) by blast
  then have h: "unat (drop_bit 1 N) = 2 ^ d * r" by simp
  have "2 ^ k \<le> unat (drop_bit 1 N)" using assms(1) unfolding h r by simp
  moreover have "real (unat (drop_bit 1 N)) * 2 powi (e + 1) = real (unat N) * 2 powi e" unfolding h r by (simp add: power_int_add)
  ultimately show ?thesis using True h by (intro exI [of _ "drop_bit 1 N"] exI [of _ "e + 1"]) auto
next
  case False
  have "2 ^ k \<le> unat N" using assms(1) by (rule order_trans [rotated]) simp
  moreover have "2 ^ d dvd unat N" using assms(2) by (rule dvd_trans [rotated]) simp
  ultimately show ?thesis using False by (intro exI [of _ N] exI [of _ e]) auto
qed

subsection \<open>Single precision\<close>

definition estimate32 :: "32 word \<Rightarrow> 32 word option" where
  "estimate32 a_mnt = do {
     let x = drop_bit 2 a_mnt + drop_bit 3 a_mnt + push_bit 28 5;
     q \<leftarrow> div_c a_mnt (drop_bit 15 x);
     let x = push_bit 15 (q + drop_bit 16 x);
     q \<leftarrow> div_c a_mnt (drop_bit 15 x);
     let x = push_bit 15 (q + drop_bit 16 x);
     q \<leftarrow> div_c (push_bit 32 (ucast a_mnt :: 64 word)) (ucast x);
     Some (ucast (drop_bit 2 q + ucast (drop_bit 1 x)))
   }"

definition root32 :: "32 word \<Rightarrow> int \<Rightarrow> (32 word \<times> int) option" where
  "root32 a_mnt a_exp = do {
     let (a_mnt, a_exp) = fp32_normalise a_mnt a_exp;
     let (a_mnt, a_exp) = (if even a_exp then (drop_bit 1 a_mnt, a_exp + 1) else (a_mnt, a_exp));
     x \<leftarrow> estimate32 a_mnt;
     let x_mnt = drop_bit 6 (x - push_bit 5 1) + 1;
     let t1 = (ucast x_mnt * ucast x_mnt :: 64 word);
     let t0 = (push_bit 19 (ucast a_mnt) :: 64 word);
     let x_mnt = (if t1 > t0 then x_mnt - 1 else x_mnt);
     let (x_mnt, x_exp) = fp32_normalise x_mnt ((a_exp + 147) div 2);
     Some (push_bit 1 x_mnt OR of_bool (t1 \<noteq> t0), x_exp)
   }"

lemma real_nat_less: "real n < 2 ^ k \<Longrightarrow> n < 2 ^ k" "2 ^ k * 5 \<le> real n \<Longrightarrow> 2 ^ k * 5 \<le> n"
  by (metis of_nat_less_iff of_nat_numeral of_nat_power, metis of_nat_le_iff of_nat_mult of_nat_numeral of_nat_power)

lemma seed32_word:
  fixes a :: "32 word"
  assumes "root_seed (unat a) < 2 ^ 32"
  shows "unat (drop_bit 2 a + drop_bit 3 a + push_bit 28 5) = root_seed (unat a)"
proof -
  have "unat (drop_bit 2 a + drop_bit 3 a) = unat a div 4 + unat a div 8"
    using assms unat_add_lem [of "drop_bit 2 a" "drop_bit 3 a"] by (simp add: root_seed_def)
  then show ?thesis using assms unat_add_lem [of "drop_bit 2 a + drop_bit 3 a" "push_bit 28 5"] by (simp add: root_seed_def)
qed

lemma step32_word:
  fixes a x :: "32 word"
  assumes "5 * 2 ^ 28 \<le> unat x" "root_step (unat a) (unat x) < 2 ^ 32"
  shows "\<exists>q. div_c a (drop_bit 15 x) = Some q \<and> unat (push_bit 15 (q + drop_bit 16 x)) = root_step (unat a) (unat x)"
proof -
  define q where "q = a div drop_bit 15 x"
  have "5 * 2 ^ 28 div 2 ^ 15 \<le> unat x div 2 ^ 15" using assms(1) by (rule div_le_mono)
  then have "unat (drop_bit 15 x) \<noteq> 0" by simp
  then have "drop_bit 15 x \<noteq> 0" by (auto simp: unat_inj_iff)
  then have "div_c a (drop_bit 15 x) = Some q" by (simp add: div_c_def q_def)
  moreover have step: "root_step (unat a) (unat x) = (unat q + unat x div 2 ^ 16) * 2 ^ 15" by (simp add: root_step_def q_def unat_div)
  moreover have "unat (q + drop_bit 16 x) = unat q + unat x div 2 ^ 16"
    using assms(2) unat_add_lem [of q "drop_bit 16 x"] unfolding step by simp
  then have "unat (push_bit 15 (q + drop_bit 16 x)) = (unat q + unat x div 2 ^ 16) * 2 ^ 15"
    using assms(2) unat_push_small [of "q + drop_bit 16 x" 15] unfolding step by simp
  ultimately show ?thesis by auto
qed

lemma third32_word:
  fixes b :: "64 word" and x :: "32 word"
  assumes "0 < unat x" "root_third (unat b) (unat x) < 2 ^ 32"
  shows "\<exists>q. div_c b (ucast x) = Some q \<and> unat (ucast (drop_bit 2 q + ucast (drop_bit 1 x)) :: 32 word) = root_third (unat b) (unat x)"
proof -
  define q where "q = b div ucast x"
  have "unat (ucast x :: 64 word) \<noteq> 0" using assms(1) by (simp only: unat_up)
  then have "(ucast x :: 64 word) \<noteq> 0" by (auto simp: unat_inj_iff)
  then have "div_c b (ucast x) = Some q" by (simp add: div_c_def q_def)
  moreover have "root_third (unat b) (unat x) = unat q div 4 + unat x div 2" by (simp only: root_third_def q_def unat_div unat_up)
  moreover from this have "unat (drop_bit 2 q + ucast (drop_bit 1 x)) = unat q div 4 + unat x div 2"
    using assms(2) unat_add_lem [of "drop_bit 2 q" "ucast (drop_bit 1 x)"] by (simp add: unat_up)
  ultimately show ?thesis using assms(2) by (auto simp only: unat_down mod_less)
qed

lemma estimate32_spec:
  fixes a :: "32 word"
  assumes "2 ^ 30 \<le> unat a"
  shows "\<exists>x. estimate32 a = Some x \<and> sqrt (real (unat a) * 2 ^ 31) - 2 \<le> real (unat x) \<and> real (unat x) \<le> sqrt (real (unat a) * 2 ^ 31) + 10"
proof -
  define b where "b = push_bit 32 (ucast a :: 64 word)"
  have b: "unat b = unat a * 2 ^ 32" unfolding b_def using unat_push_small [of "ucast a :: 64 word" 32] word_less_nat [of a] by (simp add: unat_up)
  have A: "unat b div 2 ^ 32 = unat a" unfolding b by (rule nonzero_mult_div_cancel_right) simp
  have range: "2 ^ 62 \<le> unat b" "unat b < 2 ^ 64" using assms word_less_nat [of b] by (simp_all add: b)
  have half: "real (unat b) / 2 = real (unat a) * 2 ^ 31" unfolding b by simp
  note est = root_estimate [OF range refl, unfolded A half]
  define x0 where "x0 = drop_bit 2 a + drop_bit 3 a + push_bit 28 5"
  have x0: "unat x0 = root_seed (unat a)" unfolding x0_def by (rule seed32_word [OF real_nat_less(1) [OF est(2)]])
  have l: "5 * 2 ^ 28 \<le> real n \<Longrightarrow> 5 * 2 ^ 28 \<le> n" for n using real_nat_less(2) [of 28 n] by simp
  obtain q1 where q1: "div_c a (drop_bit 15 x0) = Some q1" "unat (push_bit 15 (q1 + drop_bit 16 x0)) = root_step (unat a) (root_seed (unat a))"
    using step32_word [of x0 a] l [OF est(1)] real_nat_less(1) [OF est(4)] unfolding x0 by blast
  define x1 where "x1 = push_bit 15 (q1 + drop_bit 16 x0)"
  obtain q2 where q2: "div_c a (drop_bit 15 x1) = Some q2" "unat (push_bit 15 (q2 + drop_bit 16 x1)) = root_two_steps (unat a)"
    using step32_word [of x1 a] l [OF est(3)] real_nat_less(1) [OF est(6)] unfolding x1_def q1(2) root_two_steps_def by blast
  define x2 where "x2 = push_bit 15 (q2 + drop_bit 16 x1)"
  have "sqrt (real (unat a) * 2 ^ 31) + 10 < 2 ^ 32" using root_below [OF range(2)] unfolding half by simp
  then have "root_third (unat b) (root_two_steps (unat a)) < 2 ^ 32" using est(8) by (intro real_nat_less(1)) linarith
  moreover have "0 < root_two_steps (unat a)" using l [OF est(5)] by simp
  ultimately obtain q3 where q3: "div_c b (ucast x2) = Some q3" "unat (ucast (drop_bit 2 q3 + ucast (drop_bit 1 x2)) :: 32 word) = root_third (unat b) (root_two_steps (unat a))"
    using third32_word [of x2 b] unfolding x2_def q2(2) by blast
  have "estimate32 a = Some (ucast (drop_bit 2 q3 + ucast (drop_bit 1 x2)))"
    unfolding estimate32_def Let_def x0_def [symmetric] q1(1) bind.bind_lunit x1_def [symmetric] q2(1) x2_def [symmetric] b_def [symmetric] q3(1) ..
  then show ?thesis using est(7,8) unfolding q3(2) [symmetric] by blast
qed

lemma root_bits32:
  fixes R :: "32 word" and n :: nat
  assumes "unat R * unat R \<le> n" "n < (unat R + 1) * (unat R + 1)" "2 ^ 24 \<le> unat R"
  shows "\<exists>s N. fp32_normalise R ex = (N, ex - int s) \<and>
    sticky (jam (2 ^ LENGTH(32) + unat (push_bit 1 N OR of_bool (unat R * unat R \<noteq> n))) 7) (sqrt (real n) * 2 ^ (s + 1) / 2 ^ 7)"
proof -
  have "R \<noteq> 0" using assms(3) by (auto simp: unat_inj_iff)
  then obtain s N where s: "fp32_normalise R ex = (N, ex - int s)" "unat N = unat R * 2 ^ s" "2 ^ 31 \<le> unat N"
    using fp_normalise_spec(2) [of R ex] by blast
  have "s \<le> 7"
  proof (rule ccontr)
    assume "\<not> s \<le> 7"
    then have "2 ^ 24 * 2 ^ 8 \<le> unat R * 2 ^ s" using assms(3) by (intro mult_mono power_increasing) simp_all
    then show False using word_less_nat [of N] by (simp add: s(2))
  qed
  moreover have "2 ^ LENGTH(32) + unat (push_bit 1 N OR of_bool (unat R * unat R \<noteq> n)) = unat R * 2 ^ (s + 1) + of_bool (unat R * unat R \<noteq> n)"
    using unat_push_top [of N] s(3) by (simp add: s(2))
  ultimately show ?thesis using s(1) root_sticky [OF assms(1,2), of "s + 1" 7] by auto
qed

lemma integer_root_lower: "n < (R + 1) * (R + 1) \<Longrightarrow> 2 ^ k * 2 ^ k \<le> n \<Longrightarrow> 2 ^ k \<le> (R::nat)"
proof (rule ccontr)
  assume "n < (R + 1) * (R + 1)" "2 ^ k * 2 ^ k \<le> n" "\<not> 2 ^ k \<le> R"
  then have "(R + 1) * (R + 1) \<le> 2 ^ k * 2 ^ k" by (intro mult_mono) simp_all
  then show False using \<open>n < (R + 1) * (R + 1)\<close> \<open>2 ^ k * 2 ^ k \<le> n\<close> by simp
qed

lemma last_place32:
  fixes a x :: "32 word"
  assumes "2 ^ 30 \<le> unat a" "sqrt (real (unat a) * 2 ^ 31) - 2 \<le> real (unat x)" "real (unat x) \<le> sqrt (real (unat a) * 2 ^ 31) + 10"
  defines "m \<equiv> drop_bit 6 (x - push_bit 5 1) + 1"
  defines "t1 \<equiv> (ucast m * ucast m :: 64 word)" and "t0 \<equiv> (push_bit 19 (ucast a) :: 64 word)"
  defines "R \<equiv> if t1 > t0 then m - 1 else m" and "n \<equiv> unat a * 2 ^ 19"
  shows "unat R * unat R \<le> n" "n < (unat R + 1) * (unat R + 1)" "t1 \<noteq> t0 \<longleftrightarrow> unat R * unat R \<noteq> n" "2 ^ 24 \<le> unat R"
proof -
  define k where "k = (unat x - 32) div 64 + 1"
  have n64: "sqrt (real (unat a) * 2 ^ 31) = 2 * real 32 * sqrt (real n)"
  proof -
    have "sqrt (real (unat a) * 2 ^ 31) = sqrt (64 * 64 * real n)" unfolding n_def by (simp del: of_nat_unat)
    then show ?thesis by (simp only: real_sqrt_mult real_sqrt_mult_self)
  qed
  have "real (2 ^ 30) \<le> real (unat a)" using assms(1) by (simp only: of_nat_le_iff)
  then have "sqrt (2 ^ 30 * 2 ^ 30) \<le> sqrt (real (unat a) * 2 ^ 31)" by (simp only: real_sqrt_le_iff) (simp del: of_nat_unat)
  then have "real 32 \<le> real (unat x)" using assms(2) by (simp del: of_nat_unat)
  then have x32: "32 \<le> unat x" by (simp only: of_nat_le_iff)
  then have "unat (x - push_bit 5 1) = unat x - 32" by (subst unat_sub) (simp_all add: word_le_nat_alt)
  then have d: "unat (drop_bit 6 (x - push_bit 5 1)) = (unat x - 32) div 64" by simp
  have "(unat x - 32) div 64 < 2 ^ 26" using word_less_nat [of x] by (intro less_mult_imp_div_less) simp
  then have k: "0 < k" "k \<le> 2 ^ 26" and m: "unat m = k" unfolding m_def k_def using unat_add_lem [of "drop_bit 6 (x - push_bit 5 1)" 1] d by simp_all
  have "\<bar>real (unat x) - 2 * real 32 * sqrt (real n)\<bar> < real 32" using assms(2,3) unfolding n64 by linarith
  note lp = last_place [OF _ x32 this, of k]
  have lp: "(k - 1) * (k - 1) < n" "n < (k + 1) * (k + 1)" by (rule lp, simp, simp add: k_def)+
  have "k * k \<le> 2 ^ 26 * 2 ^ 26" using k(2) by (intro mult_mono) simp_all
  then have t1: "unat t1 = k * k" using unat_mult_lem [of "ucast m :: 64 word" "ucast m"] by (simp add: t1_def unat_up m)
  have t0: "unat t0 = n" unfolding t0_def n_def using unat_push_small [of "ucast a :: 64 word" 19] word_less_nat [of a] by (simp add: unat_up)
  have "unat (m - 1) = k - 1" using k(1) m by (subst unat_sub) (simp_all add: word_le_nat_alt)
  then have R: "unat R = (if n < k * k then k - 1 else k)" unfolding R_def word_less_nat_alt t0 t1 by (simp add: m)
  note root = corrected_root [OF lp k(1) R]
  show "unat R * unat R \<le> n" "n < (unat R + 1) * (unat R + 1)" by (fact root)+
  show "t1 \<noteq> t0 \<longleftrightarrow> unat R * unat R \<noteq> n" unfolding unat_inj_iff [of t1] t0 t1 root(3) ..
  show "2 ^ 24 \<le> unat R" using assms(1) by (intro integer_root_lower [OF root(2)]) (simp add: n_def)
qed

lemma root_scale32:
  fixes a a' :: nat
  assumes val: "real a' * 2 powi e' = real a * 2 powi e" and "odd e'"
  shows "sqrt (real (a' * 2 ^ 19)) * 2 ^ (s + 1) = sqrt (real a * 2 powi (e + 2 ^ 7 + int 23 - 3)) * 2 powi (3 + int 7 - ((e' + 147) div 2 - int s))"
proof -
  obtain c where c: "e' = 2 * c + 1" using assms(2) by (rule oddE)
  have "real a * 2 powi (e + 2 ^ 7 + int 23 - 3) = real a * 2 powi e * 2 powi 148" by (simp add: power_int_add flip: mult.assoc)
  also have "\<dots> = real (a' * 2 ^ 19) * 2 powi (2 * (c + 65))" unfolding val [symmetric] c by (simp add: power_int_add distrib_left)
  finally have "sqrt (real a * 2 powi (e + 2 ^ 7 + int 23 - 3)) = sqrt (real (a' * 2 ^ 19)) * 2 powi (c + 65)" by (simp only: sqrt_powi)
  moreover have "(2::real) powi (c + 65) * 2 powi (3 + int 7 - ((e' + 147) div 2 - int s)) = 2 powi int (s + 1)"
    unfolding c by (subst power_int_add [symmetric]) simp_all
  ultimately show ?thesis by (simp only: mult.assoc powi_nat)
qed

lemma root32_spec:
  fixes a :: "32 word"
  assumes "a \<noteq> 0" "unat a < 2 ^ (23 + 1)"
  shows "\<exists>m ex. root32 a e = Some (m, ex) \<and>
    sticky (jam (2 ^ LENGTH(32) + unat m) 7) (sqrt (real (unat a) * 2 powi (e + 2 ^ 7 + int 23 - 3)) * 2 powi (3 + int 7 - ex) / 2 ^ 7)"
proof -
  obtain s0 N where N: "fp32_normalise a e = (N, e - int s0)" "unat N = unat a * 2 ^ s0" "2 ^ 31 \<le> unat N"
    using fp_normalise_spec(2) [OF assms(1), of e] by blast
  have "s0 \<noteq> 0" using N(2,3) assms(2) by (cases s0) simp_all
  then have "2 ^ Suc 0 dvd unat N" unfolding N(2) by simp
  then obtain a' e' where a': "(if even (e - int s0) then (drop_bit 1 N, e - int s0 + 1) else (N, e - int s0)) = (a', e')" "odd e'" "2 ^ 30 \<le> unat a'"
    "real (unat a') * 2 powi e' = real (unat N) * 2 powi (e - int s0)" using parity [of 30 N 0 "e - int s0" True] N(3) by auto
  have val: "real (unat a') * 2 powi e' = real (unat a) * 2 powi e" unfolding a'(4) N(2) by (simp add: powi_nat del: of_nat_unat)
  obtain x where x: "estimate32 a' = Some x" "sqrt (real (unat a') * 2 ^ 31) - 2 \<le> real (unat x)" "real (unat x) \<le> sqrt (real (unat a') * 2 ^ 31) + 10"
    using estimate32_spec [OF a'(3)] by blast
  define m where "m = drop_bit 6 (x - push_bit 5 1) + 1"
  define t1 t0 where "t1 = (ucast m * ucast m :: 64 word)" and "t0 = (push_bit 19 (ucast a') :: 64 word)"
  define R where "R = (if t1 > t0 then m - 1 else m)"
  note R = last_place32 [OF a'(3) x(2,3), folded m_def, folded t1_def t0_def, folded R_def]
  obtain s M where s: "fp32_normalise R ((e' + 147) div 2) = (M, (e' + 147) div 2 - int s)"
    and st: "sticky (jam (2 ^ LENGTH(32) + unat (push_bit 1 M OR of_bool (t1 \<noteq> t0))) 7) (sqrt (real (unat a' * 2 ^ 19)) * 2 ^ (s + 1) / 2 ^ 7)"
    using root_bits32 [OF R(1,2,4), of "(e' + 147) div 2"] unfolding R(3) by blast
  have "root32 a e = Some (push_bit 1 M OR of_bool (t1 \<noteq> t0), (e' + 147) div 2 - int s)"
    unfolding root32_def N(1) Let_def prod.case a'(1) x(1) bind.bind_lunit m_def [symmetric] t1_def [symmetric] t0_def [symmetric] R_def [symmetric] s ..
  moreover have "sqrt (real (unat a' * 2 ^ 19)) * 2 ^ (s + 1) = sqrt (real (unat a) * 2 powi (e + 2 ^ 7 + int 23 - 3)) * 2 powi (3 + int 7 - ((e' + 147) div 2 - int s))"
    by (rule root_scale32 [OF val a'(2)])
  ultimately show ?thesis using st by auto
qed

lemma nan_shifts: "(7::nat) + 2 = 9" "(10::nat) + 2 = 12"
  by simp_all

interpretation single: fp_sqrt 23 7 255 fp32_pack fp32_zero fp32_infinity fp32_max_normal fp32_round_rm fp32_unpack fp32_process_NaNs
  root32 fp32_defaultNaN fp32_process_NaN fp32_sqrt
proof unfold_locales
  show "fp32_sqrt a mode flags = (let
     (a_sgn, a_exp, a_mnt, flags) = fp32_unpack a mode flags
     in if a_exp = 2 ^ (7 + 1) - 1 \<and> push_bit (7 + 2) a_mnt \<noteq> 0 then Some (fp32_process_NaN a mode flags)
     else if a_mnt = 0 then Some (fp32_zero a_sgn, flags)
     else if a_exp = 2 ^ (7 + 1) - 1 \<and> \<not> a_sgn then Some (fp32_infinity a_sgn, flags)
     else if a_sgn then Some (fp32_defaultNaN, flags OR FPLIB_IOC)
     else do {
       (x_mnt, x_exp) \<leftarrow> root32 a_mnt a_exp;
       fp32_round_rm False x_exp x_mnt (mode AND 3) mode flags
     })" for a mode flags
    unfolding fp32_sqrt_def root32_def estimate32_def fp32_round_def Let_def format_nums nan_shifts bind_assoc bind.bind_lunit
    by (simp only: prod.case_distrib split_beta fst_conv snd_conv bind.bind_lunit bind_assoc)
qed (rule root32_spec)

end
