(* ===== verification/TiC_FP_Sqrt_Double.thy ===== *)
theory TiC_FP_Sqrt_Double
  imports TiC_FP_Sqrt
begin

text \<open>
  The square root in double precision: a fourth Newton step, which multiplies with a reciprocal of 64 bits that is itself one
  Newton step from the integer quotient, and the comparison of a square in 128 bits.
\<close>

subsection \<open>The error of the fourth step\<close>

text \<open>The reciprocal: from \<open>r\<close>, the quotient of \<open>2 ^ 62\<close> by \<open>x\<close>, one step gives \<open>2 ^ 94 / x\<close> up to four units.\<close>

lemma reciprocal_error:
  fixes x r R :: nat
  assumes x: "11 * 2 ^ 27 \<le> real x" "real x \<le> 3 * 2 ^ 30" and r: "r = 2 ^ 62 div x" and R: "R = (2 ^ 64 - 2 * (x * r)) * r div 2 ^ 31"
  shows "0 < r" "r < 2 ^ 32" "x * r \<le> 2 ^ 62" "2 ^ 94 / real x - 4 \<le> real R" "real R \<le> 2 ^ 94 / real x"
proof -
  have x0: "0 < x" "0 < real x" using x(1) by (cases x; simp)+
  note rr = real_div_floor [OF x0(1), of "2 ^ 62", folded r]
  have "2 ^ 62 / real x \<le> 2 ^ 62 / (11 * 2 ^ 27)" "2 ^ 62 / (3 * 2 ^ 30) \<le> 2 ^ 62 / real x" using x x0(2) by (intro divide_left_mono; simp)+
  then have "real r < 2 ^ 32" "0 < real r" using rr by simp_all
  then show "r < 2 ^ 32" "0 < r" by (auto intro: real_nat_less(1))
  show xr: "x * r \<le> 2 ^ 62" unfolding r by (rule times_div_less_eq_dividend)
  define p where "p = 2 ^ 62 - real x * real r"
  have "real (x * r) \<le> real (2 ^ 62)" using xr by (simp only: of_nat_le_iff)
  then have p0: "0 \<le> p" by (simp add: p_def)
  have "2 ^ 62 < real x * (real r + 1)" using rr(2) x0(2) by (simp add: divide_less_eq mult.commute)
  then have px: "p \<le> real x" by (simp add: p_def algebra_simps)
  define u where "u = real ((2 ^ 64 - 2 * (x * r)) * r) / 2 ^ 31"
  have "2 * (x * r) \<le> 2 ^ 64" using xr by (simp add: mult.commute)
  then have d: "real (2 ^ 64 - 2 * (x * r)) = 2 ^ 64 - 2 * (real x * real r)" by (simp add: of_nat_diff)
  have "u * real x = (2 ^ 62 + p) * (2 ^ 62 - p) / 2 ^ 30" unfolding u_def of_nat_mult [of _ r] d p_def by (simp add: field_simps)
  also have "(2 ^ 62 + p) * (2 ^ 62 - p) = 2 ^ 124 - p * p" by (simp add: algebra_simps)
  finally have u: "u * real x = 2 ^ 94 - p * p / 2 ^ 30" by (simp add: diff_divide_distrib)
  have "p * p \<le> real x * (3 * 2 ^ 30)" using p0 px x(2) by (intro mult_mono) simp_all
  then have "2 ^ 94 - 3 * real x \<le> u * real x" "u * real x \<le> 2 ^ 94" using u p0 by simp_all
  then have "2 ^ 94 / real x - 3 \<le> u" "u \<le> 2 ^ 94 / real x" using x0(2) by (simp_all add: field_simps)
  moreover have "real R \<le> u" "u < real R + 1" using real_div_floor [of "2 ^ 31" "(2 ^ 64 - 2 * (x * r)) * r"] by (simp_all add: u_def R)
  ultimately show "2 ^ 94 / real x - 4 \<le> real R" "real R \<le> 2 ^ 94 / real x" by linarith+
qed

definition root_fourth :: "nat \<Rightarrow> nat \<Rightarrow> nat" where
  "root_fourth a x = (let r = 2 ^ 62 div x; R = (2 ^ 64 - 2 * (x * r)) * r div 2 ^ 31; z = a div 2 ^ 10 * (R div 4) div 2 ^ 51 in 2 ^ 31 * x + z div 2)"

lemma root_fourth_error:
  fixes a x :: nat and s :: real
  assumes a: "2 ^ 62 \<le> a" "a < 2 ^ 64" "2 ^ 10 dvd a" and s: "s = sqrt (real a / 2)" and x: "s - 2 \<le> real x" "real x \<le> s + 10"
  defines "R \<equiv> (2 ^ 64 - 2 * (x * (2 ^ 62 div x))) * (2 ^ 62 div x) div 2 ^ 31"
  shows "11 * 2 ^ 27 \<le> real x" "real x \<le> 3 * 2 ^ 30" "real R < 2 ^ 64" "real (a div 2 ^ 10 * (R div 4) div 2 ^ 51) < 2 ^ 64"
    and "2 ^ 32 * s - 10 \<le> real (root_fourth a x)" "real (root_fourth a x) \<le> 2 ^ 32 * s + 146"
proof -
  note t = root_range [OF a(1,2) refl, folded s]
  show xb: "11 * 2 ^ 27 \<le> real x" "real x \<le> 3 * 2 ^ 30" using t(2,3) x by simp_all
  note R = reciprocal_error(4,5) [OF xb refl refl, folded R_def]
  have x0: "0 < real x" using xb(1) by simp
  define w where "w = real a / real x"
  have w0: "0 \<le> w" by (simp add: w_def)
  have ss: "s * s = real a / 2" unfolding s by simp
  have n: "newton s (real x) = w / 4 + real x / 2" by (simp add: newton_def ss w_def)
  have nb: "s \<le> w / 4 + real x / 2" "w / 4 + real x / 2 \<le> s + 10 * 10 / (2 * (11 * 2 ^ 27))"
    using newton_bounds [of "11 * 2 ^ 27" "real x" s 10] xb(1) x unfolding n by (simp_all add: abs_le_iff)
  have "2 ^ 94 / real x \<le> 2 ^ 94 / (11 * 2 ^ 27)" using xb(1) x0 by (intro divide_left_mono) simp_all
  then show "real R < 2 ^ 64" using R(2) by simp
  define z where "z = a div 2 ^ 10 * (R div 4) div 2 ^ 51"
  have ra: "real a < 2 ^ 64" using a(2) by (metis of_nat_less_iff of_nat_numeral of_nat_power)
  have z: "2 ^ 31 * w - 17 \<le> real z" "real z \<le> 2 ^ 31 * w"
  proof -
    define h q where "h = real a / 2 ^ 61" and "q = real (R div 4)"
    have h: "0 \<le> h" "h \<le> 8" using ra by (simp_all add: h_def)
    have "q \<le> real R / 4" "real R / 4 < q + 1" using real_div_floor [of 4 R] by (simp_all add: q_def)
    then have "2 ^ 92 / real x - 2 \<le> q" "q \<le> 2 ^ 92 / real x" using R by simp_all
    then have "h * (2 ^ 92 / real x - 2) \<le> h * q" "h * q \<le> h * (2 ^ 92 / real x)" using h(1) by (simp_all only: mult_left_mono)
    moreover have "h * (2 ^ 92 / real x) = 2 ^ 31 * w" by (simp add: h_def w_def)
    ultimately have "2 ^ 31 * w - 2 * h \<le> h * q" "h * q \<le> 2 ^ 31 * w" by (simp_all add: right_diff_distrib)
    moreover have "real (a div 2 ^ 10 * (R div 4)) / 2 ^ 51 = h * q" using a(3) by (simp add: h_def q_def real_of_nat_div)
    then have "real z \<le> h * q" "h * q < real z + 1" using real_div_floor [of "2 ^ 51" "a div 2 ^ 10 * (R div 4)"] by (simp_all add: z_def)
    ultimately show "2 ^ 31 * w - 17 \<le> real z" "real z \<le> 2 ^ 31 * w" using h(2) by linarith+
  qed
  then show "real (a div 2 ^ 10 * (R div 4) div 2 ^ 51) < 2 ^ 64" unfolding z_def [symmetric] using nb(2) x(1) t(3) by simp
  have "root_fourth a x = 2 ^ 31 * x + z div 2" by (simp add: root_fourth_def z_def R_def Let_def)
  moreover have "real (z div 2) \<le> real z / 2" "real z / 2 < real (z div 2) + 1" using real_div_floor [of 2 z] by simp_all
  ultimately show "2 ^ 32 * s - 10 \<le> real (root_fourth a x)" "real (root_fourth a x) \<le> 2 ^ 32 * s + 146"
    using z nb by simp_all
qed

subsection \<open>The estimates in words\<close>

definition estimate64 :: "64 word \<Rightarrow> 32 word option" where
  "estimate64 a_mnt = do {
     let x = (ucast (drop_bit 34 a_mnt + drop_bit 35 a_mnt + push_bit 28 5) :: 32 word);
     q \<leftarrow> div_c (drop_bit 32 a_mnt) (ucast (drop_bit 15 x));
     let x = (ucast (push_bit 15 (q + ucast (drop_bit 16 x))) :: 32 word);
     q \<leftarrow> div_c (drop_bit 32 a_mnt) (ucast (drop_bit 15 x));
     let x = (ucast (push_bit 15 (q + ucast (drop_bit 16 x))) :: 32 word);
     q \<leftarrow> div_c a_mnt (ucast x);
     Some (ucast (drop_bit 2 q + ucast (drop_bit 1 x)))
   }"

definition fourth64 :: "64 word \<Rightarrow> 32 word \<Rightarrow> 64 word option" where
  "fourth64 a_mnt x = do {
     r \<leftarrow> div_c (push_bit 62 1) (ucast x :: 64 word);
     let (x0, x1) = mul64x32 (push_bit 1 (- ucast x * r)) (ucast r);
     let (x0, x1) = lsr128 x0 x1 31;
     let (x0, x1) = mul62x62 (drop_bit 10 a_mnt) (drop_bit 2 x0);
     let (x0, x1) = lsl128 x0 x1 5;
     let (x0, x1) = lsr128 x0 x1 56;
     Some (push_bit 31 (ucast x) + drop_bit 1 x0)
   }"

lemma down_small: "unat (w :: 64 word) < 2 ^ 32 \<Longrightarrow> unat (ucast w :: 32 word) = unat w"
  by (simp only: unat_down mod_less)

lemma seed64_word:
  fixes a :: "64 word"
  assumes "root_seed (unat a div 2 ^ 32) < 2 ^ 32"
  shows "unat (ucast (drop_bit 34 a + drop_bit 35 a + push_bit 28 5) :: 32 word) = root_seed (unat a div 2 ^ 32)"
proof -
  have d: "unat (drop_bit 34 a) = unat a div 2 ^ 32 div 4" "unat (drop_bit 35 a) = unat a div 2 ^ 32 div 8" by (simp_all add: div_mult2_eq [symmetric])
  have "unat (drop_bit 34 a + drop_bit 35 a) = unat a div 2 ^ 32 div 4 + unat a div 2 ^ 32 div 8"
    using assms unat_add_lem [of "drop_bit 34 a" "drop_bit 35 a"] unfolding d by (simp add: root_seed_def)
  then have "unat (drop_bit 34 a + drop_bit 35 a + push_bit 28 5) = root_seed (unat a div 2 ^ 32)"
    using assms unat_add_lem [of "drop_bit 34 a + drop_bit 35 a" "push_bit 28 5"] by (simp add: root_seed_def)
  then show ?thesis using down_small assms by simp
qed

lemma step64_word:
  fixes b :: "64 word" and x :: "32 word"
  assumes "5 * 2 ^ 28 \<le> unat x" "root_step (unat b) (unat x) < 2 ^ 32"
  shows "\<exists>q. div_c b (ucast (drop_bit 15 x)) = Some q \<and> unat (ucast (push_bit 15 (q + ucast (drop_bit 16 x))) :: 32 word) = root_step (unat b) (unat x)"
proof -
  define q where "q = b div ucast (drop_bit 15 x)"
  have "5 * 2 ^ 28 div 2 ^ 15 \<le> unat x div 2 ^ 15" using assms(1) by (rule div_le_mono)
  then have "unat (ucast (drop_bit 15 x) :: 64 word) \<noteq> 0" by (simp add: unat_up)
  then have "(ucast (drop_bit 15 x) :: 64 word) \<noteq> 0" by (auto simp: unat_inj_iff)
  then have "div_c b (ucast (drop_bit 15 x)) = Some q" by (simp add: div_c_def q_def)
  moreover have step: "root_step (unat b) (unat x) = (unat q + unat x div 2 ^ 16) * 2 ^ 15" by (simp add: root_step_def q_def unat_div unat_up)
  moreover have "unat (q + ucast (drop_bit 16 x)) = unat q + unat x div 2 ^ 16"
    using assms(2) unat_add_lem [of q "ucast (drop_bit 16 x)"] unfolding step by (simp add: unat_up)
  then have "unat (push_bit 15 (q + ucast (drop_bit 16 x))) = (unat q + unat x div 2 ^ 16) * 2 ^ 15"
    using assms(2) unat_push_small [of "q + ucast (drop_bit 16 x)" 15] unfolding step by simp
  ultimately show ?thesis using assms(2) down_small by auto
qed

lemma estimate64_spec:
  fixes a :: "64 word"
  assumes "2 ^ 62 \<le> unat a"
  shows "\<exists>x. estimate64 a = Some x \<and> sqrt (real (unat a) / 2) - 2 \<le> real (unat x) \<and> real (unat x) \<le> sqrt (real (unat a) / 2) + 10"
proof -
  have a: "unat a < 2 ^ 64" using word_less_nat [of a] by simp
  define A where "A = unat a div 2 ^ 32"
  have d: "unat (drop_bit 32 a) = A" by (simp add: A_def)
  note est = root_estimate [OF assms a refl, folded A_def]
  define x0 where "x0 = (ucast (drop_bit 34 a + drop_bit 35 a + push_bit 28 5) :: 32 word)"
  have x0: "unat x0 = root_seed A" unfolding x0_def A_def by (rule seed64_word) (rule real_nat_less(1) [OF est(2) [unfolded A_def]])
  have l: "5 * 2 ^ 28 \<le> real n \<Longrightarrow> 5 * 2 ^ 28 \<le> n" for n using real_nat_less(2) [of 28 n] by simp
  obtain q1 where q1: "div_c (drop_bit 32 a) (ucast (drop_bit 15 x0)) = Some q1" "unat (ucast (push_bit 15 (q1 + ucast (drop_bit 16 x0))) :: 32 word) = root_step A (root_seed A)"
    using step64_word [of x0 "drop_bit 32 a"] l [OF est(1)] real_nat_less(1) [OF est(4)] unfolding x0 d by blast
  define x1 where "x1 = (ucast (push_bit 15 (q1 + ucast (drop_bit 16 x0))) :: 32 word)"
  obtain q2 where q2: "div_c (drop_bit 32 a) (ucast (drop_bit 15 x1)) = Some q2" "unat (ucast (push_bit 15 (q2 + ucast (drop_bit 16 x1))) :: 32 word) = root_two_steps A"
    using step64_word [of x1 "drop_bit 32 a"] l [OF est(3)] real_nat_less(1) [OF est(6)] unfolding x1_def q1(2) root_two_steps_def d by blast
  define x2 where "x2 = (ucast (push_bit 15 (q2 + ucast (drop_bit 16 x1))) :: 32 word)"
  have "root_third (unat a) (root_two_steps A) < 2 ^ 32" using est(8) root_below [OF a] by (intro real_nat_less(1)) simp
  moreover have "0 < root_two_steps A" using l [OF est(5)] by simp
  ultimately obtain q3 where q3: "div_c a (ucast x2) = Some q3" "unat (ucast (drop_bit 2 q3 + ucast (drop_bit 1 x2)) :: 32 word) = root_third (unat a) (root_two_steps A)"
    using third32_word [of x2 a] unfolding x2_def q2(2) by blast
  have "estimate64 a = Some (ucast (drop_bit 2 q3 + ucast (drop_bit 1 x2)))"
    unfolding estimate64_def Let_def x0_def [symmetric] q1(1) bind.bind_lunit x1_def [symmetric] q2(1) x2_def [symmetric] q3(1) ..
  then show ?thesis using est(7,8) unfolding q3(2) [symmetric] by blast
qed

lemma double_negative:
  fixes w :: "64 word"
  assumes "0 < unat w" "unat w \<le> 2 ^ 63"
  shows "unat (push_bit 1 (- w)) = 2 ^ 64 - 2 * unat w"
proof -
  have "unat (- w) = 2 ^ 64 - unat w" using unat_diff_wrap [of 0 w] assms(1) by simp
  then have "unat (push_bit 1 (- w)) = (2 ^ 64 - unat w) * 2 mod 2 ^ 64" by (simp only: unat_push_mod) simp
  also have "(2 ^ 64 - unat w) * 2 = 2 ^ 64 - 2 * unat w + 2 ^ 64" using assms(2) by simp
  finally show ?thesis using assms by simp
qed

lemma fourth64_spec:
  fixes a :: "64 word" and x :: "32 word"
  assumes "2 ^ 62 \<le> unat a" "2 ^ 10 dvd unat a" "sqrt (real (unat a) / 2) - 2 \<le> real (unat x)" "real (unat x) \<le> sqrt (real (unat a) / 2) + 10"
  shows "\<exists>X. fourth64 a x = Some X \<and> unat X = root_fourth (unat a) (unat x)"
proof -
  have a: "unat a < 2 ^ 64" using word_less_nat [of a] by simp
  define r R z where "r = 2 ^ 62 div unat x" and "R = (2 ^ 64 - 2 * (unat x * r)) * r div 2 ^ 31" and "z = unat a div 2 ^ 10 * (R div 4) div 2 ^ 51"
  note e = root_fourth_error [OF assms(1) a assms(2) refl assms(3,4), folded r_def, folded R_def, folded z_def]
  note re = reciprocal_error(1-3) [OF e(1,2) r_def refl]
  have R64: "R < 2 ^ 64" and z64: "z < 2 ^ 64" using e(3,4) by (auto intro: real_nat_less(1))
  have x0: "0 < unat x" using e(1) by (cases "unat x") simp_all
  define w where "w = (push_bit 62 1 :: 64 word) div ucast x"
  have w: "unat w = r" by (simp add: w_def unat_div unat_up r_def)
  have xn: "(ucast x :: 64 word) \<noteq> 0" using x0 by (simp add: unat_inj_iff unat_up)
  have xw: "unat (ucast x * w) = unat x * r" using re(3) unat_mult_lem [of "ucast x :: 64 word" w] by (simp add: unat_up w)
  have "0 < unat x * r" using x0 re(1) by simp
  then have neg: "unat (push_bit 1 (- ucast x * w)) = 2 ^ 64 - 2 * (unat x * r)" using double_negative [of "ucast x * w"] re(3) unfolding xw by simp
  have rw: "unat (ucast w :: 32 word) = r" using down_small [of w] re(2) by (simp add: w)
  obtain p0 p1 where p: "mul64x32 (push_bit 1 (- ucast x * w)) (ucast w) = (p0, p1)" "val128 (p0, p1) = (2 ^ 64 - 2 * (unat x * r)) * r"
    using mul64x32_val [of "push_bit 1 (- ucast x * w)" "ucast w"] unfolding neg rw by (metis prod.exhaust)
  obtain R0 R1 where R: "lsr128 p0 p1 31 = (R0, R1)" "val128 (R0, R1) = R" using lsr128_val [of p0 p1 31] unfolding p(2) R_def by (metis prod.exhaust)
  have R0: "unat R0 = R" using low_word [of R0 R1] R64 unfolding R(2) by simp
  have u: "unat a div 2 ^ 10 < 2 ^ 54" "R div 4 < 2 ^ 62" using a R64 by (simp_all add: div_less_iff_less_mult)
  obtain m0 m1 where m: "mul62x62 (drop_bit 10 a) (drop_bit 2 R0) = (m0, m1)" "val128 (m0, m1) = unat a div 2 ^ 10 * (R div 4)"
    using mul62x62_val [of "drop_bit 10 a" "drop_bit 2 R0"] u by (cases "mul62x62 (drop_bit 10 a) (drop_bit 2 R0)") (simp add: R0)
  have "unat a div 2 ^ 10 * (R div 4) < 2 ^ 54 * 2 ^ 62" using u by (intro mult_strict_mono') simp_all
  moreover have "g * 2 ^ 5 mod 2 ^ 128 = g * 2 ^ 5" if "g < 2 ^ 54 * 2 ^ 62" for g :: nat using that by simp
  ultimately obtain n0 n1 where n: "lsl128 m0 m1 5 = (n0, n1)" "val128 (n0, n1) = unat a div 2 ^ 10 * (R div 4) * 2 ^ 5"
    using lsl128_val [of m0 m1 5] unfolding m(2) by (metis prod.exhaust)
  have "unat a div 2 ^ 10 * (R div 4) * 2 ^ 5 div 2 ^ 56 = z" unfolding z_def using div_mult_mult2 [of "2 ^ 5" "unat a div 2 ^ 10 * (R div 4)" "2 ^ 51"] by simp
  then obtain z0 z1 where z: "lsr128 n0 n1 56 = (z0, z1)" "val128 (z0, z1) = z" using lsr128_val [of n0 n1 56] unfolding n(2) by (metis prod.exhaust)
  have z0: "unat z0 = z" using low_word [of z0 z1] z64 unfolding z(2) by simp
  have X: "root_fourth (unat a) (unat x) = unat x * 2 ^ 31 + z div 2" by (simp add: root_fourth_def Let_def r_def R_def z_def)
  have "unat (push_bit 31 (ucast x) :: 64 word) = unat x * 2 ^ 31" using unat_push_small [of "ucast x :: 64 word" 31] word_less_nat [of x] by (simp add: unat_up)
  moreover have "root_fourth (unat a) (unat x) < 2 ^ 64" using e(6) root_below [OF a] by (intro real_nat_less(1)) simp
  ultimately have "unat (push_bit 31 (ucast x) + drop_bit 1 z0) = root_fourth (unat a) (unat x)"
    using unat_add_lem [of "push_bit 31 (ucast x)" "drop_bit 1 z0"] unfolding X by (simp add: z0)
  moreover have "fourth64 a x = Some (push_bit 31 (ucast x) + drop_bit 1 z0)"
    unfolding fourth64_def div_c_def if_not_P [OF xn] bind.bind_lunit w_def [symmetric] p(1) Let_def prod.case R(1) m(1) n(1) z(1) ..
  ultimately show ?thesis by blast
qed

subsection \<open>The root\<close>

definition root64 :: "64 word \<Rightarrow> int \<Rightarrow> (64 word \<times> int) option" where
  "root64 a_mnt a_exp = do {
     let (a_mnt, a_exp) = fp64_normalise a_mnt a_exp;
     let (a_mnt, a_exp) = (if odd a_exp then (drop_bit 1 a_mnt, a_exp + 1) else (a_mnt, a_exp));
     x \<leftarrow> estimate64 a_mnt;
     x0 \<leftarrow> fourth64 a_mnt x;
     let x_mnt = drop_bit 9 (x0 - push_bit 8 1) + 1;
     let (x0, x1) = mul62x62 x_mnt x_mnt;
     let (x0, x1) = lsl128 x0 x1 19;
     let c = cmp128 x0 x1 0 a_mnt;
     let x_mnt = (if c > 0 then x_mnt - 1 else x_mnt);
     let (x_mnt, x_exp) = fp64_normalise x_mnt ((a_exp + 1053) div 2);
     Some (push_bit 1 x_mnt OR of_bool (c \<noteq> 0), x_exp)
   }"

lemma root_bits64:
  fixes R :: "64 word" and n :: nat
  assumes "unat R * unat R \<le> n" "n < (unat R + 1) * (unat R + 1)" "2 ^ 53 \<le> unat R"
  shows "\<exists>s N. fp64_normalise R ex = (N, ex - int s) \<and>
    sticky (jam (2 ^ LENGTH(64) + unat (push_bit 1 N OR of_bool (unat R * unat R \<noteq> n))) 10) (sqrt (real n) * 2 ^ (s + 1) / 2 ^ 10)"
proof -
  have "R \<noteq> 0" using assms(3) by (auto simp: unat_inj_iff)
  then obtain s N where s: "fp64_normalise R ex = (N, ex - int s)" "unat N = unat R * 2 ^ s" "2 ^ 63 \<le> unat N"
    using fp_normalise_spec(3) [of R ex] by blast
  have "s \<le> 10"
  proof (rule ccontr)
    assume "\<not> s \<le> 10"
    then have "2 ^ 53 * 2 ^ 11 \<le> unat R * 2 ^ s" using assms(3) by (intro mult_mono power_increasing) simp_all
    then show False using word_less_nat [of N] by (simp add: s(2))
  qed
  moreover have "2 ^ LENGTH(64) + unat (push_bit 1 N OR of_bool (unat R * unat R \<noteq> n)) = unat R * 2 ^ (s + 1) + of_bool (unat R * unat R \<noteq> n)"
    using unat_push_top [of N] s(3) by (simp add: s(2))
  ultimately show ?thesis using s(1) root_sticky [OF assms(1,2), of "s + 1" 10] by auto
qed

text \<open>The square of the candidate does not overflow: the operand is not among the last numbers below \<open>2 ^ 64\<close>.\<close>

lemma square_fits:
  fixes k n :: nat
  assumes "(k - 1) * (k - 1) < n" "n \<le> 2 ^ 109 - 2 ^ 56" "0 < k"
  shows "k \<le> 2 ^ 55" "k * k < 2 ^ 109"
proof -
  define j where "j = k - 1"
  have k: "k = j + 1" using assms(3) by (simp add: j_def)
  have jj: "j * j < n" using assms(1) by (simp only: j_def)
  have j: "j < 2 ^ 55"
  proof (rule ccontr)
    assume "\<not> j < 2 ^ 55"
    then have "2 ^ 55 * 2 ^ 55 \<le> j * j" by (intro mult_mono) simp_all
    then show False using jj assms(2) by simp
  qed
  then show "k \<le> 2 ^ 55" by (simp add: k)
  have "k * k = j * j + 2 * j + 1" by (simp add: k)
  then show "k * k < 2 ^ 109" using jj j assms(2) by simp
qed

lemma last_place64:
  fixes a X :: "64 word"
  assumes "2 ^ 62 \<le> unat a" "unat a \<le> 2 ^ 64 - 2 ^ 11" "2 ^ 32 * sqrt (real (unat a) / 2) - 10 \<le> real (unat X)" "real (unat X) \<le> 2 ^ 32 * sqrt (real (unat a) / 2) + 146"
  defines "m \<equiv> drop_bit 9 (X - push_bit 8 1) + 1" and "n \<equiv> unat a * 2 ^ 45"
  shows "\<exists>x0 x1 y0 y1. mul62x62 m m = (x0, x1) \<and> lsl128 x0 x1 19 = (y0, y1) \<and>
    (let R = (if cmp128 y0 y1 0 a > 0 then m - 1 else m) in unat R * unat R \<le> n \<and> n < (unat R + 1) * (unat R + 1) \<and>
      (cmp128 y0 y1 0 a \<noteq> 0 \<longleftrightarrow> unat R * unat R \<noteq> n) \<and> 2 ^ 53 \<le> unat R)"
proof -
  define k where "k = (unat X - 256) div 512 + 1"
  have n512: "2 ^ 32 * sqrt (real (unat a) / 2) = 2 * real 256 * sqrt (real n)"
  proof -
    have "sqrt (real n) = sqrt (2 ^ 23 * 2 ^ 23 * (real (unat a) / 2))" unfolding n_def by (simp del: of_nat_unat)
    then have "sqrt (real n) = 2 ^ 23 * sqrt (real (unat a) / 2)" by (simp only: real_sqrt_mult real_sqrt_mult_self) simp
    then show ?thesis by simp
  qed
  have "unat a < 2 ^ 64" using word_less_nat [of a] by simp
  note t = root_range(2) [OF assms(1) this refl]
  then have "real 256 \<le> real (unat X)" using assms(3) by (simp del: of_nat_unat)
  then have X256: "256 \<le> unat X" by (simp only: of_nat_le_iff)
  then have "unat (X - push_bit 8 1) = unat X - 256" by (subst unat_sub) (simp_all add: word_le_nat_alt)
  then have d: "unat (drop_bit 9 (X - push_bit 8 1)) = (unat X - 256) div 512" by simp
  have "(unat X - 256) div 512 < 2 ^ 55" using word_less_nat [of X] by (intro less_mult_imp_div_less) simp
  then have m: "unat m = k" unfolding m_def k_def using unat_add_lem [of "drop_bit 9 (X - push_bit 8 1)" 1] d by simp
  have k0: "0 < k" by (simp add: k_def)
  have "\<bar>real (unat X) - 2 * real 256 * sqrt (real n)\<bar> < real 256" using assms(3,4) unfolding n512 by linarith
  note lp = last_place [OF _ X256 this, of k]
  have lp: "(k - 1) * (k - 1) < n" "n < (k + 1) * (k + 1)" by (rule lp, simp, simp add: k_def)+
  have "n \<le> 2 ^ 109 - 2 ^ 56" using assms(2) unfolding n_def by simp
  note sq = square_fits [OF lp(1) this k0]
  obtain x0 x1 where x: "mul62x62 m m = (x0, x1)" "val128 (x0, x1) = k * k" using mul62x62_val [of m m] sq(1) by (cases "mul62x62 m m") (simp add: m)
  have "k * k * 2 ^ 19 mod 2 ^ 128 = k * k * 2 ^ 19" using sq(2) by (intro mod_less) simp
  then obtain y0 y1 where y: "lsl128 x0 x1 19 = (y0, y1)" "val128 (y0, y1) = k * k * 2 ^ 19" using lsl128_val [of x0 x1 19] unfolding x(2) by (metis prod.exhaust)
  have v: "val128 (0, a) = n * 2 ^ 19" by (simp add: val128_def n_def)
  have c: "cmp128 y0 y1 0 a > 0 \<longleftrightarrow> n < k * k" "cmp128 y0 y1 0 a \<noteq> 0 \<longleftrightarrow> k * k \<noteq> n" unfolding cmp128_val v y(2) by auto
  define R where "R = (if cmp128 y0 y1 0 a > 0 then m - 1 else m)"
  have "unat (m - 1) = k - 1" using k0 m by (subst unat_sub) (simp_all add: word_le_nat_alt)
  then have R: "unat R = (if n < k * k then k - 1 else k)" unfolding R_def c(1) by (simp add: m)
  note root = corrected_root [OF lp k0 R]
  have "2 ^ 53 \<le> unat R" using assms(1) by (intro integer_root_lower [OF root(2)]) (simp add: n_def)
  then show ?thesis
    by (intro exI [of _ x0] exI [of _ x1] exI [of _ y0] exI [of _ y1]) (simp only: x(1) y(1) Let_def R_def [symmetric] c(2) root simp_thms)
qed

lemma root_scale64:
  fixes a a' :: nat
  assumes val: "real a' * 2 powi e' = real a * 2 powi e" and "even e'"
  shows "sqrt (real (a' * 2 ^ 45)) * 2 ^ (s + 1) = sqrt (real a * 2 powi (e + 2 ^ 10 + int 52 - 3)) * 2 powi (3 + int 10 - ((e' + 1053) div 2 - int s))"
proof -
  obtain c where c: "e' = 2 * c" using assms(2) by (rule evenE)
  have "real a * 2 powi (e + 2 ^ 10 + int 52 - 3) = real a * 2 powi e * 2 powi 1073" by (simp add: power_int_add flip: mult.assoc)
  also have "\<dots> = real (a' * 2 ^ 45) * 2 powi (2 * (c + 514))" unfolding val [symmetric] c by (simp add: power_int_add distrib_left)
  finally have "sqrt (real a * 2 powi (e + 2 ^ 10 + int 52 - 3)) = sqrt (real (a' * 2 ^ 45)) * 2 powi (c + 514)" by (simp only: sqrt_powi)
  moreover have "(2::real) powi (c + 514) * 2 powi (3 + int 10 - ((e' + 1053) div 2 - int s)) = 2 powi int (s + 1)"
    unfolding c by (subst power_int_add [symmetric]) simp_all
  ultimately show ?thesis by (simp only: mult.assoc powi_nat)
qed

lemma normalised_top:
  fixes N a' :: "64 word"
  assumes "2 ^ 11 dvd unat N" "a' = drop_bit 1 N \<or> a' = N"
  shows "unat a' \<le> 2 ^ 64 - 2 ^ 11"
proof -
  obtain q where "unat N = 2 ^ 11 * q" using assms(1) by blast
  then have "unat N \<le> 2 ^ 64 - 2 ^ 11" using word_less_nat [of N] by simp
  moreover have "unat (drop_bit 1 N) \<le> unat N" by simp
  ultimately show ?thesis using assms(2) by auto
qed

lemma root64_spec:
  fixes a :: "64 word"
  assumes "a \<noteq> 0" "unat a < 2 ^ (52 + 1)"
  shows "\<exists>m ex. root64 a e = Some (m, ex) \<and>
    sticky (jam (2 ^ LENGTH(64) + unat m) 10) (sqrt (real (unat a) * 2 powi (e + 2 ^ 10 + int 52 - 3)) * 2 powi (3 + int 10 - ex) / 2 ^ 10)"
proof -
  obtain s0 N where N: "fp64_normalise a e = (N, e - int s0)" "unat N = unat a * 2 ^ s0" "2 ^ 63 \<le> unat N"
    using fp_normalise_spec(3) [OF assms(1), of e] by blast
  have dvd: "2 ^ 11 dvd unat N" using normalised_low_bits [OF N(2,3)] assms(2) by simp
  then obtain a' e' where a': "(if odd (e - int s0) then (drop_bit 1 N, e - int s0 + 1) else (N, e - int s0)) = (a', e')" "even e'" "2 ^ 62 \<le> unat a'" "2 ^ 10 dvd unat a'"
    "real (unat a') * 2 powi e' = real (unat N) * 2 powi (e - int s0)" using parity [of 62 N 10 "e - int s0" False] N(3) by auto
  have val: "real (unat a') * 2 powi e' = real (unat a) * 2 powi e" unfolding a'(5) N(2) by (simp add: powi_nat del: of_nat_unat)
  have "a' = drop_bit 1 N \<or> a' = N" using a'(1) by (auto split: if_splits)
  note top = normalised_top [OF dvd this]
  obtain x where x: "estimate64 a' = Some x" "sqrt (real (unat a') / 2) - 2 \<le> real (unat x)" "real (unat x) \<le> sqrt (real (unat a') / 2) + 10"
    using estimate64_spec [OF a'(3)] by blast
  obtain X where X: "fourth64 a' x = Some X" "unat X = root_fourth (unat a') (unat x)" using fourth64_spec [OF a'(3,4) x(2,3)] by blast
  have "unat a' < 2 ^ 64" using word_less_nat [of a'] by simp
  note err = root_fourth_error(5,6) [OF a'(3) this a'(4) refl x(2,3), folded X(2)]
  define m where "m = drop_bit 9 (X - push_bit 8 1) + 1"
  obtain x0 x1 y0 y1 where y: "mul62x62 m m = (x0, x1)" "lsl128 x0 x1 19 = (y0, y1)"
    and R: "let R = (if cmp128 y0 y1 0 a' > 0 then m - 1 else m) in unat R * unat R \<le> unat a' * 2 ^ 45 \<and> unat a' * 2 ^ 45 < (unat R + 1) * (unat R + 1) \<and>
      (cmp128 y0 y1 0 a' \<noteq> 0 \<longleftrightarrow> unat R * unat R \<noteq> unat a' * 2 ^ 45) \<and> 2 ^ 53 \<le> unat R"
    using last_place64 [OF a'(3) top err, folded m_def] by (elim exE conjE) (rule that)
  define R c where "R = (if cmp128 y0 y1 0 a' > 0 then m - 1 else m)" and "c = cmp128 y0 y1 0 a'"
  note R = R [unfolded Let_def, folded R_def, folded c_def]
  obtain s M where s: "fp64_normalise R ((e' + 1053) div 2) = (M, (e' + 1053) div 2 - int s)"
    and st: "sticky (jam (2 ^ LENGTH(64) + unat (push_bit 1 M OR of_bool (c \<noteq> 0))) 10) (sqrt (real (unat a' * 2 ^ 45)) * 2 ^ (s + 1) / 2 ^ 10)"
    using root_bits64 [of R "unat a' * 2 ^ 45" "(e' + 1053) div 2"] R by auto
  have "root64 a e = Some (push_bit 1 M OR of_bool (c \<noteq> 0), (e' + 1053) div 2 - int s)"
    unfolding root64_def N(1) Let_def prod.case a'(1) x(1) bind.bind_lunit X(1) m_def [symmetric] y unfolding R_def [symmetric] unfolding c_def [symmetric] s prod.case ..
  moreover have "sqrt (real (unat a' * 2 ^ 45)) * 2 ^ (s + 1) = sqrt (real (unat a) * 2 powi (e + 2 ^ 10 + int 52 - 3)) * 2 powi (3 + int 10 - ((e' + 1053) div 2 - int s))"
    by (rule root_scale64 [OF val a'(2)])
  ultimately show ?thesis using st by auto
qed

interpretation double: fp_sqrt 52 10 "0x3ff" fp64_pack fp64_zero fp64_infinity fp64_max_normal fp64_round_rm fp64_unpack fp64_process_NaNs
  root64 fp64_defaultNaN fp64_process_NaN fp64_sqrt
proof unfold_locales
  show "fp64_sqrt a mode flags = (let
     (a_sgn, a_exp, a_mnt, flags) = fp64_unpack a mode flags
     in if a_exp = 2 ^ (10 + 1) - 1 \<and> push_bit (10 + 2) a_mnt \<noteq> 0 then Some (fp64_process_NaN a mode flags)
     else if a_mnt = 0 then Some (fp64_zero a_sgn, flags)
     else if a_exp = 2 ^ (10 + 1) - 1 \<and> \<not> a_sgn then Some (fp64_infinity a_sgn, flags)
     else if a_sgn then Some (fp64_defaultNaN, flags OR FPLIB_IOC)
     else do {
       (x_mnt, x_exp) \<leftarrow> root64 a_mnt a_exp;
       fp64_round_rm False x_exp x_mnt (mode AND 3) mode flags
     })" for a mode flags
    unfolding fp64_sqrt_def root64_def estimate64_def fourth64_def fp64_round_def Let_def format_nums nan_shifts bind_assoc bind.bind_lunit
    by (simp only: prod.case_distrib split_beta fst_conv snd_conv bind.bind_lunit bind_assoc)
qed (rule root64_spec)

end
