(* ===== verification/TiC_FP_Lib.thy ===== *)
theory TiC_FP_Lib
  imports TiC_FP_Core
begin

text \<open>
  The interface of gem5's \<^verbatim>\<open>fplib.cc\<close> that the floating-point instructions call: every function takes the mode from the
  status register \<^verbatim>\<open>FPSCR\<close>, runs an operation of the core and adds the raised exceptions to the register, which is
  returned beside the result. The instances of a C++ template are named by the widths of the operand and, for
  conversions, of the result.
\<close>

subsection \<open>The status register\<close>

definition modeConv :: "32 word \<Rightarrow> 32 word" where
  "modeConv fpscr = drop_bit 22 fpscr AND 0xF"

abbreviation fpscr_ahp :: "32 word \<Rightarrow> bool" where
  "fpscr_ahp fpscr \<equiv> bit fpscr 26"

abbreviation fpscr_dn :: "32 word \<Rightarrow> bool" where
  "fpscr_dn fpscr \<equiv> bit fpscr 25"

abbreviation fpscr_fz :: "32 word \<Rightarrow> bool" where
  "fpscr_fz fpscr \<equiv> bit fpscr 24"

definition FPCRRounding :: "32 word \<Rightarrow> 32 word" where
  "FPCRRounding fpscr = drop_bit 22 fpscr AND 3"

definition set_fpscr0 :: "32 word \<Rightarrow> 32 word \<Rightarrow> 32 word" where
  "set_fpscr0 fpscr flags = (let
     fpscr = (if flags AND FPLIB_IDC \<noteq> 0 then set_bit 7 fpscr else fpscr);
     fpscr = (if flags AND FPLIB_IOC \<noteq> 0 then set_bit 0 fpscr else fpscr);
     fpscr = (if flags AND FPLIB_DZC \<noteq> 0 then set_bit 1 fpscr else fpscr);
     fpscr = (if flags AND FPLIB_OFC \<noteq> 0 then set_bit 2 fpscr else fpscr);
     fpscr = (if flags AND FPLIB_UFC \<noteq> 0 then set_bit 3 fpscr else fpscr)
     in if flags AND FPLIB_IXC \<noteq> 0 then set_bit 4 fpscr else fpscr)"

definition set_fpscr :: "32 word \<Rightarrow> 32 word \<Rightarrow> 32 word" where
  "set_fpscr fpscr flags = (let
     fpscr = (if flags AND FPLIB_IDC \<noteq> 0 then set_bit 7 fpscr else fpscr);
     fpscr = (if flags AND FPLIB_IOC \<noteq> 0 then set_bit 0 fpscr else fpscr);
     fpscr = (if flags AND FPLIB_DZC \<noteq> 0 then set_bit 1 fpscr else fpscr);
     fpscr = (if flags AND FPLIB_OFC \<noteq> 0 then set_bit 2 fpscr else fpscr);
     underflow = (flags AND FPLIB_UFC \<noteq> 0);
     fpscr = (if underflow then set_bit 3 fpscr else fpscr)
     in if flags AND FPLIB_IXC \<noteq> 0 \<and> \<not> (underflow \<and> fpscr_fz fpscr) then set_bit 4 fpscr else fpscr)"

text \<open>A result that adds its exceptions to the register.\<close>

definition with_fpscr0 :: "32 word \<Rightarrow> ('r \<times> 32 word) option \<Rightarrow> ('r \<times> 32 word) option" where
  "with_fpscr0 fpscr r = map_option (\<lambda>(x, flags). (x, set_fpscr0 fpscr flags)) r"

subsection \<open>Arithmetic and comparison\<close>

definition fplibCompareEQ32 :: "32 word \<Rightarrow> 32 word \<Rightarrow> 32 word \<Rightarrow> bool \<times> 32 word" where
  "fplibCompareEQ32 a b fpscr = (let (x, flags) = fp32_compare_eq a b (modeConv fpscr) 0 in (x, set_fpscr fpscr flags))"

definition fplibCompareGE32 :: "32 word \<Rightarrow> 32 word \<Rightarrow> 32 word \<Rightarrow> bool \<times> 32 word" where
  "fplibCompareGE32 a b fpscr = (let (x, flags) = fp32_compare_ge a b (modeConv fpscr) 0 in (x, set_fpscr fpscr flags))"

definition fplibCompareGT32 :: "32 word \<Rightarrow> 32 word \<Rightarrow> 32 word \<Rightarrow> bool \<times> 32 word" where
  "fplibCompareGT32 a b fpscr = (let (x, flags) = fp32_compare_gt a b (modeConv fpscr) 0 in (x, set_fpscr fpscr flags))"

definition fplibAbs32 :: "32 word \<Rightarrow> 32 word" where
  "fplibAbs32 op1 = op1 AND NOT (push_bit 31 1)"

definition fplibNeg32 :: "32 word \<Rightarrow> 32 word" where
  "fplibNeg32 op1 = op1 XOR push_bit 31 1"

definition fplibAdd32 :: "32 word \<Rightarrow> 32 word \<Rightarrow> 32 word \<Rightarrow> (32 word \<times> 32 word) option" where
  "fplibAdd32 op1 op2 fpscr = with_fpscr0 fpscr (fp32_add op1 op2 False (modeConv fpscr) 0)"

definition fplibSub32 :: "32 word \<Rightarrow> 32 word \<Rightarrow> 32 word \<Rightarrow> (32 word \<times> 32 word) option" where
  "fplibSub32 op1 op2 fpscr = with_fpscr0 fpscr (fp32_add op1 op2 True (modeConv fpscr) 0)"

definition fplibMul32 :: "32 word \<Rightarrow> 32 word \<Rightarrow> 32 word \<Rightarrow> (32 word \<times> 32 word) option" where
  "fplibMul32 op1 op2 fpscr = with_fpscr0 fpscr (fp32_mul op1 op2 (modeConv fpscr) 0)"

definition fplibMulAdd32 :: "32 word \<Rightarrow> 32 word \<Rightarrow> 32 word \<Rightarrow> 32 word \<Rightarrow> (32 word \<times> 32 word) option" where
  "fplibMulAdd32 addend op1 op2 fpscr = with_fpscr0 fpscr (fp32_muladd addend op1 op2 0 (modeConv fpscr) 0)"

definition fplibDiv32 :: "32 word \<Rightarrow> 32 word \<Rightarrow> 32 word \<Rightarrow> (32 word \<times> 32 word) option" where
  "fplibDiv32 op1 op2 fpscr = with_fpscr0 fpscr (fp32_div op1 op2 (modeConv fpscr) 0)"

definition fplibSqrt32 :: "32 word \<Rightarrow> 32 word \<Rightarrow> (32 word \<times> 32 word) option" where
  "fplibSqrt32 op1 fpscr = with_fpscr0 fpscr (fp32_sqrt op1 (modeConv fpscr) 0)"

definition fplibCompare32 :: "32 word \<Rightarrow> 32 word \<Rightarrow> bool \<Rightarrow> 32 word \<Rightarrow> int \<times> 32 word" where
  "fplibCompare32 op1 op2 signal_nans fpscr = (let
     mode = modeConv fpscr;
     (sgn1, exp1, mnt1, flags) = fp32_unpack op1 mode 0;
     (sgn2, exp2, mnt2, flags) = fp32_unpack op2 mode flags;
     (result, flags) =
       (if exp1 = 255 \<and> push_bit 9 mnt1 \<noteq> 0 \<or> exp2 = 255 \<and> push_bit 9 mnt2 \<noteq> 0 then
          (3, if exp1 = 255 \<and> push_bit 9 mnt1 \<noteq> 0 \<and> drop_bit 22 mnt1 AND 1 = 0 \<or>
                 exp2 = 255 \<and> push_bit 9 mnt2 \<noteq> 0 \<and> drop_bit 22 mnt2 AND 1 = 0 \<or> signal_nans
              then flags OR FPLIB_IOC else flags)
        else if op1 = op2 \<or> mnt1 = 0 \<and> mnt2 = 0 then (6, flags)
        else if sgn1 \<noteq> sgn2 then (if sgn1 then 8 else 2, flags)
        else if exp1 \<noteq> exp2 then (if sgn1 \<noteq> (exp1 < exp2) then 8 else 2, flags)
        else (if sgn1 \<noteq> (mnt1 < mnt2) then 8 else 2, flags))
     in (result, set_fpscr0 fpscr flags))"

definition fplibCompareEQ64 :: "64 word \<Rightarrow> 64 word \<Rightarrow> 32 word \<Rightarrow> bool \<times> 32 word" where
  "fplibCompareEQ64 a b fpscr = (let (x, flags) = fp64_compare_eq a b (modeConv fpscr) 0 in (x, set_fpscr fpscr flags))"

definition fplibCompareGE64 :: "64 word \<Rightarrow> 64 word \<Rightarrow> 32 word \<Rightarrow> bool \<times> 32 word" where
  "fplibCompareGE64 a b fpscr = (let (x, flags) = fp64_compare_ge a b (modeConv fpscr) 0 in (x, set_fpscr fpscr flags))"

definition fplibCompareGT64 :: "64 word \<Rightarrow> 64 word \<Rightarrow> 32 word \<Rightarrow> bool \<times> 32 word" where
  "fplibCompareGT64 a b fpscr = (let (x, flags) = fp64_compare_gt a b (modeConv fpscr) 0 in (x, set_fpscr fpscr flags))"

definition fplibAbs64 :: "64 word \<Rightarrow> 64 word" where
  "fplibAbs64 op1 = op1 AND NOT (push_bit 63 1)"

definition fplibNeg64 :: "64 word \<Rightarrow> 64 word" where
  "fplibNeg64 op1 = op1 XOR push_bit 63 1"

definition fplibAdd64 :: "64 word \<Rightarrow> 64 word \<Rightarrow> 32 word \<Rightarrow> (64 word \<times> 32 word) option" where
  "fplibAdd64 op1 op2 fpscr = with_fpscr0 fpscr (fp64_add op1 op2 False (modeConv fpscr) 0)"

definition fplibSub64 :: "64 word \<Rightarrow> 64 word \<Rightarrow> 32 word \<Rightarrow> (64 word \<times> 32 word) option" where
  "fplibSub64 op1 op2 fpscr = with_fpscr0 fpscr (fp64_add op1 op2 True (modeConv fpscr) 0)"

definition fplibMul64 :: "64 word \<Rightarrow> 64 word \<Rightarrow> 32 word \<Rightarrow> (64 word \<times> 32 word) option" where
  "fplibMul64 op1 op2 fpscr = with_fpscr0 fpscr (fp64_mul op1 op2 (modeConv fpscr) 0)"

definition fplibMulAdd64 :: "64 word \<Rightarrow> 64 word \<Rightarrow> 64 word \<Rightarrow> 32 word \<Rightarrow> (64 word \<times> 32 word) option" where
  "fplibMulAdd64 addend op1 op2 fpscr = with_fpscr0 fpscr (fp64_muladd addend op1 op2 0 (modeConv fpscr) 0)"

definition fplibDiv64 :: "64 word \<Rightarrow> 64 word \<Rightarrow> 32 word \<Rightarrow> (64 word \<times> 32 word) option" where
  "fplibDiv64 op1 op2 fpscr = with_fpscr0 fpscr (fp64_div op1 op2 (modeConv fpscr) 0)"

definition fplibSqrt64 :: "64 word \<Rightarrow> 32 word \<Rightarrow> (64 word \<times> 32 word) option" where
  "fplibSqrt64 op1 fpscr = with_fpscr0 fpscr (fp64_sqrt op1 (modeConv fpscr) 0)"

definition fplibCompare64 :: "64 word \<Rightarrow> 64 word \<Rightarrow> bool \<Rightarrow> 32 word \<Rightarrow> int \<times> 32 word" where
  "fplibCompare64 op1 op2 signal_nans fpscr = (let
     mode = modeConv fpscr;
     (sgn1, exp1, mnt1, flags) = fp64_unpack op1 mode 0;
     (sgn2, exp2, mnt2, flags) = fp64_unpack op2 mode flags;
     (result, flags) =
       (if exp1 = 2047 \<and> push_bit 12 mnt1 \<noteq> 0 \<or> exp2 = 2047 \<and> push_bit 12 mnt2 \<noteq> 0 then
          (3, if exp1 = 2047 \<and> push_bit 12 mnt1 \<noteq> 0 \<and> drop_bit 51 mnt1 AND 1 = 0 \<or>
                 exp2 = 2047 \<and> push_bit 12 mnt2 \<noteq> 0 \<and> drop_bit 51 mnt2 AND 1 = 0 \<or> signal_nans
              then flags OR FPLIB_IOC else flags)
        else if op1 = op2 \<or> mnt1 = 0 \<and> mnt2 = 0 then (6, flags)
        else if sgn1 \<noteq> sgn2 then (if sgn1 then 8 else 2, flags)
        else if exp1 \<noteq> exp2 then (if sgn1 \<noteq> (exp1 < exp2) then 8 else 2, flags)
        else (if sgn1 \<noteq> (mnt1 < mnt2) then 8 else 2, flags))
     in (result, set_fpscr0 fpscr flags))"

subsection \<open>Minimum and maximum\<close>

definition fp32_repack :: "bool \<Rightarrow> int \<Rightarrow> 32 word \<Rightarrow> 32 word" where
  "fp32_repack sn ex mnt = fp32_pack (of_bool sn) (if drop_bit 23 mnt \<noteq> 0 then word_of_int ex else 0) mnt"

definition fp32_minmaxnum :: "32 word \<Rightarrow> 32 word \<Rightarrow> bool \<Rightarrow> 32 word \<times> 32 word" where
  "fp32_minmaxnum op1 op2 sn = (let
     op1 = (if drop_bit 23 (NOT (push_bit 1 op1)) = 0 \<and> drop_bit 23 (NOT (push_bit 1 op2)) \<noteq> 0 then fp32_infinity sn else op1);
     op2 = (if drop_bit 23 (NOT (push_bit 1 op2)) = 0 \<and> drop_bit 23 (NOT (push_bit 1 op1)) \<noteq> 0 then fp32_infinity sn else op2)
     in (op1, op2))"

definition fplibMax32 :: "32 word \<Rightarrow> 32 word \<Rightarrow> 32 word \<Rightarrow> 32 word \<times> 32 word" where
  "fplibMax32 op1 op2 fpscr = (let
     mode = modeConv fpscr;
     (sgn1, exp1, mnt1, flags) = fp32_unpack op1 mode 0;
     (sgn2, exp2, mnt2, flags) = fp32_unpack op2 mode flags;
     (x, flags) = fp32_process_NaNs op1 op2 mode flags
     in (if x \<noteq> 0 then x
         else if (if sgn1 \<noteq> sgn2 then sgn2 else sgn1 \<noteq> (op1 > op2)) then fp32_repack sgn1 exp1 mnt1
         else fp32_repack sgn2 exp2 mnt2, set_fpscr0 fpscr flags))"

definition fplibMaxNum32 :: "32 word \<Rightarrow> 32 word \<Rightarrow> 32 word \<Rightarrow> 32 word \<times> 32 word" where
  "fplibMaxNum32 op1 op2 fpscr = (let (op1, op2) = fp32_minmaxnum op1 op2 True in fplibMax32 op1 op2 fpscr)"

definition fplibMin32 :: "32 word \<Rightarrow> 32 word \<Rightarrow> 32 word \<Rightarrow> 32 word \<times> 32 word" where
  "fplibMin32 op1 op2 fpscr = (let
     mode = modeConv fpscr;
     (sgn1, exp1, mnt1, flags) = fp32_unpack op1 mode 0;
     (sgn2, exp2, mnt2, flags) = fp32_unpack op2 mode flags;
     (x, flags) = fp32_process_NaNs op1 op2 mode flags
     in (if x \<noteq> 0 then x
         else if (if sgn1 \<noteq> sgn2 then sgn1 else sgn1 \<noteq> (op1 < op2)) then fp32_repack sgn1 exp1 mnt1
         else fp32_repack sgn2 exp2 mnt2, set_fpscr0 fpscr flags))"

definition fplibMinNum32 :: "32 word \<Rightarrow> 32 word \<Rightarrow> 32 word \<Rightarrow> 32 word \<times> 32 word" where
  "fplibMinNum32 op1 op2 fpscr = (let (op1, op2) = fp32_minmaxnum op1 op2 False in fplibMin32 op1 op2 fpscr)"

definition fp64_repack :: "bool \<Rightarrow> int \<Rightarrow> 64 word \<Rightarrow> 64 word" where
  "fp64_repack sn ex mnt = fp64_pack (of_bool sn) (if drop_bit 52 mnt \<noteq> 0 then word_of_int ex else 0) mnt"

definition fp64_minmaxnum :: "64 word \<Rightarrow> 64 word \<Rightarrow> bool \<Rightarrow> 64 word \<times> 64 word" where
  "fp64_minmaxnum op1 op2 sn = (let
     op1 = (if drop_bit 52 (NOT (push_bit 1 op1)) = 0 \<and> drop_bit 52 (NOT (push_bit 1 op2)) \<noteq> 0 then fp64_infinity sn else op1);
     op2 = (if drop_bit 52 (NOT (push_bit 1 op2)) = 0 \<and> drop_bit 52 (NOT (push_bit 1 op1)) \<noteq> 0 then fp64_infinity sn else op2)
     in (op1, op2))"

definition fplibMax64 :: "64 word \<Rightarrow> 64 word \<Rightarrow> 32 word \<Rightarrow> 64 word \<times> 32 word" where
  "fplibMax64 op1 op2 fpscr = (let
     mode = modeConv fpscr;
     (sgn1, exp1, mnt1, flags) = fp64_unpack op1 mode 0;
     (sgn2, exp2, mnt2, flags) = fp64_unpack op2 mode flags;
     (x, flags) = fp64_process_NaNs op1 op2 mode flags
     in (if x \<noteq> 0 then x
         else if (if sgn1 \<noteq> sgn2 then sgn2 else sgn1 \<noteq> (op1 > op2)) then fp64_repack sgn1 exp1 mnt1
         else fp64_repack sgn2 exp2 mnt2, set_fpscr0 fpscr flags))"

definition fplibMaxNum64 :: "64 word \<Rightarrow> 64 word \<Rightarrow> 32 word \<Rightarrow> 64 word \<times> 32 word" where
  "fplibMaxNum64 op1 op2 fpscr = (let (op1, op2) = fp64_minmaxnum op1 op2 True in fplibMax64 op1 op2 fpscr)"

definition fplibMin64 :: "64 word \<Rightarrow> 64 word \<Rightarrow> 32 word \<Rightarrow> 64 word \<times> 32 word" where
  "fplibMin64 op1 op2 fpscr = (let
     mode = modeConv fpscr;
     (sgn1, exp1, mnt1, flags) = fp64_unpack op1 mode 0;
     (sgn2, exp2, mnt2, flags) = fp64_unpack op2 mode flags;
     (x, flags) = fp64_process_NaNs op1 op2 mode flags
     in (if x \<noteq> 0 then x
         else if (if sgn1 \<noteq> sgn2 then sgn1 else sgn1 \<noteq> (op1 < op2)) then fp64_repack sgn1 exp1 mnt1
         else fp64_repack sgn2 exp2 mnt2, set_fpscr0 fpscr flags))"

definition fplibMinNum64 :: "64 word \<Rightarrow> 64 word \<Rightarrow> 32 word \<Rightarrow> 64 word \<times> 32 word" where
  "fplibMinNum64 op1 op2 fpscr = (let (op1, op2) = fp64_minmaxnum op1 op2 False in fplibMin64 op1 op2 fpscr)"

subsection \<open>Extended multiplication and fused steps\<close>

definition fp32_FPTwo :: "bool \<Rightarrow> 32 word" where
  "fp32_FPTwo sn = fp32_pack (of_bool sn) 128 0"

definition fp32_FPThree :: "bool \<Rightarrow> 32 word" where
  "fp32_FPThree sn = fp32_pack (of_bool sn) 128 (push_bit 22 1)"

definition fp32_FPOnePointFive :: "bool \<Rightarrow> 32 word" where
  "fp32_FPOnePointFive sn = fp32_pack (of_bool sn) 127 (push_bit 22 1)"

definition fplibMulX32 :: "32 word \<Rightarrow> 32 word \<Rightarrow> 32 word \<Rightarrow> (32 word \<times> 32 word) option" where
  "fplibMulX32 op1 op2 fpscr = (let
     mode = modeConv fpscr;
     (sgn1, exp1, mnt1, flags) = fp32_unpack op1 mode 0;
     (sgn2, exp2, mnt2, flags) = fp32_unpack op2 mode flags;
     (result, flags) = fp32_process_NaNs op1 op2 mode flags
     in with_fpscr0 fpscr
       (if result \<noteq> 0 then Some (result, flags)
        else if exp1 = 255 \<and> mnt2 = 0 \<or> exp2 = 255 \<and> mnt1 = 0 then Some (fp32_FPTwo (sgn1 \<noteq> sgn2), flags)
        else if exp1 = 255 \<or> exp2 = 255 then Some (fp32_infinity (sgn1 \<noteq> sgn2), flags)
        else if mnt1 = 0 \<or> mnt2 = 0 then Some (fp32_zero (sgn1 \<noteq> sgn2), flags)
        else fp32_mul op1 op2 mode flags))"

definition fplibRSqrtStepFused32 :: "32 word \<Rightarrow> 32 word \<Rightarrow> 32 word \<Rightarrow> (32 word \<times> 32 word) option" where
  "fplibRSqrtStepFused32 op1 op2 fpscr = (let
     mode = modeConv fpscr;
     op1 = fplibNeg32 op1;
     (sgn1, exp1, mnt1, flags) = fp32_unpack op1 mode 0;
     (sgn2, exp2, mnt2, flags) = fp32_unpack op2 mode flags;
     (result, flags) = fp32_process_NaNs op1 op2 mode flags
     in with_fpscr0 fpscr
       (if result \<noteq> 0 then Some (result, flags)
        else if exp1 = 255 \<and> mnt2 = 0 \<or> exp2 = 255 \<and> mnt1 = 0 then Some (fp32_FPOnePointFive False, flags)
        else if exp1 = 255 \<or> exp2 = 255 then Some (fp32_infinity (sgn1 \<noteq> sgn2), flags)
        else fp32_muladd (fp32_FPThree False) op1 op2 (- 1) mode flags))"

definition fplibRecipStepFused32 :: "32 word \<Rightarrow> 32 word \<Rightarrow> 32 word \<Rightarrow> (32 word \<times> 32 word) option" where
  "fplibRecipStepFused32 op1 op2 fpscr = (let
     mode = modeConv fpscr;
     op1 = fplibNeg32 op1;
     (sgn1, exp1, mnt1, flags) = fp32_unpack op1 mode 0;
     (sgn2, exp2, mnt2, flags) = fp32_unpack op2 mode flags;
     (result, flags) = fp32_process_NaNs op1 op2 mode flags
     in with_fpscr0 fpscr
       (if result \<noteq> 0 then Some (result, flags)
        else if exp1 = 255 \<and> mnt2 = 0 \<or> exp2 = 255 \<and> mnt1 = 0 then Some (fp32_FPTwo False, flags)
        else if exp1 = 255 \<or> exp2 = 255 then Some (fp32_infinity (sgn1 \<noteq> sgn2), flags)
        else fp32_muladd (fp32_FPTwo False) op1 op2 0 mode flags))"

definition fp64_FPTwo :: "bool \<Rightarrow> 64 word" where
  "fp64_FPTwo sn = fp64_pack (of_bool sn) 1024 0"

definition fp64_FPThree :: "bool \<Rightarrow> 64 word" where
  "fp64_FPThree sn = fp64_pack (of_bool sn) 1024 (push_bit 51 1)"

definition fp64_FPOnePointFive :: "bool \<Rightarrow> 64 word" where
  "fp64_FPOnePointFive sn = fp64_pack (of_bool sn) 1023 (push_bit 51 1)"

definition fplibMulX64 :: "64 word \<Rightarrow> 64 word \<Rightarrow> 32 word \<Rightarrow> (64 word \<times> 32 word) option" where
  "fplibMulX64 op1 op2 fpscr = (let
     mode = modeConv fpscr;
     (sgn1, exp1, mnt1, flags) = fp64_unpack op1 mode 0;
     (sgn2, exp2, mnt2, flags) = fp64_unpack op2 mode flags;
     (result, flags) = fp64_process_NaNs op1 op2 mode flags
     in with_fpscr0 fpscr
       (if result \<noteq> 0 then Some (result, flags)
        else if exp1 = 2047 \<and> mnt2 = 0 \<or> exp2 = 2047 \<and> mnt1 = 0 then Some (fp64_FPTwo (sgn1 \<noteq> sgn2), flags)
        else if exp1 = 2047 \<or> exp2 = 2047 then Some (fp64_infinity (sgn1 \<noteq> sgn2), flags)
        else if mnt1 = 0 \<or> mnt2 = 0 then Some (fp64_zero (sgn1 \<noteq> sgn2), flags)
        else fp64_mul op1 op2 mode flags))"

definition fplibRSqrtStepFused64 :: "64 word \<Rightarrow> 64 word \<Rightarrow> 32 word \<Rightarrow> (64 word \<times> 32 word) option" where
  "fplibRSqrtStepFused64 op1 op2 fpscr = (let
     mode = modeConv fpscr;
     op1 = fplibNeg64 op1;
     (sgn1, exp1, mnt1, flags) = fp64_unpack op1 mode 0;
     (sgn2, exp2, mnt2, flags) = fp64_unpack op2 mode flags;
     (result, flags) = fp64_process_NaNs op1 op2 mode flags
     in with_fpscr0 fpscr
       (if result \<noteq> 0 then Some (result, flags)
        else if exp1 = 2047 \<and> mnt2 = 0 \<or> exp2 = 2047 \<and> mnt1 = 0 then Some (fp64_FPOnePointFive False, flags)
        else if exp1 = 2047 \<or> exp2 = 2047 then Some (fp64_infinity (sgn1 \<noteq> sgn2), flags)
        else fp64_muladd (fp64_FPThree False) op1 op2 (- 1) mode flags))"

definition fplibRecipStepFused64 :: "64 word \<Rightarrow> 64 word \<Rightarrow> 32 word \<Rightarrow> (64 word \<times> 32 word) option" where
  "fplibRecipStepFused64 op1 op2 fpscr = (let
     mode = modeConv fpscr;
     op1 = fplibNeg64 op1;
     (sgn1, exp1, mnt1, flags) = fp64_unpack op1 mode 0;
     (sgn2, exp2, mnt2, flags) = fp64_unpack op2 mode flags;
     (result, flags) = fp64_process_NaNs op1 op2 mode flags
     in with_fpscr0 fpscr
       (if result \<noteq> 0 then Some (result, flags)
        else if exp1 = 2047 \<and> mnt2 = 0 \<or> exp2 = 2047 \<and> mnt1 = 0 then Some (fp64_FPTwo False, flags)
        else if exp1 = 2047 \<or> exp2 = 2047 then Some (fp64_infinity (sgn1 \<noteq> sgn2), flags)
        else fp64_muladd (fp64_FPTwo False) op1 op2 0 mode flags))"

subsection \<open>Estimates\<close>

definition recip_sqrt_estimate :: "nat list" where
  "recip_sqrt_estimate = [
    255, 253, 251, 249, 247, 245, 243, 242, 240, 238, 236, 234, 233, 231, 229, 228,
    226, 224, 223, 221, 219, 218, 216, 215, 213, 212, 210, 209, 207, 206, 204, 203,
    201, 200, 198, 197, 196, 194, 193, 192, 190, 189, 188, 186, 185, 184, 183, 181,
    180, 179, 178, 176, 175, 174, 173, 172, 170, 169, 168, 167, 166, 165, 164, 163,
    162, 160, 159, 158, 157, 156, 155, 154, 153, 152, 151, 150, 149, 148, 147, 146,
    145, 144, 143, 142, 141, 140, 140, 139, 138, 137, 136, 135, 134, 133, 132, 131,
    131, 130, 129, 128, 127, 126, 126, 125, 124, 123, 122, 121, 121, 120, 119, 118,
    118, 117, 116, 115, 114, 114, 113, 112, 111, 111, 110, 109, 109, 108, 107, 106,
    105, 104, 103, 101, 100, 99, 97, 96, 95, 93, 92, 91, 90, 88, 87, 86,
    85, 84, 82, 81, 80, 79, 78, 77, 76, 75, 74, 72, 71, 70, 69, 68,
    67, 66, 65, 64, 63, 62, 61, 60, 60, 59, 58, 57, 56, 55, 54, 53,
    52, 51, 51, 50, 49, 48, 47, 46, 46, 45, 44, 43, 42, 42, 41, 40,
    39, 38, 38, 37, 36, 35, 35, 34, 33, 33, 32, 31, 30, 30, 29, 28,
    28, 27, 26, 26, 25, 24, 24, 23, 22, 22, 21, 20, 20, 19, 19, 18,
    17, 17, 16, 16, 15, 14, 14, 13, 13, 12, 11, 11, 10, 10, 9, 9,
    8, 8, 7, 6, 6, 5, 5, 4, 4, 3, 3, 2, 2, 1, 1, 0]"

definition fplibRSqrtEstimate32 :: "32 word \<Rightarrow> 32 word \<Rightarrow> (32 word \<times> 32 word) option" where
  "fplibRSqrtEstimate32 op1 fpscr = (let
     mode = modeConv fpscr;
     (sn, ex, mnt, flags) = fp32_unpack op1 mode 0
     in with_fpscr0 fpscr
       (if ex = 255 \<and> push_bit 9 mnt \<noteq> 0 then Some (fp32_process_NaN op1 mode flags)
        else if mnt = 0 then Some (fp32_infinity sn, flags OR FPLIB_DZC)
        else if sn then Some (fp32_defaultNaN, flags OR FPLIB_IOC)
        else if ex = 255 then Some (fp32_zero False, flags)
        else do {
          let (mnt, ex) = fp32_normalise mnt (ex + 8);
          v \<leftarrow> rd recip_sqrt_estimate ((if even ex then 128 else 0) + unat (drop_bit 24 mnt AND 127));
          Some (fp32_pack 0 (word_of_int ((380 - ex) div 2)) (push_bit 15 (word_of_nat v)), flags)
        }))"

definition fplibRSqrtEstimate64 :: "64 word \<Rightarrow> 32 word \<Rightarrow> (64 word \<times> 32 word) option" where
  "fplibRSqrtEstimate64 op1 fpscr = (let
     mode = modeConv fpscr;
     (sn, ex, mnt, flags) = fp64_unpack op1 mode 0
     in with_fpscr0 fpscr
       (if ex = 2047 \<and> push_bit 12 mnt \<noteq> 0 then Some (fp64_process_NaN op1 mode flags)
        else if mnt = 0 then Some (fp64_infinity sn, flags OR FPLIB_DZC)
        else if sn then Some (fp64_defaultNaN, flags OR FPLIB_IOC)
        else if ex = 2047 then Some (ucast (fp32_zero False), flags)
        else do {
          let (mnt, ex) = fp64_normalise mnt (ex + 11);
          v \<leftarrow> rd recip_sqrt_estimate ((if even ex then 128 else 0) + unat (drop_bit 56 mnt AND 127));
          Some (fp64_pack 0 (word_of_int ((3068 - ex) div 2)) (push_bit 44 (word_of_nat v)), flags)
        }))"

definition fplibRecipEstimate32 :: "32 word \<Rightarrow> 32 word \<Rightarrow> (32 word \<times> 32 word) option" where
  "fplibRecipEstimate32 op1 fpscr = (let
     mode = modeConv fpscr;
     (sn, ex, mnt, flags) = fp32_unpack op1 mode 0
     in with_fpscr0 fpscr
       (if ex = 255 \<and> push_bit 9 mnt \<noteq> 0 then Some (fp32_process_NaN op1 mode flags)
        else if ex = 255 then Some (fp32_zero sn, flags)
        else if mnt = 0 then Some (fp32_infinity sn, flags OR FPLIB_DZC)
        else if drop_bit 22 (push_bit 1 op1) = 0 then
          Some (if overflow_to_inf (FPCRRounding fpscr) sn then fp32_infinity sn else fp32_max_normal sn, flags OR FPLIB_OFC OR FPLIB_IXC)
        else if fpscr_fz fpscr \<and> ex \<ge> 253 then Some (fp32_zero sn, flags OR FPLIB_UFC)
        else do {
          let (mnt, ex) = fp32_normalise mnt (ex + 8);
          let result_exp = 253 - ex;
          q \<leftarrow> div_c (push_bit 19 1) (drop_bit 22 mnt OR 1);
          let fraction = push_bit 15 (drop_bit 1 (q + 1));
          let (fraction, result_exp) =
            (if result_exp = 0 then (drop_bit 1 fraction, result_exp)
             else if result_exp = - 1 then (drop_bit 2 fraction, 0)
             else (fraction, result_exp));
          Some (fp32_pack (of_bool sn) (word_of_int result_exp) fraction, flags)
        }))"

definition fplibRecipEstimate64 :: "64 word \<Rightarrow> 32 word \<Rightarrow> (64 word \<times> 32 word) option" where
  "fplibRecipEstimate64 op1 fpscr = (let
     mode = modeConv fpscr;
     (sn, ex, mnt, flags) = fp64_unpack op1 mode 0
     in with_fpscr0 fpscr
       (if ex = 2047 \<and> push_bit 12 mnt \<noteq> 0 then Some (fp64_process_NaN op1 mode flags)
        else if ex = 2047 then Some (fp64_zero sn, flags)
        else if mnt = 0 then Some (fp64_infinity sn, flags OR FPLIB_DZC)
        else if drop_bit 51 (push_bit 1 op1) = 0 then
          Some (if overflow_to_inf (FPCRRounding fpscr) sn then fp64_infinity sn else fp64_max_normal sn, flags OR FPLIB_OFC OR FPLIB_IXC)
        else if fpscr_fz fpscr \<and> ex \<ge> 2045 then Some (fp64_zero sn, flags OR FPLIB_UFC)
        else do {
          let (mnt, ex) = fp64_normalise mnt (ex + 11);
          let result_exp = 2045 - ex;
          q \<leftarrow> div_c (push_bit 19 1) (drop_bit 54 mnt OR 1);
          let fraction = push_bit 44 (drop_bit 1 (q + 1));
          let (fraction, result_exp) =
            (if result_exp = 0 then (drop_bit 1 fraction, result_exp)
             else if result_exp = - 1 then (drop_bit 2 fraction, 0)
             else (fraction, result_exp));
          Some (fp64_pack (of_bool sn) (word_of_int result_exp) fraction, flags)
        }))"

definition fplibRecpX32 :: "32 word \<Rightarrow> 32 word \<Rightarrow> 32 word \<times> 32 word" where
  "fplibRecpX32 op1 fpscr = (let
     mode = modeConv fpscr;
     (sn, ex, mnt, flags) = fp32_unpack op1 mode 0;
     (result, flags) =
       (if ex = 255 \<and> push_bit 9 mnt \<noteq> 0 then fp32_process_NaN op1 mode flags
        else if mnt = 0 then (fp32_pack (of_bool sn) 254 0, flags)
        else (fp32_pack (of_bool sn) (word_of_int ex XOR 255) 0, flags))
     in (result, set_fpscr0 fpscr flags))"

definition fplibRecpX64 :: "64 word \<Rightarrow> 32 word \<Rightarrow> 64 word \<times> 32 word" where
  "fplibRecpX64 op1 fpscr = (let
     mode = modeConv fpscr;
     (sn, ex, mnt, flags) = fp64_unpack op1 mode 0;
     (result, flags) =
       (if ex = 2047 \<and> push_bit 12 mnt \<noteq> 0 then fp64_process_NaN op1 mode flags
        else if mnt = 0 then (fp64_pack (of_bool sn) 2046 0, flags)
        else (fp64_pack (of_bool sn) (word_of_int ex XOR 2047) 0, flags))
     in (result, set_fpscr0 fpscr flags))"

subsection \<open>Rounding to integers\<close>

text \<open>The increment of the \<^verbatim>\<open>switch (rounding)\<close> of the conversions to integers; another rounding mode fails an assertion.\<close>

definition round_increment :: "32 word \<Rightarrow> bool \<Rightarrow> 'a::len word \<Rightarrow> 'a word \<Rightarrow> 'a word option" where
  "round_increment rounding sn err x =
     (if rounding = FPRounding_TIEEVEN then Some (of_bool (err = 3 \<or> err = 2 \<and> x AND 1 \<noteq> 0))
      else if rounding = FPRounding_POSINF then Some (of_bool (err \<noteq> 0 \<and> \<not> sn))
      else if rounding = FPRounding_NEGINF then Some (of_bool (err \<noteq> 0 \<and> sn))
      else if rounding = FPRounding_ZERO then Some 0
      else if rounding = FPRounding_TIEAWAY then Some (drop_bit 1 err)
      else None)"

definition fplibRoundInt32 :: "32 word \<Rightarrow> 32 word \<Rightarrow> bool \<Rightarrow> 32 word \<Rightarrow> (32 word \<times> 32 word) option" where
  "fplibRoundInt32 op1 rounding exact fpscr = (let
     mode = modeConv fpscr;
     (sn, ex, mnt, flags) = fp32_unpack op1 mode 0
     in with_fpscr0 fpscr
       (if ex = 255 \<and> push_bit 9 mnt \<noteq> 0 then Some (fp32_process_NaN op1 mode flags)
        else if ex = 255 then Some (fp32_infinity sn, flags)
        else if mnt = 0 then Some (fp32_zero sn, flags)
        else if ex \<ge> 150 then Some (op1, flags)
        else do {
          let x = (if 150 - ex \<ge> 32 then 0 else drop_bit (nat (150 - ex)) mnt);
          let err = (if ex < 118 then 1
            else (drop_bit (nat (149 - ex)) (push_bit 1 mnt) AND 3) OR of_bool (push_bit (nat (ex - 118)) (push_bit 2 mnt) \<noteq> 0));
          inc \<leftarrow> round_increment rounding sn err x;
          let x = x + inc;
          let result =
            (if x = 0 then fp32_zero sn
             else let (mnt, ex) = fp32_normalise x 150
               in fp32_pack (of_bool sn) (word_of_int (ex + 8)) (drop_bit 8 mnt));
          Some (result, if err \<noteq> 0 \<and> exact then flags OR FPLIB_IXC else flags)
        }))"

definition fplibRoundInt64 :: "64 word \<Rightarrow> 32 word \<Rightarrow> bool \<Rightarrow> 32 word \<Rightarrow> (64 word \<times> 32 word) option" where
  "fplibRoundInt64 op1 rounding exact fpscr = (let
     mode = modeConv fpscr;
     (sn, ex, mnt, flags) = fp64_unpack op1 mode 0
     in with_fpscr0 fpscr
       (if ex = 2047 \<and> push_bit 12 mnt \<noteq> 0 then Some (fp64_process_NaN op1 mode flags)
        else if ex = 2047 then Some (fp64_infinity sn, flags)
        else if mnt = 0 then Some (fp64_zero sn, flags)
        else if ex \<ge> 1075 then Some (op1, flags)
        else do {
          let x = (if 1075 - ex \<ge> 64 then 0 else drop_bit (nat (1075 - ex)) mnt);
          let err = (if ex < 1011 then 1
            else (drop_bit (nat (1074 - ex)) (push_bit 1 mnt) AND 3) OR of_bool (push_bit (nat (ex - 1011)) (push_bit 2 mnt) \<noteq> 0));
          inc \<leftarrow> round_increment rounding sn err x;
          let x = x + inc;
          let result =
            (if x = 0 then fp64_zero sn
             else let (mnt, ex) = fp64_normalise x 1075
               in fp64_pack (of_bool sn) (word_of_int (ex + 11)) (drop_bit 11 mnt));
          Some (result, if err \<noteq> 0 \<and> exact then flags OR FPLIB_IXC else flags)
        }))"

subsection \<open>Floats and fixed-point numbers\<close>

definition FPToFixed_64 :: "bool \<Rightarrow> int \<Rightarrow> 64 word \<Rightarrow> bool \<Rightarrow> 32 word \<Rightarrow> 32 word \<Rightarrow> (64 word \<times> 32 word) option" where
  "FPToFixed_64 sn ex mnt u rounding flags =
     (if ex > 1023 + 63 then Some (push_bit 63 (of_bool (\<not> u)) - of_bool (\<not> sn), FPLIB_IOC)
      else do {
        let x = lsr64 (push_bit 11 mnt) (nat (1023 + 63 - ex));
        let err = (if ex > 1023 + 63 - 2 then 0
          else (lsr64 (push_bit 11 mnt) (nat (1023 + 63 - 2 - ex)) AND 3) OR
            of_bool (push_bit 11 mnt AND (lsl64 1 (nat (1023 + 63 - 2 - ex)) - 1) \<noteq> 0));
        inc \<leftarrow> round_increment rounding sn err x;
        let x = x + inc;
        if (if u then sn \<and> x \<noteq> 0 else x > push_bit 63 1 - of_bool (\<not> sn)) then
          Some (push_bit 63 (of_bool (\<not> u)) - of_bool (\<not> sn), FPLIB_IOC)
        else Some (if sn then - x else x, if err \<noteq> 0 then FPLIB_IXC else flags)
      })"

definition FPToFixed_32 :: "bool \<Rightarrow> int \<Rightarrow> 64 word \<Rightarrow> bool \<Rightarrow> 32 word \<Rightarrow> 32 word \<Rightarrow> (32 word \<times> 32 word) option" where
  "FPToFixed_32 sn ex mnt u rounding flags = do {
     (x, flags) \<leftarrow> FPToFixed_64 sn ex mnt u rounding flags;
     if (if u then x \<ge> push_bit 32 1 else \<not> (x < push_bit 31 1 \<or> - x \<le> push_bit 31 1)) then
       Some (push_bit 31 (of_bool (\<not> u)) - of_bool (\<not> sn), FPLIB_IOC)
     else Some (ucast x, flags)
   }"

definition fplibFPToFixed32_32 :: "32 word \<Rightarrow> int \<Rightarrow> bool \<Rightarrow> 32 word \<Rightarrow> 32 word \<Rightarrow> (32 word \<times> 32 word) option" where
  "fplibFPToFixed32_32 op1 fbits u rounding fpscr = (let
     (sn, ex, mnt, flags) = fp32_unpack op1 (modeConv fpscr) 0
     in with_fpscr0 fpscr
       (if ex = 255 \<and> push_bit 9 mnt \<noteq> 0 then Some (0, FPLIB_IOC)
        else FPToFixed_32 sn (ex + 1023 - 127 + fbits) (push_bit (52 - 23) (ucast mnt)) u rounding flags))"

definition fplibFPToFixed64_32 :: "64 word \<Rightarrow> int \<Rightarrow> bool \<Rightarrow> 32 word \<Rightarrow> 32 word \<Rightarrow> (32 word \<times> 32 word) option" where
  "fplibFPToFixed64_32 op1 fbits u rounding fpscr = (let
     (sn, ex, mnt, flags) = fp64_unpack op1 (modeConv fpscr) 0
     in with_fpscr0 fpscr
       (if ex = 2047 \<and> push_bit 12 mnt \<noteq> 0 then Some (0, FPLIB_IOC)
        else FPToFixed_32 sn (ex + fbits) mnt u rounding flags))"

definition fplibFPToFixed32_64 :: "32 word \<Rightarrow> int \<Rightarrow> bool \<Rightarrow> 32 word \<Rightarrow> 32 word \<Rightarrow> (64 word \<times> 32 word) option" where
  "fplibFPToFixed32_64 op1 fbits u rounding fpscr = (let
     (sn, ex, mnt, flags) = fp32_unpack op1 (modeConv fpscr) 0
     in with_fpscr0 fpscr
       (if ex = 255 \<and> push_bit 9 mnt \<noteq> 0 then Some (0, FPLIB_IOC)
        else FPToFixed_64 sn (ex + 1023 - 127 + fbits) (push_bit (52 - 23) (ucast mnt)) u rounding flags))"

definition fplibFPToFixed64_64 :: "64 word \<Rightarrow> int \<Rightarrow> bool \<Rightarrow> 32 word \<Rightarrow> 32 word \<Rightarrow> (64 word \<times> 32 word) option" where
  "fplibFPToFixed64_64 op1 fbits u rounding fpscr = (let
     (sn, ex, mnt, flags) = fp64_unpack op1 (modeConv fpscr) 0
     in with_fpscr0 fpscr
       (if ex = 2047 \<and> push_bit 12 mnt \<noteq> 0 then Some (0, FPLIB_IOC)
        else FPToFixed_64 sn (ex + fbits) mnt u rounding flags))"

definition fplibFixedToFP32 :: "64 word \<Rightarrow> int \<Rightarrow> bool \<Rightarrow> 32 word \<Rightarrow> 32 word \<Rightarrow> (32 word \<times> 32 word) option" where
  "fplibFixedToFP32 op1 fbits u rounding fpscr =
     with_fpscr0 fpscr (fp32_cvtf op1 fbits u (rounding OR (drop_bit 22 fpscr AND 12)) 0)"

definition fplibFixedToFP64 :: "64 word \<Rightarrow> int \<Rightarrow> bool \<Rightarrow> 32 word \<Rightarrow> 32 word \<Rightarrow> (64 word \<times> 32 word) option" where
  "fplibFixedToFP64 op1 fbits u rounding fpscr =
     with_fpscr0 fpscr (fp64_cvtf op1 fbits u (rounding OR (drop_bit 22 fpscr AND 12)) 0)"

subsection \<open>Conversion of precision\<close>

definition fp16_FPConvertNaN_32 :: "32 word \<Rightarrow> 16 word" where
  "fp16_FPConvertNaN_32 op1 = fp16_pack (ucast (drop_bit 31 op1)) 31 (push_bit 9 1 OR ucast (drop_bit 13 op1))"

definition fp16_FPConvertNaN_64 :: "64 word \<Rightarrow> 16 word" where
  "fp16_FPConvertNaN_64 op1 = fp16_pack (ucast (drop_bit 63 op1)) 31 (push_bit 9 1 OR ucast (drop_bit 42 op1))"

definition fp32_FPConvertNaN_16 :: "16 word \<Rightarrow> 32 word" where
  "fp32_FPConvertNaN_16 op1 = fp32_pack (ucast (drop_bit 15 op1)) 255 (push_bit 22 1 OR push_bit 13 (ucast op1))"

definition fp32_FPConvertNaN_64 :: "64 word \<Rightarrow> 32 word" where
  "fp32_FPConvertNaN_64 op1 = fp32_pack (ucast (drop_bit 63 op1)) 255 (push_bit 22 1 OR ucast (drop_bit 29 op1))"

definition fp64_FPConvertNaN_16 :: "16 word \<Rightarrow> 64 word" where
  "fp64_FPConvertNaN_16 op1 = fp64_pack (ucast (drop_bit 15 op1)) 2047 (push_bit 51 1 OR push_bit 42 (ucast op1))"

definition fp64_FPConvertNaN_32 :: "32 word \<Rightarrow> 64 word" where
  "fp64_FPConvertNaN_32 op1 = fp64_pack (ucast (drop_bit 31 op1)) 2047 (push_bit 51 1 OR push_bit 29 (ucast op1))"

definition fplibConvert32_16 :: "32 word \<Rightarrow> 32 word \<Rightarrow> 32 word \<Rightarrow> (16 word \<times> 32 word) option" where
  "fplibConvert32_16 op1 rounding fpscr = (let
     mode = modeConv fpscr;
     (sn, ex, mnt, flags) = fp32_unpack op1 mode 0;
     alt_hp = fpscr_ahp fpscr
     in with_fpscr0 fpscr
       (if ex = 255 \<and> push_bit 9 mnt \<noteq> 0 then
          Some (if alt_hp then fp16_zero sn else if fpscr_dn fpscr then fp16_defaultNaN else fp16_FPConvertNaN_32 op1,
            if drop_bit 22 mnt AND 1 = 0 \<or> alt_hp then flags OR FPLIB_IOC else flags)
        else if ex = 255 then
          (if alt_hp then Some (push_bit 15 (of_bool sn) OR 0x7fff, flags OR FPLIB_IOC) else Some (fp16_infinity sn, flags))
        else if mnt = 0 then Some (fp16_zero sn, flags)
        else fp16_round_rm sn (ex - 127 + 15) (ucast (drop_bit 7 mnt OR of_bool (push_bit 25 mnt \<noteq> 0)))
          rounding (mode OR push_bit 4 (of_bool alt_hp)) flags))"

definition fplibConvert64_16 :: "64 word \<Rightarrow> 32 word \<Rightarrow> 32 word \<Rightarrow> (16 word \<times> 32 word) option" where
  "fplibConvert64_16 op1 rounding fpscr = (let
     mode = modeConv fpscr;
     (sn, ex, mnt, flags) = fp64_unpack op1 mode 0;
     alt_hp = fpscr_ahp fpscr
     in with_fpscr0 fpscr
       (if ex = 2047 \<and> push_bit 12 mnt \<noteq> 0 then
          Some (if alt_hp then fp16_zero sn else if fpscr_dn fpscr then fp16_defaultNaN else fp16_FPConvertNaN_64 op1,
            if drop_bit 51 mnt AND 1 = 0 \<or> alt_hp then flags OR FPLIB_IOC else flags)
        else if ex = 2047 then
          (if alt_hp then Some (push_bit 15 (of_bool sn) OR 0x7fff, flags OR FPLIB_IOC) else Some (fp16_infinity sn, flags))
        else if mnt = 0 then Some (fp16_zero sn, flags)
        else fp16_round_rm sn (ex - 1023 + 15) (ucast (drop_bit 36 mnt OR of_bool (push_bit 28 mnt \<noteq> 0)))
          rounding (mode OR push_bit 4 (of_bool alt_hp)) flags))"

definition fplibConvert16_32 :: "16 word \<Rightarrow> 32 word \<Rightarrow> 32 word \<times> 32 word" where
  "fplibConvert16_32 op1 fpscr = (let
     mode = modeConv fpscr;
     (sn, ex, mnt, flags) = fp16_unpack op1 mode 0;
     (result, flags) =
       (if ex = 31 \<and> \<not> fpscr_ahp fpscr \<and> push_bit 6 mnt \<noteq> 0 then
          (if fpscr_dn fpscr then fp32_defaultNaN else fp32_FPConvertNaN_16 op1,
           if drop_bit 9 mnt AND 1 = 0 then flags OR FPLIB_IOC else flags)
        else if ex = 31 \<and> \<not> fpscr_ahp fpscr then (fp32_infinity sn, flags)
        else if mnt = 0 then (fp32_zero sn, flags)
        else let (mnt, ex) = fp16_normalise mnt ex
          in (fp32_pack (of_bool sn) (word_of_int (ex - 15 + 127 + 5)) (push_bit 8 (ucast mnt)), flags))
     in (result, set_fpscr0 fpscr flags))"

definition fplibConvert16_64 :: "16 word \<Rightarrow> 32 word \<Rightarrow> 64 word \<times> 32 word" where
  "fplibConvert16_64 op1 fpscr = (let
     mode = modeConv fpscr;
     (sn, ex, mnt, flags) = fp16_unpack op1 mode 0;
     (result, flags) =
       (if ex = 31 \<and> \<not> fpscr_ahp fpscr \<and> push_bit 6 mnt \<noteq> 0 then
          (if fpscr_dn fpscr then fp64_defaultNaN else fp64_FPConvertNaN_16 op1,
           if drop_bit 9 mnt AND 1 = 0 then flags OR FPLIB_IOC else flags)
        else if ex = 31 \<and> \<not> fpscr_ahp fpscr then (fp64_infinity sn, flags)
        else if mnt = 0 then (fp64_zero sn, flags)
        else let (mnt, ex) = fp16_normalise mnt ex
          in (fp64_pack (of_bool sn) (word_of_int (ex - 15 + 1023 + 5)) (push_bit 37 (ucast mnt)), flags))
     in (result, set_fpscr0 fpscr flags))"

definition fplibConvert64_32 :: "64 word \<Rightarrow> 32 word \<Rightarrow> 32 word \<Rightarrow> (32 word \<times> 32 word) option" where
  "fplibConvert64_32 op1 rounding fpscr = (let
     mode = modeConv fpscr;
     (sn, ex, mnt, flags) = fp64_unpack op1 mode 0
     in with_fpscr0 fpscr
       (if ex = 2047 \<and> push_bit 12 mnt \<noteq> 0 then
          Some (if fpscr_dn fpscr then fp32_defaultNaN else fp32_FPConvertNaN_64 op1,
            if drop_bit 51 mnt AND 1 = 0 then flags OR FPLIB_IOC else flags)
        else if ex = 2047 then Some (fp32_infinity sn, flags)
        else if mnt = 0 then Some (fp32_zero sn, flags)
        else fp32_round_rm sn (ex - 1023 + 127) (ucast (drop_bit 20 mnt OR of_bool (push_bit 44 mnt \<noteq> 0))) rounding mode flags))"

definition fplibConvert32_64 :: "32 word \<Rightarrow> 32 word \<Rightarrow> 64 word \<times> 32 word" where
  "fplibConvert32_64 op1 fpscr = (let
     mode = modeConv fpscr;
     (sn, ex, mnt, flags) = fp32_unpack op1 mode 0;
     (result, flags) =
       (if ex = 255 \<and> push_bit 9 mnt \<noteq> 0 then
          (if fpscr_dn fpscr then fp64_defaultNaN else fp64_FPConvertNaN_32 op1,
           if drop_bit 22 mnt AND 1 = 0 then flags OR FPLIB_IOC else flags)
        else if ex = 255 then (fp64_infinity sn, flags)
        else if mnt = 0 then (fp64_zero sn, flags)
        else let (mnt, ex) = fp32_normalise mnt ex
          in (fp64_pack (of_bool sn) (word_of_int (ex - 127 + 1023 + 8)) (push_bit 21 (ucast mnt)), flags))
     in (result, set_fpscr0 fpscr flags))"

end
