(* ===== verification/TiC_FP_Total.thy ===== *)
theory TiC_FP_Total
  imports TiC_FP_Sqrt_Double TiC_FP_Lib
begin

text \<open>
  The arithmetic of the floating-point library never fails: rounding is only called with the modes of the FPSCR, and no division
  of a quotient or of a root has a zero divisor, for any bit patterns of the operands.
\<close>

lemma round_total: "fp32_round sn ex m mode flags \<noteq> None" "fp64_round sn ex m' mode flags \<noteq> None"
  unfolding fp32_round_def fp64_round_def fp32_round_rm_def fp64_round_rm_def
  by (simp_all add: assert_c_def and_3_not_tieaway Let_def split_beta)

lemma case_not_None: "(\<And>x y. p = (x, y) \<Longrightarrow> f x y \<noteq> None) \<Longrightarrow> (case p of (x, y) \<Rightarrow> f x y) \<noteq> None"
  by (cases p) simp

lemma if_not_None: "(c \<Longrightarrow> x \<noteq> None) \<Longrightarrow> (\<not> c \<Longrightarrow> y \<noteq> None) \<Longrightarrow> (if c then x else y) \<noteq> None"
  by simp

lemmas not_None = case_not_None if_not_None option.distinct(2)

lemma add_total: "fp32_add a b neg mode flags \<noteq> None" "fp64_add c d neg mode flags \<noteq> None"
  unfolding fp32_add_def fp64_add_def Let_def by (intro not_None round_total)+

lemma mul_total: "fp32_mul a b mode flags \<noteq> None" "fp64_mul c d mode flags \<noteq> None"
  unfolding fp32_mul_def fp64_mul_def Let_def by (intro not_None round_total)+

lemma muladd_total: "fp32_muladd a b c k mode flags \<noteq> None" "fp64_muladd d e f k mode flags \<noteq> None"
  unfolding fp32_muladd_def fp64_muladd_def Let_def by (intro not_None round_total)+

lemma cvtf_total: "fp32_cvtf a fbits u mode flags \<noteq> None" "fp64_cvtf a fbits u mode flags \<noteq> None"
  unfolding fp32_cvtf_def fp64_cvtf_def Let_def by (intro not_None round_total)+

lemma hidden_bit:
  fixes m :: "'a::len word"
  assumes "P + 1 < LENGTH('a)"
  shows "unat (m AND (push_bit P 1 - 1)) < 2 ^ (P + 1)" "unat ((m AND (push_bit P 1 - 1)) OR push_bit P 1) < 2 ^ (P + 1)"
proof -
  have mask: "push_bit P 1 - 1 = (mask P :: 'a word)" by (simp add: mask_eq_exp_minus_1)
  have low: "unat (m AND mask P) < 2 ^ P" by (simp add: unat_and_mask)
  have top: "unat (push_bit P (1 :: 'a word)) = 1 * 2 ^ P" using assms by (subst unat_push_small) simp_all
  show "unat (m AND (push_bit P 1 - 1)) < 2 ^ (P + 1)" unfolding mask by (rule less_le_trans [OF low]) simp
  have "unat (push_bit P 1 OR (m AND mask P)) = 2 ^ P + unat (m AND mask P)" using unat_or_split [OF top low] top by simp
  then show "unat ((m AND (push_bit P 1 - 1)) OR push_bit P 1) < 2 ^ (P + 1)" using low by (simp only: mask or.commute [of "m AND mask P"]) simp
qed

lemma unpack_mantissa:
  "fp32_unpack x mode flags = (sn, e, m, f) \<Longrightarrow> unat m < 2 ^ (23 + 1)" "fp64_unpack x' mode flags = (sn, e, m', f) \<Longrightarrow> unat m' < 2 ^ (52 + 1)"
  using hidden_bit [of 23 x] hidden_bit [of 52 x'] by (auto simp: fp32_unpack_def fp64_unpack_def Let_def split: if_splits)

lemma bind_round_total:
  assumes "\<exists>m ex. r = Some (m, ex)"
  shows "(do { (x_mnt, x_exp) \<leftarrow> r; fp32_round_rm sn x_exp x_mnt (mode AND 3) mode flags }) \<noteq> None"
  using assms round_total(1) [of sn _ _ mode flags] by (auto simp: fp32_round_def)

lemma bind_round_total':
  assumes "\<exists>m ex. r = Some (m, ex)"
  shows "(do { (x_mnt, x_exp) \<leftarrow> r; fp64_round_rm sn x_exp x_mnt (mode AND 3) mode flags }) \<noteq> None"
  using assms round_total(2) [of sn _ _ mode flags] by (auto simp: fp64_round_def)

lemma quotient_total:
  "a \<noteq> 0 \<Longrightarrow> b \<noteq> 0 \<Longrightarrow> unat a < 2 ^ (23 + 1) \<Longrightarrow> unat b < 2 ^ (23 + 1) \<Longrightarrow> \<exists>m ex. quotient32 a b ea eb = Some (m, ex)"
  "c \<noteq> 0 \<Longrightarrow> d \<noteq> 0 \<Longrightarrow> unat c < 2 ^ (52 + 1) \<Longrightarrow> unat d < 2 ^ (52 + 1) \<Longrightarrow> \<exists>m ex. quotient64 c d ea eb = Some (m, ex)"
  using quotient32_spec [of a b ea eb] quotient64_spec [of c d ea eb] by blast+

lemma root_total:
  "a \<noteq> 0 \<Longrightarrow> unat a < 2 ^ (23 + 1) \<Longrightarrow> \<exists>m ex. root32 a e = Some (m, ex)"
  "b \<noteq> 0 \<Longrightarrow> unat b < 2 ^ (52 + 1) \<Longrightarrow> \<exists>m ex. root64 b e = Some (m, ex)"
  using root32_spec [of a e] root64_spec [of b e] by blast+

lemma unpack_cases:
  obtains sn e m f where "fp32_unpack x mode flags = (sn, e, m, f)" "unat m < 2 ^ (23 + 1)"
  using unpack_mantissa(1) by (metis prod_cases4)

lemma unpack_cases':
  obtains sn e m f where "fp64_unpack x mode flags = (sn, e, m, f)" "unat m < 2 ^ (52 + 1)"
  using unpack_mantissa(2) by (metis prod_cases4)

lemma div32_total: "fp32_div a b mode flags \<noteq> None"
proof -
  obtain sa ea ma fa where a: "fp32_unpack a mode flags = (sa, ea, ma, fa)" "unat ma < 2 ^ (23 + 1)" by (rule unpack_cases)
  obtain sb eb mb fb where b: "fp32_unpack b mode fa = (sb, eb, mb, fb)" "unat mb < 2 ^ (23 + 1)" by (rule unpack_cases)
  show ?thesis unfolding single.divide_eq a(1) b(1) Let_def prod.case
    by (intro not_None bind_round_total quotient_total(1) a(2) b(2)) simp_all
qed

lemma div64_total: "fp64_div a b mode flags \<noteq> None"
proof -
  obtain sa ea ma fa where a: "fp64_unpack a mode flags = (sa, ea, ma, fa)" "unat ma < 2 ^ (52 + 1)" by (rule unpack_cases')
  obtain sb eb mb fb where b: "fp64_unpack b mode fa = (sb, eb, mb, fb)" "unat mb < 2 ^ (52 + 1)" by (rule unpack_cases')
  show ?thesis unfolding double.divide_eq a(1) b(1) Let_def prod.case
    by (intro not_None bind_round_total' quotient_total(2) a(2) b(2)) simp_all
qed

lemma sqrt_total: "fp32_sqrt a mode flags \<noteq> None" "fp64_sqrt b mode flags \<noteq> None"
proof -
  obtain sa ea ma fa where a: "fp32_unpack a mode flags = (sa, ea, ma, fa)" "unat ma < 2 ^ (23 + 1)" by (rule unpack_cases)
  show "fp32_sqrt a mode flags \<noteq> None" unfolding single.square_root_eq a(1) Let_def prod.case
    by (intro not_None bind_round_total root_total(1) a(2)) simp_all
  obtain sb eb mb fb where b: "fp64_unpack b mode flags = (sb, eb, mb, fb)" "unat mb < 2 ^ (52 + 1)" by (rule unpack_cases')
  show "fp64_sqrt b mode flags \<noteq> None" unfolding double.square_root_eq b(1) Let_def prod.case
    by (intro not_None bind_round_total' root_total(2) b(2)) simp_all
qed

subsection \<open>The other operations\<close>

lemma with_fpscr_total: "r \<noteq> None \<Longrightarrow> with_fpscr0 s r \<noteq> None"
  by (simp add: with_fpscr0_def)

lemma mulx_total: "fplibMulX32 a b s \<noteq> None" "fplibMulX64 c d s \<noteq> None"
  unfolding fplibMulX32_def fplibMulX64_def Let_def by (intro not_None with_fpscr_total mul_total)+

lemma rsqrt_step_total: "fplibRSqrtStepFused32 a b s \<noteq> None" "fplibRSqrtStepFused64 c d s \<noteq> None"
  unfolding fplibRSqrtStepFused32_def fplibRSqrtStepFused64_def Let_def by (intro not_None with_fpscr_total muladd_total)+

lemma recip_step_total: "fplibRecipStepFused32 a b s \<noteq> None" "fplibRecipStepFused64 c d s \<noteq> None"
  unfolding fplibRecipStepFused32_def fplibRecipStepFused64_def Let_def by (intro not_None with_fpscr_total muladd_total)+

text \<open>The table of estimates has 256 entries, and the divisor of an estimate is odd.\<close>

lemma estimate_index:
  fixes m :: "'a::len word"
  assumes "7 < LENGTH('a)"
  shows "\<exists>v. rd recip_sqrt_estimate ((if b then 128 else 0) + unat (m AND 127)) = Some v"
proof -
  have "m AND 127 = m AND mask 7" by (simp add: mask_eq_exp_minus_1)
  then have "unat (m AND 127) < 2 ^ 7" using assms by (simp only: unat_and_mask) simp
  moreover have "length recip_sqrt_estimate = 256" by (simp add: recip_sqrt_estimate_def)
  ultimately show ?thesis by (simp add: rd_def)
qed

lemma or_1_not_zero: "x OR 1 \<noteq> (0 :: 'a::len word)"
proof
  assume "x OR 1 = 0"
  then have "\<not> bit (x OR 1) 0" by simp
  then show False by (simp add: bit_simps)
qed

lemma rsqrt_estimate_total: "fplibRSqrtEstimate32 a s \<noteq> None" "fplibRSqrtEstimate64 c s \<noteq> None"
proof -
  have bind: "\<exists>v. r = Some v \<Longrightarrow> (do { v \<leftarrow> r; Some (f v) }) \<noteq> None" for r :: "nat option" and f :: "nat \<Rightarrow> 'z" by auto
  show "fplibRSqrtEstimate32 a s \<noteq> None" "fplibRSqrtEstimate64 c s \<noteq> None"
    unfolding fplibRSqrtEstimate32_def fplibRSqrtEstimate64_def Let_def
    by (intro not_None with_fpscr_total bind estimate_index; simp)+
qed

lemma recip_estimate_total: "fplibRecipEstimate32 a s \<noteq> None" "fplibRecipEstimate64 c s \<noteq> None"
  unfolding fplibRecipEstimate32_def fplibRecipEstimate64_def Let_def div_c_def
  by (intro not_None with_fpscr_total; simp add: or_1_not_zero split_beta)+

text \<open>The rounding modes that the instructions pass are the four of the FPSCR and ties away from zero.\<close>

lemma round_increment_total:
  assumes "rm \<le> FPRounding_TIEAWAY"
  shows "\<exists>v. round_increment rm sn err x = Some v"
proof -
  have "unat rm \<le> 4" using assms by (simp add: word_le_nat_alt)
  then have "unat rm \<in> {0, 1, 2, 3, 4}" by auto
  then have "rm \<in> word_of_nat ` {0, 1, 2, 3, 4}" by (intro image_eqI [of _ _ "unat rm"]) simp_all
  then show ?thesis by (auto simp: round_increment_def)
qed

lemma bind_total: "\<exists>v. r = Some v \<Longrightarrow> (\<And>v. f v \<noteq> None) \<Longrightarrow> (do { v \<leftarrow> r; f v }) \<noteq> None"
  by auto

lemma round_int_total:
  assumes "rm \<le> FPRounding_TIEAWAY"
  shows "fplibRoundInt32 a rm exact s \<noteq> None" "fplibRoundInt64 c rm exact s \<noteq> None"
  unfolding fplibRoundInt32_def fplibRoundInt64_def Let_def
  by (intro not_None with_fpscr_total bind_total round_increment_total [OF assms])+

lemma to_fixed_total:
  assumes "rm \<le> FPRounding_TIEAWAY"
  shows "FPToFixed_64 sn ex mnt u rm flags \<noteq> None" "FPToFixed_32 sn ex mnt u rm flags \<noteq> None"
proof -
  show "FPToFixed_64 sn ex mnt u rm flags \<noteq> None"
    unfolding FPToFixed_64_def Let_def by (intro not_None bind_total round_increment_total [OF assms])
  then show "FPToFixed_32 sn ex mnt u rm flags \<noteq> None"
    unfolding FPToFixed_32_def by (intro bind_total not_None) auto
qed

lemma fixed_total:
  assumes "rm \<le> FPRounding_TIEAWAY"
  shows "fplibFPToFixed32_32 a fbits u rm s \<noteq> None" "fplibFPToFixed64_32 c fbits u rm s \<noteq> None"
    "fplibFPToFixed32_64 a fbits u rm s \<noteq> None" "fplibFPToFixed64_64 c fbits u rm s \<noteq> None"
  unfolding fplibFPToFixed32_32_def fplibFPToFixed64_32_def fplibFPToFixed32_64_def fplibFPToFixed64_64_def Let_def
  by (intro not_None with_fpscr_total to_fixed_total [OF assms])+

lemma convert_total:
  assumes "rm \<noteq> FPRounding_TIEAWAY"
  shows "fplibConvert32_16 a rm s \<noteq> None" "fplibConvert64_16 c rm s \<noteq> None" "fplibConvert64_32 c rm s \<noteq> None"
proof -
  have round: "fp16_round_rm sn ex m rm mode flags \<noteq> None" "fp32_round_rm sn ex m' rm mode flags \<noteq> None" for sn ex m m' mode flags
    unfolding fp16_round_rm_def fp32_round_rm_def using assms by (simp_all add: assert_c_def Let_def split_beta)
  show "fplibConvert32_16 a rm s \<noteq> None" "fplibConvert64_16 c rm s \<noteq> None" "fplibConvert64_32 c rm s \<noteq> None"
    unfolding fplibConvert32_16_def fplibConvert64_16_def fplibConvert64_32_def Let_def
    by (intro not_None with_fpscr_total round)+
qed

end
