(* ===== verification/TiC_FP_Nearest.thy ===== *)
theory TiC_FP_Nearest
  imports TiC_FP_Arith
begin

text \<open>
  What the rounding specification means: in the mode to nearest no other number of the format is nearer to the exact value, and
  of two nearest ones the even one is chosen.
\<close>

subsection \<open>Magnitudes of bit patterns\<close>

definition mag_bits :: "nat \<Rightarrow> nat \<Rightarrow> nat" where
  "mag_bits P k = (if k div 2 ^ P = 0 then k mod 2 ^ P else (2 ^ P + k mod 2 ^ P) * 2 ^ (k div 2 ^ P - 1))"

lemma mag_bits_small: "q \<le> 2 ^ P \<Longrightarrow> mag_bits P q = q"
  by (cases "q = 2 ^ P") (simp_all add: mag_bits_def)

lemma mag_bits_eq:
  assumes "2 ^ P \<le> q" "q \<le> 2 ^ (P + 1)"
  shows "mag_bits P (e * 2 ^ P + q) = q * 2 ^ e"
proof (cases "q = 2 ^ (P + 1)")
  case True
  then have "e * 2 ^ P + q = (e + 2) * 2 ^ P" by simp
  then have "(e * 2 ^ P + q) div 2 ^ P = e + 2" "(e * 2 ^ P + q) mod 2 ^ P = 0" by (simp_all only: nonzero_mult_div_cancel_right power_not_zero mod_mult_self2_is_0) simp_all
  then show ?thesis using True by (simp add: mag_bits_def)
next
  case False
  define r where "r = q - 2 ^ P"
  have r: "q = 2 ^ P + r" "r < 2 ^ P" using assms False by (auto simp: r_def)
  have eq: "e * 2 ^ P + q = r + (e + 1) * 2 ^ P" by (simp add: r)
  have "(r + (e + 1) * 2 ^ P) div 2 ^ P = e + 1 + r div 2 ^ P" by (rule div_mult_self1) simp
  then have "(e * 2 ^ P + q) div 2 ^ P = e + 1" "(e * 2 ^ P + q) mod 2 ^ P = r"
    unfolding eq mod_mult_self1 using r(2) by simp_all
  then show ?thesis using r by (simp add: mag_bits_def)
qed

lemma mag_bits_Suc: "mag_bits P k < mag_bits P (Suc k)"
proof (cases "k < 2 ^ P")
  case True
  then show ?thesis by (simp add: mag_bits_small)
next
  case False
  define e q where "e = k div 2 ^ P - 1" and "q = 2 ^ P + k mod 2 ^ P"
  have "0 < k div 2 ^ P" using False by (simp add: div_greater_zero_iff)
  then have "k div 2 ^ P = e + 1" by (simp add: e_def)
  moreover have "k = k div 2 ^ P * 2 ^ P + k mod 2 ^ P" by (rule div_mult_mod_eq [symmetric])
  ultimately have k: "k = e * 2 ^ P + q" by (simp add: q_def)
  have "k mod 2 ^ P < 2 ^ P" by simp
  then have "2 ^ P \<le> q" "Suc q \<le> 2 ^ (P + 1)" by (simp_all add: q_def Suc_le_eq)
  then have "mag_bits P k = q * 2 ^ e" "mag_bits P (Suc k) = Suc q * 2 ^ e"
    using mag_bits_eq [of P q e] mag_bits_eq [of P "Suc q" e] by (simp_all add: k)
  then show ?thesis by simp
qed

lemma mag_bits_mono: "k \<le> k' \<Longrightarrow> mag_bits P k \<le> mag_bits P k'"
  by (rule lift_Suc_mono_le [of "mag_bits P"]) (simp_all add: less_imp_le mag_bits_Suc)

subsection \<open>Rounding to a neighbour\<close>

lemma ieee_exp_spec:
  assumes "0 \<le> y"
  shows "1 \<le> ieee_exp P y" "y < 2 ^ (ieee_exp P y + P)" "ieee_exp P y = 1 \<or> 2 ^ (ieee_exp P y - 1 + P) \<le> y"
proof -
  obtain n where n: "y < 2 ^ n" using real_arch_pow [of 2 y] by auto
  also have "(2::real) ^ n \<le> 2 ^ (n + 1 + P)" by (intro power_increasing) simp_all
  finally have ex: "1 \<le> n + 1 \<and> y < 2 ^ (n + 1 + P)" by simp
  have least: "1 \<le> ieee_exp P y \<and> y < 2 ^ (ieee_exp P y + P)" unfolding ieee_exp_def by (rule LeastI [of _ "n + 1"]) (rule ex)
  then show "1 \<le> ieee_exp P y" "y < 2 ^ (ieee_exp P y + P)" by simp_all
  show "ieee_exp P y = 1 \<or> 2 ^ (ieee_exp P y - 1 + P) \<le> y"
  proof (rule ccontr)
    assume h: "\<not> ?thesis"
    then have "1 \<le> ieee_exp P y - 1 \<and> y < 2 ^ (ieee_exp P y - 1 + P)" using least by auto
    then have "ieee_exp P y \<le> ieee_exp P y - 1" unfolding ieee_exp_def by (rule Least_le)
    with least show False by linarith
  qed
qed

lemma ieee_bits_bracket:
  assumes "0 \<le> y" "0 < P"
  defines "e \<equiv> ieee_exp P y - 1"
  defines "n \<equiv> nat \<lfloor>y / 2 ^ e\<rfloor>"
  shows "mag_bits P (e * 2 ^ P + n) = n * 2 ^ e" "mag_bits P (Suc (e * 2 ^ P + n)) = Suc n * 2 ^ e"
    "real n * 2 ^ e \<le> y" "y < (real n + 1) * 2 ^ e" "odd (e * 2 ^ P + n) = odd n"
    "ieee_bits P rm sn y = e * 2 ^ P + round_int rm sn (y / 2 ^ e)"
proof -
  note spec = ieee_exp_spec [OF assms(1), of P]
  have "0 \<le> y / 2 ^ e" using assms(1) by simp
  then have fl: "real n \<le> y / 2 ^ e" "y / 2 ^ e < real n + 1" unfolding n_def by linarith+
  then show le: "real n * 2 ^ e \<le> y" "y < (real n + 1) * 2 ^ e" by (simp_all add: field_simps)
  have "y < 2 ^ (P + 1) * 2 ^ e" using spec(1,2) unfolding e_def power_add [symmetric] by (simp add: add.commute)
  with le(1) have "real n * 2 ^ e < 2 ^ (P + 1) * 2 ^ e" by linarith
  then have "real n < real (2 ^ (P + 1))" by simp
  then have up: "n < 2 ^ (P + 1)" by (simp only: of_nat_less_iff)
  have low: "2 ^ P \<le> n" if "0 < e"
  proof -
    have "2 ^ (e + P) \<le> y" using spec(3) that by (auto simp: e_def)
    then have "2 ^ e * 2 ^ P < 2 ^ e * (real n + 1)" using le(2) unfolding power_add by (simp only: mult.commute)
    then have "2 ^ P < real n + 1" by (rule mult_less_cancel_left_pos [THEN iffD1, rotated]) simp
    then have "real (2 ^ P) < real (n + 1)" by simp
    then show ?thesis by (simp only: of_nat_less_iff)
  qed
  have "mag_bits P (e * 2 ^ P + q) = q * 2 ^ e" if "q \<le> 2 ^ (P + 1)" "0 < e \<Longrightarrow> 2 ^ P \<le> q" for q
    using that mag_bits_eq [of P q e] by (cases "2 ^ P \<le> q"; cases "e = 0") (simp_all add: mag_bits_small)
  moreover have "0 < e \<Longrightarrow> 2 ^ P \<le> Suc n" using low by (simp add: le_SucI)
  ultimately
  show "mag_bits P (e * 2 ^ P + n) = n * 2 ^ e" "mag_bits P (Suc (e * 2 ^ P + n)) = Suc n * 2 ^ e" using up low by (simp_all add: Suc_le_eq add_Suc_right [symmetric] del: add_Suc_right)
  show "odd (e * 2 ^ P + n) = odd n" using assms(2) by simp
  show "ieee_bits P rm sn y = e * 2 ^ P + round_int rm sn (y / 2 ^ e)" by (simp only: ieee_bits_def Let_def e_def)
qed

lemma nearest_neighbour:
  fixes f :: "nat \<Rightarrow> real"
  assumes mono: "\<And>k. f k < f (Suc k)" and c: "f c \<le> y" "y < f (Suc c)"
    and up: "up \<longleftrightarrow> f (Suc c) - y < y - f c \<or> f (Suc c) - y = y - f c \<and> odd c" and k: "k = c + of_bool up"
  shows "\<bar>f k - y\<bar> \<le> \<bar>f j - y\<bar> \<and> (j \<noteq> k \<longrightarrow> \<bar>f j - y\<bar> = \<bar>f k - y\<bar> \<longrightarrow> even k)"
proof -
  have less: "i < i' \<Longrightarrow> f i < f i'" for i i' by (rule lift_Suc_mono_less [of f, OF mono])
  have fk: "\<bar>f k - y\<bar> = (if up then f (Suc c) - y else y - f c)" using c by (simp add: k)
  consider (low) "j < c" | (is_low) "j = c" | (is_high) "j = Suc c" | (high) "Suc c < j" by linarith
  then show ?thesis
  proof cases
    case low
    then show ?thesis using less [OF low] c up unfolding fk by (auto simp: abs_if)
  next
    case is_low
    then show ?thesis using c up unfolding fk by (auto simp: k)
  next
    case is_high
    then show ?thesis using c up unfolding fk by (auto simp: k)
  next
    case high
    then show ?thesis using less [OF high] c up unfolding fk by (auto simp: abs_if)
  qed
qed

lemma ieee_bits_nearest:
  assumes "0 \<le> y" "0 < P" and k: "k = ieee_bits P FPLIB_RN sn y"
  shows "\<bar>real (mag_bits P k) - y\<bar> \<le> \<bar>real (mag_bits P j) - y\<bar> \<and>
    (j \<noteq> k \<longrightarrow> \<bar>real (mag_bits P j) - y\<bar> = \<bar>real (mag_bits P k) - y\<bar> \<longrightarrow> even k)"
proof -
  define e where "e = ieee_exp P y - 1"
  define n where "n = nat \<lfloor>y / 2 ^ e\<rfloor>"
  define u where "u = (2::real) ^ e"
  note br = ieee_bits_bracket [OF assms(1,2), folded e_def, folded n_def]
  have u: "0 < u" by (simp add: u_def)
  have lo: "real (mag_bits P (e * 2 ^ P + n)) = real n * u" and hi: "real (mag_bits P (Suc (e * 2 ^ P + n))) = (real n + 1) * u"
    unfolding br(1,2) u_def by (simp_all add: distrib_right)
  define r where "r = y / u - real n"
  have y: "y = (real n + r) * u" using u by (simp add: r_def)
  define up where "up \<longleftrightarrow> 1 / 2 < r \<or> r = 1 / 2 \<and> odd n"
  have k: "k = e * 2 ^ P + n + of_bool up"
    unfolding k br(6) round_int_def n_def [symmetric] Let_def by (simp add: up_def r_def u_def)
  have d: "(real n + 1) * u - y = (1 - r) * u" "y - real n * u = r * u" by (simp_all add: y algebra_simps)
  have up: "up \<longleftrightarrow> (real n + 1) * u - y < y - real n * u \<or> (real n + 1) * u - y = y - real n * u \<and> odd (e * 2 ^ P + n)"
    unfolding d br(5) up_def using u by (auto simp: mult_less_cancel_right_pos)
  show ?thesis
  proof (rule nearest_neighbour [of "\<lambda>k. real (mag_bits P k)", OF _ _ _ _ k])
    show "real (mag_bits P i) < real (mag_bits P (Suc i))" for i using mag_bits_Suc by (simp only: of_nat_less_iff)
  qed (simp_all only: lo hi up br(3,4) u_def [symmetric], use br(3,4) in \<open>simp_all only: u_def\<close>)
qed

subsection \<open>Rounded results\<close>

lemma field_split: "(x::nat) mod 2 ^ (P + K) div 2 ^ P = x div 2 ^ P mod 2 ^ K" "(x::nat) mod 2 ^ (P + K) mod 2 ^ P = x mod 2 ^ P"
  by (simp_all add: power_add mod_mult2_eq)

lemma fp_mag_bits: "fp_mag P J x = mag_bits P (unat x mod 2 ^ (P + (J + 1)))"
  by (simp only: fp_mag_def mag_bits_def field_split fp_exp_def fp_frac_def split: if_split)

lemma rounded_number:
  fixes x :: "'w::len word"
  assumes "LENGTH('w) = P + J + 2" "unat x = of_bool sn * 2 ^ (P + J + 1) + ieee_round P (2 ^ (J + 1) - 1) FPLIB_RN sn y" "fp_finite P J x"
  shows "fp_neg x = sn" "fp_mag P J x = mag_bits P (ieee_bits P FPLIB_RN sn y)" "unat x mod 2 ^ (P + (J + 1)) = ieee_bits P FPLIB_RN sn y"
proof -
  define E k where "E = (2::nat) ^ (J + 1) - 1" and "k = ieee_round P (2 ^ (J + 1) - 1) FPLIB_RN sn y"
  have "k \<le> E * 2 ^ P" by (simp add: k_def ieee_round_def E_def overflow_to_inf_def)
  also have "E * 2 ^ P < 2 ^ (P + (J + 1))" unfolding E_def by (simp add: power_add)
  finally have k: "k < 2 ^ (P + (J + 1))" .
  have x: "unat x = of_bool sn * 2 ^ (P + (J + 1)) + k" using assms(2) by (simp only: k_def add.assoc)
  then have m: "unat x mod 2 ^ (P + (J + 1)) = k" using k by simp
  have "fp_neg x = odd (unat x div 2 ^ (P + (J + 1)))"
  proof -
    have "fp_neg x = bit (unat x) (P + (J + 1))" using assms(1) by (simp add: fp_neg_def bit_unsigned_iff)
    then show ?thesis by (simp only: bit_iff_odd)
  qed
  then show "fp_neg x = sn" using k by (simp add: x)
  have "k \<noteq> E * 2 ^ P"
  proof
    assume "k = E * 2 ^ P"
    then have "unat x mod 2 ^ (P + (J + 1)) div 2 ^ P = E" unfolding m by simp
    then show False using assms(3) unfolding field_split fp_finite_def fp_exp_def E_def by simp
  qed
  then have "k = ieee_bits P FPLIB_RN sn y" unfolding k_def ieee_round_def E_def by (simp add: overflow_to_inf_def split: if_splits)
  with m show "fp_mag P J x = mag_bits P (ieee_bits P FPLIB_RN sn y)" "unat x mod 2 ^ (P + (J + 1)) = ieee_bits P FPLIB_RN sn y"
    unfolding fp_mag_bits by simp_all
qed

text \<open>Seen as signed numbers: the sign of the rounded number is that of the exact one, so numbers of the other sign are farther than zero.\<close>

lemma signed_nearest:
  fixes S :: int
  assumes near: "\<And>j. \<bar>real (mag_bits P k) - \<bar>real_of_int S\<bar>\<bar> \<le> \<bar>real (mag_bits P j) - \<bar>real_of_int S\<bar>\<bar> \<and>
      (j \<noteq> k \<longrightarrow> \<bar>real (mag_bits P j) - \<bar>real_of_int S\<bar>\<bar> = \<bar>real (mag_bits P k) - \<bar>real_of_int S\<bar>\<bar> \<longrightarrow> even k)"
    and sn: "S \<noteq> 0 \<Longrightarrow> sn = (S < 0)"
    and x: "x = signed_mag sn (mag_bits P k)" and z: "z = signed_mag sz (mag_bits P j)"
  shows "\<bar>x - S\<bar> \<le> \<bar>z - S\<bar> \<and> (z \<noteq> x \<longrightarrow> \<bar>z - S\<bar> = \<bar>x - S\<bar> \<longrightarrow> even k)"
proof -
  have zero: "mag_bits P 0 = 0" by (simp add: mag_bits_def)
  have r: "real_of_int \<bar>int m - \<bar>S\<bar>\<bar> = \<bar>real m - \<bar>real_of_int S\<bar>\<bar>" for m by simp
  have int: "\<bar>int (mag_bits P k) - \<bar>S\<bar>\<bar> \<le> \<bar>int (mag_bits P i) - \<bar>S\<bar>\<bar>" for i
    using near [of i] unfolding r [symmetric] by (simp only: of_int_le_iff)
  have tie: "even k" if "mag_bits P i \<noteq> mag_bits P k" "\<bar>int (mag_bits P i) - \<bar>S\<bar>\<bar> = \<bar>int (mag_bits P k) - \<bar>S\<bar>\<bar>" for i
    using near [of i] that unfolding r [symmetric] by auto
  define m n where "m = int (mag_bits P k)" and "n = int (mag_bits P j)"
  have pos: "0 \<le> m" "0 \<le> n" by (simp_all add: m_def n_def)
  have near_j: "\<bar>m - \<bar>S\<bar>\<bar> \<le> \<bar>n - \<bar>S\<bar>\<bar>" "n \<noteq> m \<Longrightarrow> \<bar>n - \<bar>S\<bar>\<bar> = \<bar>m - \<bar>S\<bar>\<bar> \<Longrightarrow> even k"
    using int [of j] tie [of j] by (simp_all add: m_def n_def)
  have near_0: "\<bar>m - \<bar>S\<bar>\<bar> \<le> \<bar>S\<bar>" "m \<noteq> 0 \<Longrightarrow> \<bar>S\<bar> = \<bar>m - \<bar>S\<bar>\<bar> \<Longrightarrow> even k"
    using int [of 0] tie [of 0] by (simp_all add: m_def zero)
  have xz: "x = (if sn then - m else m)" "z = (if sz then - n else n)" by (simp_all add: x z signed_mag_def m_def n_def)
  show ?thesis
  proof (cases "S = 0")
    case True
    then have "m = 0" using near_0(1) by simp
    with True show ?thesis by (simp add: xz)
  next
    case False
    then have sn': "sn = (S < 0)" by (rule sn)
    then have dx: "\<bar>x - S\<bar> = \<bar>m - \<bar>S\<bar>\<bar>" unfolding xz(1) by (auto simp: abs_if)
    show ?thesis
    proof (cases "sz = sn")
      case True
      then have "\<bar>z - S\<bar> = \<bar>n - \<bar>S\<bar>\<bar>" "z \<noteq> x \<longrightarrow> n \<noteq> m" using sn' unfolding xz by (auto simp: abs_if)
      then show ?thesis unfolding dx using near_j by simp
    next
      case False
      then have dz: "\<bar>z - S\<bar> = n + \<bar>S\<bar>" using sn' pos unfolding xz by (auto simp: abs_if)
      have "even k" if "z \<noteq> x" "n + \<bar>S\<bar> = \<bar>m - \<bar>S\<bar>\<bar>"
      proof -
        have "n = 0" using that(2) near_0(1) pos by linarith
        moreover then have "m \<noteq> 0" using that(1) by (auto simp: xz split: if_splits)
        ultimately show ?thesis using near_0(2) that(2) by simp
      qed
      moreover have "\<bar>m - \<bar>S\<bar>\<bar> \<le> n + \<bar>S\<bar>" using near_0(1) pos by linarith
      ultimately show ?thesis unfolding dx dz by blast
    qed
  qed
qed

end
