(* ===== verification/TiC_FP_Results.thy ===== *)
theory TiC_FP_Results
  imports TiC_FP_Total TiC_FP_Nearest
begin

text \<open>
  The properties of the floating-point library. A result is correctly rounded when it is the rounding of the exact value in the
  mode of the FPSCR and the flags it adds are those of that rounding.
\<close>

definition correctly_rounded :: "nat \<Rightarrow> nat \<Rightarrow> 32 word \<Rightarrow> bool \<Rightarrow> real \<Rightarrow> 32 word \<Rightarrow> ('w::len word \<times> 32 word) option \<Rightarrow> bool" where
  "correctly_rounded P J rm sn y flags r \<longleftrightarrow> (\<exists>x. r = Some (x, flags OR ieee_flags P (2 ^ (J + 1) - 1) rm sn y) \<and>
     unat x = of_bool sn * 2 ^ (P + J + 1) + ieee_round P (2 ^ (J + 1) - 1) rm sn y)"

definition fp_signed :: "nat \<Rightarrow> nat \<Rightarrow> 'w::len word \<Rightarrow> int" where
  "fp_signed P J x = signed_mag (fp_neg x) (fp_mag P J x)"

definition fp_sum :: "nat \<Rightarrow> nat \<Rightarrow> 'w::len word \<Rightarrow> 'w word \<Rightarrow> bool \<Rightarrow> int" where
  "fp_sum P J a b neg = (if neg then fp_signed P J a - fp_signed P J b else fp_signed P J a + fp_signed P J b)"

lemmas finite_simps = fp_finite_def fp_exp_def fp_frac_def

lemma neg_signed_mag: "signed_mag (sn \<noteq> neg) m = (if neg then - signed_mag sn m else signed_mag sn m)"
  by (auto simp: signed_mag_def)

text \<open>No number of the format is nearer to \<open>S\<close>, and if another one is as near then \<open>x\<close> is the even one.\<close>

definition fp_nearest :: "nat \<Rightarrow> nat \<Rightarrow> 'w::len word \<Rightarrow> int \<Rightarrow> bool" where
  "fp_nearest P J x S \<longleftrightarrow> (\<forall>z :: 'w word. \<bar>fp_signed P J x - S\<bar> \<le> \<bar>fp_signed P J z - S\<bar> \<and>
     (fp_signed P J z \<noteq> fp_signed P J x \<longrightarrow> \<bar>fp_signed P J z - S\<bar> = \<bar>fp_signed P J x - S\<bar> \<longrightarrow> even (unat x)))"

lemma correctly_rounded_nearest:
  fixes x :: "'w::len word"
  assumes "LENGTH('w) = P + J + 2" "0 < P" "correctly_rounded P J FPLIB_RN sn (real_of_int \<bar>S\<bar>) flags (Some (x, f))" "fp_finite P J x"
    and "S \<noteq> 0 \<Longrightarrow> sn = (S < 0)"
  shows "fp_nearest P J x S"
proof -
  have "unat x = of_bool sn * 2 ^ (P + J + 1) + ieee_round P (2 ^ (J + 1) - 1) FPLIB_RN sn (real_of_int \<bar>S\<bar>)"
    using assms(3) by (simp add: correctly_rounded_def)
  note num = rounded_number [OF assms(1) this assms(4)]
  have "even (unat x mod 2 ^ (P + (J + 1))) = even (unat x)" by (simp add: even_mod_exp_div_exp_iff dvd_mod_iff)
  then have ev: "even (ieee_bits P FPLIB_RN sn (real_of_int \<bar>S\<bar>)) = even (unat x)" unfolding num(3) .
  have near: "\<bar>real (mag_bits P k) - \<bar>real_of_int S\<bar>\<bar> \<le> \<bar>real (mag_bits P j) - \<bar>real_of_int S\<bar>\<bar> \<and>
      (j \<noteq> k \<longrightarrow> \<bar>real (mag_bits P j) - \<bar>real_of_int S\<bar>\<bar> = \<bar>real (mag_bits P k) - \<bar>real_of_int S\<bar>\<bar> \<longrightarrow> even k)"
    if "k = ieee_bits P FPLIB_RN sn (real_of_int \<bar>S\<bar>)" for j k
    using ieee_bits_nearest [OF _ assms(2) that, of j] by simp
  show ?thesis unfolding fp_nearest_def ev [symmetric]
  proof
    fix z :: "'w word"
    show "\<bar>fp_signed P J x - S\<bar> \<le> \<bar>fp_signed P J z - S\<bar> \<and> (fp_signed P J z \<noteq> fp_signed P J x \<longrightarrow>
        \<bar>fp_signed P J z - S\<bar> = \<bar>fp_signed P J x - S\<bar> \<longrightarrow> even (ieee_bits P FPLIB_RN sn (real_of_int \<bar>S\<bar>)))"
      by (rule signed_nearest [OF near [OF refl]], erule assms(5)) (simp_all only: fp_signed_def num(1,2) fp_mag_bits [of P J z])
  qed
qed

lemma add_rounded:
  assumes "fp_finite 23 7 a" "fp_finite 23 7 b" "fp_finite 52 10 c" "fp_finite 52 10 d" "mode AND FPLIB_FZ = 0"
  shows "correctly_rounded 23 7 (mode AND 3) (sum_sign (fp_neg a) (fp_neg b \<noteq> neg) (mode AND 3) (fp_sum 23 7 a b neg))
      (real_of_int \<bar>fp_sum 23 7 a b neg\<bar>) flags (fp32_add a b neg mode flags) \<and>
    correctly_rounded 52 10 (mode AND 3) (sum_sign (fp_neg c) (fp_neg d \<noteq> neg) (mode AND 3) (fp_sum 52 10 c d neg))
      (real_of_int \<bar>fp_sum 52 10 c d neg\<bar>) flags (fp64_add c d neg mode flags)"
proof -
  have sum: "signed_mag (fp_neg x) (fp_mag P J x) + signed_mag (fp_neg y \<noteq> neg) (fp_mag P J y) = fp_sum P J x y neg" for P J and x y :: "'w::len word"
    by (simp only: fp_sum_def fp_signed_def neg_signed_mag split: if_split) simp
  have abs: "real (nat \<bar>S\<bar>) = real_of_int \<bar>S\<bar>" for S by simp
  show ?thesis
    using single.add_correct [OF assms(1,2,5), of neg flags] double.add_correct [OF assms(3,4,5), of neg flags]
    unfolding correctly_rounded_def sum abs by (rule conjI)
qed

text \<open>C34: adding and subtracting two finite numbers in single and in double precision returns the correct rounding of the exact
  sum or difference in every rounding mode, with the exact exception flags, unless subnormal operands are flushed to zero.\<close>

theorem fp_add_correct:
  assumes "fp_finite 23 7 a" "fp_finite 23 7 b" "fp_finite 52 10 c" "fp_finite 52 10 d" "mode AND FPLIB_FZ = 0"
  shows "correctly_rounded 23 7 (mode AND 3) (sum_sign (fp_neg a) (fp_neg b \<noteq> neg) (mode AND 3) (fp_sum 23 7 a b neg))
      (real_of_int \<bar>fp_sum 23 7 a b neg\<bar>) flags (fp32_add a b neg mode flags) \<and>
    correctly_rounded 52 10 (mode AND 3) (sum_sign (fp_neg c) (fp_neg d \<noteq> neg) (mode AND 3) (fp_sum 52 10 c d neg))
      (real_of_int \<bar>fp_sum 52 10 c d neg\<bar>) flags (fp64_add c d neg mode flags)"
  by (rule add_rounded [OF assms])

theorem fp_add_correct_witness:
  "correctly_rounded 23 7 0 False 7 0 (fp32_add 5 2 False 0 0) \<and> correctly_rounded 52 10 0 True 3 0 (fp64_add 1 4 True 0 0)"
proof -
  have f: "fp_finite 23 7 (5 :: 32 word)" "fp_finite 23 7 (2 :: 32 word)" "fp_finite 52 10 (1 :: 64 word)" "fp_finite 52 10 (4 :: 64 word)"
    by (simp_all add: finite_simps)
  have "fp_sum 23 7 (5 :: 32 word) 2 False = 7" "fp_sum 52 10 (1 :: 64 word) 4 True = - 3"
    by (simp_all add: fp_sum_def fp_signed_def signed_mag_def fp_neg_def fp_mag_def finite_simps)
  then show ?thesis using fp_add_correct [OF f, of 0 False 0] fp_add_correct [OF f, of 0 True 0] by (simp add: sum_sign_def fp_neg_def)
qed

text \<open>C35: multiplying two finite numbers in single and in double precision returns the correct rounding of the exact product
  in every rounding mode, with the exact exception flags, unless subnormal operands are flushed to zero.\<close>

theorem fp_mul_correct:
  assumes "fp_finite 23 7 a" "fp_finite 23 7 b" "fp_finite 52 10 c" "fp_finite 52 10 d" "mode AND FPLIB_FZ = 0"
  shows "correctly_rounded 23 7 (mode AND 3) (fp_neg a \<noteq> fp_neg b) (real (fp_mag 23 7 a * fp_mag 23 7 b) / 2 ^ 149) flags (fp32_mul a b mode flags) \<and>
    correctly_rounded 52 10 (mode AND 3) (fp_neg c \<noteq> fp_neg d) (real (fp_mag 52 10 c * fp_mag 52 10 d) / 2 ^ 1074) flags (fp64_mul c d mode flags)"
  using single.mul_correct [OF assms(1,2,5), of flags] double.mul_correct [OF assms(3,4,5), of flags]
  unfolding correctly_rounded_def by simp

theorem fp_mul_correct_witness:
  "correctly_rounded 23 7 0 False 5 0 (fp32_mul 5 0x3F800000 0 0) \<and> correctly_rounded 52 10 0 True 0 0 (fp64_mul 0 0x8000000000000004 0 0)"
proof -
  have f: "fp_finite 23 7 (5 :: 32 word)" "fp_finite 23 7 (0x3F800000 :: 32 word)" "fp_finite 52 10 (0 :: 64 word)" "fp_finite 52 10 (0x8000000000000004 :: 64 word)"
    by (simp_all add: finite_simps)
  have m: "fp_mag 23 7 (5 :: 32 word) = 5" "fp_mag 23 7 (0x3F800000 :: 32 word) = 2 ^ 149" "fp_mag 52 10 (0 :: 64 word) = 0"
    by (simp_all add: fp_mag_def finite_simps)
  show ?thesis using fp_mul_correct [OF f, of 0 0] by (simp add: m fp_neg_def)
qed

text \<open>C36: dividing two finite numbers in single and in double precision returns the correct rounding of the exact quotient in
  every rounding mode, with the exact exception flags, unless subnormal operands are flushed to zero; dividing by zero gives an
  infinity and the divide-by-zero flag, or the default NaN and the invalid-operation flag.\<close>

theorem fp_div_correct:
  assumes "fp_finite 23 7 a" "fp_finite 23 7 b" "fp_finite 52 10 c" "fp_finite 52 10 d" "mode AND FPLIB_FZ = 0"
  shows "(if fp_mag 23 7 b \<noteq> 0
      then correctly_rounded 23 7 (mode AND 3) (fp_neg a \<noteq> fp_neg b) (real (fp_mag 23 7 a) / real (fp_mag 23 7 b) * 2 ^ 149) flags (fp32_div a b mode flags)
      else fp32_div a b mode flags = Some (if fp_mag 23 7 a = 0 then (fp32_defaultNaN, flags OR FPLIB_IOC)
        else (fp32_infinity (fp_neg a \<noteq> fp_neg b), flags OR FPLIB_DZC))) \<and>
    (if fp_mag 52 10 d \<noteq> 0
      then correctly_rounded 52 10 (mode AND 3) (fp_neg c \<noteq> fp_neg d) (real (fp_mag 52 10 c) / real (fp_mag 52 10 d) * 2 ^ 1074) flags (fp64_div c d mode flags)
      else fp64_div c d mode flags = Some (if fp_mag 52 10 c = 0 then (fp64_defaultNaN, flags OR FPLIB_IOC)
        else (fp64_infinity (fp_neg c \<noteq> fp_neg d), flags OR FPLIB_DZC)))"
  using single.divide_correct [OF assms(1,2,5), of flags] double.divide_correct [OF assms(3,4,5), of flags]
    single.divide_zero [OF assms(1,2,5), of flags] double.divide_zero [OF assms(3,4,5), of flags]
  unfolding correctly_rounded_def by simp

theorem fp_div_correct_witness:
  "correctly_rounded 23 7 0 False 5 0 (fp32_div 5 0x3F800000 0 0) \<and> fp64_div 4 0x8000000000000000 0 0 = Some (0xFFF0000000000000, 2)"
proof -
  have f: "fp_finite 23 7 (5 :: 32 word)" "fp_finite 23 7 (0x3F800000 :: 32 word)" "fp_finite 52 10 (4 :: 64 word)" "fp_finite 52 10 (0x8000000000000000 :: 64 word)"
    by (simp_all add: finite_simps)
  have m: "fp_mag 23 7 (5 :: 32 word) = 5" "fp_mag 23 7 (0x3F800000 :: 32 word) = 2 ^ 149" "fp_mag 52 10 (4 :: 64 word) = 4" "fp_mag 52 10 (0x8000000000000000 :: 64 word) = 0"
    by (simp_all add: fp_mag_def finite_simps)
  have i: "fp64_infinity True = 0xFFF0000000000000" by code_simp
  show ?thesis using fp_div_correct [OF f, of 0 0] by (simp add: m i fp_neg_def)
qed

text \<open>C37: the square root of a finite number in single and in double precision is the correct rounding of the exact root in
  every rounding mode, with the exact exception flags, unless subnormal operands are flushed to zero; the root of a zero is that
  zero, and of another negative number the default NaN with the invalid-operation flag.\<close>

theorem fp_sqrt_correct:
  assumes "fp_finite 23 7 a" "fp_finite 52 10 b" "mode AND FPLIB_FZ = 0"
  shows "(if fp_mag 23 7 a \<noteq> 0 \<and> \<not> fp_neg a
      then correctly_rounded 23 7 (mode AND 3) False (sqrt (real (fp_mag 23 7 a) * 2 ^ 149)) flags (fp32_sqrt a mode flags)
      else fp32_sqrt a mode flags = Some (if fp_mag 23 7 a = 0 then (fp32_zero (fp_neg a), flags) else (fp32_defaultNaN, flags OR FPLIB_IOC))) \<and>
    (if fp_mag 52 10 b \<noteq> 0 \<and> \<not> fp_neg b
      then correctly_rounded 52 10 (mode AND 3) False (sqrt (real (fp_mag 52 10 b) * 2 ^ 1074)) flags (fp64_sqrt b mode flags)
      else fp64_sqrt b mode flags = Some (if fp_mag 52 10 b = 0 then (fp64_zero (fp_neg b), flags) else (fp64_defaultNaN, flags OR FPLIB_IOC)))"
  using single.square_root_correct [OF assms(1,3), of flags] double.square_root_correct [OF assms(2,3), of flags]
    single.square_root_special [OF assms(1,3), of flags] double.square_root_special [OF assms(2,3), of flags]
  unfolding correctly_rounded_def by simp

theorem fp_sqrt_correct_witness:
  "correctly_rounded 23 7 0 False (2 ^ 150) 0 (fp32_sqrt 0x40800000 0 0) \<and> fp64_sqrt 0x8000000000000004 0 0 = Some (0x7FF8000000000000, 1)"
proof -
  have f: "fp_finite 23 7 (0x40800000 :: 32 word)" "fp_finite 52 10 (0x8000000000000004 :: 64 word)" by (simp_all add: finite_simps)
  have m: "fp_mag 23 7 (0x40800000 :: 32 word) = 2 ^ 151" "fp_mag 52 10 (0x8000000000000004 :: 64 word) = 4" by (simp_all add: fp_mag_def finite_simps)
  have r: "sqrt (real (2 ^ 151) * 2 ^ 149) = 2 ^ 150" by (rule real_sqrt_unique) (simp_all flip: power_add power_mult)
  have i: "fp64_defaultNaN = 0x7FF8000000000000" by code_simp
  show ?thesis using fp_sqrt_correct [OF f, of 0 0] unfolding m r i by (simp add: fp_neg_def)
qed



text \<open>C39: converting a 64-bit fixed-point number, signed or unsigned and with any number of fractional bits, to single or double
  precision returns the correct rounding of the number in every rounding mode, with the exact exception flags, unless results
  are flushed to zero.\<close>

theorem fp_cvtf_correct:
  assumes "mode AND FPLIB_FZ = 0"
  shows "correctly_rounded 23 7 (mode AND 3) (fixed_int u a < 0) (real_of_int \<bar>fixed_int u a\<bar> * 2 powi (149 - fbits)) flags (fp32_cvtf a fbits u mode flags) \<and>
    correctly_rounded 52 10 (mode AND 3) (fixed_int u a < 0) (real_of_int \<bar>fixed_int u a\<bar> * 2 powi (1074 - fbits)) flags (fp64_cvtf a fbits u mode flags)"
  using cvtf32_correct [OF assms, of a fbits u flags] cvtf64_correct [OF assms, of a fbits u flags] unfolding correctly_rounded_def by blast

theorem fp_cvtf_correct_witness:
  "correctly_rounded 23 7 0 True 3 0 (fp32_cvtf (- 3) 149 False 0 0) \<and> correctly_rounded 52 10 0 True 3 0 (fp64_cvtf (- 3) 1074 False 0 0)"
proof -
  have "fixed_int False (- 3) = - 3" by (simp add: fixed_int_def)
  then show ?thesis using fp_cvtf_correct [of 0 False "- 3" 149 0] fp_cvtf_correct [of 0 False "- 3" 1074 0] by simp
qed

text \<open>C40: rounding to nearest, a sum or difference that does not overflow is a number nearest to the exact one among all
  finite numbers of the format, and its bit pattern is even when another number is as near, unless subnormal operands are
  flushed to zero.\<close>

theorem fp_add_nearest:
  assumes "fp_finite 23 7 a" "fp_finite 23 7 b" "fp_finite 52 10 c" "fp_finite 52 10 d" "mode AND FPLIB_FZ = 0" "mode AND 3 = FPLIB_RN"
    and "fp32_add a b neg mode flags = Some (x, f)" "fp64_add c d neg mode flags = Some (y, g)" "fp_finite 23 7 x" "fp_finite 52 10 y"
  shows "fp_nearest 23 7 x (fp_sum 23 7 a b neg) \<and> fp_nearest 52 10 y (fp_sum 52 10 c d neg)"
proof -
  have sign: "S \<noteq> 0 \<Longrightarrow> sum_sign sa sb rm S = (S < 0)" for sa sb rm and S :: int by (simp add: sum_sign_def)
  note r = add_rounded [OF assms(1-5), of neg flags, unfolded assms(6-8)]
  show ?thesis
    using correctly_rounded_nearest [OF _ _ conjunct1 [OF r] assms(9) sign] correctly_rounded_nearest [OF _ _ conjunct2 [OF r] assms(10) sign] by simp
qed

theorem fp_add_nearest_witness: "fp_nearest 23 7 (0x40400000 :: 32 word) (fp_sum 23 7 (0x3F800000 :: 32 word) 0x40000000 False) \<and>
    fp_nearest 52 10 (0x4008000000000000 :: 64 word) (fp_sum 52 10 (0x3FF0000000000000 :: 64 word) 0x4000000000000000 False)"
proof -
  have f: "fp_finite 23 7 (0x3F800000 :: 32 word)" "fp_finite 23 7 (0x40000000 :: 32 word)"
    "fp_finite 52 10 (0x3FF0000000000000 :: 64 word)" "fp_finite 52 10 (0x4000000000000000 :: 64 word)"
    "fp_finite 23 7 (0x40400000 :: 32 word)" "fp_finite 52 10 (0x4008000000000000 :: 64 word)" by (simp_all add: finite_simps)
  have s: "fp32_add 0x3F800000 0x40000000 False 0 0 = Some (0x40400000, 0)" by code_simp
  have d: "fp64_add 0x3FF0000000000000 0x4000000000000000 False 0 0 = Some (0x4008000000000000, 0)" by code_simp
  show ?thesis by (rule fp_add_nearest [OF f(1-4) _ _ s d f(5,6)]) simp_all
qed

end
