(* ===== verification/TiC_Software.thy ===== *)
theory TiC_Software
  imports TiC_Matmul TiC_Elements
begin

text \<open>
  The multiplication without the accelerator, \<^verbatim>\<open>conventionalCompute\<close> of \<^verbatim>\<open>accelerator/sparseMatrixMultiplication.cpp\<close>, and the
  dispatcher of a build with \<^verbatim>\<open>SW_MULT\<close>. It works on row-major tensors through element pointers, in the order of the
  memory; the row of the weights is permuted to undo that order, by constants that are right for four activations and
  four weights in a bus word. There it computes the product that the accelerator computes on the blocked tensors.
\<close>

subsection \<open>Model\<close>

text \<open>The three pointers as indices of elements.\<close>

definition weight_elem :: "('a::len, 'w::len) sa_cfg \<Rightarrow> nat \<Rightarrow> nat \<Rightarrow> nat \<Rightarrow> nat \<Rightarrow> nat" where
  "weight_elem c osize out_idx w i = out_idx * W_PER_BUS c + ((i + 3 - 2 * (i mod ACT_PER_BUS c)) * osize + w)"

definition input_elem :: "('a::len, 'w::len) sa_cfg \<Rightarrow> nat \<Rightarrow> nat \<Rightarrow> nat \<Rightarrow> nat" where
  "input_elem c isize len i = len * isize div ACT_PER_BUS c * ACT_PER_BUS c + i"

definition output_elem :: "('a::len, 'w::len) sa_cfg \<Rightarrow> nat \<Rightarrow> nat \<Rightarrow> nat \<Rightarrow> nat \<Rightarrow> nat" where
  "output_elem c osize len out_idx w = (len * osize div ACT_PER_BUS c + out_idx) * ACT_PER_BUS c + w"

definition conventionalCompute ::
  "('a::len, 'w::len) sa_cfg \<Rightarrow> nat \<Rightarrow> 32 word list \<Rightarrow> 32 word list \<Rightarrow> nat \<Rightarrow> nat \<Rightarrow> 32 word list \<Rightarrow> 32 word list option" where
  "conventionalCompute c slen input weight isize osize =
     for_list [0..<slen] (\<lambda>len. for_list [0..<osize div ACT_PER_BUS c] (\<lambda>out_idx. for_list [0..<ACT_PER_BUS c] (\<lambda>w output. do {
       sum \<leftarrow> for_list [0..<isize] (\<lambda>i sum. do {
         y \<leftarrow> (rd_elem weight (weight_elem c osize out_idx w i) :: 'w word option);
         x \<leftarrow> (rd_elem input (input_elem c isize len i) :: 'a word option);
         p \<leftarrow> int_c (sint y * sint x);
         int_c (sum + p)
       }) 0;
       wr_elem output (output_elem c osize len out_idx w) (word_of_int sum :: 'a word)
     })))"

text \<open>With floating-point activations; \<open>fmac\<close> adds to its first argument the product of the other two.\<close>

definition fp_conventionalCompute ::
  "('a::len, 'w::len) sa_cfg \<Rightarrow> ('a word \<Rightarrow> 'a word \<Rightarrow> 'w word \<Rightarrow> 'a word) \<Rightarrow> nat \<Rightarrow> 32 word list \<Rightarrow> 32 word list \<Rightarrow> nat \<Rightarrow> nat
     \<Rightarrow> 32 word list \<Rightarrow> 32 word list option" where
  "fp_conventionalCompute c fmac slen input weight isize osize =
     for_list [0..<slen] (\<lambda>len. for_list [0..<osize div ACT_PER_BUS c] (\<lambda>out_idx. for_list [0..<ACT_PER_BUS c] (\<lambda>w output. do {
       sum \<leftarrow> for_list [0..<isize] (\<lambda>i sum. do {
         x \<leftarrow> rd_elem input (input_elem c isize len i);
         y \<leftarrow> rd_elem weight (weight_elem c osize out_idx w i);
         Some (fmac sum x y)
       }) 0;
       wr_elem output (output_elem c osize len out_idx w) sum
     })))"

definition compute_software ::
  "('a::len, 'w::len) sa_cfg \<Rightarrow> multiplier \<Rightarrow> 32 word list \<Rightarrow> 32 word list \<Rightarrow> 32 word list \<Rightarrow> 32 word list option" where
  "compute_software c m input values output = do {
     assert_c (mult_format m = NON_PRUNED);
     conventionalCompute c (mult_seq_len m) input values (input_size m) (output_size m) output
   }"

subsection \<open>Row-major tensors\<close>

text \<open>Entry \<open>(t, k)\<close> of a row-major tensor with rows of \<open>n\<close> entries: the lanes of a bus word are mirrored in memory.\<close>

definition row_at :: "nat \<Rightarrow> 32 word list \<Rightarrow> nat \<Rightarrow> nat \<Rightarrow> 'b::len word" where
  "row_at n xs t k = elems xs ! mirror (per_bus TYPE('b)) (t * n + k)"

lemma mirror_reversed:
  assumes "0 < A" "A dvd n"
  shows "mirror A (t * n + k) = t * n + mirror A k"
proof -
  obtain q where n: "n = A * q" using assms(2) by (elim dvdE)
  have tn: "t * n + k = A * (t * q) + k" by (simp add: n)
  have "(t * n + k) div A = t * q + k div A" "(t * n + k) mod A = k mod A" unfolding tn using assms(1) by simp_all
  then show ?thesis by (simp add: mirror_def mem2d_def n distrib_left algebra_simps)
qed

lemma mirror_bij: "0 < A \<Longrightarrow> A dvd n \<Longrightarrow> bij_betw (mirror A) {..<n} {..<n}"
  by (rule bij_betw_byWitness [where f' = "mirror A"]) (auto simp: mirror_mirror mirror_less)

lemma mirror_4: "i + 3 - 2 * (i mod 4) = mirror 4 i"
  unfolding mirror_def mem2d_def using mod_less_divisor [of 4 i] div_mult_mod_eq [of i 4] by linarith

subsection \<open>Integer multiplication of bytes\<close>

lemma int_sum_run:
  assumes "\<And>i. i < n \<Longrightarrow> f i = Some (p i)" "\<And>i. i < n \<Longrightarrow> \<bar>p i\<bar> \<le> B" "int n * B < 2 ^ 31" "0 \<le> B"
  shows "for_list [0..<n] (\<lambda>i sum. do { v \<leftarrow> f i; int_c (sum + v) }) 0 = Some (\<Sum>i<n. p i) \<and> \<bar>\<Sum>i<n. p i\<bar> \<le> int n * B"
  using assms(1-3)
proof (induction n)
  case 0
  then show ?case by simp
next
  case (Suc n)
  define L where "L = int n * B"
  have SL: "int (Suc n) * B = L + B" by (simp add: L_def distrib_right)
  have "L < 2 ^ 31" using Suc.prems(3) assms(4) unfolding SL by linarith
  then have IH: "for_list [0..<n] (\<lambda>i sum. do { v \<leftarrow> f i; int_c (sum + v) }) 0 = Some (\<Sum>i<n. p i)" "\<bar>\<Sum>i<n. p i\<bar> \<le> L"
    using Suc.IH Suc.prems(1,2) by (simp_all add: L_def)
  have b: "\<bar>(\<Sum>i<n. p i) + p n\<bar> \<le> L + B" using IH(2) Suc.prems(2) [of n] by simp
  then have "int_c ((\<Sum>i<n. p i) + p n) = Some ((\<Sum>i<n. p i) + p n)" using Suc.prems(3) unfolding SL by (intro int_c_small) linarith
  with IH(1) Suc.prems(1) [of n] b show ?case unfolding SL by (simp add: for_list_append for_list_one)
qed

definition software_sum :: "nat \<Rightarrow> nat \<Rightarrow> 32 word list \<Rightarrow> 32 word list \<Rightarrow> nat \<Rightarrow> int" where
  "software_sum isize osize input weight p =
     (\<Sum>i<isize. sint (elems weight ! (mirror 4 i * osize + p mod osize) :: 8 word) * sint (elems input ! (p div osize * isize + i) :: 8 word))"

lemma byte_product: "\<bar>sint (x :: 8 word) * sint (y :: 8 word)\<bar> \<le> 16384"
proof -
  have "\<bar>sint z\<bar> \<le> 128" for z :: "8 word" using sint_greater_eq [of z] sint_less [of z] by simp
  from mult_mono [OF this this] show ?thesis by (simp add: abs_mult)
qed

lemma software_entry:
  fixes c :: "(8, 8) sa_cfg"
  assumes dims: "4 dvd isize" "4 dvd osize" "isize < 131072"
    and len: "slen * isize \<le> 4 * length input" "isize * osize \<le> 4 * length weight" and p: "p < slen * osize"
  shows "for_list [0..<isize] (\<lambda>i sum. do {
      y \<leftarrow> (rd_elem weight (weight_elem c osize (p mod osize div 4) (p mod osize mod 4) i) :: 8 word option);
      x \<leftarrow> (rd_elem input (input_elem c isize (p div osize) i) :: 8 word option);
      p \<leftarrow> int_c (sint y * sint x);
      int_c (sum + p) }) 0 = Some (software_sum isize osize input weight p)"
proof -
  have A: "ACT_PER_BUS c = 4" "W_PER_BUS c = 4" "per_bus TYPE(8) = 4" by (simp_all add: ACT_PER_BUS_def W_PER_BUS_def per_bus_def BUS_WIDTH_def)
  have o: "0 < osize" using p by (cases osize) auto
  have t: "p div osize < slen" using p by (simp add: less_mult_imp_div_less)
  define f where "f = (\<lambda>i. do {
      y \<leftarrow> (rd_elem weight (weight_elem c osize (p mod osize div 4) (p mod osize mod 4) i) :: 8 word option);
      x \<leftarrow> (rd_elem input (input_elem c isize (p div osize) i) :: 8 word option); int_c (sint y * sint x) })"
  have "f i = Some (sint (elems weight ! (mirror 4 i * osize + p mod osize) :: 8 word) * sint (elems input ! (p div osize * isize + i) :: 8 word))"
    if i: "i < isize" for i
  proof -
    have "weight_elem c osize (p mod osize div 4) (p mod osize mod 4) i = mirror 4 i * osize + (p mod osize div 4 * 4 + p mod osize mod 4)"
      by (simp only: weight_elem_def A mirror_4 add_ac)
    then have w: "weight_elem c osize (p mod osize div 4) (p mod osize mod 4) i = mem2d osize (mirror 4 i) (p mod osize)"
      by (simp add: mem2d_def)
    have "p div osize * isize div 4 * 4 = p div osize * isize" using dims(1) by simp
    then have x: "input_elem c isize (p div osize) i = mem2d isize (p div osize) i" by (simp add: input_elem_def A mem2d_def)
    have "mem2d osize (mirror 4 i) (p mod osize) < isize * osize" using i o dims(1) by (intro mem2d_less mirror_less) simp_all
    then have "rd_elem weight (mem2d osize (mirror 4 i) (p mod osize)) = Some (elems weight ! mem2d osize (mirror 4 i) (p mod osize) :: 8 word)"
      using len(2) by (subst packed.get_view) (simp_all add: A rd_def)
    moreover have "mem2d isize (p div osize) i < slen * isize" using i t by (intro mem2d_less)
    then have "rd_elem input (mem2d isize (p div osize) i) = Some (elems input ! mem2d isize (p div osize) i :: 8 word)"
      using len(1) by (subst packed.get_view) (simp_all add: A rd_def)
    moreover have "int_c (sint x * sint y) = Some (sint x * sint y)" for x y :: "8 word"
      using byte_product [of x y] by (intro int_c_small) simp
    ultimately show ?thesis by (simp add: f_def w x) (simp add: mem2d_def)
  qed
  moreover have "int isize * 16384 < 2 ^ 31" using dims(3) by simp
  ultimately have "for_list [0..<isize] (\<lambda>i sum. do { v \<leftarrow> f i; int_c (sum + v) }) 0 = Some (software_sum isize osize input weight p)"
    using int_sum_run [of isize f _ 16384] byte_product unfolding software_sum_def by simp
  then show ?thesis by (simp add: f_def)
qed

lemma conventionalCompute_run:
  fixes c :: "(8, 8) sa_cfg"
  assumes dims: "4 dvd isize" "4 dvd osize" "isize < 131072"
    and len: "slen * isize \<le> 4 * length input" "isize * osize \<le> 4 * length weight" "slen * osize \<le> 4 * length output"
  shows "\<exists>output'. conventionalCompute c slen input weight isize osize output = Some output' \<and>
    (elems output' :: 8 word list) = map (\<lambda>p. word_of_int (software_sum isize osize input weight p)) [0..<slen * osize] @ drop (slen * osize) (elems output)"
proof -
  let ?S = "\<lambda>p. word_of_int (software_sum isize osize input weight p) :: 8 word"
  have A: "ACT_PER_BUS c = 4" "per_bus TYPE(8) = 4" by (simp_all add: ACT_PER_BUS_def per_bus_def BUS_WIDTH_def)
  have o4: "osize div 4 * 4 = osize" using dims(2) by simp
  define body where "body = (\<lambda>len out_idx w output. do {
       sum \<leftarrow> for_list [0..<isize] (\<lambda>i sum. do {
         y \<leftarrow> (rd_elem weight (weight_elem c osize out_idx w i) :: 8 word option);
         x \<leftarrow> (rd_elem input (input_elem c isize len i) :: 8 word option);
         p \<leftarrow> int_c (sint y * sint x);
         int_c (sum + p)
       }) 0;
       wr_elem output (output_elem c osize len out_idx w) (word_of_int sum :: 8 word) })"
  have flat: "conventionalCompute c slen input weight isize osize output =
      for_list [0..<slen * osize] (\<lambda>p. body (p div osize) (p mod osize div 4) (p mod osize mod 4)) output"
    unfolding conventionalCompute_def body_def A for_list_nest [of "osize div 4" 4] o4 by (simp only: for_list_nest)
  have pos: "output_elem c osize (p div osize) (p mod osize div 4) (p mod osize mod 4) = p" for p
    using dims(2) by (simp add: output_elem_def A distrib_right)
  define I where "I = (\<lambda>n out. (elems out :: 8 word list) = map ?S [0..<n] @ drop n (elems output))"
  have "\<exists>out. for_list [0..<slen * osize] (\<lambda>p. body (p div osize) (p mod osize div 4) (p mod osize mod 4)) output = Some out \<and> I (slen * osize) out"
  proof (rule for_up_rule)
    fix p out assume p: "p < slen * osize" and I: "I p out"
    have len_out: "length (elems out :: 8 word list) = 4 * length output" using I p len(3) by (simp add: I_def A)
    then have "p < length (elems out :: 8 word list)" using p len(3) by simp
    then obtain out' where out': "wr_elem out p (?S p) = Some out'" "(elems out' :: 8 word list) = (elems out)[p := ?S p]"
      using packed.put_view [where 'b = 8, of p out "?S p"] by (auto simp: A)
    have "drop p (elems output :: 8 word list) = elems output ! p # drop (Suc p) (elems output)"
      using p len(3) by (intro Cons_nth_drop_Suc [symmetric]) (simp add: A)
    then have "I (Suc p) out'" using I by (simp add: I_def out'(2) list_update_append)
    then show "\<exists>out'. body (p div osize) (p mod osize div 4) (p mod osize mod 4) out = Some out' \<and> I (Suc p) out'"
      using out'(1) unfolding body_def software_entry [OF dims len(1,2) p] by (simp add: pos)
  qed (simp_all add: I_def)
  then show ?thesis unfolding flat by (simp add: I_def)
qed

lemma software_row_at:
  assumes "4 dvd isize" "4 dvd osize" "j < osize"
  shows "(word_of_int (software_sum isize osize input weight (t * osize + mirror 4 j)) :: 8 word) =
    (\<Sum>k<isize. row_at isize input t k * (row_at osize weight k j :: 8 word))"
proof -
  have A: "per_bus TYPE(8) = 4" by (simp add: per_bus_def BUS_WIDTH_def)
  have m: "mirror 4 j < osize" using assms by (intro mirror_less) simp_all
  have "(\<Sum>k<isize. row_at isize input t k * (row_at osize weight k j :: 8 word)) =
      (\<Sum>k<isize. row_at isize input t (mirror 4 k) * row_at osize weight (mirror 4 k) j)"
    by (rule sum.reindex_bij_betw [OF mirror_bij, symmetric]) (simp_all add: assms(1))
  also have "\<dots> = word_of_int (software_sum isize osize input weight (t * osize + mirror 4 j))"
    using m assms(1,2) by (simp add: software_sum_def row_at_def A mirror_reversed mirror_mirror) (simp add: mult.commute)
  finally show ?thesis by simp
qed

subsection \<open>Software and accelerator\<close>

lemma software_product:
  fixes c :: "(8, 8) sa_cfg"
  assumes dims: "4 dvd input_size m" "4 dvd output_size m" "input_size m < 131072" "mult_format m = NON_PRUNED"
    and len: "mult_seq_len m * input_size m \<le> 4 * length input" "input_size m * output_size m \<le> 4 * length weight"
      "mult_seq_len m * output_size m \<le> 4 * length output"
  shows "\<exists>output'. compute_software c m input weight output = Some output' \<and>
    (\<forall>t<mult_seq_len m. \<forall>j<output_size m. row_at (output_size m) output' t j =
       (\<Sum>k<input_size m. row_at (input_size m) input t k * (row_at (output_size m) weight k j :: 8 word)))"
proof -
  let ?N = "mult_seq_len m * output_size m"
  obtain output' where out': "conventionalCompute c (mult_seq_len m) input weight (input_size m) (output_size m) output = Some output'"
    "(elems output' :: 8 word list) = map (\<lambda>p. word_of_int (software_sum (input_size m) (output_size m) input weight p)) [0..<?N] @ drop ?N (elems output)"
    using conventionalCompute_run [OF dims(1-3) len, of c] by blast
  have "row_at (output_size m) output' t j = (\<Sum>k<input_size m. row_at (input_size m) input t k * (row_at (output_size m) weight k j :: 8 word))"
    if t: "t < mult_seq_len m" and j: "j < output_size m" for t j
  proof -
    have A: "per_bus TYPE(8) = 4" by (simp add: per_bus_def BUS_WIDTH_def)
    have "mem2d (output_size m) t (mirror 4 j) < ?N" using t j dims(2) by (intro mem2d_less mirror_less) simp_all
    then have "(elems output' :: 8 word list) ! (t * output_size m + mirror 4 j) =
        word_of_int (software_sum (input_size m) (output_size m) input weight (t * output_size m + mirror 4 j))"
      unfolding out'(2) by (simp add: mem2d_def nth_append)
    then show ?thesis using software_row_at [OF dims(1,2) j] dims(2) by (simp add: row_at_def A mirror_reversed)
  qed
  then show ?thesis using out'(1) dims(4) by (simp add: compute_software_def)
qed

text \<open>C10: With 8-bit integers the software multiplication and the simulated accelerator compute the same matrix: where
  the row-major tensors of the one and the blocked tensors of the other hold the same entries, both return and their
  results hold the same entries.\<close>

theorem software_matches_accelerator:
  fixes c :: "(8, 8) sa_cfg"
  assumes "gem5_supported c" "int_arith c" "on_tile (tile_wf c) s" "mult_format m = NON_PRUNED"
    and dims: "kernel_dim c dvd input_size m" "kernel_dim c dvd output_size m" "input_size m < 131072"
    and row: "mult_seq_len m * input_size m \<le> 4 * length x" "input_size m * output_size m \<le> 4 * length w"
      "mult_seq_len m * output_size m \<le> 4 * length y"
    and blocked: "kernel_ok c m wb" "shapes_ok c m xb (length yb)"
    and same: "\<And>t k. t < mult_seq_len m \<Longrightarrow> k < input_size m \<Longrightarrow> act_at c (mult_seq_len m) xb t k = row_at (input_size m) x t k"
      "\<And>k j. k < input_size m \<Longrightarrow> j < output_size m \<Longrightarrow> weight_at c (row_in_w c m) wb k j = row_at (output_size m) w k j"
      "\<And>t j. t < mult_seq_len m \<Longrightarrow> j < output_size m \<Longrightarrow> act_at c (mult_seq_len m) yb t j = 0"
  shows "\<exists>y' s' yb'. compute_software c m x w y = Some y' \<and>
    compute_packed c (gem5_ops c th) m xb row_ptr col_ind wb (s, yb) = Some (s', yb') \<and>
    (\<forall>t<mult_seq_len m. \<forall>j<output_size m. act_at c (mult_seq_len m) yb' t j = row_at (output_size m) y' t j)"
proof -
  have ok: "cfg_ok c" using assms(1) by (simp add: gem5_supported_def)
  then have "4 dvd kernel_dim c" by (simp add: cfg_ok_def ACT_PER_BUS_def per_bus_def BUS_WIDTH_def)
  then have four: "4 dvd input_size m" "4 dvd output_size m" using dims(1,2) by (auto intro: dvd_trans)
  obtain y' where y': "compute_software c m x w y = Some y'"
    "\<And>t j. t < mult_seq_len m \<Longrightarrow> j < output_size m \<Longrightarrow> row_at (output_size m) y' t j =
       (\<Sum>k<input_size m. row_at (input_size m) x t k * (row_at (output_size m) w k j :: 8 word))"
    using software_product [OF four dims(3) assms(4) row, of c] by blast
  obtain s' yb' where yb': "compute_packed c (gem5_ops c th) m xb row_ptr col_ind wb (s, yb) = Some (s', yb')" "is_product c m xb wb yb yb'"
    using gem5.dense_formats_product [OF assms(1-3) blocked, of th row_ptr col_ind] assms(4) by blast
  have "act_at c (mult_seq_len m) yb' t j = row_at (output_size m) y' t j" if "t < mult_seq_len m" "j < output_size m" for t j
    using yb'(2) that same dims(1,2) y'(2) [OF that] by (simp add: is_product_def row_in_w_def col_in_w_def)
  then show ?thesis using y'(1) yb'(1) by blast
qed

definition soft_cfg :: "(8, 8) sa_cfg" where
  "soft_cfg = int_cfg 4"

definition soft_mult :: multiplier where
  "soft_mult = SparseMatrixMultiplier 4 4 2 NON_PRUNED"

lemma soft_simps [simp]:
  "kernel_dim soft_cfg = 4" "ACT_PER_BUS soft_cfg = 4" "W_PER_BUS soft_cfg = 4" "MAX_ACT_COL soft_cfg = 1" "MAX_W_COL soft_cfg = 1"
  "input_size soft_mult = 4" "output_size soft_mult = 4" "mult_seq_len soft_mult = 2" "mult_format soft_mult = NON_PRUNED"
  "row_in_w soft_cfg soft_mult = 1" "col_in_w soft_cfg soft_mult = 1" "tile_words soft_cfg = 4" "int_arith soft_cfg" "gem5_supported soft_cfg"
  by (simp_all add: soft_cfg_def soft_mult_def int_cfg_def ACT_PER_BUS_def W_PER_BUS_def MAX_ACT_COL_def MAX_W_COL_def per_bus_def
      BUS_WIDTH_def CEILING_DIV_def SparseMatrixMultiplier_def row_in_w_def col_in_w_def tile_words_def int_arith_def gem5_supported_def cfg_ok_def)

text \<open>Rows of one bus word are laid out in the same way in both layouts.\<close>

lemma one_word_rows:
  assumes "t < length xs" "k < 4"
  shows "row_at 4 xs t k = (bus_lane (xs ! t) k :: 8 word)"
proof -
  have A: "per_bus TYPE(8) = 4" by (simp add: per_bus_def BUS_WIDTH_def)
  have "mirror 4 (t * 4 + k) = mem2d 4 t (3 - k)" using assms(2) by (simp add: mirror_def)
  moreover have "mem2d 4 t (3 - k) < length xs * 4" using assms by (intro mem2d_less) simp_all
  ultimately show ?thesis using assms(2) by (simp add: row_at_def A nth_elems mem_lane_bus)
qed

theorem software_matches_accelerator_witness:
  "\<exists>y' s' yb'. compute_software soft_cfg soft_mult [1, 2] [3, 4, 5, 6] [0, 0] = Some y' \<and>
     compute_packed soft_cfg (gem5_ops soft_cfg 0) soft_mult [1, 2] [] [] [3, 4, 5, 6] (((\<lambda>_. 0), smm_create soft_cfg 0 0 1), [0, 0]) = Some (s', yb') \<and>
     (\<forall>t<2. \<forall>j<4. act_at soft_cfg 2 yb' t j = row_at 4 y' t j)"
proof -
  let ?x = "[1, 2] :: 32 word list" and ?w = "[3, 4, 5, 6] :: 32 word list" and ?s = "((\<lambda>_. 0), smm_create soft_cfg 0 0 1)"
  have s: "on_tile (tile_wf soft_cfg) ?s" by (simp add: on_tile_def smm_create_def get_tile_def rdi_def rd_def SATile_wf)
  have zero: "act_at soft_cfg 2 [0, 0] t j = 0" if "t < 2" "j < 4" for t j
    using that by (simp add: act_at_def nth_Cons split: nat.splits)
  have x: "act_at soft_cfg 2 ?x t k = row_at 4 ?x t k" if "t < 2" "k < 4" for t k
    using that one_word_rows [of t ?x k] by (simp add: act_at_def)
  have w: "weight_at soft_cfg 1 ?w k j = row_at 4 ?w k j" if "k < 4" "j < 4" for k j
    using that one_word_rows [of k ?w j] by (simp add: weight_at_def mem2d_def)
  show ?thesis
    using software_matches_accelerator [of soft_cfg ?s soft_mult ?x ?w "[0, 0]" ?w ?x "[0, 0]" 0 "[]" "[]"] s x w zero
    by (simp add: kernel_ok_def shapes_ok_def)
qed

end
