(* ===== verification/TiC_Softmax_Fixed.thy ===== *)
theory TiC_Softmax_Fixed
  imports TiC_Smm Complex_Main
begin

text \<open>
  The fixed-point soft-max of \<^verbatim>\<open>transformer_layers/softmax.cc\<close> (\<^verbatim>\<open>computeFloat\<close> and its helpers). Numbers with sixteen
  fractional bits are kept in an \<^verbatim>\<open>int32_t\<close>. The operations on \<^verbatim>\<open>float\<close> are the record \<open>float_ops\<close> over a type \<open>'f\<close>. An
  overflow, a shift that loses bits (as C++17 has it), a division by zero and an access outside a vector are \<open>None\<close>.
\<close>

subsection \<open>Model\<close>

record 'f float_ops =
  itof :: "int \<Rightarrow> 'f"
  fmul :: "'f \<Rightarrow> 'f \<Rightarrow> 'f"
  fdiv :: "'f \<Rightarrow> 'f \<Rightarrow> 'f"
  fexp :: "'f \<Rightarrow> 'f"
  fround :: "'f \<Rightarrow> int"

text \<open>\<^verbatim>\<open>x << n\<close> on an \<^verbatim>\<open>int\<close>, and the division that truncates.\<close>

definition shl_c :: "int \<Rightarrow> nat \<Rightarrow> int option" where
  "shl_c x n = (if 0 \<le> x \<and> x * 2 ^ n < 2 ^ 32 then Some (sint (word_of_int (x * 2 ^ n) :: 32 word)) else None)"

definition quot_c :: "int \<Rightarrow> int \<Rightarrow> int option" where
  "quot_c a b = (if b = 0 then None else int_c (sgn a * sgn b * (\<bar>a\<bar> div \<bar>b\<bar>)))"

definition float_to_fixed :: "'f float_ops \<Rightarrow> 'f \<Rightarrow> nat \<Rightarrow> int option" where
  "float_to_fixed fo v fractional_bits = int_c (fround fo (fmul fo v (itof fo (2 ^ fractional_bits))))"

definition fixed_to_float :: "'f float_ops \<Rightarrow> int \<Rightarrow> nat \<Rightarrow> 'f" where
  "fixed_to_float fo v fractional_bits = fdiv fo (itof fo v) (itof fo (2 ^ fractional_bits))"

definition chunk_max :: "nat \<Rightarrow> nat \<Rightarrow> int list \<Rightarrow> int option" where
  "chunk_max i chunk_size input = do {
     max_val \<leftarrow> rd input (i * chunk_size);
     for_list [i * chunk_size + 1..<(i + 1) * chunk_size] (\<lambda>j max_val. do {
       x \<leftarrow> rd input j;
       Some (if max_val < x then x else max_val)
     }) max_val
   }"

definition exp_step :: "'f float_ops \<Rightarrow> nat \<Rightarrow> int \<Rightarrow> nat \<Rightarrow> int list \<times> int \<Rightarrow> (int list \<times> int) option" where
  "exp_step fo fractional_bits max_val j = (\<lambda>(input, sum_exp). do {
     x \<leftarrow> rd input j;
     d \<leftarrow> int_c (x - max_val);
     exp_val \<leftarrow> float_to_fixed fo (fexp fo (fixed_to_float fo d fractional_bits)) fractional_bits;
     input \<leftarrow> wr input j exp_val;
     sum_exp \<leftarrow> int_c (sum_exp + exp_val);
     Some (input, sum_exp)
   })"

definition divide_step :: "nat \<Rightarrow> int \<Rightarrow> nat \<Rightarrow> int list \<Rightarrow> int list option" where
  "divide_step fractional_bits sum_exp j input = do {
     x \<leftarrow> rd input j;
     y \<leftarrow> shl_c x fractional_bits;
     q \<leftarrow> quot_c y sum_exp;
     wr input j q
   }"

definition softmax_chunk :: "'f float_ops \<Rightarrow> nat \<Rightarrow> nat \<Rightarrow> nat \<Rightarrow> int list \<Rightarrow> int list option" where
  "softmax_chunk fo chunk_size fractional_bits i input = do {
     max_val \<leftarrow> chunk_max i chunk_size input;
     (input, sum_exp) \<leftarrow> for_list [i * chunk_size..<(i + 1) * chunk_size] (exp_step fo fractional_bits max_val) (input, 0);
     for_list [i * chunk_size..<(i + 1) * chunk_size] (divide_step fractional_bits sum_exp) input
   }"

definition softmax_fixed :: "('a::len, 'w::len) sa_cfg \<Rightarrow> 'f float_ops \<Rightarrow> nat \<Rightarrow> int list \<Rightarrow> int list option" where
  "softmax_fixed c fo fractional_bits input =
     for_list [0..<ACT_PER_BUS c] (softmax_chunk fo (length input div ACT_PER_BUS c) fractional_bits) input"

definition computeFloat :: "('a::len, 'w::len) sa_cfg \<Rightarrow> 'f float_ops \<Rightarrow> 32 word list \<Rightarrow> nat \<Rightarrow> 'f list option" where
  "computeFloat c fo in_matrix seq_len = do {
     let fractional_bits = 16;
     input_act \<leftarrow> for_list [0..<seq_len div ACT_PER_BUS c] (\<lambda>i input_act. do {
       v \<leftarrow> rd in_matrix i;
       for_list [0..<ACT_PER_BUS c] (\<lambda>j input_act. wr input_act (i * ACT_PER_BUS c + j) (mem_lane v j :: 'a word)) input_act
     }) (replicate seq_len 0);
     input_fixed \<leftarrow> for_list [0..<seq_len] (\<lambda>i input_fixed. do {
       x \<leftarrow> rd input_act i;
       v \<leftarrow> float_to_fixed fo (itof fo (sint x)) fractional_bits;
       wr input_fixed i v
     }) (replicate seq_len 0);
     input_fixed \<leftarrow> softmax_fixed c fo fractional_bits input_fixed;
     Some (map (\<lambda>v. fixed_to_float fo v fractional_bits) input_fixed)
   }"

subsection \<open>The largest element of a chunk\<close>

lemma chunk_max_in:
  assumes "chunk_max i n input = Some m" "0 < n"
  shows "\<exists>j. i * n \<le> j \<and> j < (i + 1) * n \<and> j < length input \<and> input ! j = m"
proof -
  obtain x where x: "rd input (i * n) = Some x" and run: "for_list [i * n + 1..<(i + 1) * n] (\<lambda>j m. do { x \<leftarrow> rd input j; Some (if m < x then x else m) }) x = Some m"
    using assms(1) by (auto simp: chunk_max_def split: Option.bind_splits)
  show ?thesis
  proof (rule for_up_partial [OF run, where I = "\<lambda>_ m. \<exists>j. i * n \<le> j \<and> j < (i + 1) * n \<and> j < length input \<and> input ! j = m"])
    show "\<exists>j. i * n \<le> j \<and> j < (i + 1) * n \<and> j < length input \<and> input ! j = x"
      using x assms(2) by (intro exI [of _ "i * n"]) (auto simp: rd_def split: if_splits)
  next
    fix k m m' assume k: "i * n + 1 \<le> k" "k < (i + 1) * n" and I: "\<exists>j. i * n \<le> j \<and> j < (i + 1) * n \<and> j < length input \<and> input ! j = m"
      and "do { x \<leftarrow> rd input k; Some (if m < x then x else m) } = Some m'"
    then have "k < length input \<and> (m' = input ! k \<or> m' = m)" by (auto simp: rd_def split: if_splits)
    moreover have "i * n \<le> k" using k(1) by simp
    ultimately show "\<exists>j. i * n \<le> j \<and> j < (i + 1) * n \<and> j < length input \<and> input ! j = m'" using I k(2) by blast
  qed (use assms(2) in simp)
qed

lemma exp_loop_value:
  assumes "for_list [a..<b] (exp_step fo fb m) (xs, 0) = Some (ys, s)" "a \<le> b" "a \<le> j" "j < b" "xs ! j = m"
    and "float_to_fixed fo (fexp fo (fixed_to_float fo 0 fb)) fb = Some v"
  shows "ys ! j = v"
proof -
  have "length (fst (ys, s)) = length xs \<and> (if j < b then fst (ys, s) ! j = v else fst (ys, s) ! j = m)"
  proof (rule for_up_partial [OF assms(1), where I = "\<lambda>n st. length (fst st) = length xs \<and> (if j < n then fst st ! j = v else fst st ! j = m)"])
    fix k st st' assume k: "a \<le> k" "k < b" and I: "length (fst st) = length xs \<and> (if j < k then fst st ! j = v else fst st ! j = m)"
      and step: "exp_step fo fb m k st = Some st'"
    obtain zs t where st: "st = (zs, t)" by (cases st)
    obtain d e t' where e: "k < length zs" "int_c (zs ! k - m) = Some d" "float_to_fixed fo (fexp fo (fixed_to_float fo d fb)) fb = Some e" "st' = (zs[k := e], t')"
      using step by (auto simp: st exp_step_def rd_def wr_def split: Option.bind_splits if_splits)
    have "e = v" if "k = j"
      using that e(2,3) I assms(6) int_c_Some [OF e(2)] by (simp add: st)
    then show "length (fst st') = length xs \<and> (if j < Suc k then fst st' ! j = v else fst st' ! j = m)"
      using I e(1,4) by (auto simp: st nth_list_update less_Suc_eq)
  qed (use assms in auto)
  then show ?thesis using assms(4) by simp
qed

lemma divide_loop_None:
  assumes "a \<le> j" "j < b" "shl_c (xs ! j) fb = None"
  shows "for_list [a..<b] (divide_step fb s) xs = None"
proof (rule ccontr)
  assume "for_list [a..<b] (divide_step fb s) xs \<noteq> None"
  then obtain ys where run: "for_list [a..<b] (divide_step fb s) xs = Some ys" by auto
  have "ys ! j = xs ! j \<and> b \<le> j"
  proof (rule for_up_partial [OF run, where I = "\<lambda>n ys. ys ! j = xs ! j \<and> n \<le> j"])
    fix k zs zs' assume I: "zs ! j = xs ! j \<and> k \<le> j" and step: "divide_step fb s k zs = Some zs'"
    obtain y q where "shl_c (zs ! k) fb = Some y" "zs' = zs[k := q]"
      using step by (auto simp: divide_step_def rd_def wr_def split: Option.bind_splits if_splits)
    moreover from this have "k \<noteq> j" using I assms(3) by auto
    ultimately show "zs' ! j = xs ! j \<and> Suc k \<le> j" using I by simp
  qed (use assms in auto)
  then show False using assms(2) by simp
qed

text \<open>The exponential of the largest element is one, which has no room for sixteen more bits.\<close>

lemma softmax_chunk_undefined:
  assumes "0 < n" "float_to_fixed fo (fexp fo (fixed_to_float fo 0 16)) 16 = Some 65536"
  shows "softmax_chunk fo n 16 i input = None"
proof (rule ccontr)
  assume "softmax_chunk fo n 16 i input \<noteq> None"
  then obtain m ys s where m: "chunk_max i n input = Some m"
    and exp: "for_list [i * n..<(i + 1) * n] (exp_step fo 16 m) (input, 0) = Some (ys, s)"
    and div: "for_list [i * n..<(i + 1) * n] (divide_step 16 s) ys \<noteq> None"
    by (auto simp: softmax_chunk_def split: Option.bind_splits)
  obtain j where j: "i * n \<le> j" "j < (i + 1) * n" "input ! j = m" using chunk_max_in [OF m assms(1)] by blast
  have "ys ! j = 65536" using exp_loop_value [OF exp _ j assms(2)] by simp
  then have "shl_c (ys ! j) 16 = None" by (simp add: shl_c_def)
  from divide_loop_None [OF j(1,2) this] div show False by simp
qed

text \<open>C32: The fixed-point soft-max is undefined for every input of at least one element per chunk: the shift of the
  largest exponential, which is exactly one, overflows.\<close>

theorem computeFloat_undefined:
  fixes c :: "('a::len, 'w::len) sa_cfg"
  assumes "0 < ACT_PER_BUS c" "ACT_PER_BUS c \<le> seq_len"
    and "fround fo (fmul fo (fexp fo (fdiv fo (itof fo 0) (itof fo 65536))) (itof fo 65536)) = 65536"
  shows "computeFloat c fo in_matrix seq_len = None"
proof -
  have one: "float_to_fixed fo (fexp fo (fixed_to_float fo 0 16)) 16 = Some 65536"
    using assms(3) by (simp add: float_to_fixed_def fixed_to_float_def int_c_def)
  have "softmax_fixed c fo 16 xs = None" if "length xs = seq_len" for xs
  proof -
    have "0 < seq_len div ACT_PER_BUS c" using assms(1,2) by (simp add: div_greater_zero_iff)
    from softmax_chunk_undefined [OF this one] show ?thesis
      using assms(1) that by (simp add: softmax_fixed_def upt_conv_Cons)
  qed
  moreover have "length ys = seq_len"
    if "for_list [0..<seq_len] (\<lambda>i zs. do { x \<leftarrow> rd acts i; v \<leftarrow> float_to_fixed fo (itof fo (sint x)) 16; wr zs i v }) (replicate seq_len 0) = Some ys"
    for acts :: "'a word list" and ys
    by (rule for_up_partial [OF that, where I = "\<lambda>_ zs. length zs = seq_len"]) (auto simp: wr_def split: Option.bind_splits if_splits)
  ultimately show ?thesis by (auto simp: computeFloat_def split: Option.bind_splits)
qed

definition real_ops :: "real float_ops" where
  "real_ops = \<lparr>itof = real_of_int, fmul = (*), fdiv = (/), fexp = exp, fround = round\<rparr>"

theorem computeFloat_undefined_witness: "computeFloat (int_cfg 4 :: (8, 8) sa_cfg) real_ops [0x01020304, 0x05060708] 8 = None"
  by (rule computeFloat_undefined) (simp_all add: real_ops_def ACT_PER_BUS_def per_bus_def BUS_WIDTH_def)

end
