(* ===== verification/Spec2Isabelle.thy ===== *)
theory Spec2Isabelle
  imports TiC_Limits TiC_Device_Safety TiC_Inference TiC_Mult_Test TiC_FP_Results TiC_Software TiC_Softmax_Fixed
begin

text \<open>
TiC-SAT: tightly-coupled systolic arrays for transformers.

\<^bold>\<open>The program.\<close> The repository is a transformer encoder in C++ that runs as a guest program on a modified gem5 simulator. The
simulator has a systolic array per CPU (\<^verbatim>\<open>gem5-X-TiC-SAT/src/dev/arm/systolic_m2m.{hh,cc}\<close>), which the guest drives with four
custom instructions (\<^verbatim>\<open>arch/arm/isa\<close>, inline assembly in \<^verbatim>\<open>accelerator/smm_gem.cc\<close>). With \<^verbatim>\<open>DEVELOP\<close> defined a class of the guest
(\<^verbatim>\<open>accelerator/systolic_m2m.cc\<close>) emulates the array, and with \<^verbatim>\<open>SW_MULT\<close> a loop nest replaces it. On top of the array
\<^verbatim>\<open>accelerator/sparseMatrixMultiplication.cpp\<close> multiplies tensors with weight kernels in eight storage formats that
\<^verbatim>\<open>transformer_layers/sparse_rep.cc\<close> writes; the layers in \<^verbatim>\<open>transformer_layers/\<close> use it, \<^verbatim>\<open>transformer.cc\<close> builds a block from
random kernels and runs it, and \<^verbatim>\<open>mat_mult_test.cpp\<close> tests the array. Floating-point instructions of the guest are executed by
the simulator's \<^verbatim>\<open>arch/arm/insts/fplib.cc\<close>.

\<^bold>\<open>How code is modelled.\<close> Arrays of machine words are lists; \<open>rd\<close>, \<open>wr\<close>, \<open>rdi\<close>, \<open>wri\<close> access them with a check, and an access
outside the array, a failed assertion or a division by zero is the value \<open>None\<close> of the option monad (\<open>assert_c\<close>, \<open>div_c\<close>). So is
an overflow of the signed arithmetic of the software (\<open>int_c\<close>: software multiplication, fixed-point soft-max, add-and-normalise
layer, test program). The adders of the array and of \<^verbatim>\<open>addActIn32\<close> (\<open>mac_int\<close>, \<open>act_add\<close>) wrap in two's complement instead, so that
products are stated modulo the width of an activation; C++ leaves their overflow undefined, which cannot happen with 8-bit data
(\<open>col_sum_exact\<close>). The row total of the integer soft-max is a 32-bit word as well, and does not overflow in the range of its theorems. Indices and sizes are naturals where the code has \<^verbatim>\<open>int\<close> or \<^verbatim>\<open>uint32_t\<close> (\<open>processMultiplication\<close>,
\<open>new_kernel_size\<close>), and the number of fractional bits of \<open>fp32_cvtf\<close> and \<open>fp64_cvtf\<close> is an integer, of which the instructions use
0 to 64. Counted loops are \<open>for_list\<close>, loops with a break \<open>for_brk\<close>, and proofs about them use the
invariant rules of \<open>TiC_Prelude\<close>. \<^verbatim>\<open>exit\<close> is a value of the type \<open>outcome\<close>. The one loop without a bound, the flushing of the
array in the test program, is a \<^theory_text>\<open>partial_function (option)\<close>, and its termination is a theorem; no model has fuel. The widths
of activations and weights are the type arguments of the record \<open>sa_cfg\<close>, so every theorem about a configuration \<open>c\<close> holds for
all widths its hypotheses allow. Tensors appear to the specification as matrices through \<open>act_at\<close>, \<open>weight_at\<close> (blocked
layout) and \<open>row_act_at\<close> (row-major layout).

\<^bold>\<open>Theories and source files.\<close>
\<^item> \<open>TiC_Prelude\<close>, \<open>TiC_Config\<close>: array and loop combinators; the macros and types of \<^verbatim>\<open>util.h\<close>.
\<^item> \<open>TiC_SATile\<close>, \<open>TiC_Dataflow\<close>: the device of the simulator (record \<open>sa_tile\<close>, \<open>smm_dev\<close>; \<open>loadWeights\<close>, \<open>inputQueue\<close>,
  \<open>readFlag\<close>, \<open>streamInOut\<close>, construction, checkpoints), its invariant \<open>tile_wf\<close>, and the proof that a stream of words leaves the
  array as products with the weights.
\<^item> \<open>TiC_Smm\<close>, \<open>TiC_Device_Safety\<close>: instruction words, decoder and execution on the register file, the wrappers of
  \<^verbatim>\<open>smm_gem.cc\<close>; which operands are safe, and what checkpoints lose: the tiles of the simulation that takes one are freed, and
  the simulation that restores one, on a device constructed anew, has tiles without weights (\<open>checkpoint_loses_tiles\<close>).
\<^item> \<open>TiC_Develop\<close>: the emulation of \<^verbatim>\<open>accelerator/systolic_m2m.cc\<close>.
\<^item> \<open>TiC_Tile_Mult\<close>, \<open>TiC_Sparse_Mult\<close>: \<^verbatim>\<open>processMultiplication\<close> and the methods of \<^verbatim>\<open>SparseMatrixMultiplier\<close>;
  \<open>TiC_Software\<close>: \<^verbatim>\<open>conventionalCompute\<close>.
\<^item> \<open>TiC_Schedule\<close>, \<open>TiC_Formats\<close>, \<open>TiC_Product\<close>: the specification of a multiplication as a schedule of tiles, what each reader
  requires of its data, and schedules as matrix products.
\<^item> \<open>TiC_Sparse_Rep\<close>, \<open>TiC_Matmul\<close>, \<open>TiC_Limits\<close>: the writers of \<^verbatim>\<open>sparse_rep.cc\<close>, writers and readers together, and the
  conditions that cannot be dropped.
\<^item> \<open>TiC_Elements\<close>, \<open>TiC_Layout\<close>, \<open>TiC_Rows\<close>: element pointers into word arrays, \<^verbatim>\<open>transpose.cc\<close> and the conversions of
  \<^verbatim>\<open>debuggerFunctions.cc\<close>, loops over rows.
\<^item> \<open>TiC_Softmax\<close>, \<open>TiC_Softmax_Fixed\<close>, \<open>TiC_AddNorm\<close>, \<open>TiC_Dense\<close>, \<open>TiC_Attention\<close>, \<open>TiC_Block\<close>: \<^verbatim>\<open>softmax.cc\<close>, \<^verbatim>\<open>addNorm.cc\<close>,
  \<^verbatim>\<open>dense.cc\<close>, \<^verbatim>\<open>selfattention.cc\<close>, \<^verbatim>\<open>transformerBlock.cc\<close>.
\<^item> \<open>TiC_Inference\<close>: \<^verbatim>\<open>transformer.cc\<close> and \<^verbatim>\<open>transformer.h\<close>; \<open>TiC_Mult_Test\<close>: \<^verbatim>\<open>mat_mult_test.cpp\<close>.
\<^item> \<open>TiC_FP_Words\<close>, \<open>TiC_FP_Core\<close>, \<open>TiC_FP_Lib\<close>: all of \<^verbatim>\<open>fplib.cc\<close>. \<open>TiC_FP_Spec\<close>, \<open>TiC_FP_Nearest\<close>: what correct rounding is.
  \<open>TiC_FP_Format\<close>, \<open>TiC_FP_Arith\<close>, \<open>TiC_FP_Wide\<close>, \<open>TiC_FP_Mul\<close>, \<open>TiC_FP_Div\<close>, \<open>TiC_FP_Convert\<close>, \<open>TiC_FP_Root\<close>, \<open>TiC_FP_Sqrt\<close>,
  \<open>TiC_FP_Sqrt_Double\<close>, \<open>TiC_FP_Total\<close>: rounding, sums, products, quotients, conversions and roots; \<open>TiC_FP_Results\<close>: the
  properties.

\<^bold>\<open>Interfaces.\<close> The software sees an accelerator through the record \<open>smm_ops\<close> of its four operations. The locale
\<open>systolic_driver\<close> states what \<^verbatim>\<open>processMultiplication\<close> needs of them; it is interpreted on the instructions of the simulated
device and on the emulation, so that every lemma about a storage format or a layer holds for both. \<open>element_view\<close> is the
contract of an element pointer, \<open>uniform_driver\<close> and \<open>element_driver\<close> extend the driver for activations as wide as weights and
for the test program. \<open>fp_format\<close>, \<open>fp_arith\<close>, \<open>fp_add\<close>, \<open>fp_mul\<close>, \<open>fp_div\<close> and \<open>fp_sqrt\<close> describe the code of one precision of
\<^verbatim>\<open>fplib.cc\<close>; each is interpreted on the functions for 32 and for 64 bits.

\<^bold>\<open>What is shown.\<close>
\<^item> The array and one tile: \<open>processMultiplication_gem5\<close>, \<open>cm_exec_safe\<close>, \<open>wrapper_roles\<close>.
\<^item> Every storage format: a dense kernel that is written and multiplied gives the matrix product modulo the width of an
  activation (\<open>gem5_dense_matmul\<close>, \<open>gem5_compressed_matmul\<close>, \<open>gem5_interleaved_matmul\<close>, \<open>gem5_metadata_matmul\<close>, \<open>gem5_flag_matmul\<close>,
  \<open>gem5_hidden_matmul\<close>), and the three multiplications agree (\<open>accelerators_agree\<close>, \<open>software_matches_accelerator\<close>).
\<^item> The layers (\<open>gem5_dense_layer\<close>, \<open>softmax_blocked_value\<close>, \<open>softmax_distribution\<close>, \<open>addnorm_blocked_value\<close>,
  \<open>addnorm_factor_range\<close>, \<open>transpose_twice\<close>, \<open>block_row_roundtrip\<close>), an attention head (\<open>gem5_attention\<close>) and the program, which
  computes the transformer block of its random input and kernels and is undefined exactly when that is (\<open>gem5_inference\<close>,
  \<open>gem5_main_completes\<close>, \<open>gem5_main_exit\<close>).
\<^item> The test program: its flushing loop ends (\<open>test_multiply_ends\<close>) and it passes (\<open>mult_test_passes\<close>).
\<^item> The floating-point library: sums, products, quotients, square roots and conversions are correctly rounded in every mode with
  the exact flags (\<open>fp_add_correct\<close>, \<open>fp_mul_correct\<close>, \<open>fp_div_correct\<close>, \<open>fp_sqrt_correct\<close>, \<open>fp_cvtf_correct\<close>), what rounding to
  nearest means (\<open>fp_add_nearest\<close>), and that no operation that can fail does: arithmetic, fused steps, estimates, rounding to
  integers and conversions return on every bit pattern (\<open>fplib_total\<close>).
\<^item> Where the code does not do what it means to: \<open>interleaved_overflow\<close>, \<open>interleaved_short_column\<close>, \<open>attention_second_call\<close>,
  \<open>addnorm_factor_range\<close>, \<open>addnorm_mean_correct\<close>, \<open>develop_divergence\<close>, \<open>gem5_test_undefined\<close>, \<open>computeFloat_undefined\<close>,
  \<open>misaligned_array_undefined\<close>, and in \<open>wrapper_roles\<close> the arguments of \<^verbatim>\<open>smmReadFlag\<close>.

\<^bold>\<open>Parameters.\<close> Floating-point operations of the layers and of the array (\<open>sa_cfg\<close>, \<open>layer_ops\<close>, \<open>float_ops\<close>) are arguments: the
compiler chooses the instructions, so the layers are not tied to \<open>TiC_FP_Lib\<close>. The words that \<^verbatim>\<open>rand()\<close> returns are an argument
of the program. The theorems about products, attention and the program are for integer arithmetic.

\<^bold>\<open>Not modelled.\<close>
\<^item> Output and files: the printing helpers and the reading and writing of weight files in \<^verbatim>\<open>debuggerFunctions.cc\<close>, \<^verbatim>\<open>printWeights\<close>,
  the functions \<^verbatim>\<open>dense2csr_test\<close> and its like in \<^verbatim>\<open>sparse_rep.cc\<close>, which fill a kernel, convert it and print it and are never
  called, and \<^verbatim>\<open>fill_sparse_kernel\<close>, which only they use. They have no result but text.
\<^item> \<^verbatim>\<open>saveWeight\<close> and \<^verbatim>\<open>append_flags\<close> of \<^verbatim>\<open>transformer.cc\<close> have empty bodies. The build with \<^verbatim>\<open>RELOAD_WEIGHT\<close> calls a \<^verbatim>\<open>loadWeight\<close>
  that the repository does not contain.
\<^item> The rest of the simulator (CPU pipelines, memory, statistics, scripts, \<^verbatim>\<open>ext/\<close>), of which the program uses only the device, the
  decoding and execution of its instructions and \<^verbatim>\<open>fplib.cc\<close>; and of the device the plumbing of a simulated object: address
  ranges, packets that it answers without effect, and parameters.
\<^item> Of \<^verbatim>\<open>fplib.cc\<close> the functions beyond the arithmetic named above (comparisons, minima, estimates, fused multiplication, rounding to
  integers, change of precision) are modelled and total; their values are not specified.
\<close>

section \<open>The two accelerators\<close>

text \<open>C9: The emulation that \<^verbatim>\<open>DEVELOP\<close> compiles in and the simulated accelerator give the same output bit for bit, for the
  formats that store the dense kernel and for any arithmetic, when a bus word holds one activation or a row of the
  array fits one bus word, and the array size is a multiple of four, as the emulation asserts.\<close>

theorem accelerators_agree:
  assumes "gem5_supported c" "develop_supported c" "on_tile (tile_wf c) s" "on_first (tile_wf c) ts"
    and "kernel_ok c m krn" "shapes_ok c m input (length output)" "mult_format m = NON_PRUNED \<or> mult_format m = DYNAMIC"
  shows "\<exists>s' ts' output'. compute_packed c (gem5_ops c th) m input row_ptr col_ind krn (s, output) = Some (s', output') \<and>
    compute_packed c (develop_ops c) m input row_ptr col_ind krn (ts, output) = Some (ts', output')"
  using gem5.computeNonPruned_run [OF assms(1,3,6,5), of th] develop.computeNonPruned_run [OF assms(2,4,6,5)]
    gem5.computeDynamic_run [OF assms(1,3,6,5), of th] develop.computeDynamic_run [OF assms(2,4,6,5)] assms(7)
  by (auto simp: compute_packed_def)

definition word_cfg :: "(32, 8) sa_cfg" where
  "word_cfg = int_cfg 4"

theorem accelerators_agree_witness:
  "\<exists>s' ts' output'.
    compute_packed word_cfg (gem5_ops word_cfg 0) (SparseMatrixMultiplier 4 4 1 NON_PRUNED) [1, 2, 3, 4] [] [] [5, 6, 7, 8]
      (((\<lambda>_. 0), smm_create word_cfg 0 0 1), [0, 0, 0, 0]) = Some (s', output') \<and>
    compute_packed word_cfg (develop_ops word_cfg) (SparseMatrixMultiplier 4 4 1 NON_PRUNED) [1, 2, 3, 4] [] [] [5, 6, 7, 8]
      (smmList word_cfg, [0, 0, 0, 0]) = Some (ts', output')"
proof (rule accelerators_agree)
  have cfg: "kernel_dim word_cfg = 4" "ACT_PER_BUS word_cfg = 1" "W_PER_BUS word_cfg = 4" "MAX_ACT_COL word_cfg = 4"
    "MAX_W_COL word_cfg = 1"
    by (simp_all add: word_cfg_def int_cfg_def ACT_PER_BUS_def W_PER_BUS_def MAX_ACT_COL_def MAX_W_COL_def per_bus_def
        BUS_WIDTH_def CEILING_DIV_def)
  show "gem5_supported word_cfg" "develop_supported word_cfg"
    by (simp_all add: gem5_supported_def develop_supported_def develop_sized_def cfg_ok_def cfg)
  show "kernel_ok word_cfg (SparseMatrixMultiplier 4 4 1 NON_PRUNED) [5, 6, 7, 8]"
    "shapes_ok word_cfg (SparseMatrixMultiplier 4 4 1 NON_PRUNED) [1, 2, 3, 4] (length [0, 0, 0, 0])"
    by (simp_all add: kernel_ok_def shapes_ok_def SparseMatrixMultiplier_def row_in_w_def col_in_w_def tile_words_def cfg)
qed (simp_all add: on_tile_def on_first_def smm_create_def get_tile_def rdi_def rd_def smmList_def SATile_wf
    SparseMatrixMultiplier_def)

text \<open>One row of the array, as bus words, whose only activation is \<open>v\<close> in column 1, and weights that are all 1.\<close>

definition second_act :: "('a::len, 'w::len) sa_cfg \<Rightarrow> 'a word \<Rightarrow> 32 word list" where
  "second_act c v = map (packed_word (kernel_dim c) (\<lambda>i j. if j = 1 then v else 0)) [0..<MAX_ACT_COL c]"

definition all_ones :: "('a::len, 'w::len) sa_cfg \<Rightarrow> 32 word list" where
  "all_ones c = map (packed_word (kernel_dim c) (\<lambda>i j. 1 :: 'w word)) [0..<kernel_dim c * MAX_W_COL c]"

lemma second_act_agree:
  fixes c :: "('a::len, 'w::len) sa_cfg"
  assumes ok: "cfg_ok c" and "1 < ACT_PER_BUS c" "1 < MAX_ACT_COL c"
  shows "first_lanes_agree c (second_act c v) (second_act c w)"
proof -
  let ?A = "ACT_PER_BUS c" and ?K = "kernel_dim c"
  have lane: "(bus_lane (second_act c u ! p) i :: 'a word) = (if p * ?A + i = 1 then u else 0)" if "p < MAX_ACT_COL c" "i < ?A" for u p i
  proof -
    have "p * ?A + i < ?K" using mem2d_less [OF that] by (simp add: mem2d_def cfg_okD(6) [OF ok])
    with that show ?thesis by (simp add: second_act_def packed_word_def bus_lane_pack ACT_PER_BUS_def)
  qed
  have "packed_word ?K (\<lambda>i j. if j = 1 then v else 0) (MAX_ACT_COL c - 1) = packed_word ?K (\<lambda>i j. if j = 1 then w else 0) (MAX_ACT_COL c - 1)"
    unfolding packed_word_def
  proof (rule bus_pack_cong)
    fix i assume "i < per_bus TYPE('a)"
    then have i': "i < ?A" by (simp add: ACT_PER_BUS_def)
    have "1 < (MAX_ACT_COL c - 1) * ?A" using assms(2,3) by (cases "MAX_ACT_COL c - 1") auto
    moreover have "(MAX_ACT_COL c - 1) * ?A + i < ?K"
      using mem2d_less [of "MAX_ACT_COL c - 1" "MAX_ACT_COL c" i ?A] assms(3) i' by (simp add: mem2d_def cfg_okD(6) [OF ok])
    ultimately show "(if ((MAX_ACT_COL c - 1) * per_bus TYPE('a) + i) mod ?K = 1 then v else 0) =
        (if ((MAX_ACT_COL c - 1) * per_bus TYPE('a) + i) mod ?K = 1 then w else 0)" by (simp add: ACT_PER_BUS_def)
  qed
  with lane [of _ 0] assms(2) show ?thesis unfolding first_lanes_agree_def by (auto simp: second_act_def)
qed

lemma second_act_product:
  fixes c :: "('a::len, 'w::len) sa_cfg"
  assumes "gem5_supported c" "int_arith c" "on_tile (tile_wf c) s" "1 < kernel_dim c"
  shows "\<exists>s' output'. processMultiplication c (gem5_ops c th) 1 (second_act c v) 0 0 (all_ones c) 0 (s, replicate (MAX_ACT_COL c) 0) =
      Some (s', output') \<and> bus_lane (output' ! 0) 0 = v"
proof -
  let ?X = "\<lambda>(i::nat) (j::nat). if j = 1 then v else 0" and ?K = "kernel_dim c" and ?M = "MAX_ACT_COL c"
  have ok: "cfg_ok c" and arith: "mac c = mac_int" "act_add c = (+)" "LENGTH('a) \<le> 32"
    using assms(1,2) by (auto simp: gem5_supported_def int_arith_def cfg_ok_def)
  have "run_result c (\<lambda>k. all_ones c ! (0 + k)) (block_input c 1 (second_act c v) 0) 0 =
      packed_word ?K (\<lambda>i j. ucast (col_sum c (?X i) (\<lambda>k. 1) ?K) :: 'a word) 0"
    using cfg_okD(8) [OF ok] by (intro packed_product [where rows = 1, OF ok]) (simp_all add: all_ones_def second_act_def block_input_def)
  moreover have "(\<Sum>i<?K. ?X 0 i * scast (1 :: 'w word)) = v"
    using assms(4) ok by (simp add: if_distrib [of "\<lambda>x. x * _"] cfg_ok_def cong: if_cong) auto
  moreover obtain s' where "processMultiplication c (gem5_ops c th) 1 (second_act c v) 0 0 (all_ones c) 0 (s, replicate ?M 0) =
      Some (s', add_block c 1 0 (run_result c (\<lambda>k. all_ones c ! (0 + k)) (block_input c 1 (second_act c v) 0)) (1 * ?M) (replicate ?M 0))"
    using gem5.processMultiplication_spec [OF assms(1,3), of 0 "all_ones c" 0 1 "second_act c v" 0 "replicate ?M 0" th]
    by (auto simp: all_ones_def second_act_def)
  ultimately show ?thesis using cfg_okD(2,8) [OF ok] arith
    by (simp add: add_block_def bus_lane_addActIn32 packed_word_def bus_lane_pack ACT_PER_BUS_def col_sum_int)
qed

text \<open>C30: The emulation computes no product when a bus word holds several activations and a row of the array several bus words.
  Multiplying a tile on it gives the same output and leaves the device in the same state for any two inputs that agree in the first
  activation of every bus word and in the last bus word of every row of the array; and for every such geometry with
  integers there are a tile and two such inputs whose products on the simulated accelerator differ.\<close>

theorem develop_divergence:
  fixes c :: "('a::len, 'w::len) sa_cfg"
  assumes "gem5_supported c" "develop_sized c" "int_arith c" "1 < ACT_PER_BUS c" "1 < MAX_ACT_COL c" "on_tile (tile_wf c) s"
  shows "(\<forall>xs ys seq_len row col vals voff ts output. first_lanes_agree c xs ys \<longrightarrow>
      processMultiplication c (develop_ops c) seq_len ys row col vals voff (ts, output) =
      processMultiplication c (develop_ops c) seq_len xs row col vals voff (ts, output)) \<and>
    (\<exists>xs ys vals output. first_lanes_agree c xs ys \<and>
      map_option snd (processMultiplication c (gem5_ops c th) 1 ys 0 0 vals 0 (s, output)) \<noteq>
      map_option snd (processMultiplication c (gem5_ops c th) 1 xs 0 0 vals 0 (s, output)))"
proof
  have ok: "cfg_ok c" using assms(1) by (simp add: gem5_supported_def)
  have "1 * 1 < MAX_ACT_COL c * ACT_PER_BUS c" using assms(4,5) by (intro mult_strict_mono) simp_all
  then have "1 < kernel_dim c" by (simp add: cfg_okD(6) [OF ok])
  from second_act_product [OF assms(1,3,6) this, of th 0] second_act_product [OF assms(1,3,6) this, of th 1]
  show "\<exists>xs ys vals output. first_lanes_agree c xs ys \<and>
      map_option snd (processMultiplication c (gem5_ops c th) 1 ys 0 0 vals 0 (s, output)) \<noteq>
      map_option snd (processMultiplication c (gem5_ops c th) 1 xs 0 0 vals 0 (s, output))"
    by (intro exI [of _ "second_act c 0"] exI [of _ "second_act c 1"] exI [of _ "all_ones c"] exI [of _ "replicate (MAX_ACT_COL c) 0"])
      (auto simp: second_act_agree [OF ok assms(4,5)])
qed (blast intro: develop_same_product [OF assms(2)])

text \<open>An array of four rows with two activations in a bus word. The second of four activations does not reach the result.\<close>

theorem develop_divergence_witness:
  "processMultiplication demo_cfg (develop_ops demo_cfg) 1 [0x00010063, 0x00030004] 0 0
     [0x01000000, 0x00010000, 0x00000100, 0x00000001] 0 (smmList demo_cfg, [0, 0]) =
   processMultiplication demo_cfg (develop_ops demo_cfg) 1 [0x00010002, 0x00030004] 0 0
     [0x01000000, 0x00010000, 0x00000100, 0x00000001] 0 (smmList demo_cfg, [0, 0]) \<and>
   (\<exists>xs ys vals output. first_lanes_agree demo_cfg xs ys \<and>
      map_option snd (processMultiplication demo_cfg (gem5_ops demo_cfg 0) 1 ys 0 0 vals 0 (demo_dev, output)) \<noteq>
      map_option snd (processMultiplication demo_cfg (gem5_ops demo_cfg 0) 1 xs 0 0 vals 0 (demo_dev, output)))"
proof -
  have "first_lanes_agree demo_cfg [0x00010002, 0x00030004] [0x00010063, 0x00030004]"
    by (simp add: first_lanes_agree_def less_Suc_eq) code_simp
  moreover have "develop_sized demo_cfg" using demo_supported by (simp add: develop_sized_def gem5_supported_def)
  moreover have "int_arith demo_cfg" by (simp add: int_arith_def demo_cfg_def int_cfg_def)
  moreover have "on_tile (tile_wf demo_cfg) demo_dev"
    by (simp add: on_tile_def demo_dev_def smm_create_def get_tile_def rdi_def rd_def SATile_wf)
  moreover have "1 < ACT_PER_BUS demo_cfg" "1 < MAX_ACT_COL demo_cfg" by simp_all
  ultimately show ?thesis using develop_divergence [OF demo_supported, of demo_dev 0] by blast
qed

end
